(* ===== verification/Aftr_Prelude.thy ===== *)
theory Aftr_Prelude
  imports Main "HOL-Library.Word"
begin

text \<open>
  Shared vocabulary of the development: the machine integer types of the C source, packet
  buffers as byte lists, big-endian reads and writes, the partial copies the code does with
  memcpy, and the generic lemmas on them that the component theories use.
\<close>

unbundle bit_operations_syntax

named_theorems buf_simps \<open>reads, lengths and writes of packet buffers\<close>
named_theorems be_simps \<open>big-endian values as arithmetic\<close>

type_synonym u8 = "8 word"
type_synonym u16 = "16 word"
type_synonym u32 = "32 word"
type_synonym bytes = "u8 list"

subsection \<open>Bytes of integers\<close>

text \<open>
  The code reads a network-order short as \<open>(h << 8) | l\<close> (or with \<open>+\<close>) and writes it back
  as \<open>x >> 8\<close> and \<open>x & 0xff\<close>, both stored into an unsigned char. The C type of the
  intermediate value is int.
\<close>

definition be16 :: "u8 \<Rightarrow> u8 \<Rightarrow> int" where
  "be16 h l = push_bit 8 (uint h) OR uint l"

definition hi8 :: "int \<Rightarrow> u8" where
  "hi8 x = word_of_int (drop_bit 8 x)"

definition lo8 :: "int \<Rightarrow> u8" where
  "lo8 x = word_of_int (x AND 0xff)"

lemma uint_u8_less: "uint (x :: u8) < 256"
  using uint_lt2p [of x] by simp

lemma uint_u8_le: "uint (x :: u8) \<le> 255"
  using uint_u8_less [of x] by linarith

lemma bit_uint_u8_high: "8 \<le> n \<Longrightarrow> \<not> bit (uint (x :: u8)) n"
  by (simp add: bit_uint_iff)

lemma bit_u8_high: "8 \<le> n \<Longrightarrow> \<not> bit (x :: u8) n"
  by (auto dest: bit_imp_le_length)

lemma push_or_u8: "push_bit 8 (a :: int) OR uint (l :: u8) = 256 * a + uint l"
proof -
  have "push_bit 8 a + uint l = push_bit 8 a OR uint l"
    by (rule disjunctive_add) (auto simp: bit_push_bit_iff dest: bit_uint_u8_high)
  then show ?thesis by (simp add: push_bit_eq_mult)
qed

lemma uint_eq_0_word [simp]: "uint (x :: 'a::len word) = 0 \<longleftrightarrow> x = 0"
  by (rule unsigned_eq_0_iff)

lemma be16_eq [be_simps]: "be16 h l = 256 * uint h + uint l"
  by (simp add: be16_def push_or_u8)

lemma be16_nonneg [simp]: "0 \<le> be16 h l"
  by (simp add: be16_eq)

lemma be16_less [simp]: "be16 h l < 65536"
  using uint_u8_le [of h] uint_u8_le [of l] unfolding be16_eq by linarith

lemma and_ffff [be_simps]: "(x :: int) AND 0xffff = x mod 65536"
proof -
  have "x AND mask 16 = take_bit 16 x" by (simp add: take_bit_eq_mask)
  then show ?thesis by (simp add: mask_eq_exp_minus_1 take_bit_eq_mod)
qed

lemma and_ff [be_simps]: "(x :: int) AND 0xff = x mod 256"
proof -
  have "x AND mask 8 = take_bit 8 x" by (simp add: take_bit_eq_mask)
  then show ?thesis by (simp add: mask_eq_exp_minus_1 take_bit_eq_mod)
qed

lemma ffff_and_not [be_simps]: "0xffff AND NOT (x :: int) = 65535 - x mod 65536"
proof -
  have "mask 16 AND NOT x = take_bit 16 (NOT x)"
    by (simp only: take_bit_eq_mask and.commute)
  also have "\<dots> = mask 16 - take_bit 16 x"
    by (rule take_bit_not_eq_mask_diff)
  finally show ?thesis by (simp add: mask_eq_exp_minus_1 take_bit_eq_mod)
qed

lemma drop16 [be_simps]: "drop_bit 16 (x :: int) = x div 65536"
  by (simp add: drop_bit_eq_div)

lemma drop8 [be_simps]: "drop_bit 8 (x :: int) = x div 256"
  by (simp add: drop_bit_eq_div)

lemma xor_ffff [be_simps]:
  assumes "0 \<le> (x :: int)" "x < 65536"
  shows "x XOR 0xffff = 65535 - x"
proof -
  have "x XOR 0xffff = x XOR mask 16" by (simp add: mask_eq_exp_minus_1)
  also have "\<dots> = NOT x AND mask 16"
  proof (rule bit_eqI)
    fix n
    have "x = take_bit 16 x" using assms by (simp add: take_bit_int_eq_self)
    then have "bit x n \<Longrightarrow> n < 16" by (metis bit_take_bit_iff)
    then show "bit (x XOR mask 16) n = bit (NOT x AND mask 16) n"
      by (auto simp: bit_xor_iff bit_and_iff bit_not_iff bit_mask_iff)
  qed
  also have "\<dots> = 65535 - x"
    using assms by (simp only: and.commute [of "NOT x"])
      (simp add: mask_eq_exp_minus_1 ffff_and_not)
  finally show ?thesis .
qed

lemma uint_hi8: "0 \<le> x \<Longrightarrow> x < 65536 \<Longrightarrow> uint (hi8 x) = x div 256"
  by (simp add: hi8_def drop8 uint_word_of_int)

lemma uint_lo8: "uint (lo8 x) = x mod 256"
  by (simp add: lo8_def and_ff uint_word_of_int)

lemma be16_hi_lo [simp]: "0 \<le> x \<Longrightarrow> x < 65536 \<Longrightarrow> be16 (hi8 x) (lo8 x) = x"
  by (simp add: be16_eq uint_hi8 uint_lo8)

lemma hi8_be16 [simp]: "hi8 (be16 h l) = h"
  by (rule word_uint_eqI) (simp add: uint_hi8, simp add: be16_eq uint_u8_less)

lemma lo8_be16 [simp]: "lo8 (be16 h l) = l"
  by (rule word_uint_eqI) (simp add: uint_lo8 be16_eq uint_u8_less)

subsection \<open>Buffers\<close>

text \<open>
  \<open>sub b off n\<close> is the \<open>n\<close> bytes at \<open>b + off\<close>, \<open>put b off s\<close> is the buffer after
  \<open>memcpy(b + off, s, |s|)\<close>. Both are used on ranges that lie in the buffer; the
  properties say so where it matters.
\<close>

definition sub :: "'a list \<Rightarrow> nat \<Rightarrow> nat \<Rightarrow> 'a list" where
  "sub b off n = take n (drop off b)"

definition put :: "'a list \<Rightarrow> nat \<Rightarrow> 'a list \<Rightarrow> 'a list" where
  "put b off s = take off b @ s @ drop (off + length s) b"

lemma length_sub [simp]: "off + n \<le> length b \<Longrightarrow> length (sub b off n) = n"
  by (simp add: sub_def)

lemma nth_sub [buf_simps]: "off + n \<le> length b \<Longrightarrow> i < n \<Longrightarrow> sub b off n ! i = b ! (off + i)"
  by (simp add: sub_def)

lemma length_put [simp]:
  "off + length s \<le> length b \<Longrightarrow> length (put b off s) = length b"
  by (simp add: put_def)

lemma nth_put [buf_simps]:
  "off + length s \<le> length b \<Longrightarrow> i < length b \<Longrightarrow>
     put b off s ! i = (if off \<le> i \<and> i < off + length s then s ! (i - off) else b ! i)"
  by (auto simp: put_def nth_append min_def)

lemma put_nil [simp]: "put b off [] = b"
  by (simp add: put_def)

lemma sub_put_same: "off + length s \<le> length b \<Longrightarrow> sub (put b off s) off (length s) = s"
  by (simp add: sub_def put_def)

lemma sub_put_disjoint:
  assumes "off + length s \<le> length b" "o2 + n \<le> length b"
    and "o2 + n \<le> off \<or> off + length s \<le> o2"
  shows "sub (put b off s) o2 n = sub b o2 n"
  using assms by (intro nth_equalityI) (auto simp: buf_simps)

lemma put_sub_self: "off + n \<le> length b \<Longrightarrow> put b off (sub b off n) = b"
  by (intro nth_equalityI) (auto simp: buf_simps)

lemma put_put_same:
  "off + length s \<le> length b \<Longrightarrow> length s = length s' \<Longrightarrow> put (put b off s) off s' = put b off s'"
  by (intro nth_equalityI) (auto simp: buf_simps)

lemma sub_0_full: "length b = n \<Longrightarrow> sub b 0 n = b"
  by (simp add: sub_def)

lemma sub_append_sub: "sub b off n @ sub b (off + n) m = sub b off (n + m)"
  by (simp add: sub_def take_add add.commute [of off])

lemma take_put_after: "off + length s \<le> length b \<Longrightarrow> n \<le> off \<Longrightarrow> take n (put b off s) = take n b"
  by (simp add: put_def)

lemma sub_as_drop: "sub b off n = drop off (take (off + n) b)"
  by (simp add: sub_def drop_take)

lemma sub_put_inside:
  "off + length s \<le> length b \<Longrightarrow> off \<le> o2 \<Longrightarrow> o2 + n \<le> off + length s \<Longrightarrow>
     sub (put b off s) o2 n = sub s (o2 - off) n"
  by (intro nth_equalityI) (auto simp: nth_sub nth_put)

lemma sub_update: "i < o2 \<or> o2 + n \<le> i \<Longrightarrow> sub (b[i := x]) o2 n = sub b o2 n"
  unfolding sub_def by (auto simp: drop_update_cancel drop_update_swap take_update_cancel)

lemma sub_replicate: "o2 + n \<le> m \<Longrightarrow> sub (replicate m x) o2 n = replicate n x"
  by (simp add: sub_def min_def)

lemma sub_drop: "sub (drop k b) o2 n = sub b (k + o2) n"
  by (simp add: sub_def add.commute)

end
