(* ===== verification/Aftr_Cksum.thy ===== *)
theory Aftr_Cksum
  imports Aftr_Prelude
begin

text \<open>
  The packet checksum utilities of \<^verbatim>\<open>aftr.c\<close> (in_cksum, pseudo_cksum, pseudo6_cksum,
  fix_cksum, fix_msscksum, fix_ftpsacksum). C's int is modelled as an unbounded integer and
  the lemmas on \<open>cksum_sum\<close> show that it stays in range for the packets the program
  handles, so no signed overflow is hidden. A \<open>u_char *\<close> argument is the list of the bytes
  from that address on; routines that write through it return the bytes they leave there.
\<close>

section \<open>Definitions\<close>

subsection \<open>The Internet checksum\<close>

fun cksum_sum :: "bytes \<Rightarrow> nat \<Rightarrow> int \<Rightarrow> int" where
  "cksum_sum p l acc =
     (if 1 < l
      then cksum_sum (drop 2 p) (l - 2) (acc + push_bit 8 (uint (p ! 0)) + uint (p ! 1))
      else if l = 1 then acc + push_bit 8 (uint (p ! 0))
      else acc)"

declare cksum_sum.simps [simp del]

definition in_cksum :: "bytes \<Rightarrow> nat \<Rightarrow> int" where
  "in_cksum p l =
     (let sum = cksum_sum p l 0;
          sum = (drop_bit 16 sum AND 0xffff) + (sum AND 0xffff);
          sum = sum + drop_bit 16 sum
      in 0xffff AND NOT sum)"

text \<open>
  pseudo_cksum writes the pseudo-header fields over bytes 8, 10 and 11 of the header,
  sums from byte 8, and restores what it overwrote. The result is the checksum together
  with the buffer it leaves behind.
\<close>

definition pseudo_cksum :: "bytes \<Rightarrow> bytes \<Rightarrow> nat \<Rightarrow> int \<times> bytes" where
  "pseudo_cksum p pl l =
     (let saved = sub p 8 4;
          p = p[8 := 0];
          p = p[10 := pl ! 0];
          p = p[11 := pl ! 1];
          sum = in_cksum (drop 8 p) (l - 8);
          p = put p 8 saved
      in (sum, p))"

text \<open>pseudo6_cksum works on the global IPv6 buffer and packet length.\<close>

definition pseudo6_cksum :: "bytes \<Rightarrow> nat \<Rightarrow> int \<times> bytes" where
  "pseudo6_cksum buf6 len =
     (let saved = sub buf6 0 8;
          l = word_of_nat len - 40 :: u32;
          buf6 = buf6[0 := ucast (drop_bit 24 l)];
          buf6 = buf6[1 := ucast (drop_bit 16 l AND 0xff)];
          buf6 = buf6[2 := ucast (drop_bit 8 l AND 0xff)];
          buf6 = buf6[3 := ucast (l AND 0xff)];
          buf6 = ((buf6[6 := 0])[5 := 0])[4 := 0];
          buf6 = buf6[7 := saved ! 6];
          sum = in_cksum buf6 len;
          buf6 = put buf6 0 saved
      in (sum, buf6))"

subsection \<open>Incremental update (RFC 1624)\<close>

text \<open>
  fix_cksum takes the two checksum bytes and, for the address and for the port, either
  NULL or the pair of the old and the new bytes; a pair that does not differ is skipped.
\<close>

definition fix_addr :: "int \<Rightarrow> (bytes \<times> bytes) option \<Rightarrow> int" where
  "fix_addr sum0 addr =
     (case addr of None \<Rightarrow> sum0
      | Some (oaddr, naddr) \<Rightarrow>
          if take 4 oaddr = take 4 naddr then sum0
          else
            (let m = be16 (oaddr ! 0) (oaddr ! 1);
                 m = m + push_bit 8 (uint (oaddr ! 2));
                 m = m + uint (oaddr ! 3);
                 m = drop_bit 16 m + (m AND 0xffff);
                 sum = sum0 + (m XOR 0xffff);
                 m = be16 (naddr ! 0) (naddr ! 1);
                 m = m + push_bit 8 (uint (naddr ! 2));
                 m = m + uint (naddr ! 3)
             in sum + m))"

definition fix_port :: "int \<Rightarrow> (bytes \<times> bytes) option \<Rightarrow> int" where
  "fix_port sum0 port =
     (case port of None \<Rightarrow> sum0
      | Some (oport, nport) \<Rightarrow>
          if take 2 oport = take 2 nport then sum0
          else
            (let m = be16 (oport ! 0) (oport ! 1);
                 sum = sum0 + (m XOR 0xffff);
                 m = be16 (nport ! 0) (nport ! 1)
             in sum + m))"

text \<open>The folding that ends every incremental update, and the two bytes it stores.\<close>

definition fold_store :: "int \<Rightarrow> bytes" where
  "fold_store sum0 =
     (let sum = drop_bit 16 sum0 + (sum0 AND 0xffff);
          sum = sum + drop_bit 16 sum;
          sum = NOT sum AND 0xffff
      in [hi8 sum, lo8 sum])"

definition fix_cksum ::
  "bytes \<Rightarrow> (bytes \<times> bytes) option \<Rightarrow> (bytes \<times> bytes) option \<Rightarrow> bytes" where
  "fix_cksum psum addr port =
     (let sum = be16 (psum ! 0) (psum ! 1);
          sum = NOT sum AND 0xffff;
          sum = fix_addr sum addr;
          sum = fix_port sum port
      in fold_store sum)"

text \<open>fix_msscksum returns the checksum bytes and the MSS option value it stores.\<close>

definition fix_msscksum :: "bytes \<Rightarrow> bytes \<Rightarrow> u16 \<Rightarrow> bytes \<times> bytes" where
  "fix_msscksum psum pmss newmss =
     (let sum = be16 (psum ! 0) (psum ! 1);
          sum = NOT sum AND 0xffff;
          m = be16 (pmss ! 0) (pmss ! 1);
          m = drop_bit 16 m + (m AND 0xffff);
          sum = sum + (m XOR 0xffff);
          pmss = [ucast (drop_bit 8 newmss), ucast newmss];
          m = be16 (pmss ! 0) (pmss ! 1);
          sum = sum + m
      in (fold_store sum, pmss))"

subsection \<open>FTP sequence adjustment\<close>

text \<open>One record of the FTP sequence list; the list order is the chain order.\<close>

record ftpseq =
  oldseq :: u32
  newseq :: u32
  delta :: int

definition be32 :: "bytes \<Rightarrow> u32" where
  "be32 b = push_bit 24 (ucast (b ! 0)) OR push_bit 16 (ucast (b ! 1))
            OR push_bit 8 (ucast (b ! 2)) OR ucast (b ! 3)"

definition bytes32 :: "u32 \<Rightarrow> bytes" where
  "bytes32 w = [ucast (drop_bit 24 w), ucast (drop_bit 16 w), ucast (drop_bit 8 w), ucast w]"

text \<open>The while loop that skips the records that start after the sequence number.\<close>

fun find_ftpseq :: "u32 \<Rightarrow> bool \<Rightarrow> ftpseq list \<Rightarrow> ftpseq option" where
  "find_ftpseq s0 seqack [] = None"
| "find_ftpseq s0 seqack (fs # rest) =
     (if \<not> seqack
      then (if 0 \<le> sint (s0 - oldseq fs) then Some fs else find_ftpseq s0 seqack rest)
      else (if 0 \<le> sint (s0 - newseq fs) then Some fs else find_ftpseq s0 seqack rest))"

definition fix_ftpsacksum :: "bytes \<Rightarrow> bytes \<Rightarrow> bool \<Rightarrow> ftpseq list \<Rightarrow> bytes \<times> bytes" where
  "fix_ftpsacksum psum psa seqack fs0 =
     (let s0 = be32 psa
      in case find_ftpseq s0 seqack fs0 of
           None \<Rightarrow> (psum, psa)
         | Some fs \<Rightarrow>
             (let sum = be16 (psum ! 0) (psum ! 1);
                  sum = NOT sum AND 0xffff;
                  s = (drop_bit 16 (uint s0) AND 0xffff) + (uint s0 AND 0xffff);
                  s = drop_bit 16 s + (s AND 0xffff);
                  sum = sum + (s XOR 0xffff);
                  s0 = (if \<not> seqack then s0 + word_of_int (delta fs)
                        else s0 - word_of_int (delta fs));
                  psa = bytes32 s0;
                  s = (drop_bit 16 (uint s0) AND 0xffff) + (uint s0 AND 0xffff);
                  sum = sum + s
              in (fold_store sum, psa)))"

section \<open>The sum of 16-bit words\<close>

text \<open>
  \<open>be_sum\<close> is the mathematical sum of the big-endian 16-bit words of a byte string, an odd
  last byte padded with zero; \<open>oc_norm\<close> is its representative in one's complement
  arithmetic (0 only for 0, otherwise in 1..65535).
\<close>

fun be_sum :: "bytes \<Rightarrow> int" where
  "be_sum [] = 0"
| "be_sum [a] = 256 * uint a"
| "be_sum (a # b # r) = 256 * uint a + uint b + be_sum r"

definition oc_norm :: "int \<Rightarrow> int" where
  "oc_norm s = (if s = 0 then 0 else (s - 1) mod 65535 + 1)"

lemma be_sum_nonneg [simp]: "0 \<le> be_sum xs"
  by (induction xs rule: be_sum.induct) auto

lemma be_sum_le: "be_sum xs \<le> 65535 * int ((length xs + 1) div 2)"
proof (induction xs rule: be_sum.induct)
  case (2 a)
  have "256 * uint a \<le> 65535" using uint_u8_le [of a] by linarith
  then show ?case by simp
next
  case (3 a b r)
  have "int ((length (a # b # r) + 1) div 2) = int ((length r + 1) div 2) + 1" by simp
  then show ?case using "3.IH" uint_u8_le [of a] uint_u8_le [of b] by simp
qed simp

lemma be_sum_append: "even (length xs) \<Longrightarrow> be_sum (xs @ ys) = be_sum xs + be_sum ys"
  by (induction xs rule: be_sum.induct) auto

lemma be_sum_2: "length xs = 2 \<Longrightarrow> be_sum xs = be16 (xs ! 0) (xs ! 1)"
  by (cases xs rule: be_sum.cases) (auto simp: be16_eq)

lemma be_sum_4:
  assumes "length xs = 4"
  shows "be_sum xs = be16 (xs ! 0) (xs ! 1) + be16 (xs ! 2) (xs ! 3)"
proof -
  obtain a b c d where "xs = [a, b, c, d]"
    using assms by (auto simp: numeral_eq_Suc length_Suc_conv)
  then show ?thesis by (simp add: be16_eq)
qed

lemma be_sum_pos: "i < length xs \<Longrightarrow> xs ! i \<noteq> 0 \<Longrightarrow> 0 < be_sum xs"
proof (induction xs arbitrary: i rule: be_sum.induct)
  case (2 a)
  then have "uint a \<noteq> 0" by simp
  then show ?case using uint_nonnegative [of a] unfolding be_sum.simps by linarith
next
  case (3 a b r)
  consider "i = 0" | "i = 1" | j where "i = Suc (Suc j)" "j < length r"
    using "3.prems" by (metis One_nat_def Suc_less_SucD length_Cons not0_implies_Suc)
  then show ?case
  proof cases
    case 1
    then have "uint a \<noteq> 0" using "3.prems" by simp
    then show ?thesis
      using uint_nonnegative [of a] uint_nonnegative [of b] be_sum_nonneg [of r]
      unfolding be_sum.simps by linarith
  next
    case 2
    then have "uint b \<noteq> 0" using "3.prems" by simp
    then show ?thesis
      using uint_nonnegative [of a] uint_nonnegative [of b] be_sum_nonneg [of r]
      unfolding be_sum.simps by linarith
  next
    case (3 j)
    then have "0 < be_sum r" using "3.IH" "3.prems" by simp
    then show ?thesis
      using uint_nonnegative [of a] uint_nonnegative [of b] unfolding be_sum.simps by linarith
  qed
qed simp

lemma take_put: "off + length s \<le> l \<Longrightarrow> l \<le> length b \<Longrightarrow> take l (put b off s) = put (take l b) off s"
  by (intro nth_equalityI) (auto simp: buf_simps)

lemma be_sum_put:
  assumes "even off" "even (length s)" "off + length s \<le> length b"
  shows "be_sum (put b off s) = be_sum b - be_sum (sub b off (length s)) + be_sum s"
proof -
  have b: "b = take off b @ sub b off (length s) @ drop (off + length s) b"
    by (simp add: sub_def add.commute [of off] drop_drop [symmetric] del: drop_drop)
  have len: "length (take off b) = off" "length (sub b off (length s)) = length s"
    using assms by auto
  have e: "even (length (take off b))" "even (length (sub b off (length s)))"
    using assms by (simp_all only: len)
  have "be_sum b = be_sum (take off b) + (be_sum (sub b off (length s))
          + be_sum (drop (off + length s) b))"
    by (subst b) (simp only: be_sum_append [OF e(1)] be_sum_append [OF e(2)])
  moreover have "be_sum (put b off s) = be_sum (take off b) + (be_sum s
          + be_sum (drop (off + length s) b))"
    by (simp only: put_def be_sum_append [OF e(1)] be_sum_append [OF assms(2)])
  ultimately show ?thesis by simp
qed

lemma cksum_sum_eq: "l \<le> length p \<Longrightarrow> cksum_sum p l acc = acc + be_sum (take l p)"
proof (induction p l acc rule: cksum_sum.induct)
  case (1 p l acc)
  consider "1 < l" | "l = 1" | "l = 0" by linarith
  then show ?case
  proof cases
    case 1
    with "1.prems" obtain a b r where p: "p = a # b # r"
      by (cases p rule: be_sum.cases) auto
    with 1 obtain m where l: "l = Suc (Suc m)"
      by (metis One_nat_def Suc_lessE less_imp_Suc_add add_Suc)
    have "cksum_sum r m (acc + push_bit 8 (uint a) + uint b)
            = acc + push_bit 8 (uint a) + uint b + be_sum (take m r)"
      using "1.IH" [OF 1] "1.prems" p l by (simp add: numeral_2_eq_2)
    then show ?thesis
      using 1 p l by (subst cksum_sum.simps) (simp add: numeral_2_eq_2 push_bit_eq_mult)
  next
    case 2
    with "1.prems" obtain a r where "p = a # r" by (cases p) auto
    with 2 show ?thesis by (subst cksum_sum.simps) (simp add: push_bit_eq_mult)
  qed (subst cksum_sum.simps, simp)
qed

lemma oc_norm_bounds [simp]: "0 \<le> oc_norm s" "oc_norm s \<le> 65535"
proof -
  have "0 \<le> (s - 1) mod 65535" "(s - 1) mod 65535 < 65535" by simp_all
  then show "0 \<le> oc_norm s" "oc_norm s \<le> 65535"
    unfolding oc_norm_def by (auto simp del: pos_mod_bound pos_mod_sign)
qed

lemma oc_norm_unique:
  assumes "0 \<le> r" "r \<le> 65535" "r = 0 \<longleftrightarrow> s = 0" "s = r + 65535 * k"
  shows "oc_norm s = r"
proof (cases "s = 0")
  case False
  then have "0 < r" using assms by auto
  have "(s - 1) mod 65535 = ((r - 1) + 65535 * k) mod 65535" using assms(4) by (simp add: algebra_simps)
  also have "\<dots> = r - 1" using \<open>0 < r\<close> assms(2) by simp
  finally show ?thesis using False by (simp add: oc_norm_def)
qed (use assms in \<open>simp add: oc_norm_def\<close>)

lemma oc_norm_ex: "\<exists>k. oc_norm s = s + 65535 * k"
proof (cases "s = 0")
  case False
  have "(s - 1) mod 65535 = (s - 1) - 65535 * ((s - 1) div 65535)"
    by (simp add: minus_mult_div_eq_mod)
  then have "oc_norm s = s + 65535 * (- ((s - 1) div 65535))"
    using False by (simp add: oc_norm_def)
  then show ?thesis by blast
qed (auto simp: oc_norm_def)

lemma oc_norm_top: "0 \<le> s \<Longrightarrow> oc_norm s = 65535 \<longleftrightarrow> 0 < s \<and> 65535 dvd s"
proof -
  assume s: "0 \<le> s"
  obtain k where k: "oc_norm s = s + 65535 * k" using oc_norm_ex by blast
  show ?thesis
  proof
    assume "oc_norm s = 65535"
    then have "s = 65535 * (1 - k)" "s \<noteq> 0" using k by (auto simp: oc_norm_def)
    then show "0 < s \<and> 65535 dvd s" using s by (metis dvd_triv_left le_neq_trans)
  next
    assume a: "0 < s \<and> 65535 dvd s"
    then obtain j where "s = 65535 * j" by (auto elim: dvdE)
    then have "s = 65535 + 65535 * (j - 1)" by simp
    then show "oc_norm s = 65535" using a by (intro oc_norm_unique [where k = "j - 1"]) auto
  qed
qed

text \<open>The two foldings of the code compute the one's complement representative.\<close>

lemma fold_norm:
  fixes s :: int
  assumes "0 \<le> s" "s < 4294967296"
  defines "t \<equiv> s div 65536 mod 65536 + s mod 65536"
  shows "(t + t div 65536) mod 65536 = oc_norm s" (is "?u = _")
    and "t = s div 65536 + s mod 65536" "0 \<le> t" "t \<le> 131070"
proof -
  obtain h l where hl: "h = s div 65536" "l = s mod 65536" by blast
  have h: "0 \<le> h" "h < 65536" and l: "0 \<le> l" "l < 65536" and s: "s = 65536 * h + l"
    using assms(1,2) hl by auto
  have t: "t = h + l" using h hl by (simp add: t_def)
  then show "t = s div 65536 + s mod 65536" by (simp add: hl)
  show tb: "0 \<le> t" "t \<le> 131070" using h l t by linarith+
  show "?u = oc_norm s"
  proof (cases "t < 65536")
    case True
    then have u: "?u = t" using tb by simp
    have "s = t + 65535 * h" "t = 0 \<longleftrightarrow> s = 0" using s t h l by linarith+
    then show ?thesis using u tb True by (intro oc_norm_unique [symmetric]) auto
  next
    case False
    then have d: "t div 65536 = 1" using tb by auto
    have "t + t div 65536 = (t - 65535) + 65536" using d by simp
    then have "?u = (t - 65535) mod 65536" by (simp only: mod_add_self2)
    then have u: "?u = t - 65535" using False tb by simp
    have "s = (t - 65535) + 65535 * (h + 1)" using s t by simp
    then show ?thesis using u tb False s h l
      by (intro oc_norm_unique [symmetric, where k = "h + 1"]) auto
  qed
qed

lemma fold_store_eq:
  assumes "0 \<le> s" "s < 4294967296"
  shows "length (fold_store s) = 2"
    and "be16 (fold_store s ! 0) (fold_store s ! 1) = 65535 - oc_norm s"
proof -
  define t where "t = s div 65536 mod 65536 + s mod 65536"
  have st: "drop_bit 16 s + (s AND 0xffff) = t"
    using fold_norm(2) [OF assms] by (simp add: be_simps t_def)
  have "NOT (t + drop_bit 16 t) AND 0xffff = 65535 - (t + t div 65536) mod 65536"
    by (simp add: and.commute [of "NOT _"] ffff_and_not drop16)
  also have "\<dots> = 65535 - oc_norm s"
    using fold_norm(1) [OF assms] by (simp add: t_def)
  finally have r: "NOT (t + drop_bit 16 t) AND 0xffff = 65535 - oc_norm s" .
  have f: "fold_store s = [hi8 (65535 - oc_norm s), lo8 (65535 - oc_norm s)]"
    unfolding fold_store_def Let_def st r ..
  show "length (fold_store s) = 2" by (simp add: f)
  show "be16 (fold_store s ! 0) (fold_store s ! 1) = 65535 - oc_norm s"
  proof -
    have "0 \<le> 65535 - oc_norm s" "65535 - oc_norm s < 65536"
      using oc_norm_bounds [of s] by linarith+
    then show ?thesis by (simp add: f)
  qed
qed

lemma in_cksum_eq:
  assumes "l \<le> length p" "l \<le> 65536"
  shows "in_cksum p l = 65535 - oc_norm (be_sum (take l p))"
proof -
  define s where "s = be_sum (take l p)"
  have "s \<le> 65535 * int ((l + 1) div 2)" using be_sum_le [of "take l p"] assms by (simp add: s_def)
  moreover have "int ((l + 1) div 2) \<le> 32768" using assms by simp
  ultimately have s: "0 \<le> s" "s < 4294967296" by (simp add: s_def, linarith)
  have "in_cksum p l = 65535 - (s div 65536 mod 65536 + s mod 65536
          + (s div 65536 mod 65536 + s mod 65536) div 65536) mod 65536"
    using assms
    by (simp only: in_cksum_def cksum_sum_eq [OF assms(1)] Let_def s_def [symmetric]
        and_ffff drop16 ffff_and_not add_0)
  then show ?thesis unfolding fold_norm(1) [OF s] by (simp only: s_def)
qed

text \<open>A region carries a valid checksum when its words sum to a nonzero multiple of 65535.\<close>

lemma in_cksum_zero_iff:
  assumes "l \<le> length p" "l \<le> 65536"
  shows "in_cksum p l = 0 \<longleftrightarrow> 0 < be_sum (take l p) \<and> 65535 dvd be_sum (take l p)"
  using oc_norm_top [of "be_sum (take l p)"] assms by (auto simp: in_cksum_eq)

lemma in_cksum_range: "l \<le> length p \<Longrightarrow> l \<le> 65536 \<Longrightarrow> 0 \<le> in_cksum p l \<and> in_cksum p l \<le> 65535"
  by (simp add: in_cksum_eq)

section \<open>RFC 1071 as a reference\<close>

text \<open>
  The reference definition: a running one's complement sum with an end-around carry at
  every addition, complemented at the end.
\<close>

definition oc_add :: "int \<Rightarrow> int \<Rightarrow> int" where
  "oc_add a b = (if 65535 < a + b then a + b - 65535 else a + b)"

fun rfc1071_sum :: "bytes \<Rightarrow> int \<Rightarrow> int" where
  "rfc1071_sum [] a = a"
| "rfc1071_sum [x] a = oc_add a (256 * uint x)"
| "rfc1071_sum (x # y # r) a = rfc1071_sum r (oc_add a (256 * uint x + uint y))"

lemma oc_add_norm:
  assumes "0 \<le> a" "0 \<le> w" "w \<le> 65535"
  shows "oc_add (oc_norm a) w = oc_norm (a + w)"
proof -
  obtain k where k: "oc_norm a = a + 65535 * k" using oc_norm_ex by blast
  have z: "oc_norm a = 0 \<longleftrightarrow> a = 0"
    using assms(1) pos_mod_sign [of 65535 "a - 1"] by (auto simp: oc_norm_def simp del: pos_mod_sign)
  note b = oc_norm_bounds [of a]
  show ?thesis
  proof (cases "65535 < oc_norm a + w")
    case True
    have "oc_norm (a + w) = oc_norm a + w - 65535"
      using True k b assms z by (intro oc_norm_unique [where k = "1 - k"]) auto
    with True show ?thesis by (simp add: oc_add_def)
  next
    case False
    have "oc_norm (a + w) = oc_norm a + w"
      using False k b assms z by (intro oc_norm_unique [where k = "- k"]) auto
    with False show ?thesis by (simp add: oc_add_def)
  qed
qed

lemma rfc1071_sum_norm: "0 \<le> a \<Longrightarrow> rfc1071_sum xs (oc_norm a) = oc_norm (a + be_sum xs)"
proof (induction xs arbitrary: a rule: be_sum.induct)
  case (2 x)
  have "256 * uint x \<le> 65535" using uint_u8_le [of x] by linarith
  with 2 show ?case by (simp add: oc_add_norm)
next
  case (3 x y r)
  have "256 * uint x + uint y \<le> 65535" using uint_u8_le [of x] uint_u8_le [of y] by linarith
  with 3 show ?case by (simp add: oc_add_norm add.assoc)
qed simp

text \<open>
  Claim C32: in_cksum is the RFC 1071 Internet checksum. On every buffer of at most 65536
  bytes, even or odd, its two deferred foldings give the complement of the one's complement
  sum with end-around carry at each addition.
\<close>

theorem in_cksum_rfc1071:
  assumes "l \<le> length p" "l \<le> 65536"
  shows "in_cksum p l = 65535 - rfc1071_sum (take l p) 0"
  using in_cksum_eq [OF assms] rfc1071_sum_norm [of 0 "take l p"]
  by (simp add: oc_norm_def)

theorem in_cksum_rfc1071_witness:
  "in_cksum [0x45, 0, 0, 0x1c, 0xff] 5 = 65535 - rfc1071_sum (take 5 [0x45, 0, 0, 0x1c, 0xff]) 0"
  by (rule in_cksum_rfc1071) simp_all

text \<open>
  The C accumulator of in_cksum never overflows a 32-bit int, at any point of the
  loop, for every length up to 65536 (the program checksums at most 65535 bytes of IPv4).
\<close>

theorem cksum_sum_no_overflow:
  assumes "l \<le> length p" "l \<le> 65536" "k \<le> l"
  shows "0 \<le> cksum_sum p k 0 \<and> cksum_sum p k 0 < 2 ^ 31"
proof -
  have "be_sum (take k p) \<le> 65535 * int ((k + 1) div 2)"
    using be_sum_le [of "take k p"] assms by simp
  moreover have "int ((k + 1) div 2) \<le> 32768" using assms by simp
  ultimately show ?thesis using assms by (simp add: cksum_sum_eq)
qed

theorem cksum_sum_no_overflow_witness:
  "0 \<le> cksum_sum [0xff, 0xff, 0xff] 2 0 \<and> cksum_sum [0xff, 0xff, 0xff] 2 0 < (2 ^ 31 :: int)"
  by (rule cksum_sum_no_overflow [where l = 3]) simp_all

section \<open>Filling in a checksum\<close>

lemma cksum_fill:
  assumes "l \<le> length b" "l \<le> 65536" "even c" "c + 2 \<le> l"
  shows "let b0 = put b c [0, 0]; ck = in_cksum b0 l
         in in_cksum (put b0 c [hi8 ck, lo8 ck]) l = 0"
proof -
  define b0 where "b0 = put b c [0, 0]"
  define ck where "ck = in_cksum b0 l"
  define b1 where "b1 = put b0 c [hi8 ck, lo8 ck]"
  define s where "s = be_sum (take l b0)"
  have len: "length b0 = length b" "length b1 = length b"
    using assms by (simp_all add: b0_def b1_def)
  have ck: "ck = 65535 - oc_norm s"
    using assms len by (simp add: ck_def s_def in_cksum_eq)
  then have "0 \<le> ck" "ck < 65536" using oc_norm_bounds [of s] by linarith+
  then have st: "be_sum [hi8 ck, lo8 ck] = ck" by (simp add: be16_hi_lo flip: be16_eq)
  have "sub (take l b0) c 2 = [0, 0]"
    using assms by (intro nth_equalityI) (auto simp: sub_def b0_def nth_put less_Suc_eq numeral_2_eq_2)
  then have z: "be_sum (sub (take l b0) c 2) = 0" by simp
  have "take l b1 = put (take l b0) c [hi8 ck, lo8 ck]"
    using assms len by (simp add: b1_def take_put)
  then have "be_sum (take l b1) = s + ck"
    using assms len st z be_sum_put [of c "[hi8 ck, lo8 ck]" "take l b0"]
    by (simp add: s_def numeral_2_eq_2)
  moreover obtain k where "oc_norm s = s + 65535 * k" using oc_norm_ex by blast
  ultimately have sum: "be_sum (take l b1) = 65535 * (1 - k)"
    "be_sum (take l b1) = s + (65535 - oc_norm s)" using ck by auto
  moreover have "0 < s + (65535 - oc_norm s)"
  proof (cases "s = 0")
    case False
    then have "0 < s" using be_sum_nonneg [of "take l b0"] by (simp only: s_def)
    then show ?thesis using oc_norm_bounds(2) [of s] by linarith
  qed (simp add: oc_norm_def)
  ultimately have "0 < be_sum (take l b1) \<and> 65535 dvd be_sum (take l b1)"
    by (metis dvd_triv_left)
  then have "in_cksum b1 l = 0" using assms len by (simp add: in_cksum_zero_iff)
  then show ?thesis by (simp add: b0_def ck_def b1_def Let_def)
qed

lemma in_cksum_cong:
  "take l b = take l b' \<Longrightarrow> l \<le> length b \<Longrightarrow> l \<le> length b' \<Longrightarrow> l \<le> 65536 \<Longrightarrow> in_cksum b l = in_cksum b' l"
  by (simp add: in_cksum_eq)

lemma cksum_fill0:
  assumes "l \<le> length b" "l \<le> 65536" "even c" "c + 2 \<le> l" "sub b c 2 = [0, 0]"
  shows "in_cksum (put b c [hi8 (in_cksum b l), lo8 (in_cksum b l)]) l = 0"
proof -
  have "put b c [0, 0] = b" using put_sub_self [of c 2 b] assms by simp
  then show ?thesis using cksum_fill [OF assms(1-4)] by (simp add: Let_def)
qed

text \<open>
  Zeroing an even-aligned checksum field, computing in_cksum over the region and
  storing it big-endian makes the region verify: the next in_cksum over it returns 0.
\<close>

theorem cksum_fill_valid:
  assumes "l \<le> length b" "l \<le> 65536" "even c" "c + 2 \<le> l"
  shows "let b0 = put b c [0, 0]; ck = in_cksum b0 l
         in in_cksum (put b0 c [hi8 ck, lo8 ck]) l = 0"
  using assms by (rule cksum_fill)

theorem cksum_fill_valid_witness:
  "let b = [0x45, 0, 0, 0x1c, 7, 9]; b0 = put b 4 [0, 0]; ck = in_cksum b0 6
   in in_cksum (put b0 4 [hi8 ck, lo8 ck]) 6 = 0"
  using cksum_fill_valid [of 6 "[0x45, 0, 0, 0x1c, 7, 9]" 4] by (simp add: Let_def)

section \<open>Incremental update\<close>

lemma not_and_ffff: "0 \<le> x \<Longrightarrow> x < 65536 \<Longrightarrow> NOT (x :: int) AND 0xffff = 65535 - x"
  by (simp add: and.commute [of "NOT _"] ffff_and_not)

text \<open>
  Each step of the update adds the complement of the old value and the new value, so that
  modulo 65535 the stored checksum moves by the difference. \<open>old_sum\<close> and \<open>new_sum\<close> are
  what the address or port pair contributes.
\<close>

definition old_sum :: "nat \<Rightarrow> (bytes \<times> bytes) option \<Rightarrow> int" where
  "old_sum n p = (case p of None \<Rightarrow> 0 | Some (old, new) \<Rightarrow> be_sum (take n old))"

definition new_sum :: "nat \<Rightarrow> (bytes \<times> bytes) option \<Rightarrow> int" where
  "new_sum n p = (case p of None \<Rightarrow> 0 | Some (old, new) \<Rightarrow> be_sum (take n new))"

definition pair_len :: "nat \<Rightarrow> (bytes \<times> bytes) option \<Rightarrow> bool" where
  "pair_len n p = (case p of None \<Rightarrow> True | Some (old, new) \<Rightarrow> n \<le> length old \<and> n \<le> length new)"

lemma fix_addr_step:
  assumes "0 \<le> s" "pair_len 4 p"
  obtains k where "fix_addr s p = s - old_sum 4 p + new_sum 4 p + 65535 * k"
    and "s \<le> fix_addr s p" "fix_addr s p \<le> s + 200000"
proof (cases p)
  case None
  then show ?thesis using that [of 0] by (simp add: fix_addr_def old_sum_def new_sum_def)
next
  case (Some q)
  obtain old new where p: "p = Some (old, new)" using Some by (cases q) auto
  with assms have len: "4 \<le> length old" "4 \<le> length new" by (auto simp: pair_len_def)
  have o: "be_sum (take 4 old) = be16 (old ! 0) (old ! 1) + push_bit 8 (uint (old ! 2)) + uint (old ! 3)"
    and n: "be_sum (take 4 new) = be16 (new ! 0) (new ! 1) + push_bit 8 (uint (new ! 2)) + uint (new ! 3)"
    using len by (simp_all add: be_sum_4 be16_eq push_bit_eq_mult)
  define m where "m = be_sum (take 4 old)"
  define m' where "m' = drop_bit 16 m + (m AND 0xffff)"
  have mb: "0 \<le> m" "m \<le> 131070" using be_sum_le [of "take 4 old"] len by (simp_all add: m_def)
  have nb: "be_sum (take 4 new) \<le> 131070" using be_sum_le [of "take 4 new"] len by simp
  have m': "m' = m div 65536 + m mod 65536" by (simp add: m'_def be_simps)
  obtain h l where hl: "h = m div 65536" "l = m mod 65536" by blast
  then have h: "h = 0 \<or> h = 1" and l: "0 \<le> l" "l < 65536" and m: "m = 65536 * h + l"
    using mb by auto
  have "m' = h + l" by (simp only: m' hl)
  then have m'b: "0 \<le> m'" "m' < 65536" and "m = m' + 65535 * h"
    using h l m mb by auto
  then obtain j where j: "m = m' + 65535 * j" by blast
  show ?thesis
  proof (cases "take 4 old = take 4 new")
    case True
    then show ?thesis using that [of 0] p by (simp add: fix_addr_def old_sum_def new_sum_def)
  next
    case False
    have "fix_addr s p = s + (m' XOR 0xffff) + be_sum (take 4 new)"
      using False p o n by (simp add: fix_addr_def m'_def m_def Let_def)
    also have "m' XOR 0xffff = 65535 - m'" using m'b by (rule xor_ffff)
    finally have f: "fix_addr s p = s + (65535 - m') + be_sum (take 4 new)" .
    show ?thesis
    proof (rule that [of "1 + j"])
      show "fix_addr s p = s - old_sum 4 p + new_sum 4 p + 65535 * (1 + j)"
        using f j p by (simp add: old_sum_def new_sum_def m_def algebra_simps)
      show "s \<le> fix_addr s p" "fix_addr s p \<le> s + 200000"
        using f m'b nb be_sum_nonneg [of "take 4 new"] by linarith+
    qed
  qed
qed

lemma fix_port_step:
  assumes "0 \<le> s" "pair_len 2 p"
  obtains k where "fix_port s p = s - old_sum 2 p + new_sum 2 p + 65535 * k"
    and "s \<le> fix_port s p" "fix_port s p \<le> s + 200000"
proof (cases p)
  case None
  then show ?thesis using that [of 0] by (simp add: fix_port_def old_sum_def new_sum_def)
next
  case (Some q)
  obtain old new where p: "p = Some (old, new)" using Some by (cases q) auto
  with assms have len: "2 \<le> length old" "2 \<le> length new" by (auto simp: pair_len_def)
  have o: "be_sum (take 2 old) = be16 (old ! 0) (old ! 1)"
    and n: "be_sum (take 2 new) = be16 (new ! 0) (new ! 1)"
    using len by (simp_all add: be_sum_2)
  show ?thesis
  proof (cases "take 2 old = take 2 new")
    case True
    then show ?thesis using that [of 0] p by (simp add: fix_port_def old_sum_def new_sum_def)
  next
    case False
    have "be16 (old ! 0) (old ! 1) XOR 0xffff = 65535 - be16 (old ! 0) (old ! 1)"
      by (rule xor_ffff) simp_all
    then have f: "fix_port s p = s + (65535 - be_sum (take 2 old)) + be_sum (take 2 new)"
      using False p o n by (simp add: fix_port_def Let_def)
    show ?thesis
    proof (rule that [of 1])
      show "fix_port s p = s - old_sum 2 p + new_sum 2 p + 65535 * 1"
        using f p by (simp add: old_sum_def new_sum_def)
      show "s \<le> fix_port s p" "fix_port s p \<le> s + 200000"
        using f o n be16_less [of "old ! 0" "old ! 1"] be16_less [of "new ! 0" "new ! 1"]
          be16_nonneg [of "old ! 0" "old ! 1"] be16_nonneg [of "new ! 0" "new ! 1"] by linarith+
    qed
  qed
qed

lemma fold_store_ex:
  assumes "0 \<le> s" "s < 4294967296"
  shows "\<exists>k. be_sum (fold_store s) = 65535 - s + 65535 * k"
proof -
  obtain k where "oc_norm s = s + 65535 * k" using oc_norm_ex by blast
  then have "be_sum (fold_store s) = 65535 - s + 65535 * (- k)"
    using fold_store_eq [OF assms] by (simp add: be_sum_2)
  then show ?thesis by blast
qed

lemma length_fold_store [simp]: "length (fold_store s) = 2"
  by (simp add: fold_store_def Let_def)

lemma length_fix_cksum [simp]: "length (fix_cksum c a p) = 2"
  by (simp add: fix_cksum_def Let_def)

text \<open>Modulo 65535 the new checksum is the old one plus the old bytes minus the new bytes.\<close>

lemma fix_cksum_cong:
  assumes "length psum = 2" "pair_len 4 addr" "pair_len 2 port"
  shows "\<exists>k. be_sum (fix_cksum psum addr port)
           = be_sum psum + old_sum 4 addr - new_sum 4 addr + old_sum 2 port - new_sum 2 port + 65535 * k"
proof -
  define s0 where "s0 = NOT (be16 (psum ! 0) (psum ! 1)) AND 0xffff"
  have "s0 = 65535 - be_sum psum"
    using assms by (simp add: s0_def be_sum_2 not_and_ffff)
  moreover have "0 \<le> be_sum psum" "be_sum psum \<le> 65535"
    using be_sum_le [of psum] assms(1) by simp_all
  ultimately have s0: "s0 = 65535 - be_sum psum" "0 \<le> s0" "s0 \<le> 65535" by linarith+
  obtain i where i: "fix_addr s0 addr = s0 - old_sum 4 addr + new_sum 4 addr + 65535 * i"
    and ib: "s0 \<le> fix_addr s0 addr" "fix_addr s0 addr \<le> s0 + 200000"
    using fix_addr_step [OF s0(2) assms(2)] by metis
  define s1 where "s1 = fix_addr s0 addr"
  have "0 \<le> s1" using ib s0 by (simp add: s1_def)
  then obtain j where j: "fix_port s1 port = s1 - old_sum 2 port + new_sum 2 port + 65535 * j"
    and jb: "s1 \<le> fix_port s1 port" "fix_port s1 port \<le> s1 + 200000"
    using fix_port_step [OF _ assms(3)] by metis
  have b: "0 \<le> fix_port s1 port" "fix_port s1 port < 4294967296"
    using ib jb s0 unfolding s1_def by linarith+
  obtain k where "be_sum (fold_store (fix_port s1 port)) = 65535 - fix_port s1 port + 65535 * k"
    using fold_store_ex [OF b] by blast
  moreover have "fix_cksum psum addr port = fold_store (fix_port s1 port)"
    by (simp only: fix_cksum_def Let_def s1_def s0_def)
  ultimately have "be_sum (fix_cksum psum addr port)
      = be_sum psum + old_sum 4 addr - new_sum 4 addr + old_sum 2 port - new_sum 2 port
        + 65535 * (k - i - j)"
    using i j s0 unfolding s1_def by (simp only:) (simp add: algebra_simps)
  then show ?thesis by blast
qed

text \<open>
  A general update of a region: rewriting an even-aligned range and then moving the
  checksum by the difference keeps the region valid, as long as some byte elsewhere is
  nonzero (the version byte of an IPv4 header, the protocol byte of a pseudo-header).
\<close>

lemma sub_take: "off + n \<le> l \<Longrightarrow> sub (take l b) off n = sub b off n"
  by (simp add: sub_def drop_take min_def)

lemma be_sum_take_put:
  assumes "even off" "even (length s)" "off + length s \<le> l" "l \<le> length b"
  shows "be_sum (take l (put b off s)) = be_sum (take l b) - be_sum (sub b off (length s)) + be_sum s"
  using be_sum_put [of off s "take l b"] assms by (simp add: take_put sub_take)

lemma in_cksum_moved:
  assumes "in_cksum b l = 0" "l \<le> length b" "length b' = length b" "l \<le> 65536"
    and "be_sum (take l b') = be_sum (take l b) + 65535 * k"
    and "i < l" "b' ! i \<noteq> 0"
  shows "in_cksum b' l = 0"
proof -
  have "65535 dvd be_sum (take l b)" using assms by (simp add: in_cksum_zero_iff)
  then have "65535 dvd be_sum (take l b')" using assms(5) by simp
  moreover have "0 < be_sum (take l b')" using assms by (intro be_sum_pos [of i]) auto
  ultimately show ?thesis using assms by (simp add: in_cksum_zero_iff)
qed

lemma fix_cksum_moves:
  assumes valid: "in_cksum b l = 0" and len: "l \<le> length b" "l \<le> 65536"
    and al: "even a" "even q" "even c"
    and inb: "a + 4 \<le> l" "q + 2 \<le> l" "c + 2 \<le> l"
    and dis: "a + 4 \<le> q \<or> q + 2 \<le> a" "a + 4 \<le> c \<or> c + 2 \<le> a" "q + 2 \<le> c \<or> c + 2 \<le> q"
    and new: "length naddr = 4" "length nport = 2"
    and i: "i < l" "b ! i \<noteq> 0" "i \<notin> {a..<a + 4} \<union> {q..<q + 2} \<union> {c..<c + 2}"
  shows "in_cksum (put (put (put b a naddr) q nport) c
           (fix_cksum (sub b c 2) (Some (sub b a 4, naddr)) (Some (sub b q 2, nport)))) l = 0"
proof -
  let ?ck = "fix_cksum (sub b c 2) (Some (sub b a 4, naddr)) (Some (sub b q 2, nport))"
  let ?b1 = "put b a naddr" and ?b2 = "put (put b a naddr) q nport"
  let ?b3 = "put ?b2 c ?ck"
  have lens: "length ?b1 = length b" "length ?b2 = length b" "length ?b3 = length b"
    using len inb new by simp_all
  have s1: "sub ?b1 q 2 = sub b q 2" "sub ?b2 c 2 = sub b c 2"
    using len inb dis new by (auto simp: sub_put_disjoint)
  have "be_sum (take l ?b3) = be_sum (take l b)
      - be_sum (sub b a 4) + be_sum naddr - be_sum (sub b q 2) + be_sum nport
      - be_sum (sub b c 2) + be_sum ?ck"
    using len inb al new lens s1
      be_sum_take_put [of a naddr l b] be_sum_take_put [of q nport l ?b1] be_sum_take_put [of c ?ck l ?b2]
    by simp
  moreover obtain k where "be_sum ?ck = be_sum (sub b c 2) + be_sum (sub b a 4) - be_sum naddr
      + be_sum (sub b q 2) - be_sum nport + 65535 * k"
    using fix_cksum_cong [of "sub b c 2" "Some (sub b a 4, naddr)" "Some (sub b q 2, nport)"] len inb new
    by (auto simp: pair_len_def old_sum_def new_sum_def)
  ultimately have "be_sum (take l ?b3) = be_sum (take l b) + 65535 * k" by simp
  moreover have "?b3 ! i \<noteq> 0"
    using i len inb new by (auto simp: nth_put)
  ultimately show ?thesis
    using in_cksum_moved [OF valid len(1) lens(3) len(2), of k i] i by blast
qed

text \<open>
  Claim C8: fix_cksum is a correct incremental update. Take a region whose checksum
  verifies, with even-aligned address, port and checksum fields that do not overlap. After
  the four address bytes and the two port bytes are replaced and the checksum field gets
  what fix_cksum returns, the region verifies again.
\<close>

theorem fix_cksum_keeps_valid:
  assumes valid: "in_cksum b l = 0" and len: "l \<le> length b" "l \<le> 65536"
    and al: "even a" "even q" "even c"
    and inb: "a + 4 \<le> l" "q + 2 \<le> l" "c + 2 \<le> l"
    and dis: "a + 4 \<le> q \<or> q + 2 \<le> a" "a + 4 \<le> c \<or> c + 2 \<le> a" "q + 2 \<le> c \<or> c + 2 \<le> q"
    and new: "length naddr = 4" "length nport = 2"
    and i: "i < l" "b ! i \<noteq> 0" "i \<notin> {a..<a + 4} \<union> {q..<q + 2} \<union> {c..<c + 2}"
  shows "in_cksum (put (put (put b a naddr) q nport) c
           (fix_cksum (sub b c 2) (Some (sub b a 4, naddr)) (Some (sub b q 2, nport)))) l = 0"
  using assms by (rule fix_cksum_moves)

theorem fix_cksum_keeps_valid_witness:
  "let b = [0x45, 0, 0xb0, 0xae, 10, 0, 0, 1, 0, 0x50] :: bytes; n = [192, 0, 2, 1]; q = [1, 2]
   in in_cksum b 10 = 0 \<and>
      in_cksum (put (put (put b 4 n) 8 q) 2
        (fix_cksum (sub b 2 2) (Some (sub b 4 4, n)) (Some (sub b 8 2, q)))) 10 = 0"
proof -
  let ?b = "[0x45, 0, 0xb0, 0xae, 10, 0, 0, 1, 0, 0x50] :: bytes"
  have v: "in_cksum ?b 10 = 0" by code_simp
  show ?thesis unfolding Let_def
    by (intro conjI v fix_cksum_keeps_valid [OF v, where i = 0]) simp_all
qed

section \<open>MSS rewriting\<close>

lemma u16_bytes:
  "be16 (ucast (drop_bit 8 w)) (ucast w) = uint (w :: u16)"
proof -
  have "uint w < 65536" using uint_lt2p [of w] by simp
  then have "uint w div 256 < 256" "0 \<le> uint w div 256"
    by (simp_all add: pos_imp_zdiv_nonneg_iff)
  then show ?thesis
    by (simp add: be16_eq unsigned_ucast_eq unsigned_drop_bit_eq take_bit_eq_mod drop8)
qed

lemma fix_msscksum_cong:
  assumes "length psum = 2" "length pmss = 2" "fix_msscksum psum pmss newmss = (ck, mss)"
  shows "length ck = 2" "length mss = 2" "be16 (mss ! 0) (mss ! 1) = uint newmss"
    and "\<exists>k. be_sum ck = be_sum psum + be_sum pmss - be_sum mss + 65535 * k"
proof -
  define m where "m = be16 (pmss ! 0) (pmss ! 1)"
  have m: "0 \<le> m" "m < 65536" "m = be_sum pmss" using assms by (simp_all add: m_def be_sum_2)
  define s where "s = (65535 - be16 (psum ! 0) (psum ! 1)) + (65535 - m) + be16 (mss ! 0) (mss ! 1)"
  have fm: "drop_bit 16 m + (m AND 0xffff) = m" using m by (simp add: be_simps)
  have xm: "m XOR 0xffff = 65535 - m" using m by (intro xor_ffff) auto
  have nm: "NOT (be16 (psum ! 0) (psum ! 1)) AND 0xffff = 65535 - be16 (psum ! 0) (psum ! 1)"
    by (rule not_and_ffff) simp_all
  have mss: "mss = [ucast (drop_bit 8 newmss), ucast newmss]" and ck: "ck = fold_store s"
    using assms(3) unfolding fix_msscksum_def Let_def s_def
    by (simp_all only: m_def [symmetric] fm xm nm prod.inject) auto
  show "length ck = 2" "length mss = 2" by (simp_all add: mss ck)
  show v: "be16 (mss ! 0) (mss ! 1) = uint newmss" by (simp add: mss u16_bytes)
  have "0 \<le> s" "s < 4294967296"
    using m be16_less [of "psum ! 0" "psum ! 1"] be16_less [of "mss ! 0" "mss ! 1"]
      be16_nonneg [of "psum ! 0" "psum ! 1"] be16_nonneg [of "mss ! 0" "mss ! 1"]
    unfolding s_def by linarith+
  then obtain k where "be_sum ck = 65535 - s + 65535 * k"
    using fold_store_ex [of s] ck by blast
  then have "be_sum ck = be_sum psum + be_sum pmss - be_sum mss + 65535 * (k - 1)"
    using assms \<open>length mss = 2\<close> m by (simp add: s_def be_sum_2)
  then show "\<exists>k. be_sum ck = be_sum psum + be_sum pmss - be_sum mss + 65535 * k" by blast
qed

text \<open>
  Rewriting an MSS value that sits at an even offset of the checksummed region
  with fix_msscksum keeps the checksum valid, and the new value reads back.
\<close>

theorem fix_msscksum_even_offset:
  assumes "in_cksum b l = 0" "l \<le> length b" "l \<le> 65536" "even m" "even c" "m + 2 \<le> l" "c + 2 \<le> l"
    and "m + 2 \<le> c \<or> c + 2 \<le> m"
    and "fix_msscksum (sub b c 2) (sub b m 2) newmss = (ck, mss)"
    and "i < l" "b ! i \<noteq> 0" "i \<notin> {m..<m + 2} \<union> {c..<c + 2}"
  shows "in_cksum (put (put b m mss) c ck) l = 0 \<and> be16 (mss ! 0) (mss ! 1) = uint newmss"
proof -
  have len: "length (sub b c 2) = 2" "length (sub b m 2) = 2" using assms by simp_all
  note ms = fix_msscksum_cong [OF len assms(9)]
  let ?b1 = "put b m mss" and ?b2 = "put (put b m mss) c ck"
  have lens: "length ?b1 = length b" "length ?b2 = length b" using assms ms by simp_all
  have "sub ?b1 c 2 = sub b c 2" using assms ms by (auto simp: sub_put_disjoint)
  then have "be_sum (take l ?b2) = be_sum (take l b) - be_sum (sub b m 2) + be_sum mss
      - be_sum (sub b c 2) + be_sum ck"
    using assms ms lens be_sum_take_put [of m mss l b] be_sum_take_put [of c ck l ?b1] by simp
  moreover obtain k where "be_sum ck = be_sum (sub b c 2) + be_sum (sub b m 2) - be_sum mss + 65535 * k"
    using ms(4) by blast
  ultimately have "be_sum (take l ?b2) = be_sum (take l b) + 65535 * k" by simp
  moreover have "?b2 ! i \<noteq> 0" using assms ms by (auto simp: nth_put)
  ultimately have "in_cksum ?b2 l = 0"
    using in_cksum_moved [OF assms(1,2) lens(2) assms(3)] assms(10) by blast
  then show ?thesis using ms by simp
qed

theorem fix_msscksum_even_offset_witness:
  "let b = [0x45, 0, 0xb0, 0xae, 10, 0, 0, 1, 0, 0x50] :: bytes
   in case fix_msscksum (sub b 2 2) (sub b 4 2) 1400 of (ck, mss) \<Rightarrow>
        in_cksum (put (put b 4 mss) 2 ck) 10 = 0 \<and> be16 (mss ! 0) (mss ! 1) = uint (1400 :: u16)"
proof -
  let ?b = "[0x45, 0, 0xb0, 0xae, 10, 0, 0, 1, 0, 0x50] :: bytes"
  have v: "in_cksum ?b 10 = 0" by code_simp
  obtain ck mss where f: "fix_msscksum (sub ?b 2 2) (sub ?b 4 2) 1400 = (ck, mss)" by fastforce
  show ?thesis unfolding Let_def f prod.case
    by (rule fix_msscksum_even_offset [OF v _ _ _ _ _ _ _ f, where i = 0]) simp_all
qed

text \<open>
  At an odd offset the two bytes of the MSS belong to two different 16-bit words, with the
  weights of the high and the low byte exchanged, and the update is wrong.
\<close>

lemma be_sum_put_odd:
  assumes "odd m" "m + 3 \<le> l" "l \<le> length b" "length v = 2"
  shows "be_sum (take l (put b m v)) = be_sum (take l b)
     - (256 * uint (b ! (m + 1)) + uint (b ! m)) + (256 * uint (v ! 1) + uint (v ! 0))"
proof -
  let ?w = "[b ! (m - 1), v ! 0, v ! 1, b ! (m + 2)]"
  obtain v0 v1 where v: "v = [v0, v1]"
    using assms by (auto simp: numeral_2_eq_2 length_Suc_conv)
  obtain n where n: "m = Suc n" using assms(1) by (cases m) auto
  have eq: "put b m v = put b (m - 1) ?w"
  proof (rule nth_equalityI)
    show "length (put b m v) = length (put b (m - 1) ?w)" using assms by simp
  next
    fix i assume "i < length (put b m v)"
    then have i: "i < length b" using assms by simp
    consider "i < n" | "n + 3 < i" | "i = n" | "i = n + 1" | "i = n + 2" | "i = Suc (Suc (Suc n))"
      by linarith
    then show "put b m v ! i = put b (m - 1) ?w ! i"
      using i assms n v by cases (simp_all add: nth_put)
  qed
  have s: "sub b (m - 1) 4 = [b ! (m - 1), b ! m, b ! (m + 1), b ! (m + 2)]"
    using assms n by (intro nth_equalityI) (auto simp: nth_sub nth_Cons' numeral_eq_Suc less_Suc_eq)
  have "be_sum (take l (put b m v)) = be_sum (take l b) - be_sum (sub b (m - 1) (length ?w)) + be_sum ?w"
    unfolding eq using assms n by (intro be_sum_take_put) auto
  then show ?thesis using s by (simp add: numeral_eq_Suc)
qed

text \<open>
  At an odd offset fix_msscksum leaves a valid checksum only in the rare case that
  the byte differences agree modulo 257. The RFC 1624 update that fix_msscksum applies is
  therefore wrong for an MSS option preceded by an odd number of option bytes.
\<close>

theorem fix_msscksum_odd_offset:
  assumes "in_cksum b l = 0" "l \<le> length b" "l \<le> 65536" "odd m" "even c" "m + 3 \<le> l" "c + 2 \<le> l"
    and "m + 2 \<le> c \<or> c + 2 \<le> m"
    and "fix_msscksum (sub b c 2) (sub b m 2) newmss = (ck, mss)"
    and "i < l" "b ! i \<noteq> 0" "i \<notin> {m..<m + 2} \<union> {c..<c + 2}"
  shows "in_cksum (put (put b m mss) c ck) l = 0 \<longleftrightarrow>
     257 dvd ((uint (mss ! 0) - uint (b ! m)) - (uint (mss ! 1) - uint (b ! (m + 1))))"
proof -
  have len: "length (sub b c 2) = 2" "length (sub b m 2) = 2" using assms by simp_all
  note ms = fix_msscksum_cong [OF len assms(9)]
  let ?b1 = "put b m mss" and ?b2 = "put (put b m mss) c ck"
  let ?d = "(uint (mss ! 0) - uint (b ! m)) - (uint (mss ! 1) - uint (b ! (m + 1)))"
  have lens: "length ?b1 = length b" "length ?b2 = length b" using assms ms by simp_all
  have sb: "be_sum (sub b m 2) = 256 * uint (b ! m) + uint (b ! (m + 1))"
    and sm: "be_sum mss = 256 * uint (mss ! 0) + uint (mss ! 1)"
    using assms ms by (simp_all add: be_sum_2 be16_eq nth_sub)
  have "sub ?b1 c 2 = sub b c 2" using assms ms by (auto simp: sub_put_disjoint)
  then have "be_sum (take l ?b2) = be_sum (take l b)
      - (256 * uint (b ! (m + 1)) + uint (b ! m)) + (256 * uint (mss ! 1) + uint (mss ! 0))
      - be_sum (sub b c 2) + be_sum ck"
    using assms ms lens be_sum_put_odd [of m l b mss] be_sum_take_put [of c ck l ?b1] by simp
  moreover obtain k where "be_sum ck = be_sum (sub b c 2) + be_sum (sub b m 2) - be_sum mss + 65535 * k"
    using ms(4) by blast
  ultimately have eq: "be_sum (take l ?b2) = be_sum (take l b) - 255 * ?d + 65535 * k"
    using sb sm by (simp add: algebra_simps)
  have "65535 dvd be_sum (take l b)" using assms by (simp add: in_cksum_zero_iff)
  then have "65535 dvd be_sum (take l ?b2) \<longleftrightarrow> 255 * 257 dvd 255 * ?d"
    unfolding eq by (simp add: dvd_add_left_iff dvd_diff_right_iff)
  also have "\<dots> \<longleftrightarrow> 257 dvd ?d" by (simp only: dvd_times_left_cancel_iff)
  finally have "65535 dvd be_sum (take l ?b2) \<longleftrightarrow> 257 dvd ?d" .
  moreover have "?b2 ! i \<noteq> 0" using assms ms by (auto simp: nth_put)
  then have "0 < be_sum (take l ?b2)" using assms lens by (intro be_sum_pos [of i]) auto
  ultimately show ?thesis using assms lens by (simp add: in_cksum_zero_iff)
qed

theorem fix_msscksum_odd_offset_witness:
  "let b = [0x45, 0, 0xb0, 0xae, 10, 0, 0, 1, 0, 0x50] :: bytes
   in case fix_msscksum (sub b 2 2) (sub b 5 2) 1400 of (ck, mss) \<Rightarrow>
        in_cksum b 10 = 0 \<and> in_cksum (put (put b 5 mss) 2 ck) 10 \<noteq> 0"
proof -
  let ?b = "[0x45, 0, 0xb0, 0xae, 10, 0, 0, 1, 0, 0x50] :: bytes"
  have v: "in_cksum ?b 10 = 0" by code_simp
  obtain ck mss where f: "fix_msscksum (sub ?b 2 2) (sub ?b 5 2) 1400 = (ck, mss)" by fastforce
  have "mss = [5, 120]" using f by (auto simp: fix_msscksum_def Let_def)
  then have "in_cksum (put (put ?b 5 mss) 2 ck) 10 \<noteq> 0"
    by (subst fix_msscksum_odd_offset [OF v _ _ _ _ _ _ _ f, where i = 0]) simp_all
  then show ?thesis unfolding Let_def f prod.case using v by simp
qed

section \<open>FTP sequence adjustment\<close>

lemma bytes32_be32:
  assumes "length b = 4"
  shows "bytes32 (be32 b) = b"
proof -
  obtain b0 b1 b2 b3 where b: "b = [b0, b1, b2, b3]"
    using assms by (auto simp: numeral_eq_Suc length_Suc_conv)
  show ?thesis
    by (auto simp: b bytes32_def be32_def bit_simps bit_u8_high intro!: bit_word_eqI)
qed

lemma be_sum_bytes32: "be_sum (bytes32 w) = uint w div 65536 + uint w mod 65536"
proof -
  define n where "n = uint w"
  define q where "q = n div 65536"
  have w: "uint w < 4294967296" using uint_lt2p [of w] by simp
  then have n: "0 \<le> n" "n < 4294967296" unfolding n_def by simp_all
  then have "0 \<le> q" "q < 65536" by (auto simp: q_def)
  then have q: "q div 256 mod 256 = q div 256" "0 \<le> q div 256"
    by (simp_all add: pos_imp_zdiv_nonneg_iff)
  have h: "n div 16777216 = q div 256" unfolding q_def by (simp add: zdiv_zmult2_eq [symmetric])
  have l: "n mod 65536 = 256 * (n div 256 mod 256) + n mod 256"
    using zmod_zmult2_eq [of 256 n 256] by simp
  have b: "uint (ucast (drop_bit k w) :: u8) = n div 2 ^ k mod 256" for k
    using w by (simp add: n_def unsigned_ucast_eq unsigned_drop_bit_eq take_bit_eq_mod
        drop_bit_eq_div [where 'a = int])
  have b0: "uint (ucast w :: u8) = n mod 256"
    by (simp add: n_def unsigned_ucast_eq take_bit_eq_mod)
  have "be_sum (bytes32 w) = 256 * (n div 16777216 mod 256) + n div 65536 mod 256
      + (256 * (n div 256 mod 256) + n mod 256)"
    by (simp add: bytes32_def b b0)
  also have "\<dots> = 256 * (q div 256) + q mod 256 + n mod 65536"
    unfolding h l q(1) q_def [symmetric] by (simp only: q(1))
  also have "\<dots> = q + n mod 65536" by (simp only: mult_div_mod_eq)
  finally show ?thesis by (simp only: q_def n_def)
qed

lemma be_sum_be32: "length b = 4 \<Longrightarrow> be_sum b = uint (be32 b) div 65536 + uint (be32 b) mod 65536"
  by (metis be_sum_bytes32 bytes32_be32)

lemma fix_ftpsacksum_cong:
  assumes "length psum = 2" "length psa = 4"
    and "find_ftpseq (be32 psa) seqack fs0 = Some fs"
    and "fix_ftpsacksum psum psa seqack fs0 = (ck, sa)"
  shows "length ck = 2" "length sa = 4"
    and "sa = bytes32 (if \<not> seqack then be32 psa + word_of_int (delta fs) else be32 psa - word_of_int (delta fs))"
    and "\<exists>k. be_sum ck = be_sum psum + be_sum psa - be_sum sa + 65535 * k"
proof -
  define s0 where "s0 = be32 psa"
  define s1 where "s1 = (if \<not> seqack then s0 + word_of_int (delta fs) else s0 - word_of_int (delta fs))"
  have lt: "uint w < 4294967296" for w :: u32 using uint_lt2p [of w] by simp
  have sm: "(drop_bit 16 (uint w) AND 0xffff) + (uint w AND 0xffff) = be_sum (bytes32 w)" for w
    using fold_norm(2) [of "uint w"] lt [of w] by (simp add: be_simps be_sum_bytes32)
  define m where "m = be_sum (bytes32 s0)"
  have m: "m = be_sum psa" using assms(2) by (simp add: m_def s0_def bytes32_be32)
  have "length (bytes32 s0) = 4" by (simp add: bytes32_def)
  then have mb: "0 \<le> m" "m \<le> 131070" using be_sum_le [of "bytes32 s0"] by (simp_all add: m_def)
  define m' where "m' = drop_bit 16 m + (m AND 0xffff)"
  obtain h l where hl: "h = m div 65536" "l = m mod 65536" by blast
  then have h: "h = 0 \<or> h = 1" and l: "0 \<le> l" "l < 65536" and mm: "m = 65536 * h + l"
    using mb by auto
  have "m' = h + l" by (simp only: m'_def be_simps hl)
  then have m'b: "0 \<le> m'" "m' < 65536" and mj: "m = m' + 65535 * h" using h l mm mb by auto
  have xm: "m' XOR 0xffff = 65535 - m'" using m'b by (rule xor_ffff)
  have nm: "NOT (be16 (psum ! 0) (psum ! 1)) AND 0xffff = 65535 - be16 (psum ! 0) (psum ! 1)"
    by (rule not_and_ffff) simp_all
  define s where "s = (65535 - be16 (psum ! 0) (psum ! 1)) + (65535 - m') + be_sum (bytes32 s1)"
  have sa: "sa = bytes32 s1" and ck: "ck = fold_store s"
    using assms(4) unfolding fix_ftpsacksum_def Let_def s0_def [symmetric] assms(3) [folded s0_def]
      option.case sm s1_def [symmetric] m_def [symmetric] m'_def [symmetric] xm nm s_def
    by auto
  show "length ck = 2" "length sa = 4" by (simp_all add: sa ck bytes32_def)
  show "sa = bytes32 (if \<not> seqack then be32 psa + word_of_int (delta fs) else be32 psa - word_of_int (delta fs))"
    by (simp add: sa s1_def s0_def)
  have "be_sum (bytes32 s1) \<le> 131070"
    using be_sum_le [of "bytes32 s1"] by (simp add: bytes32_def)
  then have "0 \<le> s" "s < 4294967296"
    using m'b be16_less [of "psum ! 0" "psum ! 1"] be16_nonneg [of "psum ! 0" "psum ! 1"]
      be_sum_nonneg [of "bytes32 s1"] unfolding s_def by linarith+
  then obtain k where "be_sum ck = 65535 - s + 65535 * k"
    using fold_store_ex [of s] ck by blast
  then have "be_sum ck = be_sum psum + be_sum psa - be_sum sa + 65535 * (k - 1 - h)"
    using assms mj m by (simp add: s_def be_sum_2 sa algebra_simps)
  then show "\<exists>k. be_sum ck = be_sum psum + be_sum psa - be_sum sa + 65535 * k" by blast
qed

text \<open>
  Shifting a TCP sequence (or acknowledgement) number by a recorded FTP delta with
  fix_ftpsacksum keeps the checksum of the region valid, and the number moves by exactly
  the delta modulo 2 to the 32.
\<close>

theorem fix_ftpsacksum_keeps_valid:
  assumes "in_cksum b l = 0" "l \<le> length b" "l \<le> 65536" "even m" "even c" "m + 4 \<le> l" "c + 2 \<le> l"
    and "m + 4 \<le> c \<or> c + 2 \<le> m"
    and "find_ftpseq (be32 (sub b m 4)) seqack fs0 = Some fs"
    and "fix_ftpsacksum (sub b c 2) (sub b m 4) seqack fs0 = (ck, sa)"
    and "i < l" "b ! i \<noteq> 0" "i \<notin> {m..<m + 4} \<union> {c..<c + 2}"
  shows "in_cksum (put (put b m sa) c ck) l = 0 \<and>
     sa = bytes32 (if seqack then be32 (sub b m 4) - word_of_int (delta fs)
                   else be32 (sub b m 4) + word_of_int (delta fs))"
proof -
  have len: "length (sub b c 2) = 2" "length (sub b m 4) = 4" using assms by simp_all
  note fs = fix_ftpsacksum_cong [OF len assms(9,10)]
  let ?b1 = "put b m sa" and ?b2 = "put (put b m sa) c ck"
  have lens: "length ?b1 = length b" "length ?b2 = length b" using assms fs by simp_all
  have "sub ?b1 c 2 = sub b c 2" using assms fs by (auto simp: sub_put_disjoint)
  then have "be_sum (take l ?b2) = be_sum (take l b) - be_sum (sub b m 4) + be_sum sa
      - be_sum (sub b c 2) + be_sum ck"
    using assms fs(1,2) lens be_sum_take_put [of m sa l b] be_sum_take_put [of c ck l ?b1] by simp
  moreover obtain k where "be_sum ck = be_sum (sub b c 2) + be_sum (sub b m 4) - be_sum sa + 65535 * k"
    using fs(4) by blast
  ultimately have "be_sum (take l ?b2) = be_sum (take l b) + 65535 * k" by simp
  moreover have "?b2 ! i \<noteq> 0" using assms fs(1,2) by (auto simp: nth_put)
  ultimately have "in_cksum ?b2 l = 0"
    using in_cksum_moved [OF assms(1,2) lens(2) assms(3)] assms(11) by blast
  then show ?thesis using fs(3) by auto
qed

theorem fix_ftpsacksum_keeps_valid_witness:
  "let b = [0x45, 0, 0xb0, 0xae, 10, 0, 0, 1, 0, 0x50] :: bytes;
       fs0 = [\<lparr>oldseq = 5, newseq = 8, delta = 3\<rparr>]
   in case fix_ftpsacksum (sub b 2 2) (sub b 4 4) False fs0 of (ck, sa) \<Rightarrow>
        in_cksum (put (put b 4 sa) 2 ck) 10 = 0 \<and> sa = bytes32 (be32 [10, 0, 0, 1] + 3)"
proof -
  let ?b = "[0x45, 0, 0xb0, 0xae, 10, 0, 0, 1, 0, 0x50] :: bytes"
  let ?r = "\<lparr>oldseq = 5, newseq = 8, delta = 3\<rparr> :: ftpseq"
  have v: "in_cksum ?b 10 = 0" by code_simp
  have sb: "sub ?b 4 4 = [10, 0, 0, 1]" by (simp add: sub_def)
  have fnd: "find_ftpseq (be32 (sub ?b 4 4)) False [?r] = Some ?r"
    by (simp add: sub_def be32_def)
  obtain ck sa where f: "fix_ftpsacksum (sub ?b 2 2) (sub ?b 4 4) False [?r] = (ck, sa)" by fastforce
  have "in_cksum (put (put ?b 4 sa) 2 ck) 10 = 0 \<and>
      sa = bytes32 (if False then be32 (sub ?b 4 4) - word_of_int (delta ?r)
                    else be32 (sub ?b 4 4) + word_of_int (delta ?r))"
    by (rule fix_ftpsacksum_keeps_valid [OF v _ _ _ _ _ _ _ fnd f, where i = 0]) simp_all
  then show ?thesis unfolding Let_def f prod.case unfolding sb by auto
qed

section \<open>Pseudo-header checksums\<close>

lemma pseudo_cksum_buffer: "12 \<le> length p \<Longrightarrow> snd (pseudo_cksum p pl l) = p"
  by (auto simp: pseudo_cksum_def Let_def nth_put nth_list_update nth_sub intro!: nth_equalityI)

lemma pseudo6_cksum_buffer: "8 \<le> length b \<Longrightarrow> snd (pseudo6_cksum b n) = b"
  by (auto simp: pseudo6_cksum_def Let_def nth_put nth_list_update nth_sub intro!: nth_equalityI)

section \<open>The checksum over the pseudo header\<close>

text \<open>What pseudo_cksum sums: the bytes from the TTL on, with the pseudo header's fields in it.\<close>

definition phdr :: "bytes \<Rightarrow> bytes \<Rightarrow> bytes" where
  "phdr p pl = drop 8 (p[8 := 0, 10 := pl ! 0, 11 := pl ! 1])"

lemma pseudo_phdr: "fst (pseudo_cksum p pl l) = in_cksum (phdr p pl) (l - 8)"
  by (simp add: pseudo_cksum_def phdr_def Let_def)

lemma length_phdr [simp]: "length (phdr p pl) = length p - 8"
  by (simp add: phdr_def)

lemma phdr_put:
  assumes "12 \<le> i" "i + length x \<le> length p"
  shows "phdr (put p i x) pl = put (phdr p pl) (i - 8) x"
  using assms by (intro nth_equalityI) (auto simp: phdr_def nth_put nth_list_update add.commute)

lemma phdr_header:
  assumes "i \<in> {10, 11}" "12 \<le> length p"
  shows "phdr (p[i := x]) pl = phdr p pl"
  using assms by (intro nth_equalityI) (auto simp: phdr_def nth_list_update)

lemma phdr_sub: "12 \<le> i \<Longrightarrow> i + n \<le> length p \<Longrightarrow> sub (phdr p pl) (i - 8) n = sub p i n"
  by (intro nth_equalityI) (auto simp: phdr_def nth_sub nth_list_update)

lemma phdr_nth: "12 \<le> i \<Longrightarrow> i < length p \<Longrightarrow> phdr p pl ! (i - 8) = p ! i"
  by (simp add: phdr_def)

lemma phdr_proto: "12 \<le> length p \<Longrightarrow> phdr p pl ! 1 = p ! 9"
  by (simp add: phdr_def)

text \<open>Filling in the field (at an even offset behind the addresses) makes the packet verify.\<close>

lemma pseudo_fill:
  assumes "l \<le> length b" "l \<le> 65536" "even c" "20 \<le> c" "c + 2 \<le> l" "sub b c 2 = [0, 0]"
  shows "fst (pseudo_cksum (put b c [hi8 (fst (pseudo_cksum b pl l)), lo8 (fst (pseudo_cksum b pl l))]) pl l) = 0"
proof -
  have z: "sub (phdr b pl) (c - 8) 2 = [0, 0]" using phdr_sub [of c 2 b pl] assms by simp
  show ?thesis unfolding pseudo_phdr
    using cksum_fill0 [OF _ _ _ _ z, of "l - 8"] phdr_put [of c "[x, y]" b pl for x y] assms by simp
qed

text \<open>
  A rewritten address (of source or destination) and port, with the transport checksum
  adjusted by fix_cksum, keeps the packet valid. The protocol byte is part of the sum.
\<close>

lemma pseudo_moves:
  assumes valid: "fst (pseudo_cksum b pl l) = 0" and len: "l \<le> length b" "l \<le> 65536"
    and a: "a = 12 \<or> a = 16" and q: "q = 20 \<or> q = 22" and c: "even c" "24 \<le> c" "c + 2 \<le> l"
    and new: "length naddr = 4" "length nport = 2" and proto: "b ! 9 \<noteq> 0"
  shows "fst (pseudo_cksum (put (put (put b a naddr) q nport) c
      (fix_cksum (sub b c 2) (Some (sub b a 4, naddr)) (Some (sub b q 2, nport)))) pl l) = 0"
proof -
  let ?p = "phdr b pl"
  let ?ck = "fix_cksum (sub b c 2) (Some (sub b a 4, naddr)) (Some (sub b q 2, nport))"
  have s: "sub ?p (c - 8) 2 = sub b c 2" "sub ?p (a - 8) 4 = sub b a 4" "sub ?p (q - 8) 2 = sub b q 2"
    using a q c len by (auto intro!: phdr_sub)
  have "in_cksum (put (put (put ?p (a - 8) naddr) (q - 8) nport) (c - 8)
      (fix_cksum (sub ?p (c - 8) 2) (Some (sub ?p (a - 8) 4, naddr)) (Some (sub ?p (q - 8) 2, nport)))) (l - 8) = 0"
    by (rule fix_cksum_moves [where i = 1])
      (use valid len a q c new proto phdr_proto [of b pl] in \<open>auto simp: pseudo_phdr\<close>)
  moreover have "phdr (put (put (put b a naddr) q nport) c ?ck) pl = put (put (put ?p (a - 8) naddr) (q - 8) nport) (c - 8) ?ck"
    using a q c len new by (auto simp: phdr_put)
  ultimately show ?thesis unfolding pseudo_phdr s by simp
qed

end
