(* ===== verification/Aftr_Arc4.thy ===== *)
theory Aftr_Arc4
  imports Aftr_Prelude "HOL-Library.Multiset"
begin

text \<open>
  The arc4 random generator of \<^verbatim>\<open>aftr.c\<close> and the port draw on top of it
  (arc4_init, arc4_addrandom, arc4_getbyte, arc4_getshort, arc4_getword, arc4_getport, arc4_stir).
  The global stream \<open>rs\<close> is passed and returned. The retry loop of arc4_getport has no
  bound in the code, so its model may not return (\<open>None\<close>); the theorems below say exactly
  when it does.
\<close>

record arc4_stream =
  rs_i :: u8
  rs_j :: u8
  rs_s :: "u8 list"

definition arc4_init :: arc4_stream where
  "arc4_init = \<lparr>rs_i = 0, rs_j = 0, rs_s = map word_of_nat [0..<256]\<rparr>"

text \<open>One iteration of the mixing loop of arc4_addrandom.\<close>

definition arc4_mix :: "bytes \<Rightarrow> nat \<Rightarrow> nat \<Rightarrow> arc4_stream \<Rightarrow> arc4_stream" where
  "arc4_mix dat datlen n rs =
     (let i = rs_i rs + 1;
          si = rs_s rs ! unat i;
          j = rs_j rs + si + dat ! (n mod datlen);
          s = (rs_s rs)[unat i := rs_s rs ! unat j];
          s = s[unat j := si]
      in \<lparr>rs_i = i, rs_j = j, rs_s = s\<rparr>)"

definition arc4_addrandom :: "bytes \<Rightarrow> nat \<Rightarrow> arc4_stream \<Rightarrow> arc4_stream" where
  "arc4_addrandom dat datlen rs =
     fold (arc4_mix dat datlen) [0..<256] (rs\<lparr>rs_i := rs_i rs - 1\<rparr>)"

definition arc4_getbyte :: "arc4_stream \<Rightarrow> u8 \<times> arc4_stream" where
  "arc4_getbyte rs =
     (let i = rs_i rs + 1;
          si = rs_s rs ! unat i;
          j = rs_j rs + si;
          sj = rs_s rs ! unat j;
          s = (rs_s rs)[unat i := sj];
          s = s[unat j := si]
      in (s ! unat (si + sj), \<lparr>rs_i = i, rs_j = j, rs_s = s\<rparr>))"

text \<open>
  arc4_stir: \<open>rdat\<close> is the structure of the clock, the process number and what /dev/urandom gave,
  128 bytes; the first 1024 bytes of the stream are thrown away.
\<close>

definition arc4_stir :: "bytes \<Rightarrow> arc4_stream \<Rightarrow> arc4_stream" where
  "arc4_stir rdat rs = ((\<lambda>rs. snd (arc4_getbyte rs)) ^^ 1024) (arc4_addrandom rdat 128 rs)"

definition arc4_getshort :: "arc4_stream \<Rightarrow> u16 \<times> arc4_stream" where
  "arc4_getshort rs =
     (let (h, rs) = arc4_getbyte rs;
          val = push_bit 8 (ucast h) :: u16;
          (l, rs) = arc4_getbyte rs
      in (val OR ucast l, rs))"

definition arc4_getword :: "arc4_stream \<Rightarrow> u32 \<times> arc4_stream" where
  "arc4_getword rs =
     (let (b3, rs) = arc4_getbyte rs;
          val = push_bit 24 (ucast b3) :: u32;
          (b2, rs) = arc4_getbyte rs;
          val = val OR push_bit 16 (ucast b2);
          (b1, rs) = arc4_getbyte rs;
          val = val OR push_bit 8 (ucast b1);
          (b0, rs) = arc4_getbyte rs
      in (val OR ucast b0, rs))"

partial_function (option) arc4_getport_loop ::
  "u16 \<Rightarrow> u16 \<Rightarrow> arc4_stream \<Rightarrow> (u16 \<times> arc4_stream) option" where
  "arc4_getport_loop r minport rs =
     (let (x, rs) = arc4_getshort rs
      in if uint x < 65536 - 65536 mod uint r then Some (minport + x mod r, rs)
         else arc4_getport_loop r minport rs)"

definition arc4_getport :: "u16 \<Rightarrow> u16 \<Rightarrow> arc4_stream \<Rightarrow> (u16 \<times> arc4_stream) option" where
  "arc4_getport minport maxport rs =
     (let r = maxport - minport
      in if r = 0 then Some (minport, rs)
         else if r = 1 then
           (let (b, rs) = arc4_getbyte rs in Some (minport + ucast (b AND 1), rs))
         else if r = 65535 then Some (arc4_getshort rs)
         else arc4_getport_loop (r + 1) minport rs)"

section \<open>The state stays a permutation\<close>

text \<open>The well-formedness invariant of the cipher state: its table is a permutation of all bytes.\<close>

definition arc4_wf :: "arc4_stream \<Rightarrow> bool" where
  "arc4_wf rs \<longleftrightarrow> length (rs_s rs) = 256 \<and> distinct (rs_s rs)"

lemma arc4_wf_set: "arc4_wf rs \<Longrightarrow> set (rs_s rs) = UNIV"
proof -
  assume "arc4_wf rs"
  then have "card (set (rs_s rs)) = 256" by (simp add: arc4_wf_def distinct_card)
  moreover have "card (UNIV :: u8 set) = 256" by (simp add: card_word)
  ultimately show ?thesis by (intro card_seteq) auto
qed

lemma unat_u8_less: "unat (x :: u8) < 256"
  using unsigned_less [of x] by simp

lemma distinct_swap_bytes:
  "i < length s \<Longrightarrow> j < length s \<Longrightarrow> distinct s \<Longrightarrow> distinct (s[i := s ! j, j := s ! i])"
  by (simp add: distinct_swap)

lemma arc4_init_wf: "arc4_wf arc4_init"
proof -
  have "inj_on (word_of_nat :: nat \<Rightarrow> u8) {0..<256}"
    by (rule inj_onI) (auto dest: arg_cong [where f = unat] simp: unat_of_nat)
  then show ?thesis by (simp add: arc4_wf_def arc4_init_def distinct_map)
qed

lemma arc4_mix_wf: "arc4_wf rs \<Longrightarrow> arc4_wf (arc4_mix dat datlen n rs)"
  by (simp add: arc4_wf_def arc4_mix_def Let_def distinct_swap_bytes unat_u8_less)

lemma arc4_addrandom_wf: "arc4_wf rs \<Longrightarrow> arc4_wf (arc4_addrandom dat datlen rs)"
proof -
  have "arc4_wf r \<Longrightarrow> arc4_wf (fold (arc4_mix dat datlen) ns r)" for ns r
    by (induction ns arbitrary: r) (auto intro: arc4_mix_wf)
  then show "arc4_wf rs \<Longrightarrow> ?thesis"
    by (simp add: arc4_addrandom_def arc4_wf_def)
qed

lemma arc4_getbyte_wf: "arc4_wf rs \<Longrightarrow> arc4_wf (snd (arc4_getbyte rs))"
  by (simp add: arc4_wf_def arc4_getbyte_def Let_def distinct_swap_bytes unat_u8_less)

lemma arc4_getshort_wf: "arc4_wf rs \<Longrightarrow> arc4_wf (snd (arc4_getshort rs))"
  by (simp add: arc4_getshort_def split_beta Let_def arc4_getbyte_wf)

lemma arc4_getword_wf: "arc4_wf rs \<Longrightarrow> arc4_wf (snd (arc4_getword rs))"
  by (simp add: arc4_getword_def split_beta Let_def arc4_getbyte_wf)

lemma arc4_stir_wf: "arc4_wf rs \<Longrightarrow> arc4_wf (arc4_stir rdat rs)"
proof -
  assume "arc4_wf rs"
  moreover have "arc4_wf rs \<Longrightarrow> arc4_wf (((\<lambda>rs. snd (arc4_getbyte rs)) ^^ n) rs)" for n rs
    by (induction n) (simp_all add: arc4_getbyte_wf)
  ultimately show ?thesis unfolding arc4_stir_def by (simp add: arc4_addrandom_wf)
qed

text \<open>A run of the generator: seeding and drawing in any order.\<close>

datatype arc4_op = Add_random bytes nat | Get_byte | Get_short | Get_word

fun arc4_step :: "arc4_op \<Rightarrow> arc4_stream \<Rightarrow> arc4_stream" where
  "arc4_step (Add_random dat n) rs = arc4_addrandom dat n rs"
| "arc4_step Get_byte rs = snd (arc4_getbyte rs)"
| "arc4_step Get_short rs = snd (arc4_getshort rs)"
| "arc4_step Get_word rs = snd (arc4_getword rs)"

lemma arc4_step_wf: "arc4_wf rs \<Longrightarrow> arc4_wf (arc4_step x rs)"
  by (cases x) (auto intro: arc4_addrandom_wf arc4_getbyte_wf arc4_getshort_wf arc4_getword_wf)

text \<open>
  From arc4_init, every sequence of seedings and draws keeps the cipher table a
  permutation of the 256 byte values, so no index of the generator leaves its table and
  every byte value stays reachable as output.
\<close>

theorem arc4_run_permutation:
  "length (rs_s (fold arc4_step xs arc4_init)) = 256 \<and> distinct (rs_s (fold arc4_step xs arc4_init))
   \<and> set (rs_s (fold arc4_step xs arc4_init)) = UNIV"
proof -
  have "arc4_wf r \<Longrightarrow> arc4_wf (fold arc4_step xs r)" for r
    by (induction xs arbitrary: r) (auto intro: arc4_step_wf)
  from this [OF arc4_init_wf] have "arc4_wf (fold arc4_step xs arc4_init)" .
  then show ?thesis using arc4_wf_set by (auto simp: arc4_wf_def)
qed

section \<open>The port draw\<close>

text \<open>The state and the value of the k-th short drawn from a state on.\<close>

definition arc4_skip :: "nat \<Rightarrow> arc4_stream \<Rightarrow> arc4_stream" where
  "arc4_skip k = ((\<lambda>r. snd (arc4_getshort r)) ^^ k)"

definition nth_short :: "nat \<Rightarrow> arc4_stream \<Rightarrow> u16" where
  "nth_short k rs = fst (arc4_getshort (arc4_skip k rs))"

definition port_accept :: "u16 \<Rightarrow> u16 \<Rightarrow> bool" where
  "port_accept r x \<longleftrightarrow> uint x < 65536 - 65536 mod uint r"

lemma arc4_skip_0 [simp]: "arc4_skip 0 rs = rs"
  by (simp add: arc4_skip_def)

lemma arc4_skip_Suc: "arc4_skip (Suc k) rs = arc4_skip k (snd (arc4_getshort rs))"
  by (simp add: arc4_skip_def funpow_Suc_right del: funpow.simps)

lemma arc4_loop_unfold:
  "arc4_getport_loop r m rs =
     (if port_accept r (nth_short 0 rs) then Some (m + nth_short 0 rs mod r, arc4_skip 1 rs)
      else arc4_getport_loop r m (arc4_skip 1 rs))"
  by (subst arc4_getport_loop.simps)
    (simp add: port_accept_def nth_short_def arc4_skip_Suc split_beta Let_def)

lemma arc4_loop_first:
  assumes "port_accept r (nth_short k rs)" "\<forall>j < k. \<not> port_accept r (nth_short j rs)"
  shows "arc4_getport_loop r m rs = Some (m + nth_short k rs mod r, arc4_skip (Suc k) rs)"
  using assms
proof (induction k arbitrary: rs)
  case 0
  then show ?case by (subst arc4_loop_unfold) simp
next
  case (Suc k)
  have sh: "nth_short j (arc4_skip (Suc 0) rs) = nth_short (Suc j) rs" for j
    by (simp add: nth_short_def arc4_skip_Suc)
  have "arc4_getport_loop r m (arc4_skip 1 rs)
      = Some (m + nth_short k (arc4_skip 1 rs) mod r, arc4_skip (Suc k) (arc4_skip 1 rs))"
    using Suc.prems by (intro Suc.IH) (auto simp: sh)
  moreover have "\<not> port_accept r (nth_short 0 rs)" using Suc.prems(2) by blast
  ultimately show ?case
    by (subst arc4_loop_unfold) (simp add: sh [simplified arc4_skip_Suc arc4_skip_0] arc4_skip_Suc)
qed

lemma arc4_loop_returns_accept:
  assumes "arc4_getport_loop r m rs = Some res"
  shows "\<exists>k. port_accept r (nth_short k rs)"
proof (rule arc4_getport_loop.raw_induct
    [where P = "\<lambda>r m rs res. \<exists>k. port_accept r (nth_short k rs)", OF _ assms])
  fix f r m rs res
  assume IH: "\<And>r m rs res. f r m rs = Some res \<Longrightarrow> \<exists>k. port_accept r (nth_short k rs)"
    and eq: "(let (x, rs) = arc4_getshort rs
       in if uint x < 65536 - 65536 mod uint r then Some (m + x mod r, rs) else f r m rs) = Some res"
  show "\<exists>k. port_accept r (nth_short k rs)"
  proof (cases "port_accept r (nth_short 0 rs)")
    case False
    with eq have "f r m (arc4_skip 1 rs) = Some res"
      by (simp add: port_accept_def nth_short_def arc4_skip_Suc split_beta Let_def)
    then obtain k where "port_accept r (nth_short k (arc4_skip 1 rs))" using IH by blast
    then have "port_accept r (nth_short (Suc k) rs)" by (simp add: nth_short_def arc4_skip_Suc)
    then show ?thesis ..
  qed blast
qed

lemma arc4_loop_result:
  assumes "arc4_getport_loop r m rs = Some (p, rs')"
  shows "\<exists>k. p = m + nth_short k rs mod r"
proof -
  obtain k where "port_accept r (nth_short k rs)" "\<forall>j < k. \<not> port_accept r (nth_short j rs)"
    using arc4_loop_returns_accept [OF assms]
      exists_least_iff [of "\<lambda>k. port_accept r (nth_short k rs)"] by blast
  from arc4_loop_first [OF this] assms show ?thesis by auto
qed

lemma arc4_getport_loop_first_accepted:
  "arc4_getport_loop r m rs =
     (if \<exists>k. port_accept r (nth_short k rs)
      then let k = LEAST k. port_accept r (nth_short k rs)
           in Some (m + nth_short k rs mod r, arc4_skip (Suc k) rs)
      else None)"
proof (cases "\<exists>k. port_accept r (nth_short k rs)")
  case True
  let ?k = "LEAST k. port_accept r (nth_short k rs)"
  have "port_accept r (nth_short ?k rs)" "\<forall>j < ?k. \<not> port_accept r (nth_short j rs)"
    using True by (auto intro: LeastI_ex dest: not_less_Least)
  from arc4_loop_first [OF this] True show ?thesis by (simp add: Let_def)
next
  case False
  then have "arc4_getport_loop r m rs = None"
    using arc4_loop_returns_accept by (cases "arc4_getport_loop r m rs") auto
  with False show ?thesis by simp
qed

text \<open>
  The acceptance test removes the bias of the reduction: over all 65536 shorts, every
  port offset below r is the result of exactly 65536 div r accepted draws, the same number
  for each.
\<close>

theorem port_accept_unbiased:
  assumes "p < r"
  shows "card {x :: u16. port_accept r x \<and> x mod r = p} = nat (65536 div uint r)"
proof -
  let ?r = "uint r" and ?p = "uint p" and ?N = "65536 div uint r"
  have r2: "?p < ?r" using assms by (simp add: word_less_def)
  have r4: "0 \<le> ?p" by simp
  have r: "0 < ?r" "?p < ?r" "?r < 65536" "0 \<le> ?p"
    using r2 uint_lt2p [of r] by simp_all (use r2 r4 in linarith)
  have N: "65536 - 65536 mod ?r = ?r * ?N" using minus_mod_eq_mult_div [of 65536 ?r] .
  have le: "?r * ?N \<le> 65536" using N r(1) pos_mod_sign [of ?r 65536] by linarith
  have box: "?r * k + ?p < ?r * ?N \<longleftrightarrow> k < ?N" for k
  proof
    assume "?r * k + ?p < ?r * ?N"
    then have "?r * k < ?r * ?N" using r by linarith
    then show "k < ?N" using r by simp
  next
    assume "k < ?N"
    then have "?r * (k + 1) \<le> ?r * ?N" using r by (intro mult_left_mono) auto
    then show "?r * k + ?p < ?r * ?N" using r by (simp add: algebra_simps)
  qed
  let ?f = "\<lambda>k. word_of_int (?r * k + ?p) :: u16"
  have uf: "uint (?f k) = ?r * k + ?p" if "0 \<le> k" "k < ?N" for k
  proof -
    have "?r * k + ?p < 65536" using box le that by (meson less_le_trans)
    moreover have "0 \<le> ?r * k + ?p" using that r by simp
    ultimately show ?thesis
      by (simp only: uint_word_of_int) simp
  qed
  have "{x. port_accept r x \<and> x mod r = p} = ?f ` {0..<?N}" (is "?A = ?B")
  proof (intro equalityI subsetI)
    fix x assume "x \<in> ?A"
    then have x: "uint x < ?r * ?N" "uint x mod ?r = ?p"
      by (auto simp: port_accept_def N simp flip: uint_mod)
    have xe: "uint x = ?r * (uint x div ?r) + ?p"
      using x(2) mult_div_mod_eq [of ?r "uint x"] by linarith
    have "uint x div ?r < ?N" using x(1) xe box by metis
    moreover have "0 \<le> uint x div ?r" by (rule pos_imp_zdiv_nonneg_iff [OF r(1), THEN iffD2]) simp
    moreover have "x = ?f (uint x div ?r)" using xe by (metis word_of_int_uint)
    ultimately show "x \<in> ?B" by (intro image_eqI) auto
  next
    fix x assume "x \<in> ?B"
    then obtain k where k: "0 \<le> k" "k < ?N" "x = ?f k" by auto
    have "uint (x mod r) = ?p" using uf [OF k(1,2)] r by (simp add: uint_mod k(3))
    then have "x mod r = p" by (simp add: word_uint_eq_iff)
    moreover have "port_accept r x" using uf [OF k(1,2)] box k by (simp add: port_accept_def N)
    ultimately show "x \<in> ?A" by simp
  qed
  moreover have "inj_on ?f {0..<?N}"
  proof (rule inj_onI)
    fix a b assume "a \<in> {0..<?N}" "b \<in> {0..<?N}" "?f a = ?f b"
    then have "?r * a + ?p = ?r * b + ?p" using uf [of a] uf [of b] by simp
    then have "?r * a = ?r * b" by linarith
    then show "a = b" using r(1) by (metis mult_cancel_left less_irrefl)
  qed
  ultimately show ?thesis by (simp add: card_image)
qed

theorem port_accept_unbiased_witness:
  "card {x :: u16. port_accept 3 x \<and> x mod 3 = 1} = 21845"
  using port_accept_unbiased [of 1 3] by simp

lemma range_add:
  fixes lo hi d :: u16
  assumes "lo \<le> hi" "uint d \<le> uint hi - uint lo"
  shows "lo \<le> lo + d \<and> lo + d \<le> hi"
proof -
  have "uint hi < 65536" using uint_lt2p [of hi] by simp
  then have "uint (lo + d) = uint lo + uint d"
    using assms by (simp add: uint_word_ariths)
  then show ?thesis using assms by (simp add: word_le_def)
qed

lemma getport_range:
  assumes "minport \<le> maxport" "arc4_getport minport maxport rs = Some (p, rs')"
  shows "minport \<le> p \<and> p \<le> maxport"
proof -
  let ?r = "maxport - minport"
  have ur: "uint ?r = uint maxport - uint minport"
    using assms(1) by (simp add: uint_minus_simple_alt word_le_def uint_sub_if')
  consider "?r = 0" | "?r = 1" | "?r = 65535" | "?r \<noteq> 0" "?r \<noteq> 1" "?r \<noteq> 65535" by blast
  then show ?thesis
  proof cases
    case 1
    with assms show ?thesis by (simp add: arc4_getport_def)
  next
    case 2
    have one: "uint (ucast (b AND 1) :: u16) \<le> 1" for b :: u8
      by (cases "even b") (simp_all add: and_one_eq mod_2_eq_odd)
    have "p = minport + ucast (fst (arc4_getbyte rs) AND 1)"
      using assms(2) 2 by (auto simp: arc4_getport_def split_beta Let_def)
    then show ?thesis using range_add [OF assms(1)] one ur 2 by simp
  next
    case 3
    then have "uint maxport - uint minport = 65535" using ur by simp
    moreover have "uint maxport < 65536" "uint p < 65536"
      using uint_lt2p [of maxport] uint_lt2p [of p] by simp_all
    ultimately have "uint minport = 0" "uint maxport = 65535"
      using uint_nonnegative [of minport] by linarith+
    then show ?thesis using \<open>uint p < 65536\<close> by (simp add: word_le_def)
  next
    case 4
    have "uint ?r < 65535"
    proof -
      have "uint ?r \<noteq> uint (65535 :: u16)" using 4(3) by (simp only: word_uint_eq_iff not_False_eq_True)
      then show ?thesis using uint_lt2p [of ?r] by simp
    qed
    then have ur1: "uint (?r + 1) = uint ?r + 1" by (simp add: uint_word_ariths)
    have "arc4_getport_loop (?r + 1) minport rs = Some (p, rs')"
      using assms(2) 4 by (simp add: arc4_getport_def Let_def)
    then obtain k where "p = minport + nth_short k rs mod (?r + 1)"
      using arc4_loop_result by blast
    moreover have "uint (nth_short k rs mod (?r + 1)) \<le> uint ?r"
      using ur1 pos_mod_bound [of "uint (?r + 1)" "uint (nth_short k rs)"]
      by (simp add: uint_mod)
    ultimately show ?thesis using range_add [OF assms(1)] ur by simp
  qed
qed

lemma uint_sub_le: "lo \<le> hi \<Longrightarrow> uint (hi - lo) = uint hi - uint lo" for lo hi :: u16
  by (simp add: uint_minus_simple_alt word_le_def uint_sub_if')

lemma draw_choice_card:
  fixes lo hi p :: u16
  assumes "lo \<le> hi" "hi - lo \<noteq> 65535" "lo \<le> p" "p \<le> hi"
  shows "card {x. port_accept (hi - lo + 1) x \<and> lo + x mod (hi - lo + 1) = p}
    = nat (65536 div (uint hi - uint lo + 1))"
proof -
  let ?r = "hi - lo"
  have ur: "uint ?r = uint hi - uint lo" using assms(1) by (rule uint_sub_le)
  have "uint ?r \<noteq> uint (65535 :: u16)" using assms(2) by (simp only: word_uint_eq_iff not_False_eq_True)
  then have "uint ?r < 65535" using uint_lt2p [of ?r] by simp
  then have ur1: "uint (?r + 1) = uint ?r + 1" by (simp add: uint_word_ariths)
  have up: "uint (p - lo) = uint p - uint lo" using assms(3) by (rule uint_sub_le)
  have "p - lo < ?r + 1"
    using ur ur1 up assms(4) by (simp add: word_less_def word_le_def)
  from port_accept_unbiased [OF this] ur ur1
  have "card {x. port_accept (?r + 1) x \<and> x mod (?r + 1) = p - lo}
      = nat (65536 div (uint hi - uint lo + 1))" by simp
  moreover have "lo + x mod (?r + 1) = p \<longleftrightarrow> x mod (?r + 1) = p - lo" for x
    by (metis add_diff_cancel_left' add.commute diff_add_cancel)
  ultimately show ?thesis by simp
qed

lemma full_range:
  fixes lo hi :: u16
  assumes "lo \<le> hi" "hi - lo = 65535"
  shows "lo = 0 \<and> hi = 65535"
proof -
  have "uint hi - uint lo = 65535" using uint_sub_le [OF assms(1)] assms(2) by simp
  moreover have "uint hi < 65536" using uint_lt2p [of hi] by simp
  ultimately have "uint lo = 0" "uint hi = 65535" using uint_nonnegative [of lo] by linarith+
  then have "lo = word_of_int 0" "hi = word_of_int 65535" by (metis word_of_int_uint)+
  then show ?thesis by simp
qed

lemma draw_choice_in_range:
  fixes lo hi :: u16
  assumes "lo \<le> hi" "hi - lo \<noteq> 65535"
  shows "lo \<le> lo + x mod (hi - lo + 1) \<and> lo + x mod (hi - lo + 1) \<le> hi"
proof (rule range_add [OF assms(1)])
  have "uint (hi - lo) \<noteq> uint (65535 :: u16)"
    using assms(2) by (simp only: word_uint_eq_iff not_False_eq_True)
  then have "uint (hi - lo) < 65535" using uint_lt2p [of "hi - lo"] by simp
  then have ur1: "uint (hi - lo + 1) = uint (hi - lo) + 1" by (simp add: uint_word_ariths)
  show "uint (x mod (hi - lo + 1)) \<le> uint hi - uint lo"
    using ur1 uint_sub_le [OF assms(1)]
      pos_mod_bound [of "uint hi - uint lo + 1" "uint x"] assms(1)
    by (simp add: uint_mod word_le_def)
qed

text \<open>The port that a short is assigned in a range of three ports or more, if any.\<close>

definition port_choice :: "u16 \<Rightarrow> u16 \<Rightarrow> u16 \<Rightarrow> u16 option" where
  "port_choice lo hi x =
     (if hi - lo = 65535 then Some x
      else if port_accept (hi - lo + 1) x then Some (lo + x mod (hi - lo + 1)) else None)"

lemma port_choice_card:
  assumes "lo \<le> hi" "p \<in> {lo..hi}"
  shows "card {x. port_choice lo hi x = Some p} = nat (65536 div (uint hi - uint lo + 1))"
proof (cases "hi - lo = 65535")
  case True
  with full_range [OF assms(1) True] show ?thesis by (simp add: port_choice_def)
next
  case False
  then have "{x. port_choice lo hi x = Some p}
      = {x. port_accept (hi - lo + 1) x \<and> lo + x mod (hi - lo + 1) = p}"
    by (auto simp: port_choice_def)
  with draw_choice_card [OF assms(1) False, of p] assms(2) show ?thesis by simp
qed

lemma port_choice_range:
  assumes "lo \<le> hi"
  shows "{p. Some p \<in> range (port_choice lo hi)} = {lo..hi}"
proof
  have "uint hi < 65536" "uint lo \<le> uint hi"
    using uint_lt2p [of hi] assms by (simp_all add: word_le_def)
  then have "uint hi - uint lo + 1 \<le> 65536" "0 < uint hi - uint lo + 1"
    using uint_nonnegative [of lo] by linarith+
  then have pos: "0 < 65536 div (uint hi - uint lo + 1)" by (simp add: pos_imp_zdiv_pos_iff)
  show "{lo..hi} \<subseteq> {p. Some p \<in> range (port_choice lo hi)}"
  proof
    fix p assume "p \<in> {lo..hi}"
    then have "0 < card {x. port_choice lo hi x = Some p}" using port_choice_card [OF assms] pos by simp
    then obtain x where "port_choice lo hi x = Some p"
      by (metis (mono_tags, lifting) card_gt_0_iff empty_Collect_eq)
    then show "p \<in> {p. Some p \<in> range (port_choice lo hi)}" by (metis CollectI rangeI)
  qed
  have "lo \<le> p \<and> p \<le> hi" if "port_choice lo hi x = Some p" for x p
  proof (cases "hi - lo = 65535")
    case True
    with full_range [OF assms True] show ?thesis
      using uint_lt2p [of p] by (simp add: word_le_def)
  next
    case False
    with draw_choice_in_range [OF assms False, of x] that show ?thesis
      by (auto simp: port_choice_def split: if_splits)
  qed
  then show "{p. Some p \<in> range (port_choice lo hi)} \<subseteq> {lo..hi}" by fastforce
qed

lemma getport_first_choice:
  assumes "lo \<le> hi" "hi - lo \<noteq> 0" "hi - lo \<noteq> 1"
  shows "arc4_getport lo hi rs =
    (if \<exists>k. port_choice lo hi (nth_short k rs) \<noteq> None
     then let k = LEAST k. port_choice lo hi (nth_short k rs) \<noteq> None
          in Some (the (port_choice lo hi (nth_short k rs)), arc4_skip (Suc k) rs)
     else None)"
proof (cases "hi - lo = 65535")
  case True
  have "(LEAST k :: nat. True) = 0" by (rule Least_equality) auto
  moreover have "arc4_getport lo hi rs = Some (arc4_getshort rs)"
    using True by (simp add: arc4_getport_def)
  ultimately show ?thesis
    using True by (simp add: port_choice_def nth_short_def arc4_skip_Suc)
next
  case False
  have ne: "port_choice lo hi x \<noteq> None \<longleftrightarrow> port_accept (hi - lo + 1) x" for x
    using False by (simp add: port_choice_def)
  have the: "the (port_choice lo hi x) = lo + x mod (hi - lo + 1)" if "port_accept (hi - lo + 1) x" for x
    using False that by (simp add: port_choice_def)
  have "arc4_getport lo hi rs = arc4_getport_loop (hi - lo + 1) lo rs"
    using assms False by (simp add: arc4_getport_def)
  moreover have "\<exists>k. port_accept (hi - lo + 1) (nth_short k rs) \<Longrightarrow>
      port_accept (hi - lo + 1) (nth_short (LEAST k. port_accept (hi - lo + 1) (nth_short k rs)) rs)"
    by (rule LeastI_ex)
  ultimately show ?thesis
    unfolding ne arc4_getport_loop_first_accepted by (simp add: Let_def the)
qed

text \<open>
  Claim C36: for every range of three ports or more arc4_getport is a fair draw by rejection.
  There is one assignment of ports to the 65536 values of a short such that the function
  returns the port of the first short of the stream that has one, with the stream advanced past
  exactly the shorts drawn, and does not return when no later short has one. Every port a short
  is assigned lies in the range, and every port of the range is assigned to the same number of
  shorts, the largest possible: 65536 divided by the size of the range, rounded down. (A range of
  one port draws nothing and a range of two ports takes the low bit of one byte.)
\<close>

theorem arc4_getport_fair:
  assumes "lo \<le> hi" "hi - lo \<noteq> 0" "hi - lo \<noteq> 1"
  shows "\<exists>choice :: u16 \<Rightarrow> u16 option.
    (\<forall>p \<in> {lo..hi}. card {x. choice x = Some p} = nat (65536 div (uint hi - uint lo + 1)))
    \<and> {p. Some p \<in> range choice} = {lo..hi}
    \<and> (\<forall>rs. arc4_getport lo hi rs =
          (if \<exists>k. choice (nth_short k rs) \<noteq> None
           then let k = LEAST k. choice (nth_short k rs) \<noteq> None
                in Some (the (choice (nth_short k rs)), arc4_skip (Suc k) rs)
           else None))"
  using port_choice_card [OF assms(1)] port_choice_range [OF assms(1)] getport_first_choice [OF assms]
  by (intro exI [of _ "port_choice lo hi"] conjI ballI allI)

theorem arc4_getport_fair_witness:
  "\<exists>choice :: u16 \<Rightarrow> u16 option. card {x. choice x = Some 2500} = 65
    \<and> {p. Some p \<in> range choice} = {2000..2999}"
proof -
  obtain choice :: "u16 \<Rightarrow> u16 option" where
    "\<forall>p \<in> {2000..2999}. card {x. choice x = Some p} = nat (65536 div (uint (2999 :: u16) - uint (2000 :: u16) + 1))"
    "{p. Some p \<in> range choice} = {2000..2999}"
    using arc4_getport_fair [of 2000 2999] by auto
  moreover have "(2500 :: u16) \<in> {2000..2999}" by simp
  ultimately have "card {x. choice x = Some 2500} = 65" by force
  with \<open>{p. Some p \<in> range choice} = {2000..2999}\<close> show ?thesis by blast
qed

text \<open>
  Whatever arc4_getport returns for a range that is not empty lies in the range,
  on each of its four paths (single port, two ports, all ports, rejection sampling).
\<close>

theorem arc4_getport_in_range:
  assumes "minport \<le> maxport" "arc4_getport minport maxport rs = Some (p, rs')"
  shows "minport \<le> p \<and> p \<le> maxport"
  using assms by (rule getport_range)

theorem arc4_getport_in_range_witness:
  "\<exists>p rs'. arc4_getport 2000 2001 arc4_init = Some (p, rs') \<and> 2000 \<le> p \<and> p \<le> 2001"
proof -
  obtain p rs' where "arc4_getport 2000 2001 arc4_init = Some (p, rs')"
    by (simp add: arc4_getport_def split_beta Let_def)
  with arc4_getport_in_range [OF _ this] show ?thesis by auto
qed

end
