(* ===== verification/Aftr_Types.thy ===== *)
theory Aftr_Types
  imports Aftr_Cksum Aftr_Arc4 "HOL-Library.Tree"
begin

text \<open>
  The constants, structures and global variables of \<^verbatim>\<open>aftr.c\<close>. Every struct of the code
  is a record (pointer links of the intrusive trees and lists are replaced by the tree and
  list values that hold them); the global variables are the fields of one record \<open>aftr\<close> that
  the operations take and return. A pointer is a natural number with 0 for NULL, and the
  entries it may point to are a finite map; \<open>free\<close> removes the entry from the map.
\<close>

section \<open>Offsets and constants\<close>

abbreviation (input) IPTOS :: nat where "IPTOS \<equiv> 1"
abbreviation (input) IPLENH :: nat where "IPLENH \<equiv> 2"
abbreviation (input) IPLENL :: nat where "IPLENL \<equiv> 3"
abbreviation (input) IPID :: nat where "IPID \<equiv> 4"
abbreviation (input) IPOFFH :: nat where "IPOFFH \<equiv> 6"
abbreviation (input) IPOFFL :: nat where "IPOFFL \<equiv> 7"
abbreviation (input) IPTTL :: nat where "IPTTL \<equiv> 8"
abbreviation (input) IPPROTO :: nat where "IPPROTO \<equiv> 9"
abbreviation (input) IPCKSUMH :: nat where "IPCKSUMH \<equiv> 10"
abbreviation (input) IPCKSUML :: nat where "IPCKSUML \<equiv> 11"
abbreviation (input) IPSRC :: nat where "IPSRC \<equiv> 12"
abbreviation (input) IPDST :: nat where "IPDST \<equiv> 16"
abbreviation (input) IPSPORT :: nat where "IPSPORT \<equiv> 20"
abbreviation (input) IPDPORT :: nat where "IPDPORT \<equiv> 22"
abbreviation (input) ICMPTYPE :: nat where "ICMPTYPE \<equiv> 20"
abbreviation (input) ICMPCODE :: nat where "ICMPCODE \<equiv> 21"
abbreviation (input) ICMPCKSUMH :: nat where "ICMPCKSUMH \<equiv> 22"
abbreviation (input) ICMPCKSUML :: nat where "ICMPCKSUML \<equiv> 23"
abbreviation (input) ICMPID :: nat where "ICMPID \<equiv> 24"
abbreviation (input) IP2 :: nat where "IP2 \<equiv> 28"
abbreviation (input) IP2LENH :: nat where "IP2LENH \<equiv> 30"
abbreviation (input) IP2LENL :: nat where "IP2LENL \<equiv> 31"
abbreviation (input) IP2OFFH :: nat where "IP2OFFH \<equiv> 34"
abbreviation (input) IP2OFFL :: nat where "IP2OFFL \<equiv> 35"
abbreviation (input) IP2PROTO :: nat where "IP2PROTO \<equiv> 37"
abbreviation (input) IP2CKSUMH :: nat where "IP2CKSUMH \<equiv> 38"
abbreviation (input) IP2CKSUML :: nat where "IP2CKSUML \<equiv> 39"
abbreviation (input) IP2SRC :: nat where "IP2SRC \<equiv> 40"
abbreviation (input) IP2DST :: nat where "IP2DST \<equiv> 44"
abbreviation (input) IP2SPORT :: nat where "IP2SPORT \<equiv> 48"
abbreviation (input) IP2DPORT :: nat where "IP2DPORT \<equiv> 50"
abbreviation (input) UDPLEN :: nat where "UDPLEN \<equiv> 24"
abbreviation (input) UDPCKSUMH :: nat where "UDPCKSUMH \<equiv> 26"
abbreviation (input) UDPCKSUML :: nat where "UDPCKSUML \<equiv> 27"
abbreviation (input) TCPSEQ :: nat where "TCPSEQ \<equiv> 24"
abbreviation (input) TCPACK :: nat where "TCPACK \<equiv> 28"
abbreviation (input) TCPOFF :: nat where "TCPOFF \<equiv> 32"
abbreviation (input) TCPFLAGS :: nat where "TCPFLAGS \<equiv> 33"
abbreviation (input) TCPCKSUMH :: nat where "TCPCKSUMH \<equiv> 36"
abbreviation (input) TCPCKSUML :: nat where "TCPCKSUML \<equiv> 37"
abbreviation (input) IPHDRLEN :: nat where "IPHDRLEN \<equiv> 20"
abbreviation (input) IPMINLEN :: nat where "IPMINLEN \<equiv> 28"
abbreviation (input) IPMAXLEN :: nat where "IPMAXLEN \<equiv> 65535"
abbreviation (input) TCPHDRLEN :: nat where "TCPHDRLEN \<equiv> 20"
abbreviation (input) IP6LENH :: nat where "IP6LENH \<equiv> 4"
abbreviation (input) IP6LENL :: nat where "IP6LENL \<equiv> 5"
abbreviation (input) IP6PROTO :: nat where "IP6PROTO \<equiv> 6"
abbreviation (input) IP6TTL :: nat where "IP6TTL \<equiv> 7"
abbreviation (input) IP6SRC :: nat where "IP6SRC \<equiv> 8"
abbreviation (input) IP6DST :: nat where "IP6DST \<equiv> 24"
abbreviation (input) IP6HDRLEN :: nat where "IP6HDRLEN \<equiv> 40"
abbreviation (input) IP6FPROTO :: nat where "IP6FPROTO \<equiv> 40"
abbreviation (input) IP6FOFFH :: nat where "IP6FOFFH \<equiv> 42"
abbreviation (input) IP6FOFFL :: nat where "IP6FOFFL \<equiv> 43"
abbreviation (input) IP6FID :: nat where "IP6FID \<equiv> 44"
abbreviation (input) IP6FLEN :: nat where "IP6FLEN \<equiv> 48"
abbreviation (input) ICMP6TYPE :: nat where "ICMP6TYPE \<equiv> 40"
abbreviation (input) ICMP6CODE :: nat where "ICMP6CODE \<equiv> 41"
abbreviation (input) ICMP6CKSUMH :: nat where "ICMP6CKSUMH \<equiv> 42"
abbreviation (input) ICMP6CKSUML :: nat where "ICMP6CKSUML \<equiv> 43"
abbreviation (input) ICMP6PTR :: nat where "ICMP6PTR \<equiv> 44"
abbreviation (input) IP62PROTO :: nat where "IP62PROTO \<equiv> 54"
abbreviation (input) IP62SRC :: nat where "IP62SRC \<equiv> 56"
abbreviation (input) IP62DST :: nat where "IP62DST \<equiv> 72"
abbreviation (input) IP64 :: nat where "IP64 \<equiv> 88"
abbreviation (input) IP64PROTO :: nat where "IP64PROTO \<equiv> 97"
abbreviation (input) ICMPMAXLEN :: nat where "ICMPMAXLEN \<equiv> 200"
abbreviation (input) IPVERMSK :: u8 where "IPVERMSK \<equiv> 240"
abbreviation (input) IP4V :: u8 where "IP4V \<equiv> 64"
abbreviation (input) IP4VNOOP :: u8 where "IP4VNOOP \<equiv> 69"
abbreviation (input) IPDF :: u8 where "IPDF \<equiv> 64"
abbreviation (input) IPMF :: u8 where "IPMF \<equiv> 32"
abbreviation (input) IPOFFMSK :: u8 where "IPOFFMSK \<equiv> 31"
abbreviation (input) IPICMP :: u8 where "IPICMP \<equiv> 1"
abbreviation (input) IPTCP :: u8 where "IPTCP \<equiv> 6"
abbreviation (input) IPUDP :: u8 where "IPUDP \<equiv> 17"
abbreviation (input) ICMPECHREP :: u8 where "ICMPECHREP \<equiv> 0"
abbreviation (input) ICMPECHREQ :: u8 where "ICMPECHREQ \<equiv> 8"
abbreviation (input) TCPOFFMSK :: u8 where "TCPOFFMSK \<equiv> 240"
abbreviation (input) TCPFFIN :: u8 where "TCPFFIN \<equiv> 1"
abbreviation (input) TCPFSYN :: u8 where "TCPFSYN \<equiv> 2"
abbreviation (input) TCPFRST :: u8 where "TCPFRST \<equiv> 4"
abbreviation (input) TCPFACK :: u8 where "TCPFACK \<equiv> 16"
abbreviation (input) TCPOPTEOL :: u8 where "TCPOPTEOL \<equiv> 0"
abbreviation (input) TCPOPTNOP :: u8 where "TCPOPTNOP \<equiv> 1"
abbreviation (input) TCPOPTMSS :: u8 where "TCPOPTMSS \<equiv> 2"
abbreviation (input) TCPOPTMSSLEN :: u8 where "TCPOPTMSSLEN \<equiv> 4"
abbreviation (input) TCPOPTMD5 :: u8 where "TCPOPTMD5 \<equiv> 19"
abbreviation (input) IP6V :: u8 where "IP6V \<equiv> 96"
abbreviation (input) IP6FMF :: u8 where "IP6FMF \<equiv> 1"
abbreviation (input) IP6FMSK :: u8 where "IP6FMSK \<equiv> 248"
abbreviation (input) IP6OTEL :: u8 where "IP6OTEL \<equiv> 4"
abbreviation (input) IP6IP4 :: u8 where "IP6IP4 \<equiv> 4"
abbreviation (input) IP6FRAG :: u8 where "IP6FRAG \<equiv> 44"
abbreviation (input) IP6DSTOP :: u8 where "IP6DSTOP \<equiv> 50"
abbreviation (input) IP6ICMP :: u8 where "IP6ICMP \<equiv> 58"
abbreviation (input) ALL_DST :: u8 where "ALL_DST \<equiv> 1"
abbreviation (input) PRR_NULL :: u8 where "PRR_NULL \<equiv> 2"
abbreviation (input) MATCH_PORT :: u8 where "MATCH_PORT \<equiv> 4"
abbreviation (input) MATCH_ICMP :: u8 where "MATCH_ICMP \<equiv> 8"
abbreviation (input) MATCH_ANY :: u8 where "MATCH_ANY \<equiv> 12"
abbreviation (input) FTP_DATA :: u8 where "FTP_DATA \<equiv> 16"
abbreviation (input) ON_HOLD :: u8 where "ON_HOLD \<equiv> 32"
abbreviation (input) ALL_FLAGS :: u8 where "ALL_FLAGS \<equiv> 31"
abbreviation (input) TCP_DEFAULT :: u8 where "TCP_DEFAULT \<equiv> 0"
abbreviation (input) TCP_ACKED :: u8 where "TCP_ACKED \<equiv> 1"
abbreviation (input) TCP_CLOSED_IN :: u8 where "TCP_CLOSED_IN \<equiv> 2"
abbreviation (input) TCP_CLOSED_OUT :: u8 where "TCP_CLOSED_OUT \<equiv> 4"
abbreviation (input) TCP_CLOSED_BOTH :: u8 where "TCP_CLOSED_BOTH \<equiv> 6"
abbreviation (input) TUNMSSFLG :: u8 where "TUNMSSFLG \<equiv> 1"
abbreviation (input) TUNTBDROP :: u8 where "TUNTBDROP \<equiv> 2"
abbreviation (input) TUNTBICMP :: u8 where "TUNTBICMP \<equiv> 4"
abbreviation (input) TUNDEBUG :: u8 where "TUNDEBUG \<equiv> 8"
abbreviation (input) TUNNONAT :: u8 where "TUNNONAT \<equiv> 16"
abbreviation (input) PORTFTP :: int where "PORTFTP \<equiv> 21"
abbreviation (input) TUNMINMTU :: int where "TUNMINMTU \<equiv> 1280"
abbreviation (input) FIRSTGEN :: u32 where "FIRSTGEN \<equiv> 1024"

text \<open>The protocol class that indexes the per protocol arrays (TCPPR, UDPPR, ICMPPR).\<close>

datatype prclass = TCPPR | UDPPR | ICMPPR

definition all_pr :: "prclass list" where
  "all_pr = [TCPPR, UDPPR, ICMPPR]"

text \<open>The \<open>switch (proto)\<close> that new_nat, del_nat and fill_bucket open with.\<close>

definition pr_of_proto :: "u8 \<Rightarrow> prclass" where
  "pr_of_proto p = (if p = IPTCP then TCPPR else if p = IPUDP then UDPPR else ICMPPR)"

text \<open>The reasons a packet is dropped for, in the order of the DR constants.\<close>

datatype drop_reason =
    DR_BAD6 | DR_ACL6 | DR_NOTUN | DR_ICMP6 | DR_BADIN | DR_INGRESS | DR_NATCNT | DR_NATRT
  | DR_NEWNAT | DR_ICMPIN | DR_BADOUT | DR_DSTOUT | DR_ICMPOUT | DR_NATOUT | DR_TOOBIG
  | DR_F6CNT | DR_F6TCNT | DR_BADF6 | DR_F6TM | DR_FINCNT | DR_FINTCNT | DR_FOUTCNT | DR_BADF4
  | DR_F4MEM | DR_FINTM | DR_FOUTTM

text \<open>
  What a packet handler does to the outside: it counts a drop, or it hands a packet to
  tun_write. The trace of these events is part of the state.
\<close>

datatype event = Dropped drop_reason | Write4 bytes | Write6 bytes

section \<open>Structures\<close>

type_synonym nid = nat  \<comment> \<open>struct nat pointer\<close>
type_synonym tid = nat  \<comment> \<open>struct tunnel pointer\<close>
type_synonym fid = nat  \<comment> \<open>struct frag pointer\<close>

record nat_entry =
  n_tunnel :: tid
  n_generation :: u32
  n_timeout :: int
  n_lifetime :: int
  n_heap_index :: nat
  n_src :: bytes
  n_nsrc :: bytes
  n_dst :: bytes
  n_sport :: bytes
  n_nport :: bytes
  n_dport :: bytes
  n_proto :: u8
  n_flags :: u8
  n_hash :: nat
  n_tcpst :: u8
  n_xlist :: "nid list"
  n_ftpseq :: "ftpseq list"

text \<open>The entry after \<open>memset(n, 0, sizeof( *n))\<close>.\<close>

definition nat_zero :: nat_entry where
  "nat_zero = \<lparr>n_tunnel = 0, n_generation = 0, n_timeout = 0, n_lifetime = 0, n_heap_index = 0,
     n_src = replicate 4 0, n_nsrc = replicate 4 0, n_dst = replicate 4 0,
     n_sport = replicate 2 0, n_nport = replicate 2 0, n_dport = replicate 2 0,
     n_proto = 0, n_flags = 0, n_hash = 0, n_tcpst = 0, n_xlist = [], n_ftpseq = []\<rparr>"

record pool =
  p_addr :: bytes
  p_minport :: "prclass \<Rightarrow> u16"
  p_maxport :: "prclass \<Rightarrow> u16"
  p_natcnt :: "prclass \<Rightarrow> u16"
  p_freebm :: "prclass \<Rightarrow> bytes option"
  p_helds :: "prclass \<Rightarrow> nid list"

record piece =
  f_buf :: bytes
  f_len :: nat
  f_off :: nat
  f_more :: bool

record frag = piece +
  f_tunnel :: tid
  f_expire :: int
  f_hash :: nat
  f_list :: "piece list"

record tunnel =
  t_remote :: bytes
  t_flags :: u8
  t_frg6cnt :: u8
  t_frg4cnt :: u8
  t_mtu :: u16
  t_hash :: nat
  t_tnat_root :: "prclass \<Rightarrow> nid tree"
  t_srcidx :: nat
  t_tnatcnt :: "prclass \<Rightarrow> u16"
  t_lastnat :: int
  t_tnatrt :: "prclass \<Rightarrow> u8"
  t_avail :: "prclass \<Rightarrow> u8"
  t_bucket :: "prclass \<Rightarrow> u16 list option"
  t_nnaddr :: bytes
  t_nnplen :: nat
  t_ngeneration :: u32

record acl =
  a_addr :: bytes
  a_mask :: bytes

text \<open>The global NAT tree: a node has a colour (RB_BLACK, RB_RED), two children and an entry.\<close>

datatype color = RB_BLACK | RB_RED

datatype 'a rbt = RbNil | RbNode color "'a rbt" 'a "'a rbt"

text \<open>
  The tunnel tree, a radix tree over the 128 bits of the remote address. A node has a branch
  bit (128 for a tunnel), the TUNGLUE flag, its key, the tunnel it is, and two children.
\<close>

datatype ttree = TNull | TNode nat bool bytes tid ttree ttree

section \<open>The global state\<close>

text \<open>
  \<open>gchains\<close> are the lists linked by gchain: confnats at 0, the snats list of the k-th session
  at k.
\<close>

record aftr =
  nats :: "nid \<rightharpoonup> nat_entry"
  tunnels :: "tid \<rightharpoonup> tunnel"
  nat_tree :: "prclass \<Rightarrow> nid rbt"
  gchains :: "nat \<Rightarrow> nid list"
  gc_ptr :: nid
  bt_ptr :: nid
  nathash :: "nat \<Rightarrow> nid"
  nathashsz :: nat
  nathashrnd :: u32
  nat_heap :: "nid list"
  nat_heap_last :: nat
  pools :: "pool option list"
  arc4 :: arc4_stream
  frags :: "fid \<rightharpoonup> frag"
  frags6 :: "fid list"
  fragsin :: "fid list"
  fragsout :: "fid list"
  frags6cnt :: nat
  fragsincnt :: nat
  fragsoutcnt :: nat
  fraghash :: "nat \<Rightarrow> fid"
  fraghashsz :: nat
  fraghashrnd :: u32
  tunhash :: "nat \<Rightarrow> tid"
  tunhashsz :: nat
  tunhashrnd :: u32
  acl6s :: "acl list"
  acl4s :: "acl list"
  seconds :: int
  natcntt :: nat
  natcntu :: nat
  natcnto :: nat
  snatcnt :: nat
  prrcnt :: nat
  lastgen :: u32
  icmpsrc :: bytes
  local6 :: bytes
  tunnel_tree :: ttree
  nonats :: "tid list"
  src_idx :: nat
  tuncnt :: nat
  curgen :: u32
  evs :: "event list"

text \<open>The globals as the process starts with them, with the empty hash tables of init_hashes (the
  random keys are still 0).\<close>

definition aftr0 :: aftr where
  "aftr0 = \<lparr>nats = Map.empty, tunnels = Map.empty, nat_tree = (\<lambda>pr. RbNil), gchains = (\<lambda>k. []),
     gc_ptr = 0, bt_ptr = 0, nathash = (\<lambda>h. 0),
     nathashsz = 1024, nathashrnd = 0, nat_heap = [], nat_heap_last = 0, pools = [],
     arc4 = arc4_init, frags = Map.empty, frags6 = [], fragsin = [], fragsout = [],
     frags6cnt = 0, fragsincnt = 0, fragsoutcnt = 0, fraghash = (\<lambda>h. 0), fraghashsz = 64,
     fraghashrnd = 0, tunhash = (\<lambda>h. 0), tunhashsz = 16, tunhashrnd = 0, acl6s = [],
     acl4s = [], seconds = 0, natcntt = 0, natcntu = 0, natcnto = 0, snatcnt = 0, prrcnt = 0,
     lastgen = FIRSTGEN, icmpsrc = replicate 4 0, local6 = replicate 16 0,
     tunnel_tree = TNull, nonats = [], src_idx = 0, tuncnt = 0, curgen = 0, evs = []\<rparr>"

text \<open>The configuration variables with their compiled-in values.\<close>

record config =
  frag_lifetime :: nat
  frag_maxcnt :: "nat list"
  fragtn_maxcnt :: "u8 list"
  bucksize :: "prclass \<Rightarrow> u8"
  nat_lifetime :: "int list"
  hold_lifetime :: nat
  maxtnatcnt :: "prclass \<Rightarrow> u16"
  maxtnatrt :: "prclass \<Rightarrow> u16"
  eqfrag :: bool
  poolmin :: "prclass \<Rightarrow> u16"
  poolmax :: "prclass \<Rightarrow> u16"
  tundefmtu :: u16
  enable_msspatch :: bool
  default_toobig :: u8
  use_autotunnel :: bool

definition default_config :: config where
  "default_config = \<lparr>frag_lifetime = 30, frag_maxcnt = [1024, 1024, 1024], fragtn_maxcnt = [16, 64],
     bucksize = (\<lambda>pr. case pr of TCPPR \<Rightarrow> 10 | UDPPR \<Rightarrow> 8 | ICMPPR \<Rightarrow> 3),
     nat_lifetime = [600, 120, 300, 30, 10], hold_lifetime = 120,
     maxtnatcnt = (\<lambda>pr. case pr of TCPPR \<Rightarrow> 2000 | UDPPR \<Rightarrow> 200 | ICMPPR \<Rightarrow> 50),
     maxtnatrt = (\<lambda>pr. case pr of TCPPR \<Rightarrow> 50 | UDPPR \<Rightarrow> 20 | ICMPPR \<Rightarrow> 5),
     eqfrag = False,
     poolmin = (\<lambda>pr. case pr of TCPPR \<Rightarrow> 2048 | UDPPR \<Rightarrow> 512 | ICMPPR \<Rightarrow> 0), poolmax = (\<lambda>pr. 65535),
     tundefmtu = 1500, enable_msspatch = False, default_toobig = TUNTBICMP, use_autotunnel = True\<rparr>"

section \<open>Field access through pointers\<close>

definition natof :: "aftr \<Rightarrow> nid \<Rightarrow> nat_entry" where
  "natof s n = the (nats s n)"

definition tunof :: "aftr \<Rightarrow> tid \<Rightarrow> tunnel" where
  "tunof s t = the (tunnels s t)"

definition poolof :: "aftr \<Rightarrow> nat \<Rightarrow> pool" where
  "poolof s i = the (pools s ! i)"

definition upd_nat :: "nid \<Rightarrow> (nat_entry \<Rightarrow> nat_entry) \<Rightarrow> aftr \<Rightarrow> aftr" where
  "upd_nat n f s = s\<lparr>nats := (nats s)(n := map_option f (nats s n))\<rparr>"

definition upd_tunnel :: "tid \<Rightarrow> (tunnel \<Rightarrow> tunnel) \<Rightarrow> aftr \<Rightarrow> aftr" where
  "upd_tunnel t f s = s\<lparr>tunnels := (tunnels s)(t := map_option f (tunnels s t))\<rparr>"

definition upd_pool :: "nat \<Rightarrow> (pool \<Rightarrow> pool) \<Rightarrow> aftr \<Rightarrow> aftr" where
  "upd_pool i f s = s\<lparr>pools := (pools s)[i := map_option f (pools s ! i)]\<rparr>"

definition emit :: "event \<Rightarrow> aftr \<Rightarrow> aftr" where
  "emit e s = s\<lparr>evs := evs s @ [e]\<rparr>"

definition stat_drop :: "drop_reason \<Rightarrow> aftr \<Rightarrow> aftr" where
  "stat_drop r = emit (Dropped r)"

text \<open>ISC_DECR: a counter at 0 stays there (the code logs and goes on).\<close>

definition isc_decr_u8 :: "u8 \<Rightarrow> u8" where
  "isc_decr_u8 c = (if c = 0 then c else c - 1)"

definition isc_decr_u16 :: "u16 \<Rightarrow> u16" where
  "isc_decr_u16 c = (if c = 0 then c else c - 1)"

definition isc_decr :: "nat \<Rightarrow> nat" where
  "isc_decr c = c - 1"

end
