(* ===== verification/Aftr_Jhash.thy ===== *)
theory Aftr_Jhash
  imports Aftr_Types
begin

text \<open>
  The Jenkins hash of the three lookup tables (\<^verbatim>\<open>__jhash_mix\<close>, jhash_frag, jhash_nat,
  jhash_tunnel). Loads with memcpy are little-endian, as on the hosts the daemon is built for.
\<close>

definition le32 :: "bytes \<Rightarrow> u32" where
  "le32 b = ucast (b ! 0) OR push_bit 8 (ucast (b ! 1)) OR push_bit 16 (ucast (b ! 2))
     OR push_bit 24 (ucast (b ! 3))"

text \<open>One line of the mixing macro: \<open>x -= y; x -= z; x ^= sh\<close>.\<close>

definition mixline :: "u32 \<Rightarrow> u32 \<Rightarrow> u32 \<Rightarrow> u32 \<Rightarrow> u32" where
  "mixline x y z sh = (x - y - z) XOR sh"

definition mix_a :: "(u32 \<Rightarrow> u32) \<Rightarrow> u32 \<times> u32 \<times> u32 \<Rightarrow> u32 \<times> u32 \<times> u32" where
  "mix_a sh t = (let (a, b, c) = t in (mixline a b c (sh c), b, c))"

definition mix_b :: "(u32 \<Rightarrow> u32) \<Rightarrow> u32 \<times> u32 \<times> u32 \<Rightarrow> u32 \<times> u32 \<times> u32" where
  "mix_b sh t = (let (a, b, c) = t in (a, mixline b c a (sh a), c))"

definition mix_c :: "(u32 \<Rightarrow> u32) \<Rightarrow> u32 \<times> u32 \<times> u32 \<Rightarrow> u32 \<times> u32 \<times> u32" where
  "mix_c sh t = (let (a, b, c) = t in (a, b, mixline c a b (sh b)))"

definition jhash_mix :: "u32 \<times> u32 \<times> u32 \<Rightarrow> u32 \<times> u32 \<times> u32" where
  "jhash_mix t =
     (let t = mix_a (drop_bit 13) t; t = mix_b (push_bit 8) t; t = mix_c (drop_bit 13) t;
          t = mix_a (drop_bit 12) t; t = mix_b (push_bit 16) t; t = mix_c (drop_bit 5) t;
          t = mix_a (drop_bit 3) t; t = mix_b (push_bit 10) t; t = mix_c (drop_bit 15) t
      in t)"

definition JHASH_GOLDEN_RATIO :: u32 where
  "JHASH_GOLDEN_RATIO = 0x9e3779b9"

text \<open>The fold to a short that ends each of the three hashes.\<close>

definition jhash_fold :: "u32 \<Rightarrow> u16" where
  "jhash_fold c = (let c = drop_bit 16 c + (c AND 0xffff); c = c AND 0xffff in ucast c)"

definition jhash_frag :: "u32 \<Rightarrow> bytes \<Rightarrow> u16" where
  "jhash_frag rnd buf4 =
     (let a = le32 (sub buf4 IPSRC 4) + JHASH_GOLDEN_RATIO;
          b = le32 (sub buf4 IPDST 4) + JHASH_GOLDEN_RATIO;
          c = le32 (sub buf4 IPID 2 @ sub buf4 IPID 2) + rnd;
          (a, b, c) = jhash_mix (a, b, c)
      in jhash_fold c)"

definition jhash_nat :: "u32 \<Rightarrow> nat_entry \<Rightarrow> u16" where
  "jhash_nat rnd n =
     (let a = le32 (n_nsrc n) + JHASH_GOLDEN_RATIO;
          b = le32 (n_nport n @ n_nport n) + JHASH_GOLDEN_RATIO;
          c = ucast (n_proto n) + rnd;
          (a, b, c) = jhash_mix (a, b, c)
      in jhash_fold c)"

definition jhash_tunnel :: "u32 \<Rightarrow> bytes \<Rightarrow> u16" where
  "jhash_tunnel rnd addr =
     (let a = le32 (sub addr 0 4) + JHASH_GOLDEN_RATIO;
          b = le32 (sub addr 4 4) + JHASH_GOLDEN_RATIO;
          c = le32 (sub addr 8 4) + rnd;
          (a, b, c) = jhash_mix (a, b, c);
          a = a + le32 (sub addr 12 4);
          (a, b, c) = jhash_mix (a, b, c)
      in jhash_fold c)"

text \<open>The slot of a table: \<open>hash &= size - 1\<close>.\<close>

definition hash_slot :: "u16 \<Rightarrow> nat \<Rightarrow> nat" where
  "hash_slot h sz = unat h AND (sz - 1)"

section \<open>The mix loses nothing\<close>

definition unmixline :: "u32 \<Rightarrow> u32 \<Rightarrow> u32 \<Rightarrow> u32 \<Rightarrow> u32" where
  "unmixline x y z sh = (x XOR sh) + z + y"

lemma unmix_mix [simp]: "unmixline (mixline x y z sh) y z sh = x"
  by (simp add: unmixline_def mixline_def xor.assoc)

lemma mix_unmix [simp]: "mixline (unmixline x y z sh) y z sh = x"
  by (simp add: unmixline_def mixline_def xor.assoc)

lemma mix_a_bij: "bij (mix_a sh)"
  by (rule o_bij [where g = "\<lambda>(a, b, c). (unmixline a b c (sh c), b, c)"])
    (auto simp: mix_a_def fun_eq_iff)

lemma mix_b_bij: "bij (mix_b sh)"
  by (rule o_bij [where g = "\<lambda>(a, b, c). (a, unmixline b c a (sh a), c)"])
    (auto simp: mix_b_def fun_eq_iff)

lemma mix_c_bij: "bij (mix_c sh)"
  by (rule o_bij [where g = "\<lambda>(a, b, c). (a, b, unmixline c a b (sh b))"])
    (auto simp: mix_c_def fun_eq_iff)

text \<open>
  The mixing macro is a bijection on the 96 bits of its three words, so keys that
  differ are still different before the final fold: the mix itself creates no collision.
\<close>

theorem jhash_mix_bij: "bij jhash_mix"
proof -
  have eq: "jhash_mix = mix_c (drop_bit 15) \<circ> mix_b (push_bit 10) \<circ> mix_a (drop_bit 3)
      \<circ> mix_c (drop_bit 5) \<circ> mix_b (push_bit 16) \<circ> mix_a (drop_bit 12)
      \<circ> mix_c (drop_bit 13) \<circ> mix_b (push_bit 8) \<circ> mix_a (drop_bit 13)"
    by (simp add: jhash_mix_def Let_def fun_eq_iff)
  show ?thesis unfolding eq by (intro bij_comp mix_a_bij mix_b_bij mix_c_bij)
qed

text \<open>A slot always lies in its table, for any table size but 0.\<close>

lemma hash_slot_less: "0 < sz \<Longrightarrow> hash_slot h sz < sz"
proof -
  assume "0 < sz"
  have "int (unat h AND (sz - 1)) \<le> int (sz - 1)"
    by (simp add: of_nat_and_eq AND_upper2 del: of_nat_diff)
  then have "hash_slot h sz \<le> sz - 1" by (simp add: hash_slot_def del: of_nat_diff)
  then show ?thesis using \<open>0 < sz\<close> by linarith
qed

lemma jhash_nat_cong:
  "n_nsrc a = n_nsrc b \<Longrightarrow> n_nport a = n_nport b \<Longrightarrow> n_proto a = n_proto b
   \<Longrightarrow> jhash_nat r a = jhash_nat r b"
  by (simp add: jhash_nat_def)

end
