(* ===== verification/Aftr_Compare.thy ===== *)
theory Aftr_Compare
  imports Aftr_Jhash
begin

text \<open>
  The compare routines of NAT entries (nat_tree_compare_all, nat_tree_compare_abs,
  nat_tree_compare_wild, nat_splay_compare_abs, nat_splay_compare_wild), the order they
  define, and where they do not define one.
\<close>

section \<open>The routines\<close>

text \<open>\<open>if (x != y) return (int) x - (int) y;\<close> for one byte, then for a field.\<close>

definition cmp_byte :: "u8 \<Rightarrow> u8 \<Rightarrow> int \<Rightarrow> int" where
  "cmp_byte x y k = (if x \<noteq> y then uint x - uint y else k)"

definition cmp2 :: "bytes \<Rightarrow> bytes \<Rightarrow> int \<Rightarrow> int" where
  "cmp2 x y k = cmp_byte (x ! 0) (y ! 0) (cmp_byte (x ! 1) (y ! 1) k)"

definition cmp4 :: "bytes \<Rightarrow> bytes \<Rightarrow> int \<Rightarrow> int" where
  "cmp4 x y k = cmp_byte (x ! 0) (y ! 0) (cmp_byte (x ! 1) (y ! 1)
     (cmp_byte (x ! 2) (y ! 2) (cmp_byte (x ! 3) (y ! 3) k)))"

text \<open>\<open>(int) (n1->tunnel - n2->tunnel)\<close>, a difference in units of the structure.\<close>

definition cmp_tunnel :: "tid \<Rightarrow> tid \<Rightarrow> int \<Rightarrow> int" where
  "cmp_tunnel x y k = (if x \<noteq> y then signed_take_bit 31 (int x - int y) else k)"

definition nat_tree_compare_all :: "nat_entry \<Rightarrow> nat_entry \<Rightarrow> int" where
  "nat_tree_compare_all n1 n2 =
     (if n_tunnel n1 \<noteq> n_tunnel n2 then 1
      else if n_proto n1 \<noteq> n_proto n2 then 1
      else if n_flags n1 \<noteq> n_flags n2 then 1
      else if \<exists>i \<in> {0, 1, 2, 3}. n_src n1 ! i \<noteq> n_src n2 ! i then 1
      else if \<exists>i \<in> {0, 1}. n_sport n1 ! i \<noteq> n_sport n2 ! i then 1
      else if \<exists>i \<in> {0, 1, 2, 3}. n_nsrc n1 ! i \<noteq> n_nsrc n2 ! i then 1
      else if \<exists>i \<in> {0, 1}. n_nport n1 ! i \<noteq> n_nport n2 ! i then 1
      else if \<exists>i \<in> {0, 1, 2, 3}. n_dst n1 ! i \<noteq> n_dst n2 ! i then 1
      else if \<exists>i \<in> {0, 1}. n_dport n1 ! i \<noteq> n_dport n2 ! i then 1
      else 0)"

text \<open>The tail the two absolute routines share: wildcard flags, then the destination.\<close>

definition cmp_dest_abs :: "nat_entry \<Rightarrow> nat_entry \<Rightarrow> int" where
  "cmp_dest_abs n1 n2 =
     (if n_flags n1 AND ALL_DST \<noteq> 0 then
        if n_flags n2 AND ALL_DST \<noteq> 0 then
          if n_flags n1 AND PRR_NULL \<noteq> 0
          then if n_flags n2 AND PRR_NULL \<noteq> 0 then 0 else -1
          else if n_flags n2 AND PRR_NULL \<noteq> 0 then 1 else 0
        else -1
      else cmp4 (n_dst n1) (n_dst n2)
        (if n_flags n1 AND MATCH_ANY = 0 then 0 else cmp2 (n_dport n1) (n_dport n2) 0))"

text \<open>The tail the two wildcard routines share.\<close>

definition cmp_dest_wild :: "nat_entry \<Rightarrow> nat_entry \<Rightarrow> int" where
  "cmp_dest_wild n1 n2 =
     (if (n_flags n1 OR n_flags n2) AND ALL_DST \<noteq> 0 then 0
      else cmp4 (n_dst n1) (n_dst n2)
        (if n_flags n1 AND MATCH_ANY = 0 then 0 else cmp2 (n_dport n1) (n_dport n2) 0))"

definition nat_tree_compare_abs :: "nat_entry \<Rightarrow> nat_entry \<Rightarrow> int" where
  "nat_tree_compare_abs n1 n2 =
     cmp_byte (n_proto n1) (n_proto n2) (cmp4 (n_nsrc n1) (n_nsrc n2)
       (cmp2 (n_nport n1) (n_nport n2) (cmp_dest_abs n1 n2)))"

definition nat_tree_compare_wild :: "nat_entry \<Rightarrow> nat_entry \<Rightarrow> int" where
  "nat_tree_compare_wild n1 n2 =
     cmp_byte (n_proto n1) (n_proto n2) (cmp4 (n_nsrc n1) (n_nsrc n2)
       (cmp2 (n_nport n1) (n_nport n2) (cmp_dest_wild n1 n2)))"

definition nat_splay_compare_abs :: "nat_entry \<Rightarrow> nat_entry \<Rightarrow> int" where
  "nat_splay_compare_abs n1 n2 =
     cmp_tunnel (n_tunnel n1) (n_tunnel n2) (cmp_byte (n_proto n1) (n_proto n2)
       (cmp4 (n_src n1) (n_src n2) (cmp2 (n_sport n1) (n_sport n2) (cmp_dest_abs n1 n2))))"

definition nat_splay_compare_wild :: "nat_entry \<Rightarrow> nat_entry \<Rightarrow> int" where
  "nat_splay_compare_wild n1 n2 =
     cmp_tunnel (n_tunnel n1) (n_tunnel n2) (cmp_byte (n_proto n1) (n_proto n2)
       (cmp4 (n_src n1) (n_src n2) (cmp2 (n_sport n1) (n_sport n2) (cmp_dest_wild n1 n2))))"

section \<open>The order behind them\<close>

text \<open>The reference: lexicographic comparison of integer lists, as a sign.\<close>

fun lex_cmp :: "int list \<Rightarrow> int list \<Rightarrow> int" where
  "lex_cmp [] [] = 0"
| "lex_cmp [] (y # ys) = -1"
| "lex_cmp (x # xs) [] = 1"
| "lex_cmp (x # xs) (y # ys) = (if x < y then -1 else if x > y then 1 else lex_cmp xs ys)"

lemma lex_cmp_eq [simp]: "lex_cmp xs ys = 0 \<longleftrightarrow> xs = ys"
  by (induction xs ys rule: lex_cmp.induct) auto

lemma lex_cmp_anti: "lex_cmp ys xs = - lex_cmp xs ys"
  by (induction xs ys rule: lex_cmp.induct) auto

lemma lex_cmp_trans: "lex_cmp xs ys < 0 \<Longrightarrow> lex_cmp ys zs < 0 \<Longrightarrow> lex_cmp xs zs < 0"
proof (induction xs ys arbitrary: zs rule: lex_cmp.induct)
  case (4 x xs y ys)
  then obtain z zs' where zs: "zs = z # zs'" by (cases zs) auto
  show ?case
    using 4(1) [of zs'] 4(2,3) unfolding zs
    by (cases x y rule: linorder_cases; cases y z rule: linorder_cases) simp_all
next
  case (2 y ys)
  then show ?case by (cases zs) auto
qed simp_all

text \<open>
  The key of an entry: an entry for all destinations has no destination in its key and comes
  before every entry with one, a null (PRR) entry before a static one.
\<close>

definition dest_key :: "nat_entry \<Rightarrow> int list" where
  "dest_key n =
     (if n_flags n AND ALL_DST \<noteq> 0 then [if n_flags n AND PRR_NULL \<noteq> 0 then -2 else -1]
      else map uint (n_dst n) @ map uint (n_dport n))"

definition tree_key :: "nat_entry \<Rightarrow> int list" where
  "tree_key n = [uint (n_proto n)] @ map uint (n_nsrc n) @ map uint (n_nport n) @ dest_key n"

definition splay_key :: "nat_entry \<Rightarrow> int list" where
  "splay_key n = [int (n_tunnel n), uint (n_proto n)] @ map uint (n_src n) @ map uint (n_sport n) @ dest_key n"

text \<open>
  The entries the daemon builds: fields of the right size, and a real destination with ports
  to match unless the entry is for all destinations.
\<close>

definition key_ok :: "nat_entry \<Rightarrow> bool" where
  "key_ok n \<longleftrightarrow> length (n_src n) = 4 \<and> length (n_nsrc n) = 4 \<and> length (n_dst n) = 4 \<and>
     length (n_sport n) = 2 \<and> length (n_nport n) = 2 \<and> length (n_dport n) = 2 \<and>
     n_tunnel n < 2 ^ 31 \<and>
     (if n_flags n AND ALL_DST \<noteq> 0 then n_dst n = replicate 4 0
      else n_dst n ! 0 \<noteq> 0 \<and> n_flags n AND MATCH_ANY \<noteq> 0)"

lemma length2: "length b = 2 \<Longrightarrow> b = [b ! 0, b ! 1]"
  by (auto simp: numeral_2_eq_2 length_Suc_conv)

lemma length4: "length b = 4 \<Longrightarrow> b = [b ! 0, b ! 1, b ! 2, b ! 3]"
  by (auto simp: numeral_eq_Suc length_Suc_conv)

lemma sgn_cmp_byte: "sgn k = lex_cmp xs ys \<Longrightarrow> sgn (cmp_byte a b k) = lex_cmp (uint a # xs) (uint b # ys)"
  by (auto simp: cmp_byte_def word_uint_eq_iff sgn_if)

lemma sgn_cmp2:
  assumes "length x = 2" "length y = 2" "sgn k = lex_cmp xs ys"
  shows "sgn (cmp2 x y k) = lex_cmp (map uint x @ xs) (map uint y @ ys)"
  by (subst (2) length2 [OF assms(1)], subst (2) length2 [OF assms(2)])
    (simp add: cmp2_def sgn_cmp_byte assms(3) del: lex_cmp.simps)

lemma sgn_cmp4:
  assumes "length x = 4" "length y = 4" "sgn k = lex_cmp xs ys"
  shows "sgn (cmp4 x y k) = lex_cmp (map uint x @ xs) (map uint y @ ys)"
  by (subst (2) length4 [OF assms(1)], subst (2) length4 [OF assms(2)])
    (simp add: cmp4_def sgn_cmp_byte assms(3) del: lex_cmp.simps)

lemma sgn_cmp_tunnel:
  assumes "x < 2 ^ 31" "y < 2 ^ 31" "sgn k = lex_cmp xs ys"
  shows "sgn (cmp_tunnel x y k) = lex_cmp (int x # xs) (int y # ys)"
proof -
  have "- (2 ^ 31) \<le> int x - int y" "int x - int y < 2 ^ 31" using assms(1,2) by simp_all
  then have "signed_take_bit 31 (int x - int y) = int x - int y"
    by (intro signed_take_bit_int_eq_self) auto
  then show ?thesis using assms(3) by (auto simp: cmp_tunnel_def sgn_if)
qed

lemma map_uint_nonneg_hd: "b \<noteq> [] \<Longrightarrow> 0 \<le> uint (hd b)"
  by simp

lemma dest_abs_sign:
  assumes "key_ok a" "key_ok b"
  shows "sgn (cmp_dest_abs a b) = lex_cmp (dest_key a) (dest_key b)"
proof -
  have la: "length (n_dst a) = 4" "length (n_dport a) = 2" "length (n_dst b) = 4" "length (n_dport b) = 2"
    using assms by (simp_all add: key_ok_def)
  consider "n_flags a AND ALL_DST \<noteq> 0" | "n_flags a AND ALL_DST = 0" "n_flags b AND ALL_DST \<noteq> 0"
    | "n_flags a AND ALL_DST = 0" "n_flags b AND ALL_DST = 0" by blast
  then show ?thesis
  proof cases
    case 1
    have "lex_cmp [k] (map uint (n_dst b) @ ys) = -1" if "k < 0" for k ys
    proof -
      have "k < uint (n_dst b ! 0)" using that uint_nonnegative [of "n_dst b ! 0"] by linarith
      then show ?thesis by (subst length4 [OF la(3)]) simp
    qed
    then show ?thesis using 1 by (simp add: cmp_dest_abs_def dest_key_def)
  next
    case 2
    have d: "n_dst b = replicate 4 0" "n_dst a ! 0 \<noteq> 0" using assms 2 by (auto simp: key_ok_def)
    then have p: "0 < uint (n_dst a ! 0)" by (simp add: order_less_le)
    have "cmp_dest_abs a b = uint (n_dst a ! 0)"
      using 2 d by (simp add: cmp_dest_abs_def cmp4_def cmp_byte_def)
    moreover have "lex_cmp (map uint (n_dst a) @ xs) [k] = 1" if "k < 0" for k xs
      using that p by (subst length4 [OF la(1)]) simp
    ultimately show ?thesis using 2 p d(2) by (simp add: dest_key_def)
  next
    case 3
    have "n_flags a AND MATCH_ANY \<noteq> 0" using assms 3 by (simp add: key_ok_def)
    then have "cmp_dest_abs a b = cmp4 (n_dst a) (n_dst b) (cmp2 (n_dport a) (n_dport b) 0)"
      using 3 by (simp add: cmp_dest_abs_def)
    moreover have "sgn (cmp4 (n_dst a) (n_dst b) (cmp2 (n_dport a) (n_dport b) 0))
        = lex_cmp (map uint (n_dst a) @ map uint (n_dport a) @ []) (map uint (n_dst b) @ map uint (n_dport b) @ [])"
      by (intro sgn_cmp4 sgn_cmp2 la) simp
    ultimately show ?thesis using 3 by (simp add: dest_key_def)
  qed
qed

lemma tree_compare_sign:
  assumes "key_ok a" "key_ok b"
  shows "sgn (nat_tree_compare_abs a b) = lex_cmp (tree_key a) (tree_key b)"
  using assms dest_abs_sign [OF assms]
  by (simp add: nat_tree_compare_abs_def tree_key_def key_ok_def sgn_cmp_byte sgn_cmp2 sgn_cmp4
      del: lex_cmp.simps)

lemma splay_compare_sign:
  assumes "key_ok a" "key_ok b"
  shows "sgn (nat_splay_compare_abs a b) = lex_cmp (splay_key a) (splay_key b)"
  using assms dest_abs_sign [OF assms]
  by (simp add: nat_splay_compare_abs_def splay_key_def key_ok_def sgn_cmp_byte sgn_cmp2 sgn_cmp4
      sgn_cmp_tunnel del: lex_cmp.simps)

section \<open>The contract of a compare routine\<close>

text \<open>
  What the two trees need of the routine they descend with: on the entries they hold it is
  the sign of a total order on keys.
\<close>

locale comparator =
  fixes ok :: "'e \<Rightarrow> bool" and cmp :: "'e \<Rightarrow> 'e \<Rightarrow> int" and key :: "'e \<Rightarrow> int list"
  assumes sign: "ok a \<Longrightarrow> ok b \<Longrightarrow> sgn (cmp a b) = lex_cmp (key a) (key b)"
begin

lemma cmp_zero: "ok a \<Longrightarrow> ok b \<Longrightarrow> cmp a b = 0 \<longleftrightarrow> key a = key b"
  using sign [of a b] by (metis lex_cmp_eq sgn_0_0)

lemma cmp_neg: "ok a \<Longrightarrow> ok b \<Longrightarrow> cmp a b < 0 \<longleftrightarrow> lex_cmp (key a) (key b) < 0"
  using sign [of a b] by (metis sgn_less)

lemma cmp_pos: "ok a \<Longrightarrow> ok b \<Longrightarrow> 0 < cmp a b \<longleftrightarrow> lex_cmp (key b) (key a) < 0"
  using sign [of a b] lex_cmp_anti [of "key b" "key a"] by (metis neg_less_0_iff_less sgn_greater)

lemma cmp_swap: "ok a \<Longrightarrow> ok b \<Longrightarrow> cmp a b < 0 \<longleftrightarrow> 0 < cmp b a"
  by (simp add: cmp_neg cmp_pos)

lemma cmp_refl: "ok a \<Longrightarrow> cmp a a = 0"
  by (simp add: cmp_zero)

lemma cmp_trans: "ok a \<Longrightarrow> ok b \<Longrightarrow> ok c \<Longrightarrow> cmp a b < 0 \<Longrightarrow> cmp b c < 0 \<Longrightarrow> cmp a c < 0"
  using cmp_neg lex_cmp_trans by blast

lemma cmp_eq_trans: "ok a \<Longrightarrow> ok b \<Longrightarrow> ok c \<Longrightarrow> cmp a b = 0 \<Longrightarrow> cmp b c < 0 \<Longrightarrow> cmp a c < 0"
  by (simp add: cmp_neg cmp_zero)

end

interpretation tree_cmp: comparator key_ok nat_tree_compare_abs tree_key
  by unfold_locales (rule tree_compare_sign)

interpretation splay_cmp: comparator key_ok nat_splay_compare_abs splay_key
  by unfold_locales (rule splay_compare_sign)

text \<open>
  Claim C33: on the entries the daemon builds, nat_tree_compare_abs and nat_splay_compare_abs
  are total orders: each is antisymmetric in sign and transitive, and is 0 exactly when the
  keys agree. Without the flag conventions (an entry for all destinations has no destination,
  every other one has ports to match) the routines are not symmetric.
\<close>

theorem compare_abs_total_order:
  assumes "key_ok a" "key_ok b" "key_ok c"
  shows "(nat_tree_compare_abs a b < 0 \<longleftrightarrow> nat_tree_compare_abs b a > 0) \<and>
    (nat_tree_compare_abs a b < 0 \<longrightarrow> nat_tree_compare_abs b c < 0 \<longrightarrow> nat_tree_compare_abs a c < 0) \<and>
    (nat_tree_compare_abs a b = 0 \<longleftrightarrow> tree_key a = tree_key b) \<and>
    (nat_splay_compare_abs a b < 0 \<longleftrightarrow> nat_splay_compare_abs b a > 0) \<and>
    (nat_splay_compare_abs a b < 0 \<longrightarrow> nat_splay_compare_abs b c < 0 \<longrightarrow> nat_splay_compare_abs a c < 0) \<and>
    (nat_splay_compare_abs a b = 0 \<longleftrightarrow> splay_key a = splay_key b)"
  using tree_cmp.cmp_swap [of a b] tree_cmp.cmp_trans [of a b c] tree_cmp.cmp_zero [of a b]
    splay_cmp.cmp_swap [of a b] splay_cmp.cmp_trans [of a b c] splay_cmp.cmp_zero [of a b] assms
  by blast

text \<open>Three entries of one tunnel: two flows of a port and a static binding of it.\<close>

definition flow :: "u8 \<Rightarrow> nat_entry" where
  "flow d = nat_zero\<lparr>n_tunnel := 1, n_proto := IPTCP, n_flags := MATCH_PORT, n_src := [10, 0, 0, 1],
     n_sport := [4, 0], n_nsrc := [192, 0, 2, 1], n_nport := [9, 0], n_dst := [d, 0, 0, 1],
     n_dport := [0, 80]\<rparr>"

definition binding :: nat_entry where
  "binding = nat_zero\<lparr>n_tunnel := 1, n_proto := IPTCP, n_flags := ALL_DST OR MATCH_PORT,
     n_src := [10, 0, 0, 1], n_sport := [4, 0], n_nsrc := [192, 0, 2, 1], n_nport := [7, 0]\<rparr>"

lemma flow_ok: "d \<noteq> 0 \<Longrightarrow> key_ok (flow d)"
  by (simp add: key_ok_def flow_def nat_zero_def)

lemma binding_ok: "key_ok binding"
  by (simp add: key_ok_def binding_def nat_zero_def)

theorem compare_abs_total_order_witness:
  "nat_splay_compare_abs binding (flow 8) < 0 \<and> nat_splay_compare_abs (flow 8) binding > 0"
proof -
  have "nat_splay_compare_abs binding (flow 8) < 0"
    by (simp add: nat_splay_compare_abs_def cmp_tunnel_def cmp_byte_def cmp4_def cmp2_def
        cmp_dest_abs_def binding_def flow_def nat_zero_def)
  then show ?thesis using compare_abs_total_order [of binding "flow 8" binding] flow_ok [of 8] binding_ok
    by simp
qed

text \<open>
  Entries that the wildcard search of the global tree takes for the same have the
  same hash, so a lookup that hits nathash looks into the slot the entry was stored in.
\<close>

theorem wild_match_same_hash:
  assumes "key_ok a" "key_ok b" "nat_tree_compare_wild a b = 0"
  shows "jhash_nat rnd a = jhash_nat rnd b"
proof (rule jhash_nat_cong)
  have b: "cmp_byte x y k = 0 \<longleftrightarrow> x = y \<and> k = 0" for x y k
    by (auto simp: cmp_byte_def word_uint_eq_iff)
  have *: "n_proto a = n_proto b" "\<forall>i \<in> {0, 1, 2, 3}. n_nsrc a ! i = n_nsrc b ! i"
    "\<forall>i \<in> {0, 1}. n_nport a ! i = n_nport b ! i"
    using assms(3) by (auto simp: nat_tree_compare_wild_def cmp4_def cmp2_def b)
  then show "n_proto a = n_proto b" by simp
  show "n_nsrc a = n_nsrc b" "n_nport a = n_nport b"
    using * assms(1,2) length4 [of "n_nsrc a"] length4 [of "n_nsrc b"]
      length2 [of "n_nport a"] length2 [of "n_nport b"] by (simp_all add: key_ok_def)
qed

theorem wild_match_same_hash_witness:
  "jhash_nat 5 (flow 8) = jhash_nat 5 ((flow 8)\<lparr>n_generation := 3\<rparr>)"
  by (rule wild_match_same_hash)
    (simp_all add: key_ok_def flow_def nat_zero_def nat_tree_compare_wild_def cmp_byte_def cmp4_def
      cmp2_def cmp_dest_wild_def)

end
