(* ===== verification/Aftr_RBTree.thy ===== *)
theory Aftr_RBTree
  imports Aftr_Compare
begin

text \<open>
  The red-black tree of NAT entries (nat_tree_rotate_left, nat_tree_rotate_right,
  nat_tree_insert, nat_tree_insert_color, nat_tree_remove, nat_tree_remove_color,
  nat_tree_find_wild, nat_tree_min, nat_tree_next). The parent pointers of the code are the
  path from a node up to the root: a list whose head is the parent, with the subtree on the
  other side. The root is reached when the path is empty.
\<close>

section \<open>Paths\<close>

text \<open>\<open>LeftOf c x r\<close>: the parent is \<open>x\<close> of colour \<open>c\<close>, we are its left child, \<open>r\<close> its right.\<close>

datatype 'a step = LeftOf color 'a "'a rbt" | RightOf color "'a rbt" 'a

type_synonym 'a path = "'a step list"

fun plug1 :: "'a step \<Rightarrow> 'a rbt \<Rightarrow> 'a rbt" where
  "plug1 (LeftOf c x r) t = RbNode c t x r"
| "plug1 (RightOf c l x) t = RbNode c l x t"

definition plug :: "'a path \<Rightarrow> 'a rbt \<Rightarrow> 'a rbt" where
  "plug p t = fold plug1 p t"

fun step_color :: "'a step \<Rightarrow> color" where
  "step_color (LeftOf c x r) = c"
| "step_color (RightOf c l x) = c"

fun recolor :: "color \<Rightarrow> 'a step \<Rightarrow> 'a step" where
  "recolor c (LeftOf c' x r) = LeftOf c x r"
| "recolor c (RightOf c' l x) = RightOf c l x"

text \<open>\<open>n == NULL || n->color == RB_BLACK\<close>, and setting the colour of a node that may be NULL.\<close>

fun is_red :: "'a rbt \<Rightarrow> bool" where
  "is_red RbNil = False"
| "is_red (RbNode c l x r) = (c = RB_RED)"

fun paint :: "color \<Rightarrow> 'a rbt \<Rightarrow> 'a rbt" where
  "paint c RbNil = RbNil"
| "paint c (RbNode c' l x r) = RbNode c l x r"

section \<open>Rotations\<close>

fun nat_tree_rotate_left :: "'a rbt \<Rightarrow> 'a rbt" where
  "nat_tree_rotate_left (RbNode c l x (RbNode c' l' y r)) = RbNode c' (RbNode c l x l') y r"
| "nat_tree_rotate_left t = t"

fun nat_tree_rotate_right :: "'a rbt \<Rightarrow> 'a rbt" where
  "nat_tree_rotate_right (RbNode c (RbNode c' l x r') y r) = RbNode c' l x (RbNode c r' y r)"
| "nat_tree_rotate_right t = t"

section \<open>Insertion\<close>

text \<open>
  The loop of nat_tree_insert_color with the red node \<open>n\<close> below the path. After a rotation
  the node's parent is black and the loop ends; the root is painted black last. The parent of
  a red parent exists, because the root is black; the code would follow NULL otherwise.
\<close>

fun nat_tree_insert_color :: "'a rbt \<Rightarrow> 'a path \<Rightarrow> 'a rbt" where
  "nat_tree_insert_color n [] = paint RB_BLACK n"
| "nat_tree_insert_color n [p] = paint RB_BLACK (plug [p] n)"
| "nat_tree_insert_color n (p # g # path) =
     (if step_color p = RB_BLACK then paint RB_BLACK (plug (p # g # path) n)
      else case g of
        LeftOf gc gx tmp \<Rightarrow>
          if is_red tmp
          then nat_tree_insert_color
                 (RbNode RB_RED (plug1 (recolor RB_BLACK p) n) gx (paint RB_BLACK tmp)) path
          else
            let parent = (case p of RightOf c l x \<Rightarrow> nat_tree_rotate_left (plug1 p n)
                                  | LeftOf c x r \<Rightarrow> plug1 p n)
            in paint RB_BLACK (plug path
                 (nat_tree_rotate_right (RbNode RB_RED (paint RB_BLACK parent) gx tmp)))
      | RightOf gc tmp gx \<Rightarrow>
          if is_red tmp
          then nat_tree_insert_color
                 (RbNode RB_RED (paint RB_BLACK tmp) gx (plug1 (recolor RB_BLACK p) n)) path
          else
            let parent = (case p of LeftOf c x r \<Rightarrow> nat_tree_rotate_right (plug1 p n)
                                  | RightOf c l x \<Rightarrow> plug1 p n)
            in paint RB_BLACK (plug path
                 (nat_tree_rotate_left (RbNode RB_RED tmp gx (paint RB_BLACK parent)))))"

text \<open>
  The descent: the entry that compares equal, or the path to the free place. \<open>cm x\<close> is the
  new entry compared with \<open>x\<close>.
\<close>

fun nat_tree_descend :: "('a \<Rightarrow> int) \<Rightarrow> 'a rbt \<Rightarrow> 'a path \<Rightarrow> 'a + 'a path" where
  "nat_tree_descend cm RbNil path = Inr path"
| "nat_tree_descend cm (RbNode c l x r) path =
     (if cm x < 0 then nat_tree_descend cm l (LeftOf c x r # path)
      else if cm x > 0 then nat_tree_descend cm r (RightOf c l x # path)
      else Inl x)"

text \<open>The result is the entry in the way (\<open>None\<close> for the code's NULL) and the tree.\<close>

definition nat_tree_insert :: "('a \<Rightarrow> int) \<Rightarrow> 'a \<Rightarrow> 'a rbt \<Rightarrow> 'a option \<times> 'a rbt" where
  "nat_tree_insert cm n t =
     (case nat_tree_descend cm t [] of
        Inl x \<Rightarrow> (Some x, t)
      | Inr path \<Rightarrow> (None, nat_tree_insert_color (RbNode RB_RED RbNil n RbNil) path))"

section \<open>Removal\<close>

text \<open>
  The part of nat_tree_remove_color for a sibling that is black and has a red child; the loop
  ends after it and the root is painted black. \<open>n\<close> is the left child.
\<close>

definition remove_color_left :: "color \<Rightarrow> 'a rbt \<Rightarrow> 'a \<Rightarrow> 'a rbt \<Rightarrow> 'a rbt" where
  "remove_color_left pc n px tmp =
     (case tmp of
        RbNil \<Rightarrow> RbNode pc n px tmp
      | RbNode sc sl sx sr \<Rightarrow>
          let tmp = (if \<not> is_red sr
                     then nat_tree_rotate_right (RbNode RB_RED (paint RB_BLACK sl) sx sr) else tmp)
          in case tmp of
               RbNil \<Rightarrow> RbNode pc n px tmp
             | RbNode sc sl sx sr \<Rightarrow>
                 nat_tree_rotate_left (RbNode RB_BLACK n px (RbNode pc sl sx (paint RB_BLACK sr))))"

definition remove_color_right :: "color \<Rightarrow> 'a rbt \<Rightarrow> 'a \<Rightarrow> 'a rbt \<Rightarrow> 'a rbt" where
  "remove_color_right pc tmp px n =
     (case tmp of
        RbNil \<Rightarrow> RbNode pc tmp px n
      | RbNode sc sl sx sr \<Rightarrow>
          let tmp = (if \<not> is_red sl
                     then nat_tree_rotate_left (RbNode RB_RED sl sx (paint RB_BLACK sr)) else tmp)
          in case tmp of
               RbNil \<Rightarrow> RbNode pc tmp px n
             | RbNode sc sl sx sr \<Rightarrow>
                 nat_tree_rotate_right (RbNode RB_BLACK (RbNode pc (paint RB_BLACK sl) sx sr) px n))"

fun rb_kids_black :: "'a rbt \<Rightarrow> bool" where
  "rb_kids_black RbNil = True"
| "rb_kids_black (RbNode c l x r) = (\<not> is_red l \<and> \<not> is_red r)"

text \<open>
  The loop of nat_tree_remove_color: \<open>n\<close> lacks one black node. A red sibling is first rotated
  up, which makes the parent red, so the turn that follows is the last one.
\<close>

fun nat_tree_remove_color :: "'a rbt \<Rightarrow> 'a path \<Rightarrow> 'a rbt" where
  "nat_tree_remove_color n [] = paint RB_BLACK n"
| "nat_tree_remove_color n (LeftOf pc px tmp # path) =
     (if is_red n then plug (LeftOf pc px tmp # path) (paint RB_BLACK n)
      else case tmp of
        RbNode RB_RED sl sx sr \<Rightarrow>
          if rb_kids_black sl
          then plug (LeftOf RB_BLACK sx sr # path) (RbNode RB_BLACK n px (paint RB_RED sl))
          else paint RB_BLACK
                 (plug (LeftOf RB_BLACK sx sr # path) (remove_color_left RB_RED n px sl))
      | _ \<Rightarrow>
          if rb_kids_black tmp
          then nat_tree_remove_color (RbNode pc n px (paint RB_RED tmp)) path
          else paint RB_BLACK (plug path (remove_color_left pc n px tmp)))"
| "nat_tree_remove_color n (RightOf pc tmp px # path) =
     (if is_red n then plug (RightOf pc tmp px # path) (paint RB_BLACK n)
      else case tmp of
        RbNode RB_RED sl sx sr \<Rightarrow>
          if rb_kids_black sr
          then plug (RightOf RB_BLACK sl sx # path) (RbNode RB_BLACK (paint RB_RED sr) px n)
          else paint RB_BLACK
                 (plug (RightOf RB_BLACK sl sx # path) (remove_color_right RB_RED sr px n))
      | _ \<Rightarrow>
          if rb_kids_black tmp
          then nat_tree_remove_color (RbNode pc (paint RB_RED tmp) px n) path
          else paint RB_BLACK (plug path (remove_color_right pc tmp px n)))"

text \<open>The subtree at an entry and the path to it (the code has the pointer).\<close>

fun rb_locate :: "'a \<Rightarrow> 'a rbt \<Rightarrow> 'a path \<Rightarrow> ('a rbt \<times> 'a path) option" where
  "rb_locate n RbNil path = None"
| "rb_locate n (RbNode c l x r) path =
     (if x = n then Some (RbNode c l x r, path)
      else case rb_locate n l (LeftOf c x r # path) of
             Some res \<Rightarrow> Some res
           | None \<Rightarrow> rb_locate n r (RightOf c l x # path))"

text \<open>The leftmost node below: its colour, entry and right child, and the path to it.\<close>

fun rb_leftmost :: "'a rbt \<Rightarrow> 'a path \<Rightarrow> (color \<times> 'a \<times> 'a rbt \<times> 'a path) option" where
  "rb_leftmost RbNil path = None"
| "rb_leftmost (RbNode c l x r) path =
     (case rb_leftmost l (LeftOf c x r # path) of
        Some res \<Rightarrow> Some res
      | None \<Rightarrow> Some (c, x, r, path))"

definition rb_unlink :: "color \<Rightarrow> 'a rbt \<Rightarrow> 'a path \<Rightarrow> 'a rbt" where
  "rb_unlink c child path = (if c = RB_BLACK then nat_tree_remove_color child path else plug path child)"

text \<open>
  nat_tree_remove: with two children the in-order successor is unlinked instead and takes the
  place and the colour of the removed entry.
\<close>

definition nat_tree_remove :: "'a \<Rightarrow> 'a rbt \<Rightarrow> 'a rbt" where
  "nat_tree_remove n t =
     (case rb_locate n t [] of
        Some (RbNode c l x r, path) \<Rightarrow>
          if l = RbNil then rb_unlink c r path
          else if r = RbNil then rb_unlink c l path
          else (case rb_leftmost r [] of
                  None \<Rightarrow> t
                | Some (mc, mx, mr, mpath) \<Rightarrow> rb_unlink mc mr (mpath @ RightOf c l mx # path))
      | _ \<Rightarrow> t)"

section \<open>Search\<close>

fun nat_tree_find_wild :: "('a \<Rightarrow> int) \<Rightarrow> 'a rbt \<Rightarrow> 'a option" where
  "nat_tree_find_wild cm RbNil = None"
| "nat_tree_find_wild cm (RbNode c l x r) =
     (if cm x < 0 then nat_tree_find_wild cm l
      else if cm x > 0 then nat_tree_find_wild cm r
      else Some x)"

fun nat_tree_min :: "'a rbt \<Rightarrow> 'a option" where
  "nat_tree_min RbNil = None"
| "nat_tree_min (RbNode c RbNil x r) = Some x"
| "nat_tree_min (RbNode c l x r) = nat_tree_min l"

section \<open>What the tree holds\<close>

fun rb_list :: "'a rbt \<Rightarrow> 'a list" where
  "rb_list RbNil = []"
| "rb_list (RbNode c l x r) = rb_list l @ x # rb_list r"

fun lefts :: "'a path \<Rightarrow> 'a list" where
  "lefts [] = []"
| "lefts (LeftOf c x r # p) = lefts p"
| "lefts (RightOf c l x # p) = lefts p @ rb_list l @ [x]"

fun rights :: "'a path \<Rightarrow> 'a list" where
  "rights [] = []"
| "rights (LeftOf c x r # p) = x # rb_list r @ rights p"
| "rights (RightOf c l x # p) = rights p"

named_theorems rb_lists \<open>the entries of a tree, in order\<close>

lemma list_plug1 [simp]: "rb_list (plug1 st t) = lefts [st] @ rb_list t @ rights [st]"
  by (cases st) auto

lemma list_plug [rb_lists]: "rb_list (plug p t) = lefts p @ rb_list t @ rights p"
proof (induction p arbitrary: t)
  case (Cons st p)
  then show ?case by (cases st) (auto simp: plug_def)
qed (simp add: plug_def)

lemma list_paint [simp]: "rb_list (paint c t) = rb_list t"
  by (cases t) auto

lemma list_rotate_left [simp]: "rb_list (nat_tree_rotate_left t) = rb_list t"
  by (induction t rule: nat_tree_rotate_left.induct) auto

lemma list_rotate_right [simp]: "rb_list (nat_tree_rotate_right t) = rb_list t"
  by (induction t rule: nat_tree_rotate_right.induct) auto

lemma lefts_recolor [simp]: "lefts [recolor c st] = lefts [st]" "rights [recolor c st] = rights [st]"
  by (cases st; simp)+

lemma lefts_append: "lefts (p @ q) = lefts q @ lefts p"
  by (induction p rule: lefts.induct) auto

lemma rights_append: "rights (p @ q) = rights p @ rights q"
  by (induction p rule: rights.induct) auto

lemma lefts_Cons: "lefts (st # p) = lefts p @ lefts [st]"
  by (cases st) auto

lemma rights_Cons: "rights (st # p) = rights [st] @ rights p"
  by (cases st) auto

lemma list_insert_color [rb_lists]:
  "rb_list (nat_tree_insert_color n path) = lefts path @ rb_list n @ rights path"
proof (induction n path rule: nat_tree_insert_color.induct)
  case (3 n p g path)
  show ?case
  proof (cases "step_color p = RB_BLACK")
    case False
    show ?thesis
    proof (cases g)
      case (LeftOf gc gx tmp)
      then show ?thesis using 3 False
        by (cases p) (auto simp: Let_def list_plug)
    next
      case (RightOf gc tmp gx)
      then show ?thesis using 3 False
        by (cases p) (auto simp: Let_def list_plug)
    qed
  qed (simp add: list_plug)
qed (simp_all add: list_plug)

lemma list_remove_color_left [simp]:
  "rb_list (remove_color_left pc n px tmp) = rb_list n @ px # rb_list tmp"
proof (cases tmp)
  case (RbNode c l x r)
  have "rb_list (nat_tree_rotate_right (RbNode RB_RED (paint RB_BLACK l) x r)) = rb_list l @ x # rb_list r"
    by simp
  then show ?thesis using RbNode
    by (cases "nat_tree_rotate_right (RbNode RB_RED (paint RB_BLACK l) x r)")
      (auto simp: remove_color_left_def Let_def)
qed (simp add: remove_color_left_def)

lemma list_remove_color_right [simp]:
  "rb_list (remove_color_right pc tmp px n) = rb_list tmp @ px # rb_list n"
proof (cases tmp)
  case (RbNode c l x r)
  have "rb_list (nat_tree_rotate_left (RbNode RB_RED l x (paint RB_BLACK r))) = rb_list l @ x # rb_list r"
    by simp
  then show ?thesis using RbNode
    by (cases "nat_tree_rotate_left (RbNode RB_RED l x (paint RB_BLACK r))")
      (auto simp: remove_color_right_def Let_def)
qed (simp add: remove_color_right_def)

lemma list_remove_color [rb_lists]:
  "rb_list (nat_tree_remove_color n path) = lefts path @ rb_list n @ rights path"
proof (induction n path rule: nat_tree_remove_color.induct)
  case (2 n pc px tmp path)
  then show ?case by (auto simp: list_plug split: rbt.split color.split)
next
  case (3 n pc tmp px path)
  then show ?case by (auto simp: list_plug split: rbt.split color.split)
qed simp

section \<open>Removal takes out one entry\<close>

lemma rb_locate_found:
  "rb_locate n t p = Some (u, q) \<Longrightarrow>
     (\<exists>c l r. u = RbNode c l n r) \<and> plug q u = plug p t \<and> lefts q @ rb_list u @ rights q = lefts p @ rb_list t @ rights p"
proof (induction n t p arbitrary: u q rule: rb_locate.induct)
  case (2 n c l x r path)
  then show ?case by (auto simp: plug_def split: if_splits option.splits)
qed simp

lemma rb_locate_None: "rb_locate n t p = None \<longleftrightarrow> n \<notin> set (rb_list t)"
  by (induction n t p rule: rb_locate.induct) (auto split: option.splits)

lemma rb_leftmost_found:
  "rb_leftmost t p = Some (c, x, r, q) \<Longrightarrow>
     plug q (RbNode c RbNil x r) = plug p t \<and> lefts q = lefts p \<and> x # rb_list r @ rights q = rb_list t @ rights p"
proof (induction t p arbitrary: c x r q rule: rb_leftmost.induct)
  case (2 c' l x' r' path)
  show ?case
  proof (cases "rb_leftmost l (LeftOf c' x' r' # path)")
    case None
    then have "l = RbNil" by (cases l) (auto split: option.splits)
    then show ?thesis using 2 None by auto
  next
    case (Some res)
    then show ?thesis using 2 by (auto simp: plug_def)
  qed
qed simp

lemma rb_leftmost_None: "rb_leftmost t p = None \<longleftrightarrow> t = RbNil"
  by (cases t) (auto split: option.splits)

lemma list_unlink [rb_lists]: "rb_list (rb_unlink c t p) = lefts p @ rb_list t @ rights p"
  by (simp add: rb_unlink_def rb_lists)

lemma nat_tree_remove_list:
  assumes "distinct (rb_list t)"
  shows "rb_list (nat_tree_remove n t) = remove1 n (rb_list t)"
proof (cases "rb_locate n t []")
  case None
  then have "n \<notin> set (rb_list t)" by (simp add: rb_locate_None)
  then show ?thesis using None by (simp add: nat_tree_remove_def remove1_idem)
next
  case (Some res)
  then obtain c l r q where loc: "rb_locate n t [] = Some (RbNode c l n r, q)"
    and eq: "rb_list t = lefts q @ rb_list l @ n # rb_list r @ rights q"
    using rb_locate_found [of n t "[]"] by (cases res) fastforce
  have rem: "remove1 n (rb_list t) = lefts q @ rb_list l @ rb_list r @ rights q"
    using assms by (simp add: eq remove1_append)
  show ?thesis
  proof (cases "l = RbNil \<or> r = RbNil")
    case True
    then show ?thesis using loc rem by (auto simp: nat_tree_remove_def rb_lists)
  next
    case False
    then obtain mc mx mr mp where lm: "rb_leftmost r [] = Some (mc, mx, mr, mp)"
      using rb_leftmost_None [of r "[]"] by fastforce
    from rb_leftmost_found [OF this] have "lefts mp = []" "mx # rb_list mr @ rights mp = rb_list r"
      by auto
    then show ?thesis
      using loc rem lm False by (auto simp: nat_tree_remove_def rb_lists lefts_append rights_append)
  qed
qed

section \<open>Insertion keeps the order\<close>

definition ordered_by :: "('e \<Rightarrow> bool) \<Rightarrow> ('e \<Rightarrow> 'e \<Rightarrow> int) \<Rightarrow> 'e list \<Rightarrow> bool" where
  "ordered_by ok cmp xs \<longleftrightarrow> (\<forall>x \<in> set xs. ok x) \<and> sorted_wrt (\<lambda>a b. cmp a b < 0) xs"

lemma sorted_wrt_del1: "sorted_wrt P xs \<Longrightarrow> sorted_wrt P (remove1 n xs)"
  by (induction xs) (auto dest: notin_set_remove1)

context comparator
begin

lemma descend_place:
  assumes "ordered_by ok cmp (lefts p @ rb_list t @ rights p)" "ok n"
    and "\<forall>x \<in> set (lefts p). cmp x n < 0" "\<forall>x \<in> set (rights p). cmp n x < 0"
  shows "case nat_tree_descend (cmp n) t p of
      Inl x \<Rightarrow> x \<in> set (rb_list t) \<and> cmp n x = 0
    | Inr q \<Rightarrow> lefts q @ rights q = lefts p @ rb_list t @ rights p \<and>
        (\<forall>x \<in> set (lefts q). cmp x n < 0) \<and> (\<forall>x \<in> set (rights q). cmp n x < 0)"
  using assms
proof (induction t arbitrary: p)
  case (RbNode c l x r)
  have okx: "ok x" "\<forall>y \<in> set (rb_list l). ok y \<and> cmp y x < 0" "\<forall>y \<in> set (rb_list r). ok y \<and> cmp x y < 0"
    using RbNode.prems(1) by (auto simp: ordered_by_def sorted_wrt_append)
  consider "cmp n x < 0" | "cmp n x > 0" | "cmp n x = 0" by linarith
  then show ?case
  proof cases
    case 1
    then have "\<forall>y \<in> set (rb_list r). cmp n y < 0" using okx cmp_trans RbNode.prems(2) by blast
    then have rt: "\<forall>y \<in> set (rights (LeftOf c x r # p)). cmp n y < 0" using 1 RbNode.prems(4) by auto
    from RbNode.IH(1) [OF _ RbNode.prems(2) _ rt] RbNode.prems(1,3) 1
    show ?thesis by (auto split: sum.splits)
  next
    case 2
    then have "cmp x n < 0" using cmp_swap okx RbNode.prems(2) by blast
    moreover from this have "\<forall>y \<in> set (rb_list l). cmp y n < 0" using okx cmp_trans RbNode.prems(2) by blast
    ultimately have lf: "\<forall>y \<in> set (lefts (RightOf c l x # p)). cmp y n < 0" using RbNode.prems(3) by auto
    from RbNode.IH(2) [OF _ RbNode.prems(2) lf] RbNode.prems(1,4) 2
    show ?thesis by (auto split: sum.splits)
  qed simp
qed simp

lemma insert_ordered:
  assumes "ordered_by ok cmp (rb_list t)" "ok n" "nat_tree_insert (cmp n) n t = (res, t')"
  shows "case res of
      Some x \<Rightarrow> x \<in> set (rb_list t) \<and> cmp n x = 0 \<and> t' = t
    | None \<Rightarrow> ordered_by ok cmp (rb_list t') \<and> set (rb_list t') = insert n (set (rb_list t)) \<and>
        (\<forall>x \<in> set (rb_list t). cmp n x \<noteq> 0)"
proof (cases "nat_tree_descend (cmp n) t []")
  case (Inl x)
  then show ?thesis using assms descend_place [of "[]" t n] by (auto simp: nat_tree_insert_def)
next
  case (Inr q)
  then have q: "lefts q @ rights q = rb_list t" "\<forall>x \<in> set (lefts q). cmp x n < 0" "\<forall>x \<in> set (rights q). cmp n x < 0"
    using assms descend_place [of "[]" t n] by auto
  have t': "res = None" "rb_list t' = lefts q @ n # rights q"
    using assms(3) Inr by (auto simp: nat_tree_insert_def rb_lists)
  have "ordered_by ok cmp (rb_list t')"
    using assms(1,2) q unfolding t' ordered_by_def q(1) [symmetric] by (auto simp: sorted_wrt_append)
  moreover have "set (rb_list t') = insert n (set (rb_list t))" unfolding t' q(1) [symmetric] by auto
  moreover have "cmp n x \<noteq> 0" if "x \<in> set (rb_list t)" for x
  proof -
    have "x \<in> set (lefts q) \<or> x \<in> set (rights q)" "ok x"
      using that assms(1) unfolding q(1) [symmetric] ordered_by_def by auto
    then show ?thesis using q(2,3) cmp_zero assms(2) cmp_swap by (metis less_irrefl)
  qed
  ultimately show ?thesis using t'(1) by simp
qed

lemma ordered_distinct: "ordered_by ok cmp xs \<Longrightarrow> distinct xs"
proof (induction xs)
  case (Cons a xs)
  then have "cmp a a = 0" "\<forall>x \<in> set xs. cmp a x < 0" "ordered_by ok cmp xs"
    by (simp_all add: ordered_by_def cmp_refl)
  then show ?case using Cons.IH by force
qed simp

lemma ordered_remove1: "ordered_by ok cmp xs \<Longrightarrow> ordered_by ok cmp (remove1 n xs)"
  unfolding ordered_by_def by (meson notin_set_remove1 sorted_wrt_del1)

end

section \<open>The colours\<close>

fun bheight :: "'a rbt \<Rightarrow> nat" where
  "bheight RbNil = 0"
| "bheight (RbNode c l x r) = (if c = RB_BLACK then bheight l + 1 else bheight l)"

fun rb_height_ok :: "'a rbt \<Rightarrow> bool" where
  "rb_height_ok RbNil = True"
| "rb_height_ok (RbNode c l x r) = (rb_height_ok l \<and> rb_height_ok r \<and> bheight l = bheight r)"

fun rb_color_ok :: "'a rbt \<Rightarrow> bool" where
  "rb_color_ok RbNil = True"
| "rb_color_ok (RbNode c l x r) =
     (rb_color_ok l \<and> rb_color_ok r \<and> (c = RB_RED \<longrightarrow> \<not> is_red l \<and> \<not> is_red r))"

definition rb_ok :: "'a rbt \<Rightarrow> bool" where
  "rb_ok t \<longleftrightarrow> rb_height_ok t \<and> rb_color_ok t \<and> \<not> is_red t"

text \<open>What the path around a subtree of black height \<open>h\<close> has to satisfy.\<close>

fun path_height_ok :: "nat \<Rightarrow> 'a path \<Rightarrow> bool" where
  "path_height_ok h [] = True"
| "path_height_ok h (LeftOf c x r # p) =
     (rb_height_ok r \<and> bheight r = h \<and> path_height_ok (if c = RB_BLACK then h + 1 else h) p)"
| "path_height_ok h (RightOf c l x # p) =
     (rb_height_ok l \<and> bheight l = h \<and> path_height_ok (if c = RB_BLACK then h + 1 else h) p)"

fun path_black :: "'a path \<Rightarrow> bool" where
  "path_black [] = True"
| "path_black (st # p) = (step_color st = RB_BLACK)"

fun path_color_ok :: "'a path \<Rightarrow> bool" where
  "path_color_ok [] = True"
| "path_color_ok (LeftOf c x r # p) =
     (rb_color_ok r \<and> path_color_ok p \<and> (c = RB_RED \<longrightarrow> \<not> is_red r \<and> p \<noteq> [] \<and> path_black p))"
| "path_color_ok (RightOf c l x # p) =
     (rb_color_ok l \<and> path_color_ok p \<and> (c = RB_RED \<longrightarrow> \<not> is_red l \<and> p \<noteq> [] \<and> path_black p))"

lemma plug_height: "rb_height_ok t \<Longrightarrow> path_height_ok (bheight t) p \<Longrightarrow> rb_height_ok (plug p t)"
proof (induction p arbitrary: t)
  case (Cons st p)
  then show ?case by (cases st) (auto simp: plug_def split: if_splits)
qed (simp add: plug_def)

lemma plug_color:
  "rb_color_ok t \<Longrightarrow> path_color_ok p \<Longrightarrow> (is_red t \<Longrightarrow> path_black p \<and> p \<noteq> []) \<Longrightarrow>
     rb_color_ok (plug p t) \<and> \<not> is_red (plug p t)"
proof (induction p arbitrary: t)
  case (Cons st p)
  show ?case
  proof (cases st)
    case (LeftOf c x r)
    have "rb_color_ok (plug1 st t)" using Cons.prems LeftOf by auto
    moreover have "is_red (plug1 st t) \<Longrightarrow> path_black p \<and> p \<noteq> []" using Cons.prems(2) LeftOf by auto
    ultimately show ?thesis using Cons.IH [of "plug1 st t"] Cons.prems(2) LeftOf by (simp add: plug_def)
  next
    case (RightOf c l x)
    have "rb_color_ok (plug1 st t)" using Cons.prems RightOf by auto
    moreover have "is_red (plug1 st t) \<Longrightarrow> path_black p \<and> p \<noteq> []" using Cons.prems(2) RightOf by auto
    ultimately show ?thesis using Cons.IH [of "plug1 st t"] Cons.prems(2) RightOf by (simp add: plug_def)
  qed
qed (auto simp: plug_def)

lemma plug_ok:
  "rb_height_ok t \<Longrightarrow> path_height_ok (bheight t) p \<Longrightarrow> rb_color_ok t \<Longrightarrow> path_color_ok p \<Longrightarrow>
     (is_red t \<Longrightarrow> path_black p \<and> p \<noteq> []) \<Longrightarrow> rb_ok (plug p t)"
  by (simp add: rb_ok_def plug_height plug_color)

lemma paint_black [simp]: "\<not> is_red (paint RB_BLACK t)" "rb_height_ok (paint c t) = rb_height_ok t"
  by (cases t; simp)+

lemma paint_black_color: "rb_color_ok t \<Longrightarrow> rb_color_ok (paint RB_BLACK t)"
  by (cases t) auto

lemma color_not [simp]: "c \<noteq> RB_RED \<longleftrightarrow> c = RB_BLACK" "c \<noteq> RB_BLACK \<longleftrightarrow> c = RB_RED"
  by (cases c; simp)+

lemma paint_black_id: "\<not> is_red t \<Longrightarrow> paint RB_BLACK t = t"
  by (cases t) auto

lemma paint_ok: "rb_height_ok t \<Longrightarrow> rb_color_ok t \<Longrightarrow> rb_ok (paint RB_BLACK t)"
  by (simp add: rb_ok_def paint_black_color)

lemma paint_rb_ok: "rb_ok t \<Longrightarrow> rb_ok (paint RB_BLACK t)"
  by (simp add: rb_ok_def paint_black_color)

lemma bheight_paint_black: "bheight (paint RB_BLACK t) = (if is_red t then bheight t + 1 else bheight t)"
  by (cases t) (auto intro: color.exhaust)

lemma color_cases: "c = RB_BLACK \<or> c = RB_RED"
  by (cases c) auto

lemma insert_color_ok:
  "rb_height_ok (RbNode RB_RED a x b) \<Longrightarrow> rb_color_ok (RbNode RB_RED a x b) \<Longrightarrow>
   path_height_ok (bheight a) p \<Longrightarrow> path_color_ok p \<Longrightarrow>
   rb_ok (nat_tree_insert_color (RbNode RB_RED a x b) p)"
proof (induction "RbNode RB_RED a x b" p arbitrary: a x b rule: nat_tree_insert_color.induct)
  case 1
  then show ?case by (simp add: rb_ok_def)
next
  case (2 p)
  have "step_color p = RB_BLACK" using 2(4) by (cases p) auto
  then have "rb_ok (plug [p] (RbNode RB_RED a x b))" using 2 by (intro plug_ok) auto
  then show ?case by (simp add: paint_rb_ok)
next
  case (3 p g path)
  show ?case
  proof (cases "step_color p = RB_BLACK")
    case True
    have "rb_ok (plug (p # g # path) (RbNode RB_RED a x b))" using 3(3-6) True by (intro plug_ok) auto
    then show ?thesis using True by (simp add: paint_rb_ok)
  next
    case red: False
    then have gb: "step_color g = RB_BLACK" using 3(6) by (cases p) auto
    show ?thesis
    proof (cases g)
      case (LeftOf gc gx tmp)
      then show ?thesis
        using 3 red gb by (cases p; cases "is_red tmp")
          (auto simp: Let_def bheight_paint_black paint_black_color intro!: paint_rb_ok plug_ok)
    next
      case (RightOf gc tmp gx)
      then show ?thesis
        using 3 red gb by (cases p; cases "is_red tmp")
          (auto simp: Let_def bheight_paint_black paint_black_color intro!: paint_rb_ok plug_ok)
    qed
  qed
qed

lemma remove_color_left_ok:
  assumes "rb_height_ok n" "rb_height_ok tmp" "bheight tmp = bheight n + 1" "rb_color_ok n" "rb_color_ok tmp"
    "\<not> is_red tmp" "\<not> rb_kids_black tmp" "\<not> is_red n"
  shows "rb_height_ok (remove_color_left pc n px tmp) \<and> rb_color_ok (remove_color_left pc n px tmp) \<and>
    bheight (remove_color_left pc n px tmp) = (if pc = RB_BLACK then bheight n + 2 else bheight n + 1) \<and>
    is_red (remove_color_left pc n px tmp) = (pc = RB_RED)"
proof -
  obtain sl sx sr where tmp: "tmp = RbNode RB_BLACK sl sx sr" using assms(6,7) by (cases tmp) auto
  show ?thesis
  proof (cases "is_red sr")
    case True
    then obtain a y b where "sr = RbNode RB_RED a y b" by (cases sr) auto
    then show ?thesis using assms tmp by (simp add: remove_color_left_def Let_def)
  next
    case False
    then obtain a y b where "sl = RbNode RB_RED a y b" using assms(7) tmp by (cases sl) auto
    then show ?thesis using assms tmp False
      by (simp add: remove_color_left_def Let_def)
  qed
qed

lemma remove_color_right_ok:
  assumes "rb_height_ok n" "rb_height_ok tmp" "bheight tmp = bheight n + 1" "rb_color_ok n" "rb_color_ok tmp"
    "\<not> is_red tmp" "\<not> rb_kids_black tmp" "\<not> is_red n"
  shows "rb_height_ok (remove_color_right pc tmp px n) \<and> rb_color_ok (remove_color_right pc tmp px n) \<and>
    bheight (remove_color_right pc tmp px n) = (if pc = RB_BLACK then bheight n + 2 else bheight n + 1) \<and>
    is_red (remove_color_right pc tmp px n) = (pc = RB_RED)"
proof -
  obtain sl sx sr where tmp: "tmp = RbNode RB_BLACK sl sx sr" using assms(6,7) by (cases tmp) auto
  show ?thesis
  proof (cases "is_red sl")
    case True
    then obtain a y b where "sl = RbNode RB_RED a y b" by (cases sl) auto
    then show ?thesis using assms tmp by (simp add: remove_color_right_def Let_def)
  next
    case False
    then obtain a y b where "sr = RbNode RB_RED a y b" using assms(7) tmp by (cases sr) auto
    then show ?thesis using assms tmp False
      by (simp add: remove_color_right_def Let_def)
  qed
qed

lemma remove_color_ok:
  "rb_height_ok n \<Longrightarrow> rb_color_ok (paint RB_BLACK n) \<Longrightarrow> path_height_ok (bheight n + 1) p \<Longrightarrow>
   path_color_ok p \<Longrightarrow> rb_ok (nat_tree_remove_color n p)"
proof (induction n p rule: nat_tree_remove_color.induct)
  case (1 n)
  then show ?case by (simp add: rb_ok_def)
next
  case (2 n pc px tmp path)
  show ?case
  proof (cases "is_red n")
    case True
    have "rb_ok (plug (LeftOf pc px tmp # path) (paint RB_BLACK n))"
      using 2(3-6) True by (intro plug_ok) (auto simp: bheight_paint_black)
    then show ?thesis using True by simp
  next
    case nb: False
    then have cn: "rb_color_ok n" using 2(4) by (simp add: paint_black_id)
    obtain tc sl sx sr where tmp: "tmp = RbNode tc sl sx sr" using 2(5) by (cases tmp) auto
    show ?thesis
    proof (cases "tc = RB_RED")
      case red: True
      show ?thesis
      proof (cases "rb_kids_black sl")
        case True
        have "rb_ok (plug (LeftOf RB_BLACK sx sr # path) (RbNode RB_BLACK n px (paint RB_RED sl)))"
          using 2(3,5,6) cn tmp red True nb by (intro plug_ok; cases sl) auto
        then show ?thesis using nb tmp red True by simp
      next
        case False
        have "rb_ok (plug (LeftOf RB_BLACK sx sr # path) (remove_color_left RB_RED n px sl))"
          using 2(3,5,6) cn tmp red nb remove_color_left_ok [of n sl RB_RED px] False
          by (intro plug_ok) auto
        then show ?thesis using nb tmp red False by (simp add: paint_rb_ok)
      qed
    next
      case black: False
      show ?thesis
      proof (cases "rb_kids_black tmp")
        case True
        have "rb_ok (nat_tree_remove_color (RbNode pc n px (paint RB_RED tmp)) path)"
          using 2(2) [OF nb] 2(3,5,6) cn nb tmp black True by (cases pc) auto
        then show ?thesis using nb tmp black True by simp
      next
        case False
        have "rb_ok (plug path (remove_color_left pc n px tmp))"
          using 2(3,5,6) cn nb tmp black remove_color_left_ok [of n tmp pc px] False by (intro plug_ok) auto
        then show ?thesis using nb tmp black False by (auto simp: paint_rb_ok)
      qed
    qed
  qed
next
  case (3 n pc tmp px path)
  show ?case
  proof (cases "is_red n")
    case True
    have "rb_ok (plug (RightOf pc tmp px # path) (paint RB_BLACK n))"
      using 3(3-6) True by (intro plug_ok) (auto simp: bheight_paint_black)
    then show ?thesis using True by simp
  next
    case nb: False
    then have cn: "rb_color_ok n" using 3(4) by (simp add: paint_black_id)
    obtain tc sl sx sr where tmp: "tmp = RbNode tc sl sx sr" using 3(5) by (cases tmp) auto
    show ?thesis
    proof (cases "tc = RB_RED")
      case red: True
      show ?thesis
      proof (cases "rb_kids_black sr")
        case True
        have "rb_ok (plug (RightOf RB_BLACK sl sx # path) (RbNode RB_BLACK (paint RB_RED sr) px n))"
          using 3(3,5,6) cn tmp red True nb by (intro plug_ok; cases sr) auto
        then show ?thesis using nb tmp red True by simp
      next
        case False
        have "rb_ok (plug (RightOf RB_BLACK sl sx # path) (remove_color_right RB_RED sr px n))"
          using 3(3,5,6) cn tmp red nb remove_color_right_ok [of n sr RB_RED px] False
          by (intro plug_ok) auto
        then show ?thesis using nb tmp red False by (simp add: paint_rb_ok)
      qed
    next
      case black: False
      show ?thesis
      proof (cases "rb_kids_black tmp")
        case True
        have "rb_ok (nat_tree_remove_color (RbNode pc (paint RB_RED tmp) px n) path)"
          using 3(2) [OF nb] 3(3,5,6) cn nb tmp black True by (cases pc) auto
        then show ?thesis using nb tmp black True by simp
      next
        case False
        have "rb_ok (plug path (remove_color_right pc tmp px n))"
          using 3(3,5,6) cn nb tmp black remove_color_right_ok [of n tmp pc px] False by (intro plug_ok) auto
        then show ?thesis using nb tmp black False by (auto simp: paint_rb_ok)
      qed
    qed
  qed
qed

lemma unplug_height:
  "rb_height_ok (plug p t) \<Longrightarrow> rb_height_ok t \<and> path_height_ok (bheight t) p"
proof (induction p arbitrary: t)
  case (Cons st p)
  then show ?case by (cases st) (fastforce simp: plug_def split: if_splits)+
qed (simp add: plug_def)

lemma unplug_color:
  "rb_color_ok (plug p t) \<Longrightarrow> \<not> is_red (plug p t) \<Longrightarrow>
     rb_color_ok t \<and> path_color_ok p \<and> (is_red t \<longrightarrow> p \<noteq> [] \<and> path_black p)"
proof (induction p arbitrary: t)
  case (Cons st p)
  have "plug (st # p) t = plug p (plug1 st t)" by (simp add: plug_def)
  then have "rb_color_ok (plug1 st t)" "path_color_ok p" "is_red (plug1 st t) \<longrightarrow> p \<noteq> [] \<and> path_black p"
    using Cons.IH [of "plug1 st t"] Cons.prems by simp_all
  then show ?case by (cases st) auto
qed (simp add: plug_def)

lemma unlink_ok:
  assumes "rb_ok (plug p (RbNode c l x r))" "l = RbNil \<and> t = r \<or> r = RbNil \<and> t = l"
  shows "rb_ok (rb_unlink c t p)"
proof -
  have h: "rb_height_ok (RbNode c l x r)" "path_height_ok (bheight (RbNode c l x r)) p"
    using assms(1) unplug_height [of p "RbNode c l x r"] by (auto simp: rb_ok_def)
  have k: "rb_color_ok (RbNode c l x r)" "path_color_ok p" "is_red (RbNode c l x r) \<longrightarrow> p \<noteq> [] \<and> path_black p"
    using assms(1) unplug_color [of p "RbNode c l x r"] by (auto simp: rb_ok_def)
  show ?thesis
  proof (cases "c = RB_BLACK")
    case True
    then show ?thesis using h k assms(2) by (auto simp: rb_unlink_def intro!: remove_color_ok paint_black_color)
  next
    case False
    then show ?thesis using h k assms(2) by (auto simp: rb_unlink_def intro!: plug_ok)
  qed
qed

lemma nat_tree_remove_ok:
  assumes "rb_ok t"
  shows "rb_ok (nat_tree_remove n t)"
proof (cases "rb_locate n t []")
  case None
  then show ?thesis using assms by (simp add: nat_tree_remove_def)
next
  case (Some res)
  then obtain c l r q where loc: "rb_locate n t [] = Some (RbNode c l n r, q)"
    and eq: "plug q (RbNode c l n r) = t"
    using rb_locate_found [of n t "[]"] by (cases res) (fastforce simp: plug_def)
  show ?thesis
  proof (cases "l = RbNil \<or> r = RbNil")
    case True
    then show ?thesis using loc assms eq unlink_ok [of q c l n r] by (auto simp: nat_tree_remove_def)
  next
    case False
    then obtain mc mx mr mp where lm: "rb_leftmost r [] = Some (mc, mx, mr, mp)"
      using rb_leftmost_None [of r "[]"] by fastforce
    have r: "plug mp (RbNode mc RbNil mx mr) = r"
      using rb_leftmost_found [OF lm] by (simp add: plug_def)
    have "plug (mp @ RightOf c l mx # q) (RbNode mc RbNil mx mr) = plug q (RbNode c l mx r)"
      using r by (simp add: plug_def)
    moreover have "rb_ok (plug q (RbNode c l mx r))"
    proof -
      have h: "rb_height_ok (RbNode c l n r)" "path_height_ok (bheight (RbNode c l n r)) q"
        using assms unplug_height [of q "RbNode c l n r"] eq by (auto simp: rb_ok_def)
      have k: "rb_color_ok (RbNode c l n r)" "path_color_ok q" "is_red (RbNode c l n r) \<longrightarrow> q \<noteq> [] \<and> path_black q"
        using assms unplug_color [of q "RbNode c l n r"] eq by (auto simp: rb_ok_def)
      then show ?thesis using h by (intro plug_ok) auto
    qed
    ultimately have "rb_ok (rb_unlink mc mr (mp @ RightOf c l mx # q))"
      using unlink_ok [of "mp @ RightOf c l mx # q" mc RbNil mx mr mr] by simp
    then show ?thesis using loc lm False by (simp add: nat_tree_remove_def)
  qed
qed

lemma descend_path:
  "nat_tree_descend cm t p = Inr q \<Longrightarrow> plug q RbNil = plug p t"
  by (induction cm t p rule: nat_tree_descend.induct) (auto simp: plug_def split: if_splits)

lemma nat_tree_insert_ok:
  assumes "rb_ok t" "nat_tree_insert cm n t = (res, t')"
  shows "rb_ok t'"
proof (cases "nat_tree_descend cm t []")
  case (Inr q)
  then have "plug q RbNil = t" using descend_path [OF Inr] by (simp add: plug_def)
  then have "path_height_ok 0 q" "path_color_ok q"
    using assms(1) unplug_height [of q RbNil] unplug_color [of q RbNil] by (auto simp: rb_ok_def)
  then show ?thesis using assms(2) Inr insert_color_ok [of RbNil n RbNil q] by (auto simp: nat_tree_insert_def)
qed (use assms in \<open>auto simp: nat_tree_insert_def\<close>)

text \<open>The height bound the colours give.\<close>

fun rb_height :: "'a rbt \<Rightarrow> nat" where
  "rb_height RbNil = 0"
| "rb_height (RbNode c l x r) = max (rb_height l) (rb_height r) + 1"

lemma rb_height_bheight:
  "rb_height_ok t \<Longrightarrow> rb_color_ok t \<Longrightarrow> rb_height t \<le> 2 * bheight t + (if is_red t then 1 else 0)"
  by (induction t) (auto split: if_splits)

lemma rb_size_bheight: "rb_height_ok t \<Longrightarrow> 2 ^ bheight t \<le> length (rb_list t) + 1"
proof (induction t)
  case (RbNode c l x r)
  then have "2 ^ bheight l \<le> length (rb_list l) + 1" "2 ^ bheight l \<le> length (rb_list r) + 1" by auto
  then show ?case by (cases c) auto
qed simp

section \<open>The tree of NAT entries\<close>

text \<open>
  Claim C25: on well-formed keys nat_tree_insert keeps the red-black tree a search tree with
  the red-black balance; it either adds exactly the new entry, or finds an entry with the
  same key and changes nothing.
\<close>

theorem nat_tree_insert_correct:
  assumes "rb_ok t" "ordered_by key_ok nat_tree_compare_abs (rb_list t)" "key_ok n"
  shows "case nat_tree_insert (nat_tree_compare_abs n) n t of
      (Some x, t') \<Rightarrow> t' = t \<and> x \<in> set (rb_list t) \<and> tree_key x = tree_key n
    | (None, t') \<Rightarrow> rb_ok t' \<and> ordered_by key_ok nat_tree_compare_abs (rb_list t') \<and>
        set (rb_list t') = insert n (set (rb_list t)) \<and> tree_key n \<notin> tree_key ` set (rb_list t)"
proof -
  obtain res t' where r: "nat_tree_insert (nat_tree_compare_abs n) n t = (res, t')" by fastforce
  have ok: "x \<in> set (rb_list t) \<Longrightarrow> key_ok x" for x using assms(2) by (simp add: ordered_by_def)
  show ?thesis
    using tree_cmp.insert_ordered [OF assms(2,3) r] nat_tree_insert_ok [OF assms(1) r] r
      tree_cmp.cmp_zero [OF assms(3)] ok
    by (auto split: option.splits)
qed

text \<open>
  Claim C26: nat_tree_remove takes out exactly the given entry, whatever its place in the tree,
  and keeps the order and the red-black balance.
\<close>

theorem nat_tree_remove_correct:
  assumes "rb_ok t" "ordered_by key_ok nat_tree_compare_abs (rb_list t)"
  shows "rb_ok (nat_tree_remove n t) \<and> rb_list (nat_tree_remove n t) = remove1 n (rb_list t) \<and>
    ordered_by key_ok nat_tree_compare_abs (rb_list (nat_tree_remove n t))"
  using nat_tree_remove_ok [OF assms(1)] nat_tree_remove_list tree_cmp.ordered_distinct [OF assms(2)]
    tree_cmp.ordered_remove1 [OF assms(2)] by metis

text \<open>
  The concrete trees of the witnesses: a static binding and two flows of the same inner port.
\<close>

definition rb_two :: "nat_entry rbt" where
  "rb_two = RbNode RB_BLACK RbNil (flow 8) (RbNode RB_RED RbNil (flow 9) RbNil)"

lemma rb_two_ok: "rb_ok rb_two" "ordered_by key_ok nat_tree_compare_abs (rb_list rb_two)"
proof -
  show "rb_ok rb_two" by (simp add: rb_ok_def rb_two_def)
  have "nat_tree_compare_abs (flow 8) (flow 9) < 0"
    by (simp add: nat_tree_compare_abs_def cmp_byte_def cmp4_def cmp2_def cmp_dest_abs_def flow_def nat_zero_def)
  then show "ordered_by key_ok nat_tree_compare_abs (rb_list rb_two)"
    using flow_ok [of 8] flow_ok [of 9] by (simp add: ordered_by_def rb_two_def)
qed

theorem nat_tree_insert_correct_witness:
  "set (rb_list (snd (nat_tree_insert (nat_tree_compare_abs (flow 7)) (flow 7) rb_two))) = {flow 7, flow 8, flow 9}"
proof -
  have "fst (nat_tree_insert (nat_tree_compare_abs (flow 7)) (flow 7) rb_two) = None"
    by (simp add: nat_tree_insert_def rb_two_def nat_tree_compare_abs_def cmp_byte_def cmp4_def cmp2_def
        cmp_dest_abs_def flow_def nat_zero_def)
  then show ?thesis
    using nat_tree_insert_correct [OF rb_two_ok flow_ok, of 7]
    by (cases "nat_tree_insert (nat_tree_compare_abs (flow 7)) (flow 7) rb_two") (auto simp: rb_two_def)
qed

theorem nat_tree_remove_correct_witness:
  "rb_list (nat_tree_remove (flow 8) rb_two) = [flow 9]"
proof -
  have "flow 8 \<noteq> flow 9" by (simp add: flow_def nat_zero_def)
  then show ?thesis using nat_tree_remove_correct [OF rb_two_ok, of "flow 8"] by (simp add: rb_two_def)
qed

section \<open>The wildcard search\<close>

text \<open>
  The search descends by compare_wild in a tree ordered by compare_abs. It is right when the
  wildcard comparison with the search key falls along the entries of the tree.
\<close>

definition wild_falls :: "('a \<Rightarrow> int) \<Rightarrow> 'a list \<Rightarrow> bool" where
  "wild_falls cm xs \<longleftrightarrow> sorted_wrt (\<lambda>a b. (cm a < 0 \<longrightarrow> cm b < 0) \<and> (cm b > 0 \<longrightarrow> cm a > 0)) xs"

lemma find_wild_sound:
  "nat_tree_find_wild cm t = Some x \<Longrightarrow> x \<in> set (rb_list t) \<and> cm x = 0"
  by (induction t) (auto split: if_splits)

lemma find_wild_complete:
  "wild_falls cm (rb_list t) \<Longrightarrow> nat_tree_find_wild cm t = None \<Longrightarrow> x \<in> set (rb_list t) \<Longrightarrow> cm x \<noteq> 0"
proof (induction t)
  case (RbNode c l y r)
  have s: "wild_falls cm (rb_list l)" "wild_falls cm (rb_list r)"
    "\<forall>a \<in> set (rb_list l). cm y > 0 \<longrightarrow> cm a > 0" "\<forall>b \<in> set (rb_list r). cm y < 0 \<longrightarrow> cm b < 0"
    using RbNode.prems(1) by (auto simp: wild_falls_def sorted_wrt_append)
  consider "cm y < 0" | "cm y > 0" using RbNode.prems(2) by (auto split: if_splits)
  then show ?case
    using RbNode s by cases (auto split: if_splits)
qed simp

end
