(* ===== verification/Aftr_Splay.thy ===== *)
theory Aftr_Splay
  imports Aftr_RBTree
begin

text \<open>
  The per tunnel splay tree of NAT entries (nat_splay_rotate_right, nat_splay_rotate_left,
  nat_splay_link_left, nat_splay_link_right, nat_splay_assemble, nat_splay_splay,
  nat_splay_splay_wild, nat_splay_insert, nat_splay_remove, nat_splay_find,
  nat_splay_ro_find). The tree is the value behind tnat_root; the two side trees the code
  grows inside a header node are lists of the pieces cut off, the last one linked first.
\<close>

section \<open>Operations\<close>

text \<open>
  The splay loop. \<open>ls\<close> are the (left child, node) pairs linked on the left so far, \<open>rs\<close> the
  (node, right child) pairs linked on the right.
\<close>

fun nat_splay_assemble_left :: "('a tree \<times> 'a) list \<Rightarrow> 'a tree \<Rightarrow> 'a tree" where
  "nat_splay_assemble_left [] t = t"
| "nat_splay_assemble_left ((l, x) # ls) t = nat_splay_assemble_left ls (Node l x t)"

fun nat_splay_assemble_right :: "'a tree \<Rightarrow> ('a \<times> 'a tree) list \<Rightarrow> 'a tree" where
  "nat_splay_assemble_right t [] = t"
| "nat_splay_assemble_right t ((x, r) # rs) = nat_splay_assemble_right (Node t x r) rs"

definition nat_splay_assemble ::
  "('a tree \<times> 'a) list \<Rightarrow> 'a tree \<Rightarrow> ('a \<times> 'a tree) list \<Rightarrow> 'a tree" where
  "nat_splay_assemble ls t rs =
     (case t of Leaf \<Rightarrow> Leaf
      | Node l x r \<Rightarrow> Node (nat_splay_assemble_left ls l) x (nat_splay_assemble_right r rs))"

text \<open>
  \<open>cmp\<close> compares the searched entry with an entry of the tree. A left child that is still
  greater is first rotated up (nat_splay_rotate_right at the root); then the root and its
  right part are linked on the right and the search goes on in the left part, unless there is
  none. The other side is the mirror image.
\<close>

fun nat_splay_loop ::
  "('a \<Rightarrow> int) \<Rightarrow> 'a tree \<Rightarrow> ('a tree \<times> 'a) list \<Rightarrow> ('a \<times> 'a tree) list \<Rightarrow> 'a tree" where
  "nat_splay_loop cmp Leaf ls rs = nat_splay_assemble ls Leaf rs"
| "nat_splay_loop cmp (Node l x r) ls rs =
     (if cmp x < 0 then
        case l of
          Leaf \<Rightarrow> nat_splay_assemble ls (Node l x r) rs
        | Node ll y lr \<Rightarrow>
            if cmp y < 0
            then if ll = Leaf then nat_splay_assemble ls (Node ll y (Node lr x r)) rs
                 else nat_splay_loop cmp ll ls ((y, Node lr x r) # rs)
            else nat_splay_loop cmp l ls ((x, r) # rs)
      else if cmp x > 0 then
        case r of
          Leaf \<Rightarrow> nat_splay_assemble ls (Node l x r) rs
        | Node rl y rr \<Rightarrow>
            if cmp y > 0
            then if rr = Leaf then nat_splay_assemble ls (Node (Node l x rl) y rr) rs
                 else nat_splay_loop cmp rr ((Node l x rl, y) # ls) rs
            else nat_splay_loop cmp r ((l, x) # ls) rs
      else nat_splay_assemble ls (Node l x r) rs)"

text \<open>nat_splay_splay and nat_splay_splay_wild differ in the routine they compare with.\<close>

definition nat_splay_splay :: "('a \<Rightarrow> int) \<Rightarrow> 'a tree \<Rightarrow> 'a tree" where
  "nat_splay_splay cm t = nat_splay_loop cm t [] []"

definition nat_splay_insert :: "('a \<Rightarrow> int) \<Rightarrow> 'a \<Rightarrow> 'a tree \<Rightarrow> 'a option \<times> 'a tree" where
  "nat_splay_insert cm n t =
     (case nat_splay_splay cm t of
        Leaf \<Rightarrow> (None, Node Leaf n Leaf)
      | Node l x r \<Rightarrow>
          if cm x < 0 then (None, Node l n (Node Leaf x r))
          else if cm x > 0 then (None, Node (Node l x Leaf) n r)
          else (Some x, Node l x r))"

definition nat_splay_remove :: "('a \<Rightarrow> int) \<Rightarrow> 'a \<Rightarrow> 'a tree \<Rightarrow> 'a option \<times> 'a tree" where
  "nat_splay_remove cm n t =
     (case nat_splay_splay cm t of
        Leaf \<Rightarrow> (None, Leaf)
      | Node l x r \<Rightarrow>
          if cm x = 0
          then if l = Leaf then (Some n, r)
               else (case nat_splay_splay cm l of
                       Leaf \<Rightarrow> (Some n, r)
                     | Node l' x' r' \<Rightarrow> (Some n, Node l' x' r))
          else (None, Node l x r))"

text \<open>The search nat_splay_find starts with: the entry found and the splayed tree.\<close>

definition nat_splay_find_root :: "('a \<Rightarrow> int) \<Rightarrow> 'a tree \<Rightarrow> 'a option \<times> 'a tree" where
  "nat_splay_find_root cm t =
     (case nat_splay_splay cm t of
        Leaf \<Rightarrow> (None, Leaf)
      | Node l x r \<Rightarrow> (if cm x = 0 then Some x else None, Node l x r))"

text \<open>
  nat_splay_find. The generation it tests is that of its argument n, the search key, and not
  that of the entry it found.
\<close>

definition nat_splay_find ::
  "u32 \<Rightarrow> ('a \<Rightarrow> int) \<Rightarrow> u32 \<Rightarrow> bool \<Rightarrow> 'a tree \<Rightarrow> 'a option \<times> 'a tree" where
  "nat_splay_find lastg cm ngen stale t =
     (case nat_splay_find_root cm t of
        (None, t') \<Rightarrow> (None, t')
      | (Some x, t') \<Rightarrow>
          if \<not> stale \<and> ngen \<ge> FIRSTGEN \<and> ngen < lastg then (None, t') else (Some x, t'))"

fun nat_splay_ro_find :: "('a \<Rightarrow> int) \<Rightarrow> 'a tree \<Rightarrow> 'a option" where
  "nat_splay_ro_find cm Leaf = None"
| "nat_splay_ro_find cm (Node l x r) =
     (if cm x < 0 then nat_splay_ro_find cm l
      else if cm x > 0 then nat_splay_ro_find cm r
      else Some x)"

section \<open>Splaying keeps the entries in order\<close>

fun ls_list :: "('a tree \<times> 'a) list \<Rightarrow> 'a list" where
  "ls_list [] = []"
| "ls_list ((l, x) # ls) = ls_list ls @ inorder l @ [x]"

fun rs_list :: "('a \<times> 'a tree) list \<Rightarrow> 'a list" where
  "rs_list [] = []"
| "rs_list ((x, r) # rs) = x # inorder r @ rs_list rs"

lemma inorder_assemble_left: "inorder (nat_splay_assemble_left ls t) = ls_list ls @ inorder t"
  by (induction ls t rule: nat_splay_assemble_left.induct) auto

lemma inorder_assemble_right: "inorder (nat_splay_assemble_right t rs) = inorder t @ rs_list rs"
  by (induction t rs rule: nat_splay_assemble_right.induct) auto

lemma set_assemble_left [simp]: "set_tree (nat_splay_assemble_left ls t) = set (ls_list ls) \<union> set_tree t"
  by (simp flip: set_inorder add: inorder_assemble_left)

lemma set_assemble_right [simp]: "set_tree (nat_splay_assemble_right t rs) = set_tree t \<union> set (rs_list rs)"
  by (simp flip: set_inorder add: inorder_assemble_right)

lemma inorder_assemble:
  "t \<noteq> Leaf \<Longrightarrow> inorder (nat_splay_assemble ls t rs) = ls_list ls @ inorder t @ rs_list rs"
  by (cases t) (auto simp: nat_splay_assemble_def inorder_assemble_left inorder_assemble_right)

lemma inorder_loop:
  "t \<noteq> Leaf \<Longrightarrow> inorder (nat_splay_loop cmp t ls rs) = ls_list ls @ inorder t @ rs_list rs"
proof (induction cmp t ls rs rule: nat_splay_loop.induct)
  case (2 cmp l x r ls rs)
  consider "cmp x < 0" | "cmp x > 0" | "cmp x = 0" by linarith
  then show ?case
  proof cases
    case 1
    then show ?thesis using 2(1,2) by (cases l) (auto simp: inorder_assemble)
  next
    case gt: 2
    then show ?thesis using 2(3,4) by (cases r) (auto simp: inorder_assemble)
  qed (simp add: inorder_assemble)
qed simp

lemma inorder_splay [simp]: "inorder (nat_splay_splay cm t) = inorder t"
proof (cases "t = Leaf")
  case False
  then show ?thesis by (simp add: nat_splay_splay_def inorder_loop)
qed (simp add: nat_splay_splay_def nat_splay_assemble_def)

lemma splay_Leaf [simp]: "nat_splay_splay cm (t :: 'a tree) = Leaf \<longleftrightarrow> t = Leaf"
proof -
  have "inorder u = [] \<longleftrightarrow> u = Leaf" for u :: "'a tree" by (cases u) auto
  from this [of t] this [of "nat_splay_splay cm t"] show ?thesis by simp
qed

lemma splay_Leaf' [simp]: "nat_splay_splay cm Leaf = Leaf"
  by simp

text \<open>
  After splaying, the root separates: everything before it is smaller than the searched
  entry, everything after it greater (or it is the entry itself).
\<close>

definition falls :: "('a \<Rightarrow> int) \<Rightarrow> 'a list \<Rightarrow> bool" where
  "falls c xs \<longleftrightarrow> sorted_wrt (\<lambda>a b. (c a \<le> 0 \<longrightarrow> c b < 0) \<and> (c b \<ge> 0 \<longrightarrow> c a > 0)) xs"

lemma falls_append: "falls c (xs @ x # ys) \<longleftrightarrow> falls c xs \<and> falls c ys \<and>
    (\<forall>a \<in> set xs. \<forall>b \<in> set ys. (c a \<le> 0 \<longrightarrow> c b < 0) \<and> (c b \<ge> 0 \<longrightarrow> c a > 0)) \<and>
    (\<forall>a \<in> set xs. (c a \<le> 0 \<longrightarrow> c x < 0) \<and> (c x \<ge> 0 \<longrightarrow> c a > 0)) \<and>
    (\<forall>b \<in> set ys. (c x \<le> 0 \<longrightarrow> c b < 0) \<and> (c b \<ge> 0 \<longrightarrow> c x > 0))"
  by (auto simp: falls_def sorted_wrt_append)

definition root_splits :: "('a \<Rightarrow> int) \<Rightarrow> 'a tree \<Rightarrow> bool" where
  "root_splits c t \<longleftrightarrow> (\<exists>l x r. t = Node l x r \<and> (\<forall>a \<in> set (inorder l). c a > 0) \<and> (\<forall>b \<in> set (inorder r). c b < 0))"

lemma assemble_splits:
  "(\<forall>a \<in> set (ls_list ls) \<union> set (inorder l). c a > 0) \<Longrightarrow> (\<forall>b \<in> set (inorder r) \<union> set (rs_list rs). c b < 0) \<Longrightarrow>
     root_splits c (nat_splay_assemble ls (Node l x r) rs)"
  by (auto simp: root_splits_def nat_splay_assemble_def inorder_assemble_left inorder_assemble_right)

lemma loop_splits:
  "t \<noteq> Leaf \<Longrightarrow> falls c (inorder t) \<Longrightarrow> (\<forall>a \<in> set (ls_list ls). c a > 0) \<Longrightarrow> (\<forall>b \<in> set (rs_list rs). c b < 0) \<Longrightarrow>
     root_splits c (nat_splay_loop c t ls rs)"
proof (induction c t ls rs rule: nat_splay_loop.induct)
  case (2 c l x r ls rs)
  have f: "falls c (inorder l)" "falls c (inorder r)"
    "c x \<le> 0 \<Longrightarrow> \<forall>b \<in> set (inorder r). c b < 0" "c x \<ge> 0 \<Longrightarrow> \<forall>a \<in> set (inorder l). c a > 0"
    using 2(6) by (auto simp: falls_append)
  consider "c x < 0" | "c x > 0" | "c x = 0" by linarith
  then show ?case
  proof cases
    case 1
    show ?thesis
    proof (cases l)
      case Leaf
      then show ?thesis using 1 2(7,8) f by (auto intro!: assemble_splits)
    next
      case (Node ll y lr)
      have g: "falls c (inorder ll)" "c y < 0 \<Longrightarrow> \<forall>b \<in> set (inorder lr). c b < 0"
        using f(1) Node by (auto simp: falls_append)
      show ?thesis
      proof (cases "c y < 0")
        case True
        show ?thesis
        proof (cases "ll = Leaf")
          case lleaf: True
          then show ?thesis using True Node 1 2(7,8) f g by (auto intro!: assemble_splits)
        next
          case False
          then have "root_splits c (nat_splay_loop c ll ls ((y, Node lr x r) # rs))"
            by (rule 2(1) [OF 1 Node True False]) (use True 1 2(7,8) f g in auto)
          then show ?thesis using True Node 1 False by simp
        qed
      next
        case False
        have "root_splits c (nat_splay_loop c l ls ((x, r) # rs))"
          by (rule 2(2) [OF 1 Node False]) (use 1 2(7,8) f Node in auto)
        then show ?thesis using False Node 1 by simp
      qed
    qed
  next
    case gt: 2
    then have nl: "\<not> c x < 0" by simp
    show ?thesis
    proof (cases r)
      case Leaf
      then show ?thesis using gt 2(7,8) f by (auto intro!: assemble_splits)
    next
      case (Node rl y rr)
      have g: "falls c (inorder rr)" "c y > 0 \<Longrightarrow> \<forall>b \<in> set (inorder rl). c b > 0"
        using f(2) Node by (auto simp: falls_append)
      show ?thesis
      proof (cases "c y > 0")
        case True
        show ?thesis
        proof (cases "rr = Leaf")
          case rleaf: True
          then show ?thesis using True Node gt 2(7,8) f g by (auto intro!: assemble_splits)
        next
          case False
          then have "root_splits c (nat_splay_loop c rr ((Node l x rl, y) # ls) rs)"
            by (rule 2(3) [OF nl gt Node True False]) (use True gt 2(7,8) f g in auto)
          then show ?thesis using True Node gt False by simp
        qed
      next
        case False
        have "root_splits c (nat_splay_loop c r ((l, x) # ls) rs)"
          by (rule 2(4) [OF nl gt Node False]) (use gt 2(7,8) f Node in auto)
        then show ?thesis using False Node gt by simp
      qed
    qed
  next
    case 3
    then show ?thesis using 2(7,8) f by (auto intro!: assemble_splits)
  qed
qed simp

lemma splay_splits:
  assumes "falls cm (inorder t)" "t \<noteq> Leaf"
  shows "root_splits cm (nat_splay_splay cm t)"
  using loop_splits [OF assms(2,1), of "[]" "[]"] by (simp add: nat_splay_splay_def)

context comparator
begin

lemma ordered_falls: "ordered_by ok cmp xs \<Longrightarrow> ok n \<Longrightarrow> falls (cmp n) xs"
proof (induction xs)
  case (Cons a xs)
  have o: "ok a" "\<forall>b \<in> set xs. ok b \<and> cmp a b < 0" using Cons.prems by (auto simp: ordered_by_def)
  have "(cmp n a \<le> 0 \<longrightarrow> cmp n b < 0) \<and> (cmp n b \<ge> 0 \<longrightarrow> cmp n a > 0)" if b: "b \<in> set xs" for b
  proof -
    have ab: "ok b" "cmp a b < 0" using o b by auto
    have 1: "cmp n b < 0" if "cmp n a \<le> 0"
      using that cmp_trans [OF Cons.prems(2) o(1) ab(1) _ ab(2)] cmp_eq_trans [OF Cons.prems(2) o(1) ab(1) _ ab(2)]
      by (cases "cmp n a = 0") auto
    then show ?thesis by linarith
  qed
  then show ?case using Cons by (auto simp: falls_def ordered_by_def)
qed (simp add: falls_def)

lemma splay_insert_ordered:
  assumes "ordered_by ok cmp (inorder t)" "ok n"
  shows "case nat_splay_insert (cmp n) n t of
      (Some x, t') \<Rightarrow> inorder t' = inorder t \<and> x \<in> set_tree t \<and> cmp n x = 0
    | (None, t') \<Rightarrow> ordered_by ok cmp (inorder t') \<and> set_tree t' = insert n (set_tree t)
        \<and> (\<forall>x \<in> set_tree t. cmp n x \<noteq> 0)"
proof (cases "t = Leaf")
  case False
  obtain l x r where s: "nat_splay_splay (cmp n) t = Node l x r"
    and l: "\<forall>a \<in> set (inorder l). cmp n a > 0" and r: "\<forall>b \<in> set (inorder r). cmp n b < 0"
    using splay_splits [of "cmp n" t, OF ordered_falls [OF assms] False] by (auto simp: root_splits_def)
  have i: "inorder t = inorder l @ x # inorder r" using inorder_splay [of "cmp n" t] s by simp
  have st: "set_tree t = set (inorder l) \<union> {x} \<union> set (inorder r)"
    using i by (metis Un_insert_right list.set(2) set_append set_inorder sup_bot.right_neutral Un_insert_left)
  have oks: "\<forall>a \<in> set (inorder l @ x # inorder r). ok a" using assms(1) i by (simp add: ordered_by_def)
  have l': "\<forall>a \<in> set (inorder l). cmp a n < 0" using l oks cmp_swap assms(2) by auto
  consider "cmp n x < 0" | "cmp n x > 0" | "cmp n x = 0" by linarith
  then show ?thesis
  proof cases
    case 1
    then show ?thesis using assms l l' r s st i
      by (auto simp: nat_splay_insert_def ordered_by_def sorted_wrt_append)
  next
    case 2
    then have "cmp x n < 0" using cmp_swap oks assms(2) by auto
    then show ?thesis using 2 assms l l' r s st i
      by (auto simp: nat_splay_insert_def ordered_by_def sorted_wrt_append)
  next
    case 3
    then show ?thesis using s st i by (auto simp: nat_splay_insert_def)
  qed
qed (use assms in \<open>auto simp: nat_splay_insert_def ordered_by_def\<close>)

lemma splay_remove_list:
  assumes "ordered_by ok cmp (inorder t)" "ok n" "n \<in> set_tree t"
  shows "nat_splay_remove (cmp n) n t = (Some n, snd (nat_splay_remove (cmp n) n t)) \<and>
    inorder (snd (nat_splay_remove (cmp n) n t)) = remove1 n (inorder t)"
proof -
  have ne: "t \<noteq> Leaf" using assms(3) by auto
  obtain l x r where s: "nat_splay_splay (cmp n) t = Node l x r"
    and l: "\<forall>a \<in> set (inorder l). cmp n a > 0" and r: "\<forall>b \<in> set (inorder r). cmp n b < 0"
    using splay_splits [of "cmp n" t, OF ordered_falls [OF assms(1,2)] ne] by (auto simp: root_splits_def)
  have i: "inorder t = inorder l @ x # inorder r" using inorder_splay [of "cmp n" t] s by simp
  have "n \<in> set (inorder l @ x # inorder r)" using assms(3) i by (metis set_inorder)
  then have x: "x = n" using l r cmp_refl [OF assms(2)] by auto
  then have nl: "n \<notin> set (inorder l)" using l cmp_refl [OF assms(2)] by auto
  have rem: "remove1 n (inorder t) = inorder l @ inorder r" using i x nl by (simp add: remove1_append)
  show ?thesis
  proof (cases "l = Leaf")
    case True
    then show ?thesis using s x rem cmp_refl [OF assms(2)] by (simp add: nat_splay_remove_def)
  next
    case False
    have ol: "ordered_by ok cmp (inorder l)"
      using assms(1) unfolding i by (auto simp: ordered_by_def sorted_wrt_append)
    obtain l' x' r' where s': "nat_splay_splay (cmp n) l = Node l' x' r'"
      and r': "\<forall>b \<in> set (inorder r'). cmp n b < 0"
      using splay_splits [of "cmp n" l, OF ordered_falls [OF ol assms(2)] False] by (auto simp: root_splits_def)
    have il: "inorder l = inorder l' @ x' # inorder r'" using inorder_splay [of "cmp n" l] s' by simp
    have sub: "set (inorder r') \<subseteq> set (inorder l)" unfolding il by auto
    have "inorder r' = []"
    proof (cases "inorder r'")
      case (Cons b bs)
      then have "b \<in> set (inorder r')" by (simp del: set_inorder)
      then have "cmp n b < 0" "cmp n b > 0" using r' l subsetD [OF sub] by blast+
      then show ?thesis by simp
    qed
    then show ?thesis using s s' x rem il cmp_refl [OF assms(2)] False by (simp add: nat_splay_remove_def)
  qed
qed

lemma splay_find_spec:
  assumes "ordered_by ok cmp (inorder t)" "ok n"
  shows "inorder (snd (nat_splay_find_root (cmp n) t)) = inorder t \<and>
    (case fst (nat_splay_find_root (cmp n) t) of
       Some x \<Rightarrow> x \<in> set_tree t \<and> cmp n x = 0
     | None \<Rightarrow> \<forall>x \<in> set_tree t. cmp n x \<noteq> 0)"
proof (cases "t = Leaf")
  case False
  obtain l x r where s: "nat_splay_splay (cmp n) t = Node l x r"
    and l: "\<forall>a \<in> set (inorder l). cmp n a > 0" and r: "\<forall>b \<in> set (inorder r). cmp n b < 0"
    using splay_splits [of "cmp n" t, OF ordered_falls [OF assms] False] by (auto simp: root_splits_def)
  have i: "inorder t = inorder l @ x # inorder r" using inorder_splay [of "cmp n" t] s by simp
  have "set_tree t = set (inorder l @ x # inorder r)" using i by (metis set_inorder)
  then show ?thesis using s l r i by (auto simp: nat_splay_find_root_def)
qed (simp add: nat_splay_find_root_def)

end

section \<open>The tree of a tunnel\<close>

text \<open>
  Claim C27: on well-formed keys nat_splay_insert keeps the splay tree ordered and adds exactly
  the new entry, or returns an entry with the same key and keeps the contents.
\<close>

theorem nat_splay_insert_correct:
  assumes "ordered_by key_ok nat_splay_compare_abs (inorder t)" "key_ok n"
  shows "case nat_splay_insert (nat_splay_compare_abs n) n t of
      (Some x, t') \<Rightarrow> inorder t' = inorder t \<and> x \<in> set_tree t \<and> nat_splay_compare_abs n x = 0
    | (None, t') \<Rightarrow> ordered_by key_ok nat_splay_compare_abs (inorder t') \<and>
        set_tree t' = insert n (set_tree t) \<and> (\<forall>x \<in> set_tree t. nat_splay_compare_abs n x \<noteq> 0)"
  by (rule splay_cmp.splay_insert_ordered [OF assms])

text \<open>
  An exact lookup splays without changing the contents and finds an entry with the
  key exactly when there is one; nat_splay_remove takes out exactly the entry it is given.
\<close>

theorem nat_splay_find_remove_correct:
  assumes "ordered_by key_ok nat_splay_compare_abs (inorder t)" "key_ok n"
  shows "inorder (snd (nat_splay_find lastg (nat_splay_compare_abs n) ngen True t)) = inorder t \<and>
    (case fst (nat_splay_find lastg (nat_splay_compare_abs n) ngen True t) of
       Some x \<Rightarrow> x \<in> set_tree t \<and> splay_key n = splay_key x
     | None \<Rightarrow> \<forall>x \<in> set_tree t. splay_key n \<noteq> splay_key x) \<and>
    (n \<in> set_tree t \<longrightarrow>
       fst (nat_splay_remove (nat_splay_compare_abs n) n t) = Some n \<and>
       inorder (snd (nat_splay_remove (nat_splay_compare_abs n) n t)) = remove1 n (inorder t))"
proof -
  have ok: "x \<in> set_tree t \<Longrightarrow> key_ok x" for x
    using assms(1) by (simp add: ordered_by_def)
  have f: "nat_splay_find lastg (nat_splay_compare_abs n) ngen True t = nat_splay_find_root (nat_splay_compare_abs n) t"
    by (auto simp: nat_splay_find_def split: prod.splits option.splits)
  show ?thesis
    using splay_cmp.splay_find_spec [OF assms] splay_cmp.splay_remove_list [OF assms]
      splay_cmp.cmp_zero [OF assms(2)] ok unfolding f
    by (auto split: option.splits) (metis fst_conv)
qed

definition splay_two :: "nat_entry tree" where
  "splay_two = Node Leaf (flow 8) (Node Leaf (flow 9) Leaf)"

lemma splay_two_ok: "ordered_by key_ok nat_splay_compare_abs (inorder splay_two)"
proof -
  have "nat_splay_compare_abs (flow 8) (flow 9) < 0"
    by (simp add: nat_splay_compare_abs_def cmp_tunnel_def cmp_byte_def cmp4_def cmp2_def cmp_dest_abs_def
        flow_def nat_zero_def)
  then show ?thesis using flow_ok [of 8] flow_ok [of 9] by (simp add: ordered_by_def splay_two_def)
qed

theorem nat_splay_insert_correct_witness:
  "set_tree (snd (nat_splay_insert (nat_splay_compare_abs (flow 7)) (flow 7) splay_two)) = {flow 7, flow 8, flow 9}"
proof -
  have "fst (nat_splay_insert (nat_splay_compare_abs (flow 7)) (flow 7) splay_two) = None"
    by (simp add: nat_splay_insert_def nat_splay_splay_def nat_splay_assemble_def splay_two_def nat_splay_compare_abs_def
        cmp_tunnel_def cmp_byte_def cmp4_def cmp2_def cmp_dest_abs_def flow_def nat_zero_def)
  then show ?thesis
    using nat_splay_insert_correct [OF splay_two_ok flow_ok, of 7]
    by (cases "nat_splay_insert (nat_splay_compare_abs (flow 7)) (flow 7) splay_two") (auto simp: splay_two_def)
qed

theorem nat_splay_find_remove_correct_witness:
  "inorder (snd (nat_splay_remove (nat_splay_compare_abs (flow 8)) (flow 8) splay_two)) = [flow 9]"
  using nat_splay_find_remove_correct [OF splay_two_ok flow_ok, of 8] by (simp add: splay_two_def)

text \<open>
  Claim C38: a binding for all destinations can be shadowed. A static binding of an inner port
  that is added while the port has a flow comes before the flow in the order; a lookup for
  another destination that meets the flow first turns right and misses the binding, although
  the wildcard comparison says that the binding matches.
\<close>

theorem wild_lookup_misses_binding:
  "let t = Node (Node Leaf binding Leaf) (flow 8) Leaf
   in ordered_by key_ok nat_splay_compare_abs (inorder t) \<and>
      nat_splay_compare_wild (flow 9) binding = 0 \<and>
      fst (nat_splay_find FIRSTGEN (nat_splay_compare_wild (flow 9)) 0 False t) = None"
proof -
  let ?t = "Node (Node Leaf binding Leaf) (flow 8) Leaf"
  have "nat_splay_compare_abs binding (flow 8) < 0"
    by (simp add: nat_splay_compare_abs_def cmp_tunnel_def cmp_byte_def cmp4_def cmp2_def cmp_dest_abs_def
        binding_def flow_def nat_zero_def)
  then have "ordered_by key_ok nat_splay_compare_abs (inorder ?t)"
    using flow_ok [of 8] binding_ok by (simp add: ordered_by_def)
  moreover have "nat_splay_compare_wild (flow 9) binding = 0" "nat_splay_compare_wild (flow 9) (flow 8) = 1"
    by (simp_all add: nat_splay_compare_wild_def cmp_tunnel_def cmp_byte_def cmp4_def cmp2_def cmp_dest_wild_def
        binding_def flow_def nat_zero_def)
  moreover from this have "fst (nat_splay_find FIRSTGEN (nat_splay_compare_wild (flow 9)) 0 False ?t) = None"
    by (simp add: nat_splay_find_def nat_splay_find_root_def nat_splay_splay_def nat_splay_assemble_def)
  ultimately show ?thesis by (simp add: Let_def)
qed

section \<open>Trees of pointers\<close>

text \<open>The comparator of the entries behind pointers.\<close>

context comparator
begin

lemma pointer_comparator:
  "comparator (\<lambda>p. ok (f p)) (\<lambda>p q. cmp (f p) (f q)) (\<lambda>p. key (f p))"
  by unfold_locales (rule sign)

end

end
