(* ===== verification/Aftr_Heap.thy ===== *)
theory Aftr_Heap
  imports Aftr_Types
begin

text \<open>
  The expiry heap of NAT entries (nat_heap_resize, nat_heap_float_up, nat_heap_sink_down,
  nat_heap_insert, nat_heap_delete, nat_heap_increased, nat_heap_decreased, nat_heap_element):
  an array from index 1 on, ordered by the timeout of the entries, with a back pointer
  heap_index in every entry. The length of \<open>nat_heap\<close> is the code's nat_heap_size.
\<close>

section \<open>Operations\<close>

definition tmo :: "aftr \<Rightarrow> nid \<Rightarrow> int" where
  "tmo s n = n_timeout (natof s n)"

definition hidx :: "aftr \<Rightarrow> nid \<Rightarrow> nat" where
  "hidx s n = n_heap_index (natof s n)"

text \<open>\<open>nat_heap[i] = n; nat_heap[i]->heap_index = i;\<close>\<close>

definition heap_put :: "nat \<Rightarrow> nid \<Rightarrow> aftr \<Rightarrow> aftr" where
  "heap_put i n s =
     upd_nat n (\<lambda>e. e\<lparr>n_heap_index := i\<rparr>) (s\<lparr>nat_heap := (nat_heap s)[i := n]\<rparr>)"

definition nat_heap_resize :: "bool \<Rightarrow> aftr \<Rightarrow> bool \<times> aftr" where
  "nat_heap_resize malloc_ok s =
     (if \<not> malloc_ok then (False, s)
      else (True, s\<lparr>nat_heap := nat_heap s @ replicate 1024 0\<rparr>))"

function nat_heap_float_up :: "nat \<Rightarrow> nid \<Rightarrow> aftr \<Rightarrow> aftr" where
  "nat_heap_float_up i n s =
     (let p = i div 2
      in if i > 1 \<and> tmo s n < tmo s (nat_heap s ! p)
         then nat_heap_float_up p n (heap_put i (nat_heap s ! p) s)
         else heap_put i n s)"
  by auto
termination by (relation "measure (\<lambda>(i, n, s). i)") auto

lemma nat_heap_last_put [simp]: "nat_heap_last (heap_put i n s) = nat_heap_last s"
  by (simp add: heap_put_def upd_nat_def)

text \<open>The index of the smallest of the at most two children of \<open>i\<close>.\<close>

definition small_child :: "nat \<Rightarrow> aftr \<Rightarrow> nat" where
  "small_child i s =
     (let j = 2 * i
      in if j < nat_heap_last s \<and> tmo s (nat_heap s ! (j + 1)) < tmo s (nat_heap s ! j)
         then j + 1 else j)"

text \<open>
  The loop runs while \<open>i \<le> half\<close>; every caller has checked \<open>1 \<le> i\<close>, which is what makes
  the index grow, and the guard repeats it.
\<close>

function nat_heap_sink_down :: "nat \<Rightarrow> nid \<Rightarrow> aftr \<Rightarrow> aftr" where
  "nat_heap_sink_down i n s =
     (if 1 \<le> i \<and> i \<le> nat_heap_last s div 2
      then let j = small_child i s
           in if tmo s n < tmo s (nat_heap s ! j) then heap_put i n s
              else nat_heap_sink_down j n (heap_put i (nat_heap s ! j) s)
      else heap_put i n s)"
  by auto
termination
  by (relation "measure (\<lambda>(i, n, s). nat_heap_last s + 1 - i)")
    (auto simp: small_child_def Let_def)

definition nat_heap_insert :: "bool \<Rightarrow> nid \<Rightarrow> aftr \<Rightarrow> bool \<times> aftr" where
  "nat_heap_insert malloc_ok n s =
     (let new_last = nat_heap_last s + 1;
          (ok, s) = (if new_last \<ge> length (nat_heap s) then nat_heap_resize malloc_ok s
                     else (True, s))
      in if \<not> ok then (False, s)
         else (True, nat_heap_float_up new_last n (s\<lparr>nat_heap_last := new_last\<rparr>)))"

definition nat_heap_delete :: "nat \<Rightarrow> aftr \<Rightarrow> aftr" where
  "nat_heap_delete i s =
     (if i < 1 \<or> i > nat_heap_last s then s
      else let n = nat_heap s ! nat_heap_last s;
               l = nat_heap_last s;
               s1 = s\<lparr>nat_heap := (nat_heap s)[l := 0], nat_heap_last := isc_decr l\<rparr>
           in if i = l then s1
              else let less = tmo s1 n < tmo s1 (nat_heap s1 ! i);
                       s2 = s1\<lparr>nat_heap := (nat_heap s1)[i := n]\<rparr>
                   in if less then nat_heap_float_up i n s2 else nat_heap_sink_down i n s2)"

definition nat_heap_increased :: "nat \<Rightarrow> aftr \<Rightarrow> aftr" where
  "nat_heap_increased i s =
     (if i < 1 \<or> i > nat_heap_last s then s else nat_heap_float_up i (nat_heap s ! i) s)"

definition nat_heap_decreased :: "nat \<Rightarrow> aftr \<Rightarrow> aftr" where
  "nat_heap_decreased i s =
     (if i < 1 \<or> i > nat_heap_last s then s else nat_heap_sink_down i (nat_heap s ! i) s)"

text \<open>The result 0 is the code's NULL.\<close>

definition nat_heap_element :: "nat \<Rightarrow> aftr \<Rightarrow> nid" where
  "nat_heap_element i s =
     (if i < 1 then 0 else if i \<le> nat_heap_last s then nat_heap s ! i else 0)"

declare nat_heap_float_up.simps [simp del] nat_heap_sink_down.simps [simp del]

named_theorems only_heap_intros \<open>the heap operations keep everything but the heap\<close>

section \<open>What the operations leave alone\<close>

text \<open>
  The heap operations write the array, its last index and the back pointers, nothing else.
\<close>

definition only_heap :: "aftr \<Rightarrow> aftr \<Rightarrow> bool" where
  "only_heap s s' \<longleftrightarrow> (\<exists>h l f. s' = s\<lparr>nat_heap := h, nat_heap_last := l,
      nats := \<lambda>m. map_option (\<lambda>e. e\<lparr>n_heap_index := f m\<rparr>) (nats s m)\<rparr>)"

lemma nat_entry_same_index: "e\<lparr>n_heap_index := n_heap_index e\<rparr> = (e :: nat_entry)"
  by (cases e) simp

lemma only_heap_refl [simp]: "only_heap s s"
proof -
  have "nats s = (\<lambda>m. map_option (\<lambda>e. e\<lparr>n_heap_index := hidx s m\<rparr>) (nats s m))"
  proof
    fix m show "nats s m = map_option (\<lambda>e. e\<lparr>n_heap_index := hidx s m\<rparr>) (nats s m)"
      by (cases "nats s m") (auto simp: hidx_def natof_def nat_entry_same_index)
  qed
  then show ?thesis unfolding only_heap_def
    by (intro exI [of _ "nat_heap s"] exI [of _ "nat_heap_last s"] exI [of _ "hidx s"]) simp
qed

lemma only_heap_trans: "only_heap s s' \<Longrightarrow> only_heap s' s'' \<Longrightarrow> only_heap s s''"
  unfolding only_heap_def
proof (elim exE)
  fix h l f h' l' f'
  assume 1: "s' = s\<lparr>nat_heap := h, nat_heap_last := l,
      nats := \<lambda>m. map_option (\<lambda>e. e\<lparr>n_heap_index := f m\<rparr>) (nats s m)\<rparr>"
    and 2: "s'' = s'\<lparr>nat_heap := h', nat_heap_last := l',
      nats := \<lambda>m. map_option (\<lambda>e. e\<lparr>n_heap_index := f' m\<rparr>) (nats s' m)\<rparr>"
  show "\<exists>h l f. s'' = s\<lparr>nat_heap := h, nat_heap_last := l,
      nats := \<lambda>m. map_option (\<lambda>e. e\<lparr>n_heap_index := f m\<rparr>) (nats s m)\<rparr>"
    by (intro exI [of _ h'] exI [of _ l'] exI [of _ f'])
      (simp add: 1 2 option.map_comp o_def)
qed

lemma only_heap_array: "only_heap s (s\<lparr>nat_heap := h, nat_heap_last := l\<rparr>)"
proof -
  obtain h0 l0 f where s: "s = s\<lparr>nat_heap := h0, nat_heap_last := l0,
      nats := \<lambda>m. map_option (\<lambda>e. e\<lparr>n_heap_index := f m\<rparr>) (nats s m)\<rparr>"
    using only_heap_refl [of s] unfolding only_heap_def by blast
  show ?thesis unfolding only_heap_def
    by (intro exI [of _ h] exI [of _ l] exI [of _ f]) (subst s, simp add: option.map_comp o_def)
qed

lemma only_heap_upd_index:
  "only_heap s (upd_nat n (\<lambda>e. e\<lparr>n_heap_index := i\<rparr>) s)"
proof -
  let ?g = "\<lambda>m. if m = n then i else hidx s m"
  have eq: "(nats s)(n := map_option (\<lambda>e. e\<lparr>n_heap_index := i\<rparr>) (nats s n))
      = (\<lambda>m. map_option (\<lambda>e. e\<lparr>n_heap_index := ?g m\<rparr>) (nats s m))"
  proof
    fix m show "((nats s)(n := map_option (\<lambda>e. e\<lparr>n_heap_index := i\<rparr>) (nats s n))) m
      = map_option (\<lambda>e. e\<lparr>n_heap_index := ?g m\<rparr>) (nats s m)"
      by (cases "nats s m") (auto simp: hidx_def natof_def nat_entry_same_index)
  qed
  show ?thesis unfolding only_heap_def
    by (intro exI [of _ "nat_heap s"] exI [of _ "nat_heap_last s"] exI [of _ ?g])
      (simp add: upd_nat_def eq)
qed

lemma oh_arr [only_heap_intros]: "only_heap s t \<Longrightarrow> only_heap s (t\<lparr>nat_heap := h\<rparr>)"
  using only_heap_trans [OF _ only_heap_array [of t "nat_heap_last t" h]] by simp

lemma oh_last [only_heap_intros]: "only_heap s t \<Longrightarrow> only_heap s (t\<lparr>nat_heap_last := l\<rparr>)"
  using only_heap_trans [OF _ only_heap_array [of t l "nat_heap t"]] by simp

lemma oh_put [only_heap_intros]: "only_heap s t \<Longrightarrow> only_heap s (heap_put i n t)"
  unfolding heap_put_def by (rule only_heap_trans [OF _ only_heap_upd_index]) (rule oh_arr)

lemma oh_up [only_heap_intros]: "only_heap s t \<Longrightarrow> only_heap s (nat_heap_float_up i n t)"
proof (induction i n t rule: nat_heap_float_up.induct)
  case (1 i n t)
  show ?case
    by (subst nat_heap_float_up.simps) (use 1 in \<open>auto simp: Let_def intro: only_heap_intros\<close>)
qed

lemma oh_down [only_heap_intros]: "only_heap s t \<Longrightarrow> only_heap s (nat_heap_sink_down i n t)"
proof (induction i n t rule: nat_heap_sink_down.induct)
  case (1 i n t)
  show ?case
    by (subst nat_heap_sink_down.simps) (use 1 in \<open>auto simp: Let_def intro: only_heap_intros\<close>)
qed

lemma only_heap_insert: "only_heap s (snd (nat_heap_insert ok n s))"
  by (auto simp: nat_heap_insert_def nat_heap_resize_def Let_def intro!: only_heap_intros)

lemma only_heap_delete: "only_heap s (nat_heap_delete i s)"
  by (auto simp: nat_heap_delete_def Let_def intro!: only_heap_intros)

lemma only_heap_tmo: "only_heap s s' \<Longrightarrow> nats s n \<noteq> None \<Longrightarrow> tmo s' n = tmo s n"
  by (auto simp: only_heap_def tmo_def natof_def)

lemma only_heap_live: "only_heap s s' \<Longrightarrow> (nats s' n = None) = (nats s n = None)"
  by (auto simp: only_heap_def)

section \<open>The heap invariant\<close>

text \<open>The entries at the indices in use.\<close>

definition heap_set :: "aftr \<Rightarrow> nid set" where
  "heap_set s = {nat_heap s ! j | j. 1 \<le> j \<and> j \<le> nat_heap_last s}"

text \<open>
  Every parent expires no later than its children, every entry is live and knows its index,
  and the last index lies inside the array.
\<close>

definition heap_inv :: "aftr \<Rightarrow> bool" where
  "heap_inv s \<longleftrightarrow> (nat_heap_last s = 0 \<or> nat_heap_last s < length (nat_heap s)) \<and>
     (\<forall>j. 1 \<le> j \<longrightarrow> j \<le> nat_heap_last s \<longrightarrow>
        nats s (nat_heap s ! j) \<noteq> None \<and> hidx s (nat_heap s ! j) = j) \<and>
     (\<forall>j. 2 \<le> j \<longrightarrow> j \<le> nat_heap_last s \<longrightarrow>
        tmo s (nat_heap s ! (j div 2)) \<le> tmo s (nat_heap s ! j))"

text \<open>
  The state of the two loops: index \<open>i\<close> is a hole that is to take the entry \<open>n\<close>, every
  other index is in order.
\<close>

definition heap_hole :: "nat \<Rightarrow> nid \<Rightarrow> aftr \<Rightarrow> bool" where
  "heap_hole i n s \<longleftrightarrow> 1 \<le> i \<and> i \<le> nat_heap_last s \<and> nat_heap_last s < length (nat_heap s) \<and>
     nats s n \<noteq> None \<and>
     (\<forall>j. 1 \<le> j \<longrightarrow> j \<le> nat_heap_last s \<longrightarrow> j \<noteq> i \<longrightarrow>
        nat_heap s ! j \<noteq> n \<and> nats s (nat_heap s ! j) \<noteq> None \<and> hidx s (nat_heap s ! j) = j) \<and>
     (\<forall>j. 2 \<le> j \<longrightarrow> j \<le> nat_heap_last s \<longrightarrow> j \<noteq> i \<longrightarrow> j div 2 \<noteq> i \<longrightarrow>
        tmo s (nat_heap s ! (j div 2)) \<le> tmo s (nat_heap s ! j)) \<and>
     (\<forall>j. 2 \<le> j \<longrightarrow> j \<le> nat_heap_last s \<longrightarrow> j div 2 = i \<longrightarrow> 1 < i \<longrightarrow>
        tmo s (nat_heap s ! (i div 2)) \<le> tmo s (nat_heap s ! j))"

definition below_ok :: "nat \<Rightarrow> nid \<Rightarrow> aftr \<Rightarrow> bool" where
  "below_ok i n s \<longleftrightarrow> (\<forall>j. 2 \<le> j \<longrightarrow> j \<le> nat_heap_last s \<longrightarrow> j div 2 = i \<longrightarrow>
     tmo s n \<le> tmo s (nat_heap s ! j))"

definition above_ok :: "nat \<Rightarrow> nid \<Rightarrow> aftr \<Rightarrow> bool" where
  "above_ok i n s \<longleftrightarrow> (1 < i \<longrightarrow> tmo s (nat_heap s ! (i div 2)) \<le> tmo s n)"

definition hole_set :: "nat \<Rightarrow> aftr \<Rightarrow> nid set" where
  "hole_set i s = {nat_heap s ! j | j. 1 \<le> j \<and> j \<le> nat_heap_last s \<and> j \<noteq> i}"

lemma tmo_put [simp]: "tmo (heap_put i n s) m = tmo s m" if "nats s m \<noteq> None"
  using that by (auto simp: tmo_def natof_def heap_put_def upd_nat_def)

lemma nats_put [simp]: "(nats (heap_put i n s) m = None) = (nats s m = None)"
  by (auto simp: heap_put_def upd_nat_def)

lemma nats_put_Some [simp]: "(\<exists>y. nats (heap_put i n s) m = Some y) = (\<exists>y. nats s m = Some y)"
  by (auto simp: heap_put_def upd_nat_def)

lemma hidx_put: "nats s m \<noteq> None \<Longrightarrow> hidx (heap_put i n s) m = (if m = n then i else hidx s m)"
  by (auto simp: hidx_def natof_def heap_put_def upd_nat_def)

lemma nat_heap_put [simp]: "nat_heap (heap_put i n s) = (nat_heap s)[i := n]"
  by (simp add: heap_put_def upd_nat_def)

text \<open>Filling the hole when both neighbourhoods agree.\<close>

lemma heap_fill:
  assumes "heap_hole i n s" "below_ok i n s" "above_ok i n s"
  shows "heap_inv (heap_put i n s)" "heap_set (heap_put i n s) = insert n (hole_set i s)"
proof -
  note h = assms(1) [unfolded heap_hole_def]
  show "heap_inv (heap_put i n s)"
    unfolding heap_inv_def
  proof (intro conjI allI impI)
    fix j assume "2 \<le> j" "j \<le> nat_heap_last (heap_put i n s)"
    then have j: "2 \<le> j" "j \<le> nat_heap_last s" "j div 2 \<noteq> j" "1 \<le> j div 2" "j div 2 \<le> nat_heap_last s"
      by auto
    show "tmo (heap_put i n s) (nat_heap (heap_put i n s) ! (j div 2))
        \<le> tmo (heap_put i n s) (nat_heap (heap_put i n s) ! j)"
    proof (cases "j = i")
      case True
      then have "tmo s (nat_heap s ! (j div 2)) \<le> tmo s n" using assms(3) j by (auto simp: above_ok_def)
      then show ?thesis using h j True by simp
    next
      case False
      then show ?thesis using h j assms(2) by (cases "j div 2 = i") (auto simp: below_ok_def)
    qed
  qed (use h in \<open>auto simp: nth_list_update hidx_put\<close>)
  show "heap_set (heap_put i n s) = insert n (hole_set i s)"
    using h by (auto simp: heap_set_def hole_set_def nth_list_update split: if_splits)
qed

text \<open>Moving the entry of a neighbour \<open>k\<close> into the hole makes \<open>k\<close> the hole.\<close>

lemma heap_shift:
  assumes h: "heap_hole i n s" and k: "1 \<le> k" "k \<le> nat_heap_last s" "k \<noteq> i"
    and rel: "k div 2 = i \<or> i div 2 = k"
    and up: "i div 2 = k \<Longrightarrow> below_ok i (nat_heap s ! k) s"
    and dn: "k div 2 = i \<Longrightarrow> above_ok i (nat_heap s ! k) s \<and> below_ok i (nat_heap s ! k) s"
  shows "heap_hole k n (heap_put i (nat_heap s ! k) s)"
    "hole_set k (heap_put i (nat_heap s ! k) s) = hole_set i s"
proof -
  let ?h = "nat_heap s" and ?l = "nat_heap_last s"
  note h' = h [unfolded heap_hole_def]
  have live: "\<And>j. 1 \<le> j \<Longrightarrow> j \<le> ?l \<Longrightarrow> j \<noteq> i \<Longrightarrow> nats s (?h ! j) \<noteq> None"
    and bk: "\<And>j. 1 \<le> j \<Longrightarrow> j \<le> ?l \<Longrightarrow> j \<noteq> i \<Longrightarrow> hidx s (?h ! j) = j"
    and ord: "\<And>j. 2 \<le> j \<Longrightarrow> j \<le> ?l \<Longrightarrow> j \<noteq> i \<Longrightarrow> j div 2 \<noteq> i \<Longrightarrow> tmo s (?h ! (j div 2)) \<le> tmo s (?h ! j)"
    and il: "1 \<le> i" "i < length ?h" "i \<le> ?l"
    using h' by auto
  have injk: "?h ! j \<noteq> ?h ! k" if "1 \<le> j" "j \<le> ?l" "j \<noteq> i" "j \<noteq> k" for j
    using bk [of j] bk [of k] k that by metis
  have at_i: "(?h[i := ?h ! k]) ! j = (if j = i then ?h ! k else ?h ! j)" for j
    using il by (simp add: nth_list_update)
  have ord': "tmo s ((?h[i := ?h ! k]) ! (j div 2)) \<le> tmo s ((?h[i := ?h ! k]) ! j)"
    if j: "2 \<le> j" "j \<le> ?l" "j \<noteq> k" "j div 2 \<noteq> k" for j
  proof (cases "j = i")
    case True
    with rel j have "k div 2 = i" by auto
    then have "above_ok i (?h ! k) s" using dn by blast
    then show ?thesis using True j by (simp add: at_i above_ok_def)
  next
    case False
    have "below_ok i (?h ! k) s" using rel up dn by auto
    then show ?thesis using False j ord [of j] by (auto simp: at_i below_ok_def)
  qed
  have grand: "tmo s ((?h[i := ?h ! k]) ! (k div 2)) \<le> tmo s ((?h[i := ?h ! k]) ! j)"
    if j: "2 \<le> j" "j \<le> ?l" "j div 2 = k" "1 < k" for j
  proof (cases "k div 2 = i")
    case True
    then have "j \<noteq> i" using j by auto
    then show ?thesis using ord [of j] j True k by (simp add: at_i)
  next
    case False
    then have i: "i div 2 = k" using rel by auto
    have "tmo s (?h ! (k div 2)) \<le> tmo s (?h ! k)" using ord [of k] False j(4) k by simp
    moreover have "j \<noteq> i \<Longrightarrow> tmo s (?h ! k) \<le> tmo s (?h ! j)" using ord [of j] j k(3) by simp
    ultimately show ?thesis using False j by (auto simp: at_i)
  qed
  have l': "\<And>j. 1 \<le> j \<Longrightarrow> j \<le> ?l \<Longrightarrow> nats s ((?h[i := ?h ! k]) ! j) \<noteq> None"
    using live k by (simp add: at_i)
  show "heap_hole k n (heap_put i (?h ! k) s)"
    unfolding heap_hole_def
  proof (intro conjI allI impI)
    fix j assume j: "1 \<le> j" "j \<le> nat_heap_last (heap_put i (?h ! k) s)" "j \<noteq> k"
    then show "nat_heap (heap_put i (?h ! k) s) ! j \<noteq> n" using h' k by (auto simp: at_i)
    show "nats (heap_put i (?h ! k) s) (nat_heap (heap_put i (?h ! k) s) ! j) \<noteq> None"
      using l' j by simp
    show "hidx (heap_put i (?h ! k) s) (nat_heap (heap_put i (?h ! k) s) ! j) = j"
      using j live bk injk k by (auto simp: at_i hidx_put)
  next
    fix j assume j: "2 \<le> j" "j \<le> nat_heap_last (heap_put i (?h ! k) s)" "j \<noteq> k" "j div 2 \<noteq> k"
    then show "tmo (heap_put i (?h ! k) s) (nat_heap (heap_put i (?h ! k) s) ! (j div 2))
        \<le> tmo (heap_put i (?h ! k) s) (nat_heap (heap_put i (?h ! k) s) ! j)"
      using ord' [of j] l' [of j] l' [of "j div 2"] by simp
  next
    fix j assume j: "2 \<le> j" "j \<le> nat_heap_last (heap_put i (?h ! k) s)" "j div 2 = k" "1 < k"
    then show "tmo (heap_put i (?h ! k) s) (nat_heap (heap_put i (?h ! k) s) ! (k div 2))
        \<le> tmo (heap_put i (?h ! k) s) (nat_heap (heap_put i (?h ! k) s) ! j)"
      using grand [of j] l' [of j] l' [of "k div 2"] k by simp
  qed (use h' k in auto)
  show "hole_set k (heap_put i (?h ! k) s) = hole_set i s"
    using k il unfolding hole_set_def by (auto simp: at_i)
qed

lemma float_up_ok:
  assumes "heap_hole i n s" "below_ok i n s"
  shows "heap_inv (nat_heap_float_up i n s) \<and>
    heap_set (nat_heap_float_up i n s) = insert n (hole_set i s)"
  using assms
proof (induction i n s rule: nat_heap_float_up.induct)
  case (1 i n s)
  note h = 1(2) [unfolded heap_hole_def]
  let ?p = "i div 2"
  show ?case
  proof (cases "i > 1 \<and> tmo s n < tmo s (nat_heap s ! ?p)")
    case True
    then have p: "1 \<le> ?p" "?p \<le> nat_heap_last s" "?p \<noteq> i" using h by auto
    have live: "nats s (nat_heap s ! ?p) \<noteq> None" using h p by simp
    have bel: "below_ok i (nat_heap s ! ?p) s"
      using h True by (auto simp: below_ok_def)
    have hole: "heap_hole ?p n (heap_put i (nat_heap s ! ?p) s)"
      and set: "hole_set ?p (heap_put i (nat_heap s ! ?p) s) = hole_set i s"
      using heap_shift [OF 1(2) p] bel True by auto
    have "below_ok ?p n (heap_put i (nat_heap s ! ?p) s)"
      unfolding below_ok_def
    proof (intro allI impI)
      fix j assume j: "2 \<le> j" "j \<le> nat_heap_last (heap_put i (nat_heap s ! ?p) s)" "j div 2 = ?p"
      have "tmo s n \<le> tmo s (nat_heap s ! j)" if "j \<noteq> i"
      proof -
        have "tmo s (nat_heap s ! ?p) \<le> tmo s (nat_heap s ! j)"
          using h that j p by (metis nat_heap_last_put)
        then show ?thesis using True by simp
      qed
      moreover have "nats s (nat_heap s ! j) \<noteq> None" if "j \<noteq> i" using h that j by simp
      ultimately show "tmo (heap_put i (nat_heap s ! ?p) s) n
          \<le> tmo (heap_put i (nat_heap s ! ?p) s) (nat_heap (heap_put i (nat_heap s ! ?p) s) ! j)"
        using h True live by (cases "j = i") auto
    qed
    with 1(1) [OF refl True hole] set True show ?thesis
      by (subst (1 2) nat_heap_float_up.simps) (simp add: Let_def)
  next
    case False
    then have "above_ok i n s" by (auto simp: above_ok_def)
    with heap_fill [OF 1(2,3)] False show ?thesis
      by (subst (1 2) nat_heap_float_up.simps) (auto simp: Let_def)
  qed
qed

lemma small_child_cases:
  "small_child i s = 2 * i \<or> small_child i s = 2 * i + 1 \<and> 2 * i < nat_heap_last s"
  by (auto simp: small_child_def Let_def)

lemma small_child_le:
  "2 \<le> j \<Longrightarrow> j \<le> nat_heap_last s \<Longrightarrow> j div 2 = i \<Longrightarrow>
     tmo s (nat_heap s ! small_child i s) \<le> tmo s (nat_heap s ! j)"
proof -
  assume "2 \<le> j" "j \<le> nat_heap_last s" "j div 2 = i"
  then have "j = 2 * i \<or> j = 2 * i + 1" by auto
  then show ?thesis using \<open>j \<le> nat_heap_last s\<close> by (auto simp: small_child_def Let_def)
qed

lemma sink_down_ok:
  assumes "heap_hole i n s" "above_ok i n s"
  shows "heap_inv (nat_heap_sink_down i n s) \<and>
    heap_set (nat_heap_sink_down i n s) = insert n (hole_set i s)"
  using assms
proof (induction i n s rule: nat_heap_sink_down.induct)
  case (1 i n s)
  note h = 1(2) [unfolded heap_hole_def]
  let ?j = "small_child i s"
  show ?case
  proof (cases "1 \<le> i \<and> i \<le> nat_heap_last s div 2 \<and> \<not> tmo s n < tmo s (nat_heap s ! ?j)")
    case True
    then have j: "1 \<le> ?j" "?j \<le> nat_heap_last s" "?j \<noteq> i" "?j div 2 = i"
      using small_child_cases [of i s] by auto
    have live: "nats s (nat_heap s ! ?j) \<noteq> None" using h j by simp
    have "below_ok i (nat_heap s ! ?j) s" using small_child_le by (auto simp: below_ok_def)
    moreover have "above_ok i (nat_heap s ! ?j) s" using h j by (auto simp: above_ok_def)
    ultimately have hole: "heap_hole ?j n (heap_put i (nat_heap s ! ?j) s)"
      and set: "hole_set ?j (heap_put i (nat_heap s ! ?j) s) = hole_set i s"
      using heap_shift [OF 1(2) j(1,2,3)] j(4) by auto
    have "above_ok ?j n (heap_put i (nat_heap s ! ?j) s)"
      using True h live j by (simp add: above_ok_def)
    with 1(1) [OF _ refl _ hole] set True show ?thesis
      by (subst (1 2) nat_heap_sink_down.simps) (simp add: Let_def)
  next
    case False
    have "below_ok i n s"
    proof (cases "i \<le> nat_heap_last s div 2")
      case True
      then have "tmo s n \<le> tmo s (nat_heap s ! ?j)" using False h by auto
      then show ?thesis using small_child_le by (fastforce simp: below_ok_def)
    qed (auto simp: below_ok_def)
    with heap_fill [OF 1(2) _ 1(3)] False show ?thesis
      by (subst (1 2) nat_heap_sink_down.simps) (auto simp: Let_def)
  qed
qed

section \<open>The operations keep the invariant\<close>

lemma heap_set_iff: "n \<in> heap_set s \<longleftrightarrow> (\<exists>j. 1 \<le> j \<and> j \<le> nat_heap_last s \<and> n = nat_heap s ! j)"
  by (auto simp: heap_set_def)

lemma heap_index_inj:
  "heap_inv s \<Longrightarrow> 1 \<le> i \<Longrightarrow> i \<le> nat_heap_last s \<Longrightarrow> 1 \<le> j \<Longrightarrow> j \<le> nat_heap_last s \<Longrightarrow>
   nat_heap s ! i = nat_heap s ! j \<Longrightarrow> i = j"
  unfolding heap_inv_def by metis

lemma tmo_array [simp]: "tmo (s\<lparr>nat_heap := h\<rparr>) = tmo s" "tmo (s\<lparr>nat_heap_last := l\<rparr>) = tmo s"
  by (auto simp: tmo_def natof_def)

lemma hidx_array [simp]: "hidx (s\<lparr>nat_heap := h\<rparr>) = hidx s" "hidx (s\<lparr>nat_heap_last := l\<rparr>) = hidx s"
  by (auto simp: hidx_def natof_def)

lemma nat_heap_insert_inv:
  assumes inv: "heap_inv s" and n: "nats s n \<noteq> None" "n \<notin> heap_set s"
    and ok: "fst (nat_heap_insert malloc_ok n s)"
  shows "heap_inv (snd (nat_heap_insert malloc_ok n s)) \<and>
    heap_set (snd (nat_heap_insert malloc_ok n s)) = insert n (heap_set s)"
proof -
  let ?l = "nat_heap_last s + 1"
  define h where "h = (if ?l \<ge> length (nat_heap s) then nat_heap s @ replicate 1024 0 else nat_heap s)"
  let ?s = "s\<lparr>nat_heap := h, nat_heap_last := ?l\<rparr>"
  have len: "?l < length h" and same: "\<And>j. j \<le> nat_heap_last s \<Longrightarrow> 1 \<le> j \<Longrightarrow> h ! j = nat_heap s ! j"
    using inv by (auto simp: h_def heap_inv_def nth_append)
  have ins: "snd (nat_heap_insert malloc_ok n s) = nat_heap_float_up ?l n ?s"
    using ok by (auto simp: nat_heap_insert_def nat_heap_resize_def Let_def h_def split: if_splits)
  have sd: "1 \<le> j div 2" "j div 2 \<le> nat_heap_last s" if "2 \<le> j" "j \<le> nat_heap_last s" for j
    using that by auto
  have "heap_hole ?l n ?s"
    unfolding heap_hole_def
  proof (intro conjI allI impI)
    fix j assume j: "1 \<le> j" "j \<le> nat_heap_last ?s" "j \<noteq> ?l"
    then have "nat_heap s ! j \<in> heap_set s" by (auto simp: heap_set_iff)
    then show "nat_heap ?s ! j \<noteq> n" using n(2) same j by auto
    show "nats ?s (nat_heap ?s ! j) \<noteq> None" using inv j same by (auto simp: heap_inv_def)
    show "hidx ?s (nat_heap ?s ! j) = j" using inv j same by (simp add: heap_inv_def)
  next
    fix j assume j: "2 \<le> j" "j \<le> nat_heap_last ?s" "j \<noteq> ?l" "j div 2 \<noteq> ?l"
    then have "j \<le> nat_heap_last s" by simp
    then show "tmo ?s (nat_heap ?s ! (j div 2)) \<le> tmo ?s (nat_heap ?s ! j)"
      using inv j same sd [of j] by (simp add: heap_inv_def)
  qed (use n len in auto)
  moreover have "below_ok ?l n ?s" by (auto simp: below_ok_def)
  moreover have "hole_set ?l ?s = heap_set s"
  proof (rule set_eqI)
    fix m
    have "m \<in> hole_set ?l ?s \<longleftrightarrow> (\<exists>j. 1 \<le> j \<and> j \<le> nat_heap_last s \<and> m = h ! j)"
      by (auto simp: hole_set_def le_Suc_eq)
    also have "\<dots> \<longleftrightarrow> m \<in> heap_set s" unfolding heap_set_iff using same by metis
    finally show "m \<in> hole_set ?l ?s \<longleftrightarrow> m \<in> heap_set s" .
  qed
  ultimately show ?thesis using float_up_ok [of ?l n ?s] ins by simp
qed

lemma nat_heap_delete_inv:
  assumes inv: "heap_inv s" and i: "1 \<le> i" "i \<le> nat_heap_last s"
  shows "heap_inv (nat_heap_delete i s) \<and>
    heap_set (nat_heap_delete i s) = heap_set s - {nat_heap s ! i}"
proof -
  let ?l = "nat_heap_last s" and ?h = "nat_heap s"
  have l: "?l < length ?h" using inv i by (auto simp: heap_inv_def)
  have ord: "\<And>j. 2 \<le> j \<Longrightarrow> j \<le> ?l \<Longrightarrow> tmo s (?h ! (j div 2)) \<le> tmo s (?h ! j)"
    and lv: "\<And>j. 1 \<le> j \<Longrightarrow> j \<le> ?l \<Longrightarrow> nats s (?h ! j) \<noteq> None"
    and bk: "\<And>j. 1 \<le> j \<Longrightarrow> j \<le> ?l \<Longrightarrow> hidx s (?h ! j) = j"
    using inv by (auto simp: heap_inv_def)
  have sd: "1 \<le> j div 2" "j div 2 \<le> j - 1" if "2 \<le> j" for j :: nat
    using that by auto
  show ?thesis
  proof (cases "i = ?l")
    case True
    let ?s = "s\<lparr>nat_heap := ?h[?l := 0], nat_heap_last := ?l - 1\<rparr>"
    have "nat_heap_delete i s = ?s"
      using i True by (simp add: nat_heap_delete_def Let_def isc_decr_def)
    moreover have "heap_inv ?s"
      unfolding heap_inv_def using l ord lv bk sd by (auto simp: nth_list_update)
    moreover have "heap_set ?s = heap_set s - {?h ! i}"
    proof
      show "heap_set ?s \<subseteq> heap_set s - {?h ! i}"
      proof
        fix m assume "m \<in> heap_set ?s"
        then obtain j where j: "1 \<le> j" "j \<le> ?l - 1" "m = ?h ! j"
          by (auto simp: heap_set_iff)
        then have "j \<noteq> i" "j \<le> ?l" using True i by auto
        then have "m \<noteq> ?h ! i" using heap_index_inj [OF inv] i j by blast
        then show "m \<in> heap_set s - {?h ! i}" using j \<open>j \<le> ?l\<close> by (auto simp: heap_set_iff)
      qed
      show "heap_set s - {?h ! i} \<subseteq> heap_set ?s"
      proof
        fix m assume "m \<in> heap_set s - {?h ! i}"
        then obtain j where j: "1 \<le> j" "j \<le> ?l" "m = ?h ! j" "j \<noteq> i" by (auto simp: heap_set_iff)
        then show "m \<in> heap_set ?s" using True by (auto simp: heap_set_iff intro!: exI [of _ j])
      qed
    qed
    ultimately show ?thesis by simp
  next
    case False
    then have il: "i < ?l" using i by simp
    let ?n = "?h ! ?l"
    define h where "h = ?h[?l := 0, i := ?n]"
    let ?s = "s\<lparr>nat_heap_last := ?l - 1, nat_heap := h\<rparr>"
    have at_i: "j \<le> ?l - 1 \<Longrightarrow> 1 \<le> j \<Longrightarrow> h ! j = (if j = i then ?n else ?h ! j)" for j
      using il l by (simp add: h_def nth_list_update)
    have oldi: "(?h[?l := 0]) ! i = ?h ! i" using False by simp
    have del: "nat_heap_delete i s = (if tmo s ?n < tmo s (?h ! i) then nat_heap_float_up i ?n ?s
        else nat_heap_sink_down i ?n ?s)"
      using i False oldi by (simp add: nat_heap_delete_def Let_def isc_decr_def h_def)
    have neq: "?h ! j \<noteq> ?n" if "1 \<le> j" "j \<le> ?l - 1" for j
    proof -
      have "j \<le> ?l" "j \<noteq> ?l" "1 \<le> ?l" using that il by auto
      then show ?thesis using heap_index_inj [OF inv, of j ?l] that by auto
    qed
    have "heap_hole i ?n ?s"
      unfolding heap_hole_def
    proof (intro conjI allI impI)
      fix j show "2 \<le> j \<Longrightarrow> j \<le> nat_heap_last ?s \<Longrightarrow> j div 2 = i \<Longrightarrow> 1 < i \<Longrightarrow>
        tmo ?s (nat_heap ?s ! (i div 2)) \<le> tmo ?s (nat_heap ?s ! j)"
      proof -
        assume j: "2 \<le> j" "j \<le> nat_heap_last ?s" "j div 2 = i" "1 < i"
        have "tmo s (?h ! (i div 2)) \<le> tmo s (?h ! i)" using ord [of i] il j by simp
        also have "\<dots> \<le> tmo s (?h ! j)" using ord [of j] j by simp
        finally have le: "tmo s (?h ! (i div 2)) \<le> tmo s (?h ! j)" .
        have ne: "j \<noteq> i" "i div 2 \<noteq> i" "1 \<le> i div 2" "i div 2 \<le> ?l - 1" "1 \<le> j" "j \<le> ?l - 1"
          using j il by auto
        have "h ! j = ?h ! j" "h ! (i div 2) = ?h ! (i div 2)"
          using at_i [of j] at_i [of "i div 2"] ne by auto
        then show ?thesis using le by simp
      qed
    qed (use l il i lv bk neq ord sd at_i in \<open>auto simp: h_def\<close>)
    moreover have "below_ok i ?n ?s" if "tmo s ?n < tmo s (?h ! i)"
      unfolding below_ok_def
    proof (intro allI impI)
      fix j assume j: "2 \<le> j" "j \<le> nat_heap_last ?s" "j div 2 = i"
      then have "tmo s (?h ! i) \<le> tmo s (?h ! j)" using ord [of j] by auto
      then show "tmo ?s ?n \<le> tmo ?s (nat_heap ?s ! j)" using that at_i [of j] j by auto
    qed
    moreover have "above_ok i ?n ?s" if "\<not> tmo s ?n < tmo s (?h ! i)"
      using that ord [of i] at_i [of "i div 2"] il sd [of i] by (auto simp: above_ok_def)
    moreover have "insert ?n (hole_set i ?s) = heap_set s - {?h ! i}"
    proof
      show "insert ?n (hole_set i ?s) \<subseteq> heap_set s - {?h ! i}"
      proof
        fix m assume "m \<in> insert ?n (hole_set i ?s)"
        then consider "m = ?n" | j where "1 \<le> j" "j \<le> ?l - 1" "j \<noteq> i" "m = h ! j"
          by (auto simp: hole_set_def)
        then have "\<exists>j. 1 \<le> j \<and> j \<le> ?l \<and> m = ?h ! j \<and> j \<noteq> i"
        proof cases
          case 1
          then show ?thesis using i False by (intro exI [of _ ?l]) simp
        next
          case (2 j)
          then show ?thesis using at_i [of j] by (intro exI [of _ j]) simp
        qed
        then obtain j where j: "1 \<le> j" "j \<le> ?l" "m = ?h ! j" "j \<noteq> i" by blast
        then show "m \<in> heap_set s - {?h ! i}"
          using heap_index_inj [OF inv, of j i] i by (auto simp: heap_set_iff)
      qed
      show "heap_set s - {?h ! i} \<subseteq> insert ?n (hole_set i ?s)"
      proof
        fix m assume "m \<in> heap_set s - {?h ! i}"
        then obtain j where j: "1 \<le> j" "j \<le> ?l" "m = ?h ! j" "j \<noteq> i" by (auto simp: heap_set_iff)
        then show "m \<in> insert ?n (hole_set i ?s)"
          using at_i [of j] by (cases "j = ?l") (auto simp: hole_set_def intro!: exI [of _ j])
      qed
    qed
    ultimately show ?thesis using float_up_ok [of i ?n ?s] sink_down_ok [of i ?n ?s] del by simp
  qed
qed

section \<open>A new time for an entry\<close>

text \<open>
  The daemon sets a new timeout first and then calls nat_heap_increased (for an earlier time)
  or nat_heap_decreased (for a later one) with the entry's heap_index.
\<close>

lemma retime_hole:
  assumes inv: "heap_inv s" and n: "n \<in> heap_set s" and f: "\<And>e. n_heap_index (f e) = n_heap_index e"
  shows "heap_hole (hidx s n) n (upd_nat n f s)" "insert n (hole_set (hidx s n) (upd_nat n f s)) = heap_set s"
    "hidx (upd_nat n f s) n = hidx s n" "nat_heap s ! hidx s n = n" "1 \<le> hidx s n" "hidx s n \<le> nat_heap_last s"
    "tmo (upd_nat n f s) n = n_timeout (f (natof s n))"
    "\<And>m. m \<noteq> n \<Longrightarrow> tmo (upd_nat n f s) m = tmo s m"
proof -
  let ?s = "upd_nat n f s"
  obtain i where i: "1 \<le> i" "i \<le> nat_heap_last s" "nat_heap s ! i = n" using n by (auto simp: heap_set_def)
  have hi: "hidx s n = i" using inv i by (auto simp: heap_inv_def)
  have live: "nats s n \<noteq> None" using inv i by (auto simp: heap_inv_def)
  show "tmo ?s n = n_timeout (f (natof s n))" using live by (auto simp: tmo_def natof_def upd_nat_def)
  show other: "\<And>m. m \<noteq> n \<Longrightarrow> tmo ?s m = tmo s m" by (simp add: tmo_def natof_def upd_nat_def)
  have hidx: "hidx ?s m = hidx s m" if "nats s m \<noteq> None" for m
    using that f by (auto simp: hidx_def natof_def upd_nat_def)
  show "hidx ?s n = hidx s n" by (rule hidx [OF live])
  show "nat_heap s ! hidx s n = n" "1 \<le> hidx s n" "hidx s n \<le> nat_heap_last s" using i hi by simp_all
  have views [simp]: "nat_heap ?s = nat_heap s" "nat_heap_last ?s = nat_heap_last s" "(nats ?s m = None) = (nats s m = None)" for m
    by (simp_all add: upd_nat_def)
  have ne: "nat_heap s ! j \<noteq> n" if "1 \<le> j" "j \<le> nat_heap_last s" "j \<noteq> i" for j
    using heap_index_inj [OF inv that(1,2) i(1,2)] i(3) that(3) by auto
  have ord: "\<And>j. 2 \<le> j \<Longrightarrow> j \<le> nat_heap_last s \<Longrightarrow> tmo s (nat_heap s ! (j div 2)) \<le> tmo s (nat_heap s ! j)"
    and lv: "\<And>j. 1 \<le> j \<Longrightarrow> j \<le> nat_heap_last s \<Longrightarrow> nats s (nat_heap s ! j) \<noteq> None \<and> hidx s (nat_heap s ! j) = j"
    and len: "nat_heap_last s < length (nat_heap s)"
    using inv i by (auto simp: heap_inv_def)
  have par: "1 \<le> j div 2" "j div 2 \<le> nat_heap_last s" if "2 \<le> j" "j \<le> nat_heap_last s" for j using that by auto
  show "heap_hole (hidx s n) n ?s"
    unfolding heap_hole_def hi views
  proof (intro conjI allI impI)
    fix j assume j: "1 \<le> j" "j \<le> nat_heap_last s" "j \<noteq> i"
    show "nat_heap s ! j \<noteq> n" "nats s (nat_heap s ! j) \<noteq> None" using ne j lv by auto
    show "hidx ?s (nat_heap s ! j) = j" using hidx lv j by simp
  next
    fix j assume j: "2 \<le> j" "j \<le> nat_heap_last s" "j \<noteq> i" "j div 2 \<noteq> i"
    then show "tmo ?s (nat_heap s ! (j div 2)) \<le> tmo ?s (nat_heap s ! j)"
      using ord [OF j(1,2)] other [OF ne] par [OF j(1,2)] by simp
  next
    fix j assume j: "2 \<le> j" "j \<le> nat_heap_last s" "j div 2 = i" "1 < i"
    have "tmo s (nat_heap s ! (i div 2)) \<le> tmo s (nat_heap s ! i)" using ord [of i] i j by simp
    also have "\<dots> \<le> tmo s (nat_heap s ! j)" using ord [OF j(1,2)] j(3) by simp
    finally show "tmo ?s (nat_heap s ! (i div 2)) \<le> tmo ?s (nat_heap s ! j)"
      using other [OF ne] j i by (auto simp: other [OF ne])
  qed (use i len live in auto)
  show "insert n (hole_set (hidx s n) ?s) = heap_set s"
    using i unfolding hole_set_def heap_set_def hi by auto
qed

lemma nat_heap_increased_inv:
  assumes inv: "heap_inv s" and n: "n \<in> heap_set s" and f: "\<And>e. n_heap_index (f e) = n_heap_index e"
    and le: "n_timeout (f (natof s n)) \<le> tmo s n"
  shows "heap_inv (nat_heap_increased (hidx s n) (upd_nat n f s)) \<and>
    heap_set (nat_heap_increased (hidx s n) (upd_nat n f s)) = heap_set s"
proof -
  note R = retime_hole [OF inv n f]
  have "below_ok (hidx s n) n (upd_nat n f s)"
    unfolding below_ok_def
  proof (intro allI impI)
    fix j assume j: "2 \<le> j" "j \<le> nat_heap_last (upd_nat n f s)" "j div 2 = hidx s n"
    then have l: "j \<le> nat_heap_last s" "j \<noteq> hidx s n" by (auto simp: upd_nat_def)
    have "tmo s n \<le> tmo s (nat_heap s ! j)" using inv j(1) l(1) j(3) R(4) unfolding heap_inv_def by metis
    moreover have "nat_heap s ! j \<noteq> n"
      using heap_index_inj [OF inv _ l(1) R(5,6)] j(1) R(4) l(2) by auto
    ultimately show "tmo (upd_nat n f s) n \<le> tmo (upd_nat n f s) (nat_heap (upd_nat n f s) ! j)"
      using R(7,8) le by (simp add: upd_nat_def)
  qed
  from float_up_ok [OF R(1) this] show ?thesis
    using R by (simp add: nat_heap_increased_def upd_nat_def)
qed

lemma nat_heap_decreased_inv:
  assumes inv: "heap_inv s" and n: "n \<in> heap_set s" and f: "\<And>e. n_heap_index (f e) = n_heap_index e"
    and le: "tmo s n \<le> n_timeout (f (natof s n))"
  shows "heap_inv (nat_heap_decreased (hidx s n) (upd_nat n f s)) \<and>
    heap_set (nat_heap_decreased (hidx s n) (upd_nat n f s)) = heap_set s"
proof -
  note R = retime_hole [OF inv n f]
  have "above_ok (hidx s n) n (upd_nat n f s)"
    unfolding above_ok_def
  proof (intro impI)
    assume i: "1 < hidx s n"
    have "2 \<le> hidx s n" using i by simp
    then have "tmo s (nat_heap s ! (hidx s n div 2)) \<le> tmo s n" using inv R(4,6) unfolding heap_inv_def by metis
    moreover have "nat_heap s ! (hidx s n div 2) \<noteq> n"
    proof -
      have "1 \<le> hidx s n div 2" "hidx s n div 2 \<le> nat_heap_last s" "hidx s n div 2 \<noteq> hidx s n" using i R(6) by auto
      then show ?thesis using heap_index_inj [OF inv _ _ R(5,6)] R(4) by metis
    qed
    ultimately show "tmo (upd_nat n f s) (nat_heap (upd_nat n f s) ! (hidx s n div 2)) \<le> tmo (upd_nat n f s) n"
      using R(7,8) le by (simp add: upd_nat_def)
  qed
  from sink_down_ok [OF R(1) this] show ?thesis
    using R by (simp add: nat_heap_decreased_def upd_nat_def)
qed

section \<open>The heap as an expiry queue\<close>

text \<open>
  What the garbage collection of the daemon relies on: the first element expires first, and
  deleting an entry by its own heap_index takes out that entry and no other.
\<close>

locale expiry_queue =
  fixes inv :: "'s \<Rightarrow> bool" and members :: "'s \<Rightarrow> 'e set" and key :: "'s \<Rightarrow> 'e \<Rightarrow> int"
    and top :: "'s \<Rightarrow> 'e" and del :: "'e \<Rightarrow> 's \<Rightarrow> 's"
  assumes top_member: "inv s \<Longrightarrow> members s \<noteq> {} \<Longrightarrow> top s \<in> members s"
    and top_least: "inv s \<Longrightarrow> m \<in> members s \<Longrightarrow> key s (top s) \<le> key s m"
    and del_inv: "inv s \<Longrightarrow> e \<in> members s \<Longrightarrow> inv (del e s)"
    and del_members: "inv s \<Longrightarrow> e \<in> members s \<Longrightarrow> members (del e s) = members s - {e}"
    and del_key: "inv s \<Longrightarrow> e \<in> members s \<Longrightarrow> m \<in> members s \<Longrightarrow> m \<noteq> e \<Longrightarrow> key (del e s) m = key s m"
begin

lemma none_due: "inv s \<Longrightarrow> now < key s (top s) \<Longrightarrow> m \<in> members s \<Longrightarrow> now < key s m"
  using top_least [of s m] by linarith

text \<open>Any sequence of \<open>k\<close> pops takes out \<open>k\<close> members, each no later than what remains.\<close>

lemma pop_inv:
  "inv s \<Longrightarrow> members s \<noteq> {} \<Longrightarrow> inv (del (top s) s)"
  using del_inv top_member by blast

lemma pop_order:
  assumes "inv s" "members s \<noteq> {}" "m \<in> members (del (top s) s)"
  shows "key s (top s) \<le> key (del (top s) s) m"
  using assms del_members [OF assms(1) top_member] del_key [OF assms(1) top_member]
    top_least [OF assms(1)] by simp

lemma pops_finite:
  assumes "inv s" "finite (members s)" "members s \<noteq> {}"
  shows "card (members (del (top s) s)) < card (members s)"
  using assms del_members [OF assms(1) top_member] top_member [OF assms(1)]
  by (simp add: card_gt_0_iff)

end

lemma heap_root_least:
  assumes inv: "heap_inv s" and j: "1 \<le> j" "j \<le> nat_heap_last s"
  shows "tmo s (nat_heap s ! 1) \<le> tmo s (nat_heap s ! j)"
  using j
proof (induction j rule: less_induct)
  case (less j)
  show ?case
  proof (cases "j = 1")
    case False
    then have "2 \<le> j" "1 \<le> j div 2" "j div 2 < j" "j div 2 \<le> nat_heap_last s" using less.prems by auto
    then have "tmo s (nat_heap s ! 1) \<le> tmo s (nat_heap s ! (j div 2))"
      "tmo s (nat_heap s ! (j div 2)) \<le> tmo s (nat_heap s ! j)"
      using less inv by (blast, simp add: heap_inv_def)
    then show ?thesis by (rule order_trans)
  qed simp
qed

lemma heap_member_index:
  "heap_inv s \<Longrightarrow> n \<in> heap_set s \<Longrightarrow>
     1 \<le> hidx s n \<and> hidx s n \<le> nat_heap_last s \<and> nat_heap s ! hidx s n = n \<and> nats s n \<noteq> None"
  by (auto simp: heap_set_iff heap_inv_def)

interpretation natq: expiry_queue heap_inv heap_set tmo "nat_heap_element 1"
  "\<lambda>n s. nat_heap_delete (hidx s n) s"
proof (unfold_locales, goal_cases)
  case (1 s)
  then show ?case by (auto simp: nat_heap_element_def heap_set_iff intro: exI [of _ 1])
next
  case (2 s m)
  then show ?case using heap_root_least [of s] by (auto simp: nat_heap_element_def heap_set_iff)
next
  case (3 s e)
  then show ?case using nat_heap_delete_inv heap_member_index by blast
next
  case (4 s e)
  then show ?case using nat_heap_delete_inv [OF 4(1)] heap_member_index [OF 4] by simp
next
  case (5 s e m)
  then show ?case using only_heap_tmo [OF only_heap_delete] heap_member_index by blast
qed

text \<open>
  Nat_heap_insert keeps the heap (parents expire no later than children, every
  entry knows its index, no index outside the array) and adds exactly the new entry, also
  when the array had to grow.
\<close>

theorem nat_heap_insert_correct:
  assumes "heap_inv s" "nats s n \<noteq> None" "n \<notin> heap_set s"
  shows "if malloc_ok \<or> nat_heap_last s + 1 < length (nat_heap s)
    then fst (nat_heap_insert malloc_ok n s) \<and> heap_inv (snd (nat_heap_insert malloc_ok n s))
      \<and> heap_set (snd (nat_heap_insert malloc_ok n s)) = insert n (heap_set s)
    else nat_heap_insert malloc_ok n s = (False, s)"
proof (cases "malloc_ok \<or> nat_heap_last s + 1 < length (nat_heap s)")
  case True
  then have "fst (nat_heap_insert malloc_ok n s)"
    by (auto simp: nat_heap_insert_def nat_heap_resize_def Let_def split: if_splits)
  with nat_heap_insert_inv [OF assms this] True show ?thesis by simp
next
  case False
  then show ?thesis by (auto simp: nat_heap_insert_def nat_heap_resize_def Let_def)
qed

theorem nat_heap_insert_correct_witness:
  "heap_set (snd (nat_heap_insert True 7 (aftr0\<lparr>nats := [7 \<mapsto> nat_zero]\<rparr>))) = {7}"
  using nat_heap_insert_correct [of "aftr0\<lparr>nats := [7 \<mapsto> nat_zero]\<rparr>" 7 True]
  by (simp add: heap_inv_def heap_set_def aftr0_def)

text \<open>
  Nat_heap_delete on the heap_index of a member keeps the heap invariant and takes
  out that entry only, whichever way the last entry has to move (up or down).
\<close>

theorem nat_heap_delete_correct:
  assumes "heap_inv s" "n \<in> heap_set s"
  shows "heap_inv (nat_heap_delete (hidx s n) s)
    \<and> heap_set (nat_heap_delete (hidx s n) s) = heap_set s - {n}"
  using natq.del_inv [OF assms] natq.del_members [OF assms] by simp

text \<open>A heap with one entry that expires at 5.\<close>

definition heap1 :: aftr where
  "heap1 = aftr0\<lparr>nats := [7 \<mapsto> nat_zero\<lparr>n_timeout := 5, n_heap_index := 1\<rparr>],
     nat_heap := [0, 7], nat_heap_last := 1\<rparr>"

lemma heap1_facts: "heap_inv heap1" "heap_set heap1 = {7}"
proof -
  have "j = 1" if "1 \<le> j" "j \<le> 1" for j :: nat using that by simp
  then show "heap_inv heap1"
    by (auto simp: heap_inv_def heap1_def hidx_def natof_def)
  show "heap_set heap1 = {7}"
    by (auto simp: heap_set_def heap1_def le_Suc_eq intro: exI [of _ 1])
qed

theorem nat_heap_delete_correct_witness: "heap_set (nat_heap_delete (hidx heap1 7) heap1) = {}"
  using nat_heap_delete_correct [of heap1 7] by (simp add: heap1_facts)

text \<open>
  When the first element of the heap is not due, no NAT entry of the heap is; the
  expiry loop of the daemon looks at the first element only.
\<close>

theorem nat_heap_top_due:
  assumes "heap_inv s" "n \<in> heap_set s" "now < tmo s (nat_heap_element 1 s)"
  shows "now < tmo s n"
  by (rule natq.none_due [OF assms(1,3,2)])

theorem nat_heap_top_due_witness: "4 < tmo heap1 7"
  using nat_heap_top_due [of heap1 7 4]
  by (simp add: heap1_facts) (simp add: heap1_def nat_heap_element_def tmo_def natof_def)

end
