(* ===== verification/Aftr_Pool.thy ===== *)
theory Aftr_Pool
  imports Aftr_Splay Aftr_Heap
begin

text \<open>
  The NAT address pools and the life of a dynamic NAT entry: add_pool, limit_port, the port
  buckets of a tunnel (fill_bucket), new_nat, del_nat, free_heldnats. A port of a pool is free
  (its bit is set), in the bucket of a tunnel, used by an entry, or on hold; the properties
  say that it is never two of these, and in no two places.
\<close>

section \<open>Bit maps of free ports\<close>

definition bm_get :: "bytes \<Rightarrow> nat \<Rightarrow> bool" where
  "bm_get bm nb \<longleftrightarrow> bm ! (nb div 8) AND push_bit (nb mod 8) 1 \<noteq> 0"

definition bm_clear :: "bytes \<Rightarrow> nat \<Rightarrow> bytes" where
  "bm_clear bm nb = bm[nb div 8 := bm ! (nb div 8) AND NOT (push_bit (nb mod 8) 1)]"

definition bm_set :: "bytes \<Rightarrow> nat \<Rightarrow> bytes" where
  "bm_set bm nb = bm[nb div 8 := bm ! (nb div 8) OR push_bit (nb mod 8) 1]"

text \<open>The fresh bit map of a range of \<open>d + 1\<close> ports: all of them free.\<close>

definition bm_full :: "nat \<Rightarrow> bytes" where
  "bm_full d =
     (let sz = d div 8; bm = replicate sz 0xff @ [0]; bn = d mod 8
      in fold (\<lambda>i bm. bm[sz := bm ! sz OR push_bit i 1]) [0..<bn + 1] bm)"

section \<open>Pools\<close>

definition new_pool :: "config \<Rightarrow> bytes \<Rightarrow> pool" where
  "new_pool cfg addr =
     \<lparr>p_addr = sub addr 0 4, p_minport = poolmin cfg, p_maxport = poolmax cfg, p_natcnt = (\<lambda>pr. 0),
      p_freebm = (\<lambda>pr. Some (bm_full (unat (poolmax cfg pr) - unat (poolmin cfg pr)))), p_helds = (\<lambda>pr. [])\<rparr>"

text \<open>
  \<open>mem 0\<close> is the malloc of the larger pool table, \<open>mem 1\<close> that of the pool, \<open>mem 2\<close> to
  \<open>mem 4\<close> those of the bit maps. The result is the code's return value.
\<close>

definition add_pool :: "config \<Rightarrow> (nat \<Rightarrow> bool) \<Rightarrow> bytes \<Rightarrow> aftr \<Rightarrow> int \<times> aftr" where
  "add_pool cfg mem addr s =
     (if \<not> mem 0 \<or> \<not> mem 1 \<or> \<not> (mem 2 \<and> mem 3 \<and> mem 4) then (-1, s)
      else (0, s\<lparr>pools := pools s @ [Some (new_pool cfg addr)]\<rparr>))"

text \<open>\<open>for (i = 0; i < poolcnt; i++)\<close> over the pools that are not NULL.\<close>

definition find_pool :: "bytes \<Rightarrow> aftr \<Rightarrow> nat option" where
  "find_pool addr s =
     find (\<lambda>i. case pools s ! i of None \<Rightarrow> False | Some ns \<Rightarrow> sub (p_addr ns) 0 4 = sub addr 0 4)
       [0..<length (pools s)]"

definition set_range :: "prclass \<Rightarrow> u16 \<Rightarrow> u16 \<Rightarrow> pool \<Rightarrow> pool" where
  "set_range pr minport maxport ns =
     ns\<lparr>p_minport := (p_minport ns)(pr := minport), p_maxport := (p_maxport ns)(pr := maxport),
        p_freebm := (p_freebm ns)(pr := Some (bm_full (unat maxport - unat minport)))\<rparr>"

text \<open>
  When the bit map cannot be allocated the pool is lost: taken off the end of the table, or
  its slot set to NULL.
\<close>

definition limit_port ::
  "config \<Rightarrow> (nat \<Rightarrow> bool) \<Rightarrow> bytes \<Rightarrow> u8 \<Rightarrow> u16 \<Rightarrow> u16 \<Rightarrow> aftr \<Rightarrow> int \<times> aftr" where
  "limit_port cfg mem addr proto minport maxport s =
     (let pr = pr_of_proto proto;
          found = find_pool addr s;
          (r, s) = (case found of Some i \<Rightarrow> (0, s) | None \<Rightarrow> add_pool cfg mem addr s)
      in if r \<noteq> 0 then (-1, s)
         else
           let i = (case found of Some i \<Rightarrow> i | None \<Rightarrow> length (pools s) - 1)
           in if mem 5 then (0, upd_pool i (set_range pr minport maxport) s)
              else if i = length (pools s) - 1 then (-1, s\<lparr>pools := butlast (pools s)\<rparr>)
              else (-1, s\<lparr>pools := (pools s)[i := None]\<rparr>))"

section \<open>Buckets\<close>

text \<open>At most ten draws for a port whose bit is still set; the bit is cleared.\<close>

fun fill_try :: "nat \<Rightarrow> u16 \<Rightarrow> u16 \<Rightarrow> bytes \<Rightarrow> arc4_stream \<Rightarrow> (u16 option \<times> bytes \<times> arc4_stream) option" where
  "fill_try 0 minport maxport bm rs = Some (None, bm, rs)"
| "fill_try (Suc i) minport maxport bm rs =
     (case arc4_getport minport maxport rs of
        None \<Rightarrow> None
      | Some (port, rs) \<Rightarrow>
          let nb = unat (port - minport)
          in if \<not> bm_get bm nb then fill_try i minport maxport bm rs
             else Some (Some port, bm_clear bm nb, rs))"

text \<open>The outer loop: \<open>k\<close> is avail, \<open>b\<close> the bucket. It ends early when no port is found.\<close>

function fill_slots ::
  "nat \<Rightarrow> u16 \<Rightarrow> u16 \<Rightarrow> nat \<Rightarrow> u16 list \<Rightarrow> bytes \<Rightarrow> arc4_stream \<Rightarrow>
   (nat \<times> u16 list \<times> bytes \<times> arc4_stream) option" where
  "fill_slots sz minport maxport k b bm rs =
     (if k < sz then
        case fill_try 10 minport maxport bm rs of
          None \<Rightarrow> None
        | Some (None, bm, rs) \<Rightarrow> Some (k, b, bm, rs)
        | Some (Some port, bm, rs) \<Rightarrow> fill_slots sz minport maxport (k + 1) (b[k := port]) bm rs
      else Some (k, b, bm, rs))"
  by auto
termination by (relation "measure (\<lambda>(sz, minport, maxport, k, b, bm, rs). sz - k)") auto

declare fill_slots.simps [simp del]

definition fill_bucket :: "config \<Rightarrow> bool \<Rightarrow> tid \<Rightarrow> u8 \<Rightarrow> aftr \<Rightarrow> aftr option" where
  "fill_bucket cfg mem t proto s =
     (let pr = pr_of_proto proto; sz = unat (bucksize cfg pr);
          i = t_srcidx (tunof s t); ns = poolof s i
      in case p_freebm ns pr of
           None \<Rightarrow> Some s
         | Some bm \<Rightarrow>
             if \<not> mem then Some s
             else case fill_slots sz (p_minport ns pr) (p_maxport ns pr) 0 (replicate sz 0) bm (arc4 s) of
                    None \<Rightarrow> None
                  | Some (k, b, bm, rs) \<Rightarrow>
                      Some (upd_pool i (\<lambda>ns. ns\<lparr>p_freebm := (p_freebm ns)(pr := Some bm)\<rparr>)
                        (upd_tunnel t (\<lambda>t. t\<lparr>t_bucket := (t_bucket t)(pr := if k = 0 \<and> sz > 0 then None else Some b),
                                            t_avail := (t_avail t)(pr := word_of_nat k)\<rparr>)
                          (s\<lparr>arc4 := rs\<rparr>))))"

section \<open>Creating an entry\<close>

definition tree_cmp_nid :: "aftr \<Rightarrow> nid \<Rightarrow> nid \<Rightarrow> int" where
  "tree_cmp_nid s n m = nat_tree_compare_abs (natof s n) (natof s m)"

definition splay_cmp_nid :: "aftr \<Rightarrow> nid \<Rightarrow> nid \<Rightarrow> int" where
  "splay_cmp_nid s n m = nat_splay_compare_abs (natof s n) (natof s m)"

definition put_tree :: "prclass \<Rightarrow> nid rbt \<Rightarrow> aftr \<Rightarrow> aftr" where
  "put_tree pr t s = s\<lparr>nat_tree := (nat_tree s)(pr := t)\<rparr>"

definition put_root :: "tid \<Rightarrow> prclass \<Rightarrow> nid tree \<Rightarrow> aftr \<Rightarrow> aftr" where
  "put_root t pr r = upd_tunnel t (\<lambda>t. t\<lparr>t_tnat_root := (t_tnat_root t)(pr := r)\<rparr>)"

text \<open>The tail of new_nat and del_nat that puts the entry on hold, as a struct held.\<close>

definition hold_nat :: "config \<Rightarrow> nat \<Rightarrow> prclass \<Rightarrow> nid \<Rightarrow> aftr \<Rightarrow> aftr" where
  "hold_nat cfg i pr n s =
     upd_pool i (\<lambda>ns. ns\<lparr>p_helds := (p_helds ns)(pr := p_helds ns pr @ [n])\<rparr>)
       (upd_nat n (\<lambda>e. e\<lparr>n_flags := ON_HOLD, n_timeout := seconds s + int (hold_lifetime cfg)\<rparr>) s)"

text \<open>The counters of a created entry.\<close>

definition count_new :: "nid \<Rightarrow> aftr \<Rightarrow> aftr" where
  "count_new n s =
     (let e = natof s n
      in if n_flags e AND ALL_DST \<noteq> 0 then s\<lparr>snatcnt := snatcnt s + 1\<rparr>
         else if n_proto e = IPTCP then s\<lparr>natcntt := natcntt s + 1\<rparr>
         else if n_proto e = IPUDP then s\<lparr>natcntu := natcntu s + 1\<rparr>
         else s\<lparr>natcnto := natcnto s + 1\<rparr>)"

text \<open>
  The part of new_nat after the port is taken: heap, global tree, tunnel tree, undone in the
  reverse order when one of them fails.
\<close>

definition link_nat :: "config \<Rightarrow> bool \<Rightarrow> nid \<Rightarrow> aftr \<Rightarrow> bool \<times> aftr" where
  "link_nat cfg mem n s =
     (let t = n_tunnel (natof s n); i = t_srcidx (tunof s t); pr = pr_of_proto (n_proto (natof s n));
          (ok, s1) = nat_heap_insert mem n s
      in if \<not> ok then (False, hold_nat cfg i pr n s1)
         else case nat_tree_insert (tree_cmp_nid s1 n) n (nat_tree s1 pr) of
           (Some x, tr) \<Rightarrow> (False, hold_nat cfg i pr n (nat_heap_delete (hidx s1 n) s1))
         | (None, tr) \<Rightarrow>
             let s2 = put_tree pr tr s1
             in case nat_splay_insert (splay_cmp_nid s2 n) n (t_tnat_root (tunof s2 t) pr) of
                  (Some x, r) \<Rightarrow>
                    let s3 = put_root t pr r s2; s4 = put_tree pr (nat_tree_remove n (nat_tree s3 pr)) s3
                    in (False, hold_nat cfg i pr n (nat_heap_delete (hidx s4 n) s4))
                | (None, r) \<Rightarrow>
                    (True, upd_tunnel t (\<lambda>t. t\<lparr>t_tnatcnt := (t_tnatcnt t)(pr := t_tnatcnt t pr + 1)\<rparr>)
                             (count_new n (put_root t pr r s2))))"

text \<open>
  new_nat. The test \<open>t->avail == 0\<close> of the code compares the address of an array and is never
  true, so an emptied bucket is neither freed nor forgotten. \<open>None\<close> is a call that does not
  return (the port draw has no bound).
\<close>

definition new_nat :: "config \<Rightarrow> bool \<Rightarrow> bool \<Rightarrow> nid \<Rightarrow> aftr \<Rightarrow> (bool \<times> aftr) option" where
  "new_nat cfg mem_bucket mem_heap n s =
     (let t = n_tunnel (natof s n); i = t_srcidx (tunof s t); pr = pr_of_proto (n_proto (natof s n))
      in case (if t_avail (tunof s t) pr = 0 then fill_bucket cfg mem_bucket t (n_proto (natof s n)) s else Some s) of
           None \<Rightarrow> None
         | Some s \<Rightarrow>
             (case t_bucket (tunof s t) pr of
                None \<Rightarrow> Some (False, s\<lparr>nats := (nats s)(n := None)\<rparr>)
              | Some b \<Rightarrow>
                  let avail = isc_decr_u8 (t_avail (tunof s t) pr); port = b ! unat avail;
                      s = upd_tunnel t (\<lambda>t. t\<lparr>t_avail := (t_avail t)(pr := avail)\<rparr>) s;
                      s = upd_nat n (\<lambda>e. e\<lparr>n_nport := [hi8 (uint port), lo8 (uint port)]\<rparr>) s;
                      s = upd_pool i (\<lambda>ns. ns\<lparr>p_natcnt := (p_natcnt ns)(pr := p_natcnt ns pr + 1)\<rparr>) s
                  in Some (link_nat cfg mem_heap n s)))"

section \<open>Deleting an entry\<close>

definition nport_of :: "nat_entry \<Rightarrow> nat" where
  "nport_of e = nat (be16 (n_nport e ! 0) (n_nport e ! 1))"

definition count_del :: "nid \<Rightarrow> aftr \<Rightarrow> aftr" where
  "count_del n s =
     (let e = natof s n
      in if n_flags e AND ALL_DST \<noteq> 0 then
           if n_flags e AND PRR_NULL \<noteq> 0 then s\<lparr>prrcnt := isc_decr (prrcnt s)\<rparr>
           else s\<lparr>snatcnt := isc_decr (snatcnt s)\<rparr>
         else if n_proto e = IPTCP then s\<lparr>natcntt := isc_decr (natcntt s)\<rparr>
         else if n_proto e = IPUDP then s\<lparr>natcntu := isc_decr (natcntu s)\<rparr>
         else s\<lparr>natcnto := isc_decr (natcnto s)\<rparr>)"

text \<open>The successor of an entry in the list it is linked in (0 at the end).\<close>

fun list_next :: "nid \<Rightarrow> nid list \<Rightarrow> nid" where
  "list_next n [] = 0"
| "list_next n [x] = 0"
| "list_next n (x # y # xs) = (if x = n then y else list_next n (y # xs))"

text \<open>
  Taking the entry out of the FTP chains and of its static list; the collector's pointers move
  on when they point to it. \<open>k\<close> is the list that holds it, if any.
\<close>

definition unchain_nat :: "nid \<Rightarrow> nat option \<Rightarrow> aftr \<Rightarrow> aftr" where
  "unchain_nat n k s =
     (let s = upd_nat n (\<lambda>e. e\<lparr>n_xlist := []\<rparr>) s;
          s = s\<lparr>nats := \<lambda>m. map_option (\<lambda>e. e\<lparr>n_xlist := remove1 n (n_xlist e)\<rparr>) (nats s m)\<rparr>;
          s = upd_nat n (\<lambda>e. e\<lparr>n_ftpseq := []\<rparr>) s
      in case k of
           None \<Rightarrow> s
         | Some k \<Rightarrow>
             let nxt = list_next n (gchains s k);
                 s = (if n = gc_ptr s then s\<lparr>gc_ptr := nxt\<rparr> else s);
                 s = (if n = bt_ptr s then s\<lparr>bt_ptr := nxt\<rparr> else s)
             in s\<lparr>gchains := (gchains s)(k := remove1 n (gchains s k))\<rparr>)"

text \<open>The pool of an entry: that of its tunnel if the address agrees, else the first with it.\<close>

definition pool_of_nat :: "nid \<Rightarrow> aftr \<Rightarrow> nat option" where
  "pool_of_nat n s =
     (let e = natof s n; i = t_srcidx (tunof s (n_tunnel e))
      in if sub (p_addr (poolof s i)) 0 4 = sub (n_nsrc e) 0 4 then Some i else find_pool (n_nsrc e) s)"

definition del_nat :: "config \<Rightarrow> nid \<Rightarrow> nat option \<Rightarrow> aftr \<Rightarrow> aftr" where
  "del_nat cfg n k s =
     (let t = n_tunnel (natof s n); pr = pr_of_proto (n_proto (natof s n));
          s = count_del n s;
          s = (if hidx s n \<noteq> 0 then nat_heap_delete (hidx s n) s else s);
          s = upd_nat n (\<lambda>e. e\<lparr>n_heap_index := 0\<rparr>) s;
          s = unchain_nat n k s;
          s = put_tree pr (nat_tree_remove n (nat_tree s pr)) s;
          s = put_root t pr (snd (nat_splay_remove (splay_cmp_nid s n) n (t_tnat_root (tunof s t) pr))) s;
          s = upd_tunnel t (\<lambda>t. t\<lparr>t_tnatcnt := (t_tnatcnt t)(pr := isc_decr_u16 (t_tnatcnt t pr))\<rparr>) s;
          h = n_hash (natof s n);
          s = (if h < nathashsz s \<and> nathash s h = n then s\<lparr>nathash := (nathash s)(h := 0)\<rparr> else s)
      in case pool_of_nat n s of
           None \<Rightarrow> s\<lparr>nats := (nats s)(n := None)\<rparr>
         | Some i \<Rightarrow>
             if nport_of (natof s n) < unat (p_minport (poolof s i) pr) \<or>
                nport_of (natof s n) > unat (p_maxport (poolof s i) pr)
             then s\<lparr>nats := (nats s)(n := None)\<rparr>
             else hold_nat cfg i pr n s)"

section \<open>Freeing held ports\<close>

text \<open>The inner loop over one hold queue, oldest first.\<close>

function free_held :: "nat \<Rightarrow> prclass \<Rightarrow> aftr \<Rightarrow> aftr" where
  "free_held i pr s =
     (case p_helds (poolof s i) pr of
        [] \<Rightarrow> s
      | h # hs \<Rightarrow>
          if pools s ! i = None \<or> i \<ge> length (pools s) then s
          else if n_timeout (natof s h) > seconds s then s
          else
            let port = nport_of (natof s h); ns = poolof s i;
                s = upd_pool i (\<lambda>ns. ns\<lparr>p_helds := (p_helds ns)(pr := hs)\<rparr>) s;
                s = s\<lparr>nats := (nats s)(h := None)\<rparr>
            in if port < unat (p_minport ns pr) \<or> port > unat (p_maxport ns pr)
               then free_held i pr s
               else free_held i pr
                      (upd_pool i (\<lambda>ns. ns\<lparr>p_freebm := (p_freebm ns)(pr :=
                           map_option (\<lambda>bm. bm_set bm (port - unat (p_minport ns pr))) (p_freebm ns pr)),
                         p_natcnt := (p_natcnt ns)(pr := isc_decr_u16 (p_natcnt ns pr))\<rparr>) s))"
  by auto
termination
  by (relation "measure (\<lambda>(i, pr, s). length (p_helds (poolof s i) pr))")
    (auto simp: upd_pool_def poolof_def)

declare free_held.simps [simp del]

definition free_heldnats :: "aftr \<Rightarrow> aftr" where
  "free_heldnats s =
     fold (\<lambda>i s. if pools s ! i = None then s else fold (\<lambda>pr s. free_held i pr s) all_pr s)
       [0..<length (pools s)] s"

section \<open>The bit maps\<close>

lemma bm_get_bit: "bm_get bm nb = bit (bm ! (nb div 8)) (nb mod 8)"
  by (simp add: bm_get_def push_bit_eq_mult and_exp_eq_0_iff_not_bit)

lemma same_cell: "a div 8 = b div 8 \<Longrightarrow> (a mod 8 = b mod 8) = (a = (b :: nat))"
  by (metis div_mult_mod_eq)

lemma bm_get_clear:
  "a div 8 < length bm \<Longrightarrow> bm_get (bm_clear bm a) b \<longleftrightarrow> bm_get bm b \<and> a \<noteq> b"
  by (auto simp: bm_get_bit bm_clear_def nth_list_update bit_simps same_cell)

lemma bm_get_set:
  "a div 8 < length bm \<Longrightarrow> bm_get (bm_set bm a) b \<longleftrightarrow> bm_get bm b \<or> a = b"
  by (auto simp: bm_get_bit bm_set_def nth_list_update bit_simps same_cell)

lemma bm_length [simp]: "length (bm_clear bm a) = length bm" "length (bm_set bm a) = length bm"
  by (simp_all add: bm_clear_def bm_set_def)

lemma bm_full_fold:
  "n \<le> 8 \<Longrightarrow> sz < length bm \<Longrightarrow>
   fold (\<lambda>i bm. bm[sz := bm ! sz OR push_bit i (1 :: u8)]) [0..<n] bm =
     bm[sz := bm ! sz OR (take_bit n (- 1))]"
proof (induction n)
  case (Suc n)
  have "take_bit (Suc n) (- 1) = (take_bit n (- 1) OR push_bit n 1 :: u8)"
    by (rule bit_word_eqI) (auto simp: bit_simps less_Suc_eq)
  with Suc show ?case by (simp add: or.assoc)
qed simp

lemma bm_full_eq:
  "bm_full d = (replicate (d div 8) 0xff @ [0])[d div 8 := take_bit (d mod 8 + 1) (- 1)]"
proof -
  have "d mod 8 + 1 \<le> 8" by simp
  then show ?thesis unfolding bm_full_def Let_def by (subst bm_full_fold) (auto simp: nth_append)
qed

lemma bm_full_length: "length (bm_full d) = d div 8 + 1"
  by (simp add: bm_full_eq)

lemma bm_get_full: "bm_get (bm_full d) b \<longleftrightarrow> b \<le> d" if "b div 8 \<le> d div 8"
proof -
  have all: "bit (0xff :: u8) k" if "k < 8" for k
  proof -
    have "(0xff :: u8) = - 1" by simp
    then show ?thesis using that by (simp only: bit_simps) simp
  qed
  show ?thesis
  proof (cases "b div 8 = d div 8")
    case True
    have "b mod 8 < d mod 8 + 1 \<longleftrightarrow> b \<le> d"
      using div_mult_mod_eq [of b 8] div_mult_mod_eq [of d 8] True by linarith
    then show ?thesis using True
      by (auto simp: bm_get_bit bm_full_eq nth_append bit_simps simp flip: less_Suc_eq_le)
  next
    case False
    then have lt: "b div 8 < d div 8" using that by simp
    then have "b < d" by (metis div_le_mono leD linorder_not_less)
    then show ?thesis using lt all by (simp add: bm_get_bit bm_full_eq nth_append)
  qed
qed

section \<open>Who holds a port\<close>

text \<open>
  The part of the state that decides who holds a port: the pools, the buckets of the tunnels
  and the external address and port of the entries.
\<close>

datatype owner = PortFree | InBucket tid nat | InEntry nid

type_synonym tun_ports = "nat \<times> (prclass \<Rightarrow> u8) \<times> (prclass \<Rightarrow> u16 list option)"
type_synonym nat_port = "prclass \<times> bytes \<times> nat"

definition pool_addr :: "pool \<Rightarrow> bytes" where
  "pool_addr P = sub (p_addr P) 0 4"

definition tun_ports :: "aftr \<Rightarrow> tid \<Rightarrow> tun_ports option" where
  "tun_ports s t = map_option (\<lambda>t. (t_srcidx t, t_avail t, t_bucket t)) (tunnels s t)"

definition nat_port :: "aftr \<Rightarrow> nid \<Rightarrow> nat_port option" where
  "nat_port s n = map_option (\<lambda>e. (pr_of_proto (n_proto e), sub (n_nsrc e) 0 4, nport_of e)) (nats s n)"

definition in_range :: "pool \<Rightarrow> prclass \<Rightarrow> nat \<Rightarrow> bool" where
  "in_range P pr p \<longleftrightarrow> unat (p_minport P pr) \<le> p \<and> p \<le> unat (p_maxport P pr)"

definition port_free :: "pool \<Rightarrow> prclass \<Rightarrow> nat \<Rightarrow> bool" where
  "port_free P pr p \<longleftrightarrow>
     (case p_freebm P pr of None \<Rightarrow> False
      | Some bm \<Rightarrow> in_range P pr p \<and> bm_get bm (p - unat (p_minport P pr)))"

fun holds_port ::
  "nat \<Rightarrow> pool \<Rightarrow> (tid \<Rightarrow> tun_ports option) \<Rightarrow> (nid \<Rightarrow> nat_port option) \<Rightarrow> prclass \<Rightarrow> nat \<Rightarrow> owner \<Rightarrow> bool" where
  "holds_port i P tv nv pr p PortFree \<longleftrightarrow> port_free P pr p"
| "holds_port i P tv nv pr p (InBucket t k) \<longleftrightarrow>
     (case tv t of None \<Rightarrow> False
      | Some (j, av, bk) \<Rightarrow> j = i \<and> k < unat (av pr) \<and> map_option (\<lambda>b. unat (b ! k)) (bk pr) = Some p)"
| "holds_port i P tv nv pr p (InEntry n) \<longleftrightarrow> nv n = Some (pr, pool_addr P, p)"

text \<open>The invariant, over these three parts.\<close>

definition pool_ok :: "pool \<Rightarrow> bool" where
  "pool_ok P \<longleftrightarrow> (\<forall>pr. p_minport P pr \<le> p_maxport P pr \<and>
     (\<exists>bm. p_freebm P pr = Some bm \<and>
       length bm = (unat (p_maxport P pr) - unat (p_minport P pr)) div 8 + 1))"

definition bucket_ok :: "(nat \<Rightarrow> pool option) \<Rightarrow> tun_ports \<Rightarrow> bool" where
  "bucket_ok pv = (\<lambda>(i, av, bk). \<exists>P. pv i = Some P \<and>
     (\<forall>pr. av pr \<noteq> 0 \<longrightarrow> (\<exists>b. bk pr = Some b \<and> unat (av pr) \<le> length b \<and>
       (\<forall>k < unat (av pr). in_range P pr (unat (b ! k))))))"

definition helds_ok :: "(nid \<Rightarrow> nat_port option) \<Rightarrow> pool \<Rightarrow> bool" where
  "helds_ok nv P \<longleftrightarrow> (\<forall>pr. distinct (p_helds P pr) \<and>
     (\<forall>h \<in> set (p_helds P pr). \<exists>p. nv h = Some (pr, pool_addr P, p) \<and> in_range P pr p))"

definition ports_ok ::
  "(nat \<Rightarrow> pool option) \<Rightarrow> (tid \<Rightarrow> tun_ports option) \<Rightarrow> (nid \<Rightarrow> nat_port option) \<Rightarrow> bool" where
  "ports_ok pv tv nv \<longleftrightarrow>
     (\<forall>i P. pv i = Some P \<longrightarrow> pool_ok P \<and> helds_ok nv P) \<and>
     (\<forall>i j P Q. pv i = Some P \<and> pv j = Some Q \<and> pool_addr P = pool_addr Q \<longrightarrow> i = j) \<and>
     (\<forall>t x. tv t = Some x \<longrightarrow> bucket_ok pv x) \<and>
     (\<forall>n pr a p. nv n = Some (pr, a, p) \<longrightarrow> (\<exists>i P. pv i = Some P \<and> a = pool_addr P)) \<and>
     (\<forall>i P pr p o1 o2. pv i = Some P \<and> in_range P pr p \<and> holds_port i P tv nv pr p o1 \<and>
        holds_port i P tv nv pr p o2 \<longrightarrow> o1 = o2)"

definition pool_at :: "aftr \<Rightarrow> nat \<Rightarrow> pool option" where
  "pool_at s i = (if i < length (pools s) then pools s ! i else None)"

definition port_inv :: "aftr \<Rightarrow> bool" where
  "port_inv s \<longleftrightarrow> ports_ok (pool_at s) (tun_ports s) (nat_port s)"

lemma ports_okI:
  assumes "\<And>i P. pv i = Some P \<Longrightarrow> pool_ok P" "\<And>i P. pv i = Some P \<Longrightarrow> helds_ok nv P"
    and "\<And>i j P Q. pv i = Some P \<Longrightarrow> pv j = Some Q \<Longrightarrow> pool_addr P = pool_addr Q \<Longrightarrow> i = j"
    and "\<And>t x. tv t = Some x \<Longrightarrow> bucket_ok pv x"
    and "\<And>n pr a p. nv n = Some (pr, a, p) \<Longrightarrow> \<exists>i P. pv i = Some P \<and> a = pool_addr P"
    and "\<And>i P pr p o1 o2. pv i = Some P \<Longrightarrow> in_range P pr p \<Longrightarrow>
      holds_port i P tv nv pr p o1 \<Longrightarrow> holds_port i P tv nv pr p o2 \<Longrightarrow> o1 = o2"
  shows "ports_ok pv tv nv"
  unfolding ports_ok_def using assms by blast

lemma ports_okD:
  assumes "ports_ok pv tv nv"
  shows "pv i = Some P \<Longrightarrow> pool_ok P" "pv i = Some P \<Longrightarrow> helds_ok nv P"
    and "pv i = Some P \<Longrightarrow> pv j = Some Q \<Longrightarrow> pool_addr P = pool_addr Q \<Longrightarrow> i = j"
    and "tv t = Some x \<Longrightarrow> bucket_ok pv x"
    and "nv n = Some (pr, a, p) \<Longrightarrow> \<exists>i P. pv i = Some P \<and> a = pool_addr P"
    and "pv i = Some P \<Longrightarrow> in_range P pr p \<Longrightarrow> holds_port i P tv nv pr p o1 \<Longrightarrow>
      holds_port i P tv nv pr p o2 \<Longrightarrow> o1 = o2"
  using assms unfolding ports_ok_def by blast+

lemma bucket_ok_update:
  assumes "bucket_ok pv x" "pv i = Some P" "p_minport P' = p_minport P" "p_maxport P' = p_maxport P"
  shows "bucket_ok (pv(i \<mapsto> P')) x"
  using assms by (auto simp: bucket_ok_def in_range_def split: prod.splits)

lemma bm_index:
  "pool_ok P \<Longrightarrow> in_range P pr p \<Longrightarrow> p_freebm P pr = Some bm \<Longrightarrow>
   (p - unat (p_minport P pr)) div 8 < length bm"
  unfolding pool_ok_def in_range_def
  by (metis diff_le_mono div_le_mono less_Suc_eq_le option.inject Suc_eq_plus1)

lemma pool_ok_freebm:
  assumes "pool_ok P" "p_freebm P pr = Some bm" "length bm' = length bm"
  shows "pool_ok (P\<lparr>p_freebm := (p_freebm P)(pr := Some bm')\<rparr>)"
proof -
  have "length bm' = (unat (p_maxport P pr) - unat (p_minport P pr)) div 8 + 1"
    using assms unfolding pool_ok_def by (metis option.inject)
  then show ?thesis using assms(1) by (simp add: pool_ok_def)
qed

text \<open>Replacing a pool by one with the same address and ranges.\<close>

lemma ports_replace:
  assumes ok: "ports_ok pv tv nv" and P: "pv i = Some P"
    and addr: "pool_addr P' = pool_addr P"
    and range: "p_minport P' = p_minport P" "p_maxport P' = p_maxport P"
    and P': "pool_ok P'" "helds_ok nv' P'"
    and helds: "\<And>j Q. j \<noteq> i \<Longrightarrow> pv j = Some Q \<Longrightarrow> helds_ok nv' Q"
    and bk: "\<And>t x. tv' t = Some x \<Longrightarrow> bucket_ok pv x"
    and nv: "\<And>n pr a p. nv' n = Some (pr, a, p) \<Longrightarrow> \<exists>i P. pv i = Some P \<and> a = pool_addr P"
    and own: "\<And>j Q pr p o1 o2. pv j = Some Q \<Longrightarrow> in_range Q pr p \<Longrightarrow>
      holds_port j (if j = i then P' else Q) tv' nv' pr p o1 \<Longrightarrow>
      holds_port j (if j = i then P' else Q) tv' nv' pr p o2 \<Longrightarrow> o1 = o2"
  shows "ports_ok (pv(i \<mapsto> P')) tv' nv'"
proof (rule ports_okI)
  fix j Q assume "(pv(i \<mapsto> P')) j = Some Q"
  then show "pool_ok Q" "helds_ok nv' Q"
    using ports_okD(1) [OF ok, of j Q] helds [of j Q] P' by (auto split: if_splits)
next
  fix j j' Q Q'
  assume "(pv(i \<mapsto> P')) j = Some Q" "(pv(i \<mapsto> P')) j' = Some Q'" "pool_addr Q = pool_addr Q'"
  moreover have "\<exists>R. pv k = Some R \<and> pool_addr R = pool_addr S" if "(pv(i \<mapsto> P')) k = Some S" for k S
    using that P addr by (cases "k = i") auto
  ultimately show "j = j'" using ports_okD(3) [OF ok] by (metis (no_types))
next
  fix t x assume "tv' t = Some x"
  from bucket_ok_update [OF bk [OF this] P range] show "bucket_ok (pv(i \<mapsto> P')) x" .
next
  fix n pr a p assume "nv' n = Some (pr, a, p)"
  from nv [OF this] show "\<exists>j Q. (pv(i \<mapsto> P')) j = Some Q \<and> a = pool_addr Q"
    using P addr by (metis fun_upd_apply option.inject)
next
  fix j Q pr p o1 o2
  assume Q: "(pv(i \<mapsto> P')) j = Some Q" and p: "in_range Q pr p"
    and o: "holds_port j Q tv' nv' pr p o1" "holds_port j Q tv' nv' pr p o2"
  show "o1 = o2"
  proof (cases "j = i")
    case True
    then have "Q = P'" using Q by simp
    with True p o range own [OF P, of pr p o1 o2] show ?thesis by (simp add: in_range_def)
  next
    case False
    with Q p o own [of j Q pr p o1 o2] show ?thesis by simp
  qed
qed

text \<open>A free port goes to the end of a bucket.\<close>

lemma ports_draw:
  fixes av :: "prclass \<Rightarrow> u8"
  assumes ok: "ports_ok pv tv nv" and P: "pv i = Some P" and t: "tv t = Some (i, av, bk)"
    and b: "bk pr = Some b" "unat (av pr) < length b" and av: "unat (av pr) < 255"
    and q: "port_free P pr (unat q)" and bm: "p_freebm P pr = Some bm"
  shows "ports_ok
    (pv(i \<mapsto> P\<lparr>p_freebm := (p_freebm P)(pr := Some (bm_clear bm (unat q - unat (p_minport P pr))))\<rparr>))
    (tv(t \<mapsto> (i, av(pr := av pr + 1), bk(pr \<mapsto> b[unat (av pr) := q])))) nv"
    (is "ports_ok (pv(i \<mapsto> ?P)) ?tv nv")
proof -
  let ?k = "unat (av pr)"
  have av1: "unat (av pr + 1) = ?k + 1" using av by (simp add: unat_word_ariths)
  have rq: "in_range P pr (unat q)" using q bm by (simp add: port_free_def)
  note ix = bm_index [OF ports_okD(1) [OF ok P] rq bm]
  have only: "o' = PortFree" if "holds_port i P tv nv pr (unat q) o'" for o'
    using ports_okD(6) [OF ok P rq that, of PortFree] q by simp
  have new: "holds_port j (if j = i then ?P else Q) ?tv nv pr' p o' \<longleftrightarrow>
      (if j = i \<and> pr' = pr \<and> p = unat q then o' = InBucket t ?k else holds_port j Q tv nv pr' p o')"
    if Q: "pv j = Some Q" and p: "in_range Q pr' p" for j Q pr' p o'
  proof (cases o')
    case PortFree
    then show ?thesis using Q P p bm rq ix
      by (auto simp: port_free_def bm_get_clear in_range_def split: option.splits)
  next
    case (InBucket t' k')
    then show ?thesis using Q P only [of "InBucket t' k'"] t b av1
      by (cases "t' = t") (auto simp: nth_list_update split: option.splits)
  next
    case (InEntry n)
    then show ?thesis using Q P only [of "InEntry n"] by (auto simp: pool_addr_def)
  qed
  show ?thesis
  proof (rule ports_replace [OF ok P])
    show "pool_ok ?P" by (rule pool_ok_freebm [OF ports_okD(1) [OF ok P] bm]) simp
    show "helds_ok nv ?P" using ports_okD(2) [OF ok P] by (simp add: helds_ok_def in_range_def pool_addr_def)
  next
    fix t' x assume x: "?tv t' = Some x"
    show "bucket_ok pv x"
    proof (cases "t' = t")
      case True
      have bo: "bucket_ok pv (i, av, bk)" using ports_okD(4) [OF ok t] .
      have "in_range P pr (unat (b ! k))" if "k < ?k" for k
      proof -
        have "av pr \<noteq> 0" using that by auto
        then show ?thesis using bo P b that by (auto simp: bucket_ok_def)
      qed
      then show ?thesis using bo x True P b av1 rq by (auto simp: bucket_ok_def nth_list_update less_Suc_eq)
    qed (use x ports_okD(4) [OF ok] in auto)
  next
    fix j Q pr' p o1 o2
    assume Q: "pv j = Some Q" and p: "in_range Q pr' p"
      and "holds_port j (if j = i then ?P else Q) ?tv nv pr' p o1"
        "holds_port j (if j = i then ?P else Q) ?tv nv pr' p o2"
    then show "o1 = o2" unfolding new [OF Q p]
      using ports_okD(6) [OF ok Q p] by (auto split: if_splits)
  qed (use ports_okD [OF ok] in \<open>auto simp: pool_addr_def\<close>)
qed

lemma pool_upd_simps [simp]:
  "in_range (P\<lparr>p_helds := h\<rparr>) = in_range P" "in_range (P\<lparr>p_freebm := f\<rparr>) = in_range P"
  "in_range (P\<lparr>p_natcnt := c\<rparr>) = in_range P" "pool_addr (P\<lparr>p_helds := h\<rparr>) = pool_addr P"
  "pool_addr (P\<lparr>p_freebm := f\<rparr>) = pool_addr P" "pool_addr (P\<lparr>p_natcnt := c\<rparr>) = pool_addr P"
  by (simp_all add: in_range_def pool_addr_def fun_eq_iff)

text \<open>A port goes from the end of a bucket to a new entry.\<close>

lemma ports_take:
  fixes av :: "prclass \<Rightarrow> u8"
  assumes ok: "ports_ok pv tv nv" and P: "pv i = Some P" and t: "tv t = Some (i, av, bk)"
    and b: "bk pr = Some b" and av: "av pr \<noteq> 0" and n: "nv n = None"
  shows "ports_ok pv (tv(t \<mapsto> (i, av(pr := av pr - 1), bk)))
    (nv(n \<mapsto> (pr, pool_addr P, unat (b ! unat (av pr - 1)))))"
    (is "ports_ok pv ?tv ?nv")
proof -
  let ?k = "unat (av pr - 1)" and ?q = "unat (b ! unat (av pr - 1))"
  have av1: "unat (av pr) = ?k + 1" using av by (simp add: unat_minus_one unat_gt_0)
  have bo: "bucket_ok pv (i, av, bk)" using ports_okD(4) [OF ok t] .
  have bl: "?k + 1 \<le> length b" "\<And>k. k < ?k + 1 \<Longrightarrow> in_range P pr (unat (b ! k))"
    using bo P b av av1 by (auto simp: bucket_ok_def)
  have rq: "in_range P pr ?q" by (rule bl(2)) simp
  have old: "holds_port i P tv nv pr ?q (InBucket t ?k)" using t b av1 by simp
  note only = ports_okD(6) [OF ok P rq _ old]
  have new: "holds_port j Q ?tv ?nv pr' p o' \<longleftrightarrow>
      (if j = i \<and> pr' = pr \<and> p = ?q then o' = InEntry n else holds_port j Q tv nv pr' p o')"
    if Q: "pv j = Some Q" for j Q pr' p o'
  proof (cases o')
    case PortFree
    then show ?thesis using Q P only [of PortFree] by auto
  next
    case (InBucket t' k')
    then show ?thesis using Q P only [of "InBucket t' k'"] t b av1
      by (cases "t' = t") (auto split: option.splits simp: less_Suc_eq)
  next
    case (InEntry m)
    then show ?thesis
      using Q P only [of "InEntry m"] n ports_okD(3) [OF ok P Q] by auto
  qed
  have "ports_ok (pv(i \<mapsto> P)) ?tv ?nv"
  proof (rule ports_replace [OF ok P])
    have keep: "helds_ok ?nv Q" if "pv j = Some Q" for j Q
      using ports_okD(2) [OF ok that] n unfolding helds_ok_def by (metis fun_upd_apply option.distinct(1))
    show "helds_ok ?nv P" by (rule keep [OF P])
    show "\<And>j Q. j \<noteq> i \<Longrightarrow> pv j = Some Q \<Longrightarrow> helds_ok ?nv Q" by (rule keep)
  next
    fix t' x assume x: "?tv t' = Some x"
    show "bucket_ok pv x"
    proof (cases "t' = t")
      case True
      then show ?thesis using bo x P b bl by (auto simp: bucket_ok_def)
    qed (use x ports_okD(4) [OF ok] in auto)
  next
    fix m pr' a p assume "?nv m = Some (pr', a, p)"
    then show "\<exists>j Q. pv j = Some Q \<and> a = pool_addr Q"
      using ports_okD(5) [OF ok, of m] P by (auto split: if_splits)
  next
    fix j Q pr' p o1 o2
    assume Q: "pv j = Some Q" and p: "in_range Q pr' p"
      and "holds_port j (if j = i then P else Q) ?tv ?nv pr' p o1"
        "holds_port j (if j = i then P else Q) ?tv ?nv pr' p o2"
    then have "holds_port j Q ?tv ?nv pr' p o1" "holds_port j Q ?tv ?nv pr' p o2"
      using P Q by (auto split: if_splits)
    then show "o1 = o2" unfolding new [OF Q]
      using ports_okD(6) [OF ok Q p] by (auto split: if_splits)
  qed (use ports_okD(1) [OF ok P] in auto)
  then show ?thesis using P by (simp add: fun_upd_idem)
qed

text \<open>An entry goes on hold.\<close>

lemma ports_hold:
  assumes ok: "ports_ok pv tv nv" and P: "pv i = Some P" and n: "nv n = Some (pr, pool_addr P, p)"
    and p: "in_range P pr p" and new: "n \<notin> set (p_helds P pr)"
  shows "ports_ok (pv(i \<mapsto> P\<lparr>p_helds := (p_helds P)(pr := p_helds P pr @ [n])\<rparr>)) tv nv"
    (is "ports_ok (pv(i \<mapsto> ?P)) tv nv")
proof (rule ports_replace [OF ok P])
  show "pool_ok ?P" using ports_okD(1) [OF ok P] by (simp add: pool_ok_def)
  show "helds_ok nv ?P" using ports_okD(2) [OF ok P] n p new
    by (auto simp: helds_ok_def)
next
  fix j Q pr' q o1 o2
  assume Q: "pv j = Some Q" and q: "in_range Q pr' q"
    and o: "holds_port j (if j = i then ?P else Q) tv nv pr' q o1"
      "holds_port j (if j = i then ?P else Q) tv nv pr' q o2"
  have "holds_port j (if j = i then ?P else Q) tv nv pr' q x = holds_port j Q tv nv pr' q x" for x
    using P Q by (cases x) (auto simp: port_free_def split: option.splits)
  with o show "o1 = o2" using ports_okD(6) [OF ok Q q] by simp
qed (use ports_okD [OF ok] in \<open>auto simp: pool_addr_def\<close>)

text \<open>An entry that is not on hold goes away.\<close>

lemma ports_forget:
  assumes ok: "ports_ok pv tv nv" and n: "\<And>i P pr. pv i = Some P \<Longrightarrow> n \<notin> set (p_helds P pr)"
  shows "ports_ok pv tv (nv(n := None))"
proof (rule ports_okI)
  fix i P assume "pv i = Some P"
  then show "helds_ok (nv(n := None)) P"
    using ports_okD(2) [OF ok] n unfolding helds_ok_def by (metis fun_upd_apply)
next
  fix i P pr p o1 o2
  assume P: "pv i = Some P" and p: "in_range P pr p" "holds_port i P tv (nv(n := None)) pr p o1"
    "holds_port i P tv (nv(n := None)) pr p o2"
  have "holds_port i P tv (nv(n := None)) pr p x \<Longrightarrow> holds_port i P tv nv pr p x" for x
    by (cases x) (auto split: if_splits)
  with p show "o1 = o2" using ports_okD(6) [OF ok P p(1)] by blast
qed (use ports_okD [OF ok] in \<open>auto split: if_splits\<close>)

text \<open>The oldest entry on hold gives its port back.\<close>

lemma ports_release:
  assumes ok: "ports_ok pv tv nv" and P: "pv i = Some P" and h: "p_helds P pr = h # hs"
    and nv: "nv h = Some (pr, pool_addr P, q)" and bm: "p_freebm P pr = Some bm"
  shows "ports_ok (pv(i \<mapsto> P\<lparr>p_helds := (p_helds P)(pr := hs),
      p_freebm := (p_freebm P)(pr := Some (bm_set bm (q - unat (p_minport P pr))))\<rparr>)) tv (nv(h := None))"
    (is "ports_ok (pv(i \<mapsto> ?P)) tv ?nv")
proof -
  have pok: "pool_ok P" and hok: "helds_ok nv P" using ports_okD(1,2) [OF ok P] .
  have rq: "in_range P pr q" and dist: "distinct (h # hs)"
    using hok h nv by (auto simp: helds_ok_def dest: spec [of _ pr])
  note ix = bm_index [OF pok rq bm]
  have old: "holds_port i P tv nv pr q (InEntry h)" using nv by simp
  note only = ports_okD(6) [OF ok P rq _ old]
  have new: "holds_port j (if j = i then ?P else Q) tv ?nv pr' p x \<longleftrightarrow>
      (if j = i \<and> pr' = pr \<and> p = q then x = PortFree else holds_port j Q tv nv pr' p x)"
    if Q: "pv j = Some Q" and p: "in_range Q pr' p" for j Q pr' p x
  proof (cases x)
    case PortFree
    have "p - unat (p_minport P pr) = q - unat (p_minport P pr) \<longleftrightarrow> p = q" if "in_range P pr p" for p
      using that rq by (auto simp: in_range_def)
    then show ?thesis using PortFree Q P p bm rq ix
      by (auto simp: port_free_def bm_get_set split: option.splits)
  next
    case (InBucket t' k')
    then show ?thesis using Q P only [of "InBucket t' k'"] by (auto split: option.splits)
  next
    case (InEntry m)
    have addr: "pool_addr (if j = i then ?P else Q) = pool_addr Q" using Q P by (cases "j = i") simp_all
    have "holds_port j (if j = i then ?P else Q) tv ?nv pr' p x \<longleftrightarrow> m \<noteq> h \<and> holds_port j Q tv nv pr' p x"
      unfolding InEntry holds_port.simps addr by simp
    moreover have "m = h" if "j = i" "pr' = pr" "p = q" "holds_port j Q tv nv pr' p x"
      using only [of x] that Q P InEntry by simp
    moreover have "j = i \<and> pr' = pr \<and> p = q" if "m = h" "holds_port j Q tv nv pr' p x"
    proof -
      have "(pr', pool_addr Q, p) = (pr, pool_addr P, q)" using that nv unfolding InEntry by simp
      then show ?thesis using ports_okD(3) [OF ok Q P] by blast
    qed
    moreover have "x \<noteq> PortFree" using InEntry by simp
    ultimately show ?thesis unfolding if_bool_eq_conj by blast
  qed
  have other: "h \<notin> set (p_helds Q pr')" if Q: "pv j = Some Q" and ne: "j \<noteq> i \<or> pr' \<noteq> pr" for j Q pr'
  proof
    assume "h \<in> set (p_helds Q pr')"
    then have "nv h = Some (pr', pool_addr Q, q)"
      using ports_okD(2) [OF ok Q] nv unfolding helds_ok_def by fastforce
    then show False using nv ports_okD(3) [OF ok P Q] ne by auto
  qed
  show ?thesis
  proof (rule ports_replace [OF ok P])
    show "pool_ok ?P" using pool_ok_freebm [OF pok bm, of "bm_set bm (q - unat (p_minport P pr))"]
      by (simp add: pool_ok_def)
    show "helds_ok ?nv ?P" using hok h dist other [OF P] by (auto simp: helds_ok_def)
    show "helds_ok ?nv Q" if "j \<noteq> i" "pv j = Some Q" for j Q
      using ports_okD(2) [OF ok that(2)] other [OF that(2)] that(1) unfolding helds_ok_def
      by (metis fun_upd_apply)
  next
    fix n pr' a p assume "?nv n = Some (pr', a, p)"
    then show "\<exists>j Q. pv j = Some Q \<and> a = pool_addr Q"
      using ports_okD(5) [OF ok, of n] by (auto split: if_splits)
  next
    fix j Q pr' p o1 o2
    assume Q: "pv j = Some Q" and p: "in_range Q pr' p"
      and "holds_port j (if j = i then ?P else Q) tv ?nv pr' p o1"
        "holds_port j (if j = i then ?P else Q) tv ?nv pr' p o2"
    then show "o1 = o2" unfolding new [OF Q p]
      using ports_okD(6) [OF ok Q p] by (auto split: if_splits)
  qed (use ports_okD(4) [OF ok] in \<open>auto simp: pool_addr_def\<close>)
qed

text \<open>A new pool; a new tunnel; a counter.\<close>

lemma ports_new_pool:
  assumes ok: "ports_ok pv tv nv" and i: "pv i = None" and P: "pool_ok P" "p_helds P = (\<lambda>pr. [])"
    and new: "\<And>j Q. pv j = Some Q \<Longrightarrow> pool_addr Q \<noteq> pool_addr P"
  shows "ports_ok (pv(i \<mapsto> P)) tv nv"
proof (rule ports_okI)
  fix t x assume "tv t = Some x"
  then show "bucket_ok (pv(i \<mapsto> P)) x" using ports_okD(4) [OF ok] i
    by (fastforce simp: bucket_ok_def)
next
  fix n pr a p assume "nv n = Some (pr, a, p)"
  from ports_okD(5) [OF ok this] show "\<exists>j Q. (pv(i \<mapsto> P)) j = Some Q \<and> a = pool_addr Q"
    using i by (metis fun_upd_apply option.distinct(1))
next
  fix j Q pr p o1 o2
  assume Q: "(pv(i \<mapsto> P)) j = Some Q" and p: "in_range Q pr p"
    and o: "holds_port j Q tv nv pr p o1" "holds_port j Q tv nv pr p o2"
  show "o1 = o2"
  proof (cases "j = i")
    case True
    have "x = PortFree" if "holds_port i P tv nv pr p x" for x
    proof (cases x)
      case (InBucket t k)
      then show ?thesis using that ports_okD(4) [OF ok, of t] i
        by (auto simp: bucket_ok_def split: option.splits)
    next
      case (InEntry n)
      then show ?thesis using that ports_okD(5) [OF ok, of n] new by fastforce
    qed simp
    with o Q True show ?thesis by auto
  qed (use Q p o ports_okD(6) [OF ok] in auto)
next
  fix j k Q R
  assume "(pv(i \<mapsto> P)) j = Some Q" "(pv(i \<mapsto> P)) k = Some R" "pool_addr Q = pool_addr R"
  then show "j = k" using ports_okD(3) [OF ok, of j Q k R] new [of j Q] new [of k R]
    by (auto split: if_splits)
next
  fix j Q assume Q: "(pv(i \<mapsto> P)) j = Some Q"
  show "pool_ok Q" using Q P ports_okD(1) [OF ok, of j Q] by (auto split: if_splits)
  show "helds_ok nv Q" using Q P ports_okD(2) [OF ok, of j Q] by (auto simp: helds_ok_def split: if_splits)
qed

lemma ports_new_tunnel:
  assumes ok: "ports_ok pv tv nv" and P: "pv i = Some P" and t: "tv t = None" and av: "av = (\<lambda>pr. 0)"
  shows "ports_ok pv (tv(t \<mapsto> (i, av, bk))) nv"
proof (rule ports_okI)
  fix j Q pr p o1 o2
  assume Q: "pv j = Some Q" and p: "in_range Q pr p"
    and o: "holds_port j Q (tv(t \<mapsto> (i, av, bk))) nv pr p o1" "holds_port j Q (tv(t \<mapsto> (i, av, bk))) nv pr p o2"
  have "holds_port j Q (tv(t \<mapsto> (i, av, bk))) nv pr p x \<Longrightarrow> holds_port j Q tv nv pr p x" for x
    using av t by (cases x) (auto split: if_splits option.splits)
  with o show "o1 = o2" using ports_okD(6) [OF ok Q p] by blast
qed (use ports_okD [OF ok] P av in \<open>auto simp: bucket_ok_def split: if_splits\<close>)

lemma ports_natcnt:
  assumes ok: "ports_ok pv tv nv" and P: "pv i = Some P"
  shows "ports_ok (pv(i \<mapsto> P\<lparr>p_natcnt := c\<rparr>)) tv nv" (is "ports_ok (pv(i \<mapsto> ?P)) tv nv")
proof (rule ports_replace [OF ok P])
  show "pool_ok ?P" using ports_okD(1) [OF ok P] by (simp add: pool_ok_def)
  show "helds_ok nv ?P" using ports_okD(2) [OF ok P] by (simp add: helds_ok_def)
next
  fix j Q pr' q o1 o2
  assume Q: "pv j = Some Q" and q: "in_range Q pr' q"
    and o: "holds_port j (if j = i then ?P else Q) tv nv pr' q o1"
      "holds_port j (if j = i then ?P else Q) tv nv pr' q o2"
  have "holds_port j (if j = i then ?P else Q) tv nv pr' q x = holds_port j Q tv nv pr' q x" for x
    using P Q by (cases x) (auto simp: port_free_def split: option.splits)
  with o show "o1 = o2" using ports_okD(6) [OF ok Q q] by simp
qed (use ports_okD [OF ok] in \<open>auto simp: pool_addr_def\<close>)

lemma ports_rebucket:
  assumes ok: "ports_ok pv tv nv" and t: "tv t = Some (i, av, bk)" and av: "av pr = 0"
  shows "ports_ok pv (tv(t \<mapsto> (i, av(pr := 0), bk(pr := x)))) nv"
proof (rule ports_okI)
  fix t' y assume "(tv(t \<mapsto> (i, av(pr := 0), bk(pr := x)))) t' = Some y"
  moreover have "bucket_ok pv (i, av, bk)" by (rule ports_okD(4) [OF ok t])
  ultimately show "bucket_ok pv y" using ports_okD(4) [OF ok, of t' y]
    by (auto simp: bucket_ok_def split: if_splits)
next
  fix j Q pr' p o1 o2
  assume Q: "pv j = Some Q" and p: "in_range Q pr' p"
    and o: "holds_port j Q (tv(t \<mapsto> (i, av(pr := 0), bk(pr := x)))) nv pr' p o1"
      "holds_port j Q (tv(t \<mapsto> (i, av(pr := 0), bk(pr := x)))) nv pr' p o2"
  have "holds_port j Q (tv(t \<mapsto> (i, av(pr := 0), bk(pr := x)))) nv pr' p y \<Longrightarrow> holds_port j Q tv nv pr' p y" for y
    using av t by (cases y) (auto split: if_splits option.splits)
  with o show "o1 = o2" using ports_okD(6) [OF ok Q p] by blast
qed (use ports_okD [OF ok] in auto)

section \<open>Filling a bucket\<close>

lemma fill_try_spec:
  assumes "fill_try n mi ma bm rs = Some (r, bm', rs')" "mi \<le> ma"
  shows "(case r of None \<Rightarrow> bm' = bm
     | Some port \<Rightarrow> mi \<le> port \<and> port \<le> ma \<and> bm_get bm (unat port - unat mi) \<and>
         bm' = bm_clear bm (unat port - unat mi))"
  using assms(1)
proof (induction n arbitrary: rs)
  case (Suc n)
  then obtain port rs1 where g: "arc4_getport mi ma rs = Some (port, rs1)"
    by (auto split: option.splits)
  have "mi \<le> port \<and> port \<le> ma" by (rule getport_range [OF assms(2) g])
  moreover from this have "unat (port - mi) = unat port - unat mi" by (simp add: unat_sub)
  ultimately show ?case using Suc.prems Suc.IH [of rs1] g
    by (auto simp: Let_def split: if_splits option.splits)
qed simp

lemma fill_slots_ok:
  assumes "fill_slots sz mi ma k b bm rs = Some (k', b', bm', rs')"
    and "ports_ok (pv(i \<mapsto> P\<lparr>p_freebm := (p_freebm P)(pr := Some bm)\<rparr>))
      (tv(t \<mapsto> (i, av(pr := word_of_nat k), bk(pr \<mapsto> b)))) nv"
    and "p_minport P pr = mi" "p_maxport P pr = ma" "length b = sz" "sz \<le> 255" "k \<le> sz"
  shows "ports_ok (pv(i \<mapsto> P\<lparr>p_freebm := (p_freebm P)(pr := Some bm')\<rparr>))
      (tv(t \<mapsto> (i, av(pr := word_of_nat k'), bk(pr \<mapsto> b')))) nv \<and> k \<le> k' \<and> k' \<le> sz \<and> length b' = sz"
  using assms
proof (induction sz mi ma k b bm rs rule: fill_slots.induct)
  case (1 sz mi ma k b bm rs)
  show ?case
  proof (cases "k < sz")
    case False
    then show ?thesis using 1(2-) by (subst (asm) fill_slots.simps) auto
  next
    case True
    let ?pv = "pv(i \<mapsto> P\<lparr>p_freebm := (p_freebm P)(pr := Some bm)\<rparr>)"
    let ?tv = "tv(t \<mapsto> (i, av(pr := word_of_nat k), bk(pr \<mapsto> b)))"
    have le: "mi \<le> ma" using ports_okD(1) [OF 1(3), of i] 1(4,5) by (auto simp: pool_ok_def)
    have fs: "fill_slots sz mi ma k b bm rs = (case fill_try 10 mi ma bm rs of
        None \<Rightarrow> None | Some (None, bm, rs) \<Rightarrow> Some (k, b, bm, rs)
      | Some (Some port, bm, rs) \<Rightarrow> fill_slots sz mi ma (k + 1) (b[k := port]) bm rs)"
      using True by (subst fill_slots.simps) simp
    obtain r bm1 rs1 where tr: "fill_try 10 mi ma bm rs = Some (r, bm1, rs1)"
      using 1(2) fs by (auto split: option.splits)
    note spec = fill_try_spec [OF tr le]
    show ?thesis
    proof (cases r)
      case None
      then show ?thesis using 1(2-) fs tr spec by auto
    next
      case (Some port)
      have k: "unat (word_of_nat k :: u8) = k" using True 1(7) by (simp add: unat_of_nat)
      let ?P = "P\<lparr>p_freebm := (p_freebm P)(pr := Some bm)\<rparr>" and ?av = "av(pr := word_of_nat k)"
        and ?bk = "bk(pr \<mapsto> b)"
      have "ports_ok (?pv(i \<mapsto> ?P\<lparr>p_freebm := (p_freebm ?P)(pr :=
            Some (bm_clear bm (unat port - unat (p_minport ?P pr))))\<rparr>))
          (?tv(t \<mapsto> (i, ?av(pr := ?av pr + 1), ?bk(pr \<mapsto> b[unat (?av pr) := port])))) nv"
        by (rule ports_draw [OF 1(3) fun_upd_same fun_upd_same])
          (use True 1(4-7) k spec Some in \<open>auto simp: port_free_def in_range_def word_le_nat_alt\<close>)
      moreover have "bm1 = bm_clear bm (unat port - unat (p_minport ?P pr))" using spec Some 1(4) by simp
      ultimately have "ports_ok (pv(i \<mapsto> P\<lparr>p_freebm := (p_freebm P)(pr := Some bm1)\<rparr>))
          (tv(t \<mapsto> (i, av(pr := word_of_nat (k + 1)), bk(pr \<mapsto> b[k := port])))) nv" using k by (simp add: add.commute)
      moreover have "fill_slots sz mi ma (k + 1) (b[k := port]) bm1 rs1 = Some (k', b', bm', rs')"
        using 1(2) fs tr Some by simp
      ultimately show ?thesis
        using 1(1) [OF True tr refl Some refl] 1(4-7) True by fastforce
    qed
  qed
qed

section \<open>The operations keep the invariant\<close>

lemma pool_at_poolof: "pool_at s i = Some P \<Longrightarrow> poolof s i = P"
  by (auto simp: pool_at_def poolof_def split: if_splits)

lemma pool_at_upd:
  "pool_at s i = Some P \<Longrightarrow> pool_at (upd_pool i f s) = (pool_at s)(i \<mapsto> f P)"
  by (auto simp: pool_at_def upd_pool_def fun_eq_iff nth_list_update split: if_splits)

lemma port_views_simps [simp]:
  "pool_at (upd_tunnel t g s) = pool_at s" "pool_at (upd_nat n h s) = pool_at s"
  "pool_at (s\<lparr>nats := m\<rparr>) = pool_at s" "pool_at (s\<lparr>arc4 := rs\<rparr>) = pool_at s"
  "tun_ports (upd_pool i f s) = tun_ports s" "tun_ports (upd_nat n h s) = tun_ports s"
  "tun_ports (s\<lparr>nats := m\<rparr>) = tun_ports s" "tun_ports (s\<lparr>arc4 := rs\<rparr>) = tun_ports s"
  "nat_port (upd_pool i f s) = nat_port s" "nat_port (upd_tunnel t g s) = nat_port s"
  "nat_port (s\<lparr>arc4 := rs\<rparr>) = nat_port s"
  by (simp_all add: pool_at_def tun_ports_def nat_port_def upd_pool_def upd_tunnel_def upd_nat_def fun_eq_iff)

lemma tun_ports_upd:
  "tunnels s t = Some T \<Longrightarrow>
   tun_ports (upd_tunnel t g s) = (tun_ports s)(t \<mapsto> (t_srcidx (g T), t_avail (g T), t_bucket (g T)))"
  by (auto simp: tun_ports_def upd_tunnel_def fun_eq_iff)

lemma nat_port_upd:
  "nats s n = Some e \<Longrightarrow>
   nat_port (upd_nat n h s) = (nat_port s)(n \<mapsto> (pr_of_proto (n_proto (h e)), sub (n_nsrc (h e)) 0 4, nport_of (h e)))"
  by (auto simp: nat_port_def upd_nat_def fun_eq_iff)

lemma nat_port_forget: "nat_port (s\<lparr>nats := (nats s)(n := None)\<rparr>) = (nat_port s)(n := None)"
  by (auto simp: nat_port_def fun_eq_iff)

lemma port_views_heap:
  assumes "only_heap s s'"
  shows "pool_at s' = pool_at s" "tun_ports s' = tun_ports s" "nat_port s' = nat_port s"
  using assms by (auto simp: only_heap_def pool_at_def tun_ports_def nat_port_def nport_of_def
    fun_eq_iff option.map_comp o_def)

lemma port_inv_tunnel:
  assumes "port_inv s" "tunnels s t = Some T"
  obtains P where "pool_at s (t_srcidx T) = Some P" "poolof s (t_srcidx T) = P"
    "tun_ports s t = Some (t_srcidx T, t_avail T, t_bucket T)"
proof -
  have tp: "tun_ports s t = Some (t_srcidx T, t_avail T, t_bucket T)"
    using assms(2) by (simp add: tun_ports_def)
  have "bucket_ok (pool_at s) (t_srcidx T, t_avail T, t_bucket T)"
    using ports_okD(4) [OF assms(1) [unfolded port_inv_def] tp] .
  then obtain P where P: "pool_at s (t_srcidx T) = Some P" by (auto simp: bucket_ok_def)
  show ?thesis by (rule that [OF P pool_at_poolof [OF P] tp])
qed

lemma fill_bucket_inv:
  assumes inv: "port_inv s" and T: "tunnels s t = Some T" "t_avail T (pr_of_proto proto) = 0"
    and f: "fill_bucket cfg True t proto s = Some s'"
  shows "port_inv s' \<and> nats s' = nats s \<and>
    (\<exists>T'. tunnels s' t = Some T' \<and> t_srcidx T' = t_srcidx T \<and>
      (t_avail T' (pr_of_proto proto) = 0 \<and> bucksize cfg (pr_of_proto proto) \<noteq> 0 \<longrightarrow>
         t_bucket T' (pr_of_proto proto) = None)) \<and> (\<exists>P'. pool_at s' (t_srcidx T) = Some P' \<and> pool_addr P' = pool_addr (poolof s (t_srcidx T)) \<and>
      in_range P' = in_range (poolof s (t_srcidx T)))"
proof -
  let ?pr = "pr_of_proto proto" and ?i = "t_srcidx T" and ?sz = "unat (bucksize cfg (pr_of_proto proto))"
  obtain P where P: "pool_at s ?i = Some P" "poolof s ?i = P" and tp: "tun_ports s t = Some (?i, t_avail T, t_bucket T)"
    using port_inv_tunnel [OF inv T(1)] .
  note ok = inv [unfolded port_inv_def]
  obtain bm where bm: "p_freebm P ?pr = Some bm" using ports_okD(1) [OF ok P(1)] by (auto simp: pool_ok_def)
  have tu: "tunof s t = T" by (simp add: tunof_def T)
  obtain k b bm' rs where fs: "fill_slots ?sz (p_minport P ?pr) (p_maxport P ?pr) 0 (replicate ?sz 0) bm (arc4 s) = Some (k, b, bm', rs)"
    and s': "s' = upd_pool ?i (\<lambda>ns. ns\<lparr>p_freebm := (p_freebm ns)(?pr := Some bm')\<rparr>)
       (upd_tunnel t (\<lambda>t. t\<lparr>t_bucket := (t_bucket t)(?pr := if k = 0 \<and> ?sz > 0 then None else Some b),
          t_avail := (t_avail t)(?pr := word_of_nat k)\<rparr>) (s\<lparr>arc4 := rs\<rparr>))"
    using f P bm by (auto simp: fill_bucket_def Let_def tu split: option.splits)
  have z: "(p_freebm P)(?pr := Some bm) = p_freebm P" using bm by (simp add: fun_upd_idem)
  have start: "ports_ok ((pool_at s)(?i \<mapsto> P\<lparr>p_freebm := (p_freebm P)(?pr := Some bm)\<rparr>))
      ((tun_ports s)(t \<mapsto> (?i, (t_avail T)(?pr := word_of_nat 0), (t_bucket T)(?pr \<mapsto> replicate ?sz 0)))) (nat_port s)"
    using ports_rebucket [OF ok tp, of ?pr "Some (replicate ?sz 0)"] T(2) P(1)
    unfolding z by (simp add: fun_upd_idem)
  have sz: "?sz \<le> 255" using unat_u8_less [of "bucksize cfg ?pr"] by simp
  have fin: "ports_ok ((pool_at s)(?i \<mapsto> P\<lparr>p_freebm := (p_freebm P)(?pr := Some bm')\<rparr>))
      ((tun_ports s)(t \<mapsto> (?i, (t_avail T)(?pr := word_of_nat k), (t_bucket T)(?pr \<mapsto> b)))) (nat_port s) \<and> 0 \<le> k \<and> k \<le> ?sz \<and> length b = ?sz"
    by (rule fill_slots_ok [OF fs start]) (use sz in auto)
  have fin': "ports_ok ((pool_at s)(?i \<mapsto> P\<lparr>p_freebm := (p_freebm P)(?pr := Some bm')\<rparr>))
      ((tun_ports s)(t \<mapsto> (?i, (t_avail T)(?pr := word_of_nat k),
         (t_bucket T)(?pr := if k = 0 \<and> ?sz > 0 then None else Some b)))) (nat_port s)"
  proof (cases "k = 0 \<and> ?sz > 0")
    case True
    let ?av = "(t_avail T)(?pr := word_of_nat k)" and ?bk = "(t_bucket T)(?pr \<mapsto> b)"
    have "ports_ok ((pool_at s)(?i \<mapsto> P\<lparr>p_freebm := (p_freebm P)(?pr := Some bm')\<rparr>))
      ((tun_ports s)(t \<mapsto> (?i, ?av, ?bk), t \<mapsto> (?i, ?av(?pr := 0), ?bk(?pr := None)))) (nat_port s)"
      by (rule ports_rebucket [OF conjunct1 [OF fin]]) (use True in simp_all)
    then show ?thesis using True by simp
  next
    case False
    then show ?thesis using fin by (simp only: if_False)
  qed
  have "tunnels (s\<lparr>arc4 := rs\<rparr>) t = Some T" using T by simp
  then have tp': "tun_ports s' = (tun_ports s)(t \<mapsto> (?i, (t_avail T)(?pr := word_of_nat k),
         (t_bucket T)(?pr := if k = 0 \<and> ?sz > 0 then None else Some b)))"
    unfolding s' by (simp add: tun_ports_upd)
  have pa: "pool_at s' = (pool_at s)(?i \<mapsto> P\<lparr>p_freebm := (p_freebm P)(?pr := Some bm')\<rparr>)"
    unfolding s' using P by (subst pool_at_upd [of _ _ P]) auto
  have np: "nat_port s' = nat_port s" by (simp add: s')
  have "port_inv s'" unfolding port_inv_def tp' pa np by (rule fin')
  moreover have "nats s' = nats s" by (simp add: s' upd_pool_def upd_tunnel_def)
  moreover have "k = 0 \<or> (word_of_nat k :: u8) \<noteq> 0"
    using fin sz by (auto dest: arg_cong [where f = unat] simp: unat_of_nat)
  then have "\<exists>T'. tunnels s' t = Some T' \<and> t_srcidx T' = t_srcidx T \<and>
      (t_avail T' ?pr = 0 \<and> bucksize cfg ?pr \<noteq> 0 \<longrightarrow> t_bucket T' ?pr = None)"
    using T by (auto simp: s' upd_pool_def upd_tunnel_def unat_gt_0)
  moreover have "\<exists>P'. pool_at s' ?i = Some P' \<and> pool_addr P' = pool_addr (poolof s ?i) \<and>
      in_range P' = in_range (poolof s ?i)"
    unfolding pa using P by simp
  ultimately show ?thesis by blast
qed

lemma put_views [simp]:
  "pool_at (put_tree pr x s) = pool_at s" "tun_ports (put_tree pr x s) = tun_ports s"
  "nat_port (put_tree pr x s) = nat_port s" "pool_at (put_root t pr r s) = pool_at s"
  "tun_ports (put_root t pr r s) = tun_ports s" "nat_port (put_root t pr r s) = nat_port s"
  "pool_at (count_new n s) = pool_at s" "tun_ports (count_new n s) = tun_ports s"
  "nat_port (count_new n s) = nat_port s" "pool_at (count_del n s) = pool_at s"
  "tun_ports (count_del n s) = tun_ports s" "nat_port (count_del n s) = nat_port s"
  by (auto simp: put_tree_def put_root_def count_new_def count_del_def Let_def pool_at_def tun_ports_def
      nat_port_def upd_tunnel_def fun_eq_iff option.map_comp o_def)

lemma hold_views:
  assumes "pool_at s i = Some P" "nats s n = Some e"
  shows "pool_at (hold_nat cfg i pr n s) = (pool_at s)(i \<mapsto> P\<lparr>p_helds := (p_helds P)(pr := p_helds P pr @ [n])\<rparr>)"
    "tun_ports (hold_nat cfg i pr n s) = tun_ports s" "nat_port (hold_nat cfg i pr n s) = nat_port s"
  using assms unfolding hold_nat_def
  by (simp_all add: pool_at_upd nat_port_upd [where e = e])
    (auto simp: nat_port_def nport_of_def fun_eq_iff)

lemma hold_inv:
  assumes inv: "port_inv s" and P: "pool_at s i = Some P" and n: "nat_port s n = Some (pr, pool_addr P, p)"
    and p: "in_range P pr p" and new: "n \<notin> set (p_helds P pr)"
  shows "port_inv (hold_nat cfg i pr n s)"
proof -
  obtain e where e: "nats s n = Some e" using n by (auto simp: nat_port_def)
  show ?thesis using ports_hold [OF inv [unfolded port_inv_def] P n p new]
    by (simp add: port_inv_def hold_views [OF P e])
qed

lemma port_inv_heap: "only_heap s s' \<Longrightarrow> port_inv s' = port_inv s"
  by (simp add: port_inv_def port_views_heap)

lemma link_nat_inv:
  assumes inv: "port_inv s" and e: "nats s n = Some e" and T: "tunnels s (n_tunnel e) = Some T"
    and P: "pool_at s (t_srcidx T) = Some P"
    and n: "nat_port s n = Some (pr_of_proto (n_proto e), pool_addr P, p)"
    and p: "in_range P (pr_of_proto (n_proto e)) p" and new: "n \<notin> set (p_helds P (pr_of_proto (n_proto e)))"
    and r: "link_nat cfg mem n s = (r, s')"
  shows "port_inv s' \<and> nat_port s' = nat_port s"
proof -
  let ?i = "t_srcidx T" and ?pr = "pr_of_proto (n_proto e)"
  have ne: "natof s n = e" "tunof s (n_tunnel e) = T" using e T by (simp_all add: natof_def tunof_def)
  define s1 where "s1 = snd (nat_heap_insert mem n s)"
  have h1: "only_heap s s1" unfolding s1_def by (rule only_heap_insert)
  have hold: "port_inv (hold_nat cfg ?i ?pr n s2) \<and> nat_port (hold_nat cfg ?i ?pr n s2) = nat_port s"
    if v: "pool_at s2 = pool_at s" "tun_ports s2 = tun_ports s" "nat_port s2 = nat_port s" for s2
  proof -
    have i2: "port_inv s2" using inv v by (simp add: port_inv_def)
    obtain e2 where "nats s2 n = Some e2" using n unfolding v(3) [symmetric] by (auto simp: nat_port_def)
    with hold_views [of s2 ?i P n e2] hold_inv [OF i2, of ?i P n ?pr p cfg] v P n p new show ?thesis by simp
  qed
  note v1 = port_views_heap [OF h1]
  show ?thesis
  proof (cases "fst (nat_heap_insert mem n s)")
    case False
    then have "s' = hold_nat cfg ?i ?pr n s1"
      using r by (auto simp: link_nat_def ne s1_def split_beta Let_def)
    with hold [OF v1] show ?thesis by simp
  next
    case True
    obtain x tr where ins: "nat_tree_insert (tree_cmp_nid s1 n) n (nat_tree s1 ?pr) = (x, tr)" by fastforce
    show ?thesis
    proof (cases x)
      case (Some y)
      then have "s' = hold_nat cfg ?i ?pr n (nat_heap_delete (hidx s1 n) s1)"
        using r True ins by (auto simp: link_nat_def ne s1_def split_beta Let_def)
      with hold v1 port_views_heap [OF only_heap_delete [of s1 "hidx s1 n"]] show ?thesis by simp
    next
      case None
      let ?s2 = "put_tree ?pr tr s1"
      obtain z rt where spl: "nat_splay_insert (splay_cmp_nid ?s2 n) n (t_tnat_root (tunof ?s2 (n_tunnel e)) ?pr) = (z, rt)"
        by fastforce
      show ?thesis
      proof (cases z)
        case (Some y)
        let ?s3 = "put_root (n_tunnel e) ?pr rt ?s2"
        let ?s4 = "put_tree ?pr (nat_tree_remove n (nat_tree ?s3 ?pr)) ?s3"
        have "s' = hold_nat cfg ?i ?pr n (nat_heap_delete (hidx ?s4 n) ?s4)"
          using r True ins None spl Some by (auto simp: link_nat_def ne s1_def split_beta Let_def)
        with hold v1 port_views_heap [OF only_heap_delete [of ?s4 "hidx ?s4 n"]] show ?thesis by simp
      next
        case None': None
        let ?s3 = "count_new n (put_root (n_tunnel e) ?pr rt ?s2)"
        have s': "s' = upd_tunnel (n_tunnel e) (\<lambda>t. t\<lparr>t_tnatcnt := (t_tnatcnt t)(?pr := t_tnatcnt t ?pr + 1)\<rparr>) ?s3"
          using r True ins None None' spl by (auto simp: link_nat_def ne s1_def split_beta Let_def)
        have "tun_ports (upd_tunnel (n_tunnel e) (\<lambda>t. t\<lparr>t_tnatcnt := (t_tnatcnt t)(?pr := t_tnatcnt t ?pr + 1)\<rparr>) s3)
            = tun_ports s3" for s3 by (auto simp: tun_ports_def upd_tunnel_def fun_eq_iff option.map_comp o_def)
        then show ?thesis using inv v1 by (simp add: s' port_inv_def)
      qed
    qed
  qed
qed

lemma fill_bucket_nats:
  "fill_bucket cfg mem t proto (s\<lparr>nats := m\<rparr>) = map_option (\<lambda>s'. s'\<lparr>nats := m\<rparr>) (fill_bucket cfg mem t proto s)"
  by (auto simp: fill_bucket_def tunof_def poolof_def Let_def upd_pool_def upd_tunnel_def split: option.splits)

lemma nport_hi_lo: "nport_of (e\<lparr>n_nport := [hi8 (uint port), lo8 (uint port)]\<rparr>) = unat (port :: u16)"
proof -
  have "uint port < 65536" using uint_lt2p [of port] by simp
  then show ?thesis by (simp add: nport_of_def)
qed

lemma isc_decr_u8_pos: "c \<noteq> 0 \<Longrightarrow> isc_decr_u8 c = c - 1"
  by (simp add: isc_decr_u8_def)

text \<open>The second half of new_nat, on a state with a port left in the bucket.\<close>

lemma take_port_inv:
  fixes s :: aftr and n :: nid and e :: nat_entry
  defines "pr \<equiv> pr_of_proto (n_proto e)" and "t \<equiv> n_tunnel e"
  assumes inv: "port_inv s" and n: "nats s n = None" and T: "tunnels s t = Some T"
    and P: "pool_at s (t_srcidx T) = Some P" and nsrc: "sub (n_nsrc e) 0 4 = pool_addr P"
    and av: "t_avail T pr \<noteq> 0" and b: "t_bucket T pr = Some b"
  defines "port \<equiv> b ! unat (t_avail T pr - 1)"
  defines "s1 \<equiv> upd_pool (t_srcidx T) (\<lambda>ns. ns\<lparr>p_natcnt := (p_natcnt ns)(pr := p_natcnt ns pr + 1)\<rparr>)
      (upd_nat n (\<lambda>e. e\<lparr>n_nport := [hi8 (uint port), lo8 (uint port)]\<rparr>)
        (upd_tunnel t (\<lambda>t. t\<lparr>t_avail := (t_avail t)(pr := t_avail T pr - 1)\<rparr>)
          (s\<lparr>nats := (nats s)(n \<mapsto> e)\<rparr>)))"
  assumes r: "link_nat cfg mem n s1 = (r, s')"
  shows "port_inv s' \<and> nat_port s' n = Some (pr, pool_addr P, unat port) \<and> in_range P pr (unat port)"
proof -
  let ?i = "t_srcidx T" and ?e = "e\<lparr>n_nport := [hi8 (uint port), lo8 (uint port)]\<rparr>"
  let ?T = "T\<lparr>t_avail := (t_avail T)(pr := t_avail T pr - 1)\<rparr>"
    and ?P = "P\<lparr>p_natcnt := (p_natcnt P)(pr := p_natcnt P pr + 1)\<rparr>"
  note ok = inv [unfolded port_inv_def]
  have tp: "tun_ports s t = Some (?i, t_avail T, t_bucket T)" by (simp add: tun_ports_def T)
  have np: "nat_port s n = None" by (simp add: nat_port_def n)
  have v: "pool_at s1 = (pool_at s)(?i \<mapsto> ?P)"
    "tun_ports s1 = (tun_ports s)(t \<mapsto> (?i, (t_avail T)(pr := t_avail T pr - 1), t_bucket T))"
    "nat_port s1 = (nat_port s)(n \<mapsto> (pr, pool_addr P, unat port))"
  proof -
    show "pool_at s1 = (pool_at s)(?i \<mapsto> ?P)" unfolding s1_def using P by (subst pool_at_upd [of _ _ P]) simp_all
    have "tunnels (s\<lparr>nats := (nats s)(n \<mapsto> e)\<rparr>) t = Some T" using T by simp
    then show "tun_ports s1 = (tun_ports s)(t \<mapsto> (?i, (t_avail T)(pr := t_avail T pr - 1), t_bucket T))"
      unfolding s1_def by (simp add: tun_ports_upd)
    have "nats (upd_tunnel t (\<lambda>t. t\<lparr>t_avail := (t_avail t)(pr := t_avail T pr - 1)\<rparr>)
          (s\<lparr>nats := (nats s)(n \<mapsto> e)\<rparr>)) n = Some e" by (simp add: upd_tunnel_def)
    from nat_port_upd [OF this, of "\<lambda>e. e\<lparr>n_nport := [hi8 (uint port), lo8 (uint port)]\<rparr>"]
    show "nat_port s1 = (nat_port s)(n \<mapsto> (pr, pool_addr P, unat port))"
      unfolding s1_def using nsrc by (auto simp: nport_hi_lo pr_def fun_eq_iff nat_port_def)
  qed
  have inv1: "port_inv s1" unfolding port_inv_def v port_def
    by (rule ports_natcnt [OF ports_take [OF ok P tp b av np]]) (simp add: P)
  have rq: "in_range P pr (unat port)"
  proof -
    have "bucket_ok (pool_at s) (?i, t_avail T, t_bucket T)" using ports_okD(4) [OF ok tp] .
    moreover have "unat (t_avail T pr - 1) < unat (t_avail T pr)"
      using av by (simp add: unat_minus_one unat_gt_0)
    ultimately show ?thesis using P b av by (auto simp: bucket_ok_def port_def)
  qed
  have s1f: "nats s1 n = Some ?e" "tunnels s1 t = Some ?T"
    by (simp_all add: s1_def upd_pool_def upd_nat_def upd_tunnel_def T)
  have new: "n \<notin> set (p_helds P pr)"
    using ports_okD(2) [OF ok P] np unfolding helds_ok_def by fastforce
  have "port_inv s' \<and> nat_port s' = nat_port s1"
    by (rule link_nat_inv [OF inv1 s1f(1) _ _ _ _ _ r, of ?T ?P])
      (use s1f v P rq new in \<open>simp_all add: t_def pr_def\<close>)
  then show ?thesis using v(3) rq by simp
qed

lemma new_nat_inv:
  fixes e :: nat_entry
  defines "pr \<equiv> pr_of_proto (n_proto e)"
  assumes inv: "port_inv s" and n: "nats s n = None" and T: "tunnels s (n_tunnel e) = Some T"
    and nsrc: "sub (n_nsrc e) 0 4 = pool_addr (poolof s (t_srcidx T))" and bs: "bucksize cfg pr \<noteq> 0"
    and run: "new_nat cfg True mem n (s\<lparr>nats := (nats s)(n \<mapsto> e)\<rparr>) = Some (r, s')"
  shows "port_inv s' \<and> (nats s' n = None \<and> \<not> r \<or>
    (\<exists>p. nat_port s' n = Some (pr, pool_addr (poolof s (t_srcidx T)), p) \<and>
       in_range (poolof s (t_srcidx T)) pr p))"
proof -
  let ?s1 = "s\<lparr>nats := (nats s)(n \<mapsto> e)\<rparr>" and ?P0 = "poolof s (t_srcidx T)" and ?t = "n_tunnel e"
  have e1: "natof ?s1 n = e" "tunof ?s1 ?t = T" using T by (simp_all add: natof_def tunof_def)
  have unf: "new_nat cfg True mem n ?s1 = (case (if t_avail T pr = 0 then fill_bucket cfg True ?t (n_proto e) ?s1 else Some ?s1) of
      None \<Rightarrow> None
    | Some s \<Rightarrow> (case t_bucket (tunof s ?t) pr of
        None \<Rightarrow> Some (False, s\<lparr>nats := (nats s)(n := None)\<rparr>)
      | Some b \<Rightarrow> let av = isc_decr_u8 (t_avail (tunof s ?t) pr); port = b ! unat av
          in Some (link_nat cfg mem n (upd_pool (t_srcidx T) (\<lambda>ns. ns\<lparr>p_natcnt := (p_natcnt ns)(pr := p_natcnt ns pr + 1)\<rparr>)
            (upd_nat n (\<lambda>e. e\<lparr>n_nport := [hi8 (uint port), lo8 (uint port)]\<rparr>)
              (upd_tunnel ?t (\<lambda>t. t\<lparr>t_avail := (t_avail t)(pr := av)\<rparr>) s))))))"
    unfolding new_nat_def Let_def e1 pr_def by (rule refl)
  obtain s2 where s2: "(if t_avail T pr = 0 then fill_bucket cfg True ?t (n_proto e) ?s1 else Some ?s1)
      = Some (s2\<lparr>nats := (nats s)(n \<mapsto> e)\<rparr>)"
    and f: "port_inv s2" "nats s2 = nats s" and T2: "\<exists>T2. tunnels s2 ?t = Some T2 \<and> t_srcidx T2 = t_srcidx T \<and>
      (t_avail T2 pr = 0 \<longrightarrow> t_bucket T2 pr = None)"
    and P2: "\<exists>P2. pool_at s2 (t_srcidx T) = Some P2 \<and> pool_addr P2 = pool_addr ?P0 \<and> in_range P2 = in_range ?P0"
  proof (cases "t_avail T pr = 0")
    case True
    then obtain s2 where "fill_bucket cfg True ?t (n_proto e) s = Some s2"
      using run by (auto simp: new_nat_def e1 Let_def pr_def fill_bucket_nats split: option.splits)
    with fill_bucket_inv [OF inv T _ this] True that [of s2] bs show ?thesis
      by (auto simp: fill_bucket_nats pr_def)
  next
    case False
    obtain P where "pool_at s (t_srcidx T) = Some P" "poolof s (t_srcidx T) = P"
      using port_inv_tunnel [OF inv T] .
    with False that [of s] inv T show ?thesis by auto
  qed
  obtain T2 where T2: "tunnels s2 ?t = Some T2" "t_srcidx T2 = t_srcidx T"
    "t_avail T2 pr = 0 \<longrightarrow> t_bucket T2 pr = None" using T2 by blast
  obtain P where P: "pool_at s2 (t_srcidx T2) = Some P" "pool_addr P = pool_addr ?P0" "in_range P = in_range ?P0"
    using P2 T2(2) by auto
  let ?s2 = "s2\<lparr>nats := (nats s)(n \<mapsto> e)\<rparr>"
  have e2: "tunof ?s2 ?t = T2" using T2 by (simp add: tunof_def)
  have n2: "nats s2 n = None" using f(2) n by simp
  show ?thesis
  proof (cases "t_bucket T2 pr")
    case None
    then have "r = False" "s' = ?s2\<lparr>nats := (nats ?s2)(n := None)\<rparr>"
      using run [unfolded unf s2 option.case e2 None] by simp_all
    moreover have "(nats ?s2)(n := None) = nats s2" using n f(2) by (simp add: fun_upd_idem)
    ultimately show ?thesis using f(1) n2 by simp
  next
    case (Some b)
    then have av: "t_avail T2 pr \<noteq> 0" using T2(3) by auto
    let ?port = "b ! unat (t_avail T2 pr - 1)"
    have "link_nat cfg mem n (upd_pool (t_srcidx T2) (\<lambda>ns. ns\<lparr>p_natcnt := (p_natcnt ns)(pr := p_natcnt ns pr + 1)\<rparr>)
      (upd_nat n (\<lambda>e. e\<lparr>n_nport := [hi8 (uint ?port), lo8 (uint ?port)]\<rparr>)
        (upd_tunnel ?t (\<lambda>t. t\<lparr>t_avail := (t_avail t)(pr := t_avail T2 pr - 1)\<rparr>)
          (s2\<lparr>nats := (nats s2)(n \<mapsto> e)\<rparr>)))) = (r, s')"
      using run [unfolded unf s2 option.case e2 Some] av f(2) T2(2) by (simp add: Let_def isc_decr_u8_pos)
    from take_port_inv [OF f(1) n2 T2(1) P(1) _ av [unfolded pr_def] Some [unfolded pr_def] this [unfolded pr_def]]
    show ?thesis using nsrc P unfolding pr_def by auto
  qed
qed

section \<open>Deleting keeps the invariant\<close>

named_theorems port_same_intros \<open>operations that change no pool, bucket, address or port\<close>

definition port_key :: "nat_entry \<Rightarrow> tid \<times> u8 \<times> bytes \<times> bytes" where
  "port_key e = (n_tunnel e, n_proto e, n_nsrc e, n_nport e)"

lemma port_key_upd [simp]:
  "port_key (e\<lparr>n_heap_index := i\<rparr>) = port_key e" "port_key (e\<lparr>n_xlist := x\<rparr>) = port_key e"
  "port_key (e\<lparr>n_ftpseq := q\<rparr>) = port_key e"
  by (simp_all add: port_key_def)

definition port_same :: "aftr \<Rightarrow> aftr \<Rightarrow> bool" where
  "port_same s s' \<longleftrightarrow> pools s' = pools s \<and> tun_ports s' = tun_ports s \<and>
     (\<forall>m. map_option port_key (nats s' m) = map_option port_key (nats s m))"

lemma port_same_refl [port_same_intros]: "port_same s s"
  by (simp add: port_same_def)

lemma port_same_upd_nat [port_same_intros]:
  "port_same s t \<Longrightarrow> (\<And>e. port_key (f e) = port_key e) \<Longrightarrow> port_same s (upd_nat n f t)"
  by (auto simp: port_same_def upd_nat_def tun_ports_def fun_eq_iff option.map_comp o_def)

lemma port_same_upd_tunnel [port_same_intros]:
  assumes "port_same s t" "\<And>T. (t_srcidx (f T), t_avail (f T), t_bucket (f T)) = (t_srcidx T, t_avail T, t_bucket T)"
  shows "port_same s (upd_tunnel n f t)"
proof -
  have "tun_ports (upd_tunnel n f t) = tun_ports t"
  proof
    fix m show "tun_ports (upd_tunnel n f t) m = tun_ports t m"
      using assms(2) by (cases "tunnels t m") (auto simp: upd_tunnel_def tun_ports_def)
  qed
  then show ?thesis using assms(1) by (simp add: port_same_def upd_tunnel_def)
qed

lemma port_same_heap [port_same_intros]:
  assumes "port_same s t" shows "port_same s (nat_heap_delete i t)"
proof -
  have "only_heap t (nat_heap_delete i t)" by (rule only_heap_delete)
  then show ?thesis using assms port_views_heap(2) [of t "nat_heap_delete i t"]
    by (auto simp: port_same_def only_heap_def option.map_comp o_def)
qed

lemma port_same_fields [port_same_intros]:
  "port_same s t \<Longrightarrow> port_same s (t\<lparr>gc_ptr := a\<rparr>)" "port_same s t \<Longrightarrow> port_same s (t\<lparr>bt_ptr := a\<rparr>)"
  "port_same s t \<Longrightarrow> port_same s (t\<lparr>gchains := c\<rparr>)" "port_same s t \<Longrightarrow> port_same s (t\<lparr>nathash := f\<rparr>)"
  "port_same s t \<Longrightarrow> port_same s (put_tree pr x t)"
  by (auto simp: port_same_def tun_ports_def put_tree_def fun_eq_iff)

lemma port_same_count [port_same_intros]: "port_same s t \<Longrightarrow> port_same s (count_del n t)"
  unfolding port_same_def by (simp) (simp add: count_del_def Let_def)

lemma port_same_root [port_same_intros]: "port_same s t \<Longrightarrow> port_same s (put_root n pr r t)"
  unfolding put_root_def by (intro port_same_intros) simp_all

lemma port_same_xlist [port_same_intros]:
  "port_same s t \<Longrightarrow> port_same s (t\<lparr>nats := \<lambda>m. map_option (\<lambda>e. e\<lparr>n_xlist := f m e\<rparr>) (nats t m)\<rparr>)"
  by (auto simp: port_same_def tun_ports_def option.map_comp o_def fun_eq_iff)

lemma port_same_unchain [port_same_intros]: "port_same s t \<Longrightarrow> port_same s (unchain_nat n k t)"
  by (cases k) (auto simp: unchain_nat_def Let_def port_key_def intro!: port_same_intros)

lemma port_same_views:
  assumes "port_same s t"
  shows "pool_at t = pool_at s" "tun_ports t = tun_ports s" "nat_port t = nat_port s"
proof -
  show "pool_at t = pool_at s" "tun_ports t = tun_ports s"
    using assms by (auto simp: port_same_def pool_at_def fun_eq_iff)
  show "nat_port t = nat_port s"
  proof
    fix m
    have "map_option port_key (nats t m) = map_option port_key (nats s m)" using assms by (simp add: port_same_def)
    then show "nat_port t m = nat_port s m"
      by (cases "nats t m"; cases "nats s m") (auto simp: nat_port_def port_key_def nport_of_def)
  qed
qed

text \<open>The last part of del_nat: the entry is freed or goes on hold.\<close>

definition retire_nat :: "config \<Rightarrow> nid \<Rightarrow> prclass \<Rightarrow> aftr \<Rightarrow> aftr" where
  "retire_nat cfg n pr s =
     (case pool_of_nat n s of
        None \<Rightarrow> s\<lparr>nats := (nats s)(n := None)\<rparr>
      | Some i \<Rightarrow>
          if nport_of (natof s n) < unat (p_minport (poolof s i) pr) \<or>
             nport_of (natof s n) > unat (p_maxport (poolof s i) pr)
          then s\<lparr>nats := (nats s)(n := None)\<rparr>
          else hold_nat cfg i pr n s)"

lemma del_nat_retire:
  "\<exists>s'. port_same s s' \<and> del_nat cfg n k s = retire_nat cfg n (pr_of_proto (n_proto (natof s n))) s'"
  unfolding del_nat_def retire_nat_def Let_def
  by (intro exI conjI, rule_tac [2] refl) (auto intro!: port_same_intros simp: port_key_def)

lemma find_pool_at:
  assumes "find_pool addr s = Some i"
  shows "\<exists>P. pool_at s i = Some P \<and> pool_addr P = sub addr 0 4"
  using assms by (auto simp: find_pool_def find_Some_iff pool_at_def pool_addr_def split: option.splits)

lemma retire_inv:
  assumes inv: "port_inv s" and e: "nats s n = Some e" and T: "tunnels s (n_tunnel e) = Some T"
    and live: "\<And>i P pr. pool_at s i = Some P \<Longrightarrow> n \<notin> set (p_helds P pr)" and pr: "pr = pr_of_proto (n_proto e)"
  shows "port_inv (retire_nat cfg n pr s)"
proof -
  have free: "port_inv (s\<lparr>nats := (nats s)(n := None)\<rparr>)"
    using ports_forget [OF inv [unfolded port_inv_def], of n] live by (simp add: port_inv_def nat_port_forget)
  have ne: "natof s n = e" "tunof s (n_tunnel e) = T" using e T by (simp_all add: natof_def tunof_def)
  obtain Q where Q: "pool_at s (t_srcidx T) = Some Q" "poolof s (t_srcidx T) = Q" using port_inv_tunnel [OF inv T] .
  have pool: "\<exists>P. pool_at s i = Some P \<and> sub (n_nsrc e) 0 4 = pool_addr P" if "pool_of_nat n s = Some i" for i
    using that find_pool_at [of "n_nsrc e" s i] Q
    by (auto simp: pool_of_nat_def ne Let_def pool_addr_def split: if_splits)
  show ?thesis
  proof (cases "pool_of_nat n s")
    case None
    then show ?thesis using free by (simp add: retire_nat_def)
  next
    case (Some i)
    then obtain P where P: "pool_at s i = Some P" "sub (n_nsrc e) 0 4 = pool_addr P" using pool by blast
    have pp: "poolof s i = P" by (rule pool_at_poolof [OF P(1)])
    show ?thesis
    proof (cases "in_range P pr (nport_of e)")
      case True
      have "port_inv (hold_nat cfg i pr n s)"
        by (rule hold_inv [OF inv P(1) _ True live [OF P(1)]]) (simp add: nat_port_def e P pr)
      then show ?thesis using Some True by (simp add: retire_nat_def ne pp in_range_def)
    next
      case False
      then show ?thesis using Some free by (auto simp: retire_nat_def ne pp in_range_def)
    qed
  qed
qed

lemma del_nat_inv:
  assumes inv: "port_inv s" and e: "nats s n = Some e" and T: "tunnels s (n_tunnel e) = Some T"
    and live: "\<And>i P pr. pool_at s i = Some P \<Longrightarrow> n \<notin> set (p_helds P pr)"
  shows "port_inv (del_nat cfg n k s)"
proof -
  obtain s' where s': "port_same s s'" "del_nat cfg n k s = retire_nat cfg n (pr_of_proto (n_proto (natof s n))) s'"
    using del_nat_retire by blast
  obtain e' where e': "nats s' n = Some e'" "port_key e' = port_key e"
  proof -
    have "map_option port_key (nats s' n) = map_option port_key (nats s n)" using s'(1) by (simp add: port_same_def)
    with e that show ?thesis by auto
  qed
  obtain T' where T': "tunnels s' (n_tunnel e) = Some T'"
  proof -
    have "tun_ports s' (n_tunnel e) = tun_ports s (n_tunnel e)" using s'(1) by (simp add: port_same_def)
    with T that show ?thesis by (auto simp: tun_ports_def)
  qed
  have "natof s n = e" using e by (simp add: natof_def)
  then show ?thesis unfolding s'(2)
    by (intro retire_inv [OF _ e'(1), of T'])
      (use inv e' T' live port_same_views [OF s'(1)] in \<open>auto simp: port_inv_def port_key_def\<close>)
qed

section \<open>Freeing held ports\<close>

definition hold_over :: "aftr \<Rightarrow> nid \<Rightarrow> bool" where
  "hold_over s h \<longleftrightarrow> n_timeout (natof s h) \<le> seconds s"

lemma pool_ok_some: "pool_ok P \<Longrightarrow> \<exists>bm. p_freebm P pr = Some bm"
  unfolding pool_ok_def by blast

text \<open>One turn of the loop.\<close>

lemma free_held_step:
  assumes inv: "port_inv s" and P: "pool_at s i = Some P" and h: "p_helds P pr = h # hs" and due: "hold_over s h"
  obtains s1 q bm where "free_held i pr s = free_held i pr s1" "port_inv s1" "tun_ports s1 = tun_ports s"
    "seconds s1 = seconds s" "nats s1 = (nats s)(h := None)" "nat_port s h = Some (pr, pool_addr P, q)"
    "in_range P pr q" "p_freebm P pr = Some bm" "h \<notin> set hs"
    "pool_at s1 = (pool_at s)(i \<mapsto> P\<lparr>p_helds := (p_helds P)(pr := hs),
       p_freebm := (p_freebm P)(pr := Some (bm_set bm (q - unat (p_minport P pr)))),
       p_natcnt := (p_natcnt P)(pr := isc_decr_u16 (p_natcnt P pr))\<rparr>)"
proof -
  note ok = inv [unfolded port_inv_def]
  have pp: "poolof s i = P" by (rule pool_at_poolof [OF P])
  have live: "\<not> (pools s ! i = None \<or> i \<ge> length (pools s))" using P by (auto simp: pool_at_def split: if_splits)
  obtain q where q: "nat_port s h = Some (pr, pool_addr P, q)" "in_range P pr q" and dist: "h \<notin> set hs"
    using ports_okD(2) [OF ok P] h unfolding helds_ok_def by (metis distinct.simps(2) list.set_intros(1))
  obtain bm where bm: "p_freebm P pr = Some bm" using pool_ok_some [OF ports_okD(1) [OF ok P]] by blast
  have port: "nport_of (natof s h) = q" using q(1) by (auto simp: nat_port_def natof_def)
  define s1 where "s1 = upd_pool i (\<lambda>ns. ns\<lparr>p_freebm := (p_freebm ns)(pr :=
        map_option (\<lambda>bm. bm_set bm (q - unat (p_minport ns pr))) (p_freebm ns pr)),
      p_natcnt := (p_natcnt ns)(pr := isc_decr_u16 (p_natcnt ns pr))\<rparr>)
    ((upd_pool i (\<lambda>ns. ns\<lparr>p_helds := (p_helds ns)(pr := hs)\<rparr>) s)\<lparr>nats := (nats s)(h := None)\<rparr>)"
  have nu: "nats (upd_pool i f s) = nats s" for f by (simp add: upd_pool_def)
  have free: "free_held i pr s = free_held i pr s1"
    using h live due q(2) unfolding s1_def
    by (subst free_held.simps) (auto simp: pp port hold_over_def Let_def in_range_def nu)
  have pa: "pool_at s1 = (pool_at s)(i \<mapsto> P\<lparr>p_helds := (p_helds P)(pr := hs),
       p_freebm := (p_freebm P)(pr := Some (bm_set bm (q - unat (p_minport P pr)))),
       p_natcnt := (p_natcnt P)(pr := isc_decr_u16 (p_natcnt P pr))\<rparr>)"
    unfolding s1_def using P bm by (subst pool_at_upd [where P = "P\<lparr>p_helds := (p_helds P)(pr := hs)\<rparr>"])
      (simp_all add: pool_at_upd)
  have tp: "tun_ports s1 = tun_ports s" by (simp add: s1_def)
  have np: "nat_port s1 = (nat_port s)(h := None)"
    by (auto simp: s1_def nat_port_def fun_eq_iff)
  let ?P = "P\<lparr>p_helds := (p_helds P)(pr := hs),
       p_freebm := (p_freebm P)(pr := Some (bm_set bm (q - unat (p_minport P pr))))\<rparr>"
  have "ports_ok ((pool_at s)(i \<mapsto> ?P, i \<mapsto> ?P\<lparr>p_natcnt := (p_natcnt P)(pr := isc_decr_u16 (p_natcnt P pr))\<rparr>))
      (tun_ports s) ((nat_port s)(h := None))"
    by (rule ports_natcnt [OF ports_release [OF ok P h q(1) bm]]) simp
  then have inv1: "port_inv s1" unfolding port_inv_def pa tp np by simp
  show ?thesis
    by (rule that [OF free inv1 tp _ _ q bm dist pa]) (simp_all add: s1_def upd_pool_def)
qed

lemma free_held_spec:
  fixes s :: aftr and P :: pool and pr :: prclass and i :: nat
  assumes "port_inv s" "pool_at s i = Some P"
  defines "gone \<equiv> set (takeWhile (hold_over s) (p_helds P pr))"
  shows "port_inv (free_held i pr s) \<and> tun_ports (free_held i pr s) = tun_ports s \<and>
     seconds (free_held i pr s) = seconds s \<and>
     nats (free_held i pr s) = (\<lambda>n. if n \<in> gone then None else nats s n) \<and>
     (\<exists>P'. pool_at (free_held i pr s) = (pool_at s)(i \<mapsto> P') \<and> pool_addr P' = pool_addr P \<and> in_range P' = in_range P \<and>
       p_helds P' = (p_helds P)(pr := dropWhile (hold_over s) (p_helds P pr)) \<and>
       (\<forall>p. port_free P' pr p \<longleftrightarrow> port_free P pr p \<or> (\<exists>n \<in> gone. nat_port s n = Some (pr, pool_addr P, p))))"
  using assms(1,2) unfolding gone_def
proof (induction "p_helds P pr" arbitrary: s P)
  case Nil
  then have "free_held i pr s = s" by (subst free_held.simps) (simp add: pool_at_poolof)
  then show ?case using Nil by (auto simp: fun_upd_idem intro!: exI [of _ P])
next
  case (Cons h hs)
  note P = Cons.prems(2) and h = Cons.hyps(2) [symmetric]
  show ?case
  proof (cases "hold_over s h")
    case False
    then have "free_held i pr s = s"
      using h by (subst free_held.simps) (auto simp: pool_at_poolof [OF P] hold_over_def)
    then show ?thesis using Cons.prems False h by (auto simp: fun_upd_idem intro!: exI [of _ P])
  next
    case True
    obtain s1 q bm where s1: "free_held i pr s = free_held i pr s1" "port_inv s1" "tun_ports s1 = tun_ports s"
      "seconds s1 = seconds s" "nats s1 = (nats s)(h := None)" and q: "nat_port s h = Some (pr, pool_addr P, q)"
      "in_range P pr q" and bm: "p_freebm P pr = Some bm" and dist: "h \<notin> set hs"
      and pa: "pool_at s1 = (pool_at s)(i \<mapsto> P\<lparr>p_helds := (p_helds P)(pr := hs),
       p_freebm := (p_freebm P)(pr := Some (bm_set bm (q - unat (p_minport P pr)))),
       p_natcnt := (p_natcnt P)(pr := isc_decr_u16 (p_natcnt P pr))\<rparr>)" (is "_ = (pool_at s)(i \<mapsto> ?P1)")
      using free_held_step [OF Cons.prems(1) P h True] .
    have nats1: "natof s1 n = natof s n" if "n \<noteq> h" for n using that by (simp add: natof_def s1(5))
    have ho: "hold_over s1 n = hold_over s n" if "n \<in> set hs" for n
    proof -
      have "n \<noteq> h" using that dist by blast
      then show ?thesis using nats1 s1(4) by (simp add: hold_over_def)
    qed
    have tw: "takeWhile (hold_over s1) hs = takeWhile (hold_over s) hs" "dropWhile (hold_over s1) hs = dropWhile (hold_over s) hs"
      using ho by (auto intro: takeWhile_cong dropWhile_cong)
    have p1: "pool_addr ?P1 = pool_addr P" "in_range ?P1 = in_range P" "p_helds ?P1 pr = hs" by simp_all
    have ix: "(q - unat (p_minport P pr)) div 8 < length bm"
      by (rule bm_index [OF ports_okD(1) [OF Cons.prems(1) [unfolded port_inv_def] P] q(2) bm])
    have free1: "port_free ?P1 pr p \<longleftrightarrow> port_free P pr p \<or> p = q" for p
      using bm ix q(2) by (auto simp: port_free_def in_range_def bm_get_set)
    have np1: "nat_port s1 n = (if n = h then None else nat_port s n)" for n by (simp add: nat_port_def s1(5))
    have hn: "h \<notin> set (takeWhile (hold_over s) hs)" using dist by (auto dest: set_takeWhileD)
    have "pool_at s1 i = Some ?P1" using pa by simp
    note IH0 = Cons.hyps(1) [OF p1(3) [symmetric] s1(2) this, unfolded p1(3)]
    obtain P' where
      IH: "port_inv (free_held i pr s1)" "tun_ports (free_held i pr s1) = tun_ports s1"
        "seconds (free_held i pr s1) = seconds s1"
        "nats (free_held i pr s1) = (\<lambda>n. if n \<in> set (takeWhile (hold_over s1) hs) then None else nats s1 n)"
        "pool_at (free_held i pr s1) = (pool_at s1)(i \<mapsto> P')" "pool_addr P' = pool_addr ?P1" "in_range P' = in_range ?P1"
        "p_helds P' = (p_helds ?P1)(pr := dropWhile (hold_over s1) hs)"
        "\<And>p. port_free P' pr p \<longleftrightarrow> port_free ?P1 pr p \<or>
          (\<exists>n \<in> set (takeWhile (hold_over s1) hs). nat_port s1 n = Some (pr, pool_addr ?P1, p))"
      using IH0 by blast
    have "nats (free_held i pr s) = (\<lambda>n. if n \<in> set (takeWhile (hold_over s) (h # hs)) then None else nats s n)"
      using True by (auto simp: s1(1) IH(4) tw s1(5) fun_eq_iff)
    moreover have "pool_at (free_held i pr s) = (pool_at s)(i \<mapsto> P')" by (simp add: s1(1) IH(5) pa)
    moreover have "p_helds P' = (p_helds P)(pr := dropWhile (hold_over s) (h # hs))"
      using True by (simp add: IH(8) tw)
    moreover have "port_free P' pr p \<longleftrightarrow> port_free P pr p \<or>
        (\<exists>n \<in> set (takeWhile (hold_over s) (h # hs)). nat_port s n = Some (pr, pool_addr P, p))" for p
      using True q(1) hn unfolding IH(9) free1 tw np1 p1(1) by auto
    moreover have "pool_addr P' = pool_addr P" "in_range P' = in_range P" using IH(6,7) p1 by simp_all
    moreover have "port_inv (free_held i pr s)" "tun_ports (free_held i pr s) = tun_ports s"
      "seconds (free_held i pr s) = seconds s" using IH(1-3) s1(1,3,4) by simp_all
    ultimately show ?thesis unfolding h by blast
  qed
qed

lemma free_heldnats_inv: "port_inv s \<Longrightarrow> port_inv (free_heldnats s)"
proof -
  assume inv: "port_inv s"
  have one: "port_inv (free_held i pr s) \<and> length (pools (free_held i pr s)) = length (pools s)"
    if "port_inv s" for i pr s
  proof (cases "pool_at s i")
    case None
    then show ?thesis using that
      by (subst (1 2) free_held.simps) (auto simp: pool_at_def split: list.splits if_splits)
  next
    case (Some P)
    have "length (pools (free_held i pr s)) = length (pools s)" for s
      by (induction i pr s rule: free_held.induct)
        (subst free_held.simps, auto simp: Let_def upd_pool_def split: list.splits)
    with free_held_spec [OF that Some] show ?thesis by blast
  qed
  have row: "port_inv (fold (\<lambda>pr s. free_held i pr s) prs s)" if "port_inv s" for i prs s
    using that by (induction prs arbitrary: s) (auto simp: one)
  have "port_inv (fold (\<lambda>i s. if pools s ! i = None then s else fold (\<lambda>pr s. free_held i pr s) all_pr s) is s)"
    if "port_inv s" for "is" s
    using that by (induction "is" arbitrary: s) (auto simp: row)
  then show ?thesis using inv by (simp add: free_heldnats_def)
qed

section \<open>Runs of the daemon, seen from the ports\<close>

text \<open>
  The operations in any order: the clock advances, an address gets a pool (with the default
  ranges or with one of its own), a tunnel appears, an entry is created, deleted, taken off
  hold. The pool commands are restricted to addresses without a pool (see the header for what
  happens otherwise), and the allocation of a bucket succeeds.
\<close>

inductive port_step :: "config \<Rightarrow> aftr \<Rightarrow> aftr \<Rightarrow> bool" for cfg where
  clock: "port_step cfg s (s\<lparr>seconds := now\<rparr>)"
| pool: "find_pool addr s = None \<Longrightarrow> length addr = 4 \<Longrightarrow> (\<And>pr. poolmin cfg pr \<le> poolmax cfg pr) \<Longrightarrow>
    port_step cfg s (snd (add_pool cfg mem addr s))"
| range: "find_pool addr s = None \<Longrightarrow> length addr = 4 \<Longrightarrow> (\<And>pr. poolmin cfg pr \<le> poolmax cfg pr) \<Longrightarrow>
    minport \<le> maxport \<Longrightarrow> port_step cfg s (snd (limit_port cfg mem addr proto minport maxport s))"
| tunnel: "tunnels s t = None \<Longrightarrow> pool_at s (t_srcidx T) \<noteq> None \<Longrightarrow> t_avail T = (\<lambda>pr. 0) \<Longrightarrow>
    port_step cfg s (s\<lparr>tunnels := (tunnels s)(t \<mapsto> T)\<rparr>)"
| create: "nats s n = None \<Longrightarrow> tunnels s (n_tunnel e) = Some T \<Longrightarrow>
    sub (n_nsrc e) 0 4 = pool_addr (poolof s (t_srcidx T)) \<Longrightarrow>
    new_nat cfg True mem_heap n (s\<lparr>nats := (nats s)(n \<mapsto> e)\<rparr>) = Some (r, s') \<Longrightarrow> port_step cfg s s'"
| delete: "nats s n = Some e \<Longrightarrow> tunnels s (n_tunnel e) = Some T \<Longrightarrow>
    (\<And>i P pr. pool_at s i = Some P \<Longrightarrow> n \<notin> set (p_helds P pr)) \<Longrightarrow> port_step cfg s (del_nat cfg n k s)"
| release: "port_step cfg s (free_heldnats s)"

lemma new_pool_ok: "(\<And>pr. poolmin cfg pr \<le> poolmax cfg pr) \<Longrightarrow> pool_ok (new_pool cfg addr)"
  by (simp add: pool_ok_def new_pool_def bm_full_length)

lemma set_range_ok: "pool_ok P \<Longrightarrow> minport \<le> maxport \<Longrightarrow> pool_ok (set_range pr minport maxport P)"
  by (simp add: pool_ok_def set_range_def bm_full_length)

lemma set_range_simps [simp]:
  "p_addr (set_range pr minport maxport P) = p_addr P" "p_helds (set_range pr minport maxport P) = p_helds P"
  by (simp_all add: set_range_def)

lemma find_pool_None: "find_pool addr s = None \<Longrightarrow> pool_at s i = Some P \<Longrightarrow> pool_addr P \<noteq> sub addr 0 4"
  by (auto simp: find_pool_def find_None_iff pool_at_def pool_addr_def split: if_splits option.splits)

lemma pool_at_append: "pool_at (s\<lparr>pools := pools s @ [Some P]\<rparr>) = (pool_at s)(length (pools s) \<mapsto> P)"
  by (auto simp: pool_at_def fun_eq_iff nth_append less_Suc_eq)

lemma append_pool_inv:
  assumes inv: "port_inv s" and new: "find_pool addr s = None" and P: "pool_ok P" "p_helds P = (\<lambda>pr. [])"
    "pool_addr P = sub addr 0 4"
  shows "port_inv (s\<lparr>pools := pools s @ [Some P]\<rparr>)"
proof -
  have "ports_ok ((pool_at s)(length (pools s) \<mapsto> P)) (tun_ports s) (nat_port s)"
    by (rule ports_new_pool [OF inv [unfolded port_inv_def] _ P(1,2)])
      (use find_pool_None [OF new] P(3) in \<open>auto simp: pool_at_def\<close>)
  moreover have "tun_ports (s\<lparr>pools := x\<rparr>) = tun_ports s" "nat_port (s\<lparr>pools := x\<rparr>) = nat_port s" for x
    by (simp_all add: tun_ports_def nat_port_def fun_eq_iff)
  ultimately show ?thesis unfolding port_inv_def pool_at_append by simp
qed

lemma pools_butlast: "s\<lparr>pools := butlast (pools s @ [x])\<rparr> = s"
  by simp

lemma limit_port_new:
  assumes "find_pool addr s = None"
  shows "snd (limit_port cfg mem addr proto minport maxport s) = s \<or>
    snd (limit_port cfg mem addr proto minport maxport s) =
      s\<lparr>pools := pools s @ [Some (set_range (pr_of_proto proto) minport maxport (new_pool cfg addr))]\<rparr>"
  using assms by (auto simp: limit_port_def add_pool_def Let_def upd_pool_def nth_append)

lemma port_step_inv:
  assumes "port_step cfg s s'" "port_inv s" "\<And>pr. bucksize cfg pr \<noteq> 0"
  shows "port_inv s'"
  using assms
proof (induction rule: port_step.induct)
  case (clock s now)
  have "pool_at (s\<lparr>seconds := now\<rparr>) = pool_at s" "tun_ports (s\<lparr>seconds := now\<rparr>) = tun_ports s"
    "nat_port (s\<lparr>seconds := now\<rparr>) = nat_port s"
    by (simp_all add: pool_at_def tun_ports_def nat_port_def fun_eq_iff)
  with clock show ?case by (simp add: port_inv_def)
next
  case (pool addr s mem)
  have "port_inv (s\<lparr>pools := pools s @ [Some (new_pool cfg addr)]\<rparr>)"
    by (rule append_pool_inv [OF pool(4,1) new_pool_ok])
      (use pool(3) in simp, simp_all add: new_pool_def pool_addr_def sub_def)
  with pool(4) show ?case by (auto simp: add_pool_def)
next
  case (range addr s minport maxport mem proto)
  have "port_inv (s\<lparr>pools := pools s @ [Some (set_range (pr_of_proto proto) minport maxport (new_pool cfg addr))]\<rparr>)"
    by (rule append_pool_inv [OF range(5,1) set_range_ok [OF new_pool_ok range(4)]])
      (use range(3) in simp, simp_all add: new_pool_def pool_addr_def sub_def)
  with limit_port_new [OF range(1)] range(5) show ?case by metis
next
  case (tunnel s t T)
  then obtain P where P: "pool_at s (t_srcidx T) = Some P" by auto
  have "tun_ports s t = None" using tunnel(1) by (simp add: tun_ports_def)
  from ports_new_tunnel [OF tunnel(4) [unfolded port_inv_def] P this tunnel(3), of "t_bucket T"]
  have "ports_ok (pool_at s) ((tun_ports s)(t \<mapsto> (t_srcidx T, t_avail T, t_bucket T))) (nat_port s)" .
  moreover have "tun_ports (s\<lparr>tunnels := (tunnels s)(t \<mapsto> T)\<rparr>) = (tun_ports s)(t \<mapsto> (t_srcidx T, t_avail T, t_bucket T))"
    by (auto simp: tun_ports_def fun_eq_iff)
  moreover have "pool_at (s\<lparr>tunnels := x\<rparr>) = pool_at s" "nat_port (s\<lparr>tunnels := x\<rparr>) = nat_port s" for x
    by (simp_all add: pool_at_def nat_port_def fun_eq_iff)
  ultimately show ?case by (simp add: port_inv_def)
next
  case (create s n e T mem r s')
  from new_nat_inv [OF create(5,1-3) create(6) create(4)] show ?case ..
next
  case (delete s n e T k)
  from del_nat_inv [OF delete(4,1,2)] delete(3) show ?case by blast
next
  case (release s)
  then show ?case by (simp add: free_heldnats_inv)
qed

lemma port_inv_aftr0: "port_inv aftr0"
  by (simp add: port_inv_def aftr0_def pool_at_def tun_ports_def nat_port_def ports_ok_def)

lemma port_reach_inv:
  assumes "(port_step cfg)\<^sup>*\<^sup>* aftr0 s" "\<And>pr. bucksize cfg pr \<noteq> 0" shows "port_inv s"
  using assms(1) by (induction rule: rtranclp_induct) (use port_inv_aftr0 port_step_inv assms(2) in blast)+

subsection \<open>A run with one port\<close>

definition port_addr :: bytes where
  "port_addr = [192, 0, 2, 1]"

definition port_tunnel :: tunnel where
  "port_tunnel = \<lparr>t_remote = replicate 16 7, t_flags = 0, t_frg6cnt = 0, t_frg4cnt = 0, t_mtu = 1500,
     t_hash = 0, t_tnat_root = (\<lambda>pr. Leaf), t_srcidx = 0, t_tnatcnt = (\<lambda>pr. 0), t_lastnat = 0,
     t_tnatrt = (\<lambda>pr. 0), t_avail = (\<lambda>pr. 0), t_bucket = (\<lambda>pr. None), t_nnaddr = [], t_nnplen = 0,
     t_ngeneration = 0\<rparr>"

definition port_flow :: nat_entry where
  "port_flow = nat_zero\<lparr>n_tunnel := 3, n_nsrc := port_addr, n_proto := IPTCP, n_flags := MATCH_PORT\<rparr>"

definition port_state :: aftr where
  "port_state = (snd (limit_port default_config (\<lambda>k. True) port_addr IPTCP 2000 2000 aftr0))\<lparr>tunnels := [3 \<mapsto> port_tunnel]\<rparr>"

definition port_pool :: pool where
  "port_pool = set_range TCPPR 2000 2000 (new_pool default_config port_addr)"

lemma port_state_pools: "pools port_state = [Some port_pool]" "tunnels port_state = [3 \<mapsto> port_tunnel]"
  "nats port_state = Map.empty" "nat_heap port_state = []" "nat_heap_last port_state = 0"
  "nat_tree port_state = (\<lambda>pr. RbNil)" "arc4 port_state = arc4_init"
  by (simp_all add: port_state_def limit_port_def find_pool_def aftr0_def add_pool_def Let_def upd_pool_def
      pr_of_proto_def port_pool_def)

lemma default_ranges: "poolmin default_config pr \<le> poolmax default_config pr"
  by (cases pr) (simp_all add: default_config_def)

lemma default_bucksize: "bucksize default_config pr \<noteq> 0"
  by (cases pr) (simp_all add: default_config_def)

lemma port_state_reached: "(port_step default_config)\<^sup>*\<^sup>* aftr0 port_state"
proof -
  let ?s = "snd (limit_port default_config (\<lambda>k. True) port_addr IPTCP 2000 2000 aftr0)"
  have "port_step default_config aftr0 ?s"
    by (rule port_step.range) (simp_all add: find_pool_def aftr0_def port_addr_def default_ranges)
  moreover have "port_step default_config ?s (?s\<lparr>tunnels := (tunnels ?s)(3 \<mapsto> port_tunnel)\<rparr>)"
    by (rule port_step.tunnel)
      (simp_all add: limit_port_def find_pool_def aftr0_def add_pool_def Let_def upd_pool_def pool_at_def port_tunnel_def)
  moreover have "tunnels ?s = Map.empty"
    by (simp add: limit_port_def find_pool_def aftr0_def add_pool_def Let_def upd_pool_def)
  ultimately show ?thesis by (simp add: port_state_def)
qed

lemma port_pool_facts: "p_minport port_pool TCPPR = 2000" "p_maxport port_pool TCPPR = 2000"
  "p_freebm port_pool TCPPR = Some [1]" "p_addr port_pool = port_addr" "p_helds port_pool = (\<lambda>pr. [])"
  by (simp_all add: port_pool_def set_range_def new_pool_def bm_full_eq port_addr_def sub_def)

lemma port_getport: "arc4_getport 2000 2000 rs = Some (2000, rs)"
  by (simp add: arc4_getport_def)

lemma port_fill:
  "fill_slots 10 2000 2000 0 (replicate 10 0) [1] rs = Some (1, (replicate 10 0)[0 := 2000], [0], rs)"
proof -
  have "fill_try (Suc n) 2000 2000 [1] rs = Some (Some 2000, [0], rs)" for n
    by (simp add: port_getport bm_get_def bm_clear_def)
  from this [of 9] have a: "fill_try 10 2000 2000 [1] rs = Some (Some 2000, [0], rs)" by simp
  have b: "fill_try n 2000 2000 [0] rs = Some (None, [0], rs)" for n
    by (induction n) (simp_all add: port_getport bm_get_def)
  have "fill_slots 10 2000 2000 1 c [0] rs = Some (1, c, [0], rs)" for c
    by (subst fill_slots.simps) (simp add: b)
  then show ?thesis by (subst fill_slots.simps) (simp add: a)
qed

text \<open>The bucket gets the only port.\<close>

lemma port_bucket:
  "fill_bucket default_config True 3 IPTCP port_state = Some
     (upd_pool 0 (\<lambda>ns. ns\<lparr>p_freebm := (p_freebm ns)(TCPPR := Some [0])\<rparr>)
       (upd_tunnel 3 (\<lambda>t. t\<lparr>t_bucket := (t_bucket t)(TCPPR := Some ((replicate 10 0)[0 := 2000])),
          t_avail := (t_avail t)(TCPPR := 1)\<rparr>) (port_state\<lparr>arc4 := arc4 port_state\<rparr>)))"
proof -
  have b: "unat (bucksize default_config TCPPR) = 10" by (simp add: default_config_def)
  have t: "tunof port_state 3 = port_tunnel" "t_srcidx port_tunnel = 0" "poolof port_state 0 = port_pool"
    by (simp_all add: tunof_def port_state_pools port_tunnel_def poolof_def)
  have pr: "pr_of_proto IPTCP = TCPPR" by (simp add: pr_of_proto_def)
  show ?thesis
    unfolding fill_bucket_def Let_def pr t b port_pool_facts option.case port_fill
    by simp
qed

lemma hold_nat_frame [simp]:
  "nat_port (hold_nat cfg i pr n s) = nat_port s" "tun_ports (hold_nat cfg i pr n s) = tun_ports s"
  by (auto simp: hold_nat_def nat_port_def tun_ports_def upd_nat_def upd_pool_def fun_eq_iff nport_of_def
      option.map_comp o_def)

lemma link_nat_frame:
  "nat_port (snd (link_nat cfg mem n s)) = nat_port s" "tun_ports (snd (link_nat cfg mem n s)) = tun_ports s"
  "fst (link_nat cfg mem n s) \<Longrightarrow> pool_at (snd (link_nat cfg mem n s)) = pool_at s"
proof -
  have h: "nat_port (snd (nat_heap_insert mem n s)) = nat_port s" "tun_ports (snd (nat_heap_insert mem n s)) = tun_ports s"
    using port_views_heap [OF only_heap_insert] by blast+
  have d: "nat_port (nat_heap_delete i s) = nat_port s" "tun_ports (nat_heap_delete i s) = tun_ports s" for i s
    using port_views_heap [OF only_heap_delete] by blast+
  have c: "tun_ports (upd_tunnel t (\<lambda>t. t\<lparr>t_tnatcnt := (t_tnatcnt t)(pr := t_tnatcnt t pr + 1)\<rparr>) s) = tun_ports s" for t pr s
    by (auto simp: tun_ports_def upd_tunnel_def fun_eq_iff option.map_comp o_def)
  show "nat_port (snd (link_nat cfg mem n s)) = nat_port s"
    by (simp add: link_nat_def Let_def split_beta h d split: prod.split option.split)
  show "tun_ports (snd (link_nat cfg mem n s)) = tun_ports s"
    by (simp add: link_nat_def Let_def split_beta h d c split: prod.split option.split)
  show "fst (link_nat cfg mem n s) \<Longrightarrow> pool_at (snd (link_nat cfg mem n s)) = pool_at s"
    using port_views_heap(1) [OF only_heap_insert [of s mem n]]
    by (simp add: link_nat_def Let_def split_beta split: prod.splits option.splits if_splits)
qed

lemma link_nat_fresh:
  assumes e: "nats s n = Some e" and pr: "pr = pr_of_proto (n_proto e)"
    and h: "nat_heap s = []" "nat_heap_last s = 0" and t: "nat_tree s pr = RbNil"
    and r: "t_tnat_root (tunof s (n_tunnel e)) pr = Leaf"
  shows "fst (link_nat cfg True n s)"
proof -
  let ?s1 = "snd (nat_heap_insert True n s)"
  have ins: "nat_heap_insert True n s = (True, ?s1)"
    using h by (simp add: nat_heap_insert_def nat_heap_resize_def Let_def)
  have oh: "only_heap s ?s1" by (rule only_heap_insert)
  have tr: "nat_tree ?s1 pr = RbNil" "tunof ?s1 = tunof s"
    using oh t by (auto simp: only_heap_def tunof_def fun_eq_iff)
  have rb: "nat_tree_insert cm n RbNil = (None, RbNode RB_BLACK RbNil n RbNil)" for cm
    by (simp add: nat_tree_insert_def nat_tree_insert_color.simps plug_def)
  have sp: "nat_splay_insert cm n Leaf = (None, Node Leaf n Leaf)" for cm
    by (simp add: nat_splay_insert_def nat_splay_splay_def nat_splay_assemble_def)
  have tp: "tunof (put_tree pr x s') = tunof s'" for x s' by (simp add: put_tree_def tunof_def fun_eq_iff)
  have ne: "natof s n = e" using e by (simp add: natof_def)
  show ?thesis unfolding link_nat_def Let_def ne pr [symmetric]
    by (subst ins) (simp add: tr rb sp tp r)
qed

lemma port_created:
  "\<exists>s'. new_nat default_config True True 5 (port_state\<lparr>nats := (nats port_state)(5 \<mapsto> port_flow)\<rparr>) = Some (True, s') \<and>
    tun_ports s' 3 = Some (0, (\<lambda>pr. 0), [TCPPR \<mapsto> (replicate 10 0)[0 := 2000]]) \<and>
    nat_port s' 6 = None \<and> (\<exists>P. pool_at s' 0 = Some P \<and> pool_addr P = port_addr \<and> in_range P TCPPR 2000 \<and> p_helds P = (\<lambda>pr. []))"
proof -
  let ?s1 = "port_state\<lparr>nats := (nats port_state)(5 \<mapsto> port_flow)\<rparr>"
  have e: "natof ?s1 5 = port_flow" "n_tunnel port_flow = 3" "n_proto port_flow = IPTCP" "tunof ?s1 3 = port_tunnel"
    "t_avail port_tunnel TCPPR = 0" "t_srcidx port_tunnel = 0" "pr_of_proto IPTCP = TCPPR"
    by (simp_all add: natof_def port_flow_def tunof_def port_state_pools port_tunnel_def pr_of_proto_def)
  obtain s2 where f: "fill_bucket default_config True 3 IPTCP ?s1 = Some s2" and s2: "nats s2 = [5 \<mapsto> port_flow]"
    "tunnels s2 = [3 \<mapsto> port_tunnel\<lparr>t_bucket := [TCPPR \<mapsto> (replicate 10 0)[0 := 2000]], t_avail := (\<lambda>pr. 0)(TCPPR := 1)\<rparr>]"
    "nat_heap s2 = []" "nat_heap_last s2 = 0" "nat_tree s2 = (\<lambda>pr. RbNil)"
    "pools s2 = [Some (port_pool\<lparr>p_freebm := (p_freebm port_pool)(TCPPR := Some [0])\<rparr>)]"
  proof -
    define s2 where "s2 = (upd_pool 0 (\<lambda>ns. ns\<lparr>p_freebm := (p_freebm ns)(TCPPR := Some [0])\<rparr>)
       (upd_tunnel 3 (\<lambda>t. t\<lparr>t_bucket := (t_bucket t)(TCPPR := Some ((replicate 10 0)[0 := 2000])),
          t_avail := (t_avail t)(TCPPR := 1)\<rparr>) (port_state\<lparr>arc4 := arc4 port_state\<rparr>)))\<lparr>nats := [5 \<mapsto> port_flow]\<rparr>"
    have "fill_bucket default_config True 3 IPTCP ?s1 = Some s2"
      by (simp only: fill_bucket_nats port_bucket option.map s2_def port_state_pools)
    moreover have "nats s2 = [5 \<mapsto> port_flow]" "nat_heap s2 = []" "nat_heap_last s2 = 0" "nat_tree s2 = (\<lambda>pr. RbNil)"
      "pools s2 = [Some (port_pool\<lparr>p_freebm := (p_freebm port_pool)(TCPPR := Some [0])\<rparr>)]"
      by (simp_all add: s2_def upd_pool_def upd_tunnel_def port_state_pools)
    moreover have "tunnels s2 = [3 \<mapsto> port_tunnel\<lparr>t_bucket := [TCPPR \<mapsto> (replicate 10 0)[0 := 2000]], t_avail := (\<lambda>pr. 0)(TCPPR := 1)\<rparr>]"
      by (simp add: s2_def upd_pool_def upd_tunnel_def port_state_pools) (simp add: port_tunnel_def)
    ultimately show ?thesis using that by blast
  qed
  define s3 where "s3 = upd_pool 0 (\<lambda>ns. ns\<lparr>p_natcnt := (p_natcnt ns)(TCPPR := p_natcnt ns TCPPR + 1)\<rparr>)
    (upd_nat 5 (\<lambda>e. e\<lparr>n_nport := [hi8 (uint (2000 :: u16)), lo8 (uint (2000 :: u16))]\<rparr>)
      (upd_tunnel 3 (\<lambda>t. t\<lparr>t_avail := (t_avail t)(TCPPR := 0)\<rparr>) s2))"
  have "t_bucket (tunof s2 3) TCPPR = Some ((replicate 10 0)[0 := 2000])" "t_avail (tunof s2 3) TCPPR = 1"
    by (simp_all add: tunof_def s2)
  moreover have "unat (isc_decr_u8 1) = 0" "isc_decr_u8 1 = 0" by (simp_all add: isc_decr_u8_def)
  ultimately have "new_nat default_config True True 5 ?s1 = Some (link_nat default_config True 5 s3)"
    unfolding new_nat_def Let_def e by (simp add: f s3_def)
  moreover have ok: "fst (link_nat default_config True 5 s3)"
    by (rule link_nat_fresh [where pr = TCPPR and e = "port_flow\<lparr>n_nport := [hi8 (uint (2000 :: u16)), lo8 (uint (2000 :: u16))]\<rparr>"])
      (simp_all add: s3_def upd_pool_def upd_nat_def upd_tunnel_def s2 e tunof_def, simp add: port_tunnel_def)
  moreover have "tun_ports s3 3 = Some (0, (\<lambda>pr. 0), [TCPPR \<mapsto> (replicate 10 0)[0 := 2000]])"
    by (simp add: s3_def upd_pool_def upd_nat_def upd_tunnel_def s2 tun_ports_def) (simp add: port_tunnel_def fun_eq_iff)
  then have "tun_ports (snd (link_nat default_config True 5 s3)) 3 = Some (0, (\<lambda>pr. 0), [TCPPR \<mapsto> (replicate 10 0)[0 := 2000]])"
    by (simp add: link_nat_frame)
  moreover have "nat_port s3 6 = None"
    by (simp add: s3_def upd_pool_def upd_nat_def upd_tunnel_def s2 nat_port_def)
  then have "nat_port (snd (link_nat default_config True 5 s3)) 6 = None" by (simp add: link_nat_frame)
  moreover have "\<exists>P. pool_at s3 0 = Some P \<and> pool_addr P = port_addr \<and> in_range P TCPPR 2000 \<and> p_helds P = (\<lambda>pr. [])"
    by (simp add: s3_def pool_at_def upd_pool_def upd_nat_def upd_tunnel_def s2 port_pool_facts)
      (simp add: pool_addr_def port_pool_facts in_range_def sub_def port_addr_def)
  then have "\<exists>P. pool_at (snd (link_nat default_config True 5 s3)) 0 = Some P \<and> pool_addr P = port_addr \<and> in_range P TCPPR 2000 \<and> p_helds P = (\<lambda>pr. [])"
    unfolding link_nat_frame(3) [OF ok] .
  ultimately show ?thesis by (metis prod.collapse)
qed

definition port_state2 :: aftr where
  "port_state2 = snd (the (new_nat default_config True True 5 (port_state\<lparr>nats := (nats port_state)(5 \<mapsto> port_flow)\<rparr>)))"

lemma port_flow_ok: "nats port_state 5 = None" "tunnels port_state (n_tunnel port_flow) = Some port_tunnel"
  "sub (n_nsrc port_flow) 0 4 = pool_addr (poolof port_state (t_srcidx port_tunnel))"
  by (simp_all add: port_state_pools port_flow_def port_tunnel_def poolof_def pool_addr_def port_pool_facts)

lemma port_state2_run:
  "new_nat default_config True True 5 (port_state\<lparr>nats := (nats port_state)(5 \<mapsto> port_flow)\<rparr>) = Some (True, port_state2)"
  "tun_ports port_state2 3 = Some (0, (\<lambda>pr. 0), [TCPPR \<mapsto> (replicate 10 0)[0 := 2000]])"
  "\<exists>P. pool_at port_state2 0 = Some P \<and> pool_addr P = port_addr \<and> in_range P TCPPR 2000 \<and> p_helds P = (\<lambda>pr. [])"
  "nat_port port_state2 6 = None"
  using port_created by (auto simp: port_state2_def)

lemma port_state2_reached: "(port_step default_config)\<^sup>*\<^sup>* aftr0 port_state2"
  by (rule rtranclp.rtrancl_into_rtrancl [OF port_state_reached])
    (rule port_step.create [OF port_flow_ok port_state2_run(1)])

lemma pool_at_upd_any: "pool_at (upd_pool i f s) j = (if j = i then map_option f (pool_at s j) else pool_at s j)"
  by (auto simp: pool_at_def upd_pool_def nth_list_update)

text \<open>Creating an entry keeps the address and the ranges of every pool.\<close>

definition pool_ranges :: "aftr \<Rightarrow> nat \<Rightarrow> (bytes \<times> (prclass \<Rightarrow> u16) \<times> (prclass \<Rightarrow> u16)) option" where
  "pool_ranges s i = map_option (\<lambda>P. (pool_addr P, p_minport P, p_maxport P)) (pool_at s i)"

lemma pool_ranges_eqI:
  "pool_at s = pool_at t \<Longrightarrow> pool_ranges s = pool_ranges t"
  by (simp add: pool_ranges_def fun_eq_iff)

lemma hold_ranges: "pool_ranges (hold_nat cfg i pr n s) = pool_ranges s"
  by (auto simp: pool_ranges_def hold_nat_def pool_at_upd_any fun_eq_iff option.map_comp o_def)

lemma link_nat_ranges: "pool_ranges (snd (link_nat cfg mem n s)) = pool_ranges s"
proof -
  have h: "pool_ranges (snd (nat_heap_insert mem n s)) = pool_ranges s" for mem n s
    by (rule pool_ranges_eqI [OF port_views_heap(1) [OF only_heap_insert]])
  have d: "pool_ranges (nat_heap_delete i s) = pool_ranges s" for i s
    by (rule pool_ranges_eqI [OF port_views_heap(1) [OF only_heap_delete]])
  have v: "pool_ranges (put_tree pr x s) = pool_ranges s" "pool_ranges (put_root t pr r s) = pool_ranges s"
    "pool_ranges (count_new n s) = pool_ranges s" "pool_ranges (upd_tunnel t g s) = pool_ranges s" for pr x s t r g n
    by (simp_all add: pool_ranges_def fun_eq_iff)
  show ?thesis
    by (simp add: link_nat_def Let_def split_beta hold_ranges h d v split: prod.split option.split)
qed

lemma fill_bucket_ranges: "fill_bucket cfg mem t proto s = Some s' \<Longrightarrow> pool_ranges s' = pool_ranges s"
  by (auto simp: fill_bucket_def Let_def pool_ranges_def pool_at_upd_any fun_eq_iff option.map_comp o_def
      split: option.splits if_splits)

lemma new_nat_ranges:
  assumes "new_nat cfg mb mh n s = Some (r, s')" shows "pool_ranges s' = pool_ranges s"
proof -
  have u: "pool_ranges (upd_pool i (\<lambda>ns. ns\<lparr>p_natcnt := f ns\<rparr>) s) = pool_ranges s" for i f s
    by (auto simp: pool_ranges_def pool_at_upd_any fun_eq_iff option.map_comp o_def)
  have v: "pool_ranges (upd_nat m h s) = pool_ranges s" "pool_ranges (upd_tunnel t g s) = pool_ranges s"
    "pool_ranges (s\<lparr>nats := x\<rparr>) = pool_ranges s" for m h s t g x
    by (simp_all add: pool_ranges_def fun_eq_iff)
  have l: "link_nat cfg mh n x = (r, s') \<Longrightarrow> pool_ranges s' = pool_ranges x" for x
    using link_nat_ranges [of cfg mh n x] by simp
  let ?t = "n_tunnel (natof s n)" and ?pr = "pr_of_proto (n_proto (natof s n))"
  show ?thesis
  proof (cases "t_avail (tunof s ?t) ?pr = 0")
    case True
    then obtain s2 where f: "fill_bucket cfg mb ?t (n_proto (natof s n)) s = Some s2"
      using assms by (auto simp: new_nat_def Let_def split: option.splits)
    have "pool_ranges s' = pool_ranges s2"
      using assms True f by (auto simp: new_nat_def Let_def v u split: option.splits dest!: l)
    then show ?thesis using fill_bucket_ranges [OF f] by simp
  next
    case False
    then show ?thesis using assms by (auto simp: new_nat_def Let_def v u split: option.splits dest!: l)
  qed
qed

lemma port_state2_port: "nat_port port_state2 5 = Some (TCPPR, port_addr, 2000)"
proof -
  have s: "port_inv port_state" by (rule port_reach_inv [OF port_state_reached default_bucksize])
  have pp: "poolof port_state (t_srcidx port_tunnel) = port_pool"
    by (simp add: poolof_def port_state_pools port_tunnel_def)
  obtain p where p: "nat_port port_state2 5 = Some (pr_of_proto (n_proto port_flow), pool_addr port_pool, p)"
    "in_range port_pool (pr_of_proto (n_proto port_flow)) p"
    using new_nat_inv [OF s port_flow_ok default_bucksize port_state2_run(1)] unfolding pp by auto
  have "pr_of_proto (n_proto port_flow) = TCPPR" by (simp add: pr_of_proto_def port_flow_def)
  moreover have "pool_addr port_pool = port_addr"
    by (simp add: pool_addr_def port_pool_facts sub_def port_addr_def)
  moreover have "p = 2000" using p(2) calculation by (simp add: in_range_def port_pool_facts)
  ultimately show ?thesis using p(1) by simp
qed

section \<open>Properties\<close>



text \<open>
  The port that new_nat gives to an entry belongs to the range of the pool of its
  tunnel, carries the external address of that pool, and nobody else has it: it is not free,
  in no bucket, and no other entry with this address and protocol uses it or waits with it.
\<close>

theorem new_nat_port_owned:
  assumes "(port_step cfg)\<^sup>*\<^sup>* aftr0 s" "\<And>pr. bucksize cfg pr \<noteq> 0"
    and "nats s n = None" "tunnels s (n_tunnel e) = Some T"
    and "sub (n_nsrc e) 0 4 = pool_addr (poolof s (t_srcidx T))"
    and "new_nat cfg True mem_heap n (s\<lparr>nats := (nats s)(n \<mapsto> e)\<rparr>) = Some (True, s')"
  shows "\<exists>i P p. pool_at s' i = Some P \<and> pool_addr P = sub (n_nsrc e) 0 4 \<and>
    in_range P (pr_of_proto (n_proto e)) p \<and> nat_port s' n = Some (pr_of_proto (n_proto e), pool_addr P, p) \<and>
    (\<forall>x. holds_port i P (tun_ports s') (nat_port s') (pr_of_proto (n_proto e)) p x \<longrightarrow> x = InEntry n)"
proof -
  let ?pr = "pr_of_proto (n_proto e)" and ?i = "t_srcidx T"
  have inv: "port_inv s" by (rule port_reach_inv [OF assms(1,2)])
  obtain P0 where P0: "pool_at s ?i = Some P0" "poolof s ?i = P0" using port_inv_tunnel [OF inv assms(4)] .
  from new_nat_inv [OF inv assms(3-5,2,6)] obtain p where inv': "port_inv s'"
    and p: "nat_port s' n = Some (?pr, pool_addr P0, p)" "in_range P0 ?pr p" unfolding P0(2) by auto
  have "pool_ranges s' ?i = Some (pool_addr P0, p_minport P0, p_maxport P0)"
    using new_nat_ranges [OF assms(6)] P0(1) by (simp add: pool_ranges_def)
  then obtain P where P: "pool_at s' ?i = Some P" "pool_addr P = pool_addr P0" "in_range P = in_range P0"
    by (auto simp: pool_ranges_def in_range_def fun_eq_iff)
  have "holds_port ?i P (tun_ports s') (nat_port s') ?pr p (InEntry n)" using p P by simp
  moreover have "in_range P ?pr p" using p P by simp
  ultimately have "x = InEntry n" if "holds_port ?i P (tun_ports s') (nat_port s') ?pr p x" for x
    using ports_okD(6) [OF inv' [unfolded port_inv_def] P(1) _ that] by blast
  then show ?thesis using P p assms(5) P0(2) by (intro exI [of _ ?i] exI [of _ P] exI [of _ p]) auto
qed

theorem new_nat_port_owned_witness:
  "\<exists>i P p. pool_at port_state2 i = Some P \<and> pool_addr P = port_addr \<and> in_range P TCPPR p \<and>
     nat_port port_state2 5 = Some (TCPPR, port_addr, p)"
proof -
  have "pr_of_proto (n_proto port_flow) = TCPPR" "sub (n_nsrc port_flow) 0 4 = port_addr"
    by (simp_all add: pr_of_proto_def port_flow_def port_addr_def sub_def)
  from new_nat_port_owned [OF port_state_reached default_bucksize port_flow_ok port_state2_run(1), unfolded this]
  obtain i P p where "pool_at port_state2 i = Some P" "pool_addr P = port_addr" "in_range P TCPPR p"
    "nat_port port_state2 5 = Some (TCPPR, pool_addr P, p)" by blast
  then show ?thesis by metis
qed

text \<open>
  Claim C24: free_heldnats gives back exactly what has waited long enough. In the hold queue of a
  pool and protocol the entries from the front whose time has come are freed, the first one
  that still has to wait stops the loop and stays with all behind it; exactly the ports of the
  freed entries become free, nothing else changes and the invariant of the ports is kept.
\<close>

theorem free_held_exact:
  fixes s :: aftr and P :: pool and pr :: prclass and i :: nat
  assumes "port_inv s" "pool_at s i = Some P"
  defines "over \<equiv> \<lambda>h. n_timeout (natof s h) \<le> seconds s"
  defines "gone \<equiv> set (takeWhile over (p_helds P pr))"
  shows "port_inv (free_held i pr s) \<and>
    nats (free_held i pr s) = (\<lambda>n. if n \<in> gone then None else nats s n) \<and>
    (\<exists>P'. pool_at (free_held i pr s) = (pool_at s)(i \<mapsto> P') \<and>
       p_helds P' = (p_helds P)(pr := dropWhile over (p_helds P pr)) \<and>
       (\<forall>p. port_free P' pr p \<longleftrightarrow> port_free P pr p \<or> (\<exists>n \<in> gone. nat_port s n = Some (pr, pool_addr P, p))))"
proof -
  have over: "over = hold_over s" by (simp add: over_def hold_over_def fun_eq_iff)
  note spec = free_held_spec [OF assms(1,2), of pr]
  show ?thesis
    using spec unfolding gone_def over by blast
qed

theorem free_held_exact_witness:
  "\<exists>s P'. port_inv s \<and> nat_port s 5 = Some (TCPPR, port_addr, 2000) \<and> nats (free_held 0 TCPPR s) 5 = None \<and>
     pool_at (free_held 0 TCPPR s) 0 = Some P' \<and> port_free P' TCPPR 2000"
proof -
  obtain P where P: "pool_at port_state2 0 = Some P" "pool_addr P = port_addr" "in_range P TCPPR 2000"
    "p_helds P = (\<lambda>pr. [])" using port_state2_run(3) by (elim exE conjE)
  define s where "s = (hold_nat default_config 0 TCPPR 5 port_state2)\<lparr>seconds := seconds port_state2 + 120\<rparr>"
  let ?P = "P\<lparr>p_helds := (p_helds P)(TCPPR := [5])\<rparr>"
  have inv: "port_inv port_state2" by (rule port_reach_inv [OF port_state2_reached default_bucksize])
  have "port_inv (hold_nat default_config 0 TCPPR 5 port_state2)"
    by (rule hold_inv [OF inv P(1) _ P(3)]) (simp_all add: port_state2_port P)
  from port_step_inv [OF port_step.clock this default_bucksize] have s: "port_inv s" unfolding s_def .
  obtain e where e: "nats port_state2 5 = Some e" using port_state2_port by (auto simp: nat_port_def)
  have views: "pool_at (t\<lparr>seconds := x\<rparr>) = pool_at t" "nat_port (t\<lparr>seconds := x\<rparr>) = nat_port t" for t x
    by (simp_all add: pool_at_def nat_port_def fun_eq_iff)
  have at: "pool_at s 0 = Some ?P" by (simp add: s_def views hold_views [OF P(1) e] P(4))
  have np: "nat_port s 5 = Some (TCPPR, port_addr, 2000)" by (simp add: s_def views port_state2_port)
  have "n_timeout (natof s 5) \<le> seconds s"
    by (simp add: s_def hold_nat_def natof_def upd_nat_def upd_pool_def e default_config_def)
  then have tw: "takeWhile (\<lambda>h. n_timeout (natof s h) \<le> seconds s) (p_helds ?P TCPPR) = [5]" by simp
  from free_held_exact [OF s at, of TCPPR, unfolded tw] np P(2)
  obtain P' where "pool_at (free_held 0 TCPPR s) 0 = Some P'" "port_free P' TCPPR 2000" by auto
  moreover have "nats (free_held 0 TCPPR s) 5 = None"
    using free_held_exact [OF s at, of TCPPR, unfolded tw] by simp
  ultimately show ?thesis using s np by blast
qed

text \<open>
  Claim C37: an emptied bucket is not forgotten. new_nat means to free it, but tests the address
  of the counters; when the next fill_bucket cannot allocate, the old bucket is still there
  and its first port is given away again. From a state that the daemon reaches, two entries
  end up with the same external address and port.
\<close>

theorem stale_bucket_reuses_port:
  "\<exists>s r s'. (port_step default_config)\<^sup>*\<^sup>* aftr0 s \<and> nats s 6 = None \<and>
     new_nat default_config False True 6 (s\<lparr>nats := (nats s)(6 \<mapsto> port_flow\<lparr>n_dst := [203, 0, 113, 9]\<rparr>)\<rparr>) = Some (r, s') \<and>
     nat_port s' 5 = Some (TCPPR, port_addr, 2000) \<and> nat_port s' 6 = Some (TCPPR, port_addr, 2000)"
proof -
  let ?e = "port_flow\<lparr>n_dst := [203, 0, 113, 9]\<rparr>" and ?s = "port_state2"
  let ?s1 = "?s\<lparr>nats := (nats ?s)(6 \<mapsto> ?e)\<rparr>"
  have n6: "nats ?s 6 = None" using port_state2_run(4) by (simp add: nat_port_def)
  have e: "natof ?s1 6 = ?e" "n_tunnel ?e = 3" "pr_of_proto (n_proto ?e) = TCPPR" "tunof ?s1 3 = tunof ?s 3"
    by (simp_all add: natof_def tunof_def port_flow_def pr_of_proto_def)
  have t: "t_avail (tunof ?s 3) TCPPR = 0" "t_bucket (tunof ?s 3) TCPPR = Some ((replicate 10 0)[0 := 2000])"
    using port_state2_run(2) by (auto simp: tun_ports_def tunof_def)
  have f: "fill_bucket default_config False 3 proto ?s1 = Some ?s1" for proto
    by (simp add: fill_bucket_def Let_def split: option.split)
  define s3 where "s3 = upd_pool (t_srcidx (tunof ?s 3)) (\<lambda>ns. ns\<lparr>p_natcnt := (p_natcnt ns)(TCPPR := p_natcnt ns TCPPR + 1)\<rparr>)
    (upd_nat 6 (\<lambda>e. e\<lparr>n_nport := [hi8 (uint (2000 :: u16)), lo8 (uint (2000 :: u16))]\<rparr>)
      (upd_tunnel 3 (\<lambda>t. t\<lparr>t_avail := (t_avail t)(TCPPR := 0)\<rparr>) ?s1))"
  have z: "isc_decr_u8 0 = 0" by (simp add: isc_decr_u8_def)
  have "new_nat default_config False True 6 ?s1 = Some (link_nat default_config True 6 s3)"
    unfolding new_nat_def Let_def e by (simp add: t f z s3_def e(4))
  moreover have "nat_port (snd (link_nat default_config True 6 s3)) = nat_port s3" by (rule link_nat_frame)
  moreover have "nat_port s3 5 = nat_port ?s 5"
    by (simp add: s3_def nat_port_def upd_pool_def upd_nat_def upd_tunnel_def)
  moreover have "nat_port s3 6 = Some (TCPPR, port_addr, 2000)"
  proof -
    have "nats (upd_tunnel 3 (\<lambda>t. t\<lparr>t_avail := (t_avail t)(TCPPR := 0)\<rparr>) ?s1) 6 = Some ?e" by (simp add: upd_tunnel_def)
    from nat_port_upd [OF this, of "\<lambda>e. e\<lparr>n_nport := [hi8 (uint (2000 :: u16)), lo8 (uint (2000 :: u16))]\<rparr>"]
    show ?thesis
      unfolding s3_def using e(3) nport_hi_lo [of 2000 ?e]
      by (simp add: port_flow_def sub_def port_addr_def)
  qed
  ultimately show ?thesis
    using port_state2_reached n6 port_state2_port by (metis prod.collapse)
qed

end
