(* ===== verification/Aftr_Tcp.thy ===== *)
theory Aftr_Tcp
  imports Aftr_Heap
begin

text \<open>
  What the daemon does with TCP headers: patch_tcpmss, which lowers the maximum segment size
  of a SYN to what the tunnel can carry, and the connection state of an entry (tcpstate_in,
  tcpstate_out), which shortens its life when the connection is closed from both sides.
\<close>

section \<open>The MSS option\<close>

text \<open>
  The scan over the options. \<open>None\<close> is an early return of the code, else the result is the
  offset of the first MSS option, 0 if there is none. The bytes read are before \<open>len\<close>.
\<close>

function mss_scan :: "bytes \<Rightarrow> nat \<Rightarrow> nat \<Rightarrow> nat \<Rightarrow> nat option" where
  "mss_scan buf4 len i found =
     (if i < len then
        if buf4 ! i = TCPOPTEOL then Some found
        else if buf4 ! i = TCPOPTNOP then mss_scan buf4 len (i + 1) found
        else if i + 2 > len then None
        else if buf4 ! (i + 1) < 2 then None
        else if i + unat (buf4 ! (i + 1)) > len then None
        else if buf4 ! i = TCPOPTMD5 then None
        else
          let found = (if buf4 ! i = TCPOPTMSS then if found \<noteq> 0 then found else i else found)
          in mss_scan buf4 len (i + unat (buf4 ! (i + 1))) found
      else Some found)"
  by auto
termination
  by (relation "measure (\<lambda>(buf4, len, i, found). len - i)") (auto simp: word_less_nat_alt)

declare mss_scan.simps [simp del]

text \<open>The length of the TCP header in bytes: \<open>(buf4[TCPOFF] & TCPOFFMSK) >> 2\<close>.\<close>

definition tcp_hl :: "bytes \<Rightarrow> nat" where
  "tcp_hl buf4 = unat (drop_bit 2 (buf4 ! TCPOFF AND TCPOFFMSK))"

definition patch_tcpmss :: "tunnel \<Rightarrow> bytes \<Rightarrow> nat \<Rightarrow> bytes" where
  "patch_tcpmss t buf4 len =
     (let hl = tcp_hl buf4
      in if t_flags t AND TUNMSSFLG = 0 then buf4
         else if buf4 ! TCPFLAGS AND TCPFSYN = 0 then buf4
         else if hl + IPHDRLEN \<noteq> len then buf4
         else if hl \<le> TCPHDRLEN then buf4
         else case mss_scan buf4 len (IPHDRLEN + TCPHDRLEN) 0 of
           None \<Rightarrow> buf4
         | Some found \<Rightarrow>
             if found = 0 then buf4
             else if buf4 ! (found + 1) \<noteq> TCPOPTMSSLEN then buf4
             else
               let i = found + 2; mss = be16 (buf4 ! i) (buf4 ! (i + 1))
               in if mss + 40 \<le> uint (t_mtu t) - 40 then buf4
                  else case fix_msscksum (sub buf4 TCPCKSUMH 2) (sub buf4 i 2) (t_mtu t - 80) of
                         (ck, m) \<Rightarrow> put (put buf4 i m) TCPCKSUMH ck)"

section \<open>The connection state\<close>

text \<open>
  tcpstate_in for a packet from the tunnel, tcpstate_out for one from the Internet; \<open>flags\<close>
  is the byte of TCP flags. The result is true when the entry now expires earlier.
\<close>

definition tcp_lifetime :: "config \<Rightarrow> u8 \<Rightarrow> u8 \<Rightarrow> int" where
  "tcp_lifetime cfg flags st =
     (if flags AND TCPFRST \<noteq> 0 then
        if st AND TCP_ACKED \<noteq> 0 then nat_lifetime cfg ! 3 else nat_lifetime cfg ! 4
      else nat_lifetime cfg ! 1)"

definition tcp_shorten :: "config \<Rightarrow> u8 \<Rightarrow> nid \<Rightarrow> aftr \<Rightarrow> bool \<times> aftr" where
  "tcp_shorten cfg flags n s =
     (let s = upd_nat n (\<lambda>e. e\<lparr>n_lifetime := tcp_lifetime cfg flags (n_tcpst e)\<rparr>) s
      in if n_timeout (natof s n) \<le> seconds s + n_lifetime (natof s n) then (False, s)
         else
           let s = upd_nat n (\<lambda>e. e\<lparr>n_timeout := seconds s + n_lifetime e\<rparr>) s
           in (True, nat_heap_increased (n_heap_index (natof s n)) s))"

definition tcp_ack :: "u8 \<Rightarrow> nid \<Rightarrow> aftr \<Rightarrow> aftr" where
  "tcp_ack flags n s =
     (if n_tcpst (natof s n) = TCP_DEFAULT \<and> flags AND TCPFACK \<noteq> 0
      then upd_nat n (\<lambda>e. e\<lparr>n_tcpst := TCP_ACKED\<rparr>) s else s)"

definition tcpstate_in :: "config \<Rightarrow> u8 \<Rightarrow> nid \<Rightarrow> aftr \<Rightarrow> bool \<times> aftr" where
  "tcpstate_in cfg flags n s =
     (if n_timeout (natof s n) = 0 then (False, s)
      else
        let s = tcp_ack flags n s
        in if flags AND (TCPFFIN OR TCPFRST) = 0 then (False, s)
           else if flags AND TCPFRST = 0 \<and> n_tcpst (natof s n) AND TCP_CLOSED_IN \<noteq> 0 then (False, s)
           else
             let s = upd_nat n (\<lambda>e. e\<lparr>n_tcpst := n_tcpst e OR
                       (if flags AND TCPFRST \<noteq> 0 then TCP_CLOSED_BOTH else TCP_CLOSED_IN)\<rparr>) s
             in if n_tcpst (natof s n) AND TCP_CLOSED_OUT = 0 then (False, s)
                else tcp_shorten cfg flags n s)"

definition tcpstate_out :: "config \<Rightarrow> u8 \<Rightarrow> nid \<Rightarrow> aftr \<Rightarrow> bool \<times> aftr" where
  "tcpstate_out cfg flags n s =
     (if n_timeout (natof s n) = 0 then (False, s)
      else
        let s = tcp_ack flags n s
        in if flags AND (TCPFFIN OR TCPFRST) = 0 then (False, s)
           else if flags AND TCPFRST = 0 \<and> n_tcpst (natof s n) AND TCP_CLOSED_OUT \<noteq> 0 then (False, s)
           else
             let s = upd_nat n (\<lambda>e. e\<lparr>n_tcpst := n_tcpst e OR
                       (if flags AND TCPFRST \<noteq> 0 then TCP_CLOSED_BOTH else TCP_CLOSED_OUT)\<rparr>) s
             in if n_tcpst (natof s n) AND TCP_CLOSED_IN = 0 then (False, s)
                else tcp_shorten cfg flags n s)"

section \<open>The MSS patch stays in the packet\<close>

lemma mss_scan_step:
  assumes "i < len" "buf4 ! i \<noteq> TCPOPTEOL" "buf4 ! i \<noteq> TCPOPTNOP" "mss_scan buf4 len i found = Some j"
  shows "i + 2 \<le> len \<and> \<not> buf4 ! (i + 1) < 2 \<and> i + unat (buf4 ! (i + 1)) \<le> len \<and> buf4 ! i \<noteq> TCPOPTMD5 \<and>
    mss_scan buf4 len (i + unat (buf4 ! (i + 1)))
      (if buf4 ! i = TCPOPTMSS then if found \<noteq> 0 then found else i else found) = Some j"
  using assms(4) assms(1-3) by (subst (asm) mss_scan.simps) (auto simp: Let_def split: if_splits)

lemma mss_scan_spec:
  "mss_scan buf4 len i found = Some j \<Longrightarrow>
     j = found \<or> i \<le> j \<and> j + unat (buf4 ! (j + 1)) \<le> len \<and> buf4 ! j = TCPOPTMSS"
proof (induction buf4 len i found rule: mss_scan.induct)
  case (1 buf4 len i found)
  consider "\<not> i < len \<or> buf4 ! i = TCPOPTEOL" | (nop) "i < len" "buf4 ! i = TCPOPTNOP"
    | (opt) "i < len" "buf4 ! i \<noteq> TCPOPTEOL" "buf4 ! i \<noteq> TCPOPTNOP" by blast
  then show ?case
  proof cases
    case 1
    then show ?thesis using 1(1) "1.prems" by (subst (asm) mss_scan.simps) (auto split: if_splits)
  next
    case nop
    then have "mss_scan buf4 len (i + 1) found = Some j"
      using "1.prems" by (subst (asm) mss_scan.simps) simp
    then show ?thesis using "1.IH"(1) [OF nop(1) _ nop(2)] nop by auto
  next
    case opt
    note st = mss_scan_step [OF opt "1.prems"]
    have "j = (if buf4 ! i = TCPOPTMSS then if found \<noteq> 0 then found else i else found) \<or>
        i + unat (buf4 ! (i + 1)) \<le> j \<and> j + unat (buf4 ! (j + 1)) \<le> len \<and> buf4 ! j = TCPOPTMSS"
      by (rule "1.IH"(2) [OF opt _ _ _ _ refl]) (use st in auto)
    then show ?thesis using st by (auto split: if_splits)
  qed
qed

lemma mss_scan_bounds:
  assumes "mss_scan buf4 len 40 0 = Some j" "j \<noteq> 0" "buf4 ! (j + 1) = TCPOPTMSSLEN"
  shows "40 \<le> j \<and> j + 4 \<le> len"
  using mss_scan_spec [OF assms(1)] assms(2,3) by simp

text \<open>
  The options of a header, independently of the scan: \<open>opt_next\<close> is where the option after the
  one at \<open>i\<close> starts, \<open>opt_from\<close> relates an option to all that follow it, up to the end-of-list
  option or the end of the packet. \<open>first_mss\<close> is the first option of kind MSS of a header.
\<close>

definition opt_next :: "bytes \<Rightarrow> nat \<Rightarrow> nat \<Rightarrow> nat option" where
  "opt_next b len i =
     (if i < len \<and> b ! i = TCPOPTNOP then Some (i + 1)
      else if i + 2 \<le> len \<and> b ! i \<noteq> TCPOPTEOL \<and> 2 \<le> unat (b ! (i + 1)) \<and> i + unat (b ! (i + 1)) \<le> len
      then Some (i + unat (b ! (i + 1)))
      else None)"

inductive opt_from :: "bytes \<Rightarrow> nat \<Rightarrow> nat \<Rightarrow> nat \<Rightarrow> bool" for b len where
  opt_here: "opt_from b len i i"
| opt_later: "opt_next b len i = Some k \<Longrightarrow> opt_from b len k j \<Longrightarrow> opt_from b len i j"

text \<open>Every option of the header has a length inside the packet, and none is an MD5 signature.\<close>

definition opts_ok :: "bytes \<Rightarrow> nat \<Rightarrow> nat \<Rightarrow> bool" where
  "opts_ok b len i \<longleftrightarrow> (\<forall>j < len. opt_from b len i j \<longrightarrow>
     b ! j = TCPOPTEOL \<or> b ! j = TCPOPTNOP \<or>
     b ! j \<noteq> TCPOPTMD5 \<and> j + 2 \<le> len \<and> 2 \<le> unat (b ! (j + 1)) \<and> j + unat (b ! (j + 1)) \<le> len)"

definition first_mss :: "bytes \<Rightarrow> nat \<Rightarrow> nat \<Rightarrow> nat \<Rightarrow> bool" where
  "first_mss b len i j \<longleftrightarrow> j < len \<and> opt_from b len i j \<and> b ! j = TCPOPTMSS \<and>
     (\<forall>k < j. opt_from b len i k \<longrightarrow> b ! k \<noteq> TCPOPTMSS)"

lemma opt_from_unfold:
  "opt_from b len i j \<longleftrightarrow> j = i \<or> (\<exists>k. opt_next b len i = Some k \<and> opt_from b len k j)"
  by (auto elim: opt_from.cases intro: opt_from.intros)

lemma opt_next_less: "opt_next b len i = Some k \<Longrightarrow> i < k"
  by (auto simp: opt_next_def split: if_splits)

lemma opt_from_le: "opt_from b len i j \<Longrightarrow> i \<le> j"
  by (induction rule: opt_from.induct) (auto dest: opt_next_less)

lemma opt_from_end: "opt_next b len i = None \<Longrightarrow> opt_from b len i j \<longleftrightarrow> j = i"
  by (subst opt_from_unfold) auto

lemma opt_from_next: "opt_next b len i = Some k \<Longrightarrow> opt_from b len i j \<longleftrightarrow> j = i \<or> opt_from b len k j"
  by (subst opt_from_unfold) auto

lemma opts_ok_next:
  assumes "opt_next b len i = Some k" "i < len"
  shows "opts_ok b len i \<longleftrightarrow> b ! i \<noteq> TCPOPTMD5 \<and> opts_ok b len k"
proof -
  let ?P = "\<lambda>j. b ! j = TCPOPTEOL \<or> b ! j = TCPOPTNOP \<or>
     b ! j \<noteq> TCPOPTMD5 \<and> j + 2 \<le> len \<and> 2 \<le> unat (b ! (j + 1)) \<and> j + unat (b ! (j + 1)) \<le> len"
  have "opts_ok b len i \<longleftrightarrow> ?P i \<and> opts_ok b len k"
    unfolding opts_ok_def opt_from_next [OF assms(1)] using assms(2) by blast
  moreover have "?P i \<longleftrightarrow> b ! i \<noteq> TCPOPTMD5"
    using assms by (auto simp: opt_next_def split: if_splits)
  ultimately show ?thesis by simp
qed

lemma first_mss_next:
  assumes "opt_next b len i = Some k" "i < len"
  shows "first_mss b len i j \<longleftrightarrow> (if b ! i = TCPOPTMSS then j = i else first_mss b len k j)"
proof -
  have "i \<noteq> l \<and> i < l" if "opt_from b len k l" for l
    using opt_from_le [OF that] opt_next_less [OF assms(1)] by simp
  then show ?thesis
    using assms(2) unfolding first_mss_def opt_from_next [OF assms(1)]
    by (auto dest: less_asym)
qed

lemma no_mss_next:
  assumes "opt_next b len i = Some k" "i < len"
  shows "(\<exists>j. first_mss b len i j) \<longleftrightarrow> b ! i = TCPOPTMSS \<or> (\<exists>j. first_mss b len k j)"
  using first_mss_next [OF assms] by auto

lemma first_mss_end:
  "opt_next b len i = None \<Longrightarrow> first_mss b len i j \<longleftrightarrow> j = i \<and> i < len \<and> b ! i = TCPOPTMSS"
  by (auto simp: first_mss_def opt_from_end)

lemma mss_scan_iff:
  "0 < i \<Longrightarrow> mss_scan b len i found = Some f \<longleftrightarrow>
     opts_ok b len i \<and> (if found \<noteq> 0 then f = found
       else first_mss b len i f \<or> f = 0 \<and> (\<nexists>j. first_mss b len i j))"
proof (induction b len i found rule: mss_scan.induct)
  case (1 b len i found)
  let ?n = "i + unat (b ! (i + 1))"
  consider (fin) "\<not> i < len \<or> b ! i = TCPOPTEOL" | (nop) "i < len" "b ! i = TCPOPTNOP"
    | (bad) "i < len" "b ! i \<noteq> TCPOPTEOL" "b ! i \<noteq> TCPOPTNOP"
        "\<not> (i + 2 \<le> len \<and> 2 \<le> unat (b ! (i + 1)) \<and> ?n \<le> len)"
    | (opt) "i < len" "b ! i \<noteq> TCPOPTEOL" "b ! i \<noteq> TCPOPTNOP"
        "i + 2 \<le> len" "2 \<le> unat (b ! (i + 1))" "?n \<le> len" by blast
  then show ?case
  proof cases
    case fin
    then have "opt_next b len i = None" by (auto simp: opt_next_def)
    from first_mss_end [OF this] opt_from_end [OF this] fin show ?thesis
      by (subst mss_scan.simps) (auto simp: opts_ok_def)
  next
    case nop
    then have nx: "opt_next b len i = Some (i + 1)" by (simp add: opt_next_def)
    have "mss_scan b len i found = mss_scan b len (i + 1) found"
      using nop by (subst mss_scan.simps) simp
    with "1.IH"(1) [OF nop(1) _ nop(2)] nop show ?thesis
      unfolding no_mss_next [OF nx nop(1)] first_mss_next [OF nx nop(1)] opts_ok_next [OF nx nop(1)]
      by simp
  next
    case bad
    have "mss_scan b len i found = None"
      using bad by (subst mss_scan.simps) (auto simp: word_less_nat_alt)
    moreover have "\<not> opts_ok b len i"
      using bad opt_here [of b len i] unfolding opts_ok_def by blast
    ultimately show ?thesis by simp
  next
    case opt
    then have nx: "opt_next b len i = Some ?n" by (simp add: opt_next_def)
    have two: "\<not> b ! (i + 1) < 2" using opt by (simp add: word_less_nat_alt)
    show ?thesis
    proof (cases "b ! i = TCPOPTMD5")
      case True
      then have "mss_scan b len i found = None" using opt two by (subst mss_scan.simps) simp
      with True show ?thesis unfolding opts_ok_next [OF nx opt(1)] by simp
    next
      case False
      let ?f = "if b ! i = TCPOPTMSS then if found \<noteq> 0 then found else i else found"
      have "mss_scan b len i found = mss_scan b len ?n ?f"
        using opt two False by (subst mss_scan.simps) (simp add: Let_def)
      moreover have "mss_scan b len ?n ?f = Some f \<longleftrightarrow>
         opts_ok b len ?n \<and> (if ?f \<noteq> 0 then f = ?f
           else first_mss b len ?n f \<or> f = 0 \<and> (\<nexists>j. first_mss b len ?n j))"
        by (rule "1.IH"(2) [OF opt(1-3) _ two _ False refl]) (use opt "1.prems" in auto)
      ultimately show ?thesis
        using False "1.prems"
        unfolding no_mss_next [OF nx opt(1)] first_mss_next [OF nx opt(1)] opts_ok_next [OF nx opt(1)]
        by (auto split: if_splits)
    qed
  qed
qed

text \<open>
  When a patch is due: a SYN without payload into a tunnel with the flag, whose options are all
  well formed, whose first MSS option has the right length and announces more than fits.
\<close>

definition mss_due :: "tunnel \<Rightarrow> bytes \<Rightarrow> nat \<Rightarrow> nat \<Rightarrow> bool" where
  "mss_due t b len j \<longleftrightarrow> t_flags t AND TUNMSSFLG \<noteq> 0 \<and> b ! TCPFLAGS AND TCPFSYN \<noteq> 0 \<and>
     tcp_hl b + IPHDRLEN = len \<and> TCPHDRLEN < tcp_hl b \<and> opts_ok b len 40 \<and> first_mss b len 40 j \<and>
     b ! (j + 1) = TCPOPTMSSLEN \<and> uint (t_mtu t) - 80 < be16 (b ! (j + 2)) (b ! (j + 3))"

lemma mss_scan_first:
  "mss_scan b len 40 0 = Some f \<and> f \<noteq> 0 \<longleftrightarrow> opts_ok b len 40 \<and> first_mss b len 40 f"
  using mss_scan_iff [of 40 b len 0 f] opt_from_le [of b len 40 f] by (auto simp: first_mss_def)

lemma first_mss_unique: "first_mss b len i j \<Longrightarrow> first_mss b len i k \<Longrightarrow> j = k"
  unfolding first_mss_def by (metis linorder_less_linear)

lemma patch_tcpmss_due:
  assumes "mss_due t b len j"
  shows "patch_tcpmss t b len =
     (case fix_msscksum (sub b TCPCKSUMH 2) (sub b (j + 2) 2) (t_mtu t - 80) of
        (ck, m) \<Rightarrow> put (put b (j + 2) m) TCPCKSUMH ck)"
proof -
  have "mss_scan b len 40 0 = Some j \<and> j \<noteq> 0"
    using assms mss_scan_first by (simp add: mss_due_def)
  then show ?thesis
    using assms by (auto simp: patch_tcpmss_def mss_due_def Let_def numeral_3_eq_3)
qed

lemma patch_tcpmss_not_due:
  assumes "\<nexists>j. mss_due t b len j"
  shows "patch_tcpmss t b len = b"
proof -
  have "mss_due t b len f"
    if "mss_scan b len 40 0 = Some f" "f \<noteq> 0" "t_flags t AND TUNMSSFLG \<noteq> 0"
      "b ! TCPFLAGS AND TCPFSYN \<noteq> 0" "tcp_hl b + IPHDRLEN = len" "\<not> tcp_hl b \<le> TCPHDRLEN"
      "b ! (f + 1) = TCPOPTMSSLEN" "\<not> be16 (b ! (f + 2)) (b ! (f + 2 + 1)) + 40 \<le> uint (t_mtu t) - 40" for f
    using that mss_scan_first [of b len f] by (simp add: mss_due_def numeral_3_eq_3)
  with assms show ?thesis
    by (auto simp: patch_tcpmss_def Let_def split: if_splits option.splits)
qed

text \<open>
  Claim C22: patch_tcpmss changes a packet exactly when a patch is due (\<open>mss_due\<close>: a SYN with
  nothing behind its header, into a tunnel with the MSS flag, whose options are well formed and
  carry no MD5 signature, and whose first MSS option has length 4 and announces more than the
  tunnel MTU less 80). Then it writes only the two bytes of that first MSS option, which lies
  behind the fixed header and inside the packet and becomes the tunnel MTU less 80, and the
  checksum field.
\<close>

theorem patch_tcpmss_first_mss:
  assumes "len \<le> length buf4" "80 \<le> uint (t_mtu t)"
  shows "patch_tcpmss t buf4 len = buf4 \<and> (\<nexists>j. mss_due t buf4 len j) \<or>
    (\<exists>j ck m. mss_due t buf4 len j \<and> 40 \<le> j \<and> j + 4 \<le> len \<and> length ck = 2 \<and> length m = 2 \<and>
       be16 (m ! 0) (m ! 1) = uint (t_mtu t) - 80 \<and>
       patch_tcpmss t buf4 len = put (put buf4 (j + 2) m) TCPCKSUMH ck \<and> patch_tcpmss t buf4 len \<noteq> buf4)"
proof (cases "\<exists>j. mss_due t buf4 len j")
  case True
  then obtain j where j: "mss_due t buf4 len j" ..
  have jl: "40 \<le> j" "j + 4 \<le> len"
    using j opt_from_le [of buf4 len 40 j] by (auto simp: mss_due_def first_mss_def opts_ok_def)
  obtain ck m where f: "fix_msscksum (sub buf4 TCPCKSUMH 2) (sub buf4 (j + 2) 2) (t_mtu t - 80) = (ck, m)"
    by fastforce
  then have p: "patch_tcpmss t buf4 len = put (put buf4 (j + 2) m) TCPCKSUMH ck"
    using patch_tcpmss_due [OF j] by simp
  have "length (sub buf4 TCPCKSUMH 2) = 2" "length (sub buf4 (j + 2) 2) = 2" using assms jl by simp_all
  note ms = fix_msscksum_cong [OF this f]
  have mt: "be16 (m ! 0) (m ! 1) = uint (t_mtu t) - 80"
    using ms(3) assms(2) by (simp add: uint_sub_if')
  have "be16 (put (put buf4 (j + 2) m) TCPCKSUMH ck ! (j + 2)) (put (put buf4 (j + 2) m) TCPCKSUMH ck ! (j + 3))
      = be16 (m ! 0) (m ! 1)"
    using ms(1,2) jl assms(1) by (simp add: nth_put)
  then have "put (put buf4 (j + 2) m) TCPCKSUMH ck \<noteq> buf4"
    using j mt by (auto simp: mss_due_def)
  with p j jl ms(1,2) mt show ?thesis by metis
qed (simp add: patch_tcpmss_not_due)

definition mss_tunnel :: "u16 \<Rightarrow> tunnel" where
  "mss_tunnel mtu = \<lparr>t_remote = replicate 16 0, t_flags = TUNMSSFLG, t_frg6cnt = 0, t_frg4cnt = 0, t_mtu = mtu,
     t_hash = 0, t_tnat_root = (\<lambda>pr. Leaf), t_srcidx = 0, t_tnatcnt = (\<lambda>pr. 0), t_lastnat = 0, t_tnatrt = (\<lambda>pr. 0),
     t_avail = (\<lambda>pr. 0), t_bucket = (\<lambda>pr. None), t_nnaddr = replicate 4 0, t_nnplen = 0, t_ngeneration = 0\<rparr>"

text \<open>A SYN that announces 1460 into a tunnel with MTU 1420.\<close>

definition syn_packet :: bytes where
  "syn_packet = (replicate 44 0)[TCPOFF := 0x60, TCPFLAGS := TCPFSYN, 40 := TCPOPTMSS, 41 := 4, 42 := 5, 43 := 0xb4]"

lemma syn_patched: "patch_tcpmss (mss_tunnel 1420) syn_packet 44 \<noteq> syn_packet"
proof -
  have flags: "t_flags (mss_tunnel 1420) = 1" "t_mtu (mss_tunnel 1420) = 1420" by (simp_all add: mss_tunnel_def)
  have hl: "tcp_hl syn_packet = 24" by code_simp
  have b: "syn_packet ! 33 = 2" "syn_packet ! 40 = 2" "syn_packet ! 41 = 4" "syn_packet ! 42 = 5" "syn_packet ! 43 = 0xb4"
    "length syn_packet = 44" by code_simp+
  have scan: "mss_scan syn_packet 44 40 0 = Some 40"
    using b by (simp add: mss_scan.simps [of syn_packet 44 40] mss_scan.simps [of syn_packet 44 44])
  obtain ck m where f: "fix_msscksum (sub syn_packet 36 2) (sub syn_packet 42 2) 1340 = (ck, m)" by fastforce
  have "length (sub syn_packet 36 2) = 2" "length (sub syn_packet 42 2) = 2" using b by simp_all
  note ms = fix_msscksum_cong [OF this f]
  have p: "patch_tcpmss (mss_tunnel 1420) syn_packet 44 = put (put syn_packet 42 m) 36 ck"
    using flags hl b scan f by (simp add: patch_tcpmss_def be16_eq)
  have "be16 (syn_packet ! 42) (syn_packet ! 43) \<noteq> be16 (m ! 0) (m ! 1)" using ms(3) b by (simp add: be16_eq)
  moreover have "patch_tcpmss (mss_tunnel 1420) syn_packet 44 ! 42 = m ! 0"
    "patch_tcpmss (mss_tunnel 1420) syn_packet 44 ! 43 = m ! 1"
    unfolding p using ms b by (simp_all add: nth_put)
  ultimately show ?thesis by metis
qed

theorem patch_tcpmss_first_mss_witness:
  "\<exists>i m ck. patch_tcpmss (mss_tunnel 1420) syn_packet 44 = put (put syn_packet i m) TCPCKSUMH ck \<and>
     be16 (m ! 0) (m ! 1) = 1340"
proof -
  have len: "44 \<le> length syn_packet" "80 \<le> uint (t_mtu (mss_tunnel 1420))"
    by (simp_all add: syn_packet_def mss_tunnel_def)
  have "uint (t_mtu (mss_tunnel 1420)) - 80 = 1340" by (simp add: mss_tunnel_def)
  then show ?thesis using patch_tcpmss_first_mss [OF len] syn_patched by metis
qed

section \<open>The state keeps the heap\<close>

lemma heap_inv_upd:
  assumes "\<And>e. n_heap_index (f e) = n_heap_index e" "\<And>e. n_timeout (f e) = n_timeout e" and live: "nats s n \<noteq> None"
  shows "heap_inv (upd_nat n f s) = heap_inv s" "heap_set (upd_nat n f s) = heap_set s" "tmo (upd_nat n f s) m = tmo s m"
    "hidx (upd_nat n f s) m = hidx s m"
proof -
  have t: "tmo (upd_nat n f s) m = tmo s m" for m
    using assms by (auto simp: tmo_def natof_def upd_nat_def)
  have i: "hidx (upd_nat n f s) m = hidx s m" for m
    using assms by (auto simp: hidx_def natof_def upd_nat_def)
  have "nat_heap (upd_nat n f s) = nat_heap s" "nat_heap_last (upd_nat n f s) = nat_heap_last s"
    "(nats (upd_nat n f s) m = None) = (nats s m = None)" for m
    by (simp_all add: upd_nat_def)
  then show "heap_inv (upd_nat n f s) = heap_inv s" "heap_set (upd_nat n f s) = heap_set s"
    using t i by (simp_all add: heap_inv_def heap_set_def)
  show "tmo (upd_nat n f s) m = tmo s m" "hidx (upd_nat n f s) m = hidx s m" by (rule t, rule i)
qed

lemma upd_nat_facts:
  "seconds (upd_nat n f s) = seconds s" "nats s n \<noteq> None \<Longrightarrow> natof (upd_nat n f s) n = f (natof s n)"
  "(nats (upd_nat n f s) m = None) = (nats s m = None)"
  by (auto simp: upd_nat_def natof_def)

text \<open>What the state changes have in common.\<close>

definition tcp_step :: "nid \<Rightarrow> aftr \<Rightarrow> bool \<Rightarrow> aftr \<Rightarrow> bool" where
  "tcp_step n s r s' \<longleftrightarrow> heap_inv s' \<and> heap_set s' = heap_set s \<and> tmo s' n \<le> tmo s n \<and>
     (r \<longleftrightarrow> tmo s' n < tmo s n) \<and>
     (r \<longrightarrow> n_tcpst (natof s' n) AND TCP_CLOSED_BOTH = TCP_CLOSED_BOTH \<and> tmo s' n = seconds s + n_lifetime (natof s' n))"

lemma only_heap_nat:
  assumes "only_heap s s'" "nats s n \<noteq> None"
  shows "n_tcpst (natof s' n) = n_tcpst (natof s n)" "n_lifetime (natof s' n) = n_lifetime (natof s n)"
    "n_timeout (natof s' n) = n_timeout (natof s n)"
  using assms by (auto simp: only_heap_def natof_def)

lemma tcp_shorten_step:
  assumes inv: "heap_inv s" and n: "n \<in> heap_set s"
    and both: "n_tcpst (natof s n) AND TCP_CLOSED_BOTH = TCP_CLOSED_BOTH" and r: "tcp_shorten cfg flags n s = (r, s')"
  shows "tcp_step n s r s'"
proof -
  have live: "nats s n \<noteq> None" using inv n by (auto simp: heap_inv_def heap_set_def)
  let ?f = "\<lambda>e. e\<lparr>n_lifetime := tcp_lifetime cfg flags (n_tcpst e)\<rparr>"
  define s1 where "s1 = upd_nat n ?f s"
  have U: "heap_inv s1 = heap_inv s" "heap_set s1 = heap_set s" "\<And>m. tmo s1 m = tmo s m" "\<And>m. hidx s1 m = hidx s m"
    unfolding s1_def by (rule heap_inv_upd; use live in simp)+
  have e1: "natof s1 n = ?f (natof s n)" "seconds s1 = seconds s" "nats s1 n \<noteq> None"
    using live by (simp_all add: s1_def upd_nat_facts)
  show ?thesis
  proof (cases "n_timeout (natof s1 n) \<le> seconds s1 + n_lifetime (natof s1 n)")
    case True
    then have "r = False" "s' = s1" using r by (simp_all add: tcp_shorten_def Let_def flip: s1_def)
    then show ?thesis using U inv by (simp add: tcp_step_def)
  next
    case False
    let ?g = "\<lambda>e. e\<lparr>n_timeout := seconds s1 + n_lifetime e\<rparr>"
    have res: "r = True" "s' = nat_heap_increased (hidx s1 n) (upd_nat n ?g s1)"
      using r False e1 by (simp_all add: tcp_shorten_def Let_def hidx_def upd_nat_facts flip: s1_def)
    have inv1: "heap_inv s1" "n \<in> heap_set s1" using U inv n by simp_all
    have lt: "n_timeout (?g (natof s1 n)) \<le> tmo s1 n" using False by (simp add: tmo_def)
    have keep: "heap_inv s'" "heap_set s' = heap_set s"
      using nat_heap_increased_inv [where f = ?g and s = s1, OF inv1 _ lt] res U by simp_all
    have "only_heap (upd_nat n ?g s1) s'"
      unfolding res nat_heap_increased_def by (auto intro!: only_heap_intros)
    note only_heap_nat [OF this]
    then have "n_tcpst (natof s' n) = n_tcpst (natof s n)" "tmo s' n = seconds s + n_lifetime (natof s' n)"
      "n_lifetime (natof s' n) = n_lifetime (natof s1 n)"
      using e1 by (simp_all add: upd_nat_facts tmo_def)
    then show ?thesis using res(1) keep both False e1 U(3) by (simp add: tcp_step_def tmo_def)
  qed
qed


lemma tcp_step_refl: "heap_inv s \<Longrightarrow> tcp_step n s False s"
  by (simp add: tcp_step_def)

lemma tcp_step_mark:
  assumes "\<And>e. n_heap_index (f e) = n_heap_index e" "\<And>e. n_timeout (f e) = n_timeout e" "nats s n \<noteq> None"
    and "tcp_step n (upd_nat n f s) r s'"
  shows "tcp_step n s r s'"
  using assms(4) heap_inv_upd [where f = f and s = s and n = n, OF assms(1-3)]
  by (simp add: tcp_step_def upd_nat_facts)

lemma tcp_ack_step: "nats s n \<noteq> None \<Longrightarrow> tcp_step n (tcp_ack flags n s) r s' \<Longrightarrow> tcp_step n s r s'"
  by (auto simp: tcp_ack_def split: if_splits intro: tcp_step_mark [rotated 3])

lemma tcp_ack_facts:
  assumes "heap_inv s" "n \<in> heap_set s"
  shows "heap_inv (tcp_ack flags n s)" "n \<in> heap_set (tcp_ack flags n s)" "nats (tcp_ack flags n s) n \<noteq> None"
proof -
  have live: "nats s n \<noteq> None" using assms by (auto simp: heap_inv_def heap_set_def)
  note U = heap_inv_upd [where f = "\<lambda>e. e\<lparr>n_tcpst := TCP_ACKED\<rparr>" and s = s and n = n, OF _ _ live]
  show "heap_inv (tcp_ack flags n s)" "n \<in> heap_set (tcp_ack flags n s)"
    using assms live U by (simp_all add: tcp_ack_def)
  show "nats (tcp_ack flags n s) n \<noteq> None" using live by (auto simp: tcp_ack_def upd_nat_def)
qed

lemma bits_2_4: "((st :: u8) AND 2 = 0) = (\<not> bit st 1)" "(st AND 4 = 0) = (\<not> bit st 2)"
  using and_exp_eq_0_iff_not_bit [of st 1] and_exp_eq_0_iff_not_bit [of st 2] by simp_all

lemma closed_both: "((st :: u8) AND TCP_CLOSED_BOTH = TCP_CLOSED_BOTH) = (bit st 1 \<and> bit st 2)"
proof
  assume "st AND 6 = 6"
  then have "bit (st AND 6) 1 = bit (6 :: u8) 1" "bit (st AND 6) 2 = bit (6 :: u8) 2" by simp_all
  then show "bit st 1 \<and> bit st 2" by (simp add: bit_and_iff)
next
  assume b: "bit st 1 \<and> bit st 2"
  show "st AND 6 = 6"
  proof (rule bit_word_eqI)
    fix k assume "k < LENGTH(8)"
    then have "k \<in> {0, 1, 2, 3, 4, 5, 6, 7}" by auto
    then show "bit (st AND 6) k = bit (6 :: u8) k" using b by (auto simp: bit_and_iff)
  qed
qed

text \<open>The tail of both routines: the marks are set, and the other side's mark is tested.\<close>

lemma tcp_mark_step:
  assumes inv: "heap_inv s" and n: "n \<in> heap_set s" and m: "m = TCP_CLOSED_BOTH \<or> (m, b) = (TCP_CLOSED_IN, TCP_CLOSED_OUT) \<or>
      (m, b) = (TCP_CLOSED_OUT, TCP_CLOSED_IN)" and b: "b = TCP_CLOSED_IN \<or> b = TCP_CLOSED_OUT"
    and r: "(let s = upd_nat n (\<lambda>e. e\<lparr>n_tcpst := n_tcpst e OR m\<rparr>) s
        in if n_tcpst (natof s n) AND b = 0 then (False, s) else tcp_shorten cfg flags n s) = (r, s')"
  shows "tcp_step n s r s'"
proof -
  have live: "nats s n \<noteq> None" using inv n by (auto simp: heap_inv_def heap_set_def)
  let ?f = "\<lambda>e. e\<lparr>n_tcpst := n_tcpst e OR m\<rparr>"
  let ?s = "upd_nat n ?f s"
  note U = heap_inv_upd [where f = ?f and s = s and n = n, OF _ _ live, simplified]
  have st: "n_tcpst (natof ?s n) = n_tcpst (natof s n) OR m" using live by (simp add: upd_nat_facts)
  show ?thesis
  proof (rule tcp_step_mark [where f = ?f])
    show "tcp_step n ?s r s'"
    proof (cases "n_tcpst (natof ?s n) AND b = 0")
      case True
      then show ?thesis using r U inv by (simp add: Let_def tcp_step_refl)
    next
      case False
      then have "n_tcpst (natof ?s n) AND TCP_CLOSED_BOTH = TCP_CLOSED_BOTH"
        using m b unfolding closed_both st by (auto simp: bits_2_4 bit_or_iff)
      moreover have "tcp_shorten cfg flags n ?s = (r, s')" using r False by (simp add: Let_def)
      ultimately show ?thesis using tcp_shorten_step U inv n by simp
    qed
  qed (use live in simp_all)
qed

lemma tcpstate_steps:
  assumes "heap_inv s" "n \<in> heap_set s"
  shows "tcpstate_in cfg flags n s = (r, s') \<Longrightarrow> tcp_step n s r s'"
    "tcpstate_out cfg flags n s = (r, s') \<Longrightarrow> tcp_step n s r s'"
proof -
  note A = tcp_ack_facts [OF assms, of flags]
  have live: "nats s n \<noteq> None" using assms by (auto simp: heap_inv_def heap_set_def)
  note M = tcp_mark_step [OF A(1,2)]
  show "tcp_step n s r s'" if i: "tcpstate_in cfg flags n s = (r, s')"
  proof (cases "n_timeout (natof s n) = 0")
    case False
    have "tcp_step n (tcp_ack flags n s) r s'"
      using i False M [of _ TCP_CLOSED_OUT cfg flags r s'] A(1)
      unfolding tcpstate_in_def Let_def [of "tcp_ack flags n s"]
      by (auto simp: tcp_step_refl split: if_splits)
    then show ?thesis by (rule tcp_ack_step [OF live])
  qed (use i assms in \<open>simp add: tcpstate_in_def tcp_step_refl\<close>)
  show "tcp_step n s r s'" if i: "tcpstate_out cfg flags n s = (r, s')"
  proof (cases "n_timeout (natof s n) = 0")
    case False
    have "tcp_step n (tcp_ack flags n s) r s'"
      using i False M [of _ TCP_CLOSED_IN cfg flags r s'] A(1)
      unfolding tcpstate_out_def Let_def [of "tcp_ack flags n s"]
      by (auto simp: tcp_step_refl split: if_splits)
    then show ?thesis by (rule tcp_ack_step [OF live])
  qed (use i assms in \<open>simp add: tcpstate_out_def tcp_step_refl\<close>)
qed

text \<open>
  The connection state machine and the expiry queue agree. For an entry that is in
  the queue, a segment seen from either side keeps the queue a heap over the same entries and
  never makes the entry live longer; the routine reports a shorter life exactly when it set
  one, and then the connection was closed from both sides and the entry expires one
  lifetime from now.
\<close>

theorem tcpstate_shortens:
  assumes "heap_inv s" "n \<in> heap_set s"
  shows "\<forall>(r, s') \<in> {tcpstate_in cfg flags n s, tcpstate_out cfg flags n s}.
    heap_inv s' \<and> heap_set s' = heap_set s \<and> tmo s' n \<le> tmo s n \<and> (r \<longleftrightarrow> tmo s' n < tmo s n) \<and>
    (r \<longrightarrow> n_tcpst (natof s' n) AND TCP_CLOSED_BOTH = TCP_CLOSED_BOTH \<and>
           tmo s' n = seconds s + n_lifetime (natof s' n))"
  using tcpstate_steps [OF assms, of cfg flags] by (auto simp: tcp_step_def)

text \<open>A reset ends an established connection that would have lived on for a long time.\<close>

definition tcp_heap :: aftr where
  "tcp_heap = aftr0\<lparr>nats := [7 \<mapsto> nat_zero\<lparr>n_timeout := 600, n_heap_index := 1, n_tcpst := TCP_ACKED\<rparr>],
     nat_heap := [0, 7], nat_heap_last := 1, seconds := 20\<rparr>"

lemma tcp_heap_facts: "heap_inv tcp_heap" "heap_set tcp_heap = {7}"
proof -
  have "j = 1" if "1 \<le> j" "j \<le> 1" for j :: nat using that by simp
  then show "heap_inv tcp_heap" "heap_set tcp_heap = {7}"
    by (auto simp: heap_inv_def heap_set_def tcp_heap_def hidx_def natof_def intro!: exI [of _ 1])
qed

lemma tcp_heap_reset: "fst (tcpstate_in default_config TCPFRST 7 tcp_heap)"
  by (simp add: tcpstate_in_def tcp_ack_def tcp_shorten_def tcp_lifetime_def tcp_heap_def upd_nat_def natof_def Let_def
      default_config_def)

theorem tcpstate_shortens_witness:
  "tmo (snd (tcpstate_in default_config TCPFRST 7 tcp_heap)) 7 < tmo tcp_heap 7"
  using tcpstate_shortens [OF tcp_heap_facts(1), of 7 default_config TCPFRST] tcp_heap_reset
  by (auto simp: tcp_heap_facts split_beta)

end
