(* ===== verification/Aftr_Ftp.thy ===== *)
theory Aftr_Ftp
  imports Aftr_Pool Aftr_Tcp
begin

text \<open>
  The FTP application gateway of \<^verbatim>\<open>aftr.c\<close>: the scan of a PORT, EPRT, 227 or 229 line
  (ftpscan), the entry for the announced data port (get_ftptempdata), the rewrite of the line
  (patch_ftpcmd) with its record of the changed length, and the calls from both directions
  (patch_ftpin, patch_ftpout, get_ftptempsrv).

  Strings are the bytes before the NUL. \<open>mem\<close> says which malloc of a call succeeds, \<open>new\<close> is
  the address it returns. \<open>None\<close> is a call that does not return: the port draw of new_nat.
\<close>

section \<open>The string functions it uses\<close>

definition asc :: "string \<Rightarrow> bytes" where
  "asc s = map of_char s"

definition cstr :: "bytes \<Rightarrow> bytes" where
  "cstr b = takeWhile (\<lambda>c. c \<noteq> 0) b"

text \<open>The conversion \<open>%u\<close> of snprintf.\<close>

fun dec :: "nat \<Rightarrow> bytes" where
  "dec n = (if n < 10 then [48 + of_nat n] else dec (n div 10) @ [48 + of_nat (n mod 10)])"

declare dec.simps [simp del]

definition decb :: "u8 \<Rightarrow> bytes" where
  "decb b = dec (unat b)"

definition space8 :: "u8 \<Rightarrow> bool" where
  "space8 c \<longleftrightarrow> c = 32 \<or> 9 \<le> c \<and> c \<le> 13"

definition digit8 :: "u8 \<Rightarrow> bool" where
  "digit8 c \<longleftrightarrow> 48 \<le> c \<and> c \<le> 57"

definition digits8 :: "bytes \<Rightarrow> nat" where
  "digits8 ds = foldl (\<lambda>v c. 10 * v + unat (c - 48)) 0 ds"

text \<open>An unsigned conversion of sscanf, with the saturation and the sign of strtoul.\<close>

definition scan_uint :: "bytes \<Rightarrow> (nat \<times> bytes) option" where
  "scan_uint i =
     (let i = dropWhile space8 i;
          neg = (i \<noteq> [] \<and> hd i = 45);
          i = (if i \<noteq> [] \<and> (hd i = 45 \<or> hd i = 43) then List.tl i else i);
          ds = takeWhile digit8 i; v = digits8 ds
      in if ds = [] then None
         else Some (if v \<ge> 2 ^ 64 then 2 ^ 64 - 1 else if neg then (2 ^ 64 - v) mod 2 ^ 64 else v,
                List.drop (length ds) i))"

text \<open>
  sscanf for the directives of the patterns: white space, literals, \<open>%hhu\<close> and \<open>%hu\<close>. The
  result is the list of the stored values, its length the number of conversions. (The EOF
  result is taken for 0 conversions; the callers test for 1 or 2.)
\<close>

function sscanf :: "bytes \<Rightarrow> bytes \<Rightarrow> nat list" where
  "sscanf [] i = []"
| "sscanf (c # f) i =
     (if space8 c then sscanf f (dropWhile space8 i)
      else if c = 37 then
        (if take 3 f = asc ''hhu'' then
           (case scan_uint i of None \<Rightarrow> [] | Some (v, i) \<Rightarrow> v mod 2 ^ 8 # sscanf (List.drop 3 f) i)
         else if take 2 f = asc ''hu'' then
           (case scan_uint i of None \<Rightarrow> [] | Some (v, i) \<Rightarrow> v mod 2 ^ 16 # sscanf (List.drop 2 f) i)
         else [])
      else case i of
          [] \<Rightarrow> []
        | d # i \<Rightarrow> if c = d then sscanf f i else [])"
  by pat_completeness auto
termination
  by (relation "measure (\<lambda>(f, i). length f)") auto

text \<open>The suffix from the last space on.\<close>

definition strrchr_space :: "bytes \<Rightarrow> bytes option" where
  "strrchr_space s =
     (if 32 \<in> set s then Some (32 # rev (takeWhile (\<lambda>c. c \<noteq> 32) (rev s))) else None)"

text \<open>
  ftpscan: the pattern is a head, a star and a tail; the command starts with the head, and the
  tail is scanned from its last space on.
\<close>

definition ftpscan :: "bytes \<Rightarrow> bytes \<Rightarrow> nat list" where
  "ftpscan d pat =
     (if 42 \<notin> set pat then []
      else
        let head = takeWhile (\<lambda>c. c \<noteq> 42) pat; tail = List.tl (dropWhile (\<lambda>c. c \<noteq> 42) pat); l = length head
        in if take l d \<noteq> head then []
           else case strrchr_space (List.drop (l - 1) d) of
             None \<Rightarrow> []
           | Some cmd \<Rightarrow> sscanf tail cmd)"

section \<open>The patterns and the lines\<close>

text \<open>Four bytes in decimal with a separator between them.\<close>

definition quad :: "string \<Rightarrow> bytes \<Rightarrow> bytes" where
  "quad sep a = decb (a ! 0) @ asc sep @ decb (a ! 1) @ asc sep @ decb (a ! 2) @ asc sep @ decb (a ! 3)"

definition crlf :: bytes where
  "crlf = [13, 10]"

definition pat_port :: "bytes \<Rightarrow> bytes" where
  "pat_port src = asc ''PORT * '' @ quad '','' src @ asc '',%hhu,%hhu'' @ crlf"

definition pat_eprt :: "bytes \<Rightarrow> bytes" where
  "pat_eprt src = asc ''EPRT * |1|'' @ quad ''.'' src @ asc ''|%hu|'' @ crlf"

definition pat_227 :: "bytes \<Rightarrow> bytes" where
  "pat_227 src = asc ''227 * ('' @ quad '','' src @ asc '',%hhu,%hhu)'' @ crlf"

definition pat_229 :: bytes where
  "pat_229 = asc ''229 * (|||%hu|'' @ crlf"

definition cmd_port :: "bytes \<Rightarrow> bytes \<Rightarrow> bytes" where
  "cmd_port addr p = asc ''PORT '' @ quad '','' addr @ asc '','' @ decb (p ! 0) @ asc '','' @ decb (p ! 1) @ crlf"

definition cmd_eprt :: "bytes \<Rightarrow> bytes \<Rightarrow> bytes" where
  "cmd_eprt addr p = asc ''EPRT |1||'' @ quad ''.'' addr @ asc ''|'' @ dec (nat (be16 (p ! 0) (p ! 1))) @ asc ''|'' @ crlf"

definition cmd_227 :: "bytes \<Rightarrow> bytes \<Rightarrow> bytes" where
  "cmd_227 addr p = asc ''227 Entering Passive Mode ('' @ quad '','' addr @ asc '','' @ decb (p ! 0) @ asc '','' @
     decb (p ! 1) @ asc '')'' @ crlf"

definition cmd_229 :: "bytes \<Rightarrow> bytes" where
  "cmd_229 p = asc ''229 Entering Extended Passive Mode (|||'' @ dec (nat (be16 (p ! 0) (p ! 1))) @ asc ''|)'' @ crlf"

section \<open>Limits on new entries\<close>

text \<open>
  The checks that natin, get_ftptempdata and get_ftptempsrv make before they create an entry:
  the number of entries of the tunnel and the number created in this second.
\<close>

definition rate_limit :: "config \<Rightarrow> prclass \<Rightarrow> tid \<Rightarrow> aftr \<Rightarrow> drop_reason option \<times> aftr" where
  "rate_limit cfg pr t s =
     (if t_tnatcnt (tunof s t) pr \<ge> maxtnatcnt cfg pr then (Some DR_NATCNT, s)
      else if t_lastnat (tunof s t) \<noteq> seconds s then
        (None, upd_tunnel t (\<lambda>e. e\<lparr>t_lastnat := seconds s, t_tnatrt := (\<lambda>p. 0)(pr := 1)\<rparr>) s)
      else
        let s = upd_tunnel t (\<lambda>e. e\<lparr>t_tnatrt := (t_tnatrt e)(pr := t_tnatrt e pr + 1)\<rparr>) s
        in if ucast (t_tnatrt (tunof s t) pr) \<ge> maxtnatrt cfg pr then (Some DR_NATRT, s) else (None, s))"

section \<open>The entry for the data connection\<close>

definition get_ftptempdata :: "config \<Rightarrow> (nat \<Rightarrow> bool) \<Rightarrow> nid \<Rightarrow> nid \<Rightarrow> bytes \<Rightarrow> aftr \<Rightarrow> (nid \<times> aftr) option" where
  "get_ftptempdata cfg mem new n0 np s =
     (let e0 = natof s n0
      in case find (\<lambda>n. sub (n_sport (natof s n)) 0 2 = sub np 0 2) (n_xlist e0) of
           Some n \<Rightarrow> Some (n, s)
         | None \<Rightarrow>
             (case rate_limit cfg TCPPR (n_tunnel e0) s of
                (Some r, s) \<Rightarrow> Some (0, stat_drop r s)
              | (None, s) \<Rightarrow>
                  if \<not> mem 0 then Some (0, stat_drop DR_NEWNAT s)
                  else
                    let e = nat_zero\<lparr>n_tunnel := n_tunnel e0, n_proto := n_proto e0, n_src := n_src e0,
                              n_nsrc := n_nsrc e0, n_sport := sub np 0 2, n_dst := n_dst e0,
                              n_flags := ALL_DST OR MATCH_PORT OR FTP_DATA,
                              n_timeout := seconds s + nat_lifetime cfg ! 1, n_lifetime := nat_lifetime cfg ! 0\<rparr>
                    in case new_nat cfg (mem 1) (mem 2) new (s\<lparr>nats := (nats s)(new \<mapsto> e)\<rparr>) of
                         None \<Rightarrow> None
                       | Some (ok, s) \<Rightarrow>
                           if \<not> ok then Some (0, stat_drop DR_NEWNAT s)
                           else Some (new, upd_nat n0 (\<lambda>e. e\<lparr>n_xlist := new # n_xlist e\<rparr>) s)))"

section \<open>Rewriting the line\<close>

definition store16 :: "nat \<Rightarrow> int \<Rightarrow> bytes \<Rightarrow> bytes" where
  "store16 i x b = b[i := hi8 x, Suc i := lo8 x]"

definition ftp_off :: "bytes \<Rightarrow> nat" where
  "ftp_off b = IPHDRLEN + tcp_hl b"

text \<open>The packet with the new line, its length and both checksums.\<close>

definition ftp_rewrite :: "bytes \<Rightarrow> bytes \<Rightarrow> bytes \<times> nat" where
  "ftp_rewrite cmd b =
     (let off = ftp_off b; len = off + length cmd;
          b = put b off cmd;
          b = store16 IPLENH (int len) b;
          b = b[IPCKSUMH := 0, IPCKSUML := 0];
          b = store16 IPCKSUMH (in_cksum b IPHDRLEN) b;
          b = b[TCPCKSUMH := 0, TCPCKSUML := 0];
          tlen = [hi8 (int (len - IPHDRLEN)), lo8 (int (len - IPHDRLEN))]
      in (store16 TCPCKSUMH (fst (pseudo_cksum b tlen len)) b, len))"

text \<open>
  The record of the change: none if this segment is not newer than the last one recorded, at
  most three older records are kept. \<open>None\<close> is a failed malloc.
\<close>

definition ftp_record :: "bool \<Rightarrow> u32 \<Rightarrow> int \<Rightarrow> ftpseq list \<Rightarrow> ftpseq list option" where
  "ftp_record mem seq del fs =
     (if fs \<noteq> [] \<and> 0 \<le> sint (oldseq (hd fs) - seq) then Some fs
      else if \<not> mem then None
      else
        let fs = take 3 fs;
            d = (if fs \<noteq> [] then del + delta (hd fs) else del)
        in Some (\<lparr>oldseq = seq, newseq = seq + word_of_int del, delta = d\<rparr> # fs))"

definition patch_ftpcmd :: "bool \<Rightarrow> nid \<Rightarrow> bytes \<Rightarrow> bytes \<Rightarrow> nat \<Rightarrow> aftr \<Rightarrow> nid \<times> bytes \<times> nat \<times> aftr" where
  "patch_ftpcmd mem n cmd b len s =
     (if fst (pseudo_cksum b [hi8 (int (len - IPHDRLEN)), lo8 (int (len - IPHDRLEN))] len) \<noteq> 0 then (0, b, len, s)
      else
        let off = ftp_off b;
            del = int (length cmd) - int (len - off);
            (b, len) = ftp_rewrite cmd b;
            seq = be32 (sub b TCPSEQ 4) + of_nat (len - off)
        in case ftp_record mem seq del (n_ftpseq (natof s n)) of
             None \<Rightarrow> (0, b, len, upd_nat n (\<lambda>e. e\<lparr>n_ftpseq := take 3 (n_ftpseq e)\<rparr>) s)
           | Some fs \<Rightarrow> (n, b, len, upd_nat n (\<lambda>e. e\<lparr>n_ftpseq := fs\<rparr>) s))"

section \<open>From the tunnel\<close>

text \<open>\<open>fix_ftpsacksum\<close> on the packet, for the sequence (or acknowledgment) number at \<open>i\<close>.\<close>

definition seq_fix :: "nid \<Rightarrow> nat \<Rightarrow> bool \<Rightarrow> bytes \<Rightarrow> aftr \<Rightarrow> bytes" where
  "seq_fix n i seqack b s =
     (case n_ftpseq (natof s n) of
        [] \<Rightarrow> b
      | fs \<Rightarrow> (case fix_ftpsacksum (sub b TCPCKSUMH 2) (sub b i 4) seqack fs of
                 (ck, sa) \<Rightarrow> put (put b i sa) TCPCKSUMH ck))"

text \<open>
  The data port is looked up or created and the line is rewritten with its outer address and
  port; \<open>cmd\<close> prints it. The result is the entry (0 to drop the packet), whether the drop
  was counted already, the packet and the state.
\<close>

definition ftp_announce ::
  "config \<Rightarrow> (nat \<Rightarrow> bool) \<Rightarrow> nid \<Rightarrow> nid \<Rightarrow> bytes \<Rightarrow> (bytes \<Rightarrow> bytes \<Rightarrow> bytes) \<Rightarrow> bytes \<Rightarrow> nat \<Rightarrow> aftr \<Rightarrow>
     (nid \<times> bool \<times> bytes \<times> nat \<times> aftr) option" where
  "ftp_announce cfg mem new n np cmd b len s =
     (case get_ftptempdata cfg mem new n np s of
        None \<Rightarrow> None
      | Some (td, s) \<Rightarrow>
          if td = 0 then Some (0, True, b, len, s)
          else
            let e = natof s td; (n, b, len, s) = patch_ftpcmd (mem 3) n (cmd (n_nsrc e) (n_nport e)) b len s
            in Some (n, False, b, len, s))"

text \<open>The entry of an xlist for the given peer.\<close>

definition ftp_peer :: "bytes \<Rightarrow> bytes \<Rightarrow> nid \<Rightarrow> aftr \<Rightarrow> nid" where
  "ftp_peer addr port n s =
     (case find (\<lambda>n. sub (n_dst (natof s n)) 0 4 = addr \<and> sub (n_dport (natof s n)) 0 2 = port) (n_xlist (natof s n)) of
        None \<Rightarrow> 0 | Some n \<Rightarrow> n)"

text \<open>
  patch_ftpin: \<open>way\<close> is false for a client behind the NAT and true for a server. The extended
  forms (EPRT and 229) scan one port number into a variable of its own, but the code goes on
  with the two bytes \<open>junk\<close> that only the short forms fill.
\<close>

definition patch_ftpin ::
  "config \<Rightarrow> (nat \<Rightarrow> bool) \<Rightarrow> nid \<Rightarrow> bytes \<Rightarrow> nid \<Rightarrow> bool \<Rightarrow> bytes \<Rightarrow> nat \<Rightarrow> aftr \<Rightarrow>
     (nid \<times> bool \<times> bytes \<times> nat \<times> aftr) option" where
  "patch_ftpin cfg mem new junk n0 way b len s =
     (let off = ftp_off b; b = b[len := 0];
          n = (if way \<and> n_flags (natof s n0) AND ALL_DST \<noteq> 0 then ftp_peer (sub b IPDST 4) (sub b IPDPORT 2) n0 s else n0)
      in if n = 0 then Some (0, False, b, len, s)
         else
           let b = seq_fix n TCPSEQ False b s; d = cstr (List.drop off b); src = n_src (natof s n)
           in if len < off \<or> len - off > 128 then Some (n, False, b, len, s)
              else if \<not> way then
                (case ftpscan d (pat_port src) of
                   [h, l] \<Rightarrow> ftp_announce cfg mem new n [of_nat h, of_nat l] cmd_port b len s
                 | _ \<Rightarrow>
                     if length (ftpscan d (pat_eprt src)) = 1 then ftp_announce cfg mem new n junk cmd_eprt b len s
                     else Some (n, False, b, len, s))
              else
                (case ftpscan d (pat_227 src) of
                   [h, l] \<Rightarrow> ftp_announce cfg mem new n [of_nat h, of_nat l] cmd_227 b len s
                 | _ \<Rightarrow>
                     if length (ftpscan d pat_229) = 1 then ftp_announce cfg mem new n junk (\<lambda>a. cmd_229) b len s
                     else Some (n, False, b, len, s)))"

section \<open>From the Internet\<close>

text \<open>
  get_ftptempsrv: the static binding of a server is cloned for one peer. On an error before
  the heap insertion the drop is counted (the second result).
\<close>

definition get_ftptempsrv ::
  "config \<Rightarrow> (nat \<Rightarrow> bool) \<Rightarrow> nid \<Rightarrow> nid \<Rightarrow> bytes \<Rightarrow> aftr \<Rightarrow> nid \<times> bool \<times> aftr" where
  "get_ftptempsrv cfg mem new n0 b s =
     (let e0 = natof s n0; t = n_tunnel e0
      in case rate_limit cfg TCPPR t s of
           (Some r, s) \<Rightarrow> (0, True, stat_drop r s)
         | (None, s) \<Rightarrow>
             if \<not> mem 0 then (0, True, stat_drop DR_NEWNAT s)
             else
               let e = nat_zero\<lparr>n_tunnel := t, n_proto := n_proto e0, n_src := n_src e0, n_nsrc := n_nsrc e0,
                         n_sport := n_sport e0, n_nport := n_nport e0, n_dst := sub b IPSRC 4,
                         n_dport := sub b IPSPORT 2, n_flags := MATCH_PORT,
                         n_timeout := seconds s + nat_lifetime cfg ! 1, n_lifetime := nat_lifetime cfg ! 0\<rparr>;
                   (ok, s) = nat_heap_insert (mem 1) new (s\<lparr>nats := (nats s)(new \<mapsto> e)\<rparr>)
               in if \<not> ok then (0, False, s\<lparr>nats := (nats s)(new := None)\<rparr>)
                  else case nat_tree_insert (tree_cmp_nid s new) new (nat_tree s TCPPR) of
                    (Some x, tr) \<Rightarrow>
                      let s = nat_heap_delete (hidx s new) s in (0, False, s\<lparr>nats := (nats s)(new := None)\<rparr>)
                  | (None, tr) \<Rightarrow>
                      let s = put_tree TCPPR tr s
                      in (case nat_splay_insert (splay_cmp_nid s new) new (t_tnat_root (tunof s t) TCPPR) of
                            (Some x, r) \<Rightarrow>
                              let s = put_root t TCPPR r s;
                                  s = put_tree TCPPR (nat_tree_remove new (nat_tree s TCPPR)) s;
                                  s = nat_heap_delete (hidx s new) s
                              in (0, False, s\<lparr>nats := (nats s)(new := None)\<rparr>)
                          | (None, r) \<Rightarrow>
                              let s = put_root t TCPPR r s;
                                  s = upd_nat n0 (\<lambda>e. e\<lparr>n_xlist := new # n_xlist e\<rparr>) s;
                                  s = s\<lparr>natcntt := natcntt s + 1\<rparr>
                              in (new, False,
                                  upd_tunnel t (\<lambda>t. t\<lparr>t_tnatcnt := (t_tnatcnt t)(TCPPR := t_tnatcnt t TCPPR + 1)\<rparr>) s)))"

definition patch_ftpout ::
  "config \<Rightarrow> (nat \<Rightarrow> bool) \<Rightarrow> nid \<Rightarrow> nid \<Rightarrow> bool \<Rightarrow> bytes \<Rightarrow> aftr \<Rightarrow> nid \<times> bool \<times> bytes \<times> aftr" where
  "patch_ftpout cfg mem new n0 way b s =
     (let p = (if way \<and> n_flags (natof s n0) AND ALL_DST \<noteq> 0 then ftp_peer (sub b IPSRC 4) (sub b IPSPORT 2) n0 s else n0);
          (n, counted, s) = (if p = 0 then get_ftptempsrv cfg mem new n0 b s else (p, False, s))
      in if n = 0 then (0, counted, b, s) else (n, False, seq_fix n TCPACK True b s, s))"

section \<open>A line the daemon writes is one it reads\<close>

lemma dec_ne [simp]: "dec n \<noteq> []"
  by (subst dec.simps) simp

lemma digit8_of_nat: "k < 10 \<Longrightarrow> digit8 (48 + of_nat k) \<and> unat (48 + of_nat k - 48 :: u8) = k"
proof -
  assume "k < 10"
  then have "k \<in> {0, 1, 2, 3, 4, 5, 6, 7, 8, 9}" by auto
  then show ?thesis by (auto simp: digit8_def)
qed

lemma dec_digits: "c \<in> set (dec n) \<Longrightarrow> digit8 c"
proof (induction n rule: dec.induct)
  case (1 n)
  then show ?case using digit8_of_nat [of n] digit8_of_nat [of "n mod 10"]
    by (subst (asm) (2) dec.simps) (auto split: if_splits)
qed

lemma digits8_snoc: "digits8 (ds @ [d]) = 10 * digits8 ds + unat (d - 48)"
  by (simp add: digits8_def)

lemma digits8_dec: "digits8 (dec n) = n"
proof (induction n rule: dec.induct)
  case (1 n)
  show ?case
  proof (cases "n < 10")
    case True
    then show ?thesis using digit8_of_nat [OF True] by (subst dec.simps) (simp add: digits8_def)
  next
    case False
    then show ?thesis using digit8_of_nat [of "n mod 10"] 1 [OF False]
      by (subst dec.simps) (simp add: digits8_snoc)
  qed
qed

lemma digit8_facts: "digit8 c \<Longrightarrow> \<not> space8 c \<and> c \<noteq> 45 \<and> c \<noteq> 43 \<and> c \<noteq> 37 \<and> c \<noteq> 42 \<and> c \<noteq> 32 \<and> c \<noteq> 0"
  by (auto simp: digit8_def space8_def word_le_nat_alt)

lemma scan_dec:
  assumes "n < 2 ^ 64" "i = [] \<or> \<not> digit8 (hd i)"
  shows "scan_uint (dec n @ i) = Some (n, i)"
proof -
  obtain d ds where dn: "dec n = d # ds" by (cases "dec n") auto
  then have "digit8 d" using dec_digits [of d n] by simp
  note f = digit8_facts [OF this]
  have "takeWhile digit8 (dec n @ i) = dec n"
    using dec_digits assms(2) by (cases i) (auto simp: takeWhile_append2 takeWhile_eq_all_conv)
  moreover have "dropWhile space8 (dec n @ i) = dec n @ i" using f dn by simp
  ultimately show ?thesis
    using assms(1) f dn digits8_dec [of n] by (simp add: scan_uint_def Let_def)
qed

definition plain :: "bytes \<Rightarrow> bool" where
  "plain l \<longleftrightarrow> (\<forall>c \<in> set l. \<not> space8 c \<and> c \<noteq> 37 \<and> c \<noteq> 42)"

lemma plain_simps [simp]: "plain []" "plain (c # l) \<longleftrightarrow> (\<not> space8 c \<and> c \<noteq> 37 \<and> c \<noteq> 42) \<and> plain l"
    "plain (k @ l) \<longleftrightarrow> plain k \<and> plain l"
  by (auto simp: plain_def)

lemma plain_dec [simp]: "plain (dec n)"
  using dec_digits digit8_facts by (auto simp: plain_def)

lemma sscanf_plain: "plain l \<Longrightarrow> sscanf (l @ f) (l @ i) = sscanf f i"
  by (induction l) auto

lemma sscanf_hhu:
  "n < 256 \<Longrightarrow> i = [] \<or> \<not> digit8 (hd i) \<Longrightarrow> sscanf (37 # 104 # 104 # 117 # f) (dec n @ i) = n # sscanf f i"
  by (simp add: scan_dec space8_def asc_def numeral_3_eq_3)

lemma strrchr_space_last: "32 \<notin> set s \<Longrightarrow> strrchr_space (r @ 32 # s) = Some (32 # s)"
proof -
  assume "32 \<notin> set s"
  then have "takeWhile (\<lambda>c. c \<noteq> 32) (rev s @ 32 # rev r) = rev s"
    by (subst takeWhile_append2) auto
  then show ?thesis by (simp add: strrchr_space_def)
qed

lemma plain_quad [simp]: "plain (asc sep) \<Longrightarrow> plain (quad sep a)"
  by (simp add: quad_def decb_def)

lemma plain_no_space: "plain l \<Longrightarrow> 32 \<notin> set l"
  by (auto simp: plain_def space8_def)

lemma asc_simps [simp]: "asc [] = []" "asc (c # s) = of_char c # asc s"
  by (simp_all add: asc_def)

lemma blank_facts [simp]: "space8 32" "space8 13" "space8 10" "\<not> space8 44" "\<not> space8 41" "\<not> space8 40"
    "\<not> digit8 44" "\<not> digit8 41" "\<not> digit8 13"
  by (simp_all add: space8_def digit8_def word_le_nat_alt)

lemma drop_space_plain: "plain l \<Longrightarrow> l \<noteq> [] \<Longrightarrow> dropWhile space8 (l @ i) = l @ i"
  by (cases l) simp_all

lemma ftpscan_split:
  assumes "42 \<notin> set h" "h \<noteq> []"
  shows "ftpscan (h @ d) (h @ 42 # tail) =
    (case strrchr_space (last h # d) of None \<Rightarrow> [] | Some cmd \<Rightarrow> sscanf tail cmd)"
proof -
  have t: "takeWhile (\<lambda>c. c \<noteq> 42) (h @ 42 # tail) = h" "dropWhile (\<lambda>c. c \<noteq> 42) (h @ 42 # tail) = 42 # tail"
    using assms(1) by (induction h) auto
  have "h = butlast h @ [last h]" using assms(2) by simp
  then have "List.drop (length h - 1) (h @ d) = last h # d"
    by (metis append.assoc append_Cons append_Nil append_eq_conv_conj length_butlast)
  then show ?thesis unfolding ftpscan_def Let_def t by (simp split: option.split)
qed

text \<open>The scan of \<open>a,b,c,d,h,l\<close> between an opening and a closing.\<close>

lemma unat8: "unat (b :: u8) < 256"
  using unsigned_less [where 'a = nat and 'b = 8, of b] by simp

lemma scan_six:
  assumes "plain o1"
  shows "sscanf (32 # o1 @ quad '','' addr @ asc '',%hhu,%hhu'' @ f)
      (32 # o1 @ quad '','' addr @ asc '','' @ decb h @ asc '','' @ decb l @ f') =
    unat h # (case scan_uint (decb l @ f') of None \<Rightarrow> [] | Some (v, i) \<Rightarrow> v mod 256 # sscanf f i)"
proof -
  let ?q = "o1 @ quad '','' addr @ [44]"
  have q: "plain ?q" "?q \<noteq> []" using assms by simp_all
  have "sscanf (32 # ?q @ 37 # 104 # 104 # 117 # 44 # 37 # 104 # 104 # 117 # f) (32 # ?q @ decb h @ 44 # decb l @ f') =
    sscanf (?q @ 37 # 104 # 104 # 117 # 44 # 37 # 104 # 104 # 117 # f) (?q @ decb h @ 44 # decb l @ f')"
    using drop_space_plain [OF q] by simp
  also have "\<dots> = sscanf (37 # 104 # 104 # 117 # 44 # 37 # 104 # 104 # 117 # f) (decb h @ 44 # decb l @ f')"
    by (rule sscanf_plain [OF q(1)])
  also have "\<dots> = unat h # sscanf (44 # 37 # 104 # 104 # 117 # f) (44 # decb l @ f')"
    unfolding decb_def by (rule sscanf_hhu) (simp_all add: unat8)
  also have "\<dots> = unat h # sscanf (37 # 104 # 104 # 117 # f) (decb l @ f')" by simp
  finally show ?thesis by (simp add: space8_def numeral_3_eq_3 split: option.split)
qed

lemma scan_last: "\<not> digit8 (hd i) \<Longrightarrow> scan_uint (decb l @ i) = Some (unat l, i)"
  using unat8 [of l] by (simp add: decb_def scan_dec)

text \<open>
  Claim C30: what the gateway announces is read back. A PORT line, or a 227 answer, that it
  prints for an outer address and port is scanned, with the pattern of the same address, to
  the two bytes of the port; so two such gateways in a row agree on the data connection.
\<close>

theorem ftp_line_roundtrip:
  "ftpscan (cmd_port addr [h, l]) (pat_port addr) = [unat h, unat l] \<and>
   ftpscan (cmd_227 addr [h, l]) (pat_227 addr) = [unat h, unat l]"
proof
  let ?t = "quad '','' addr @ asc '','' @ decb h @ asc '','' @ decb l @ crlf"
  have "plain (quad '','' addr @ asc '','' @ decb h @ asc '','' @ decb l)" by (simp add: decb_def)
  from plain_no_space [OF this] have "32 \<notin> set ?t" by (simp add: crlf_def)
  from strrchr_space_last [OF this, of "[]"] have s: "strrchr_space (32 # ?t) = Some (32 # ?t)" by simp
  have p: "pat_port addr = asc ''PORT '' @ 42 # 32 # quad '','' addr @ asc '',%hhu,%hhu'' @ crlf"
    and c: "cmd_port addr [h, l] = asc ''PORT '' @ ?t" and a: "42 \<notin> set (asc ''PORT '')" "asc ''PORT '' \<noteq> []"
    and e: "last (asc ''PORT '') = 32"
    by (simp_all add: cmd_port_def pat_port_def)
  have "ftpscan (cmd_port addr [h, l]) (pat_port addr) =
      sscanf (32 # quad '','' addr @ asc '',%hhu,%hhu'' @ crlf) (32 # ?t)"
    unfolding p c ftpscan_split [OF a] e s option.case ..
  also have "\<dots> = [unat h, unat l]"
    using scan_six [of "[]" addr crlf h l crlf] unat8 [of l] by (simp add: crlf_def scan_last)
  finally show "ftpscan (cmd_port addr [h, l]) (pat_port addr) = [unat h, unat l]" .
next
  let ?t = "asc ''('' @ quad '','' addr @ asc '','' @ decb h @ asc '','' @ decb l @ asc '')'' @ crlf"
  have "plain (asc ''('' @ quad '','' addr @ asc '','' @ decb h @ asc '','' @ decb l @ asc '')'')"
    by (simp add: decb_def)
  from plain_no_space [OF this] have "32 \<notin> set ?t" by (simp add: crlf_def)
  from strrchr_space_last [OF this, of "asc '' Entering Passive Mode''"]
  have s: "strrchr_space (asc '' Entering Passive Mode'' @ 32 # ?t) = Some (32 # ?t)" .
  have p: "pat_227 addr = asc ''227 '' @ 42 # 32 # asc ''('' @ quad '','' addr @ asc '',%hhu,%hhu)'' @ crlf"
    and c: "cmd_227 addr [h, l] = asc ''227 '' @ asc ''Entering Passive Mode'' @ 32 # ?t"
    and a: "42 \<notin> set (asc ''227 '')" "asc ''227 '' \<noteq> []"
    and e: "last (asc ''227 '') # asc ''Entering Passive Mode'' @ r = asc '' Entering Passive Mode'' @ r" for r
    by (simp_all add: cmd_227_def pat_227_def)
  have "ftpscan (cmd_227 addr [h, l]) (pat_227 addr) =
      sscanf (32 # asc ''('' @ quad '','' addr @ asc '',%hhu,%hhu)'' @ crlf) (32 # ?t)"
    unfolding p c ftpscan_split [OF a] e s option.case ..
  also have "\<dots> = [unat h, unat l]"
    using scan_six [of "asc ''(''" addr "asc '')'' @ crlf" h l "asc '')'' @ crlf"] unat8 [of l]
    by (simp add: crlf_def scan_last)
  finally show "ftpscan (cmd_227 addr [h, l]) (pat_227 addr) = [unat h, unat l]" .
qed

section \<open>The rewritten packet is valid\<close>

lemma store16_put: "i + 2 \<le> length b \<Longrightarrow> store16 i x b = put b i [hi8 x, lo8 x]"
  by (intro nth_equalityI) (auto simp: store16_def nth_put nth_list_update less_Suc_eq)

lemma put_zero2: "i + 2 \<le> length b \<Longrightarrow> j = Suc i \<Longrightarrow> b[i := 0, j := 0] = put b i [0, 0]"
  by (intro nth_equalityI) (auto simp: nth_put nth_list_update less_Suc_eq)

lemma sub2: "sub [a, b] 0 2 = [a, b]"
  by (simp add: sub_def)

lemma ftp_rewrite_valid:
  assumes off: "40 \<le> ftp_off b" and len: "ftp_off b + length cmd \<le> length b" "ftp_off b + length cmd \<le> 65535"
  shows "\<exists>b'. ftp_rewrite cmd b = (b', ftp_off b + length cmd) \<and> length b' = length b \<and>
    in_cksum b' IPHDRLEN = 0 \<and>
    fst (pseudo_cksum b' [hi8 (int (ftp_off b + length cmd - IPHDRLEN)), lo8 (int (ftp_off b + length cmd - IPHDRLEN))]
      (ftp_off b + length cmd)) = 0 \<and>
    be16 (b' ! IPLENH) (b' ! IPLENL) = int (ftp_off b + length cmd) \<and>
    sub b' (ftp_off b) (length cmd) = cmd \<and> sub b' TCPSEQ 4 = sub b TCPSEQ 4"
proof -
  define l where "l = ftp_off b + length cmd"
  define pl where "pl = [hi8 (int (l - IPHDRLEN)), lo8 (int (l - IPHDRLEN))]"
  define b1 where "b1 = put b (ftp_off b) cmd"
  define b2 where "b2 = (store16 IPLENH (int l) b1)[IPCKSUMH := 0, IPCKSUML := 0]"
  define b3 where "b3 = store16 IPCKSUMH (in_cksum b2 IPHDRLEN) b2"
  define b4 where "b4 = b3[TCPCKSUMH := 0, TCPCKSUML := 0]"
  define ck where "ck = fst (pseudo_cksum b4 pl l)"
  define b5 where "b5 = store16 TCPCKSUMH ck b4"
  have l: "40 \<le> l" "l \<le> length b" "l \<le> 65535" using off len by (simp_all add: l_def)
  have lens: "length b1 = length b" "length b2 = length b" "length b3 = length b" "length b4 = length b" "length b5 = length b"
    using l by (simp_all add: b1_def b2_def b3_def b4_def b5_def l_def store16_def)
  have puts: "b2 = put (put b1 IPLENH [hi8 (int l), lo8 (int l)]) IPCKSUMH [0, 0]"
    "b3 = put b2 IPCKSUMH [hi8 (in_cksum b2 IPHDRLEN), lo8 (in_cksum b2 IPHDRLEN)]"
    "b4 = put b3 TCPCKSUMH [0, 0]" "b5 = put b4 TCPCKSUMH [hi8 ck, lo8 ck]"
    using l lens unfolding b2_def b3_def b4_def b5_def
    by (simp_all add: store16_put put_zero2 del: put_nil)
  have "ftp_rewrite cmd b = (b5, l)"
    unfolding ftp_rewrite_def Let_def l_def [symmetric] pl_def [symmetric] b1_def [symmetric] b2_def [symmetric]
      b3_def [symmetric] b4_def [symmetric] ck_def [symmetric] b5_def [symmetric] ..
  moreover have "in_cksum b3 IPHDRLEN = 0"
    unfolding puts(2) using lens l by (intro cksum_fill0) (simp_all add: puts(1) sub_put_inside sub2)
  then have "in_cksum b5 IPHDRLEN = 0"
    using in_cksum_cong [of 20 b5 b3] lens l by (simp add: puts(3,4) take_put_after)
  moreover have "fst (pseudo_cksum b5 pl l) = 0"
    unfolding puts(4) ck_def using lens l by (intro pseudo_fill) (simp_all add: puts(3) sub_put_inside sub2)
  moreover have "be16 (b5 ! 2) (b5 ! 3) = int l"
    using lens l by (simp add: puts nth_put)
  moreover have "sub b5 (ftp_off b) (length cmd) = cmd"
    using lens l off by (simp add: puts b1_def sub_put_disjoint sub_put_same l_def)
  moreover have "sub b5 TCPSEQ 4 = sub b TCPSEQ 4"
    using lens l off by (simp add: puts b1_def sub_put_disjoint l_def)
  ultimately show ?thesis using lens unfolding l_def pl_def by blast
qed

text \<open>
  Claim C23: patch_ftpcmd leaves a valid packet. When it accepts the segment, the new packet
  carries exactly the new line, its length field is the new length, the IPv4 header checksum
  and the TCP checksum verify, and the sequence number is that of the old segment.
\<close>

theorem patch_ftpcmd_valid:
  assumes "20 \<le> tcp_hl b" "ftp_off b + length cmd \<le> length b" "ftp_off b + length cmd \<le> 65535"
    and "patch_ftpcmd mem n cmd b len s = (n', b', len', s')" "n' \<noteq> 0"
  shows "len' = ftp_off b + length cmd \<and> sub b' (ftp_off b) (length cmd) = cmd \<and>
    be16 (b' ! IPLENH) (b' ! IPLENL) = int len' \<and> in_cksum b' IPHDRLEN = 0 \<and>
    fst (pseudo_cksum b' [hi8 (int (len' - IPHDRLEN)), lo8 (int (len' - IPHDRLEN))] len') = 0 \<and>
    sub b' TCPSEQ 4 = sub b TCPSEQ 4"
proof -
  have "40 \<le> ftp_off b" using assms(1) by (simp add: ftp_off_def)
  from ftp_rewrite_valid [OF this assms(2,3)] assms(4,5) show ?thesis
    by (auto simp: patch_ftpcmd_def Let_def split: if_splits option.splits)
qed

text \<open>A segment with the line \<open>A\<close> CR LF, and the line it becomes.\<close>

definition ftp_packet :: bytes where
  "ftp_packet = ((replicate 80 0)[9 := 6, 12 := 10, 16 := 192, 27 := 100, 32 := 0x50, 36 := 0x9a, 37 := 0x70,
     40 := 65, 41 := 13, 42 := 10])"

lemma ftp_packet_facts: "tcp_hl ftp_packet = 20" "ftp_off ftp_packet = 40" "length ftp_packet = 80"
    "be32 (sub ftp_packet TCPSEQ 4) = 100"
    "fst (pseudo_cksum ftp_packet [hi8 (int (43 - IPHDRLEN)), lo8 (int (43 - IPHDRLEN))] 43) = 0"
  by code_simp+

lemma ftp_record_length: "ftp_record mem seq del fs = Some fs' \<Longrightarrow> fs' \<noteq> [] \<and> length fs' \<le> max 4 (length fs)"
  by (auto simp: ftp_record_def Let_def split: if_splits)

theorem patch_ftpcmd_valid_witness:
  "case patch_ftpcmd True 7 (cmd_port [192, 0, 2, 1] [8, 1]) ftp_packet 43 (aftr0\<lparr>nats := [7 \<mapsto> nat_zero]\<rparr>) of
     (n', b', len', s') \<Rightarrow> in_cksum b' IPHDRLEN = 0 \<and> be16 (b' ! IPLENH) (b' ! IPLENL) = int len' \<and>
       sub b' 40 20 = cmd_port [192, 0, 2, 1] [8, 1]"
proof -
  let ?cmd = "cmd_port [192, 0, 2, 1] [8, 1]" and ?s = "aftr0\<lparr>nats := [7 \<mapsto> nat_zero]\<rparr>"
  obtain n' b' len' s' where p: "patch_ftpcmd True 7 ?cmd ftp_packet 43 ?s = (n', b', len', s')" by (metis prod_cases4)
  have l: "length ?cmd = 20" by code_simp
  have "n_ftpseq (natof ?s 7) = []" by (simp add: natof_def nat_zero_def)
  then have "n' \<noteq> 0" using p ftp_packet_facts(5)
    by (auto simp: patch_ftpcmd_def Let_def ftp_record_def split: if_splits prod.splits)
  from patch_ftpcmd_valid [OF _ _ _ p this] show ?thesis
    unfolding p prod.case using ftp_packet_facts l by simp
qed

lemma find_one_record:
  assumes "fs = [\<lparr>oldseq = q + of_nat new, newseq = q', delta = d\<rparr>]" "old < 2 ^ 31" "new < 2 ^ 31"
  shows "find_ftpseq (q + of_nat old) False fs = None \<longleftrightarrow> old < new"
proof -
  have e: "q + of_nat old - (q + of_nat new) = (word_of_int (int old - int new) :: u32)" by simp
  have "sint (word_of_int (int old - int new) :: u32) = int old - int new"
    unfolding signed_of_int using assms(2,3) by (simp add: signed_take_bit_int_eq_self)
  then show ?thesis using assms(1) unfolding e [symmetric] by (simp del: of_int_diff of_int_of_nat_eq)
qed

text \<open>
  Claim C40: the record of a rewritten line does not cover the next segment of the sender when
  the line grew. The record is made for the sequence number behind the new line, so the very
  next segment, which starts behind the old line, finds no record and keeps a sequence number
  that overlaps the new line; when the line did not grow the record is found.
\<close>

theorem ftp_grown_line_unrecorded:
  assumes "20 \<le> tcp_hl b" "ftp_off b + length cmd \<le> length b" "ftp_off b + length cmd \<le> 65535"
    "ftp_off b \<le> len" "len \<le> 65535" "nats s n \<noteq> None" "n_ftpseq (natof s n) = []"
    and "patch_ftpcmd mem n cmd b len s = (n', b', len', s')" "n' \<noteq> 0"
  shows "find_ftpseq (be32 (sub b TCPSEQ 4) + of_nat (len - ftp_off b)) False (n_ftpseq (natof s' n)) = None
    \<longleftrightarrow> len < len'"
proof -
  have "40 \<le> ftp_off b" using assms(1) by (simp add: ftp_off_def)
  from ftp_rewrite_valid [OF this assms(2,3)] obtain b1 where
    r: "ftp_rewrite cmd b = (b1, ftp_off b + length cmd)" "sub b1 TCPSEQ 4 = sub b TCPSEQ 4" by blast
  let ?q = "be32 (sub b TCPSEQ 4)"
  obtain d q' where "len' = ftp_off b + length cmd" "n_ftpseq (natof s' n) = [\<lparr>oldseq = ?q + of_nat (length cmd), newseq = q', delta = d\<rparr>]"
    using assms(6-9) r
    by (auto simp: patch_ftpcmd_def Let_def ftp_record_def upd_nat_facts split: if_splits option.splits)
  from find_one_record [OF this(2), of "len - ftp_off b"] this(1) assms(3-5) show ?thesis by auto
qed

theorem ftp_grown_line_unrecorded_witness:
  "find_ftpseq 103 False (n_ftpseq (natof (snd (snd (snd (patch_ftpcmd True 7 (cmd_port [192, 0, 2, 1] [8, 1]) ftp_packet 43
     (aftr0\<lparr>nats := [7 \<mapsto> nat_zero]\<rparr>))))) 7)) = None"
proof -
  let ?cmd = "cmd_port [192, 0, 2, 1] [8, 1]" and ?s = "aftr0\<lparr>nats := [7 \<mapsto> nat_zero]\<rparr>"
  obtain n' b' len' s' where p: "patch_ftpcmd True 7 ?cmd ftp_packet 43 ?s = (n', b', len', s')" by (metis prod_cases4)
  have l: "length ?cmd = 20" by code_simp
  have e: "n_ftpseq (natof ?s 7) = []" "nats ?s 7 \<noteq> None" by (simp_all add: natof_def nat_zero_def)
  then have n: "n' \<noteq> 0" "len' = 60" using p ftp_packet_facts l
    by (auto simp: patch_ftpcmd_def Let_def ftp_record_def ftp_rewrite_def split: if_splits prod.splits)
  show ?thesis
    using ftp_grown_line_unrecorded [OF _ _ _ _ _ e(2,1) p n(1)] ftp_packet_facts l n(2) unfolding p by simp
qed
end
