(* ===== verification/Aftr_Acl.thy ===== *)
theory Aftr_Acl
  imports Aftr_Pool
begin

text \<open>
  The prefix mask tables and the access control lists: mask4, mask6, acl4, acl6 and the
  operations that add and delete entries. The properties say that the tables hold the masks
  of the prefix lengths and that an entry accepts the addresses that begin with its prefix.
\<close>

section \<open>Bits of an address\<close>

text \<open>The test \<open>key[bit >> 3] & (0x80 >> (bit & 7))\<close> of the tunnel tree: bit 0 is the first.\<close>

definition key_bit :: "bytes \<Rightarrow> nat \<Rightarrow> bool" where
  "key_bit k b \<longleftrightarrow> k ! (b div 8) AND drop_bit (b mod 8) 0x80 \<noteq> 0"

lemma drop_one_bit: "k \<le> m \<Longrightarrow> m < 8 \<Longrightarrow> drop_bit k (push_bit m (1 :: u8)) = push_bit (m - k) 1"
  by (rule bit_word_eqI) (auto simp: bit_simps)

lemma key_bit_iff: "key_bit k b \<longleftrightarrow> bit (k ! (b div 8)) (7 - b mod 8)"
proof -
  have "b mod 8 < 8" by simp
  then have le: "b mod 8 \<le> 7" by linarith
  have "(0x80 :: u8) = push_bit 7 1" by simp
  moreover have "drop_bit (b mod 8) (push_bit 7 (1 :: u8)) = push_bit (7 - b mod 8) 1"
    by (rule drop_one_bit [OF le]) simp
  ultimately show ?thesis by (simp only: key_bit_def push_bit_eq_mult mult_1 and_exp_eq_0_iff_not_bit) simp
qed

lemma bit_slot:
  assumes "m < (8 :: nat)" shows "(8 * i + (7 - m)) div 8 = i" "7 - (8 * i + (7 - m)) mod 8 = m"
proof -
  obtain k where k: "k < 8" "7 - m = k" "7 - k = m" using assms by (intro that [of "7 - m"]) auto
  show "(8 * i + (7 - m)) div 8 = i" "7 - (8 * i + (7 - m)) mod 8 = m" using k by simp_all
qed

lemma key_eqI:
  assumes l: "length k = n" "length k' = n" and b: "\<And>b. b < 8 * n \<Longrightarrow> key_bit k b = key_bit k' b"
  shows "k = k'"
proof (rule nth_equalityI)
  fix i assume "i < length k"
  then have i: "i < n" using l by simp
  show "k ! i = k' ! i"
  proof (rule bit_word_eqI)
    fix m assume "m < LENGTH(8)"
    then have m: "m < 8" by simp
    have "8 * i + (7 - m) < 8 * n" using i m by linarith
    from b [OF this] show "bit (k ! i) m = bit (k' ! i) m" unfolding key_bit_iff bit_slot [OF m] .
  qed
qed (use l in simp)

section \<open>The mask tables\<close>

definition mask4 :: "bytes list" where
  "mask4 = [
     [0, 0, 0, 0],
     [0x80, 0, 0, 0],
     [0xc0, 0, 0, 0],
     [0xe0, 0, 0, 0],
     [0xf0, 0, 0, 0],
     [0xf8, 0, 0, 0],
     [0xfc, 0, 0, 0],
     [0xfe, 0, 0, 0],
     [0xff, 0, 0, 0],
     [0xff, 0x80, 0, 0],
     [0xff, 0xc0, 0, 0],
     [0xff, 0xe0, 0, 0],
     [0xff, 0xf0, 0, 0],
     [0xff, 0xf8, 0, 0],
     [0xff, 0xfc, 0, 0],
     [0xff, 0xfe, 0, 0],
     [0xff, 0xff, 0, 0],
     [0xff, 0xff, 0x80, 0],
     [0xff, 0xff, 0xc0, 0],
     [0xff, 0xff, 0xe0, 0],
     [0xff, 0xff, 0xf0, 0],
     [0xff, 0xff, 0xf8, 0],
     [0xff, 0xff, 0xfc, 0],
     [0xff, 0xff, 0xfe, 0],
     [0xff, 0xff, 0xff, 0],
     [0xff, 0xff, 0xff, 0x80],
     [0xff, 0xff, 0xff, 0xc0],
     [0xff, 0xff, 0xff, 0xe0],
     [0xff, 0xff, 0xff, 0xf0],
     [0xff, 0xff, 0xff, 0xf8],
     [0xff, 0xff, 0xff, 0xfc],
     [0xff, 0xff, 0xff, 0xfe],
     [0xff, 0xff, 0xff, 0xff]]"

text \<open>A row of mask6, written as one number of 16 bytes.\<close>

definition bytes16 :: "128 word \<Rightarrow> bytes" where
  "bytes16 w = map (\<lambda>i. ucast (drop_bit (8 * (15 - i)) w)) [0..<16]"

definition mask6 :: "bytes list" where
  "mask6 = map bytes16 [
     0,
     0x80000000000000000000000000000000,
     0xc0000000000000000000000000000000,
     0xe0000000000000000000000000000000,
     0xf0000000000000000000000000000000,
     0xf8000000000000000000000000000000,
     0xfc000000000000000000000000000000,
     0xfe000000000000000000000000000000,
     0xff000000000000000000000000000000,
     0xff800000000000000000000000000000,
     0xffc00000000000000000000000000000,
     0xffe00000000000000000000000000000,
     0xfff00000000000000000000000000000,
     0xfff80000000000000000000000000000,
     0xfffc0000000000000000000000000000,
     0xfffe0000000000000000000000000000,
     0xffff0000000000000000000000000000,
     0xffff8000000000000000000000000000,
     0xffffc000000000000000000000000000,
     0xffffe000000000000000000000000000,
     0xfffff000000000000000000000000000,
     0xfffff800000000000000000000000000,
     0xfffffc00000000000000000000000000,
     0xfffffe00000000000000000000000000,
     0xffffff00000000000000000000000000,
     0xffffff80000000000000000000000000,
     0xffffffc0000000000000000000000000,
     0xffffffe0000000000000000000000000,
     0xfffffff0000000000000000000000000,
     0xfffffff8000000000000000000000000,
     0xfffffffc000000000000000000000000,
     0xfffffffe000000000000000000000000,
     0xffffffff000000000000000000000000,
     0xffffffff800000000000000000000000,
     0xffffffffc00000000000000000000000,
     0xffffffffe00000000000000000000000,
     0xfffffffff00000000000000000000000,
     0xfffffffff80000000000000000000000,
     0xfffffffffc0000000000000000000000,
     0xfffffffffe0000000000000000000000,
     0xffffffffff0000000000000000000000,
     0xffffffffff8000000000000000000000,
     0xffffffffffc000000000000000000000,
     0xffffffffffe000000000000000000000,
     0xfffffffffff000000000000000000000,
     0xfffffffffff800000000000000000000,
     0xfffffffffffc00000000000000000000,
     0xfffffffffffe00000000000000000000,
     0xffffffffffff00000000000000000000,
     0xffffffffffff80000000000000000000,
     0xffffffffffffc0000000000000000000,
     0xffffffffffffe0000000000000000000,
     0xfffffffffffff0000000000000000000,
     0xfffffffffffff8000000000000000000,
     0xfffffffffffffc000000000000000000,
     0xfffffffffffffe000000000000000000,
     0xffffffffffffff000000000000000000,
     0xffffffffffffff800000000000000000,
     0xffffffffffffffc00000000000000000,
     0xffffffffffffffe00000000000000000,
     0xfffffffffffffff00000000000000000,
     0xfffffffffffffff80000000000000000,
     0xfffffffffffffffc0000000000000000,
     0xfffffffffffffffe0000000000000000,
     0xffffffffffffffff0000000000000000,
     0xffffffffffffffff8000000000000000,
     0xffffffffffffffffc000000000000000,
     0xffffffffffffffffe000000000000000,
     0xfffffffffffffffff000000000000000,
     0xfffffffffffffffff800000000000000,
     0xfffffffffffffffffc00000000000000,
     0xfffffffffffffffffe00000000000000,
     0xffffffffffffffffff00000000000000,
     0xffffffffffffffffff80000000000000,
     0xffffffffffffffffffc0000000000000,
     0xffffffffffffffffffe0000000000000,
     0xfffffffffffffffffff0000000000000,
     0xfffffffffffffffffff8000000000000,
     0xfffffffffffffffffffc000000000000,
     0xfffffffffffffffffffe000000000000,
     0xffffffffffffffffffff000000000000,
     0xffffffffffffffffffff800000000000,
     0xffffffffffffffffffffc00000000000,
     0xffffffffffffffffffffe00000000000,
     0xfffffffffffffffffffff00000000000,
     0xfffffffffffffffffffff80000000000,
     0xfffffffffffffffffffffc0000000000,
     0xfffffffffffffffffffffe0000000000,
     0xffffffffffffffffffffff0000000000,
     0xffffffffffffffffffffff8000000000,
     0xffffffffffffffffffffffc000000000,
     0xffffffffffffffffffffffe000000000,
     0xfffffffffffffffffffffff000000000,
     0xfffffffffffffffffffffff800000000,
     0xfffffffffffffffffffffffc00000000,
     0xfffffffffffffffffffffffe00000000,
     0xffffffffffffffffffffffff00000000,
     0xffffffffffffffffffffffff80000000,
     0xffffffffffffffffffffffffc0000000,
     0xffffffffffffffffffffffffe0000000,
     0xfffffffffffffffffffffffff0000000,
     0xfffffffffffffffffffffffff8000000,
     0xfffffffffffffffffffffffffc000000,
     0xfffffffffffffffffffffffffe000000,
     0xffffffffffffffffffffffffff000000,
     0xffffffffffffffffffffffffff800000,
     0xffffffffffffffffffffffffffc00000,
     0xffffffffffffffffffffffffffe00000,
     0xfffffffffffffffffffffffffff00000,
     0xfffffffffffffffffffffffffff80000,
     0xfffffffffffffffffffffffffffc0000,
     0xfffffffffffffffffffffffffffe0000,
     0xffffffffffffffffffffffffffff0000,
     0xffffffffffffffffffffffffffff8000,
     0xffffffffffffffffffffffffffffc000,
     0xffffffffffffffffffffffffffffe000,
     0xfffffffffffffffffffffffffffff000,
     0xfffffffffffffffffffffffffffff800,
     0xfffffffffffffffffffffffffffffc00,
     0xfffffffffffffffffffffffffffffe00,
     0xffffffffffffffffffffffffffffff00,
     0xffffffffffffffffffffffffffffff80,
     0xffffffffffffffffffffffffffffffc0,
     0xffffffffffffffffffffffffffffffe0,
     0xfffffffffffffffffffffffffffffff0,
     0xfffffffffffffffffffffffffffffff8,
     0xfffffffffffffffffffffffffffffffc,
     0xfffffffffffffffffffffffffffffffe,
     0xffffffffffffffffffffffffffffffff]"


lemma mask6_rows: "mask6 = map (\<lambda>p. bytes16 (push_bit (128 - p) (mask p))) [0..<129]"
proof -
  have u: "[0..<129] = 0 # 1 # [2..<129]" by (simp add: upt_conv_Cons)
  show ?thesis unfolding u mask6_def
    by (simp add: upt_rec_numeral mask_eq_exp_minus_1 push_bit_eq_mult del: mask_numeral)
qed

definition bytes4 :: "u32 \<Rightarrow> bytes" where
  "bytes4 w = map (\<lambda>i. ucast (drop_bit (8 * (3 - i)) w)) [0..<4]"

lemma mask4_words: "mask4 = map bytes4 [0, 0x80000000, 0xc0000000, 0xe0000000, 0xf0000000, 0xf8000000, 0xfc000000, 0xfe000000, 0xff000000, 0xff800000, 0xffc00000, 0xffe00000, 0xfff00000, 0xfff80000, 0xfffc0000, 0xfffe0000, 0xffff0000, 0xffff8000, 0xffffc000, 0xffffe000, 0xfffff000, 0xfffff800, 0xfffffc00, 0xfffffe00, 0xffffff00, 0xffffff80, 0xffffffc0, 0xffffffe0, 0xfffffff0, 0xfffffff8, 0xfffffffc, 0xfffffffe, 0xffffffff]"
  by (simp add: mask4_def bytes4_def upt_rec)

lemma mask4_rows: "mask4 = map (\<lambda>p. bytes4 (push_bit (32 - p) (mask p))) [0..<33]"
  unfolding mask4_words by code_simp

lemma bytes16_bit:
  assumes "b < 128" shows "key_bit (bytes16 w) b = bit w (127 - b)"
proof -
  define q r where "q = b div 8" and "r = b mod 8"
  have qr: "q < 16" "r < 8" "b = 8 * q + r" using assms by (auto simp: q_def r_def)
  have e: "8 * (15 - q) + (7 - r) = 127 - b" using qr by auto
  have le: "7 - r < 8" by simp
  have "key_bit (bytes16 w) b = bit w (8 * (15 - q) + (7 - r))"
    using qr(1,2) le by (simp add: key_bit_iff bytes16_def bit_simps flip: q_def r_def)
  then show ?thesis unfolding e .
qed

lemma bytes4_bit:
  assumes "b < 32" shows "key_bit (bytes4 w) b = bit w (31 - b)"
proof -
  define q r where "q = b div 8" and "r = b mod 8"
  have qr: "q < 4" "r < 8" "b = 8 * q + r" using assms by (auto simp: q_def r_def)
  have e: "8 * (3 - q) + (7 - r) = 31 - b" using qr by auto
  have le: "7 - r < 8" by simp
  have "key_bit (bytes4 w) b = bit w (8 * (3 - q) + (7 - r))"
    using qr(1,2) le by (simp add: key_bit_iff bytes4_def bit_simps flip: q_def r_def)
  then show ?thesis unfolding e .
qed

lemma mask6_bit: "p \<le> 128 \<Longrightarrow> b < 128 \<Longrightarrow> key_bit (mask6 ! p) b \<longleftrightarrow> b < p"
  by (auto simp: mask6_rows bytes16_bit bit_simps simp del: upt_Suc)

lemma mask4_bit: "p \<le> 32 \<Longrightarrow> b < 32 \<Longrightarrow> key_bit (mask4 ! p) b \<longleftrightarrow> b < p"
  by (auto simp: mask4_rows bytes4_bit bit_simps simp del: upt_Suc)

lemma mask_lengths [simp]:
  "p \<le> 128 \<Longrightarrow> length (mask6 ! p) = 16" "p \<le> 32 \<Longrightarrow> length (mask4 ! p) = 4"
  by (auto simp: mask6_rows bytes16_def mask4_rows bytes4_def simp del: upt_Suc)

section \<open>The access control lists\<close>

definition acl_hit :: "nat \<Rightarrow> bytes \<Rightarrow> acl \<Rightarrow> bool" where
  "acl_hit n src a \<longleftrightarrow> list_all (\<lambda>i. src ! i AND a_mask a ! i = a_addr a ! i) [0..<n]"

definition acl6 :: "bytes \<Rightarrow> aftr \<Rightarrow> bool" where
  "acl6 src s = list_ex (acl_hit 16 src) (acl6s s)"

definition acl4 :: "bytes \<Rightarrow> aftr \<Rightarrow> bool" where
  "acl4 src s = list_ex (acl_hit 4 src) (acl4s s)"

text \<open>\<open>mem\<close> is the malloc of the new entry; the result is the code's return value.\<close>

definition add_acl6 :: "bool \<Rightarrow> bytes \<Rightarrow> nat \<Rightarrow> aftr \<Rightarrow> int \<times> aftr" where
  "add_acl6 mem addr plen s =
     (if list_ex (\<lambda>a. sub (a_addr a) 0 16 = sub addr 0 16 \<and> sub (a_mask a) 0 16 = sub (mask6 ! plen) 0 16) (acl6s s)
      then (0, s)
      else if \<not> mem then (-1, s)
      else (0, s\<lparr>acl6s := acl6s s @ [\<lparr>a_addr = sub addr 0 16, a_mask = sub (mask6 ! plen) 0 16\<rparr>]\<rparr>))"

definition add_private :: "bool \<Rightarrow> bytes \<Rightarrow> nat \<Rightarrow> aftr \<Rightarrow> int \<times> aftr" where
  "add_private mem addr plen s =
     (if list_ex (\<lambda>a. sub (a_addr a) 0 4 = sub addr 0 4 \<and> sub (a_mask a) 0 4 = sub (mask4 ! plen) 0 4) (acl4s s)
      then (0, s)
      else if \<not> mem then (-1, s)
      else (0, s\<lparr>acl4s := acl4s s @ [\<lparr>a_addr = sub addr 0 4, a_mask = sub (mask4 ! plen) 0 4\<rparr>]\<rparr>))"

text \<open>Deletion takes the first entry with the address, whatever its prefix length.\<close>

fun remove_first :: "('a \<Rightarrow> bool) \<Rightarrow> 'a list \<Rightarrow> 'a list" where
  "remove_first P [] = []"
| "remove_first P (x # xs) = (if P x then xs else x # remove_first P xs)"

definition del_acl6 :: "bytes \<Rightarrow> aftr \<Rightarrow> int \<times> aftr" where
  "del_acl6 addr s =
     (if acl6s s = [] then (-1, s)
      else if \<not> list_ex (\<lambda>a. sub (a_addr a) 0 16 = sub addr 0 16) (acl6s s) then (-1, s)
      else (0, s\<lparr>acl6s := remove_first (\<lambda>a. sub (a_addr a) 0 16 = sub addr 0 16) (acl6s s)\<rparr>))"

definition del_private :: "bytes \<Rightarrow> aftr \<Rightarrow> int \<times> aftr" where
  "del_private addr s =
     (if acl4s s = [] then (-1, s)
      else if \<not> list_ex (\<lambda>a. sub (a_addr a) 0 4 = sub addr 0 4) (acl4s s) then (-1, s)
      else (0, s\<lparr>acl4s := remove_first (\<lambda>a. sub (a_addr a) 0 4 = sub addr 0 4) (acl4s s)\<rparr>))"

text \<open>The four default entries: 10/8, 172.16/12, 192.168/16 and 192.0.0.0/29.\<close>

fun init_acl4_loop :: "(nat \<Rightarrow> bool) \<Rightarrow> nat \<Rightarrow> nat \<Rightarrow> aftr \<Rightarrow> int \<times> aftr" where
  "init_acl4_loop mem i 0 s = (0, s)"
| "init_acl4_loop mem i (Suc k) s =
     (if \<not> mem i then (-1, s)
      else
        let a = (if i = 0 then \<lparr>a_addr = [10, 0, 0, 0], a_mask = sub (mask4 ! 8) 0 4\<rparr>
                 else if i = 1 then \<lparr>a_addr = [172, 16, 0, 0], a_mask = sub (mask4 ! 12) 0 4\<rparr>
                 else if i = 2 then \<lparr>a_addr = [192, 168, 0, 0], a_mask = sub (mask4 ! 16) 0 4\<rparr>
                 else \<lparr>a_addr = [192, 0, 0, 0], a_mask = sub (mask4 ! 29) 0 4\<rparr>)
        in init_acl4_loop mem (i + 1) k (s\<lparr>acl4s := acl4s s @ [a]\<rparr>))"

definition init_acl4 :: "(nat \<Rightarrow> bool) \<Rightarrow> aftr \<Rightarrow> int \<times> aftr" where
  "init_acl4 mem s = init_acl4_loop mem 0 4 s"

section \<open>The commands that add prefixes\<close>

text \<open>
  strtok over the rest of a line: the next token and what is left behind its separator. With
  no separators it is the whole rest. atoi reads an optional sign and digits after blanks: the
  value of strtol, held in the range of a long, cut to an int.
\<close>

definition strtok :: "string \<Rightarrow> string \<Rightarrow> (string \<times> string) option" where
  "strtok seps s =
     (let s = dropWhile (\<lambda>c. c \<in> set seps) s
      in if s = [] then None
         else Some (takeWhile (\<lambda>c. c \<notin> set seps) s, drop 1 (dropWhile (\<lambda>c. c \<notin> set seps) s)))"

definition is_digit :: "char \<Rightarrow> bool" where
  "is_digit c \<longleftrightarrow> 48 \<le> (of_char c :: nat) \<and> (of_char c :: nat) \<le> 57"

definition is_blank :: "char \<Rightarrow> bool" where
  "is_blank c \<longleftrightarrow> (of_char c :: nat) = 32 \<or> (9 \<le> (of_char c :: nat) \<and> (of_char c :: nat) \<le> 13)"

definition digits_val :: "string \<Rightarrow> int" where
  "digits_val s = foldl (\<lambda>v c. 10 * v + int (of_char c - 48)) 0 (takeWhile is_digit s)"

definition signed_val :: "string \<Rightarrow> int" where
  "signed_val s =
     (case dropWhile is_blank s of
        [] \<Rightarrow> 0
      | c # cs \<Rightarrow>
          if c = CHR ''-'' then - digits_val cs
          else if c = CHR ''+'' then digits_val cs
          else digits_val (c # cs))"

definition atoi :: "string \<Rightarrow> int" where
  "atoi s = sint (word_of_int (max (- (2 ^ 63)) (min (2 ^ 63 - 1) (signed_val s))) :: 32 word)"

definition blanks :: string where
  "blanks = [CHR '' '', CHR 0x09]"

text \<open>
  \<open>pton\<close> is inet_pton of the address family. \<open>tok\<close> is the token the interpreter has read,
  \<open>rest\<close> the line behind it.
\<close>

definition cmd_acl6 :: "(string \<Rightarrow> bytes option) \<Rightarrow> bool \<Rightarrow> string \<Rightarrow> string \<Rightarrow> aftr \<Rightarrow> int \<times> aftr" where
  "cmd_acl6 pton mem tok rest s =
     (if strtok blanks rest \<noteq> None then (-1, s)
      else case strtok ''/'' tok of
        None \<Rightarrow> (-1, s)
      | Some (tok, behind) \<Rightarrow>
          (case pton tok of
             None \<Rightarrow> (-1, s)
           | Some addr \<Rightarrow>
               (case strtok [] behind of
                  None \<Rightarrow> (-1, s)
                | Some (ntok, _) \<Rightarrow>
                    let plen = atoi ntok
                    in if plen < 0 \<or> plen > 128 then (-1, s)
                       else if list_ex (\<lambda>i. addr ! i AND NOT (mask6 ! nat plen ! i) \<noteq> 0) [0..<16] then (-1, s)
                       else add_acl6 mem addr (nat plen) s)))"

definition cmd_default_private ::
  "(string \<Rightarrow> bytes option) \<Rightarrow> bool \<Rightarrow> string \<Rightarrow> string \<Rightarrow> aftr \<Rightarrow> int \<times> aftr" where
  "cmd_default_private pton mem tok rest s =
     (if strtok blanks rest \<noteq> None then (-1, s)
      else case strtok ''/'' tok of
        None \<Rightarrow> (-1, s)
      | Some (tok, behind) \<Rightarrow>
          (case pton tok of
             None \<Rightarrow> (-1, s)
           | Some addr \<Rightarrow>
               (case strtok [] behind of
                  None \<Rightarrow> (-1, s)
                | Some (ntok, _) \<Rightarrow>
                    let plen = atoi ntok
                    in if plen < 0 \<or> plen > 32 then (-1, s)
                       else if list_ex (\<lambda>i. addr ! i AND NOT (mask4 ! nat plen ! i) \<noteq> 0) [0..<4] then (-1, s)
                       else add_private mem addr (nat plen) s)))"

text \<open>The deletion commands fail when the list is empty afterwards, although they have deleted.\<close>

definition cmd_delete_acl6 :: "(string \<Rightarrow> bytes option) \<Rightarrow> string \<Rightarrow> string \<Rightarrow> aftr \<Rightarrow> int \<times> aftr" where
  "cmd_delete_acl6 pton tok rest s =
     (if strtok blanks rest \<noteq> None then (-1, s)
      else case pton tok of
        None \<Rightarrow> (-1, s)
      | Some addr \<Rightarrow> let (ret, s) = del_acl6 addr s in if acl6s s = [] then (-1, s) else (ret, s))"

definition cmd_delete_private :: "(string \<Rightarrow> bytes option) \<Rightarrow> string \<Rightarrow> string \<Rightarrow> aftr \<Rightarrow> int \<times> aftr" where
  "cmd_delete_private pton tok rest s =
     (if strtok blanks rest \<noteq> None then (-1, s)
      else case pton tok of
        None \<Rightarrow> (-1, s)
      | Some addr \<Rightarrow> let (ret, s) = del_private addr s in if acl4s s = [] then (-1, s) else (ret, s))"

section \<open>An entry accepts its prefix\<close>

definition prefix_agree :: "nat \<Rightarrow> bytes \<Rightarrow> bytes \<Rightarrow> bool" where
  "prefix_agree p x y \<longleftrightarrow> (\<forall>b < p. key_bit x b = key_bit y b)"

lemma key_bit_and_not:
  assumes "m < 8" shows "bit (x ! i) m = key_bit x (8 * i + (7 - m))"
proof -
  show ?thesis unfolding key_bit_iff bit_slot [OF assms] ..
qed

lemma bytes_all_bits:
  "(\<forall>i < n. \<forall>m < 8. P i (8 * i + (7 - m))) \<longleftrightarrow> (\<forall>b < 8 * n. P (b div 8) (b :: nat))"
proof (intro iffI allI impI)
  fix b assume P: "\<forall>i < n. \<forall>m < 8. P i (8 * i + (7 - m))" and b: "b < 8 * n"
  have "b mod 8 < 8" by simp
  then have "8 * (b div 8) + (7 - (7 - b mod 8)) = b" using mult_div_mod_eq [of 8 b] by linarith
  moreover have "b div 8 < n" "7 - b mod 8 < 8" using b by auto
  ultimately show "P (b div 8) b" using P by metis
next
  fix i m :: nat assume P: "\<forall>b < 8 * n. P (b div 8) b" and "i < n" "m < 8"
  then have "(8 * i + (7 - m)) div 8 = i" "8 * i + (7 - m) < 8 * n" using bit_slot(1) by auto
  then show "P i (8 * i + (7 - m))" using P by metis
qed

lemma word_eq_bits8: "(x :: u8) = y \<longleftrightarrow> (\<forall>m < 8. bit x m = bit y m)"
  by (auto intro: bit_word_eqI)

lemma masked_bytes:
  "(\<forall>i < n. x ! i AND k ! i = y ! i) \<longleftrightarrow>
     (\<forall>b < 8 * n. (key_bit x b \<and> key_bit k b) = key_bit y b)"
proof -
  have "(\<forall>i < n. x ! i AND k ! i = y ! i) \<longleftrightarrow>
      (\<forall>i < n. \<forall>m < 8. (key_bit x (8 * i + (7 - m)) \<and> key_bit k (8 * i + (7 - m))) = key_bit y (8 * i + (7 - m)))"
    by (simp add: word_eq_bits8 bit_and_iff key_bit_and_not)
  then show ?thesis using bytes_all_bits [of n "\<lambda>i b. (key_bit x b \<and> key_bit k b) = key_bit y b"] by simp
qed

lemma host_bits:
  "(\<forall>i < n. y ! i AND NOT (k ! i) = 0) \<longleftrightarrow> (\<forall>b < 8 * n. key_bit y b \<longrightarrow> key_bit k b)"
proof -
  have "(\<forall>i < n. y ! i AND NOT (k ! i) = 0) \<longleftrightarrow>
      (\<forall>i < n. \<forall>m < 8. key_bit y (8 * i + (7 - m)) \<longrightarrow> key_bit k (8 * i + (7 - m)))"
    by (simp add: word_eq_bits8 bit_and_iff bit_not_iff key_bit_and_not)
  then show ?thesis using bytes_all_bits [of n "\<lambda>i b. key_bit y b \<longrightarrow> key_bit k b"] by simp
qed

lemma acl_hit_prefix:
  assumes k: "\<And>b. b < 8 * n \<Longrightarrow> key_bit k b \<longleftrightarrow> b < p" and p: "p \<le> 8 * n"
    and host: "\<forall>i < n. y ! i AND NOT (k ! i) = 0"
  shows "acl_hit n x \<lparr>a_addr = y, a_mask = k\<rparr> \<longleftrightarrow> prefix_agree p x y"
proof -
  have y: "b < p" if "b < 8 * n" "key_bit y b" for b
    using host [unfolded host_bits] that k by blast
  have "acl_hit n x \<lparr>a_addr = y, a_mask = k\<rparr> \<longleftrightarrow> (\<forall>i < n. x ! i AND k ! i = y ! i)"
    by (auto simp: acl_hit_def list_all_iff)
  also have "\<dots> \<longleftrightarrow> (\<forall>b < 8 * n. (key_bit x b \<and> key_bit k b) = key_bit y b)" by (rule masked_bytes)
  also have "\<dots> \<longleftrightarrow> prefix_agree p x y" unfolding prefix_agree_def using k y p
    by (meson order_less_le_trans)
  finally show ?thesis .
qed

lemma sub_full [simp]: "length x = n \<Longrightarrow> sub x 0 n = x"
  by (simp add: sub_def)

lemma strtok_rest: "strtok [] s = Some (t, u) \<longleftrightarrow> t = s \<and> u = [] \<and> s \<noteq> []"
proof -
  have w: "dropWhile (\<lambda>c. True) s = []" "takeWhile (\<lambda>c. True) s = s" "dropWhile (\<lambda>c. False) s = s"
    by (induction s) auto
  show ?thesis unfolding strtok_def Let_def by (auto simp: w)
qed

definition acl_sizes :: "nat \<Rightarrow> acl list \<Rightarrow> bool" where
  "acl_sizes n as \<longleftrightarrow> (\<forall>a \<in> set as. length (a_addr a) = n \<and> length (a_mask a) = n)"

lemma acl_member: "a \<in> S \<Longrightarrow> a_mask a = m \<Longrightarrow> \<lparr>a_addr = a_addr a, a_mask = m\<rparr> \<in> S"
  by (cases a) simp

lemma add_acl6_accepts:
  assumes add: "add_acl6 mem addr p s = (0, s')" and p: "p \<le> 128" and a: "length addr = 16"
    and host: "\<forall>i < 16. addr ! i AND NOT (mask6 ! p ! i) = 0" and sz: "acl_sizes 16 (acl6s s)"
  shows "acl6 src s' \<longleftrightarrow> acl6 src s \<or> prefix_agree p src addr"
proof -
  let ?new = "\<lparr>a_addr = addr, a_mask = mask6 ! p\<rparr>"
  have hit: "acl_hit 16 src ?new \<longleftrightarrow> prefix_agree p src addr"
    using host p by (intro acl_hit_prefix) (simp_all add: mask6_bit)
  show ?thesis
  proof (cases "?new \<in> set (acl6s s)")
    case True
    then have "s' = s" using add a p
      by (auto simp: add_acl6_def list_ex_iff split: if_splits dest!: bspec [of _ _ ?new])
    then show ?thesis using True hit by (auto simp: acl6_def list_ex_iff)
  next
    case False
    have "acl6s s' = acl6s s @ [?new]"
      using add a p False sz by (auto dest: acl_member simp: add_acl6_def list_ex_iff acl_sizes_def split: if_splits)
    then show ?thesis using hit by (auto simp: acl6_def list_ex_iff)
  qed
qed

lemma add_private_accepts:
  assumes add: "add_private mem addr p s = (0, s')" and p: "p \<le> 32" and a: "length addr = 4"
    and host: "\<forall>i < 4. addr ! i AND NOT (mask4 ! p ! i) = 0" and sz: "acl_sizes 4 (acl4s s)"
  shows "acl4 src s' \<longleftrightarrow> acl4 src s \<or> prefix_agree p src addr"
proof -
  let ?new = "\<lparr>a_addr = addr, a_mask = mask4 ! p\<rparr>"
  have hit: "acl_hit 4 src ?new \<longleftrightarrow> prefix_agree p src addr"
    using host p by (intro acl_hit_prefix) (simp_all add: mask4_bit)
  show ?thesis
  proof (cases "?new \<in> set (acl4s s)")
    case True
    then have "s' = s" using add a p
      by (auto simp: add_private_def list_ex_iff split: if_splits dest!: bspec [of _ _ ?new])
    then show ?thesis using True hit by (auto simp: acl4_def list_ex_iff)
  next
    case False
    have "acl4s s' = acl4s s @ [?new]"
      using add a p False sz by (auto dest: acl_member simp: add_private_def list_ex_iff acl_sizes_def split: if_splits)
    then show ?thesis using hit by (auto simp: acl4_def list_ex_iff)
  qed
qed

text \<open>
  Claim C34: a successful acl6 command opens the daemon to exactly the addresses of the given
  prefix: from then on an address is accepted when it was before or when its first bits are
  those of the prefix. The hypotheses: inet_pton writes 16 bytes, and so have the entries.
\<close>

theorem cmd_acl6_accepts:
  assumes "\<And>t a. pton t = Some a \<Longrightarrow> length a = 16" and "acl_sizes 16 (acl6s s)"
    and "cmd_acl6 pton mem tok rest s = (0, s')"
  shows "\<exists>t n addr. strtok ''/'' tok = Some (t, n) \<and> pton t = Some addr \<and> 0 \<le> atoi n \<and> atoi n \<le> 128 \<and>
    (\<forall>src. acl6 src s' \<longleftrightarrow> acl6 src s \<or> prefix_agree (nat (atoi n)) src addr)"
proof -
  obtain t n addr where tok: "strtok ''/'' tok = Some (t, n)" "pton t = Some addr" "0 \<le> atoi n" "atoi n \<le> 128"
    and host: "\<forall>i < 16. addr ! i AND NOT (mask6 ! nat (atoi n) ! i) = 0"
    and add: "add_acl6 mem addr (nat (atoi n)) s = (0, s')"
    using assms(3)
    by (auto simp: cmd_acl6_def strtok_rest Let_def list_ex_iff split: if_splits option.splits prod.splits)
  have "acl6 src s' \<longleftrightarrow> acl6 src s \<or> prefix_agree (nat (atoi n)) src addr" for src
    by (rule add_acl6_accepts [OF add _ assms(1) [OF tok(2)] host assms(2)]) (use tok in simp)
  then show ?thesis using tok by blast
qed

definition doc_prefix :: bytes where
  "doc_prefix = [0x20, 1, 0xd, 0xb8, 0, 0, 0, 0, 0, 0, 0, 0, 0, 0, 0, 0]"

theorem cmd_acl6_accepts_witness:
  "\<exists>s'. cmd_acl6 (\<lambda>t. if t = ''2001:db8::'' then Some doc_prefix else None) True ''2001:db8::/32'' [] aftr0 = (0, s') \<and>
     acl6 (doc_prefix[15 := 7]) s' \<and> \<not> acl6 (doc_prefix[3 := 0xb9]) s'"
proof -
  let ?p = "\<lambda>t. if t = ''2001:db8::'' then Some doc_prefix else None"
  have len: "\<And>t a. ?p t = Some a \<Longrightarrow> length a = 16" by (auto simp: doc_prefix_def split: if_splits)
  have tok: "strtok ''/'' ''2001:db8::/32'' = Some (''2001:db8::'', ''32'')" by (simp add: strtok_def)
  have n: "atoi ''32'' = 32" by (simp add: atoi_def signed_val_def is_blank_def is_digit_def digits_val_def)
  have m: "mask6 ! 32 = bytes16 0xffffffff000000000000000000000000" by (simp add: mask6_def)
  have host: "\<not> list_ex (\<lambda>i. doc_prefix ! i AND NOT (mask6 ! 32 ! i) \<noteq> 0) [0..<16]"
    unfolding m by code_simp
  define s' where "s' = snd (add_acl6 True doc_prefix 32 aftr0)"
  have s': "add_acl6 True doc_prefix 32 aftr0 = (0, s')" unfolding s'_def by (simp add: add_acl6_def aftr0_def)
  have blank: "strtok blanks [] = None" by (simp add: strtok_def)
  have n2: "strtok [] ''32'' = Some (''32'', [])" by (simp add: strtok_rest)
  have cmd: "cmd_acl6 ?p True ''2001:db8::/32'' [] aftr0 = (0, s')"
    using host blank by (simp add: cmd_acl6_def tok n n2 Let_def s')
  have "acl_sizes 16 (acl6s aftr0)" "\<not> acl6 src aftr0" for src by (simp_all add: acl_sizes_def aftr0_def acl6_def)
  with cmd_acl6_accepts [OF len _ cmd] tok n
  have all: "acl6 src s' \<longleftrightarrow> prefix_agree 32 src doc_prefix" for src by (auto split: if_splits)
  have "prefix_agree 32 (doc_prefix[15 := 7]) doc_prefix"
  proof -
    have "15 \<noteq> b div 8" if "b < 32" for b :: nat using that by auto
    then show ?thesis by (simp add: prefix_agree_def key_bit_def)
  qed
  moreover have "\<not> prefix_agree 32 (doc_prefix[3 := 0xb9]) doc_prefix"
    by (auto simp: prefix_agree_def key_bit_def doc_prefix_def intro!: exI [of _ 31])
  ultimately show ?thesis using cmd all by blast
qed

lemma default_entries:
  "acl_hit 4 src \<lparr>a_addr = [10, 0, 0, 0], a_mask = mask4 ! 8\<rparr> \<longleftrightarrow> prefix_agree 8 src [10, 0, 0, 0]"
  "acl_hit 4 src \<lparr>a_addr = [172, 16, 0, 0], a_mask = mask4 ! 12\<rparr> \<longleftrightarrow> prefix_agree 12 src [172, 16, 0, 0]"
  "acl_hit 4 src \<lparr>a_addr = [192, 168, 0, 0], a_mask = mask4 ! 16\<rparr> \<longleftrightarrow> prefix_agree 16 src [192, 168, 0, 0]"
  "acl_hit 4 src \<lparr>a_addr = [192, 0, 0, 0], a_mask = mask4 ! 29\<rparr> \<longleftrightarrow> prefix_agree 29 src [192, 0, 0, 0]"
  by (rule acl_hit_prefix; (simp add: mask4_bit; fail)?; simp add: mask4_def All_less_Suc2 numeral_eq_Suc)+

text \<open>
  The daemon starts with the private prefixes of RFC 1918 and the prefix of
  RFC 6333: init_acl4 makes acl4 accept 10/8, 172.16/12, 192.168/16 and 192.0.0.0/29 beside
  what it accepted before, and nothing else.
\<close>

theorem init_acl4_private:
  "\<exists>s'. init_acl4 (\<lambda>i. True) s = (0, s') \<and>
    (\<forall>src. acl4 src s' \<longleftrightarrow> acl4 src s \<or> prefix_agree 8 src [10, 0, 0, 0] \<or> prefix_agree 12 src [172, 16, 0, 0] \<or>
       prefix_agree 16 src [192, 168, 0, 0] \<or> prefix_agree 29 src [192, 0, 0, 0])"
proof -
  have "init_acl4 (\<lambda>i. True) s = init_acl4_loop (\<lambda>i. True) 0 (Suc (Suc (Suc (Suc 0)))) s"
    by (simp only: init_acl4_def numeral_eq_Suc pred_numeral_simps BitM.simps)
  then show ?thesis by (simp add: acl4_def default_entries)
qed

end
