(* ===== verification/Aftr_Frag.thy ===== *)
theory Aftr_Frag
  imports Aftr_Jhash
begin

text \<open>
  Reassembly: the piece chain both defragmenters keep per datagram (the two loops and the
  overlap tests of defrag and defrag6), del_frag4, del_frag6, defrag (IPv4, from a tunnel or
  from the Internet) and defrag6 (IPv6, from a tunnel). The packet buffers are the whole
  arrays of the code; \<open>len\<close> is passed and returned. A malloc that fails is an argument.
\<close>

section \<open>The piece chain\<close>

text \<open>
  The loop that looks for the place of a piece at offset \<open>off\<close>: \<open>pre\<close> are the pieces passed
  (the last one is the code's p), the rest starts with the code's q. \<open>None\<close> is its early
  return: a piece with this offset is there, or the last piece was passed.
\<close>

fun frag_scan :: "nat \<Rightarrow> piece list \<Rightarrow> piece list \<Rightarrow> (piece list \<times> piece list) option" where
  "frag_scan off pre [] = Some (pre, [])"
| "frag_scan off pre (q # qs) =
     (if f_off q = off then None
      else if f_off q > off then Some (pre, q # qs)
      else if \<not> f_more q then None
      else frag_scan off (pre @ [q]) qs)"

definition frag_insert :: "piece \<Rightarrow> piece list \<Rightarrow> piece list option" where
  "frag_insert np ps =
     (case frag_scan (f_off np) [] ps of
        None \<Rightarrow> None
      | Some (pre, post) \<Rightarrow>
          if (post \<noteq> [] \<and> f_off np + f_len np > f_off (hd post)) \<or>
             (post \<noteq> [] \<and> \<not> f_more np) \<or>
             (pre \<noteq> [] \<and> f_off (last pre) + f_len (last pre) > f_off np)
          then None else Some (pre @ np # post))"

text \<open>The loop that adds up a chain without holes from \<open>off\<close> on.\<close>

fun frag_total :: "nat \<Rightarrow> piece list \<Rightarrow> nat option" where
  "frag_total off [] = Some off"
| "frag_total off (q # qs) = (if f_off q \<noteq> off then None else frag_total (off + f_len q) qs)"

text \<open>The test before the packet is rebuilt: no hole, and the last piece ends the datagram.\<close>

definition frag_complete :: "piece list \<Rightarrow> nat option" where
  "frag_complete ps =
     (case frag_total 0 ps of
        None \<Rightarrow> None
      | Some n \<Rightarrow> if ps = [] \<or> f_more (last ps) then None else Some n)"

text \<open>The copies of the pieces behind the header.\<close>

definition frag_copy :: "nat \<Rightarrow> piece list \<Rightarrow> bytes \<Rightarrow> bytes" where
  "frag_copy hdr ps b = fold (\<lambda>p b. put b (hdr + f_off p) (f_buf p)) ps b"

subsection \<open>Chains stay sorted and disjoint\<close>

definition before :: "piece \<Rightarrow> piece \<Rightarrow> bool" where
  "before a b \<longleftrightarrow> f_off a < f_off b \<and> f_off a + f_len a \<le> f_off b \<and> f_more a"

definition chain_ok :: "piece list \<Rightarrow> bool" where
  "chain_ok ps \<longleftrightarrow> sorted_wrt before ps \<and> (\<forall>p \<in> set ps. length (f_buf p) = f_len p)"

lemma frag_scan_split:
  "frag_scan off pre ps = Some (a, b) \<Longrightarrow>
     \<exists>xs. a = pre @ xs \<and> ps = xs @ b \<and> (\<forall>q \<in> set xs. f_off q < off \<and> f_more q) \<and>
       (b \<noteq> [] \<longrightarrow> off < f_off (hd b))"
proof (induction off pre ps arbitrary: a b rule: frag_scan.induct)
  case (2 off pre q qs)
  show ?case
  proof (cases "f_off q > off")
    case False
    with 2 obtain xs where "a = (pre @ [q]) @ xs" "qs = xs @ b"
      "\<forall>q \<in> set xs. f_off q < off \<and> f_more q" "b \<noteq> [] \<longrightarrow> off < f_off (hd b)" "f_more q" "f_off q < off"
      by (auto split: if_splits)
    then show ?thesis by (intro exI [of _ "q # xs"]) auto
  qed (use 2 in auto)
qed auto

lemma frag_scan_through:
  "(\<forall>q \<in> set xs. f_off q < off \<and> f_more q) \<Longrightarrow> (ys \<noteq> [] \<longrightarrow> off < f_off (hd ys)) \<Longrightarrow>
     frag_scan off pre (xs @ ys) = Some (pre @ xs, ys)"
  by (induction xs arbitrary: pre) (cases ys; auto)+

lemma before_trans: "before a b \<Longrightarrow> before b c \<Longrightarrow> before a c"
  by (auto simp: before_def)

lemma frag_insert_split:
  assumes "chain_ok ps" "frag_insert np ps = Some ps'"
  shows "\<exists>xs ys. ps = xs @ ys \<and> ps' = xs @ np # ys \<and>
    (\<forall>q \<in> set xs. before q np) \<and> (\<forall>q \<in> set ys. before np q)"
proof -
  obtain pre post where sc: "frag_scan (f_off np) [] ps = Some (pre, post)"
    and ok: "post \<noteq> [] \<longrightarrow> f_off np + f_len np \<le> f_off (hd post) \<and> f_more np"
      "pre \<noteq> [] \<longrightarrow> f_off (last pre) + f_len (last pre) \<le> f_off np"
    and ps': "ps' = pre @ np # post"
    using assms(2) by (auto simp: frag_insert_def not_less split: option.splits if_splits)
  from frag_scan_split [OF sc] have ps: "ps = pre @ post"
    and pre: "\<forall>q \<in> set pre. f_off q < f_off np \<and> f_more q"
    and post: "post \<noteq> [] \<longrightarrow> f_off np < f_off (hd post)" by auto
  have s: "sorted_wrt before pre" "sorted_wrt before post"
    using assms(1) ps by (auto simp: chain_ok_def sorted_wrt_append)
  have "before q np" if q: "q \<in> set pre" for q
  proof (cases "q = last pre")
    case True
    then show ?thesis using ok(2) pre q by (auto simp: before_def)
  next
    case False
    obtain us where us: "pre = us @ [last pre]" using q by (metis append_butlast_last_id list.set_cases neq_Nil_conv)
    then have "q \<in> set us" using q False by (metis Un_iff empty_iff list.set(1) set_ConsD set_append)
    then have "before q (last pre)" using s(1) us by (metis in_set_conv_decomp list.set_intros(1) sorted_wrt_append)
    moreover have "before (last pre) np"
    proof -
      have "pre \<noteq> []" using q by auto
      then have "last pre \<in> set pre" by simp
      with pre have "f_off (last pre) < f_off np" "f_more (last pre)" by blast+
      then show ?thesis using ok(2) \<open>pre \<noteq> []\<close> by (simp add: before_def)
    qed
    ultimately show ?thesis by (rule before_trans)
  qed
  moreover have "before np q" if q: "q \<in> set post" for q
  proof -
    have h: "before np (hd post)" using ok(1) post q by (auto simp: before_def)
    show ?thesis
    proof (cases "q = hd post")
      case False
      then have "before (hd post) q" using s(2) q by (cases post) auto
      with h show ?thesis by (rule before_trans)
    qed (use h in simp)
  qed
  ultimately show ?thesis using ps ps' by blast
qed

lemma frag_insert_chain_ok:
  assumes "chain_ok ps" "frag_insert np ps = Some ps'" "length (f_buf np) = f_len np"
  shows "chain_ok ps' \<and> set ps' = insert np (set ps)"
proof -
  obtain xs ys where "ps = xs @ ys" "ps' = xs @ np # ys"
    "\<forall>q \<in> set xs. before q np" "\<forall>q \<in> set ys. before np q"
    using frag_insert_split [OF assms(1,2)] by blast
  then show ?thesis using assms(1,3) by (auto simp: chain_ok_def sorted_wrt_append)
qed

subsection \<open>Fragments of one datagram, in any order\<close>

text \<open>A cut of a payload: contiguous pieces that are not empty, the last one without the more flag.\<close>

fun cut_from :: "nat \<Rightarrow> bytes \<Rightarrow> piece list \<Rightarrow> bool" where
  "cut_from off P [] = False"
| "cut_from off P (q # qs) =
     (f_off q = off \<and> 0 < f_len q \<and> f_more q = (qs \<noteq> []) \<and>
      f_buf q = take (f_len q) P \<and>
      (if qs = [] then f_len q = length P
       else f_len q < length P \<and> cut_from (off + f_len q) (List.drop (f_len q) P) qs))"

abbreviation is_cut :: "bytes \<Rightarrow> piece list \<Rightarrow> bool" where
  "is_cut P fs \<equiv> cut_from 0 P fs"

definition frag_step :: "piece list \<Rightarrow> piece \<Rightarrow> piece list" where
  "frag_step ps g = (case frag_insert g ps of None \<Rightarrow> ps | Some ps' \<Rightarrow> ps')"

lemma cut_nonempty: "cut_from off P fs \<Longrightarrow> fs \<noteq> [] \<and> P \<noteq> []"
  by (cases fs) (auto split: if_splits)

lemma cut_off_ge: "cut_from off P fs \<Longrightarrow> q \<in> set fs \<Longrightarrow> off \<le> f_off q"
  by (induction off P fs rule: cut_from.induct) (auto split: if_splits)

lemma cut_sorted: "cut_from off P fs \<Longrightarrow> sorted_wrt before fs"
proof (induction off P fs rule: cut_from.induct)
  case (2 off P q qs)
  have "before q r" if "r \<in> set qs" for r
  proof -
    have "off + f_len q \<le> f_off r" using 2(2) that cut_off_ge [of _ _ qs r] by (auto split: if_splits)
    then show ?thesis using 2(2) that by (auto simp: before_def)
  qed
  then show ?case using 2 by (cases "qs = []") auto
qed simp

lemma cut_chain_ok: "is_cut P fs \<Longrightarrow> chain_ok fs"
proof -
  have "cut_from off P fs \<Longrightarrow> p \<in> set fs \<Longrightarrow> length (f_buf p) = f_len p" for off p
    by (induction off P fs rule: cut_from.induct) (auto split: if_splits)
  then show "is_cut P fs \<Longrightarrow> ?thesis" using cut_sorted by (auto simp: chain_ok_def)
qed

lemma cut_distinct: "sorted_wrt before fs \<Longrightarrow> distinct fs"
  by (induction fs) (auto simp: before_def)

text \<open>Inserting a member of a sorted chain into a sub-chain puts it at its place.\<close>

lemma frag_step_member:
  assumes s: "sorted_wrt before fs" and g: "g \<in> set fs"
  shows "frag_step (filter (\<lambda>f. f \<in> S) fs) g = filter (\<lambda>f. f \<in> insert g S) fs"
proof -
  obtain xs ys where fs: "fs = xs @ g # ys" using g by (meson split_list)
  have b: "\<forall>q \<in> set xs. before q g" "\<forall>q \<in> set ys. before g q"
    and nin: "g \<notin> set xs" "g \<notin> set ys"
    using s cut_distinct [OF s] by (auto simp: fs sorted_wrt_append)
  let ?xs = "filter (\<lambda>f. f \<in> S) xs" and ?ys = "filter (\<lambda>f. f \<in> S) ys"
  have thru: "\<forall>q \<in> set ?xs. f_off q < f_off g \<and> f_more q" using b(1) by (auto simp: before_def)
  show ?thesis
  proof (cases "g \<in> S")
    case True
    have sc: "frag_scan (f_off g) pre (us @ g # vs) = None"
      if "\<forall>q \<in> set us. f_off q < f_off g \<and> f_more q" for us vs pre
      using that by (induction us arbitrary: pre) auto
    have "frag_step (filter (\<lambda>f. f \<in> S) fs) g = filter (\<lambda>f. f \<in> S) fs"
      using True sc [OF thru, of "[]" ?ys] by (simp add: frag_step_def frag_insert_def fs)
    then show ?thesis using True by (simp add: insert_absorb)
  next
    case False
    have hd: "?ys \<noteq> [] \<longrightarrow> before g (hd ?ys)"
      using b(2) hd_in_set [of ?ys] by auto
    have lst: "?xs \<noteq> [] \<longrightarrow> before (last ?xs) g"
      using b(1) last_in_set [of ?xs] by auto
    have "frag_scan (f_off g) [] (?xs @ ?ys) = Some (?xs, ?ys)"
      using frag_scan_through [OF thru, of ?ys "[]"] hd by (auto simp: before_def)
    then have "frag_insert g (?xs @ ?ys) = Some (?xs @ g # ?ys)"
      using hd lst by (auto simp: frag_insert_def before_def)
    moreover have "filter (\<lambda>f. f \<in> insert g S) xs = ?xs" "filter (\<lambda>f. f \<in> insert g S) ys = ?ys"
      using nin by (auto intro!: filter_cong)
    ultimately show ?thesis using False by (simp add: frag_step_def fs)
  qed
qed

lemma frag_run_filter:
  assumes "sorted_wrt before fs" "set gs \<subseteq> set fs"
  shows "foldl frag_step [] gs = filter (\<lambda>f. f \<in> set gs) fs"
  using assms(2)
proof (induction gs rule: rev_induct)
  case (snoc g gs)
  then show ?case using frag_step_member [OF assms(1), of g "set gs"] by simp
qed simp

lemma cut_total:
  "cut_from off P fs \<Longrightarrow> frag_total off fs = Some (off + length P) \<and> \<not> f_more (last fs)"
proof (induction off P fs rule: cut_from.induct)
  case (2 off P q qs)
  then show ?case by (cases "qs = []") (auto simp: min_def)
qed simp

text \<open>A sub-chain of a cut has no complete total until it is the whole cut.\<close>

lemma cut_partial:
  assumes "cut_from off P fs" "frag_total off (filter (\<lambda>f. f \<in> S) fs) \<noteq> None"
    "filter (\<lambda>f. f \<in> S) fs \<noteq> []" "\<not> f_more (last (filter (\<lambda>f. f \<in> S) fs))"
  shows "set fs \<subseteq> S"
  using assms
proof (induction off P fs rule: cut_from.induct)
  case (2 off P q qs)
  show ?case
  proof (cases "q \<in> S")
    case True
    show ?thesis
    proof (cases "qs = []")
      case False
      then have cut: "cut_from (off + f_len q) (List.drop (f_len q) P) qs" and "f_more q"
        using 2(2) by auto
      moreover have "filter (\<lambda>f. f \<in> S) qs \<noteq> []" using 2(5) True \<open>f_more q\<close> by auto
      moreover have "frag_total (off + f_len q) (filter (\<lambda>f. f \<in> S) qs) \<noteq> None"
        using 2(3) True 2(2) by (auto split: if_splits)
      ultimately show ?thesis using 2(1) [OF False] 2(5) True by auto
    qed (use True in auto)
  next
    case False
    then have ne: "qs \<noteq> []" using 2(4) by auto
    then have cut: "cut_from (off + f_len q) (List.drop (f_len q) P) qs" and pos: "0 < f_len q"
      using 2(2) by auto
    obtain r rs where r: "filter (\<lambda>f. f \<in> S) qs = r # rs" using 2(4) False by (cases "filter (\<lambda>f. f \<in> S) qs") auto
    then have "r \<in> set qs" by (metis filter_is_subset list.set_intros(1) subsetD)
    then have "off < f_off r" using cut_off_ge [OF cut] pos by fastforce
    then have "frag_total off (filter (\<lambda>f. f \<in> S) (q # qs)) = None" using r False by simp
    then show ?thesis using 2(3) by simp
  qed
qed simp

text \<open>
  The pieces of a datagram may come in any order and any number of times; the chain
  is complete exactly when each piece has come at least once, and then its total is the length
  of the datagram.
\<close>

theorem frag_any_order:
  assumes "is_cut P fs" "set gs \<subseteq> set fs"
  shows "frag_complete (foldl frag_step [] gs) = (if set gs = set fs then Some (length P) else None)"
proof -
  have run: "foldl frag_step [] gs = filter (\<lambda>f. f \<in> set gs) fs"
    using frag_run_filter [OF cut_sorted [OF assms(1)] assms(2)] .
  show ?thesis
  proof (cases "set gs = set fs")
    case True
    then have "foldl frag_step [] gs = fs" using run by simp
    then show ?thesis
      using cut_total [OF assms(1)] cut_nonempty [OF assms(1)] True by (simp add: frag_complete_def)
  next
    case False
    then have "\<not> set fs \<subseteq> set gs" using assms(2) by blast
    let ?F = "filter (\<lambda>f. f \<in> set gs) fs"
    have "frag_total 0 ?F = None \<or> ?F = [] \<or> f_more (last ?F)"
      using cut_partial [OF assms(1), of "set gs"] \<open>\<not> set fs \<subseteq> set gs\<close> by blast
    then have "frag_complete ?F = None" by (auto simp: frag_complete_def split: option.splits)
    then show ?thesis using run False by simp
  qed
qed

theorem frag_any_order_witness:
  "let p = \<lparr>f_buf = [1, 2], f_len = 2, f_off = 0, f_more = True\<rparr>;
       q = \<lparr>f_buf = [3], f_len = 1, f_off = 2, f_more = False\<rparr>
   in frag_complete (foldl frag_step [] [q, p]) = Some 3"
  unfolding Let_def
  by (subst frag_any_order [where P = "[1, 2, 3]" and fs = "[\<lparr>f_buf = [1, 2], f_len = 2, f_off = 0, f_more = True\<rparr>,
      \<lparr>f_buf = [3], f_len = 1, f_off = 2, f_more = False\<rparr>]"]) auto

lemma frag_copy_length:
  "(\<forall>p \<in> set ps. hdr + f_off p + length (f_buf p) \<le> length b) \<Longrightarrow> length (frag_copy hdr ps b) = length b"
  unfolding frag_copy_def by (induction ps arbitrary: b) auto

lemma frag_copy_sub:
  "cut_from off P ps \<Longrightarrow> hdr + off + length P \<le> length b \<Longrightarrow>
     sub (frag_copy hdr ps b) (hdr + off) (length P) = P \<and>
     take (hdr + off) (frag_copy hdr ps b) = take (hdr + off) b \<and>
     length (frag_copy hdr ps b) = length b"
proof (induction off P ps arbitrary: b rule: cut_from.induct)
  case (2 off P q qs)
  let ?n = "f_len q" and ?b = "put b (hdr + f_off q) (f_buf q)"
  have q: "f_off q = off" "f_buf q = take ?n P" "?n \<le> length P" using 2(2) by (auto split: if_splits)
  then have lb: "length (f_buf q) = ?n" by simp
  have len: "length ?b = length b" using 2(3) q lb by simp
  have here: "sub ?b (hdr + off) ?n = f_buf q"
    using sub_put_same [of "hdr + off" "f_buf q" b] lb q 2(3) by simp
  have pre: "take (hdr + off) ?b = take (hdr + off) b"
    using take_put_after [of "hdr + off" "f_buf q" b] lb q 2(3) by simp
  have step: "frag_copy hdr (q # qs) b = frag_copy hdr qs ?b" by (simp add: frag_copy_def)
  show ?case
  proof (cases "qs = []")
    case True
    then have "?n = length P" using 2(2) by simp
    then show ?thesis using step True here pre len q by (simp add: frag_copy_def)
  next
    case False
    then have cut: "cut_from (off + ?n) (List.drop ?n P) qs" using 2(2) by simp
    have "hdr + (off + ?n) + length (List.drop ?n P) \<le> length ?b" using 2(3) q len by simp
    from 2(1) [OF False cut this]
    have IH: "sub (frag_copy hdr qs ?b) (hdr + off + ?n) (length P - ?n) = List.drop ?n P"
      "take (hdr + off + ?n) (frag_copy hdr qs ?b) = take (hdr + off + ?n) ?b"
      "length (frag_copy hdr qs ?b) = length b" using len by (simp_all add: add.assoc)
    have "sub (frag_copy hdr qs ?b) (hdr + off) ?n = sub ?b (hdr + off) ?n"
      unfolding sub_as_drop IH(2) ..
    then have "sub (frag_copy hdr qs ?b) (hdr + off) (length P) = f_buf q @ List.drop ?n P"
      using sub_append_sub [of "frag_copy hdr qs ?b" "hdr + off" ?n "length P - ?n"] IH(1) here q(3)
      by simp
    moreover have "take (hdr + off) (frag_copy hdr qs ?b) = take (hdr + off) ?b"
      using arg_cong [OF IH(2), of "take (hdr + off)"] by simp
    ultimately show ?thesis using step pre IH(3) q(2) by simp
  qed
qed simp

text \<open>
  The copies of defrag and defrag6 put the payload of a cut datagram back behind
  the header, whatever the buffer held, and leave the header alone.
\<close>

theorem frag_copy_restores:
  assumes "is_cut P ps" "hdr + length P \<le> length b"
  shows "sub (frag_copy hdr ps b) hdr (length P) = P \<and> take hdr (frag_copy hdr ps b) = take hdr b"
  using frag_copy_sub [OF assms(1), of hdr b] assms(2) by simp

theorem frag_copy_restores_witness:
  "sub (frag_copy 1 [\<lparr>f_buf = [3], f_len = 1, f_off = 0, f_more = False\<rparr>] [9, 8, 7]) 1 1 = [3]"
  using frag_copy_restores [of "[3]" "[\<lparr>f_buf = [3], f_len = 1, f_off = 0, f_more = False\<rparr>]" 1 "[9, 8, 7]"]
  by simp

section \<open>Fragment entries\<close>

definition fragof :: "aftr \<Rightarrow> fid \<Rightarrow> frag" where
  "fragof s f = the (frags s f)"

definition upd_frag :: "fid \<Rightarrow> (frag \<Rightarrow> frag) \<Rightarrow> aftr \<Rightarrow> aftr" where
  "upd_frag f g s = s\<lparr>frags := (frags s)(f := map_option g (frags s f))\<rparr>"

text \<open>The queue an IPv4 datagram is in: fragsout for packets from the Internet (no tunnel).\<close>

definition frag_queue :: "tid \<Rightarrow> aftr \<Rightarrow> fid list" where
  "frag_queue t s = (if t = 0 then fragsout s else fragsin s)"

definition del_frag4 :: "fid \<Rightarrow> aftr \<Rightarrow> aftr" where
  "del_frag4 f s =
     (let e = fragof s f;
          s = (if f_tunnel e = 0 then s\<lparr>fragsout := remove1 f (fragsout s)\<rparr>
               else s\<lparr>fragsin := remove1 f (fragsin s)\<rparr>);
          s = (if f_hash e < fraghashsz s \<and> fraghash s (f_hash e) = f
               then s\<lparr>fraghash := (fraghash s)(f_hash e := 0)\<rparr> else s);
          s = (if f_tunnel e \<noteq> 0
               then upd_tunnel (f_tunnel e) (\<lambda>t. t\<lparr>t_frg4cnt := isc_decr_u8 (t_frg4cnt t)\<rparr>)
                      (s\<lparr>fragsincnt := isc_decr (fragsincnt s)\<rparr>)
               else s\<lparr>fragsoutcnt := isc_decr (fragsoutcnt s)\<rparr>)
      in s\<lparr>frags := (frags s)(f := None)\<rparr>)"

definition del_frag6 :: "fid \<Rightarrow> aftr \<Rightarrow> aftr" where
  "del_frag6 f s =
     (let e = fragof s f;
          s = s\<lparr>frags6 := remove1 f (frags6 s), frags6cnt := isc_decr (frags6cnt s)\<rparr>;
          s = upd_tunnel (f_tunnel e) (\<lambda>t. t\<lparr>t_frg6cnt := isc_decr_u8 (t_frg6cnt t)\<rparr>) s
      in s\<lparr>frags := (frags s)(f := None)\<rparr>)"

text \<open>
  The part both defragmenters share, from \<open>found:\<close> on: the piece is put into the chain of the
  entry, and the result is the total length once the chain is complete. The header of the
  entry is replaced when the piece at offset 0 comes and is put at the head of the chain; no
  piece has a smaller offset, so the code's p is NULL then.
\<close>

definition frag_add ::
  "bool \<Rightarrow> drop_reason \<Rightarrow> fid \<Rightarrow> piece \<Rightarrow> bytes \<Rightarrow> aftr \<Rightarrow> nat option \<times> aftr" where
  "frag_add mem r f np hdr s =
     (case frag_insert np (f_list (fragof s f)) of
        None \<Rightarrow> (None, s)
      | Some ps \<Rightarrow>
          if \<not> mem then (None, stat_drop r s)
          else
            let s = (if f_off np = 0 \<and> f_off (fragof s f) \<noteq> 0
                     then upd_frag f (\<lambda>e. e\<lparr>f_buf := hdr, f_off := f_off np, f_more := f_more np\<rparr>) s
                     else s);
                s = upd_frag f (\<lambda>e. e\<lparr>f_list := ps\<rparr>) s
            in (if f_off (fragof s f) \<noteq> 0 then None else frag_complete ps, s))"

section \<open>IPv4\<close>

text \<open>The counters checked on entry.\<close>

definition defrag_limit :: "config \<Rightarrow> tid \<Rightarrow> aftr \<Rightarrow> drop_reason option" where
  "defrag_limit cfg t s =
     (if t = 0 then
        (if fragsoutcnt s \<ge> frag_maxcnt cfg ! 2 then Some DR_FOUTCNT else None)
      else if fragsincnt s \<ge> frag_maxcnt cfg ! 1 then Some DR_FINCNT
      else if t_frg4cnt (tunof s t) \<ge> fragtn_maxcnt cfg ! 1 then Some DR_FINTCNT
      else None)"

text \<open>The fragment's offset in bytes and its more flag.\<close>

definition frag_off4 :: "bytes \<Rightarrow> nat" where
  "frag_off4 buf4 = nat (push_bit 3 (be16 (buf4 ! IPOFFH AND IPOFFMSK) (buf4 ! IPOFFL)))"

definition frag_more4 :: "bytes \<Rightarrow> bool" where
  "frag_more4 buf4 \<longleftrightarrow> buf4 ! IPOFFH AND IPMF \<noteq> 0"

definition same_dgram4 :: "tid \<Rightarrow> bytes \<Rightarrow> frag \<Rightarrow> bool" where
  "same_dgram4 t buf4 f \<longleftrightarrow> f_tunnel f = t \<and> f_buf f ! IPPROTO = buf4 ! IPPROTO \<and>
     sub (f_buf f) IPID 2 = sub buf4 IPID 2 \<and> sub (f_buf f) IPSRC 8 = sub buf4 IPSRC 8"

definition frag_slot :: "bytes \<Rightarrow> aftr \<Rightarrow> nat" where
  "frag_slot buf4 s = hash_slot (jhash_frag (fraghashrnd s) buf4) (fraghashsz s)"

text \<open>The lookup: the hash slot first, then the queue. 0 is NULL.\<close>

definition defrag_find :: "tid \<Rightarrow> bytes \<Rightarrow> aftr \<Rightarrow> fid" where
  "defrag_find t buf4 s =
     (let f = fraghash s (frag_slot buf4 s)
      in if f \<noteq> 0 \<and> same_dgram4 t buf4 (fragof s f) then f
         else case find (\<lambda>f. same_dgram4 t buf4 (fragof s f)) (frag_queue t s) of
                None \<Rightarrow> 0 | Some f \<Rightarrow> f)"

text \<open>A new entry at the head of its queue; \<open>new\<close> is the address malloc returns.\<close>

definition defrag_create :: "config \<Rightarrow> fid \<Rightarrow> tid \<Rightarrow> bytes \<Rightarrow> aftr \<Rightarrow> aftr" where
  "defrag_create cfg new t buf4 s =
     (let e = \<lparr>f_buf = sub buf4 0 IPHDRLEN, f_len = IPHDRLEN, f_off = frag_off4 buf4,
               f_more = frag_more4 buf4, f_tunnel = t,
               f_expire = seconds s + int (frag_lifetime cfg), f_hash = 0, f_list = []\<rparr>;
          s = s\<lparr>frags := (frags s)(new \<mapsto> e)\<rparr>
      in if t \<noteq> 0
         then upd_tunnel t (\<lambda>t. t\<lparr>t_frg4cnt := t_frg4cnt t + 1\<rparr>)
                (s\<lparr>fragsin := new # fragsin s, fragsincnt := fragsincnt s + 1\<rparr>)
         else s\<lparr>fragsout := new # fragsout s, fragsoutcnt := fragsoutcnt s + 1\<rparr>)"

text \<open>
  The entry of the datagram, found or created, now remembered in the hash slot. (A hit in
  the slot skips the two stores of the code, which would store what is there.)
\<close>

definition defrag_entry :: "config \<Rightarrow> fid \<Rightarrow> tid \<Rightarrow> bytes \<Rightarrow> aftr \<Rightarrow> fid \<times> aftr" where
  "defrag_entry cfg new t buf4 s =
     (let hash = frag_slot buf4 s; f = defrag_find t buf4 s;
          s = (if f = 0 then defrag_create cfg new t buf4 s else s);
          f = (if f = 0 then new else f)
      in (f, upd_frag f (\<lambda>e. e\<lparr>f_hash := hash\<rparr>) (s\<lparr>fraghash := (fraghash s)(hash := f)\<rparr>)))"

text \<open>The rebuilt packet: the first fragment's header, the pieces, length and checksum.\<close>

definition rebuild4 :: "frag \<Rightarrow> nat \<Rightarrow> bytes \<Rightarrow> bytes" where
  "rebuild4 f len buf4 =
     (let b = put buf4 0 (f_buf f);
          b = b[IPOFFH := b ! IPOFFH AND NOT (IPDF OR IPMF)];
          b = frag_copy IPHDRLEN (f_list f) b;
          b = b[IPLENH := hi8 (int len), IPLENL := lo8 (int len)];
          b = b[IPCKSUMH := 0, IPCKSUML := 0];
          cksum = in_cksum b IPHDRLEN
      in b[IPCKSUMH := hi8 cksum, IPCKSUML := lo8 cksum])"

definition defrag_store ::
  "bool \<Rightarrow> fid \<Rightarrow> bytes \<Rightarrow> nat \<Rightarrow> aftr \<Rightarrow> (bytes \<times> nat) option \<times> aftr" where
  "defrag_store mem f buf4 len s =
     (let np = \<lparr>f_buf = sub buf4 IPHDRLEN len, f_len = len, f_off = frag_off4 buf4,
                f_more = frag_more4 buf4\<rparr>;
          (r, s) = frag_add mem DR_F4MEM f np (sub buf4 0 IPHDRLEN) s
      in case r of
           None \<Rightarrow> (None, s)
         | Some n \<Rightarrow>
             if n + IPHDRLEN > IPMAXLEN then (None, del_frag4 f (stat_drop DR_BADF4 s))
             else (Some (rebuild4 (fragof s f) (n + IPHDRLEN) buf4, n + IPHDRLEN), del_frag4 f s))"

definition defrag ::
  "config \<Rightarrow> (nat \<Rightarrow> bool) \<Rightarrow> fid \<Rightarrow> tid \<Rightarrow> bytes \<Rightarrow> nat \<Rightarrow> aftr \<Rightarrow> (bytes \<times> nat) option \<times> aftr" where
  "defrag cfg mem new t buf4 len s =
     (case defrag_limit cfg t s of
        Some r \<Rightarrow> (None, stat_drop r s)
      | None \<Rightarrow>
          let len = len - IPHDRLEN
          in if frag_more4 buf4 \<and> len AND 7 \<noteq> 0 then (None, stat_drop DR_BADF4 s)
             else
               if defrag_find t buf4 s = 0 \<and> \<not> (mem 0 \<and> mem 1) then (None, stat_drop DR_F4MEM s)
               else let (f, s) = defrag_entry cfg new t buf4 s
                    in defrag_store (mem 2 \<and> mem 3) f buf4 len s)"

section \<open>IPv6\<close>

definition defrag6_limit :: "config \<Rightarrow> tid \<Rightarrow> aftr \<Rightarrow> drop_reason option" where
  "defrag6_limit cfg t s =
     (if frags6cnt s \<ge> frag_maxcnt cfg ! 0 then Some DR_F6CNT
      else if t_frg6cnt (tunof s t) \<ge> fragtn_maxcnt cfg ! 0 then Some DR_F6TCNT
      else None)"

definition frag_off6 :: "bytes \<Rightarrow> nat" where
  "frag_off6 buf6 = nat (be16 (buf6 ! IP6FOFFH) (buf6 ! IP6FOFFL AND IP6FMSK))"

definition frag_more6 :: "bytes \<Rightarrow> bool" where
  "frag_more6 buf6 \<longleftrightarrow> buf6 ! IP6FOFFL AND IP6FMF \<noteq> 0"

definition same_dgram6 :: "tid \<Rightarrow> bytes \<Rightarrow> frag \<Rightarrow> bool" where
  "same_dgram6 t buf6 f \<longleftrightarrow> f_tunnel f = t \<and> f_buf f ! IP6FPROTO = buf6 ! IP6FPROTO \<and>
     sub (f_buf f) IP6FID 4 = sub buf6 IP6FID 4"

definition defrag6_create :: "config \<Rightarrow> fid \<Rightarrow> tid \<Rightarrow> bytes \<Rightarrow> aftr \<Rightarrow> aftr" where
  "defrag6_create cfg new t buf6 s =
     (let e = \<lparr>f_buf = sub buf6 0 IP6FLEN, f_len = IP6FLEN, f_off = frag_off6 buf6,
               f_more = frag_more6 buf6, f_tunnel = t,
               f_expire = seconds s + int (frag_lifetime cfg), f_hash = 0, f_list = []\<rparr>
      in upd_tunnel t (\<lambda>t. t\<lparr>t_frg6cnt := t_frg6cnt t + 1\<rparr>)
           (s\<lparr>frags := (frags s)(new \<mapsto> e), frags6 := new # frags6 s,
              frags6cnt := frags6cnt s + 1\<rparr>))"

definition rebuild6 :: "frag \<Rightarrow> nat \<Rightarrow> bytes \<Rightarrow> bytes" where
  "rebuild6 f len buf6 =
     (let b = put buf6 0 (take IP6HDRLEN (f_buf f));
          b = frag_copy IP6HDRLEN (f_list f) b;
          b = b[IP6LENH := hi8 (int len), IP6LENL := lo8 (int len)]
      in b[IP6PROTO := f_buf f ! IP6FPROTO])"

definition defrag6_store ::
  "bool \<Rightarrow> fid \<Rightarrow> bytes \<Rightarrow> nat \<Rightarrow> aftr \<Rightarrow> (bytes \<times> nat) option \<times> aftr" where
  "defrag6_store mem f buf6 len s =
     (let np = \<lparr>f_buf = sub buf6 IP6FLEN len, f_len = len, f_off = frag_off6 buf6,
                f_more = frag_more6 buf6\<rparr>;
          (r, s) = frag_add mem DR_F6CNT f np (sub buf6 0 IP6FLEN) s
      in case r of
           None \<Rightarrow> (None, s)
         | Some n \<Rightarrow>
             if n > IPMAXLEN then (None, stat_drop DR_BADF6 (del_frag6 f s))
             else (Some (rebuild6 (fragof s f) n buf6, n + IP6HDRLEN), del_frag6 f s))"

definition defrag6 ::
  "config \<Rightarrow> (nat \<Rightarrow> bool) \<Rightarrow> fid \<Rightarrow> tid \<Rightarrow> bytes \<Rightarrow> nat \<Rightarrow> aftr \<Rightarrow> (bytes \<times> nat) option \<times> aftr" where
  "defrag6 cfg mem new t buf6 len s =
     (case defrag6_limit cfg t s of
        Some r \<Rightarrow> (None, stat_drop r s)
      | None \<Rightarrow>
          let len = len - IP6FLEN
          in if frag_more6 buf6 \<and> len AND 7 \<noteq> 0 then (None, stat_drop DR_BADF6 s)
             else
               let f = (case find (\<lambda>f. same_dgram6 t buf6 (fragof s f)) (frags6 s) of
                          None \<Rightarrow> 0 | Some f \<Rightarrow> f)
               in if f = 0 \<and> \<not> (mem 0 \<and> mem 1) then (None, stat_drop DR_F6CNT s)
                  else
                    let s = (if f = 0 then defrag6_create cfg new t buf6 s else s);
                        f = (if f = 0 then new else f)
                    in defrag6_store (mem 2 \<and> mem 3) f buf6 len s)"

section \<open>The IPv4 fragment tables stay consistent\<close>

definition entry4_ok :: "aftr \<Rightarrow> fid \<Rightarrow> bool" where
  "entry4_ok s f \<longleftrightarrow> (\<exists>e. frags s f = Some e \<and> length (f_buf e) = IPHDRLEN \<and> chain_ok (f_list e))"

text \<open>
  The two queues hold live entries, each once and in the queue of its direction; the counters
  are the queue lengths; a hash slot is empty or points to a queued entry that belongs there
  and knows the slot. (After a change of the table size the queued entries are in no slot.)
\<close>

definition frag_inv :: "aftr \<Rightarrow> bool" where
  "frag_inv s \<longleftrightarrow> 0 < fraghashsz s \<and> distinct (fragsin s @ fragsout s) \<and>
     0 \<notin> set (fragsin s @ fragsout s) \<and>
     fragsincnt s = length (fragsin s) \<and> fragsoutcnt s = length (fragsout s) \<and>
     (\<forall>f \<in> set (fragsin s @ fragsout s). entry4_ok s f) \<and>
     (\<forall>f \<in> set (fragsin s). f_tunnel (fragof s f) \<noteq> 0) \<and>
     (\<forall>f \<in> set (fragsout s). f_tunnel (fragof s f) = 0) \<and>
     (\<forall>h. fraghash s h \<noteq> 0 \<longrightarrow> fraghash s h \<in> set (fragsin s @ fragsout s) \<and>
        f_hash (fragof s (fraghash s h)) = h \<and> frag_slot (f_buf (fragof s (fraghash s h))) s = h)"

lemma sub_prefix: "n \<le> m \<Longrightarrow> sub b o1 n = take n (sub b o1 m)"
  by (simp add: sub_def min_def)

lemma sub_suffix: "sub b (o1 + k) n = List.drop k (sub b o1 (k + n))"
  by (simp add: sub_def drop_take add.commute)

lemma frag_slot_same:
  assumes "sub a IPID 2 = sub b IPID 2" "sub a IPSRC 8 = sub b IPSRC 8"
  shows "frag_slot a s = frag_slot b s"
proof -
  have "sub a IPSRC 4 = sub b IPSRC 4" using assms(2) sub_prefix [of 4 8 a] sub_prefix [of 4 8 b] by simp
  moreover have "sub a IPDST 4 = sub b IPDST 4"
    using assms(2) sub_suffix [of a IPSRC 4 4] sub_suffix [of b IPSRC 4 4] by simp
  ultimately show ?thesis using assms(1) by (simp add: frag_slot_def jhash_frag_def)
qed

lemma frag_slot_sub: "length b \<ge> 20 \<Longrightarrow> frag_slot (sub b 0 20) s = frag_slot b s"
  by (rule frag_slot_same) (simp_all add: sub_def drop_take min_def)

lemma frag_slot_upd [simp]:
  "frag_slot b (upd_frag f g s) = frag_slot b s" "frag_slot b (upd_tunnel t g2 s) = frag_slot b s"
  "frag_slot b (s\<lparr>fraghash := x\<rparr>) = frag_slot b s" "frag_slot b (s\<lparr>frags := y\<rparr>) = frag_slot b s"
  "frag_slot b (s\<lparr>fragsin := l\<rparr>) = frag_slot b s" "frag_slot b (s\<lparr>fragsout := l\<rparr>) = frag_slot b s"
  "frag_slot b (s\<lparr>fragsincnt := n\<rparr>) = frag_slot b s" "frag_slot b (s\<lparr>fragsoutcnt := n\<rparr>) = frag_slot b s"
  "frag_slot b (stat_drop r s) = frag_slot b s"
  by (simp_all add: frag_slot_def upd_frag_def upd_tunnel_def stat_drop_def emit_def)

lemma queue_stat_drop [simp]: "fragsin (stat_drop r s) = fragsin s" "fragsout (stat_drop r s) = fragsout s"
  by (simp_all add: stat_drop_def emit_def)

lemma frag_inv_stat_drop [simp]: "frag_inv (stat_drop r s) = frag_inv s"
  by (simp add: frag_inv_def entry4_ok_def fragof_def frag_slot_def stat_drop_def emit_def)

lemma defrag_find_ok:
  assumes "frag_inv s" "defrag_find t buf4 s \<noteq> 0"
  shows "defrag_find t buf4 s \<in> set (fragsin s @ fragsout s)
    \<and> same_dgram4 t buf4 (fragof s (defrag_find t buf4 s))"
proof (cases "fraghash s (frag_slot buf4 s) \<noteq> 0 \<and> same_dgram4 t buf4 (fragof s (fraghash s (frag_slot buf4 s)))")
  case True
  then show ?thesis using assms(1) by (simp add: defrag_find_def Let_def frag_inv_def)
next
  case False
  then obtain f where f: "find (\<lambda>f. same_dgram4 t buf4 (fragof s f)) (frag_queue t s) = Some f"
    "defrag_find t buf4 s = f"
    using assms(2) by (auto simp: defrag_find_def Let_def split: option.splits)
  then have "f \<in> set (frag_queue t s)" "same_dgram4 t buf4 (fragof s f)"
    by (auto simp: find_Some_iff)
  then show ?thesis using f(2) by (auto simp: frag_queue_def split: if_splits)
qed

lemma defrag_entry_inv:
  assumes inv: "frag_inv s" and new: "new \<noteq> 0" "frags s new = None" and len: "IPHDRLEN \<le> length buf4"
    and d: "defrag_entry cfg new t buf4 s = (f, s')"
  shows "frag_inv s' \<and> f \<in> set (fragsin s' @ fragsout s') \<and> f_hash (fragof s' f) = frag_slot buf4 s'"
proof (cases "defrag_find t buf4 s = 0")
  case True
  have fresh: "new \<notin> set (fragsin s @ fragsout s)"
    using inv new(2) unfolding frag_inv_def entry4_ok_def by (metis option.distinct(1))
  have slot: "frag_slot (sub buf4 0 20) s = frag_slot buf4 s" using len by (simp add: frag_slot_sub)
  have lsub: "length (sub buf4 0 20) = 20" using len by simp
  let ?h = "frag_slot buf4 s"
  have s': "f = new" "fraghash s' = (fraghash s)(?h := new)" "fraghashsz s' = fraghashsz s"
    "fragsin s' = (if t = 0 then fragsin s else new # fragsin s)"
    "fragsout s' = (if t = 0 then new # fragsout s else fragsout s)"
    "fragsincnt s' = (if t = 0 then fragsincnt s else fragsincnt s + 1)"
    "fragsoutcnt s' = (if t = 0 then fragsoutcnt s + 1 else fragsoutcnt s)"
    "\<And>b. frag_slot b s' = frag_slot b s"
    "\<And>g. g \<noteq> new \<Longrightarrow> frags s' g = frags s g"
    "\<exists>e. frags s' new = Some e \<and> f_hash e = ?h \<and> f_buf e = sub buf4 0 20 \<and> f_list e = [] \<and> f_tunnel e = t"
    using d True by (auto simp: defrag_entry_def defrag_create_def Let_def upd_frag_def upd_tunnel_def
        frag_slot_def)
  then obtain e where e: "frags s' new = Some e" "f_hash e = ?h" "f_buf e = sub buf4 0 20"
    "f_list e = []" "f_tunnel e = t" by blast
  have new_ok: "entry4_ok s' new"
    using e lsub slot s'(8) by (simp add: entry4_ok_def chain_ok_def)
  have old: "g \<noteq> new \<Longrightarrow> entry4_ok s' g = entry4_ok s g" "g \<noteq> new \<Longrightarrow> fragof s' g = fragof s g" for g
    using s'(8,9) by (simp_all add: entry4_ok_def fragof_def)
  have fo: "fragof s' new = e" using e(1) by (simp add: fragof_def)
  have "frag_inv s'"
    unfolding frag_inv_def
  proof (intro conjI allI impI ballI)
    fix g assume "g \<in> set (fragsin s' @ fragsout s')"
    then show "entry4_ok s' g"
      using new_ok old(1) [of g] inv s'(4,5) by (cases "g = new") (auto simp: frag_inv_def split: if_splits)
  next
    fix g assume "g \<in> set (fragsin s')"
    then show "f_tunnel (fragof s' g) \<noteq> 0"
      using old(2) [of g] inv s'(4) fo e(5) fresh
      by (cases "g = new") (auto simp: frag_inv_def split: if_splits)
  next
    fix g assume "g \<in> set (fragsout s')"
    then show "f_tunnel (fragof s' g) = 0"
      using old(2) [of g] inv s'(5) fo e(5) fresh
      by (cases "g = new") (auto simp: frag_inv_def split: if_splits)
  next
    fix h assume h: "fraghash s' h \<noteq> 0"
    have old_h: "fraghash s h \<in> set (fragsin s @ fragsout s) \<and> f_hash (fragof s (fraghash s h)) = h \<and>
        frag_slot (f_buf (fragof s (fraghash s h))) s = h"
      if "h \<noteq> ?h" using h that inv s'(2) by (simp add: frag_inv_def)
    then have ne: "fraghash s h \<noteq> new" if "h \<noteq> ?h" using fresh that by auto
    show "fraghash s' h \<in> set (fragsin s' @ fragsout s')"
      using old_h s'(2,4,5) by (cases "h = ?h") auto
    show "f_hash (fragof s' (fraghash s' h)) = h" "frag_slot (f_buf (fragof s' (fraghash s' h))) s' = h"
      using old_h ne s'(2,8) fo e(2,3) slot old(2) [of "fraghash s h"] by (cases "h = ?h"; auto)+
  qed (use inv fresh new(1) s' in \<open>auto simp: frag_inv_def\<close>)
  then show ?thesis using s'(1,4,5,8) fo e(2) by (auto simp: frag_inv_def)
next
  case False
  let ?f = "defrag_find t buf4 s"
  have f: "?f \<in> set (fragsin s @ fragsout s)" "same_dgram4 t buf4 (fragof s ?f)"
    using defrag_find_ok [OF inv False] by auto
  let ?h = "frag_slot buf4 s"
  obtain e where e: "frags s ?f = Some e" "length (f_buf e) = IPHDRLEN" "chain_ok (f_list e)"
    using inv f(1) unfolding frag_inv_def entry4_ok_def by blast
  have slot: "frag_slot (f_buf e) s = ?h"
    using f(2) e(1) frag_slot_same [of "f_buf e" buf4] by (simp add: same_dgram4_def fragof_def)
  have s': "s' = upd_frag ?f (\<lambda>e. e\<lparr>f_hash := ?h\<rparr>) (s\<lparr>fraghash := (fraghash s)(?h := ?f)\<rparr>)" "f = ?f"
    using d False by (auto simp: defrag_entry_def Let_def)
  have fr: "fragof s' g = (if g = ?f then e\<lparr>f_hash := ?h\<rparr> else fragof s g)" for g
    using e(1) by (simp add: s' upd_frag_def fragof_def)
  have sl: "frag_slot b s' = frag_slot b s" for b by (simp add: s')
  have ok: "entry4_ok s' g" if "entry4_ok s g" for g
    using that by (auto simp: entry4_ok_def s' upd_frag_def)
  have same: "fragsin s' = fragsin s" "fragsout s' = fragsout s" "fragsincnt s' = fragsincnt s" "fragsoutcnt s' = fragsoutcnt s"
    "fraghashsz s' = fraghashsz s" "fraghash s' = (fraghash s)(?h := ?f)"
    by (simp_all add: s' upd_frag_def)
  have ef: "fragof s ?f = e" using e(1) by (simp add: fragof_def)
  have slots: "fraghash s' h \<in> set (fragsin s @ fragsout s) \<and> f_hash (fragof s' (fraghash s' h)) = h \<and>
      frag_slot (f_buf (fragof s' (fraghash s' h))) s' = h" if h: "fraghash s' h \<noteq> 0" for h
  proof (cases "h = ?h")
    case True
    then show ?thesis using f(1) slot by (simp add: same fr sl)
  next
    case other: False
    then have "fraghash s h \<noteq> 0" using h by (simp add: same)
    then have o: "fraghash s h \<in> set (fragsin s @ fragsout s)" "f_hash (fragof s (fraghash s h)) = h"
      "frag_slot (f_buf (fragof s (fraghash s h))) s = h" using inv by (simp_all add: frag_inv_def)
    then have "fraghash s h \<noteq> ?f" using other slot ef by auto
    then show ?thesis using o other by (simp add: same fr sl)
  qed
  have tun: "f_tunnel (fragof s' g) = f_tunnel (fragof s g)" for g by (simp add: fr ef)
  have "frag_inv s'"
    using inv ok slots unfolding frag_inv_def same(1-5) tun by blast
  then show ?thesis using f(1) s'(2) by (simp add: same fr sl)
qed

text \<open>
  Writes to one queued entry that keep its slot, its tunnel and a sorted chain keep the tables.
\<close>

lemma frag_inv_upd:
  assumes inv: "frag_inv s" and f: "f \<in> set (fragsin s @ fragsout s)"
    and g: "\<And>e. frags s f = Some e \<Longrightarrow> f_hash (g e) = f_hash e \<and> f_tunnel (g e) = f_tunnel e \<and>
      (f_buf (g e) = f_buf e \<or> frag_slot (f_buf (g e)) s = f_hash e) \<and> length (f_buf (g e)) = IPHDRLEN \<and> chain_ok (f_list (g e))"
  shows "frag_inv (upd_frag f g s)"
proof -
  obtain e where e: "frags s f = Some e" using inv f unfolding frag_inv_def entry4_ok_def by blast
  let ?s = "upd_frag f g s"
  have same: "fraghashsz ?s = fraghashsz s" "fragsin ?s = fragsin s" "fragsout ?s = fragsout s"
    "fragsincnt ?s = fragsincnt s" "fragsoutcnt ?s = fragsoutcnt s" "fraghash ?s = fraghash s"
    by (simp_all add: upd_frag_def)
  have ok: "entry4_ok ?s h" if "entry4_ok s h" for h
    using that e g [OF e] by (auto simp: entry4_ok_def upd_frag_def frag_slot_def)
  have fr: "f_tunnel (fragof ?s h) = f_tunnel (fragof s h)" "f_hash (fragof ?s h) = f_hash (fragof s h)" for h
    using e g [OF e] by (simp_all add: fragof_def upd_frag_def)
  have sl: "frag_slot (f_buf (fragof ?s h)) ?s = k" if "f_hash (fragof s h) = k" "frag_slot (f_buf (fragof s h)) s = k" for h k
    using that e g [OF e] by (cases "h = f") (auto simp: fragof_def upd_frag_def frag_slot_def)
  have "fraghash s h \<in> set (fragsin s @ fragsout s) \<and> f_hash (fragof s (fraghash s h)) = h \<and>
      frag_slot (f_buf (fragof ?s (fraghash s h))) ?s = h" if "fraghash s h \<noteq> 0" for h
    using inv that sl [of "fraghash s h" h] unfolding frag_inv_def by blast
  then show ?thesis using inv ok unfolding frag_inv_def same fr by blast
qed

lemma del_frag4_inv:
  assumes inv: "frag_inv s" and f: "f \<in> set (fragsin s @ fragsout s)"
  shows "frag_inv (del_frag4 f s) \<and> frags (del_frag4 f s) f = None"
proof -
  let ?s = "del_frag4 f s" and ?e = "fragof s f"
  have ok: "entry4_ok s g" if "g \<in> set (fragsin s @ fragsout s)" for g
    using inv that by (simp add: frag_inv_def)
  have fz: "f \<noteq> 0" using inv f by (auto simp: frag_inv_def)
  have hl: "fraghash s (f_hash ?e) = f \<Longrightarrow> f_hash ?e < fraghashsz s"
  proof -
    assume "fraghash s (f_hash ?e) = f"
    then have "frag_slot (f_buf ?e) s = f_hash ?e" using inv fz unfolding frag_inv_def by metis
    then show ?thesis using inv hash_slot_less [of "fraghashsz s"] unfolding frag_slot_def frag_inv_def by metis
  qed
  have inq: "(f_tunnel ?e = 0) = (f \<in> set (fragsout s))" "(f_tunnel ?e \<noteq> 0) = (f \<in> set (fragsin s))"
    using inv f by (auto simp: frag_inv_def)
  have s': "fraghashsz ?s = fraghashsz s"
    "fragsin ?s = remove1 f (fragsin s)" "fragsout ?s = remove1 f (fragsout s)"
    "fragsincnt ?s = length (remove1 f (fragsin s))" "fragsoutcnt ?s = length (remove1 f (fragsout s))"
    "fraghash ?s = (if fraghash s (f_hash ?e) = f then (fraghash s)(f_hash ?e := 0) else fraghash s)"
    "frags ?s = (frags s)(f := None)" "\<And>b. frag_slot b ?s = frag_slot b s"
    using inv inq hl
    by (auto simp: del_frag4_def Let_def upd_tunnel_def frag_inv_def isc_decr_def length_remove1
        remove1_idem frag_slot_def)
  have dist: "distinct (fragsin s)" "distinct (fragsout s)" using inv by (auto simp: frag_inv_def)
  have old: "g \<noteq> f \<Longrightarrow> entry4_ok ?s g = entry4_ok s g" "g \<noteq> f \<Longrightarrow> fragof ?s g = fragof s g" for g
    using s'(7,8) by (simp_all add: entry4_ok_def fragof_def)
  have gone: "f \<notin> set (fragsin ?s @ fragsout ?s)"
    and rest: "set (fragsin ?s) = set (fragsin s) - {f}" "set (fragsout ?s) = set (fragsout s) - {f}"
    using dist s'(2,3) by (auto simp: set_remove1_eq)
  have "frag_inv ?s"
    unfolding frag_inv_def
  proof (intro conjI allI impI ballI)
    fix h assume h: "fraghash ?s h \<noteq> 0"
    then have hs: "fraghash ?s h = fraghash s h" "fraghash s h \<noteq> 0"
      using s'(6) by (auto split: if_splits)
    then have q: "fraghash s h \<in> set (fragsin s @ fragsout s)" "f_hash (fragof s (fraghash s h)) = h"
      "frag_slot (f_buf (fragof s (fraghash s h))) s = h"
      using inv by (auto simp: frag_inv_def)
    then have "fraghash s h \<noteq> f" using h hs s'(6) by (auto split: if_splits)
    then show "fraghash ?s h \<in> set (fragsin ?s @ fragsout ?s)" "f_hash (fragof ?s (fraghash ?s h)) = h"
      "frag_slot (f_buf (fragof ?s (fraghash ?s h))) ?s = h"
      using q rest hs old(2) s'(8) by auto
  qed (use inv old rest s' dist gone in \<open>auto simp: frag_inv_def\<close>)
  then show ?thesis using s'(7) by simp
qed

lemma frag_add_inv:
  assumes inv: "frag_inv s" and f: "f \<in> set (fragsin s @ fragsout s)"
    and slot: "frag_slot hdr s = f_hash (fragof s f)" "length hdr = IPHDRLEN"
    and len: "length (f_buf np) = f_len np" and d: "frag_add mem r f np hdr s = (res, s')"
  shows "frag_inv s' \<and> f \<in> set (fragsin s' @ fragsout s')"
proof (cases "frag_insert np (f_list (fragof s f))")
  case None
  then show ?thesis using inv f d by (simp add: frag_add_def)
next
  case (Some ps)
  obtain e where e: "frags s f = Some e" "chain_ok (f_list e)" "length (f_buf e) = IPHDRLEN"
    using inv f unfolding frag_inv_def entry4_ok_def by blast
  have ps: "chain_ok ps" using frag_insert_chain_ok [OF _ Some len] e by (simp add: fragof_def)
  define s1 where "s1 = (if f_off np = 0 \<and> f_off (fragof s f) \<noteq> 0
     then upd_frag f (\<lambda>e. e\<lparr>f_buf := hdr, f_off := f_off np, f_more := f_more np\<rparr>) s else s)"
  have i1: "frag_inv s1"
    unfolding s1_def using inv slot e
    by (auto simp: fragof_def intro!: frag_inv_upd [OF inv f])
  have q: "fragsin s1 = fragsin s" "fragsout s1 = fragsout s" by (simp_all add: s1_def upd_frag_def)
  have f1: "f \<in> set (fragsin s1 @ fragsout s1)" using f q by simp
  have i2: "frag_inv (upd_frag f (\<lambda>e. e\<lparr>f_list := ps\<rparr>) s1)"
  proof (rule frag_inv_upd [OF i1 f1])
    fix e1 assume "frags s1 f = Some e1"
    then show "f_hash (e1\<lparr>f_list := ps\<rparr>) = f_hash e1 \<and> f_tunnel (e1\<lparr>f_list := ps\<rparr>) = f_tunnel e1 \<and>
      (f_buf (e1\<lparr>f_list := ps\<rparr>) = f_buf e1 \<or> frag_slot (f_buf (e1\<lparr>f_list := ps\<rparr>)) s1 = f_hash e1) \<and>
      length (f_buf (e1\<lparr>f_list := ps\<rparr>)) = IPHDRLEN \<and> chain_ok (f_list (e1\<lparr>f_list := ps\<rparr>))"
      using i1 f1 ps unfolding frag_inv_def entry4_ok_def by fastforce
  qed
  have "s' = (if mem then upd_frag f (\<lambda>e. e\<lparr>f_list := ps\<rparr>) s1 else stat_drop r s)"
    using d unfolding frag_add_def Some option.case Let_def s1_def [symmetric] by (auto split: if_splits)
  then show ?thesis using i2 inv f f1 by (auto simp: upd_frag_def)
qed

lemma defrag_store_inv:
  assumes inv: "frag_inv s" and f: "f \<in> set (fragsin s @ fragsout s)"
    and slot: "f_hash (fragof s f) = frag_slot buf4 s" and len: "IPHDRLEN + len \<le> length buf4"
  shows "frag_inv (snd (defrag_store mem f buf4 len s))"
proof -
  obtain r s' where d: "frag_add mem DR_F4MEM f \<lparr>f_buf = sub buf4 IPHDRLEN len, f_len = len,
      f_off = frag_off4 buf4, f_more = frag_more4 buf4\<rparr> (sub buf4 0 IPHDRLEN) s = (r, s')"
    by fastforce
  have "frag_slot (sub buf4 0 IPHDRLEN) s = f_hash (fragof s f)" using len slot by (simp add: frag_slot_sub)
  from frag_add_inv [OF inv f this _ _ d] len
  have i: "frag_inv s'" "f \<in> set (fragsin s' @ fragsout s')" by simp_all
  have "frag_inv (del_frag4 f s')" "frag_inv (del_frag4 f (stat_drop r' s'))" for r'
    by (rule del_frag4_inv [THEN conjunct1]; use i in simp)+
  then show ?thesis using d i by (auto simp: defrag_store_def split: option.splits)
qed

lemma defrag_inv:
  assumes "frag_inv s" "new \<noteq> 0" "frags s new = None" "IPHDRLEN \<le> len" "len \<le> length buf4"
  shows "frag_inv (snd (defrag cfg mem new t buf4 len s))"
proof (cases "defrag_limit cfg t s")
  case None
  obtain f s' where d: "defrag_entry cfg new t buf4 s = (f, s')" by (cases "defrag_entry cfg new t buf4 s")
  have "IPHDRLEN \<le> length buf4" using assms(4,5) by simp
  from defrag_entry_inv [OF assms(1-3) this d]
  have "frag_inv s'" "f \<in> set (fragsin s' @ fragsout s')" "f_hash (fragof s' f) = frag_slot buf4 s'"
    by auto
  from defrag_store_inv [OF this, of "len - IPHDRLEN"] assms(4,5)
  show ?thesis using None d assms(1) by (simp add: defrag_def Let_def)
qed (use assms(1) in \<open>simp add: defrag_def\<close>)

text \<open>
  Claim C17: every call of defrag, on any packet, leaves the fragment tables consistent: the
  counters are the queue lengths, every chain is sorted without overlap, and no hash slot
  points to a freed fragment, also after the datagram was completed or dropped.
\<close>

theorem defrag_keeps_tables:
  assumes "frag_inv s" "new \<noteq> 0" "frags s new = None" "IPHDRLEN \<le> len" "len \<le> length buf4"
  shows "frag_inv (snd (defrag cfg mem new t buf4 len s))"
  using assms by (rule defrag_inv)

theorem defrag_keeps_tables_witness:
  "frag_inv (snd (defrag default_config (\<lambda>k. True) 5 0 (replicate 30 0) 28 aftr0))"
  by (rule defrag_keeps_tables) (simp_all add: frag_inv_def aftr0_def)

section \<open>Reassembly delivers the datagram\<close>

lemma frag_insert_member:
  assumes "sorted_wrt before fs" "g \<in> set fs"
  shows "frag_insert g (filter (\<lambda>f. f \<in> S) fs) =
    (if g \<in> S then None else Some (filter (\<lambda>f. f \<in> insert g S) fs))"
proof (cases "g \<in> S")
  case True
  show ?thesis
  proof (cases "frag_insert g (filter (\<lambda>f. f \<in> S) fs)")
    case (Some ps)
    obtain pre post where sc: "frag_scan (f_off g) [] (filter (\<lambda>f. f \<in> S) fs) = Some (pre, post)"
      and "ps = pre @ g # post"
      using Some by (auto simp: frag_insert_def split: option.splits if_splits)
    moreover from frag_scan_split [OF sc] have "filter (\<lambda>f. f \<in> S) fs = pre @ post" by auto
    moreover have "ps = filter (\<lambda>f. f \<in> S) fs"
      using frag_step_member [OF assms, of S] Some True by (simp add: frag_step_def insert_absorb)
    ultimately have "length (pre @ g # post) = length (pre @ post)" by simp
    then show ?thesis by simp
  qed (use True in simp)
next
  case False
  have ne: "filter (\<lambda>f. f \<in> insert g S) fs \<noteq> filter (\<lambda>f. f \<in> S) fs"
  proof
    assume "filter (\<lambda>f. f \<in> insert g S) fs = filter (\<lambda>f. f \<in> S) fs"
    then have "set (filter (\<lambda>f. f \<in> insert g S) fs) = set (filter (\<lambda>f. f \<in> S) fs)" by (rule arg_cong)
    then show False using False assms(2) by auto
  qed
  then show ?thesis
    using frag_step_member [OF assms, of S] False by (auto simp: frag_step_def split: option.splits)
qed

lemma frag_complete_filter:
  assumes "is_cut P fs"
  shows "frag_complete (filter (\<lambda>f. f \<in> S) fs) = (if set fs \<subseteq> S then Some (length P) else None)"
proof (cases "set fs \<subseteq> S")
  case True
  then have "filter (\<lambda>f. f \<in> S) fs = fs" by (auto simp: filter_id_conv)
  then show ?thesis
    using cut_total [OF assms] cut_nonempty [OF assms] True by (simp add: frag_complete_def)
next
  case False
  let ?F = "filter (\<lambda>f. f \<in> S) fs"
  have "frag_total 0 ?F = None \<or> ?F = [] \<or> f_more (last ?F)"
    using cut_partial [OF assms, of S] False by blast
  then show ?thesis using False by (auto simp: frag_complete_def split: option.splits)
qed

text \<open>The pieces that lie after the first one are not at offset 0.\<close>

lemma cut_hd: "is_cut P fs \<Longrightarrow> g \<in> set fs \<Longrightarrow> f_off g = 0 \<longleftrightarrow> g = hd fs"
proof -
  assume c: "is_cut P fs" and g: "g \<in> set fs"
  obtain q qs where fs: "fs = q # qs" using cut_nonempty [OF c] by (cases fs) auto
  have "f_off q = 0" using c fs by simp
  moreover have "0 < f_off r" if "r \<in> set qs" for r
    using cut_sorted [OF c] that fs by (auto simp: before_def)
  ultimately show ?thesis using g fs by fastforce
qed

subsection \<open>The rebuilt IPv4 packet\<close>

lemma rebuild4_ok:
  assumes cut: "is_cut P (f_list e)" and hdr: "length (f_buf e) = IPHDRLEN"
    and len: "IPHDRLEN + length P \<le> IPMAXLEN" "IPMAXLEN \<le> length buf4"
  shows "let b = rebuild4 e (length P + IPHDRLEN) buf4
    in length b = length buf4 \<and> sub b IPHDRLEN (length P) = P \<and> in_cksum b IPHDRLEN = 0 \<and>
       be16 (b ! IPLENH) (b ! IPLENL) = int (length P + IPHDRLEN) \<and>
       b ! IPOFFH = f_buf e ! IPOFFH AND NOT (IPDF OR IPMF) \<and>
       (\<forall>i < IPHDRLEN. i \<notin> {IPLENH, IPLENL, IPOFFH, IPCKSUMH, IPCKSUML} \<longrightarrow> b ! i = f_buf e ! i)"
proof -
  let ?n = "length P" and ?b0 = "put buf4 0 (f_buf e)"
  define b1 where "b1 = ?b0[IPOFFH := ?b0 ! IPOFFH AND NOT (IPDF OR IPMF)]"
  define b2 where "b2 = frag_copy IPHDRLEN (f_list e) b1"
  define b3 where "b3 = b2[IPLENH := hi8 (int (?n + IPHDRLEN)), IPLENL := lo8 (int (?n + IPHDRLEN))]"
  define b4 where "b4 = b3[IPCKSUMH := 0, IPCKSUML := 0]"
  define ck where "ck = in_cksum b4 IPHDRLEN"
  define b5 where "b5 = b4[IPCKSUMH := hi8 ck, IPCKSUML := lo8 ck]"
  have b: "rebuild4 e (?n + IPHDRLEN) buf4 = b5"
    by (simp add: rebuild4_def Let_def b1_def b2_def b3_def b4_def ck_def b5_def)
  have l0: "length ?b0 = length buf4" using hdr len by simp
  then have l1: "length b1 = length buf4" by (simp add: b1_def)
  have c: "sub b2 IPHDRLEN ?n = P" "take IPHDRLEN b2 = take IPHDRLEN b1" "length b2 = length b1"
    using frag_copy_sub [OF cut, of IPHDRLEN b1] len l1 by (simp_all add: b2_def)
  have l: "length b2 = length buf4" "length b3 = length buf4" "length b4 = length buf4" "length b5 = length buf4"
    using c(3) l1 by (simp_all add: b3_def b4_def b5_def)
  have i2: "i < 20 \<Longrightarrow> b2 ! i = b1 ! i" for i using c(2) by (metis nth_take)
  have i0: "i < 20 \<Longrightarrow> ?b0 ! i = f_buf e ! i" for i using hdr len by (simp add: nth_put)
  have i1: "i < 20 \<Longrightarrow> b1 ! i = (if i = IPOFFH then f_buf e ! IPOFFH AND NOT (IPDF OR IPMF) else f_buf e ! i)" for i
    using i0 l0 len by (simp add: b1_def nth_list_update)
  have pay: "sub b5 IPHDRLEN ?n = P"
  proof -
    have "sub b5 IPHDRLEN ?n = sub b2 IPHDRLEN ?n"
      by (simp add: sub_def b5_def b4_def b3_def drop_update_cancel)
    then show ?thesis using c(1) by simp
  qed
  have upd2: "xs[10 := x, 11 := y] = put xs 10 [x, y]" if "12 \<le> length xs" for xs :: bytes and x y
    using that by (intro nth_equalityI) (auto simp: nth_list_update nth_put less_Suc_eq)
  have "in_cksum b5 20 = 0"
  proof -
    have p4: "b4 = put b3 10 [0, 0]" using l len by (simp add: b4_def upd2)
    have "b5 = put b4 10 [hi8 ck, lo8 ck]" using l len by (simp add: b5_def upd2)
    then show ?thesis
      using cksum_fill [of 20 b3 10] l len unfolding Let_def p4 [symmetric] ck_def [symmetric] by simp
  qed
  moreover have "be16 (b5 ! IPLENH) (b5 ! IPLENL) = int (?n + IPHDRLEN)"
    using l len by (simp add: b5_def b4_def b3_def nth_list_update)
  moreover have "b5 ! i = b1 ! i" if "i < 20" "i \<notin> {IPLENH, IPLENL, IPCKSUMH, IPCKSUML}" for i
    using that i2 l len by (simp add: b5_def b4_def b3_def nth_list_update)
  then have "b5 ! IPOFFH = f_buf e ! IPOFFH AND NOT (IPDF OR IPMF) \<and>
     (\<forall>i < IPHDRLEN. i \<notin> {IPLENH, IPLENL, IPOFFH, IPCKSUMH, IPCKSUML} \<longrightarrow> b5 ! i = f_buf e ! i)"
    using i1 by simp
  ultimately show ?thesis using b l pay by (simp add: Let_def)
qed

text \<open>The entry of a datagram of which the pieces in \<open>S\<close> have come.\<close>

definition dgram_entry :: "nat \<Rightarrow> bytes \<Rightarrow> piece list \<Rightarrow> piece set \<Rightarrow> bytes \<Rightarrow> frag \<Rightarrow> bool" where
  "dgram_entry hl P fs S H e \<longleftrightarrow> is_cut P fs \<and> f_list e = filter (\<lambda>f. f \<in> S) fs \<and>
     length (f_buf e) = hl \<and> (hd fs \<in> S \<longrightarrow> f_off e = 0) \<and> (f_off e = 0 \<longrightarrow> f_buf e = H)"

lemma frag_add_simulates:
  assumes e: "frags s f = Some e" "dgram_entry hl P fs S H e"
    and g: "g \<in> set fs" "f_off g = 0 \<longrightarrow> hdr = H" "length hdr = hl"
    and miss: "\<not> set fs \<subseteq> S"
  shows "\<exists>e' s'. frag_add True r f g hdr s = (if set fs \<subseteq> insert g S then Some (length P) else None, s') \<and>
    frags s' f = Some e' \<and> dgram_entry hl P fs (insert g S) H e'"
proof -
  have cut: "is_cut P fs" and lst: "f_list e = filter (\<lambda>f. f \<in> S) fs"
    and hb: "length (f_buf e) = hl" "f_off e = 0 \<longrightarrow> f_buf e = H" "hd fs \<in> S \<longrightarrow> f_off e = 0"
    using e(2) by (auto simp: dgram_entry_def)
  have go: "f_off g = 0 \<longleftrightarrow> g = hd fs" using cut_hd [OF cut g(1)] .
  note ins = frag_insert_member [OF cut_sorted [OF cut] g(1), of S, folded lst]
  have fe: "fragof s f = e" using e(1) by (simp add: fragof_def)
  show ?thesis
  proof (cases "g \<in> S")
    case True
    then have "frag_add True r f g hdr s = (None, s)" using ins fe by (simp add: frag_add_def)
    moreover have "insert g S = S" using True by auto
    ultimately show ?thesis using miss e by simp
  next
    case False
    let ?ps = "filter (\<lambda>f. f \<in> insert g S) fs"
    define e1 where "e1 = (if f_off g = 0 \<and> f_off e \<noteq> 0
       then e\<lparr>f_buf := hdr, f_off := f_off g, f_more := f_more g\<rparr> else e)"
    define s2 where "s2 = upd_frag f (\<lambda>e. e\<lparr>f_list := ?ps\<rparr>)
      (if f_off g = 0 \<and> f_off (fragof s f) \<noteq> 0
       then upd_frag f (\<lambda>e. e\<lparr>f_buf := hdr, f_off := f_off g, f_more := f_more g\<rparr>) s else s)"
    have s2: "frags s2 f = Some (e1\<lparr>f_list := ?ps\<rparr>)"
      using e(1) fe by (simp add: s2_def e1_def upd_frag_def)
    have e1: "length (f_buf e1) = hl" "f_off e1 = 0 \<longrightarrow> f_buf e1 = H"
      "hd fs \<in> insert g S \<longrightarrow> f_off e1 = 0"
      using hb g(2,3) go by (auto simp: e1_def)
    have entry: "dgram_entry hl P fs (insert g S) H (e1\<lparr>f_list := ?ps\<rparr>)"
      using e1 cut by (simp add: dgram_entry_def)
    have fi: "frag_insert g (f_list (fragof s f)) = Some ?ps"
      using ins False unfolding fe by (simp only: if_False)
    have st: "frag_add True r f g hdr s = (if f_off (fragof s2 f) \<noteq> 0 then None else frag_complete ?ps, s2)"
      unfolding frag_add_def Let_def fi s2_def option.case by (simp only: not_True_eq_False if_False)
    have off: "f_off (fragof s2 f) = f_off e1" using s2 by (simp add: fragof_def)
    have imp: "set fs \<subseteq> insert g S \<longrightarrow> f_off e1 = 0"
      using e1(3) cut_nonempty [OF cut] hd_in_set by blast
    have pick: "(if k \<noteq> 0 then None else if C then Some n else None) = (if C then Some n else None)"
      if "C \<longrightarrow> k = 0" for k n :: nat and C using that by auto
    have "frag_add True r f g hdr s = (if set fs \<subseteq> insert g S then Some (length P) else None, s2)"
      unfolding st off frag_complete_filter [OF cut] pick [OF imp] ..
    then show ?thesis using s2 entry by blast
  qed
qed

lemma dgram_entry_whole:
  assumes "dgram_entry hl P fs S H e" "set fs \<subseteq> S"
  shows "is_cut P (f_list e)" "f_buf e = H" "length H = hl"
proof -
  have "filter (\<lambda>f. f \<in> S) fs = fs" using assms(2) by (auto simp: filter_id_conv)
  moreover have "hd fs \<in> S"
    using assms cut_nonempty hd_in_set unfolding dgram_entry_def by (meson subset_iff)
  ultimately show "is_cut P (f_list e)" "f_buf e = H" "length H = hl"
    using assms(1) by (auto simp: dgram_entry_def)
qed

subsection \<open>What the queues hold\<close>

text \<open>
  A datagram is known by a key, and its entries are the queued entries with that key. What has
  been collected of a datagram with payload \<open>P\<close>, pieces \<open>fs\<close> and first header \<open>H\<close>: the pieces in
  \<open>S\<close>, in one entry of their own, or nothing.
\<close>

definition held :: "(aftr \<Rightarrow> fid list) \<Rightarrow> (frag \<Rightarrow> 'k) \<Rightarrow> 'k \<Rightarrow> aftr \<Rightarrow> fid set" where
  "held q key k s = {f \<in> set (q s). key (fragof s f) = k}"

definition collected ::
  "(aftr \<Rightarrow> fid list) \<Rightarrow> (frag \<Rightarrow> 'k) \<Rightarrow> nat \<Rightarrow> 'k \<Rightarrow> bytes \<Rightarrow> piece list \<Rightarrow> bytes \<Rightarrow> piece set \<Rightarrow> aftr \<Rightarrow> bool" where
  "collected q key hl k P fs H S s \<longleftrightarrow> S = {} \<and> held q key k s = {} \<or>
     (\<exists>f e. held q key k s = {f} \<and> frags s f = Some e \<and> dgram_entry hl P fs S H e)"

definition others :: "(aftr \<Rightarrow> fid list) \<Rightarrow> (frag \<Rightarrow> 'k) \<Rightarrow> 'k \<Rightarrow> aftr \<Rightarrow> aftr \<Rightarrow> bool" where
  "others q key k s s' \<longleftrightarrow> (\<forall>k'. k' \<noteq> k \<longrightarrow>
     held q key k' s' = held q key k' s \<and> (\<forall>f \<in> held q key k' s. frags s' f = frags s f))"

text \<open>A step on one entry: the rest of the queue and of the store stays.\<close>

definition only_entry :: "(aftr \<Rightarrow> fid list) \<Rightarrow> fid \<Rightarrow> aftr \<Rightarrow> aftr \<Rightarrow> bool" where
  "only_entry q f s s' \<longleftrightarrow> set (q s') - {f} = set (q s) - {f} \<and> (\<forall>g. g \<noteq> f \<longrightarrow> frags s' g = frags s g)"

lemma only_refl: "only_entry q f s s"
  by (simp add: only_entry_def)

lemma only_trans: "only_entry q f s s1 \<Longrightarrow> only_entry q f s1 s2 \<Longrightarrow> only_entry q f s s2"
  by (simp add: only_entry_def)

lemma held_only:
  assumes o: "only_entry q f s s'"
    and k: "f \<in> set (q s) \<Longrightarrow> key (fragof s f) = k" "f \<in> set (q s') \<Longrightarrow> key (fragof s' f) = k"
  shows "held q key k s' = held q key k s - {f} \<union> {f} \<inter> set (q s')" "others q key k s s'"
proof -
  have m: "g \<in> set (q s') \<longleftrightarrow> g \<in> set (q s)" "frags s' g = frags s g" "fragof s' g = fragof s g" if "g \<noteq> f" for g
    using o that by (auto simp: only_entry_def fragof_def)
  have e: "g \<in> held q key k' s' \<longleftrightarrow> g \<in> held q key k' s" if "g \<noteq> f" for g k'
    using m [OF that] by (simp add: held_def)
  have f: "f \<in> held q key k' s' \<longleftrightarrow> f \<in> set (q s') \<and> k' = k" "f \<in> held q key k' s \<longleftrightarrow> f \<in> set (q s) \<and> k' = k" for k'
    using k by (auto simp: held_def)
  show "held q key k s' = held q key k s - {f} \<union> {f} \<inter> set (q s')"
  proof (rule set_eqI)
    fix g show "g \<in> held q key k s' \<longleftrightarrow> g \<in> held q key k s - {f} \<union> {f} \<inter> set (q s')"
      using e [of g k] f(1) [of k] by (cases "g = f") auto
  qed
  show "others q key k s s'"
    unfolding others_def
  proof (intro allI impI conjI ballI)
    fix k' assume k': "k' \<noteq> k"
    show "held q key k' s' = held q key k' s"
    proof (rule set_eqI)
      fix g show "g \<in> held q key k' s' \<longleftrightarrow> g \<in> held q key k' s"
        using e [of g k'] f [of k'] k' by (cases "g = f") auto
    qed
    fix g assume "g \<in> held q key k' s"
    then show "frags s' g = frags s g" using f(2) [of k'] k' m(2) by (cases "g = f") auto
  qed
qed

lemma others_refl: "others q key k s s"
  by (simp add: others_def)

lemma held_stat_drop [simp]: "held q key k (stat_drop r s) = held q key k s" if "q (stat_drop r s) = q s"
  using that by (simp add: held_def fragof_def stat_drop_def emit_def)

lemma frags_stat_drop [simp]: "frags (stat_drop r s) = frags s"
  by (simp add: stat_drop_def emit_def)

lemma collected_stat_drop [simp]:
  "q (stat_drop r s) = q s \<Longrightarrow> collected q key hl k P fs H S (stat_drop r s) = collected q key hl k P fs H S s"
  by (simp add: collected_def)

lemma others_stat_drop [simp]: "q (stat_drop r s) = q s \<Longrightarrow> others q key k s (stat_drop r s)"
  by (simp add: others_def)

text \<open>The shared part of the defragmenters touches its entry only, and keeps its queue and key.\<close>

lemma upd_frag_frags: "frags (upd_frag f h s) g = (if g = f then map_option h (frags s f) else frags s g)"
  by (simp add: upd_frag_def)

lemma frag_add_entry:
  assumes "frag_add mem r f np hdr s = (res, s')" "frags s f = Some e"
  shows "\<exists>e'. frags s' f = Some e' \<and> f_tunnel e' = f_tunnel e \<and> (f_buf e' = f_buf e \<or> f_buf e' = hdr)"
  using assms by (auto simp: frag_add_def Let_def upd_frag_frags fragof_def split: option.splits if_splits)

lemma frag_add_queues:
  assumes "frag_add mem r f np hdr s = (res, s')"
  shows "fragsin s' = fragsin s" "fragsout s' = fragsout s" "frags6 s' = frags6 s" "frags6cnt s' = frags6cnt s"
    "g \<noteq> f \<Longrightarrow> frags s' g = frags s g"
  using assms
  by (auto simp: frag_add_def Let_def upd_frag_def stat_drop_def emit_def split: option.splits if_splits)

lemma frag_add_no_mem:
  assumes "frag_add False r f np hdr s = (res, s')"
  shows "res = None \<and> (s' = s \<or> s' = stat_drop r s)"
  using assms by (auto simp: frag_add_def split: option.splits)

subsection \<open>Reassembly of IPv4\<close>

text \<open>
  The key of an IPv4 datagram: where it came from (a tunnel or the Internet), its protocol, its
  identification and its two addresses.
\<close>

definition key4 :: "tid \<Rightarrow> bytes \<Rightarrow> tid \<times> u8 \<times> bytes \<times> bytes \<times> bytes" where
  "key4 t b = (t, b ! IPPROTO, sub b IPID 2, sub b IPSRC 4, sub b IPDST 4)"

definition queue4 :: "aftr \<Rightarrow> fid list" where
  "queue4 s = fragsin s @ fragsout s"

abbreviation entry_key4 :: "frag \<Rightarrow> tid \<times> u8 \<times> bytes \<times> bytes \<times> bytes" where
  "entry_key4 e \<equiv> key4 (f_tunnel e) (f_buf e)"

abbreviation held4 :: "tid \<times> u8 \<times> bytes \<times> bytes \<times> bytes \<Rightarrow> aftr \<Rightarrow> fid set" where
  "held4 \<equiv> held queue4 entry_key4"

abbreviation collected4 ::
  "tid \<times> u8 \<times> bytes \<times> bytes \<times> bytes \<Rightarrow> bytes \<Rightarrow> piece list \<Rightarrow> bytes \<Rightarrow> piece set \<Rightarrow> aftr \<Rightarrow> bool" where
  "collected4 \<equiv> collected queue4 entry_key4 IPHDRLEN"

text \<open>The piece that a fragment of \<open>len\<close> bytes carries, and whether the limits leave room for it.\<close>

definition frag_piece4 :: "bytes \<Rightarrow> nat \<Rightarrow> piece" where
  "frag_piece4 b len = \<lparr>f_buf = sub b IPHDRLEN (len - IPHDRLEN), f_len = len - IPHDRLEN,
     f_off = frag_off4 b, f_more = frag_more4 b\<rparr>"

definition room4 :: "config \<Rightarrow> tid \<Rightarrow> aftr \<Rightarrow> bool" where
  "room4 cfg t s \<longleftrightarrow> (if t = 0 then length (fragsout s) < frag_maxcnt cfg ! 2
     else length (fragsin s) < frag_maxcnt cfg ! 1 \<and> t_frg4cnt (tunof s t) < fragtn_maxcnt cfg ! 1)"

lemma sub_addrs: "sub a IPSRC 8 = sub b IPSRC 8 \<longleftrightarrow> sub a IPSRC 4 = sub b IPSRC 4 \<and> sub a IPDST 4 = sub b IPDST 4"
proof
  assume e: "sub a IPSRC 8 = sub b IPSRC 8"
  then show "sub a IPSRC 4 = sub b IPSRC 4 \<and> sub a IPDST 4 = sub b IPDST 4"
    using sub_prefix [of 4 8 a] sub_prefix [of 4 8 b] sub_suffix [of a IPSRC 4 4] sub_suffix [of b IPSRC 4 4]
    by simp
next
  assume "sub a IPSRC 4 = sub b IPSRC 4 \<and> sub a IPDST 4 = sub b IPDST 4"
  then show "sub a IPSRC 8 = sub b IPSRC 8"
    using sub_append_sub [of a IPSRC 4 4] sub_append_sub [of b IPSRC 4 4] by simp
qed

lemma same_dgram4_key: "same_dgram4 t b e \<longleftrightarrow> entry_key4 e = key4 t b"
  by (auto simp: same_dgram4_def key4_def sub_addrs)

lemma key4_sub: "20 \<le> length b \<Longrightarrow> key4 t (sub b 0 20) = key4 t b"
  by (simp add: key4_def nth_sub) (simp add: sub_def drop_take min_def)

lemma defrag_find_held:
  assumes inv: "frag_inv s" and one: "held4 (key4 t b) s = {} \<or> held4 (key4 t b) s = {f}"
  shows "defrag_find t b s = (if held4 (key4 t b) s = {} then 0 else f)"
proof (cases "held4 (key4 t b) s = {}")
  case True
  then have "defrag_find t b s = 0"
    using defrag_find_ok [OF inv, of t b] by (auto simp: held_def same_dgram4_key queue4_def)
  with True show ?thesis by simp
next
  case False
  then have h: "held4 (key4 t b) s = {f}" using one by simp
  then have f: "f \<in> set (queue4 s)" "entry_key4 (fragof s f) = key4 t b" by (auto simp: held_def)
  then have t: "f_tunnel (fragof s f) = t" by (simp add: key4_def)
  have "f \<in> set (frag_queue t s)"
    using f(1) t inv by (auto simp: frag_queue_def queue4_def frag_inv_def)
  then have fnd: "find (\<lambda>f. same_dgram4 t b (fragof s f)) (frag_queue t s) \<noteq> None"
    using f(2) by (auto simp: find_None_iff same_dgram4_key)
  have "defrag_find t b s \<noteq> 0"
  proof -
    have "0 \<notin> set (frag_queue t s)" using inv by (auto simp: frag_queue_def frag_inv_def)
    then have "find (\<lambda>f. same_dgram4 t b (fragof s f)) (frag_queue t s) \<noteq> Some 0"
      by (metis find_Some_iff nth_mem)
    then show ?thesis using fnd by (auto simp: defrag_find_def Let_def)
  qed
  from defrag_find_ok [OF inv this] have "defrag_find t b s \<in> held4 (key4 t b) s"
    by (simp add: held_def same_dgram4_key queue4_def)
  with h False show ?thesis by simp
qed

lemma defrag_entry_collected:
  assumes inv: "frag_inv s" and new: "new \<noteq> 0" "frags s new = None" and len: "IPHDRLEN \<le> length buf4"
    and cut: "is_cut P fs" and hdr: "frag_off4 buf4 = 0 \<longrightarrow> sub buf4 0 IPHDRLEN = H"
    and col: "collected4 (key4 t buf4) P fs H S s"
    and d: "defrag_entry cfg new t buf4 s = (f, s1)"
  shows "only_entry queue4 f s s1" "f \<in> set (queue4 s1)" "f \<in> set (queue4 s) \<longrightarrow> entry_key4 (fragof s f) = key4 t buf4"
    "\<exists>e. frags s1 f = Some e \<and> entry_key4 e = key4 t buf4 \<and> dgram_entry IPHDRLEN P fs S H e"
    "held4 (key4 t buf4) s \<subseteq> {f}"
proof -
  have "only_entry queue4 f s s1 \<and> f \<in> set (queue4 s1) \<and>
    (f \<in> set (queue4 s) \<longrightarrow> entry_key4 (fragof s f) = key4 t buf4) \<and>
    (\<exists>e. frags s1 f = Some e \<and> entry_key4 e = key4 t buf4 \<and> dgram_entry IPHDRLEN P fs S H e) \<and>
    held4 (key4 t buf4) s \<subseteq> {f}"
  proof (cases "held4 (key4 t buf4) s = {}")
    case True
    then have S: "S = {}" using col by (auto simp: collected_def)
    have f0: "defrag_find t buf4 s = 0" using defrag_find_held [OF inv] True by simp
    have fresh: "new \<notin> set (queue4 s)"
      using inv new(2) unfolding frag_inv_def entry4_ok_def queue4_def by (metis option.distinct(1))
    have fs: "f = new" "frags s1 = (frags s)(new := frags s1 new)"
      "set (queue4 s1) = insert new (set (queue4 s))"
      "frags s1 new = Some \<lparr>f_buf = sub buf4 0 IPHDRLEN, f_len = IPHDRLEN, f_off = frag_off4 buf4,
         f_more = frag_more4 buf4, f_tunnel = t, f_expire = seconds s + int (frag_lifetime cfg),
         f_hash = frag_slot buf4 s, f_list = []\<rparr>"
      using d f0
      by (cases "t = 0"; auto simp: defrag_entry_def defrag_create_def Let_def upd_frag_def upd_tunnel_def queue4_def)+
    have "frags s1 g = frags s g" if "g \<noteq> new" for g using fs(2) that by (metis fun_upd_apply)
    moreover have "key4 t (sub buf4 0 20) = key4 t buf4" using len by (simp add: key4_sub)
    ultimately show ?thesis
      using fs fresh True S cut hdr len by (simp add: only_entry_def dgram_entry_def)
  next
    case False
    then obtain f' e where h: "held4 (key4 t buf4) s = {f'}" "frags s f' = Some e" "dgram_entry IPHDRLEN P fs S H e"
      using col by (auto simp: collected_def)
    then have f: "f' \<in> set (queue4 s)" "entry_key4 (fragof s f') = key4 t buf4" by (auto simp: held_def)
    then have nz: "f' \<noteq> 0" using inv by (auto simp: frag_inv_def queue4_def)
    have ff: "defrag_find t buf4 s = f'" using defrag_find_held [OF inv, of t buf4 f'] h(1) by simp
    have s1: "f = f'" "s1 = upd_frag f' (\<lambda>e. e\<lparr>f_hash := frag_slot buf4 s\<rparr>) (s\<lparr>fraghash := (fraghash s)(frag_slot buf4 s := f')\<rparr>)"
      using d ff nz by (auto simp: defrag_entry_def Let_def)
    have "entry_key4 e = key4 t buf4" using f(2) h(2) by (simp add: fragof_def)
    then show ?thesis
      using f h s1 by (simp add: only_entry_def queue4_def upd_frag_def dgram_entry_def)
  qed
  then show "only_entry queue4 f s s1" "f \<in> set (queue4 s1)" "f \<in> set (queue4 s) \<longrightarrow> entry_key4 (fragof s f) = key4 t buf4"
    "\<exists>e. frags s1 f = Some e \<and> entry_key4 e = key4 t buf4 \<and> dgram_entry IPHDRLEN P fs S H e"
    "held4 (key4 t buf4) s \<subseteq> {f}" by blast+
qed

text \<open>One piece into its entry: it is stored, or no memory is left, or the datagram is whole.\<close>

lemma frag_add_collects:
  assumes o: "only_entry q f s s1" and f: "f \<in> set (q s1)" "f \<in> set (q s) \<longrightarrow> key (fragof s f) = k"
    and h: "held q key k s \<subseteq> {f}"
    and e: "frags s1 f = Some e" "key e = k" "dgram_entry hl P fs S H e"
    and kk: "\<forall>e'. f_tunnel e' = f_tunnel e \<and> (f_buf e' = f_buf e \<or> f_buf e' = hdr) \<longrightarrow> key e' = k"
    and q: "q s2 = q s1"
    and g: "g \<in> set fs" "f_off g = 0 \<longrightarrow> hdr = H" "length hdr = hl" and miss: "\<not> set fs \<subseteq> S"
    and a: "frag_add mem r f g hdr s1 = (res, s2)"
  shows "only_entry q f s s2 \<and> f \<in> set (q s2) \<and> others q key k s s2 \<and>
    res = (if mem \<and> set fs \<subseteq> insert g S then Some (length P) else None) \<and>
    (\<exists>e'. frags s2 f = Some e' \<and> key e' = k \<and> dgram_entry hl P fs (if mem then insert g S else S) H e') \<and>
    collected q key hl k P fs H (if mem then insert g S else S) s2"
proof -
  have rest: "frags s2 h = frags s1 h" if "h \<noteq> f" for h using frag_add_queues(5) [OF a that] .
  have o2: "only_entry q f s s2" using o rest q by (simp add: only_entry_def)
  have f2: "f \<in> set (q s2)" using f(1) q by simp
  obtain e' where e': "frags s2 f = Some e'" "key e' = k"
    using frag_add_entry [OF a e(1)] kk by blast
  have k2: "key (fragof s2 f) = k" using e' by (simp add: fragof_def)
  have "res = (if mem \<and> set fs \<subseteq> insert g S then Some (length P) else None) \<and>
      dgram_entry hl P fs (if mem then insert g S else S) H e'"
  proof (cases mem)
    case True
    then show ?thesis using frag_add_simulates [OF e(1,3) g miss, of r] a e'(1) by auto
  next
    case False
    then show ?thesis using frag_add_no_mem [of r f g hdr s1 res s2] a e(1,3) e'(1) by auto
  qed
  moreover have "held q key k s2 = {f}"
    using held_only(1) [where key = key and k = k, OF o2] f(2) k2 f2 h by auto
  moreover have "others q key k s s2"
    using held_only(2) [where key = key and k = k, OF o2] f(2) k2 by auto
  ultimately show ?thesis using o2 f2 e' by (auto simp: collected_def)
qed

lemma and_7: "n AND 7 = n mod 8" for n :: nat
  using take_bit_eq_mask [of 3 n] by (simp add: take_bit_eq_mod mask_eq_exp_minus_1)

lemma del_frag4_gone:
  assumes "frag_inv s" "f \<in> set (queue4 s)"
  shows "only_entry queue4 f s (del_frag4 f s)" "f \<notin> set (queue4 (del_frag4 f s))"
proof -
  have d: "distinct (fragsin s)" "distinct (fragsout s)" "set (fragsin s) \<inter> set (fragsout s) = {}"
    "f \<in> set (fragsin s) \<Longrightarrow> f_tunnel (fragof s f) \<noteq> 0" "f \<in> set (fragsout s) \<Longrightarrow> f_tunnel (fragof s f) = 0"
    using assms(1) by (auto simp: frag_inv_def)
  have "fragsin (del_frag4 f s) = (if f_tunnel (fragof s f) = 0 then fragsin s else remove1 f (fragsin s))"
    "fragsout (del_frag4 f s) = (if f_tunnel (fragof s f) = 0 then remove1 f (fragsout s) else fragsout s)"
    "frags (del_frag4 f s) = (frags s)(f := None)"
    by (simp_all add: del_frag4_def Let_def upd_tunnel_def)
  then show "only_entry queue4 f s (del_frag4 f s)" "f \<notin> set (queue4 (del_frag4 f s))"
    using d assms(2) by (auto simp: only_entry_def queue4_def set_remove1_eq)
qed

lemma cut_pos: "cut_from off P fs \<Longrightarrow> g \<in> set fs \<Longrightarrow> 0 < f_len g"
  by (induction off P fs rule: cut_from.induct) (auto split: if_splits)

lemma cut_len: "is_cut P fs \<Longrightarrow> g \<in> set fs \<Longrightarrow> length (f_buf g) = f_len g"
  using cut_chain_ok by (auto simp: chain_ok_def)

lemma defrag_limit_room:
  "frag_inv s \<Longrightarrow> defrag_limit cfg t s = None \<longleftrightarrow> room4 cfg t s"
  by (auto simp: frag_inv_def defrag_limit_def room4_def not_le)

text \<open>The whole call, once the entry is found or made.\<close>

lemma defrag_store_collects:
  assumes inv: "frag_inv s1" and f: "f \<in> set (queue4 s1)"
    and a: "frag_add mem DR_F4MEM f (frag_piece4 buf4 len) (sub buf4 0 IPHDRLEN) s1 = (r, s2)"
    and i2: "frag_inv s2" "f \<in> set (queue4 s2)" and r: "r = (if C then Some (length P) else None)"
    and e: "C \<Longrightarrow> frags s2 f = Some e \<and> is_cut P (f_list e) \<and> f_buf e = H \<and> length H = IPHDRLEN"
    and len: "IPHDRLEN + length P \<le> IPMAXLEN" "IPMAXLEN \<le> length buf4"
    and d: "defrag_store mem f buf4 (len - IPHDRLEN) s1 = (res, s')"
  shows "if C then s' = del_frag4 f s2 \<and>
       (\<exists>b. res = Some (b, length P + IPHDRLEN) \<and> sub b IPHDRLEN (length P) = P \<and> in_cksum b IPHDRLEN = 0 \<and>
          be16 (b ! IPLENH) (b ! IPLENL) = int (length P + IPHDRLEN) \<and>
          b ! IPOFFH = H ! IPOFFH AND NOT (IPDF OR IPMF) \<and>
          (\<forall>i < IPHDRLEN. i \<notin> {IPLENH, IPLENL, IPOFFH, IPCKSUMH, IPCKSUML} \<longrightarrow> b ! i = H ! i))
     else res = None \<and> s' = s2"
proof (cases C)
  case True
  note e = e [OF True]
  have st: "res = Some (rebuild4 e (length P + IPHDRLEN) buf4, length P + IPHDRLEN)" "s' = del_frag4 f s2"
    using d a r True len e by (auto simp: defrag_store_def frag_piece4_def fragof_def)
  have "is_cut P (f_list e)" "length (f_buf e) = IPHDRLEN" using e by simp_all
  from rebuild4_ok [OF this len] e st True show ?thesis by (simp add: Let_def)
qed (use d a r in \<open>auto simp: defrag_store_def frag_piece4_def\<close>)

text \<open>
  Claim C4: the refinement of IPv4 reassembly to sets of pieces. For a datagram cut into the
  pieces \<open>fs\<close> of which \<open>S\<close> have come and some are missing, defrag is called with a fragment that
  carries one of them. The fragment is stored when the counts leave room, and no malloc fails (a
  first fragment needs an entry too); it may come in any order and again. If it is not
  stored, nothing is returned and \<open>S\<close> is what is collected still. If it brings the last missing
  piece, the whole datagram is returned: the header of the fragment at offset 0 with the length set,
  DF and MF cleared and a valid checksum, the payload behind it, and the entry is gone. Otherwise
  nothing is returned and the pieces collected are \<open>S\<close> with the new one. In every case the tables
  stay consistent, and what is collected of every other datagram (of another tunnel, protocol,
  identification or address pair) is what it was.
\<close>

theorem defrag_collects:
  assumes inv: "frag_inv s" and new: "new \<noteq> 0" "frags s new = None"
    and cut: "is_cut P fs" and col: "collected4 (key4 t buf4) P fs H S s" and miss: "\<not> set fs \<subseteq> S"
    and g: "frag_piece4 buf4 len \<in> set fs" "frag_off4 buf4 = 0 \<longrightarrow> sub buf4 0 IPHDRLEN = H"
      "frag_more4 buf4 \<longrightarrow> 8 dvd (len - IPHDRLEN)"
    and len: "IPHDRLEN + length P \<le> IPMAXLEN" "IPMAXLEN \<le> length buf4"
    and run: "defrag cfg mem new t buf4 len s = (res, s')"
  shows "frag_inv s' \<and> others queue4 entry_key4 (key4 t buf4) s s' \<and>
    (if \<not> (room4 cfg t s \<and> (held4 (key4 t buf4) s \<noteq> {} \<or> mem 0 \<and> mem 1) \<and> mem 2 \<and> mem 3)
     then res = None \<and> collected4 (key4 t buf4) P fs H S s'
     else if set fs \<subseteq> insert (frag_piece4 buf4 len) S
     then held4 (key4 t buf4) s' = {} \<and>
       (\<exists>b. res = Some (b, length P + IPHDRLEN) \<and> sub b IPHDRLEN (length P) = P \<and> in_cksum b IPHDRLEN = 0 \<and>
          be16 (b ! IPLENH) (b ! IPLENL) = int (length P + IPHDRLEN) \<and>
          b ! IPOFFH = H ! IPOFFH AND NOT (IPDF OR IPMF) \<and>
          (\<forall>i < IPHDRLEN. i \<notin> {IPLENH, IPLENL, IPOFFH, IPCKSUMH, IPCKSUML} \<longrightarrow> b ! i = H ! i))
     else res = None \<and> collected4 (key4 t buf4) P fs H (insert (frag_piece4 buf4 len) S) s')"
proof (cases "room4 cfg t s \<and> (held4 (key4 t buf4) s \<noteq> {} \<or> mem 0 \<and> mem 1)")
  case False
  have find: "defrag_find t buf4 s = 0" if "held4 (key4 t buf4) s = {}"
    using defrag_find_held [OF inv] that by simp
  have "defrag cfg mem new t buf4 len s = (None, stat_drop r s) \<or> (\<exists>r. defrag cfg mem new t buf4 len s = (None, stat_drop r s))" for r
    using False find defrag_limit_room [OF inv, of cfg t]
    by (cases "defrag_limit cfg t s") (auto simp: defrag_def Let_def)
  then obtain r where "res = None" "s' = stat_drop r s" using run by auto
  then show ?thesis using False inv col by (auto simp: queue4_def)
next
  case True
  let ?k = "key4 t buf4"
  have glen: "IPHDRLEN < len" "len \<le> length buf4"
    using cut_pos [OF cut g(1)] cut_len [OF cut g(1)] by (auto simp: frag_piece4_def sub_def min_def split: if_splits)
  then have l20: "IPHDRLEN \<le> length buf4" by simp
  obtain f s1 where d: "defrag_entry cfg new t buf4 s = (f, s1)" by fastforce
  note en = defrag_entry_collected [OF inv new l20 cut g(2) col d]
  obtain e where e: "frags s1 f = Some e" "entry_key4 e = ?k" "dgram_entry IPHDRLEN P fs S H e"
    using en(4) by blast
  have i1: "frag_inv s1" "f \<in> set (fragsin s1 @ fragsout s1)" "f_hash (fragof s1 f) = frag_slot buf4 s1"
    using defrag_entry_inv [OF inv new l20 d] by auto
  have fnd: "\<not> (defrag_find t buf4 s = 0 \<and> \<not> (mem 0 \<and> mem 1))"
  proof
    assume "defrag_find t buf4 s = 0 \<and> \<not> (mem 0 \<and> mem 1)"
    moreover from this have "held4 ?k s \<noteq> {}" using True by blast
    moreover from this obtain g where "held4 ?k s = {g}" using col by (auto simp: collected_def)
    moreover from this have "g \<in> set (fragsin s @ fragsout s)" by (auto simp: held_def queue4_def)
    ultimately show False using defrag_find_held [OF inv, of t buf4 g] inv by (auto simp: frag_inv_def)
  qed
  have st: "defrag_store (mem 2 \<and> mem 3) f buf4 (len - IPHDRLEN) s1 = (res, s')"
    using run True g(3) fnd d defrag_limit_room [OF inv, of cfg t]
    by (auto simp: defrag_def Let_def and_7 dvd_eq_mod_eq_0)
  obtain r s2 where a: "frag_add (mem 2 \<and> mem 3) DR_F4MEM f (frag_piece4 buf4 len) (sub buf4 0 IPHDRLEN) s1 = (r, s2)"
    by fastforce
  have kk: "\<forall>e'. f_tunnel e' = f_tunnel e \<and> (f_buf e' = f_buf e \<or> f_buf e' = sub buf4 0 IPHDRLEN) \<longrightarrow> entry_key4 e' = ?k"
    using e(2) key4_sub [OF l20, of t] by (auto simp: key4_def)
  have q: "queue4 s2 = queue4 s1"
    using frag_add_queues(1,2) [OF a] by (simp add: queue4_def)
  have g0: "f_off (frag_piece4 buf4 len) = 0 \<longrightarrow> sub buf4 0 IPHDRLEN = H" "length (sub buf4 0 IPHDRLEN) = IPHDRLEN"
    using g(2) l20 by (simp_all add: frag_piece4_def)
  note fa = frag_add_collects [where key = entry_key4 and k = ?k, OF en(1,2) en(3) en(5) e kk q g(1) g0 miss a]
  have i2: "frag_inv s2" "f \<in> set (fragsin s2 @ fragsout s2)"
    using frag_add_inv [OF i1(1,2) _ _ _ a] i1(3) l20 cut_len [OF cut g(1)] by (auto simp: frag_slot_sub)
  obtain e' where e': "frags s2 f = Some e'" "entry_key4 e' = ?k"
    "dgram_entry IPHDRLEN P fs (if mem 2 \<and> mem 3 then insert (frag_piece4 buf4 len) S else S) H e'" using fa by blast
  let ?C = "(mem 2 \<and> mem 3) \<and> set fs \<subseteq> insert (frag_piece4 buf4 len) S"
  have whole: "frags s2 f = Some e' \<and> is_cut P (f_list e') \<and> f_buf e' = H \<and> length H = IPHDRLEN" if ?C
    using e' that dgram_entry_whole [of IPHDRLEN P fs _ H e'] by auto
  have r: "r = (if ?C then Some (length P) else None)" using fa by simp
  have i2': "f \<in> set (queue4 s2)" using i2(2) by (simp add: queue4_def)
  note res = defrag_store_collects [OF i1(1) en(2) a i2(1) i2' r whole len st]
  have inv': "frag_inv s'" using defrag_inv [OF inv new _ glen(2), of cfg mem t] run glen(1) by simp
  show ?thesis
  proof (cases ?C)
    case True
    have s': "s' = del_frag4 f s2" using res True by simp
    note dg = del_frag4_gone [OF i2(1) i2']
    have o: "only_entry queue4 f s s'" using only_trans [OF _ dg(1)] fa s' by blast
    have fk: "f \<in> set (queue4 s) \<Longrightarrow> entry_key4 (fragof s f) = ?k" using en(3) by blast
    have nq: "f \<notin> set (queue4 s')" using dg(2) s' by simp
    have "held4 ?k s' = {}"
      using held_only(1) [where key = entry_key4 and k = ?k, OF o fk] nq en(5) by auto
    moreover have "others queue4 entry_key4 ?k s s'"
      using held_only(2) [where key = entry_key4 and k = ?k, OF o fk] nq by blast
    ultimately show ?thesis using True \<open>room4 cfg t s \<and> _\<close> res inv' by simp
  next
    case False
    then have "res = None" "s' = s2" using res by simp_all
    then show ?thesis using False \<open>room4 cfg t s \<and> _\<close> fa inv' by (auto split: if_splits)
  qed
qed

subsection \<open>Reassembly of IPv6\<close>

lemma rebuild6_ok:
  assumes cut: "is_cut P (f_list e)" and hdr: "length (f_buf e) = IP6FLEN"
    and len: "length P \<le> IPMAXLEN" "IP6HDRLEN + length P \<le> length buf6"
  shows "let b = rebuild6 e (length P) buf6
    in length b = length buf6 \<and> sub b IP6HDRLEN (length P) = P \<and>
       be16 (b ! IP6LENH) (b ! IP6LENL) = int (length P) \<and> b ! IP6PROTO = f_buf e ! IP6FPROTO \<and>
       (\<forall>i < IP6HDRLEN. i \<notin> {IP6LENH, IP6LENL, IP6PROTO} \<longrightarrow> b ! i = f_buf e ! i)"
proof -
  let ?n = "length P"
  define b1 where "b1 = put buf6 0 (take IP6HDRLEN (f_buf e))"
  define b2 where "b2 = frag_copy IP6HDRLEN (f_list e) b1"
  define b3 where "b3 = b2[IP6LENH := hi8 (int ?n), IP6LENL := lo8 (int ?n), IP6PROTO := f_buf e ! IP6FPROTO]"
  have b: "rebuild6 e ?n buf6 = b3" by (simp add: rebuild6_def Let_def b1_def b2_def b3_def)
  have l1: "length b1 = length buf6" using hdr len by (simp add: b1_def)
  have c: "sub b2 IP6HDRLEN ?n = P" "take IP6HDRLEN b2 = take IP6HDRLEN b1" "length b2 = length b1"
    using frag_copy_sub [OF cut, of IP6HDRLEN b1] len l1 by (simp_all add: b2_def)
  have "b2 ! i = f_buf e ! i" if "i < IP6HDRLEN" for i
  proof -
    have "b2 ! i = b1 ! i" using c(2) that by (metis nth_take)
    then show ?thesis using that hdr len by (simp add: b1_def nth_put)
  qed
  moreover have "sub b3 IP6HDRLEN ?n = P"
    using c(1) by (simp add: sub_def b3_def drop_update_cancel)
  ultimately show ?thesis
    using b l1 c(3) len by (simp add: Let_def b3_def nth_list_update)
qed

text \<open>
  The IPv6 queue holds live entries, each once, and its counter is its length. The key of an IPv6
  datagram: its tunnel, its next header and its identification.
\<close>

definition frag6_inv :: "aftr \<Rightarrow> bool" where
  "frag6_inv s \<longleftrightarrow> distinct (frags6 s) \<and> 0 \<notin> set (frags6 s) \<and> frags6cnt s = length (frags6 s) \<and>
     (\<forall>f \<in> set (frags6 s). \<exists>e. frags s f = Some e \<and> length (f_buf e) = IP6FLEN \<and> chain_ok (f_list e))"

definition key6 :: "tid \<Rightarrow> bytes \<Rightarrow> tid \<times> u8 \<times> bytes" where
  "key6 t b = (t, b ! IP6FPROTO, sub b IP6FID 4)"

abbreviation entry_key6 :: "frag \<Rightarrow> tid \<times> u8 \<times> bytes" where
  "entry_key6 e \<equiv> key6 (f_tunnel e) (f_buf e)"

abbreviation held6 :: "tid \<times> u8 \<times> bytes \<Rightarrow> aftr \<Rightarrow> fid set" where
  "held6 \<equiv> held frags6 entry_key6"

abbreviation collected6 ::
  "tid \<times> u8 \<times> bytes \<Rightarrow> bytes \<Rightarrow> piece list \<Rightarrow> bytes \<Rightarrow> piece set \<Rightarrow> aftr \<Rightarrow> bool" where
  "collected6 \<equiv> collected frags6 entry_key6 IP6FLEN"

definition frag_piece6 :: "bytes \<Rightarrow> nat \<Rightarrow> piece" where
  "frag_piece6 b len = \<lparr>f_buf = sub b IP6FLEN (len - IP6FLEN), f_len = len - IP6FLEN,
     f_off = frag_off6 b, f_more = frag_more6 b\<rparr>"

definition room6 :: "config \<Rightarrow> tid \<Rightarrow> aftr \<Rightarrow> bool" where
  "room6 cfg t s \<longleftrightarrow> length (frags6 s) < frag_maxcnt cfg ! 0 \<and> t_frg6cnt (tunof s t) < fragtn_maxcnt cfg ! 0"

lemma same_dgram6_key: "same_dgram6 t b e \<longleftrightarrow> entry_key6 e = key6 t b"
  by (auto simp: same_dgram6_def key6_def)

lemma key6_sub: "48 \<le> length b \<Longrightarrow> key6 t (sub b 0 48) = key6 t b"
  by (simp add: key6_def nth_sub) (simp add: sub_def drop_take min_def)

text \<open>The lookup of defrag6, and the entry it goes on with.\<close>

definition find6 :: "tid \<Rightarrow> bytes \<Rightarrow> aftr \<Rightarrow> fid" where
  "find6 t b s = (case find (\<lambda>f. same_dgram6 t b (fragof s f)) (frags6 s) of None \<Rightarrow> 0 | Some f \<Rightarrow> f)"

definition entry6 :: "config \<Rightarrow> fid \<Rightarrow> tid \<Rightarrow> bytes \<Rightarrow> aftr \<Rightarrow> fid \<times> aftr" where
  "entry6 cfg new t b s = (if find6 t b s = 0 then (new, defrag6_create cfg new t b s) else (find6 t b s, s))"

lemma defrag6_unfold:
  "defrag6 cfg mem new t b len s =
     (case defrag6_limit cfg t s of
        Some r \<Rightarrow> (None, stat_drop r s)
      | None \<Rightarrow>
          if frag_more6 b \<and> (len - IP6FLEN) AND 7 \<noteq> 0 then (None, stat_drop DR_BADF6 s)
          else if find6 t b s = 0 \<and> \<not> (mem 0 \<and> mem 1) then (None, stat_drop DR_F6CNT s)
          else let (f, s) = entry6 cfg new t b s in defrag6_store (mem 2 \<and> mem 3) f b (len - IP6FLEN) s)"
  unfolding defrag6_def find6_def [symmetric] entry6_def by (simp add: Let_def split: option.split)

lemma find6_held:
  assumes inv: "frag6_inv s" and one: "held6 (key6 t b) s = {} \<or> held6 (key6 t b) s = {f}"
  shows "find6 t b s = (if held6 (key6 t b) s = {} then 0 else f)"
proof (cases "find (\<lambda>f. same_dgram6 t b (fragof s f)) (frags6 s)")
  case None
  then have "held6 (key6 t b) s = {}" by (auto simp: find_None_iff held_def same_dgram6_key)
  then show ?thesis using None by (simp add: find6_def)
next
  case (Some g)
  then have "g \<in> set (frags6 s)" "same_dgram6 t b (fragof s g)" by (auto simp: find_Some_iff)
  then have "g \<in> held6 (key6 t b) s" by (simp add: held_def same_dgram6_key)
  then show ?thesis using one Some by (auto simp: find6_def)
qed

lemma entry6_collected:
  assumes inv: "frag6_inv s" and new: "new \<noteq> 0" "frags s new = None" and len: "IP6FLEN \<le> length b"
    and cut: "is_cut P fs" and hdr: "frag_off6 b = 0 \<longrightarrow> sub b 0 IP6FLEN = H"
    and col: "collected6 (key6 t b) P fs H S s" and d: "entry6 cfg new t b s = (f, s1)"
  shows "only_entry frags6 f s s1 \<and> f \<in> set (frags6 s1) \<and> frag6_inv s1 \<and>
    (f \<in> set (frags6 s) \<longrightarrow> entry_key6 (fragof s f) = key6 t b) \<and>
    (\<exists>e. frags s1 f = Some e \<and> entry_key6 e = key6 t b \<and> dgram_entry IP6FLEN P fs S H e) \<and>
    held6 (key6 t b) s \<subseteq> {f}"
proof (cases "held6 (key6 t b) s = {}")
  case True
  then have S: "S = {}" using col by (auto simp: collected_def)
  have f0: "find6 t b s = 0" using find6_held [OF inv] True by simp
  have fresh: "new \<notin> set (frags6 s)" using inv new(2) by (auto simp: frag6_inv_def)
  have fs: "f = new" "frags6 s1 = new # frags6 s" "frags6cnt s1 = frags6cnt s + 1"
    "frags s1 = (frags s)(new \<mapsto> \<lparr>f_buf = sub b 0 IP6FLEN, f_len = IP6FLEN, f_off = frag_off6 b,
         f_more = frag_more6 b, f_tunnel = t, f_expire = seconds s + int (frag_lifetime cfg),
         f_hash = 0, f_list = []\<rparr>)"
    using d f0 by (auto simp: entry6_def defrag6_create_def upd_tunnel_def)
  have k: "key6 t (sub b 0 48) = key6 t b" using len by (simp add: key6_sub)
  have "frag6_inv s1"
    using inv fs fresh new(1) len by (auto simp: frag6_inv_def chain_ok_def)
  then show ?thesis
    using fs fresh True S cut hdr len k by (simp add: only_entry_def dgram_entry_def)
next
  case False
  then obtain f' e where h: "held6 (key6 t b) s = {f'}" "frags s f' = Some e" "dgram_entry IP6FLEN P fs S H e"
    using col by (auto simp: collected_def)
  then have f: "f' \<in> set (frags6 s)" "entry_key6 (fragof s f') = key6 t b" by (auto simp: held_def)
  then have nz: "f' \<noteq> 0" using inv unfolding frag6_inv_def by metis
  have "find6 t b s = f'" using find6_held [OF inv, of t b f'] h(1) by simp
  then have s1: "f = f'" "s1 = s" using d nz by (auto simp: entry6_def)
  have "entry_key6 e = key6 t b" using f(2) h(2) by (simp add: fragof_def)
  then show ?thesis using f h s1 inv by (simp add: only_refl)
qed

lemma frag_add_inv6:
  assumes inv: "frag6_inv s" and f: "f \<in> set (frags6 s)"
    and len: "length hdr = IP6FLEN" "length (f_buf np) = f_len np" and a: "frag_add mem r f np hdr s = (res, s')"
  shows "frag6_inv s'"
proof -
  note q = frag_add_queues [OF a]
  obtain e where e: "frags s f = Some e" "length (f_buf e) = IP6FLEN" "chain_ok (f_list e)"
    using inv f by (auto simp: frag6_inv_def)
  have "\<exists>e'. frags s' f = Some e' \<and> length (f_buf e') = IP6FLEN \<and> chain_ok (f_list e')"
    using a e len frag_insert_chain_ok [OF e(3), of np]
    by (auto simp: frag_add_def Let_def upd_frag_frags fragof_def split: option.splits if_splits)
  then have "\<exists>e'. frags s' g = Some e' \<and> length (f_buf e') = IP6FLEN \<and> chain_ok (f_list e')" if "g \<in> set (frags6 s)" for g
    using q(5) [of g] inv that by (cases "g = f") (auto simp: frag6_inv_def)
  then show ?thesis using inv q(3,4) by (simp add: frag6_inv_def)
qed

lemma frag6_inv_stat_drop [simp]: "frag6_inv (stat_drop r s) = frag6_inv s"
  by (simp add: frag6_inv_def) (simp add: stat_drop_def emit_def)

lemma del_frag6_gone:
  assumes "frag6_inv s" "f \<in> set (frags6 s)"
  shows "only_entry frags6 f s (del_frag6 f s) \<and> f \<notin> set (frags6 (del_frag6 f s)) \<and> frag6_inv (del_frag6 f s)"
proof -
  have "frags6 (del_frag6 f s) = remove1 f (frags6 s)" "frags (del_frag6 f s) = (frags s)(f := None)"
    "frags6cnt (del_frag6 f s) = isc_decr (frags6cnt s)"
    by (simp_all add: del_frag6_def Let_def upd_tunnel_def)
  then show ?thesis
    using assms
    by (auto simp: only_entry_def frag6_inv_def set_remove1_eq length_remove1 isc_decr_def distinct_remove1 dest: notin_set_remove1)
qed

lemma defrag6_store_collects:
  assumes a: "frag_add mem DR_F6CNT f (frag_piece6 b len) (sub b 0 IP6FLEN) s1 = (r, s2)"
    and r: "r = (if C then Some (length P) else None)"
    and e: "C \<Longrightarrow> frags s2 f = Some e \<and> is_cut P (f_list e) \<and> f_buf e = H \<and> length H = IP6FLEN"
    and len: "length P \<le> IPMAXLEN" "IP6HDRLEN + length P \<le> length b"
    and d: "defrag6_store mem f b (len - IP6FLEN) s1 = (res, s')"
  shows "if C then s' = del_frag6 f s2 \<and>
       (\<exists>c. res = Some (c, length P + IP6HDRLEN) \<and> sub c IP6HDRLEN (length P) = P \<and>
          be16 (c ! IP6LENH) (c ! IP6LENL) = int (length P) \<and> c ! IP6PROTO = H ! IP6FPROTO \<and>
          (\<forall>i < IP6HDRLEN. i \<notin> {IP6LENH, IP6LENL, IP6PROTO} \<longrightarrow> c ! i = H ! i))
     else res = None \<and> s' = s2"
proof (cases C)
  case True
  note e = e [OF True]
  have st: "res = Some (rebuild6 e (length P) b, length P + IP6HDRLEN)" "s' = del_frag6 f s2"
    using d a r True len e by (auto simp: defrag6_store_def frag_piece6_def fragof_def)
  have "is_cut P (f_list e)" "length (f_buf e) = IP6FLEN" using e by simp_all
  from rebuild6_ok [OF this len] e st True show ?thesis by (simp add: Let_def)
qed (use d a r in \<open>auto simp: defrag6_store_def frag_piece6_def\<close>)

text \<open>
  Claim C9: the refinement of IPv6 reassembly to sets of pieces. As for IPv4, the key being the
  tunnel, the next header and the identification: a call of defrag6 with a fragment of a
  datagram of which pieces are missing stores it when the counts leave room and no malloc
  fails; when it is the last missing one, the datagram is returned, with the header of the fragment
  at offset 0 less its fragment header (whose next header becomes that of the packet), the length
  set and the payload behind it, and the entry is gone. In every case the queue stays
  consistent, and what is collected of every other datagram is what it was.
\<close>

theorem defrag6_collects:
  assumes inv: "frag6_inv s" and new: "new \<noteq> 0" "frags s new = None"
    and cut: "is_cut P fs" and col: "collected6 (key6 t buf6) P fs H S s" and miss: "\<not> set fs \<subseteq> S"
    and g: "frag_piece6 buf6 len \<in> set fs" "frag_off6 buf6 = 0 \<longrightarrow> sub buf6 0 IP6FLEN = H"
      "frag_more6 buf6 \<longrightarrow> 8 dvd (len - IP6FLEN)"
    and len: "length P \<le> IPMAXLEN" "IP6HDRLEN + length P \<le> length buf6"
    and run: "defrag6 cfg mem new t buf6 len s = (res, s')"
  shows "frag6_inv s' \<and> others frags6 entry_key6 (key6 t buf6) s s' \<and>
    (if \<not> (room6 cfg t s \<and> (held6 (key6 t buf6) s \<noteq> {} \<or> mem 0 \<and> mem 1) \<and> mem 2 \<and> mem 3)
     then res = None \<and> collected6 (key6 t buf6) P fs H S s'
     else if set fs \<subseteq> insert (frag_piece6 buf6 len) S
     then held6 (key6 t buf6) s' = {} \<and>
       (\<exists>b. res = Some (b, length P + IP6HDRLEN) \<and> sub b IP6HDRLEN (length P) = P \<and>
          be16 (b ! IP6LENH) (b ! IP6LENL) = int (length P) \<and> b ! IP6PROTO = H ! IP6FPROTO \<and>
          (\<forall>i < IP6HDRLEN. i \<notin> {IP6LENH, IP6LENL, IP6PROTO} \<longrightarrow> b ! i = H ! i))
     else res = None \<and> collected6 (key6 t buf6) P fs H (insert (frag_piece6 buf6 len) S) s')"
proof (cases "room6 cfg t s \<and> (held6 (key6 t buf6) s \<noteq> {} \<or> mem 0 \<and> mem 1)")
  case False
  have "find6 t buf6 s = 0" if "held6 (key6 t buf6) s = {}" using find6_held [OF inv] that by simp
  then have "\<exists>r. defrag6 cfg mem new t buf6 len s = (None, stat_drop r s)"
    using False inv
    by (cases "defrag6_limit cfg t s")
      (auto simp: defrag6_unfold room6_def defrag6_limit_def frag6_inv_def not_less split: if_splits)
  then obtain r where "res = None" "s' = stat_drop r s" using run by auto
  moreover have "frags6 (stat_drop r s) = frags6 s" by (simp add: stat_drop_def emit_def)
  ultimately show ?thesis using False inv col by auto
next
  case True
  let ?k = "key6 t buf6"
  have glen: "IP6FLEN < len" "len \<le> length buf6"
    using cut_pos [OF cut g(1)] cut_len [OF cut g(1)] by (auto simp: frag_piece6_def sub_def min_def split: if_splits)
  then have l48: "IP6FLEN \<le> length buf6" by simp
  obtain f s1 where d: "entry6 cfg new t buf6 s = (f, s1)" by fastforce
  note en = entry6_collected [OF inv new l48 cut g(2) col d]
  obtain e where e: "frags s1 f = Some e" "entry_key6 e = ?k" "dgram_entry IP6FLEN P fs S H e"
    using en by blast
  have fnd: "\<not> (find6 t buf6 s = 0 \<and> \<not> (mem 0 \<and> mem 1))"
  proof
    assume "find6 t buf6 s = 0 \<and> \<not> (mem 0 \<and> mem 1)"
    moreover from this have "held6 ?k s \<noteq> {}" using True by blast
    moreover from this obtain g where "held6 ?k s = {g}" using col by (auto simp: collected_def)
    moreover from this have "g \<in> set (frags6 s)" by (auto simp: held_def)
    ultimately show False using find6_held [OF inv, of t buf6 g] inv unfolding frag6_inv_def by auto
  qed
  have lim: "defrag6_limit cfg t s = None"
    using True inv by (auto simp: room6_def defrag6_limit_def frag6_inv_def)
  have st: "defrag6_store (mem 2 \<and> mem 3) f buf6 (len - IP6FLEN) s1 = (res, s')"
    using run lim g(3) fnd d by (auto simp: defrag6_unfold Let_def and_7 dvd_eq_mod_eq_0)
  obtain r s2 where a: "frag_add (mem 2 \<and> mem 3) DR_F6CNT f (frag_piece6 buf6 len) (sub buf6 0 IP6FLEN) s1 = (r, s2)"
    by fastforce
  have kk: "\<forall>e'. f_tunnel e' = f_tunnel e \<and> (f_buf e' = f_buf e \<or> f_buf e' = sub buf6 0 IP6FLEN) \<longrightarrow> entry_key6 e' = ?k"
    using e(2) key6_sub [OF l48, of t] by (auto simp: key6_def)
  have g0: "f_off (frag_piece6 buf6 len) = 0 \<longrightarrow> sub buf6 0 IP6FLEN = H" "length (sub buf6 0 IP6FLEN) = IP6FLEN"
    using g(2) l48 by (simp_all add: frag_piece6_def)
  have q: "only_entry frags6 f s s1" "f \<in> set (frags6 s1)" "f \<in> set (frags6 s) \<longrightarrow> entry_key6 (fragof s f) = ?k"
    "held6 ?k s \<subseteq> {f}" "frag6_inv s1" using en by blast+
  note fa = frag_add_collects [where q = frags6 and key = entry_key6 and k = ?k, OF q(1-4) e kk frag_add_queues(3) [OF a] g(1) g0 miss a]
  have i2: "frag6_inv s2" using frag_add_inv6 [OF q(5,2) g0(2) _ a] cut_len [OF cut g(1)] by simp
  obtain e' where e': "frags s2 f = Some e'" "entry_key6 e' = ?k"
    "dgram_entry IP6FLEN P fs (if mem 2 \<and> mem 3 then insert (frag_piece6 buf6 len) S else S) H e'" using fa by blast
  let ?C = "(mem 2 \<and> mem 3) \<and> set fs \<subseteq> insert (frag_piece6 buf6 len) S"
  have whole: "frags s2 f = Some e' \<and> is_cut P (f_list e') \<and> f_buf e' = H \<and> length H = IP6FLEN" if ?C
    using e' that dgram_entry_whole [of IP6FLEN P fs _ H e'] by auto
  have r: "r = (if ?C then Some (length P) else None)" using fa by simp
  note res = defrag6_store_collects [OF a r whole len st]
  show ?thesis
  proof (cases ?C)
    case True
    have s': "s' = del_frag6 f s2" using res True by simp
    have dg: "only_entry frags6 f s2 s'" "f \<notin> set (frags6 s')" "frag6_inv s'"
      using del_frag6_gone [OF i2] fa s' by blast+
    have o: "only_entry frags6 f s s'" using only_trans [OF _ dg(1)] fa by blast
    have fk: "f \<in> set (frags6 s) \<Longrightarrow> entry_key6 (fragof s f) = ?k" using q(3) by blast
    have "held6 ?k s' = {}"
      using held_only(1) [where key = entry_key6 and k = ?k, OF o fk] dg(2) q(4) by auto
    moreover have "others frags6 entry_key6 ?k s s'"
      using held_only(2) [where key = entry_key6 and k = ?k, OF o fk] dg(2) by blast
    ultimately show ?thesis using True \<open>room6 cfg t s \<and> _\<close> res dg(3) by simp
  next
    case False
    then have "res = None" "s' = s2" using res by simp_all
    then show ?thesis using False \<open>room6 cfg t s \<and> _\<close> fa i2 by (auto split: if_splits)
  qed
qed

section \<open>Two datagrams\<close>

text \<open>An address that is free stays free, but for the one malloc returned.\<close>

lemma only_fresh: "only_entry q f s s1 \<Longrightarrow> frags s g = None \<Longrightarrow> g \<noteq> f \<Longrightarrow> frags s1 g = None"
  by (simp add: only_entry_def)

lemma defrag_store_fresh:
  assumes "g \<noteq> f" "frags s g = None"
  shows "frags (snd (defrag_store mem f b len s)) g = None"
proof -
  obtain r s' where a: "frag_add mem DR_F4MEM f \<lparr>f_buf = sub b IPHDRLEN len, f_len = len, f_off = frag_off4 b,
      f_more = frag_more4 b\<rparr> (sub b 0 IPHDRLEN) s = (r, s')" by fastforce
  have "frags s' g = None" using frag_add_queues(5) [OF a assms(1)] assms(2) by simp
  then show ?thesis
    using a assms(1)
    by (auto simp: defrag_store_def del_frag4_def Let_def upd_tunnel_def split: option.split)
qed

lemma defrag_fresh:
  assumes inv: "frag_inv s" and g: "g \<noteq> new" "g \<noteq> 0" "frags s g = None"
  shows "frags (snd (defrag cfg mem new t b len s)) g = None"
proof -
  obtain f s1 where d: "defrag_entry cfg new t b s = (f, s1)" by fastforce
  have "f = new \<or> f \<in> set (fragsin s @ fragsout s)"
    using d defrag_find_ok [OF inv, of t b] by (auto simp: defrag_entry_def Let_def split: if_splits)
  then have gf: "g \<noteq> f"
    using g inv unfolding frag_inv_def entry4_ok_def by (metis option.distinct(1))
  then have "frags s1 g = None"
    using d g by (auto simp: defrag_entry_def defrag_create_def Let_def upd_frag_def upd_tunnel_def split: if_splits)
  with d gf g(3) defrag_store_fresh [OF gf] show ?thesis
    by (auto simp: defrag_def Let_def split: option.split)
qed

text \<open>A queue that was empty holds the entry of one datagram after a call for it.\<close>

lemma held_one:
  assumes f: "held q key k s = {f}" and o: "others q key k s0 s" and none: "q s0 = []"
  shows "set (q s) \<subseteq> {f}"
proof
  fix x assume "x \<in> set (q s)"
  then have x: "x \<in> held q key (key (fragof s x)) s" by (simp add: held_def)
  have "key (fragof s x) = k"
  proof (rule ccontr)
    assume "key (fragof s x) \<noteq> k"
    then have "held q key (key (fragof s x)) s = held q key (key (fragof s x)) s0"
      using o unfolding others_def by blast
    moreover have "held q key (key (fragof s x)) s0 = {}" using none by (simp add: held_def)
    ultimately show False using x by (metis empty_iff)
  qed
  with x f show "x \<in> {f}" by metis
qed

text \<open>The two fragments of a datagram of nine bytes, in buffers of the size of the code's.\<close>

definition two_a :: bytes where
  "two_a = (replicate 20 0)[6 := 0x20] @ [1, 2, 3, 4, 5, 6, 7, 8] @ replicate 65507 0"

definition two_b :: bytes where
  "two_b = (replicate 20 0)[7 := 1] @ [9] @ replicate 65514 0"

lemma two_pieces:
  "frag_piece4 two_a 28 = \<lparr>f_buf = [1, 2, 3, 4, 5, 6, 7, 8], f_len = 8, f_off = 0, f_more = True\<rparr>"
  "frag_piece4 two_b 21 = \<lparr>f_buf = [9], f_len = 1, f_off = 8, f_more = False\<rparr>"
  by (simp_all add: frag_piece4_def frag_off4_def frag_more4_def two_a_def two_b_def nth_append sub_def be16_eq nth_list_update)

lemma two_facts:
  "is_cut [1, 2, 3, 4, 5, 6, 7, 8, 9] [frag_piece4 two_a 28, frag_piece4 two_b 21]"
  "key4 0 two_b = key4 0 two_a" "frag_off4 two_a = 0" "frag_off4 two_b \<noteq> 0"
  "frag_more4 two_a" "\<not> frag_more4 two_b" "length two_a = 65535" "length two_b = 65535"
  "frag_piece4 two_a 28 \<noteq> frag_piece4 two_b 21"
  unfolding two_pieces
  by (simp_all add: key4_def frag_off4_def frag_more4_def two_a_def two_b_def nth_append sub_def be16_eq nth_list_update
      drop_update_swap take_update_cancel)

theorem defrag_collects_witness:
  "\<exists>s1 b s2. defrag default_config (\<lambda>i. True) 5 0 two_b 21 aftr0 = (None, s1) \<and>
     defrag default_config (\<lambda>i. True) 6 0 two_a 28 s1 = (Some (b, 29), s2) \<and>
     sub b 20 9 = [1, 2, 3, 4, 5, 6, 7, 8, 9] \<and> in_cksum b 20 = 0 \<and> held4 (key4 0 two_a) s2 = {}"
proof -
  let ?P = "[1, 2, 3, 4, 5, 6, 7, 8, 9] :: bytes" and ?fs = "[frag_piece4 two_a 28, frag_piece4 two_b 21]"
    and ?k = "key4 0 two_a" and ?H = "sub two_a 0 20"
  obtain r1 s1 where d1: "defrag default_config (\<lambda>i. True) 5 0 two_b 21 aftr0 = (r1, s1)" by fastforce
  have inv0: "frag_inv aftr0" "frags aftr0 g = None" "queue4 aftr0 = []" for g
    by (simp_all add: frag_inv_def aftr0_def queue4_def)
  then have h0: "held4 k aftr0 = {}" for k by (simp add: held_def)
  have prems: "collected4 (key4 0 two_b) ?P ?fs ?H {} aftr0" "\<not> set ?fs \<subseteq> {}" "frag_piece4 two_b 21 \<in> set ?fs"
    "frag_off4 two_b = 0 \<longrightarrow> sub two_b 0 IPHDRLEN = ?H" "frag_more4 two_b \<longrightarrow> 8 dvd (21 - IPHDRLEN :: nat)"
    "IPHDRLEN + length ?P \<le> IPMAXLEN" "IPMAXLEN \<le> length two_b"
    using h0 two_facts by (simp_all add: collected_def)
  have room: "room4 default_config 0 aftr0" by (simp add: room4_def aftr0_def default_config_def)
  have five: "(5 :: nat) \<noteq> 0" "(6 :: nat) \<noteq> 0" by simp_all
  note st1 = defrag_collects [OF inv0(1) five(1) inv0(2) two_facts(1) prems d1]
  have "\<not> \<not> (room4 default_config 0 aftr0 \<and> (held4 (key4 0 two_b) aftr0 \<noteq> {} \<or> True \<and> True) \<and> True \<and> True)"
    using room by blast
  note st1 = st1 [unfolded if_not_P [OF this]]
  have "\<not> set ?fs \<subseteq> insert (frag_piece4 two_b 21) {}" using two_facts(9) by auto
  note st1 = st1 [unfolded if_not_P [OF this] two_facts(2)]
  have step1: "r1 = None" "frag_inv s1" "collected4 ?k ?P ?fs ?H {frag_piece4 two_b 21} s1" "others queue4 entry_key4 ?k aftr0 s1"
    using st1 by blast+
  then obtain f where f: "held4 ?k s1 = {f}" by (auto simp: collected_def)
  have "set (queue4 s1) \<subseteq> {f}" using held_one [OF f step1(4) inv0(3)] .
  moreover have "distinct (queue4 s1)" using step1(2) by (simp add: frag_inv_def queue4_def)
  ultimately have "length (queue4 s1) \<le> 1"
    using card_mono [of "{f}" "set (queue4 s1)"] distinct_card [of "queue4 s1"] by simp
  then have room1: "room4 default_config 0 s1" by (simp add: room4_def queue4_def default_config_def)
  have fresh: "frags s1 6 = None" using defrag_fresh [OF inv0(1), of 6 5] inv0(2) d1 by (metis snd_conv num.distinct(5) numeral_eq_iff zero_neq_numeral)
  obtain r2 s2 where d2: "defrag default_config (\<lambda>i. True) 6 0 two_a 28 s1 = (r2, s2)" by fastforce
  have prems2: "\<not> set ?fs \<subseteq> {frag_piece4 two_b 21}" "frag_piece4 two_a 28 \<in> set ?fs"
    "frag_off4 two_a = 0 \<longrightarrow> sub two_a 0 IPHDRLEN = ?H" "frag_more4 two_a \<longrightarrow> 8 dvd (28 - IPHDRLEN :: nat)"
    "IPHDRLEN + length ?P \<le> IPMAXLEN" "IPMAXLEN \<le> length two_a"
    using two_facts by simp_all
  note st2 = defrag_collects [OF step1(2) five(2) fresh two_facts(1) step1(3) prems2 d2]
  have "\<not> \<not> (room4 default_config 0 s1 \<and> (held4 ?k s1 \<noteq> {} \<or> True \<and> True) \<and> True \<and> True)"
    using room1 by blast
  note st2 = st2 [unfolded if_not_P [OF this]]
  have "set ?fs \<subseteq> insert (frag_piece4 two_a 28) {frag_piece4 two_b 21}" by simp
  note st2 = st2 [unfolded if_P [OF this]]
  have l: "length ?P = 9" "(9 :: nat) + 20 = 29" by simp_all
  have "held4 ?k s2 = {} \<and> (\<exists>b. r2 = Some (b, 29) \<and> sub b 20 9 = ?P \<and> in_cksum b 20 = 0)"
    using st2 [unfolded l] by blast
  then show ?thesis using d1 d2 step1(1) by blast
qed

text \<open>The same for IPv6, where the count of the tunnel grows by one at most.\<close>

lemma frag_add_tunnels: "frag_add mem r f np hdr s = (res, s') \<Longrightarrow> tunnels s' = tunnels s"
  by (auto simp: frag_add_def Let_def upd_frag_def stat_drop_def emit_def split: option.splits if_splits)

lemma defrag6_store_frame:
  assumes g: "g \<noteq> f" "frags s g = None" and T: "tunnels s t = Some T" "t_frg6cnt T \<le> 1"
  shows "frags (snd (defrag6_store mem f b len s)) g = None \<and>
    t_frg6cnt (tunof (snd (defrag6_store mem f b len s)) t) \<le> 1"
proof -
  obtain r s' where a: "frag_add mem DR_F6CNT f \<lparr>f_buf = sub b IP6FLEN len, f_len = len, f_off = frag_off6 b,
      f_more = frag_more6 b\<rparr> (sub b 0 IP6FLEN) s = (r, s')" by fastforce
  have s': "frags s' g = None" "tunnels s' t = Some T"
    using frag_add_queues(5) [OF a g(1)] g(2) frag_add_tunnels [OF a] T(1) by simp_all
  have "isc_decr_u8 c \<le> c" for c
    using measure_unat [of c] by (auto simp: isc_decr_u8_def word_le_nat_alt intro: less_imp_le)
  then have "c \<le> 1 \<Longrightarrow> isc_decr_u8 c \<le> 1" for c using order_trans by blast
  then show ?thesis
    using a g(1) s' T(2)
    by (auto simp: defrag6_store_def del_frag6_def Let_def upd_tunnel_def tunof_def stat_drop_def emit_def split: option.split)
qed

lemma defrag6_frame:
  assumes inv: "frag6_inv s" and g: "g \<noteq> new" "g \<noteq> 0" "frags s g = None"
    and T: "tunnels s t = Some T" "t_frg6cnt T = 0"
  shows "frags (snd (defrag6 cfg mem new t b len s)) g = None \<and>
    t_frg6cnt (tunof (snd (defrag6 cfg mem new t b len s)) t) \<le> 1"
proof -
  obtain f s1 where d: "entry6 cfg new t b s = (f, s1)" by fastforce
  have "f = new \<or> f \<in> set (frags6 s)"
    using d by (auto simp: entry6_def find6_def find_Some_iff split: if_splits option.splits)
  then have gf: "g \<noteq> f"
    using g inv unfolding frag6_inv_def by (metis option.distinct(1))
  have "frags s1 g = None" "\<exists>T1. tunnels s1 t = Some T1 \<and> t_frg6cnt T1 \<le> 1"
    using d g T by (auto simp: entry6_def defrag6_create_def upd_tunnel_def split: if_splits)
  then show ?thesis
    using d gf g(3) T defrag6_store_frame [OF gf]
    by (auto simp: defrag6_unfold Let_def tunof_def split: option.split) (auto simp: stat_drop_def emit_def)
qed

definition six_tunnel :: tunnel where
  "six_tunnel = \<lparr>t_remote = replicate 16 1, t_flags = 0, t_frg6cnt = 0, t_frg4cnt = 0, t_mtu = 1460,
     t_hash = 0, t_tnat_root = (\<lambda>pr. Leaf), t_srcidx = 0, t_tnatcnt = (\<lambda>pr. 0), t_lastnat = 0, t_tnatrt = (\<lambda>pr. 0),
     t_avail = (\<lambda>pr. 0), t_bucket = (\<lambda>pr. None), t_nnaddr = replicate 4 0, t_nnplen = 0, t_ngeneration = 0\<rparr>"

definition six_state :: aftr where
  "six_state = aftr0\<lparr>tunnels := [3 \<mapsto> six_tunnel]\<rparr>"

definition six_a :: bytes where
  "six_a = (replicate 48 0)[IP6FPROTO := IP6IP4, IP6FOFFL := 1] @ [1, 2, 3, 4, 5, 6, 7, 8] @ replicate 64 0"

definition six_b :: bytes where
  "six_b = (replicate 48 0)[IP6FPROTO := IP6IP4, IP6FOFFL := 8] @ [9] @ replicate 71 0"

lemma six_pieces:
  "frag_piece6 six_a 56 = \<lparr>f_buf = [1, 2, 3, 4, 5, 6, 7, 8], f_len = 8, f_off = 0, f_more = True\<rparr>"
  "frag_piece6 six_b 49 = \<lparr>f_buf = [9], f_len = 1, f_off = 8, f_more = False\<rparr>"
  by (simp_all add: frag_piece6_def frag_off6_def frag_more6_def six_a_def six_b_def nth_append sub_def be16_eq nth_list_update)

lemma six_facts:
  "is_cut [1, 2, 3, 4, 5, 6, 7, 8, 9] [frag_piece6 six_a 56, frag_piece6 six_b 49]"
  "key6 3 six_b = key6 3 six_a" "frag_off6 six_a = 0" "frag_off6 six_b \<noteq> 0"
  "frag_more6 six_a" "\<not> frag_more6 six_b" "length six_a = 120" "length six_b = 120"
  "frag_piece6 six_a 56 \<noteq> frag_piece6 six_b 49"
  unfolding six_pieces
  by (simp_all add: key6_def frag_off6_def frag_more6_def six_a_def six_b_def nth_append sub_def be16_eq nth_list_update
      drop_update_swap take_update_cancel)

theorem defrag6_collects_witness:
  "\<exists>s1 b s2. defrag6 default_config (\<lambda>i. True) 5 3 six_b 49 six_state = (None, s1) \<and>
     defrag6 default_config (\<lambda>i. True) 6 3 six_a 56 s1 = (Some (b, 49), s2) \<and>
     sub b 40 9 = [1, 2, 3, 4, 5, 6, 7, 8, 9] \<and> b ! IP6PROTO = IP6IP4 \<and> held6 (key6 3 six_a) s2 = {}"
proof -
  let ?P = "[1, 2, 3, 4, 5, 6, 7, 8, 9] :: bytes" and ?fs = "[frag_piece6 six_a 56, frag_piece6 six_b 49]"
    and ?k = "key6 3 six_a" and ?H = "sub six_a 0 48"
  obtain r1 s1 where d1: "defrag6 default_config (\<lambda>i. True) 5 3 six_b 49 six_state = (r1, s1)" by fastforce
  have inv0: "frag6_inv six_state" "frags six_state g = None" "frags6 six_state = []"
    "tunnels six_state 3 = Some six_tunnel" "t_frg6cnt six_tunnel = 0" for g
    by (simp_all add: frag6_inv_def aftr0_def six_state_def six_tunnel_def)
  then have h0: "held6 k six_state = {}" for k by (simp add: held_def)
  have five: "(5 :: nat) \<noteq> 0" "(6 :: nat) \<noteq> 0" "(6 :: nat) \<noteq> 5" by simp_all
  have prems: "collected6 (key6 3 six_b) ?P ?fs ?H {} six_state" "\<not> set ?fs \<subseteq> {}" "frag_piece6 six_b 49 \<in> set ?fs"
    "frag_off6 six_b = 0 \<longrightarrow> sub six_b 0 IP6FLEN = ?H" "frag_more6 six_b \<longrightarrow> 8 dvd (49 - IP6FLEN :: nat)"
    "length ?P \<le> IPMAXLEN" "IP6HDRLEN + length ?P \<le> length six_b"
    using h0 six_facts by (simp_all add: collected_def)
  have room: "room6 default_config 3 six_state"
    using inv0 by (simp add: room6_def default_config_def tunof_def)
  note st1 = defrag6_collects [OF inv0(1) five(1) inv0(2) six_facts(1) prems d1]
  have "\<not> \<not> (room6 default_config 3 six_state \<and> (held6 (key6 3 six_b) six_state \<noteq> {} \<or> True \<and> True) \<and> True \<and> True)"
    using room by blast
  note st1 = st1 [unfolded if_not_P [OF this]]
  have "\<not> set ?fs \<subseteq> insert (frag_piece6 six_b 49) {}" using six_facts(9) by auto
  note st1 = st1 [unfolded if_not_P [OF this] six_facts(2)]
  have step1: "r1 = None" "frag6_inv s1" "collected6 ?k ?P ?fs ?H {frag_piece6 six_b 49} s1" "others frags6 entry_key6 ?k six_state s1"
    using st1 by blast+
  then obtain f where f: "held6 ?k s1 = {f}" by (auto simp: collected_def)
  have "length (frags6 s1) \<le> 1"
    using held_one [OF f step1(4) inv0(3)] step1(2) card_mono [of "{f}" "set (frags6 s1)"] distinct_card [of "frags6 s1"]
    by (simp add: frag6_inv_def)
  moreover have fr: "frags s1 6 = None" "t_frg6cnt (tunof s1 3) \<le> 1"
    using defrag6_frame [OF inv0(1) five(3,2) inv0(2) inv0(4,5)] d1 by (metis snd_conv)+
  moreover have "(1 :: u8) < 16" by simp
  ultimately have room1: "room6 default_config 3 s1"
    by (simp add: room6_def default_config_def le_less_trans)
  obtain r2 s2 where d2: "defrag6 default_config (\<lambda>i. True) 6 3 six_a 56 s1 = (r2, s2)" by fastforce
  have prems2: "\<not> set ?fs \<subseteq> {frag_piece6 six_b 49}" "frag_piece6 six_a 56 \<in> set ?fs"
    "frag_off6 six_a = 0 \<longrightarrow> sub six_a 0 IP6FLEN = ?H" "frag_more6 six_a \<longrightarrow> 8 dvd (56 - IP6FLEN :: nat)"
    "length ?P \<le> IPMAXLEN" "IP6HDRLEN + length ?P \<le> length six_a"
    using six_facts by simp_all
  note st2 = defrag6_collects [OF step1(2) five(2) fr(1) six_facts(1) step1(3) prems2 d2]
  have "\<not> \<not> (room6 default_config 3 s1 \<and> (held6 ?k s1 \<noteq> {} \<or> True \<and> True) \<and> True \<and> True)"
    using room1 by blast
  note st2 = st2 [unfolded if_not_P [OF this]]
  have "set ?fs \<subseteq> insert (frag_piece6 six_a 56) {frag_piece6 six_b 49}" by simp
  note st2 = st2 [unfolded if_P [OF this]]
  have l: "length ?P = 9" "(9 :: nat) + 40 = 49" by simp_all
  have "?H ! IP6FPROTO = IP6IP4" by (simp add: nth_sub six_a_def nth_append nth_list_update)
  with st2 [unfolded l] have "held6 ?k s2 = {} \<and> (\<exists>b. r2 = Some (b, 49) \<and> sub b 40 9 = ?P \<and> b ! IP6PROTO = IP6IP4)"
    by metis
  then show ?thesis using d1 d2 step1(1) by blast
qed

end
