(* ===== verification/Aftr_Encap.thy ===== *)
theory Aftr_Encap
  imports Aftr_Frag
begin

text \<open>
  Encapsulation of an IPv4 packet into IPv6 (encap), with its two ways to cut a packet that
  does not fit in the tunnel MTU, and toobigout, the ICMPv4 error for a packet that must not
  be cut. A u_int is a natural number; \<open>usub32\<close> is its wrapping subtraction.
\<close>

section \<open>Operations\<close>

definition usub32 :: "nat \<Rightarrow> nat \<Rightarrow> nat" where
  "usub32 a b = (if b \<le> a then a - b else a + 2 ^ 32 - b)"

text \<open>\<open>x & ~7\<close> and \<open>(x + 7) & ~7\<close>.\<close>

definition align8 :: "nat \<Rightarrow> nat" where
  "align8 x = x div 8 * 8"

definition align8up :: "nat \<Rightarrow> nat" where
  "align8up x = align8 ((x + 7) mod 2 ^ 32)"

text \<open>A 32-bit value as memcpy lays it out (little-endian host).\<close>

definition le_bytes32 :: "u32 \<Rightarrow> bytes" where
  "le_bytes32 w = [ucast w, ucast (drop_bit 8 w), ucast (drop_bit 16 w), ucast (drop_bit 24 w)]"

text \<open>The sizes of the first and of the intermediate fragments in eqfrag mode.\<close>

definition encap_nfrag :: "nat \<Rightarrow> nat \<Rightarrow> nat" where
  "encap_nfrag fmtu len = (let nfrag = len div fmtu in if len mod fmtu \<noteq> 0 then nfrag + 1 else nfrag)"

definition encap_sizes :: "nat \<Rightarrow> nat \<Rightarrow> nat \<times> nat" where
  "encap_sizes mtu len =
     (let fmtu = align8 (usub32 mtu IP6FLEN);
          nfrag = encap_nfrag fmtu len;
          fleno = align8 (len div nfrag);
          flen0 = align8up (usub32 len (fleno * (nfrag - 1)));
          (flen0, fleno) =
            (if flen0 > fmtu
             then let fleno = fleno + 8 in (align8up (usub32 len (fleno * (nfrag - 1))), fleno)
             else (flen0, fleno))
      in (if flen0 < fleno then fleno else flen0, fleno))"

text \<open>The size of the fragment at \<open>off\<close>.\<close>

definition encap_flen :: "bool \<Rightarrow> nat \<Rightarrow> nat \<Rightarrow> nat \<times> nat \<Rightarrow> nat \<Rightarrow> nat" where
  "encap_flen eq mtu len sizes off =
     (let flen = len - off
      in if flen > usub32 mtu IP6FLEN
         then if eq then (if off = 0 then fst sizes else snd sizes)
              else align8 (usub32 mtu IP6FLEN)
         else flen)"

text \<open>The IPv6 header both ways share, then with the fragment header.\<close>

definition encap_hdr :: "bytes \<Rightarrow> bytes \<Rightarrow> u8 \<Rightarrow> bytes" where
  "encap_hdr src dst proto =
     (let b = (replicate IP6HDRLEN 0)[0 := IP6V, IP6PROTO := proto, IP6TTL := 64];
          b = put b IP6SRC src
      in put b IP6DST dst)"

definition encap_fraghdr :: "bytes \<Rightarrow> bytes \<Rightarrow> u32 \<Rightarrow> bytes" where
  "encap_fraghdr src dst ident =
     encap_hdr src dst IP6FRAG @ [IP6IP4, 0, 0, 0] @ le_bytes32 ident"

text \<open>One fragment as it is written.\<close>

definition encap_frag :: "bytes \<Rightarrow> bytes \<Rightarrow> nat \<Rightarrow> nat \<Rightarrow> nat \<Rightarrow> bytes" where
  "encap_frag hdr buf4 len off flen =
     (let b = hdr[IP6FOFFH := hi8 (int off), IP6FOFFL := word_of_int (int off) AND IP6FMSK];
          b = (if flen + off < len then b[IP6FOFFL := b ! IP6FOFFL OR IP6FMF] else b);
          b = b[IP6LENH := hi8 (int (flen + 8)), IP6LENL := lo8 (int (flen + 8))]
      in b @ sub buf4 off flen)"

text \<open>
  The loop over the fragments. \<open>wok off\<close> tells whether the write of the fragment at \<open>off\<close>
  succeeds; the loop stops at the first that does not. A size 0 would never end.
\<close>

partial_function (option) encap_loop ::
  "(nat \<Rightarrow> bool) \<Rightarrow> (nat \<Rightarrow> nat) \<Rightarrow> bytes \<Rightarrow> bytes \<Rightarrow> nat \<Rightarrow> nat \<Rightarrow> aftr \<Rightarrow> aftr option" where
  "encap_loop wok sz hdr buf4 len off s =
     (if off < len
      then let flen = sz off; s = emit (Write6 (encap_frag hdr buf4 len off flen)) s
           in if \<not> wok off then Some s else encap_loop wok sz hdr buf4 len (off + flen) s
      else Some s)"

definition encap ::
  "config \<Rightarrow> (nat \<Rightarrow> bool) \<Rightarrow> tid \<Rightarrow> bytes \<Rightarrow> nat \<Rightarrow> aftr \<Rightarrow> aftr option" where
  "encap cfg wok t buf4 len s =
     (let mtu = unat (t_mtu (tunof s t)); dst = t_remote (tunof s t)
      in if len + IP6HDRLEN \<le> mtu
         then let b = encap_hdr (local6 s) dst IP6IP4;
                  b = b[IP6LENH := hi8 (int len), IP6LENL := lo8 (int len)]
              in Some (emit (Write6 (b @ sub buf4 0 len)) s)
         else let (ident, rs) = arc4_getword (arc4 s);
                  hdr = encap_fraghdr (local6 s) dst ident;
                  sizes = (if eqfrag cfg then encap_sizes mtu len else (0, 0))
              in encap_loop wok (encap_flen (eqfrag cfg) mtu len sizes) hdr buf4 len 0
                   (s\<lparr>arc4 := rs\<rparr>))"

section \<open>The fragment sizes\<close>

lemma align8_le: "align8 x \<le> x" "x < align8 x + 8" "8 dvd align8 x"
  by (auto simp: align8_def)

lemma align8up_bounds: "x < 2 ^ 32 - 7 \<Longrightarrow> x \<le> align8up x \<and> align8up x < x + 8 \<and> 8 dvd align8up x"
  by (auto simp: align8up_def align8_def)

lemma align8up_least: "x < 2 ^ 32 - 7 \<Longrightarrow> x \<le> m \<Longrightarrow> 8 dvd m \<Longrightarrow> align8up x \<le> m"
  by (auto simp: align8up_def align8_def)

lemma encap_nfrag_bounds:
  "0 < fmtu \<Longrightarrow> fmtu < len \<Longrightarrow> 2 \<le> encap_nfrag fmtu len \<and> len \<le> encap_nfrag fmtu len * fmtu \<and>
     (encap_nfrag fmtu len - 1) * fmtu < len"
proof -
  assume a: "0 < fmtu" "fmtu < len"
  have d: "len = len div fmtu * fmtu + len mod fmtu" "len mod fmtu < fmtu" using a by simp_all
  have q: "1 \<le> len div fmtu" using a by (simp add: Suc_leI div_greater_zero_iff)
  show ?thesis
  proof (cases "len mod fmtu = 0")
    case True
    then have n: "encap_nfrag fmtu len = len div fmtu" by (simp add: encap_nfrag_def Let_def)
    have "len div fmtu \<noteq> 1" using d True a by auto
    then show ?thesis using d q n True a by (cases "len div fmtu") (auto simp: algebra_simps)
  next
    case False
    then have "encap_nfrag fmtu len = len div fmtu + 1" by (simp add: encap_nfrag_def Let_def)
    moreover have "len \<le> len div fmtu * fmtu + fmtu" "len div fmtu * fmtu < len" using d False by linarith+
    ultimately show ?thesis using q by simp
  qed
qed

lemma encap_sizes_ok:
  assumes mtu: "1280 \<le> mtu" "mtu < len + IP6HDRLEN" and len: "len \<le> 65535"
    and s: "encap_sizes mtu len = (flen0, fleno)"
  defines "fmtu \<equiv> align8 (mtu - IP6FLEN)" and "n \<equiv> encap_nfrag (align8 (mtu - IP6FLEN)) len"
  shows "8 dvd flen0 \<and> 8 dvd fleno \<and> 0 < fleno \<and> fleno \<le> flen0 \<and> flen0 \<le> fmtu \<and>
    len \<le> flen0 + fleno * (n - 1)"
proof -
  have us: "usub32 mtu IP6FLEN = mtu - IP6FLEN" using mtu by (simp add: usub32_def)
  have f: "1232 \<le> fmtu" "8 dvd fmtu" "fmtu < len"
    using mtu align8_le [of "mtu - IP6FLEN"] by (auto simp: fmtu_def align8_def)
  have n: "2 \<le> n" "len \<le> n * fmtu" "(n - 1) * fmtu < len"
    using encap_nfrag_bounds [of fmtu len] f by (simp_all add: n_def fmtu_def)
  have "(n - 1) * 1232 \<le> (n - 1) * fmtu" using f(1) by (rule mult_le_mono2)
  then have "(n - 1) * 1232 < 65535" using n(3) len by linarith
  then have n54: "n \<le> 54" by simp
  let ?q = "len div n" and ?f = "align8 (len div n)"
  have q: "?q * n \<le> len" "len < (?q + 1) * n" using n(1) by (simp, simp add: dividend_less_div_times)
  have qf: "?q \<le> fmtu" using n(2) by (metis div_le_mono nonzero_mult_div_cancel_left n(1) not_numeral_le_zero)
  have "1241 \<le> len" using mtu by simp
  have q616: "600 \<le> ?q"
  proof (cases "n = 2")
    case False
    then have "3 \<le> n" using n(1) by simp
    have "(n - 1) * 1232 \<le> (n - 1) * fmtu" using f(1) by (rule mult_le_mono2)
    then have "(n - 1) * 1232 < len" using n(3) by linarith
    then have "600 * n \<le> len" using \<open>3 \<le> n\<close> by simp
    then show ?thesis using n(1) by (simp add: less_eq_div_iff_mult_less_eq)
  qed (use \<open>1241 \<le> len\<close> in simp)
  have a: "?f \<le> ?q" "?q < ?f + 8" "8 dvd ?f" using align8_le by auto
  have fn: "?f * (n - 1) \<le> len"
    using a(1) q(1) n(1) by (meson diff_le_self mult_le_mono order_trans)
  let ?r = "len - ?f * (n - 1)"
  have r: "usub32 len (?f * (n - 1)) = ?r" using fn by (simp add: usub32_def)
  have rb: "?r < 2 ^ 32 - 7" using len by simp
  have sizes: "encap_sizes mtu len =
     (let (flen0, fleno) = (if align8up ?r > fmtu
         then (align8up (usub32 len ((?f + 8) * (n - 1))), ?f + 8) else (align8up ?r, ?f))
      in (if flen0 < fleno then fleno else flen0, fleno))"
    unfolding encap_sizes_def Let_def us fmtu_def [symmetric] n_def [folded fmtu_def, symmetric]
      r by (simp only: split_beta Let_def)
  show ?thesis
  proof (cases "align8up ?r > fmtu")
    case False
    have "?f \<le> align8up ?r"
    proof -
      have "?f * n \<le> len" using a(1) q(1) by (meson le_trans mult_le_mono1)
      then have "?f \<le> ?r" using n(1) by (cases n) (auto simp: algebra_simps)
      then show ?thesis using align8up_bounds [OF rb] by linarith
    qed
    then have "flen0 = align8up ?r" "fleno = ?f" using s sizes False by (auto simp: Let_def)
    moreover have "len \<le> align8up ?r + ?f * (n - 1)" using align8up_bounds [OF rb] fn by linarith
    ultimately show ?thesis
      using align8up_bounds [OF rb] a False q616 \<open>?f \<le> align8up ?r\<close> by auto
  next
    case True
    let ?g = "?f + 8"
    have rbig: "fmtu < ?r" using align8up_least [OF rb, of fmtu] f(2) True by linarith
    have gf: "?g \<le> fmtu"
    proof (rule ccontr)
      assume "\<not> ?g \<le> fmtu"
      then have "?f = fmtu" using a f(2) qf by (auto elim!: dvdE)
      then have "?r \<le> fmtu" using n(1,2) by (cases n) (auto simp: algebra_simps)
      then show False using rbig by simp
    qed
    have gn: "?g * (n - 1) \<le> len"
    proof -
      have "8 * (n - 1) \<le> 424" using n54 by simp
      moreover have "?g * (n - 1) = ?f * (n - 1) + 8 * (n - 1)" by (simp add: algebra_simps)
      ultimately show ?thesis using rbig f(1) fn by linarith
    qed
    let ?r2 = "len - ?g * (n - 1)"
    have r2: "usub32 len (?g * (n - 1)) = ?r2" using gn by (simp add: usub32_def)
    have rb2: "?r2 < 2 ^ 32 - 7" using len by simp
    have "?r2 \<le> ?g"
    proof -
      have "(?q + 1) * n \<le> ?g * n" using a(2) by (intro mult_le_mono1) simp
      then have "len \<le> ?g * n" using q(2) by linarith
      then show ?thesis using n(1) by (cases n) (auto simp: algebra_simps)
    qed
    then have up: "align8up ?r2 \<le> ?g" using align8up_least [OF rb2] a(3) by simp
    then have "flen0 = ?g" "fleno = ?g"
      using s sizes True r2 by (auto simp: Let_def split: if_splits)
    moreover have "len \<le> ?g + ?g * (n - 1)" using \<open>?r2 \<le> ?g\<close> gn by linarith
    ultimately show ?thesis using a(3) gf by auto
  qed
qed

text \<open>What the loop needs of the size of each fragment.\<close>

definition sizes_ok :: "nat \<Rightarrow> nat \<Rightarrow> (nat \<Rightarrow> nat) \<Rightarrow> bool" where
  "sizes_ok mtu len sz \<longleftrightarrow> (\<forall>off < len. 8 dvd off \<longrightarrow>
     0 < sz off \<and> off + sz off \<le> len \<and> sz off + IP6FLEN \<le> mtu \<and> (off + sz off < len \<longrightarrow> 8 dvd sz off))"

lemma encap_flen_ok:
  assumes mtu: "1280 \<le> mtu" "mtu < len + IP6HDRLEN" and len: "len \<le> 65535"
  shows "sizes_ok mtu len (encap_flen eq mtu len (if eq then encap_sizes mtu len else (0, 0)))"
  unfolding sizes_ok_def
proof (intro allI impI)
  fix off assume off: "off < len" "8 dvd off"
  have us: "usub32 mtu IP6FLEN = mtu - IP6FLEN" using mtu by (simp add: usub32_def)
  obtain f0 fo where f: "encap_sizes mtu len = (f0, fo)" by fastforce
  have al: "align8 (mtu - IP6FLEN) \<le> mtu - IP6FLEN" "1232 \<le> align8 (mtu - IP6FLEN)"
    "8 dvd align8 (mtu - IP6FLEN)"
    using mtu align8_le [of "mtu - IP6FLEN"] by (auto simp: align8_def)
  note ok = encap_sizes_ok [OF mtu len f]
  let ?n = "encap_flen eq mtu len (if eq then encap_sizes mtu len else (0, 0)) off"
  show "0 < ?n \<and> off + ?n \<le> len \<and> ?n + IP6FLEN \<le> mtu \<and> (off + ?n < len \<longrightarrow> 8 dvd ?n)"
  proof (cases "len - off > mtu - IP6FLEN")
    case True
    then have "?n = (if eq then if off = 0 then f0 else fo else align8 (mtu - IP6FLEN))"
      by (simp add: encap_flen_def Let_def us f)
    then show ?thesis using ok al True off mtu by auto
  next
    case False
    then show ?thesis using off mtu by (simp add: encap_flen_def Let_def us)
  qed
qed

section \<open>The fragments on the wire\<close>

lemma length_encap_hdr [simp]:
  "length src = 16 \<Longrightarrow> length dst = 16 \<Longrightarrow> length (encap_hdr src dst p) = IP6HDRLEN"
  by (simp add: encap_hdr_def Let_def)

lemma length_encap_fraghdr [simp]:
  "length src = 16 \<Longrightarrow> length dst = 16 \<Longrightarrow> length (encap_fraghdr src dst i) = IP6FLEN"
  by (simp add: encap_fraghdr_def le_bytes32_def)

text \<open>A fragment as the receiving side reads it (the values defrag6 takes from the packet).\<close>

definition piece6 :: "bytes \<Rightarrow> piece" where
  "piece6 p = \<lparr>f_buf = sub p IP6FLEN (length p - IP6FLEN), f_len = length p - IP6FLEN,
     f_off = frag_off6 p, f_more = frag_more6 p\<rparr>"

lemma offl_bits:
  assumes "8 dvd off"
  shows "(word_of_int (int off) AND 0xf8 :: u8) = lo8 (int off)"
    "((word_of_int (int off) AND 0xf8) OR 1 :: u8) AND 0xf8 = lo8 (int off)"
    "(((word_of_int (int off) AND 0xf8) OR 1 :: u8) AND 1) = 1"
    "((word_of_int (int off) AND 0xf8 :: u8) AND 1) = 0"
    "lo8 (int off) AND 0xf8 = lo8 (int off)"
proof -
  have hi: "bit (0xf8 :: u8) i \<longleftrightarrow> 3 \<le> i" if "i < 8" for i
  proof -
    have "i \<in> {0, 1, 2, 3, 4, 5, 6, 7}" using that by auto
    then show ?thesis by (elim insertE emptyE) (simp_all add: bit_numeral_rec)
  qed
  have lowbits: "\<not> bit (int off) i" if "i < 3" for i
  proof -
    have "take_bit 3 (int off) = 0" using assms by (auto simp: take_bit_eq_mod elim!: dvdE)
    then show ?thesis using that by (metis bit_0_eq bot_apply bot_bool_def bit_take_bit_iff)
  qed
  have lo: "lo8 (int off) = (word_of_int (int off) :: u8)"
    by (rule word_uint_eqI) (simp only: uint_lo8 uint_word_of_int, simp)
  show 1: "(word_of_int (int off) AND 0xf8 :: u8) = lo8 (int off)"
    unfolding lo
  proof (rule bit_word_eqI)
    fix i :: nat assume "i < LENGTH(8)"
    then show "bit (word_of_int (int off) AND 0xf8 :: u8) i = bit (word_of_int (int off) :: u8) i"
      using hi [of i] lowbits [of i] \<open>i < LENGTH(8)\<close>
      by (simp only: bit_and_iff bit_word_of_int_iff) auto
  qed
  have e: "even (lo8 (int off))" unfolding lo using lowbits [of 0] by (simp add: bit_0 even_word_iff)
  show "lo8 (int off) AND 0xf8 = lo8 (int off)"
    unfolding 1 [symmetric] by (simp add: and.assoc)
  show "((word_of_int (int off) AND 0xf8) OR 1 :: u8) AND 0xf8 = lo8 (int off)"
    unfolding 1
  proof (rule bit_word_eqI)
    fix i :: nat assume i: "i < LENGTH(8)"
    have "bit (lo8 (int off) :: u8) i \<Longrightarrow> 3 \<le> i"
      using i lowbits [of i] unfolding lo by (simp only: bit_word_of_int_iff) linarith
    then show "bit ((lo8 (int off) OR 1 :: u8) AND 0xf8) i = bit (lo8 (int off) :: u8) i"
      using i hi [of i] by (auto simp: bit_and_iff bit_or_iff bit_1_iff)
  qed
  show "(((word_of_int (int off) AND 0xf8) OR 1 :: u8) AND 1) = 1"
    unfolding 1 using e by (simp add: and_one_eq mod_2_eq_odd even_or_iff)
  show "((word_of_int (int off) AND 0xf8 :: u8) AND 1) = 0"
    unfolding 1 using e by (simp add: and_one_eq mod_2_eq_odd)
qed

lemma encap_frag_piece:
  assumes hdr: "length hdr = IP6FLEN" and off: "8 dvd off" "off < len" "len \<le> 65535"
    and n: "off + n \<le> len" "len \<le> length buf4"
  shows "piece6 (encap_frag hdr buf4 len off n) =
      \<lparr>f_buf = sub buf4 off n, f_len = n, f_off = off, f_more = (off + n < len)\<rparr>"
    "length (encap_frag hdr buf4 len off n) = IP6FLEN + n"
proof -
  define b1 where "b1 = hdr[IP6FOFFH := hi8 (int off), IP6FOFFL := word_of_int (int off) AND IP6FMSK]"
  define b2 where "b2 = (if n + off < len then b1[IP6FOFFL := b1 ! IP6FOFFL OR IP6FMF] else b1)"
  define b3 where "b3 = b2[IP6LENH := hi8 (int (n + 8)), IP6LENL := lo8 (int (n + 8))]"
  have p: "encap_frag hdr buf4 len off n = b3 @ sub buf4 off n"
    by (simp add: encap_frag_def Let_def b1_def b2_def b3_def)
  have l: "length b1 = 48" "length b2 = 48" "length b3 = 48"
    using hdr by (simp_all add: b1_def b2_def b3_def)
  have at_off: "b3 ! 42 = hi8 (int off)"
    "b3 ! 43 = (if n + off < len then (word_of_int (int off) AND 0xf8) OR 1 else word_of_int (int off) AND 0xf8)"
    using hdr by (simp_all add: b1_def b2_def b3_def nth_list_update)
  show len: "length (encap_frag hdr buf4 len off n) = IP6FLEN + n" using p l n by simp
  have "frag_off6 (b3 @ sub buf4 off n) = off" "frag_more6 (b3 @ sub buf4 off n) = (off + n < len)"
    using l at_off off offl_bits [OF off(1)]
    by (auto simp: frag_off6_def frag_more6_def nth_append add.commute)
  moreover have "sub (b3 @ sub buf4 off n) 48 n = sub buf4 off n"
    using l n by (simp add: sub_def)
  ultimately show "piece6 (encap_frag hdr buf4 len off n) =
      \<lparr>f_buf = sub buf4 off n, f_len = n, f_off = off, f_more = (off + n < len)\<rparr>"
    using len by (simp add: piece6_def p)
qed

text \<open>The loop writes fragments that fit the MTU and are a cut of the packet.\<close>

lemma encap_loop_cut:
  assumes sz: "sizes_ok mtu len sz" and hdr: "length hdr = IP6FLEN"
    and len: "len \<le> 65535" "len \<le> length buf4"
  shows "off < len \<Longrightarrow> 8 dvd off \<Longrightarrow>
    \<exists>ps. encap_loop (\<lambda>k. True) sz hdr buf4 len off s = Some (s\<lparr>evs := evs s @ map Write6 ps\<rparr>) \<and>
      cut_from off (sub buf4 off (len - off)) (map piece6 ps) \<and> (\<forall>p \<in> set ps. length p \<le> mtu) \<and> ps \<noteq> []"
proof (induction "len - off" arbitrary: off s rule: less_induct)
  case less
  let ?n = "sz off" and ?p = "encap_frag hdr buf4 len off (sz off)"
  have n: "0 < ?n" "off + ?n \<le> len" "?n + IP6FLEN \<le> mtu" "off + ?n < len \<longrightarrow> 8 dvd ?n"
    using sz less.prems by (auto simp: sizes_ok_def)
  note pc = encap_frag_piece [OF hdr less.prems(2,1) len(1) n(2) len(2)]
  have tk: "sub buf4 off ?n = take ?n (sub buf4 off (len - off))" using n by (simp add: sub_def min_def)
  have dr: "List.drop ?n (sub buf4 off (len - off)) = sub buf4 (off + ?n) (len - (off + ?n))"
    by (simp add: sub_def drop_take add.commute)
  have ls: "length (sub buf4 off (len - off)) = len - off" using len less.prems by simp
  show ?case
  proof (cases "off + ?n < len")
    case True
    from less.hyps [OF _ True] n less.prems True obtain ps where
      ps: "encap_loop (\<lambda>k. True) sz hdr buf4 len (off + ?n) (emit (Write6 ?p) s)
          = Some (emit (Write6 ?p) s\<lparr>evs := evs (emit (Write6 ?p) s) @ map Write6 ps\<rparr>)"
        "cut_from (off + ?n) (sub buf4 (off + ?n) (len - (off + ?n))) (map piece6 ps)"
        "\<forall>p \<in> set ps. length p \<le> mtu" "ps \<noteq> []"
      by (metis diff_less_mono2 dvd_add less_add_same_cancel1)
    have "encap_loop (\<lambda>k. True) sz hdr buf4 len off s
        = Some (s\<lparr>evs := evs s @ map Write6 (?p # ps)\<rparr>)"
      using ps(1) less.prems by (subst encap_loop.simps) (simp add: Let_def emit_def)
    then show ?thesis
      using ps(2-4) pc n True tk dr ls by (intro exI [of _ "?p # ps"]) (auto simp: add.commute)
  next
    case False
    then have e: "off + ?n = len" using n by simp
    have "encap_loop (\<lambda>k. True) sz hdr buf4 len off s = Some (s\<lparr>evs := evs s @ map Write6 [?p]\<rparr>)"
      using less.prems e
      by (subst encap_loop.simps, simp add: Let_def) (subst encap_loop.simps, simp add: emit_def)
    then show ?thesis
      using pc n e tk ls by (intro exI [of _ "[?p]"]) (auto simp: add.commute)
  qed
qed

text \<open>
  Claim C18: a packet longer than the tunnel MTU is written as fragments none of which is
  longer than the MTU, in both fragmentation modes, for every tunnel MTU from 1280 on; the
  loop ends, and what was written is a cut of the packet: read back as defrag6 reads them,
  the fragments have contiguous offsets, more flags on all but the last, sizes that are
  multiples of 8 except the last, and the bytes of the packet. This settles the remark in the
  code that the recomputed first size "shall be this time <= fmtu".
\<close>

theorem encap_fragments:
  assumes "1280 \<le> unat (t_mtu (tunof s t))" "unat (t_mtu (tunof s t)) < len + IP6HDRLEN"
    and "len \<le> 65535" "len \<le> length buf4"
    and "length (local6 s) = 16" "length (t_remote (tunof s t)) = 16"
  shows "\<exists>ps s'. encap cfg (\<lambda>k. True) t buf4 len s = Some s' \<and> evs s' = evs s @ map Write6 ps \<and>
    is_cut (take len buf4) (map piece6 ps) \<and> (\<forall>p \<in> set ps. length p \<le> unat (t_mtu (tunof s t)))"
proof -
  let ?mtu = "unat (t_mtu (tunof s t))"
  obtain ident rs where w: "arc4_getword (arc4 s) = (ident, rs)" by fastforce
  let ?hdr = "encap_fraghdr (local6 s) (t_remote (tunof s t)) ident"
  note sz = encap_flen_ok [OF assms(1-3), of "eqfrag cfg"]
  have "length ?hdr = IP6FLEN" "0 < len" using assms by simp_all
  from encap_loop_cut [OF sz this(1) assms(3,4) this(2), of "s\<lparr>arc4 := rs\<rparr>"] obtain ps where
    "encap_loop (\<lambda>k. True) (encap_flen (eqfrag cfg) ?mtu len (if eqfrag cfg then encap_sizes ?mtu len else (0, 0)))
       ?hdr buf4 len 0 (s\<lparr>arc4 := rs\<rparr>) = Some (s\<lparr>arc4 := rs, evs := evs s @ map Write6 ps\<rparr>)"
    "is_cut (sub buf4 0 len) (map piece6 ps)" "\<forall>p \<in> set ps. length p \<le> ?mtu"
    by auto
  moreover have "sub buf4 0 len = take len buf4" by (simp add: sub_def)
  ultimately show ?thesis using assms(2) w by (auto simp add: encap_def Let_def)
qed

text \<open>A state with one tunnel of MTU 1280.\<close>

definition tunnel1 :: tunnel where
  "tunnel1 = \<lparr>t_remote = replicate 16 1, t_flags = TUNTBICMP, t_frg6cnt = 0, t_frg4cnt = 0, t_mtu = 1280,
     t_hash = 0, t_tnat_root = (\<lambda>pr. Leaf), t_srcidx = 0, t_tnatcnt = (\<lambda>pr. 0), t_lastnat = 0,
     t_tnatrt = (\<lambda>pr. 0), t_avail = (\<lambda>pr. 0), t_bucket = (\<lambda>pr. None), t_nnaddr = [], t_nnplen = 0,
     t_ngeneration = 0\<rparr>"

definition aftr1 :: aftr where
  "aftr1 = aftr0\<lparr>tunnels := [3 \<mapsto> tunnel1]\<rparr>"

lemma aftr1_tun [simp]: "tunof aftr1 3 = tunnel1"
  by (simp add: aftr1_def tunof_def)

theorem encap_fragments_witness:
  "\<exists>ps s'. encap default_config (\<lambda>k. True) 3 (replicate 3000 7) 2000 aftr1 = Some s' \<and>
     evs s' = evs aftr1 @ map Write6 ps \<and>
     is_cut (take 2000 (replicate 3000 7)) (map piece6 ps) \<and>
     (\<forall>p \<in> set ps. length p \<le> unat (t_mtu (tunof aftr1 3)))"
  by (rule encap_fragments) (simp_all add: tunnel1_def, simp_all add: aftr1_def aftr0_def)

text \<open>
  A packet that fits is written as one IPv6 packet from the local address to the
  remote end of the tunnel, with the IPv4 packet as its payload and its length set; it is not
  longer than the MTU, and nothing else happens.
\<close>

theorem encap_fits:
  assumes "len + IP6HDRLEN \<le> unat (t_mtu (tunof s t))" "len \<le> length buf4"
    and "length (local6 s) = 16" "length (t_remote (tunof s t)) = 16"
  shows "\<exists>p. encap cfg wok t buf4 len s = Some (s\<lparr>evs := evs s @ [Write6 p]\<rparr>) \<and>
    length p = len + IP6HDRLEN \<and> sub p IP6HDRLEN len = take len buf4 \<and>
    be16 (p ! IP6LENH) (p ! IP6LENL) = int len \<and> p ! IP6PROTO = IP6IP4 \<and>
    sub p IP6SRC 16 = local6 s \<and> sub p IP6DST 16 = t_remote (tunof s t)"
proof -
  let ?h = "encap_hdr (local6 s) (t_remote (tunof s t)) IP6IP4"
  let ?b = "?h[IP6LENH := hi8 (int len), IP6LENL := lo8 (int len)]"
  have lh: "length ?h = 40" using assms by simp
  have len16: "int len < 65536"
    using assms(1) unsigned_less [of "t_mtu (tunof s t)", where 'a = nat] by simp
  have src: "sub ?h 8 16 = local6 s"
    using assms sub_put_disjoint [of 24 "t_remote (tunof s t)" _ 8 16] sub_put_same [of 8 "local6 s"]
    by (simp add: encap_hdr_def Let_def)
  have dst: "sub ?h 24 16 = t_remote (tunof s t)"
    using assms sub_put_same [of 24 "t_remote (tunof s t)"] by (simp add: encap_hdr_def Let_def)
  have p6: "?h ! 6 = IP6IP4" using assms by (simp add: encap_hdr_def Let_def nth_put)
  have "sub (?b @ sub buf4 0 len) 8 16 = sub ?h 8 16" "sub (?b @ sub buf4 0 len) 24 16 = sub ?h 24 16"
    using lh by (simp_all add: sub_def drop_update_cancel)
  moreover have "sub (?b @ sub buf4 0 len) 40 len = take len buf4"
    using lh assms(2) by (simp add: sub_def)
  ultimately show ?thesis
    using assms lh src dst p6 len16
    by (intro exI [of _ "?b @ sub buf4 0 len"])
      (simp add: encap_def Let_def emit_def nth_append nth_list_update)
qed

theorem encap_fits_witness:
  "\<exists>p. encap default_config (\<lambda>k. True) 3 [1, 2, 3] 2 aftr1 = Some (aftr1\<lparr>evs := evs aftr1 @ [Write6 p]\<rparr>) \<and>
    length p = 2 + IP6HDRLEN \<and> sub p IP6HDRLEN 2 = take 2 [1, 2, 3] \<and>
    be16 (p ! IP6LENH) (p ! IP6LENL) = int 2 \<and> p ! IP6PROTO = IP6IP4 \<and>
    sub p IP6SRC 16 = local6 aftr1 \<and> sub p IP6DST 16 = t_remote (tunof aftr1 3)"
  by (rule encap_fits) (simp_all add: tunnel1_def, simp_all add: aftr1_def aftr0_def)

section \<open>The too big error\<close>

text \<open>
  The packet in buf4 is answered with ICMPv4 destination unreachable, fragmentation needed.
  The result is the new packet and its length; \<open>mtu\<close> is that of the tunnel.
\<close>

definition toobig_packet :: "u16 \<Rightarrow> u16 \<Rightarrow> bytes \<Rightarrow> bytes \<Rightarrow> nat \<Rightarrow> bytes \<times> nat" where
  "toobig_packet mtu ident src buf4 len =
     (let len = (if len > ICMPMAXLEN then ICMPMAXLEN else len);
          b = put buf4 IP2 (sub buf4 0 len);
          b = put b 0 (replicate IP2 0);
          len = len + IP2;
          b = b[0 := IP4VNOOP, IPLENH := hi8 (int len), IPLENL := lo8 (int len)];
          b = put b IPID [ucast ident, ucast (drop_bit 8 ident)];
          b = b[IPTTL := 64, IPPROTO := IPICMP];
          b = put b IPSRC src;
          b = put b IPDST (sub b IP2SRC 4);
          cksum = in_cksum b IPHDRLEN;
          b = put b IPCKSUMH [hi8 cksum, lo8 cksum];
          b = b[ICMPTYPE := 3, ICMPCODE := 4];
          mtu = uint (mtu - 40);
          b = put b (ICMPID + 2) [hi8 mtu, lo8 mtu];
          cksum = in_cksum (drop IPHDRLEN b) (len - IPHDRLEN);
          b = put b ICMPCKSUMH [hi8 cksum, lo8 cksum]
      in (b, len))"

lemma toobig_stage:
  fixes len :: nat and ident mtu :: u16 and buf4 src :: bytes
  assumes "length src = 4" "228 \<le> length buf4"
  defines "l \<equiv> (if len > ICMPMAXLEN then ICMPMAXLEN else len)"
  defines "b0 \<equiv> put (put buf4 IP2 (sub buf4 0 l)) 0 (replicate IP2 0)"
  defines "b1 \<equiv> b0[0 := IP4VNOOP, IPLENH := hi8 (int (l + IP2)), IPLENL := lo8 (int (l + IP2))]"
  defines "b2 \<equiv> (put b1 IPID [ucast ident, ucast (drop_bit 8 ident)])[IPTTL := 64, IPPROTO := IPICMP]"
  defines "b3 \<equiv> put (put b2 IPSRC src) IPDST (sub (put b2 IPSRC src) IP2SRC 4)"
  defines "b4 \<equiv> put b3 IPCKSUMH [hi8 (in_cksum b3 IPHDRLEN), lo8 (in_cksum b3 IPHDRLEN)]"
  defines "b5 \<equiv> put (b4[ICMPTYPE := 3, ICMPCODE := 4]) (ICMPID + 2)
    [hi8 (uint (mtu - 40)), lo8 (uint (mtu - 40))]"
  defines "ck \<equiv> in_cksum (drop IPHDRLEN b5) (l + IP2 - IPHDRLEN)"
  shows "toobig_packet mtu ident src buf4 len = (put b5 ICMPCKSUMH [hi8 ck, lo8 ck], l + IP2)"
    "in_cksum (put b5 ICMPCKSUMH [hi8 ck, lo8 ck]) IPHDRLEN = 0"
    "in_cksum (drop IPHDRLEN (put b5 ICMPCKSUMH [hi8 ck, lo8 ck])) (l + IP2 - IPHDRLEN) = 0"
    "sub (put b5 ICMPCKSUMH [hi8 ck, lo8 ck]) IP2 l = take l buf4"
    "be16 (put b5 ICMPCKSUMH [hi8 ck, lo8 ck] ! 26) (put b5 ICMPCKSUMH [hi8 ck, lo8 ck] ! 27) = uint (mtu - 40)"
proof -
  have l: "l \<le> 200" by (simp add: l_def)
  have len: "length b0 = length buf4" "length b1 = length buf4" "length b2 = length buf4"
    "length b3 = length buf4" "length b4 = length buf4" "length b5 = length buf4"
    using assms(1,2) l by (simp_all add: b0_def b1_def b2_def b3_def b4_def b5_def)
  let ?b6 = "put b5 ICMPCKSUMH [hi8 ck, lo8 ck]"
  show "toobig_packet mtu ident src buf4 len = (?b6, l + IP2)"
    unfolding toobig_packet_def l_def [symmetric] Let_def b0_def [symmetric] b1_def [symmetric]
      b2_def [symmetric] b3_def [symmetric] b4_def [symmetric] b5_def [symmetric] ck_def [symmetric] ..
  have z10: "sub b3 10 2 = [0, 0]" and z22: "sub b5 22 2 = [0, 0]"
    using assms(1,2) l len
    by (simp_all add: b0_def b1_def b2_def b3_def b4_def b5_def sub_put_disjoint sub_update sub_put_inside
        sub_replicate numeral_2_eq_2)
  have "in_cksum b4 20 = 0" unfolding b4_def
    using cksum_fill0 [of 20 b3 10] len assms(2) z10 by simp
  moreover have "take 20 ?b6 = take 20 b4"
    using len assms(2) by (simp add: b5_def take_put_after)
  ultimately show "in_cksum ?b6 IPHDRLEN = 0"
    using in_cksum_cong [of 20 ?b6 b4] len assms(2) by simp
  have dp: "drop 20 ?b6 = put (drop 20 b5) 2 [hi8 ck, lo8 ck]"
    using len assms(2) by (intro nth_equalityI) (auto simp: nth_put)
  have "sub (drop 20 b5) 2 2 = [0, 0]" using z22 by (simp add: sub_drop)
  then show "in_cksum (drop IPHDRLEN ?b6) (l + IP2 - IPHDRLEN) = 0"
    unfolding dp unfolding ck_def
    using cksum_fill0 [of "8 + l" "drop 20 b5" 2] len l assms(2) by simp
  have "sub ?b6 28 l = sub b0 28 l"
    using len assms(1,2) l
    by (simp add: b1_def b2_def b3_def b4_def b5_def sub_put_disjoint sub_update)
  also have "\<dots> = sub buf4 0 l"
    using len assms(2) l by (simp add: b0_def sub_put_disjoint sub_put_inside) (simp add: sub_def)
  finally show "sub ?b6 IP2 l = take l buf4" by (simp add: sub_def)
  have "0 \<le> uint (mtu - 40)" "uint (mtu - 40) < 65536" using uint_lt2p [of "mtu - 40"] by simp_all
  then show "be16 (?b6 ! 26) (?b6 ! 27) = uint (mtu - 40)"
    using len assms(2) by (simp add: b5_def nth_put)
qed

lemma toobig_ok:
  assumes "length src = 4" "228 \<le> length buf4"
  shows "\<exists>b. toobig_packet mtu ident src buf4 len = (b, min len ICMPMAXLEN + IP2) \<and>
    in_cksum b IPHDRLEN = 0 \<and> in_cksum (drop IPHDRLEN b) (min len ICMPMAXLEN + IP2 - IPHDRLEN) = 0 \<and>
    sub b IP2 (min len ICMPMAXLEN) = take (min len ICMPMAXLEN) buf4 \<and>
    be16 (b ! 26) (b ! 27) = uint (mtu - 40)"
proof -
  have m: "(if len > ICMPMAXLEN then ICMPMAXLEN else len) = min len ICMPMAXLEN" by auto
  show ?thesis
    using toobig_stage [OF assms, where len = len and ident = ident and mtu = mtu] unfolding m by blast
qed

text \<open>
  Claim C31: the too big answer is well formed: the IPv4 header checksum and the ICMP checksum
  of the packet it builds both verify, it quotes the packet it answers (at most 200 bytes of
  it) and it announces the tunnel MTU less the IPv6 header.
\<close>

theorem toobig_packet_valid:
  assumes "length src = 4" "228 \<le> length buf4"
  shows "let (b, l) = toobig_packet mtu ident src buf4 len
    in in_cksum b IPHDRLEN = 0 \<and> in_cksum (drop IPHDRLEN b) (l - IPHDRLEN) = 0 \<and>
       l = min len ICMPMAXLEN + IP2 \<and> sub b IP2 (l - IP2) = take (l - IP2) buf4 \<and>
       be16 (b ! 26) (b ! 27) = uint (mtu - 40)"
proof -
  obtain b where "toobig_packet mtu ident src buf4 len = (b, min len ICMPMAXLEN + IP2)"
    "in_cksum b IPHDRLEN = 0" "in_cksum (drop IPHDRLEN b) (min len ICMPMAXLEN + IP2 - IPHDRLEN) = 0"
    "sub b IP2 (min len ICMPMAXLEN) = take (min len ICMPMAXLEN) buf4" "be16 (b ! 26) (b ! 27) = uint (mtu - 40)"
    using toobig_ok [OF assms] by blast
  then show ?thesis by simp
qed

theorem toobig_packet_valid_witness:
  "let (b, l) = toobig_packet 1500 7 [192, 0, 0, 1] (replicate 300 9) 280
   in in_cksum b IPHDRLEN = 0 \<and> in_cksum (drop IPHDRLEN b) (l - IPHDRLEN) = 0 \<and>
      l = min 280 ICMPMAXLEN + IP2 \<and> sub b IP2 (l - IP2) = take (l - IP2) (replicate 300 9) \<and>
      be16 (b ! 26) (b ! 27) = uint (1500 - 40 :: u16)"
  by (rule toobig_packet_valid) simp_all

end
