(* ===== verification/Aftr_Nat.thy ===== *)
theory Aftr_Nat
  imports Aftr_Ftp Aftr_Acl Aftr_Encap
begin

text \<open>
  The translation of packets: natin, prrin, nonatin and the ICMP errors naticmpin and
  nonaticmpin from the tunnel; natout, naticmpout, nonatout and toobigout from the Internet.
  The packet is the buffer buf4 and its length, which the handlers take and return; what they
  send is an event. \<open>None\<close> is a call that does not return: a port draw that never ends, or a
  read through a NULL pool.
\<close>

section \<open>Looking up an entry\<close>

text \<open>The protocol class in natin, prrin and natout; \<open>pr = 0\<close> for another protocol.\<close>

definition pr_of_packet :: "u8 \<Rightarrow> prclass" where
  "pr_of_packet p = (if p = IPTCP then TCPPR else if p = IPUDP then UDPPR else if p = IPICMP then ICMPPR else TCPPR)"

text \<open>nat_lookup: the hash slot, then the global tree; 0 is NULL.\<close>

definition nat_lookup :: "prclass \<Rightarrow> nat_entry \<Rightarrow> aftr \<Rightarrow> nid \<times> aftr" where
  "nat_lookup pr k s =
     (let hash = hash_slot (jhash_nat (nathashrnd s) k) (nathashsz s); n = nathash s hash
      in if n \<noteq> 0 \<and> nat_tree_compare_wild k (natof s n) = 0 then (n, s)
         else case nat_tree_find_wild (\<lambda>m. nat_tree_compare_wild k (natof s m)) (nat_tree s pr) of
           None \<Rightarrow> (0, s)
         | Some n \<Rightarrow>
             if n_generation (natof s n) \<ge> FIRSTGEN \<and> n_generation (natof s n) < lastgen s then (0, s)
             else (n, upd_nat n (\<lambda>e. e\<lparr>n_hash := hash\<rparr>) (s\<lparr>nathash := (nathash s)(hash := n)\<rparr>)))"

text \<open>nat_splay_find on the tree of the key's tunnel.\<close>

definition splay_lookup ::
  "(nat_entry \<Rightarrow> nat_entry \<Rightarrow> int) \<Rightarrow> prclass \<Rightarrow> nat_entry \<Rightarrow> aftr \<Rightarrow> nid \<times> aftr" where
  "splay_lookup cmp pr k s =
     (let t = n_tunnel k;
          (r, tree) = nat_splay_find (lastgen s) (\<lambda>m. cmp k (natof s m)) (n_generation k) False (t_tnat_root (tunof s t) pr)
      in (case r of None \<Rightarrow> 0 | Some n \<Rightarrow> n, put_root t pr tree s))"

text \<open>\<open>nat_splay_splay(pr, n)\<close> when the entry is not at the root already.\<close>

definition splay_promote :: "prclass \<Rightarrow> nid \<Rightarrow> aftr \<Rightarrow> aftr" where
  "splay_promote pr n s =
     (let t = n_tunnel (natof s n); r = t_tnat_root (tunof s t) pr
      in if (case r of Leaf \<Rightarrow> True | Node l x r' \<Rightarrow> x \<noteq> n)
         then put_root t pr (nat_splay_splay (splay_cmp_nid s n) r) s else s)"

section \<open>Rewriting a packet\<close>

text \<open>
  The address at \<open>a\<close> and the port at \<open>q\<close> (the identifier of an echo) are replaced by those of
  the entry, and the checksums are adjusted.
\<close>

definition nat_rewrite :: "nat \<Rightarrow> nat \<Rightarrow> bytes \<times> bytes \<Rightarrow> bytes \<times> bytes \<Rightarrow> nat_entry \<Rightarrow> bytes \<Rightarrow> bytes" where
  "nat_rewrite a q addr port e b =
     (let b = put b a (snd addr);
          b = put b IPCKSUMH (fix_cksum (sub b IPCKSUMH 2) (Some addr) None);
          b = (if n_flags e AND MATCH_PORT \<noteq> 0 then put b q (snd port)
               else if n_flags e AND MATCH_ICMP \<noteq> 0 then put b ICMPID (snd port) else b)
      in if n_proto e = IPTCP then put b TCPCKSUMH (fix_cksum (sub b TCPCKSUMH 2) (Some addr) (Some port))
         else if n_proto e = IPUDP then
           if b ! UDPCKSUMH \<noteq> 0 \<or> b ! UDPCKSUML \<noteq> 0
           then put b UDPCKSUMH (fix_cksum (sub b UDPCKSUMH 2) (Some addr) (Some port)) else b
         else if n_proto e = IPICMP then put b ICMPCKSUMH (fix_cksum (sub b ICMPCKSUMH 2) None (Some port))
         else b)"

definition rewrite_in :: "nat_entry \<Rightarrow> bytes \<Rightarrow> bytes" where
  "rewrite_in e = nat_rewrite IPSRC IPSPORT (n_src e, n_nsrc e) (n_sport e, n_nport e) e"

definition rewrite_out :: "nat_entry \<Rightarrow> bytes \<Rightarrow> bytes" where
  "rewrite_out e = nat_rewrite IPDST IPDPORT (n_nsrc e, n_src e) (n_nport e, n_sport e) e"

text \<open>The entry lives on for \<open>life\<close> seconds, unless it expires later or never.\<close>

definition bump_timeout :: "int \<Rightarrow> nid \<Rightarrow> aftr \<Rightarrow> aftr" where
  "bump_timeout life n s =
     (if n_timeout (natof s n) \<noteq> 0 \<and> seconds s + life > n_timeout (natof s n)
      then let s = upd_nat n (\<lambda>e. e\<lparr>n_timeout := seconds s + life\<rparr>) s
           in nat_heap_decreased (n_heap_index (natof s n)) s
      else s)"

section \<open>From the tunnel\<close>

subsection \<open>ICMP errors\<close>

text \<open>filtericmpin on the quoted packet; the result is the length that is kept of it.\<close>

definition filtericmpin :: "u8 \<Rightarrow> bytes \<Rightarrow> nat \<Rightarrow> nat option" where
  "filtericmpin type4 buf4 len =
     (if len < IPMINLEN then None
      else
        let len = (if len > ICMPMAXLEN then ICMPMAXLEN else len)
        in if type4 \<notin> {3, 11, 12} then None
           else if buf4 ! 0 \<noteq> IP4VNOOP then None
           else if buf4 ! IPSRC = 127 \<or> buf4 ! IPDST = 127 then None
           else if buf4 ! IPSRC \<ge> 224 \<or> buf4 ! IPDST \<ge> 224 then None
           else if buf4 ! IPOFFH AND IPOFFMSK \<noteq> 0 \<or> buf4 ! IPOFFL \<noteq> 0 then None
           else if buf4 ! IPPROTO \<noteq> IPTCP \<and> buf4 ! IPPROTO \<noteq> IPUDP then None
           else if be16 (buf4 ! IPLENH) (buf4 ! IPLENL) < 28 then None
           else if in_cksum buf4 IPHDRLEN \<noteq> 0 then None
           else Some len)"

text \<open>
  The headers of a transit ICMP error, before a quoted packet that is at \<open>IP2\<close> already; \<open>len\<close>
  is the new total length. The ICMP checksum is not there yet.
\<close>

definition icmp_header :: "u16 \<Rightarrow> bytes \<Rightarrow> u8 \<Rightarrow> u8 \<Rightarrow> nat \<Rightarrow> bytes \<Rightarrow> bytes" where
  "icmp_header ident src type4 code4 len b =
     (let b = put b 0 (replicate IP2 0);
          b = b[0 := IP4VNOOP, IPLENH := hi8 (int len), IPLENL := lo8 (int len)];
          b = put b IPID [ucast ident, ucast (drop_bit 8 ident)];
          b = b[IPTTL := 64, IPPROTO := IPICMP];
          b = put b IPSRC src;
          b = put b IPDST (sub b IP2SRC 4);
          cksum = in_cksum b IPHDRLEN;
          b = b[IPCKSUMH := hi8 cksum, IPCKSUML := lo8 cksum]
      in b[ICMPTYPE := type4, ICMPCODE := code4])"

definition icmp_cksum :: "nat \<Rightarrow> bytes \<Rightarrow> bytes" where
  "icmp_cksum len b =
     (let cksum = in_cksum (drop IPHDRLEN b) (len - IPHDRLEN)
      in b[ICMPCKSUMH := hi8 cksum, ICMPCKSUML := lo8 cksum])"

text \<open>The search key of naticmpin: the code never fills in the destination.\<close>

definition icmpin_key :: "tid \<Rightarrow> bytes \<Rightarrow> nat_entry" where
  "icmpin_key t buf4 = nat_zero\<lparr>n_tunnel := t, n_proto := buf4 ! IPPROTO, n_src := sub buf4 IPDST 4, n_sport := sub buf4 IPDPORT 2\<rparr>"

text \<open>The quoted packet, translated back to the outer address and port.\<close>

definition icmpin_inner :: "nat_entry \<Rightarrow> bytes \<Rightarrow> bytes" where
  "icmpin_inner e b =
     (let addr = (n_src e, n_nsrc e); port = (n_sport e, n_nport e);
          b = put b IP2DST (n_nsrc e);
          b = put b IP2CKSUMH (fix_cksum (sub b IP2CKSUMH 2) (Some addr) None)
      in if n_flags e AND MATCH_PORT = 0 then b
         else
           let b = put b IP2DPORT (n_nport e)
           in if n_proto e = IPTCP then
                put b (IP2 + TCPCKSUMH) (fix_cksum (sub b (IP2 + TCPCKSUMH) 2) (Some addr) (Some port))
              else if n_proto e = IPUDP \<and> (b ! (IP2 + UDPCKSUMH) \<noteq> 0 \<or> b ! (IP2 + UDPCKSUML) \<noteq> 0) then
                put b (IP2 + UDPCKSUMH) (fix_cksum (sub b (IP2 + UDPCKSUMH) 2) (Some addr) (Some port))
              else b)"

text \<open>
  The part of naticmpin behind the lookup. \<open>hdr\<close> are the saved headers of a real ICMPv4
  error: when its sender is the inner host they are kept, with the source translated.
\<close>

definition icmpin_packet ::
  "bytes option \<Rightarrow> u16 \<Rightarrow> bytes \<Rightarrow> u8 \<Rightarrow> u8 \<Rightarrow> u32 \<Rightarrow> nat_entry \<Rightarrow> bytes \<Rightarrow> nat \<Rightarrow> bytes \<times> nat" where
  "icmpin_packet hdr ident src type4 code4 mtu4 e buf4 len =
     (let b = put buf4 IP2 (sub buf4 0 len); len = len + IP2;
          b = (case hdr of
                 Some h \<Rightarrow> put (put (put b 0 h) IPSRC (n_nsrc e)) IPCKSUMH
                   (fix_cksum (sub h IPCKSUMH 2) (Some (n_src e, n_nsrc e)) None)
               | None \<Rightarrow>
                   let b = icmp_header ident src type4 code4 len b
                   in if type4 = 3 \<and> code4 = 4 then put b ICMPID (bytes32 mtu4) else b)
      in (icmp_cksum len (icmpin_inner e b), len))"

definition naticmpin :: "tid \<Rightarrow> bool \<Rightarrow> u8 \<Rightarrow> u8 \<Rightarrow> u32 \<Rightarrow> bytes \<Rightarrow> nat \<Rightarrow> aftr \<Rightarrow> aftr" where
  "naticmpin t from6 type4 code4 mtu4 buf4 len s =
     (if \<not> from6 \<and> (len < IP2 + IPMINLEN \<or> sub buf4 IPDST 4 \<noteq> sub buf4 IP2SRC 4) then stat_drop DR_ICMPIN s
      else
        let hdr = sub buf4 0 IP2;
            type4 = (if from6 then type4 else buf4 ! ICMPTYPE);
            code4 = (if from6 then code4 else buf4 ! ICMPCODE);
            mtu4 = (if from6 then mtu4 else word_of_int (be16 (buf4 ! (ICMPID + 2)) (buf4 ! (ICMPID + 3))));
            len = (if from6 then len else len - IP2);
            b = (if from6 then buf4 else put buf4 0 (sub buf4 IP2 len))
        in case filtericmpin type4 b len of
             None \<Rightarrow> stat_drop DR_ICMPIN s
           | Some len \<Rightarrow>
               let k = icmpin_key t b;
                   (n, s) = splay_lookup nat_splay_compare_wild (if b ! IPPROTO = IPTCP then TCPPR else UDPPR) k s
               in if n = 0 then stat_drop DR_ICMPIN s
                  else
                    let e = natof s n; direct = (\<not> from6 \<and> n_src e = sub hdr IPSRC 4);
                        (ident, rs) = (if direct then (0, arc4 s) else arc4_getshort (arc4 s));
                        (b, len) = icmpin_packet (if direct then Some hdr else None) ident (icmpsrc s) type4 code4 mtu4 e b len
                    in emit (Write4 (take len b)) (s\<lparr>arc4 := rs\<rparr>))"

definition nonaticmpin :: "u8 \<Rightarrow> u8 \<Rightarrow> bytes \<Rightarrow> nat \<Rightarrow> aftr \<Rightarrow> aftr" where
  "nonaticmpin type4 code4 buf4 len s =
     (case filtericmpin type4 buf4 len of
        None \<Rightarrow> stat_drop DR_ICMPIN s
      | Some len \<Rightarrow>
          let b = put buf4 IP2 (sub buf4 0 len); len = len + IP2; (ident, rs) = arc4_getshort (arc4 s);
              b = icmp_cksum len (icmp_header ident (icmpsrc s) type4 code4 len b)
          in emit (Write4 (take len b)) (s\<lparr>arc4 := rs\<rparr>))"

subsection \<open>Packets\<close>

text \<open>The search key of natin.\<close>

definition in_key :: "tid \<Rightarrow> bytes \<Rightarrow> nat_entry" where
  "in_key t b =
     (let k = nat_zero\<lparr>n_tunnel := t, n_proto := b ! IPPROTO, n_src := sub b IPSRC 4, n_dst := sub b IPDST 4\<rparr>
      in if b ! IPPROTO = IPTCP \<or> b ! IPPROTO = IPUDP
         then k\<lparr>n_sport := sub b IPSPORT 2, n_dport := sub b IPDPORT 2, n_flags := MATCH_PORT\<rparr>
         else if b ! IPPROTO = IPICMP then k\<lparr>n_sport := sub b ICMPID 2, n_flags := MATCH_ICMP\<rparr>
         else k)"

text \<open>The part of natin from \<open>got:\<close> on, with an entry.\<close>

definition natin_got ::
  "config \<Rightarrow> (nat \<Rightarrow> bool) \<Rightarrow> nid \<Rightarrow> bytes \<Rightarrow> tid \<Rightarrow> nid \<Rightarrow> bytes \<Rightarrow> nat \<Rightarrow> aftr \<Rightarrow> (bool \<times> bytes \<times> nat \<times> aftr) option" where
  "natin_got cfg mem new junk t n b len s =
     (let e = natof s n; b = rewrite_in e b
      in if n_proto e = IPTCP then
           let b = patch_tcpmss (tunof s t) b len
           in case (if b ! IPDPORT = 0 \<and> b ! (IPDPORT + 1) = 21 then patch_ftpin cfg mem new junk n False b len s
                    else if n_sport e ! 0 = 0 \<and> n_sport e ! 1 = 21 then patch_ftpin cfg mem new junk n True b len s
                    else Some (n, False, b, len, s)) of
                None \<Rightarrow> None
              | Some (n, counted, b, len, s) \<Rightarrow>
                  if n = 0 then Some (False, b, len, if counted then s else stat_drop DR_BADIN s)
                  else
                    let (increased, s) = tcpstate_in cfg (b ! TCPFLAGS) n s
                    in Some (True, b, len, if increased then s else bump_timeout (nat_lifetime cfg ! 4) n s)
         else Some (True, b, len, bump_timeout (nat_lifetime cfg ! 4) n s))"

text \<open>The entry natin makes for a packet without one; \<open>addr\<close> is that of the tunnel's pool.\<close>

definition new_entry :: "config \<Rightarrow> tid \<Rightarrow> bytes \<Rightarrow> bytes \<Rightarrow> aftr \<Rightarrow> nat_entry" where
  "new_entry cfg t addr b s =
     (let e = nat_zero\<lparr>n_tunnel := t, n_timeout := seconds s + nat_lifetime cfg ! 4, n_src := sub b IPSRC 4,
                n_dst := sub b IPDST 4, n_nsrc := addr, n_proto := b ! IPPROTO\<rparr>
      in if b ! IPPROTO = IPTCP then
           e\<lparr>n_flags := MATCH_PORT, n_sport := sub b IPSPORT 2, n_dport := sub b IPDPORT 2,
             n_lifetime := nat_lifetime cfg ! 0\<rparr>
         else if b ! IPPROTO = IPUDP then
           e\<lparr>n_flags := MATCH_PORT, n_sport := sub b IPSPORT 2, n_dport := sub b IPDPORT 2,
             n_lifetime := nat_lifetime cfg ! 2\<rparr>
         else if b ! IPPROTO = IPICMP then
           e\<lparr>n_flags := MATCH_ICMP, n_sport := sub b ICMPID 2, n_lifetime := nat_lifetime cfg ! 3\<rparr>
         else e)"

text \<open>
  natin. \<open>mem\<close> 4 to 6 are the malloc of the entry and those of new_nat, \<open>mem\<close> 0 to 3 those
  of patch_ftpin; \<open>nw\<close> 0 and 1 are the addresses of a new entry and of an FTP data entry.
\<close>

definition natin ::
  "config \<Rightarrow> (nat \<Rightarrow> bool) \<Rightarrow> (nat \<Rightarrow> nid) \<Rightarrow> bytes \<Rightarrow> tid \<Rightarrow> bytes \<Rightarrow> nat \<Rightarrow> aftr \<Rightarrow> (bool \<times> bytes \<times> nat \<times> aftr) option" where
  "natin cfg mem nw junk t b len s =
     (let pr = pr_of_packet (b ! IPPROTO);
          (n, s) = splay_lookup nat_splay_compare_wild pr (in_key t b) s
      in if n \<noteq> 0 then natin_got cfg mem (nw 1) junk t n b len s
         else case rate_limit cfg pr t s of
           (Some r, s) \<Rightarrow> Some (False, b, len, stat_drop r s)
         | (None, s) \<Rightarrow>
             if \<not> mem 4 then Some (False, b, len, stat_drop DR_NEWNAT s)
             else (case pools s ! t_srcidx (tunof s t) of
               None \<Rightarrow> None
             | Some P \<Rightarrow>
                 (case new_nat cfg (mem 5) (mem 6) (nw 0)
                         (s\<lparr>nats := (nats s)(nw 0 \<mapsto> new_entry cfg t (sub (p_addr P) 0 4) b s)\<rparr>) of
                    None \<Rightarrow> None
                  | Some (ok, s) \<Rightarrow>
                      if ok then natin_got cfg mem (nw 1) junk t (nw 0) b len s
                      else Some (False, b, len, stat_drop DR_NEWNAT s))))"

definition prr_key :: "tid \<Rightarrow> bytes \<Rightarrow> nat_entry" where
  "prr_key t b =
     (let k = nat_zero\<lparr>n_tunnel := t, n_proto := b ! IPPROTO, n_flags := ALL_DST OR PRR_NULL, n_src := sub b IPSRC 4\<rparr>
      in if b ! IPPROTO = IPTCP \<or> b ! IPPROTO = IPUDP then k\<lparr>n_sport := sub b IPSPORT 2\<rparr>
         else if b ! IPPROTO = IPICMP then k\<lparr>n_sport := sub b ICMPID 2\<rparr>
         else k)"

definition prrin :: "tid \<Rightarrow> bytes \<Rightarrow> nat \<Rightarrow> aftr \<Rightarrow> bool \<times> bytes \<times> aftr" where
  "prrin t b len s =
     (let (n, s) = splay_lookup nat_splay_compare_abs (pr_of_packet (b ! IPPROTO)) (prr_key t b) s
      in if n \<noteq> 0 then (True, if b ! IPPROTO = IPTCP then patch_tcpmss (tunof s t) b len else b, s)
         else (False, b, stat_drop DR_INGRESS s))"

text \<open>The address at \<open>i\<close> is in the prefix of a no-NAT tunnel.\<close>

definition in_nonat :: "tunnel \<Rightarrow> nat \<Rightarrow> bytes \<Rightarrow> bool" where
  "in_nonat t i b \<longleftrightarrow> list_all (\<lambda>j. b ! (i + j) AND mask4 ! t_nnplen t ! j = t_nnaddr t ! j) [0..<4]"

definition nonatin :: "tid \<Rightarrow> bytes \<Rightarrow> nat \<Rightarrow> aftr \<Rightarrow> bool \<times> bytes \<times> aftr" where
  "nonatin t b len s =
     (if \<not> in_nonat (tunof s t) IPSRC b then (False, b, stat_drop DR_INGRESS s)
      else (True, if b ! IPPROTO = IPTCP then patch_tcpmss (tunof s t) b len else b, s))"

section \<open>From the Internet\<close>

text \<open>
  toobigout: the answer is sent. The packet and its length are now those of the answer.
\<close>

definition toobigout :: "nid \<Rightarrow> bytes \<Rightarrow> nat \<Rightarrow> aftr \<Rightarrow> bytes \<times> nat \<times> aftr" where
  "toobigout n b len s =
     (let (ident, rs) = arc4_getshort (arc4 s); s = s\<lparr>arc4 := rs\<rparr>;
          (b, len) = toobig_packet (t_mtu (tunof s (n_tunnel (natof s n)))) ident (icmpsrc s) b len;
          s = bump_timeout (n_lifetime (natof s n)) n s
      in (b, len, emit (Write4 (take len b)) s))"

definition out_key :: "bytes \<Rightarrow> nat_entry" where
  "out_key b =
     (let k = nat_zero\<lparr>n_proto := b ! IPPROTO, n_nsrc := sub b IPDST 4, n_dst := sub b IPSRC 4\<rparr>
      in if b ! IPPROTO = IPTCP \<or> b ! IPPROTO = IPUDP
         then k\<lparr>n_nport := sub b IPDPORT 2, n_dport := sub b IPSPORT 2, n_flags := MATCH_PORT\<rparr>
         else if b ! IPPROTO = IPICMP then k\<lparr>n_nport := sub b ICMPID 2, n_flags := MATCH_ICMP\<rparr>
         else k)"

text \<open>An unfragmented packet that must not be fragmented does not fit into the tunnel.\<close>

definition too_big :: "u16 \<Rightarrow> bytes \<Rightarrow> nat \<Rightarrow> bool" where
  "too_big mtu b len \<longleftrightarrow> b ! IPOFFH AND IPDF \<noteq> 0 \<and> b ! IPPROTO \<noteq> IPICMP \<and> b ! IPOFFH AND IPOFFMSK = 0 \<and>
     b ! IPOFFL = 0 \<and> len + IP6HDRLEN > unat mtu"

text \<open>
  The policy of the tunnel for such a packet: an answer, a drop (\<open>None\<close>), or both. After an
  answer alone the code restores the packet but not its length.
\<close>

definition too_big_policy :: "nid \<Rightarrow> bytes \<Rightarrow> nat \<Rightarrow> aftr \<Rightarrow> (bytes \<times> nat) option \<times> aftr" where
  "too_big_policy n b len s =
     (let tbpol = t_flags (tunof s (n_tunnel (natof s n))) AND (TUNTBDROP OR TUNTBICMP); saved = len; buf = take len b;
          (b, len, s) = (if tbpol AND TUNTBICMP \<noteq> 0 then toobigout n b len s else (b, len, s));
          b = (if tbpol = TUNTBICMP then put b 0 (take saved buf) else b)
      in if tbpol AND TUNTBDROP \<noteq> 0 then (None, stat_drop DR_TOOBIG s) else (Some (b, len), s))"

text \<open>The part of natout that translates, behind the checks.\<close>

definition natout_rewrite ::
  "config \<Rightarrow> (nat \<Rightarrow> bool) \<Rightarrow> nid \<Rightarrow> prclass \<Rightarrow> nid \<Rightarrow> bytes \<Rightarrow> nat \<Rightarrow> aftr \<Rightarrow> tid \<times> bytes \<times> nat \<times> aftr" where
  "natout_rewrite cfg mem new pr n b len s =
     (let e = natof s n; t = n_tunnel e; b = rewrite_out e b
      in if n_proto e = IPTCP then
           let b = patch_tcpmss (tunof s t) b len;
               (nn, counted, b, s) =
                 (if b ! IPSPORT = 0 \<and> b ! (IPSPORT + 1) = 21 then patch_ftpout cfg mem new n False b s
                  else if n_sport e ! 0 = 0 \<and> n_sport e ! 1 = 21 then patch_ftpout cfg mem new n True b s
                  else (n, False, b, s))
           in if nn = 0 then (0, b, len, if counted then s else stat_drop DR_NATOUT s)
              else
                let (increased, s) = tcpstate_out cfg (b ! TCPFLAGS) nn s;
                    s = (if increased then s else bump_timeout (n_lifetime (natof s nn)) nn s);
                    s = splay_promote pr nn s
                in (n_tunnel (natof s nn), b, len, s)
         else
           let s = splay_promote pr n (bump_timeout (n_lifetime (natof s n)) n s)
           in (t, b, len, s))"

definition natout ::
  "config \<Rightarrow> (nat \<Rightarrow> bool) \<Rightarrow> nid \<Rightarrow> bytes \<Rightarrow> nat \<Rightarrow> aftr \<Rightarrow> tid \<times> bytes \<times> nat \<times> aftr" where
  "natout cfg mem new b len s =
     (let pr = pr_of_packet (b ! IPPROTO); (n, s) = nat_lookup pr (out_key b) s
      in if n = 0 then (0, b, len, stat_drop DR_NATOUT s)
         else
           let e = natof s n; t = n_tunnel e
           in if n_flags e AND FTP_DATA \<noteq> 0 \<and> n_dst e \<noteq> sub b IPSRC 4 then (0, b, len, stat_drop DR_NATOUT s)
              else case (if too_big (t_mtu (tunof s t)) b len then too_big_policy n b len s else (Some (b, len), s)) of
                (None, s) \<Rightarrow> (0, b, len, s)
              | (Some (b, len), s) \<Rightarrow>
                  if n_flags e AND PRR_NULL \<noteq> 0 then
                    let b = (if b ! IPPROTO = IPTCP then patch_tcpmss (tunof s t) b len else b)
                    in (t, b, len, splay_promote pr n s)
                  else natout_rewrite cfg mem new pr n b len s)"

definition icmpout_key :: "bytes \<Rightarrow> nat_entry" where
  "icmpout_key b = nat_zero\<lparr>n_proto := b ! IP2PROTO, n_flags := MATCH_PORT, n_nsrc := sub b IPDST 4, n_dst := sub b IP2DST 4,
     n_nport := sub b IP2SPORT 2, n_dport := sub b IP2DPORT 2\<rparr>"

text \<open>The packet naticmpout makes: both headers translated, the ICMP checksum computed anew.\<close>

definition icmpout_rewrite :: "nat_entry \<Rightarrow> bytes \<Rightarrow> nat \<Rightarrow> bytes" where
  "icmpout_rewrite e b len =
     (let addr = (n_nsrc e, n_src e);
          b = put b IPDST (n_src e);
          b = put b IPCKSUMH (fix_cksum (sub b IPCKSUMH 2) (Some addr) None);
          b = put b IP2SRC (n_src e);
          b = put b IP2SPORT (n_sport e);
          b = put b IP2CKSUMH (fix_cksum (sub b IP2CKSUMH 2) (Some addr) None);
          b = b[ICMPCKSUMH := 0, ICMPCKSUML := 0]
      in icmp_cksum len b)"

definition naticmpout :: "config \<Rightarrow> bytes \<Rightarrow> nat \<Rightarrow> aftr \<Rightarrow> tid \<times> bytes \<times> aftr" where
  "naticmpout cfg b len s =
     (let (n, s) = nat_lookup (if b ! IP2PROTO = IPTCP then TCPPR else UDPPR) (icmpout_key b) s
      in if n = 0 then (0, b, stat_drop DR_NATOUT s)
         else
           let e = natof s n; t = n_tunnel e
           in if b ! IPOFFH AND IPDF \<noteq> 0 \<and> len + IP6HDRLEN > unat (t_mtu (tunof s t)) then (0, b, stat_drop DR_TOOBIG s)
              else if n_flags e AND PRR_NULL \<noteq> 0 then (t, b, s)
              else (t, icmpout_rewrite e b len, bump_timeout (nat_lifetime cfg ! 3) n s))"

text \<open>nonatout: the search through the no-NAT tunnels; not finding the prefix again is not counted.\<close>

definition nonatout :: "bytes \<Rightarrow> nat \<Rightarrow> aftr \<Rightarrow> tid \<times> bytes \<times> aftr" where
  "nonatout b len s =
     (case find (\<lambda>t. t_flags (tunof s t) AND TUNNONAT \<noteq> 0 \<and> in_nonat (tunof s t) IPDST b) (nonats s) of
        None \<Rightarrow> (0, b, s)
      | Some t \<Rightarrow>
          if too_big (t_mtu (tunof s t)) b len \<and> t_flags (tunof s t) AND TUNTBDROP \<noteq> 0
          then (0, b, stat_drop DR_TOOBIG s)
          else (t, if b ! IPPROTO = IPTCP then patch_tcpmss (tunof s t) b len else b, s))"

section \<open>Rewriting keeps the checksums valid\<close>

lemma fix_cksum_no_port: "fix_cksum ck addr (Some (p, p)) = fix_cksum ck addr None"
  by (simp add: fix_cksum_def fix_port_def)

lemma fix_cksum_no_addr: "fix_cksum ck (Some (a, a)) port = fix_cksum ck None port"
  by (simp add: fix_cksum_def fix_addr_def)

text \<open>An address in the IPv4 header, and an identifier in an ICMP header.\<close>

lemma header_moves:
  assumes valid: "in_cksum b IPHDRLEN = 0" and len: "20 \<le> length b" "b ! 0 \<noteq> 0" and a: "a = 12 \<or> a = 16"
    and new: "length naddr = 4"
  shows "in_cksum (put (put b a naddr) IPCKSUMH (fix_cksum (sub b IPCKSUMH 2) (Some (sub b a 4, naddr)) None)) IPHDRLEN = 0"
proof -
  let ?ck = "fix_cksum (sub b 10 2) (Some (sub b a 4, naddr)) (Some (sub b 4 2, sub b 4 2))"
  have "in_cksum (put (put (put b a naddr) 4 (sub b 4 2)) 10 ?ck) 20 = 0"
    by (rule fix_cksum_moves [where i = 0]) (use assms in auto)
  moreover have "put (put b a naddr) 4 (sub b 4 2) = put b a naddr"
    using len a new put_sub_self [of 4 2 "put b a naddr"] by (auto simp: sub_put_disjoint)
  ultimately show ?thesis by (simp add: fix_cksum_no_port)
qed

lemma ident_moves:
  assumes valid: "in_cksum (drop IPHDRLEN b) (len - IPHDRLEN) = 0" and len: "28 \<le> len" "len \<le> length b" "len \<le> 65535"
    and new: "length nport = 2" and nz: "b ! i \<noteq> 0" "20 \<le> i" "i < len" "i \<notin> {22..<26}"
  shows "in_cksum (drop IPHDRLEN (put (put b ICMPID nport) ICMPCKSUMH
      (fix_cksum (sub b ICMPCKSUMH 2) None (Some (sub b ICMPID 2, nport))))) (len - IPHDRLEN) = 0"
proof -
  let ?d = "drop 20 b" and ?p = "(sub b 24 2, nport)"
  have dp: "drop 20 (put c i x) = put (drop 20 c) (i - 20) x" if "20 \<le> i" "i + length x \<le> length c" for c :: bytes and i x
    using that by (intro nth_equalityI) (auto simp: nth_put add.commute)
  have "\<exists>k. be_sum (fix_cksum (sub b 22 2) None (Some ?p)) = be_sum (sub b 22 2) + be_sum (sub b 24 2) - be_sum nport + 65535 * k"
    using fix_cksum_cong [of "sub b 22 2" None "Some ?p"] len new by (auto simp: pair_len_def old_sum_def new_sum_def)
  then obtain k where k: "be_sum (fix_cksum (sub b 22 2) None (Some ?p)) =
      be_sum (sub b 22 2) + be_sum (sub b 24 2) - be_sum nport + 65535 * k" by blast
  let ?b1 = "put ?d 4 nport"
  let ?b2 = "put ?b1 2 (fix_cksum (sub b 22 2) None (Some ?p))"
  have s: "sub ?d 2 2 = sub b 22 2" "sub ?d 4 2 = sub b 24 2" "sub ?b1 2 2 = sub b 22 2"
    using len new by (simp_all add: sub_drop sub_put_disjoint)
  have "be_sum (take (len - 20) ?b1) = be_sum (take (len - 20) ?d) + be_sum nport - be_sum (sub b 24 2)"
    using be_sum_take_put [of 4 nport "len - 20" ?d] len new s by simp
  moreover have "be_sum (take (len - 20) ?b2) = be_sum (take (len - 20) ?b1) +
      be_sum (fix_cksum (sub b 22 2) None (Some ?p)) - be_sum (sub b 22 2)"
    using be_sum_take_put [of 2 "fix_cksum (sub b 22 2) None (Some ?p)" "len - 20" ?b1] len new s by simp
  ultimately have "be_sum (take (len - 20) ?b2) = be_sum (take (len - 20) ?d) + 65535 * k" using k by simp
  moreover have "?b2 ! (i - 20) \<noteq> 0" using nz len new by (auto simp: nth_put)
  ultimately have "in_cksum ?b2 (len - 20) = 0"
    using in_cksum_moved [OF valid, of ?b2 k "i - 20"] len new nz by simp
  then show ?thesis using len new by (simp add: dp)
qed

text \<open>A packet whose checksums verify; a UDP checksum of 0 is none.\<close>

definition cksums_ok :: "bytes \<Rightarrow> nat \<Rightarrow> bool" where
  "cksums_ok b len \<longleftrightarrow> in_cksum b IPHDRLEN = 0 \<and>
     (if b ! IPPROTO = IPTCP then
        fst (pseudo_cksum b [hi8 (int (len - IPHDRLEN)), lo8 (int (len - IPHDRLEN))] len) = 0
      else if b ! IPPROTO = IPUDP then
        (b ! UDPCKSUMH = 0 \<and> b ! UDPCKSUML = 0) \<or> fst (pseudo_cksum b (sub b UDPLEN 2) len) = 0
      else if b ! IPPROTO = IPICMP then in_cksum (drop IPHDRLEN b) (len - IPHDRLEN) = 0
      else True)"

text \<open>The packet is one of the entry, and long enough for its protocol.\<close>

definition packet_of :: "nat_entry \<Rightarrow> bytes \<Rightarrow> nat \<Rightarrow> bool" where
  "packet_of e b len \<longleftrightarrow> b ! 0 = IP4VNOOP \<and> 28 \<le> len \<and> len \<le> length b \<and> len \<le> 65535 \<and> b ! IPPROTO = n_proto e \<and>
     (n_proto e = IPTCP \<and> 40 \<le> len \<and> n_flags e AND MATCH_PORT \<noteq> 0 \<or>
      n_proto e = IPUDP \<and> n_flags e AND MATCH_PORT \<noteq> 0 \<or>
      n_proto e = IPICMP \<and> n_flags e AND MATCH_PORT = 0 \<and> n_flags e AND MATCH_ICMP \<noteq> 0 \<and>
        (\<exists>i. 20 \<le> i \<and> i < len \<and> i \<notin> {22..<26} \<and> b ! i \<noteq> 0))"

lemma put_swap:
  assumes "i + length x \<le> j \<or> j + length y \<le> i" "i + length x \<le> length b" "j + length y \<le> length b"
  shows "put (put b i x) j y = put (put b j y) i x"
  using assms by (intro nth_equalityI) (auto simp: nth_put)

lemma take_put_part: "i + length x \<le> n \<Longrightarrow> n \<le> length b \<Longrightarrow> take n (put b i x) = put (take n b) i x"
  by (intro nth_equalityI) (auto simp: nth_put)

lemma pseudo_cong:
  assumes "\<And>i. i < l \<Longrightarrow> i \<noteq> 10 \<Longrightarrow> i \<noteq> 11 \<Longrightarrow> b' ! i = b ! i" "l \<le> length b" "l \<le> length b'" "12 \<le> l" "l \<le> 65536"
  shows "fst (pseudo_cksum b' pl l) = fst (pseudo_cksum b pl l)"
proof -
  have "take (l - 8) (phdr b' pl) = take (l - 8) (phdr b pl)"
    using assms by (intro nth_equalityI) (auto simp: phdr_def nth_list_update)
  then show ?thesis unfolding pseudo_phdr using assms by (intro in_cksum_cong) simp_all
qed

lemma nat_rewrite_valid:
  assumes p: "packet_of e b len" and c: "cksums_ok b len"
    and aq: "a = 12 \<and> q = 20 \<or> a = 16 \<and> q = 22"
    and old: "fst addr = sub b a 4" "fst port = (if n_proto e = IPICMP then sub b ICMPID 2 else sub b q 2)"
    and new: "length (snd addr) = 4" "length (snd port) = 2"
  shows "cksums_ok (nat_rewrite a q addr port e b) len \<and> length (nat_rewrite a q addr port e b) = length b"
proof -
  obtain oa na op np where ap: "addr = (oa, na)" "port = (op, np)" by (cases addr, cases port)
  have l: "28 \<le> len" "len \<le> length b" "len \<le> 65535" "28 \<le> length b" and v: "b ! 0 = 69" using p by (auto simp: packet_of_def)
  have n4: "length na = 4" "length np = 2" "oa = sub b a 4" using new old ap by simp_all
  define b1 where "b1 = put b a na"
  define ck where "ck = fix_cksum (sub b 10 2) (Some (oa, na)) None"
  define b2 where "b2 = put b1 10 ck"
  have a: "a = 12 \<or> a = 16" and q: "q = 20 \<or> q = 22" using aq by auto
  have lens: "length b1 = length b" "length b2 = length b" "length ck = 2"
    using l n4 a by (auto simp: b1_def b2_def ck_def)
  have c2: "sub b1 10 2 = sub b 10 2" using a l n4 by (auto simp: b1_def sub_put_disjoint)
  have ipok: "in_cksum b2 20 = 0"
    using header_moves [OF _ _ _ a n4(1), of b] c l v n4(3) by (simp add: b2_def b1_def ck_def cksums_ok_def)
  have hd: "in_cksum b' 20 = 0" if "take 20 b' = take 20 b2" "20 \<le> length b'" for b'
    using ipok in_cksum_cong [OF that(1)] that(2) lens l by simp
  have pr2: "b2 ! 9 = n_proto e" "b2 ! 9 = b ! 9"
    using a l n4 lens p by (auto simp: b2_def b1_def nth_put packet_of_def)
  consider (tcp) "n_proto e = 6" "40 \<le> len" "n_flags e AND 4 \<noteq> 0" | (udp) "n_proto e = 17" "n_flags e AND 4 \<noteq> 0"
    | (icmp) "n_proto e = 1" "n_flags e AND 4 = 0" "n_flags e AND 8 \<noteq> 0"
    using p by (auto simp: packet_of_def)
  then show ?thesis
  proof cases
    case tcp
    have op: "op = sub b q 2" using old ap tcp by simp
    let ?ck = "fix_cksum (sub b 36 2) (Some (oa, na)) (Some (op, np))"
    define b4 where "b4 = put (put b2 q np) 36 ?ck"
    have s36: "sub (put b2 q np) 36 2 = sub b 36 2"
      using q a l n4 lens tcp by (auto simp: b2_def b1_def sub_put_disjoint)
    have r: "nat_rewrite a q addr port e b = b4"
      using tcp s36 by (simp add: nat_rewrite_def ap Let_def b4_def b2_def b1_def [symmetric] ck_def c2)
    have len4: "length b4 = length b" using q l lens n4 tcp by (auto simp: b4_def)
    have "take 20 b4 = take 20 b2" using q l lens n4 tcp by (auto simp: b4_def take_put_after)
    then have "in_cksum b4 20 = 0" using hd len4 l by simp
    moreover have "fst (pseudo_cksum b4 pl len) = 0" if "fst (pseudo_cksum b pl len) = 0" for pl
    proof -
      have "fst (pseudo_cksum (put (put (put b a na) q np) 36 ?ck) pl len) = 0"
        using pseudo_moves [OF that _ _ a q, of 36 na np] l n4 op tcp pr2 by simp
      moreover have "fst (pseudo_cksum b4 pl len) = fst (pseudo_cksum (put (put (put b a na) q np) 36 ?ck) pl len)"
        using a q l n4 lens tcp by (intro pseudo_cong) (auto simp: b4_def b2_def b1_def nth_put)
      ultimately show ?thesis by simp
    qed
    moreover have "b4 ! 9 = 6" using q l lens n4 tcp pr2 by (auto simp: b4_def nth_put)
    ultimately show ?thesis using c tcp pr2 len4 unfolding r by (simp add: cksums_ok_def)
  next
    case udp
    have op: "op = sub b q 2" using old ap udp by simp
    let ?ck = "fix_cksum (sub b 26 2) (Some (oa, na)) (Some (op, np))"
    define b3 where "b3 = put b2 q np"
    have len3: "length b3 = length b" using q l lens n4 by (auto simp: b3_def)
    have s26: "sub b3 26 2 = sub b 26 2" "b3 ! 26 = b ! 26" "b3 ! 27 = b ! 27"
      using q a l n4 lens by (auto simp: b3_def b2_def b1_def sub_put_disjoint nth_put)
    define b4 where "b4 = (if b ! 26 \<noteq> 0 \<or> b ! 27 \<noteq> 0 then put b3 26 ?ck else b3)"
    have r: "nat_rewrite a q addr port e b = b4"
      using udp s26 [unfolded b3_def b2_def ck_def]
      by (simp add: nat_rewrite_def ap Let_def b4_def b3_def b2_def b1_def [symmetric] ck_def c2)
    have len4: "length b4 = length b" using l len3 by (auto simp: b4_def)
    have "take 20 b4 = take 20 b2" using q l lens n4 len3 by (auto simp: b4_def b3_def take_put_after)
    then have "in_cksum b4 20 = 0" using hd len4 l by simp
    moreover have "fst (pseudo_cksum b4 pl len) = 0" if "fst (pseudo_cksum b pl len) = 0" "b ! 26 \<noteq> 0 \<or> b ! 27 \<noteq> 0" for pl
    proof -
      have "fst (pseudo_cksum (put (put (put b a na) q np) 26 ?ck) pl len) = 0"
        using pseudo_moves [OF that(1) _ _ a q, of 26 na np] l n4 op udp pr2 by simp
      moreover have "fst (pseudo_cksum b4 pl len) = fst (pseudo_cksum (put (put (put b a na) q np) 26 ?ck) pl len)"
        using a q l n4 lens len3 that(2) by (intro pseudo_cong) (auto simp: b4_def b3_def b2_def b1_def nth_put)
      ultimately show ?thesis by simp
    qed
    moreover have "b4 ! 9 = 17" "sub b4 24 2 = sub b 24 2"
      using q a l lens n4 udp pr2 len3 by (auto simp: b4_def b3_def b2_def b1_def nth_put sub_put_disjoint)
    moreover have "b ! 26 = 0 \<Longrightarrow> b ! 27 = 0 \<Longrightarrow> b4 ! 26 = 0 \<and> b4 ! 27 = 0" using s26 by (simp add: b4_def)
    ultimately show ?thesis using c udp pr2 len4 unfolding r by (auto simp: cksums_ok_def)
  next
    case icmp
    have op: "op = sub b 24 2" using old ap icmp by simp
    obtain i where i: "20 \<le> i" "i < len" "i \<notin> {22..<26}" "b ! i \<noteq> 0"
      using p icmp by (auto simp: packet_of_def)
    let ?ck = "fix_cksum (sub b 22 2) None (Some (op, np))"
    define b4 where "b4 = put (put b2 24 np) 22 ?ck"
    have s22: "sub (put b2 24 np) 22 2 = sub b 22 2"
      using a l n4 lens by (auto simp: b2_def b1_def sub_put_disjoint)
    have r: "nat_rewrite a q addr port e b = b4"
      using icmp s22 by (simp add: nat_rewrite_def ap Let_def b4_def b2_def b1_def [symmetric] ck_def c2)
    have len4: "length b4 = length b" using l lens n4 by (auto simp: b4_def)
    have "take 20 b4 = take 20 b2" using l lens n4 by (auto simp: b4_def take_put_after)
    then have "in_cksum b4 20 = 0" using hd len4 l by simp
    moreover have "in_cksum (drop 20 b4) (len - 20) = 0"
    proof -
      have "drop 20 b4 = drop 20 (put (put b 24 np) 22 ?ck)"
        using a l n4 lens by (intro nth_equalityI) (auto simp: b4_def b2_def b1_def nth_put)
      moreover have "in_cksum (drop 20 b) (len - 20) = 0" using c icmp pr2 by (simp add: cksums_ok_def)
      ultimately show ?thesis using ident_moves [OF _ l(1,2,3) n4(2) i(4,1,2,3)] op by simp
    qed
    moreover have "b4 ! 9 = 1" using l lens n4 icmp pr2 by (auto simp: b4_def nth_put)
    ultimately show ?thesis using icmp len4 unfolding r by (simp add: cksums_ok_def)
  qed
qed
end
