(* ===== verification/Aftr_Tunnel.thy ===== *)
theory Aftr_Tunnel
  imports Aftr_Acl
begin

text \<open>
  The tunnels: the radix tree that finds a tunnel by its remote address, the hash table in
  front of it, and the operations that add, change and delete a tunnel. The parent pointers
  of the tree are the path of a zipper; a node is located by its tunnel pointer.
\<close>

section \<open>The radix tree\<close>

abbreviation (input) MAXTUNBIT :: nat where "MAXTUNBIT \<equiv> 128"

fun tunnel_tree_find :: "bytes \<Rightarrow> ttree \<Rightarrow> tid option" where
  "tunnel_tree_find key TNull = None"
| "tunnel_tree_find key (TNode b glue k t l r) =
     (if b < MAXTUNBIT
      then if key_bit key b then tunnel_tree_find key r else tunnel_tree_find key l
      else if b > MAXTUNBIT \<or> glue then None
      else if k = key then Some t
      else None)"

text \<open>A step of the path from a node to the root: which child it is, and the parent without it.\<close>

datatype tstep = WasLeft nat bool bytes tid ttree | WasRight nat bool bytes tid ttree

fun tplug1 :: "tstep \<Rightarrow> ttree \<Rightarrow> ttree" where
  "tplug1 (WasLeft b g k t r) x = TNode b g k t x r"
| "tplug1 (WasRight b g k t l) x = TNode b g k t l x"

fun tplug :: "tstep list \<Rightarrow> ttree \<Rightarrow> ttree" where
  "tplug [] x = x"
| "tplug (p # ps) x = tplug ps (tplug1 p x)"

fun step_bit :: "tstep \<Rightarrow> nat" where
  "step_bit (WasLeft b g k t r) = b"
| "step_bit (WasRight b g k t l) = b"

fun tbit :: "ttree \<Rightarrow> nat" where
  "tbit TNull = 0"
| "tbit (TNode b g k t l r) = b"

fun tkey :: "ttree \<Rightarrow> bytes" where
  "tkey TNull = []"
| "tkey (TNode b g k t l r) = k"

fun tglue :: "ttree \<Rightarrow> bool" where
  "tglue TNull = False"
| "tglue (TNode b g k t l r) = g"

text \<open>The descent of tunnel_tree_insert: down to a tunnel or to a missing child.\<close>

fun tdescend :: "bytes \<Rightarrow> ttree \<Rightarrow> tstep list \<Rightarrow> ttree \<times> tstep list" where
  "tdescend key TNull ps = (TNull, ps)"
| "tdescend key (TNode b g k t l r) ps =
     (if b < MAXTUNBIT \<or> g
      then if key_bit key b
           then if r = TNull then (TNode b g k t l r, ps)
                else tdescend key r (WasRight b g k t l # ps)
           else if l = TNull then (TNode b g k t l r, ps)
                else tdescend key l (WasLeft b g k t r # ps)
      else (TNode b g k t l r, ps))"

text \<open>
  The loop over the bytes for the first bit that differs. The inner loop is the first \<open>j\<close>
  below 8 whose bit is set in \<open>x\<close>, which is not 0 there.
\<close>

definition first_bit :: "u8 \<Rightarrow> nat" where
  "first_bit x = length (takeWhile (\<lambda>j. x AND drop_bit j 0x80 = 0) [0..<8])"

function differ_loop :: "bytes \<Rightarrow> bytes \<Rightarrow> nat \<Rightarrow> nat \<Rightarrow> nat \<Rightarrow> nat" where
  "differ_loop key nkey check i differ =
     (if i * 8 < check
      then let r = key ! i XOR nkey ! i
           in if r = 0 then differ_loop key nkey check (i + 1) ((i + 1) * 8)
              else i * 8 + first_bit r
      else differ)"
  by auto
termination by (relation "measure (\<lambda>(key, nkey, check, i, differ). check - i * 8)") auto

declare differ_loop.simps [simp del]

text \<open>\<open>while (parent != NULL && parent->bit >= differ)\<close>.\<close>

fun tclimb :: "nat \<Rightarrow> ttree \<Rightarrow> tstep list \<Rightarrow> ttree \<times> tstep list" where
  "tclimb differ node [] = (node, [])"
| "tclimb differ node (p # ps) =
     (if step_bit p \<ge> differ then tclimb differ (tplug1 p node) ps else (node, p # ps))"

text \<open>
  tunnel_tree_insert. \<open>mem\<close> is the malloc of the glue node. The result is the returned
  pointer (0 for NULL), \<open>*exposing\<close>, and the tree. A glue node is no tunnel: its pointer is 0.
\<close>

definition tunnel_tree_insert :: "bool \<Rightarrow> bytes \<Rightarrow> tid \<Rightarrow> ttree \<Rightarrow> tid \<times> bool \<times> ttree" where
  "tunnel_tree_insert mem key t tree =
     (if tree = TNull then (0, False, TNode MAXTUNBIT False key t TNull TNull)
      else
        let (node, ps) = tdescend key tree [];
            check = (if tbit node < MAXTUNBIT then tbit node else MAXTUNBIT);
            differ = min (differ_loop key (tkey node) check 0 0) check;
            (node, ps) = tclimb differ node ps
        in case node of
             TNull \<Rightarrow> (0, False, tree)
           | TNode b g k e l r \<Rightarrow>
               if differ = MAXTUNBIT \<and> b = MAXTUNBIT
               then if \<not> g then (e, False, tree)
                    else (e, True, tplug ps (TNode b False key e l r))
               else if b = differ
               then if b < MAXTUNBIT \<and> key_bit key b
                    then (0, False, tplug ps (TNode b g k e l (TNode MAXTUNBIT False key t TNull TNull)))
                    else (0, False, tplug ps (TNode b g k e (TNode MAXTUNBIT False key t TNull TNull) r))
               else if differ = MAXTUNBIT
               then (0, False, tplug ps (TNode MAXTUNBIT False key t node TNull))
               else if \<not> mem then (t, False, tree)
               else
                 let new = TNode MAXTUNBIT False key t TNull TNull
                 in if key_bit key differ
                    then (0, False, tplug ps (TNode differ True (replicate 16 0) 0 node new))
                    else (0, False, tplug ps (TNode differ True (replicate 16 0) 0 new node)))"

text \<open>The node of a tunnel, with its path.\<close>

fun tlocate :: "tid \<Rightarrow> ttree \<Rightarrow> tstep list \<Rightarrow> (ttree \<times> tstep list) option" where
  "tlocate x TNull ps = None"
| "tlocate x (TNode b g k t l r) ps =
     (if t = x then Some (TNode b g k t l r, ps)
      else case tlocate x l (WasLeft b g k t r # ps) of
             Some y \<Rightarrow> Some y
           | None \<Rightarrow> tlocate x r (WasRight b g k t l # ps))"

text \<open>The parent with its other child, as the code reads it after it has cut the child off.\<close>

fun cut_child :: "tstep \<Rightarrow> ttree \<times> ttree" where
  "cut_child (WasLeft b g k t r) = (TNode b g k t TNull r, r)"
| "cut_child (WasRight b g k t l) = (TNode b g k t l TNull, l)"

text \<open>
  tunnel_tree_remove. \<open>None\<close> is an access through a null pointer (a glue parent without a
  second child), or a tunnel that is not in the tree.
\<close>

definition tunnel_tree_remove :: "tid \<Rightarrow> ttree \<Rightarrow> ttree option" where
  "tunnel_tree_remove x tree =
     (case tlocate x tree [] of
        Some (TNode b g k t l r, ps) \<Rightarrow>
          if r \<noteq> TNull \<and> l \<noteq> TNull then Some (tplug ps (TNode b True k t l r))
          else if r = TNull \<and> l = TNull then
            (case ps of
               [] \<Rightarrow> Some TNull
             | p # ps \<Rightarrow>
                 let (parent, child) = cut_child p
                 in if \<not> tglue parent then Some (tplug ps parent)
                    else if child = TNull then None
                    else Some (tplug ps child))
          else Some (tplug ps (if r \<noteq> TNull then r else l))
      | _ \<Rightarrow> None)"


section \<open>The tree as a map\<close>

fun tleaves :: "ttree \<Rightarrow> (bytes \<times> tid) set" where
  "tleaves TNull = {}"
| "tleaves (TNode b g k t l r) = (if g then {} else {(k, t)}) \<union> tleaves l \<union> tleaves r"

text \<open>
  The invariant: a tunnel is a leaf with bit 128; an inner node is a glue node with two
  children, whose keys agree before its bit, differ at it, and that branch at later bits.
\<close>

fun twf :: "ttree \<Rightarrow> bool" where
  "twf TNull = True"
| "twf (TNode b g k t l r) =
     (if b = MAXTUNBIT then \<not> g \<and> t \<noteq> 0 \<and> length k = 16 \<and> l = TNull \<and> r = TNull
      else b < MAXTUNBIT \<and> g \<and> t = 0 \<and> l \<noteq> TNull \<and> r \<noteq> TNull \<and> twf l \<and> twf r \<and> b < tbit l \<and> b < tbit r \<and>
        (\<forall>(k, t) \<in> tleaves l. \<not> key_bit k b) \<and> (\<forall>(k, t) \<in> tleaves r. key_bit k b) \<and>
        (\<forall>(k, t) \<in> tleaves l \<union> tleaves r. \<forall>(k', t') \<in> tleaves l \<union> tleaves r. prefix_agree b k k'))"

lemma prefix_agree_refl [simp]: "prefix_agree n x x"
  by (simp add: prefix_agree_def)

lemma prefix_agree_sym: "prefix_agree n x y \<Longrightarrow> prefix_agree n y x"
  by (simp add: prefix_agree_def)

lemma prefix_agree_trans: "prefix_agree n x y \<Longrightarrow> prefix_agree m y z \<Longrightarrow> prefix_agree (min n m) x z"
  by (simp add: prefix_agree_def)

lemma prefix_agree_le: "prefix_agree n x y \<Longrightarrow> m \<le> n \<Longrightarrow> prefix_agree m x y"
  by (simp add: prefix_agree_def)

lemma twf_bit: "twf T \<Longrightarrow> tbit T \<le> 128"
  by (cases T) (auto split: if_splits)

lemma twf_leaves: "twf T \<Longrightarrow> T \<noteq> TNull \<Longrightarrow> tleaves T \<noteq> {}"
  by (induction T) (auto split: if_splits)

lemma twf_entry: "twf T \<Longrightarrow> (k, t) \<in> tleaves T \<Longrightarrow> length k = 16 \<and> t \<noteq> 0"
  by (induction T) (auto split: if_splits)

lemma twf_agree:
  "twf T \<Longrightarrow> (k, t) \<in> tleaves T \<Longrightarrow> (k', t') \<in> tleaves T \<Longrightarrow> tbit T < 128 \<Longrightarrow> prefix_agree (tbit T) k k'"
  by (cases T) (fastforce split: if_splits)+

lemma twf_glue:
  "b \<noteq> 128 \<Longrightarrow> twf (TNode b g k t l r) \<longleftrightarrow>
     b < 128 \<and> g \<and> t = 0 \<and> l \<noteq> TNull \<and> r \<noteq> TNull \<and> twf l \<and> twf r \<and> b < tbit l \<and> b < tbit r \<and>
     (\<forall>k t. (k, t) \<in> tleaves l \<longrightarrow> \<not> key_bit k b) \<and> (\<forall>k t. (k, t) \<in> tleaves r \<longrightarrow> key_bit k b) \<and>
     (\<forall>k t k' t'. (k, t) \<in> tleaves l \<union> tleaves r \<and> (k', t') \<in> tleaves l \<union> tleaves r \<longrightarrow> prefix_agree b k k')"
  unfolding twf.simps by (simp only: if_False) blast

lemma tunnel_tree_find_iff: "twf T \<Longrightarrow> tunnel_tree_find key T = Some t \<longleftrightarrow> (key, t) \<in> tleaves T"
proof (induction T)
  case (TNode b g k u l r)
  show ?case
  proof (cases "b = 128")
    case True
    then show ?thesis using TNode.prems by auto
  next
    case False
    note w = twf_glue [OF False, THEN iffD1, OF TNode.prems]
    then show ?thesis using TNode.IH by auto
  qed
qed simp

lemma tunnel_tree_find_None: "twf T \<Longrightarrow> tunnel_tree_find key T = None \<longleftrightarrow> (\<forall>t. (key, t) \<notin> tleaves T)"
  using tunnel_tree_find_iff by (metis option.exhaust option.simps(3))

section \<open>The first bit that differs\<close>

lemma byte_bit: "j < 8 \<Longrightarrow> x AND drop_bit j 0x80 = 0 \<longleftrightarrow> \<not> bit (x :: u8) (7 - j)"
  using key_bit_iff [of "[x]" j] by (auto simp: key_bit_def)

lemma takeWhile_stops: "\<exists>x \<in> set xs. \<not> P x \<Longrightarrow> length (takeWhile P xs) < length xs"
  by (induction xs) auto

lemma first_bit_spec:
  assumes "x \<noteq> 0"
  shows "first_bit x < 8 \<and> bit x (7 - first_bit x) \<and> (\<forall>j < first_bit x. \<not> bit x (7 - j))"
proof -
  let ?P = "\<lambda>j. x AND drop_bit j 0x80 = 0"
  let ?n = "length (takeWhile ?P [0..<8])"
  obtain m where m: "m < 8" "bit x m" using assms word_eq_bits8 [of x 0] by auto
  then have "\<not> ?P (7 - m)" "7 - m \<in> set [0..<8]" using byte_bit [of "7 - m" x] by simp_all
  then have "?n < length [0..<8]" by (intro takeWhile_stops) blast
  then have lt: "?n < 8" unfolding length_upt by simp
  have nth: "[0..<8] ! j = j" if "j < 8" for j :: nat using that nth_upt [of 0 j 8] unfolding add_0 by blast
  have "\<not> ?P ([0..<8] ! ?n)" by (rule nth_length_takeWhile) fact
  then have "\<not> ?P ?n" unfolding nth [OF lt] .
  moreover have "?P j" if "j < ?n" for j
  proof -
    have "takeWhile ?P [0..<8] ! j = [0..<8] ! j" by (rule takeWhile_nth) fact
    then have "j \<in> set (takeWhile ?P [0..<8])"
      using nth_mem [OF that] nth [OF order_less_trans [OF that lt]] by (simp only:)
    then show ?thesis by (blast dest: set_takeWhileD)
  qed
  ultimately show ?thesis unfolding first_bit_def using lt byte_bit by (meson order_less_trans)
qed

lemma prefix_agree_byte:
  assumes "prefix_agree (8 * i) x y"
  shows "x ! i = y ! i \<Longrightarrow> prefix_agree (8 * i + 8) x y"
    and "x ! i XOR y ! i = d \<Longrightarrow> d \<noteq> 0 \<Longrightarrow>
      prefix_agree (8 * i + first_bit d) x y \<and> key_bit x (8 * i + first_bit d) \<noteq> key_bit y (8 * i + first_bit d)"
proof -
  have cell: "key_bit z (8 * i + j) = bit (z ! i) (7 - j)" if "j < 8" for z j
    using that by (simp add: key_bit_iff)
  have split: "b < 8 * i \<or> (\<exists>j. b = 8 * i + j \<and> j < n)" if "b < 8 * i + n" for b n
    using that by (metis add_diff_inverse_nat nat_add_left_cancel_less)
  show "prefix_agree (8 * i + 8) x y" if "x ! i = y ! i"
    using split assms that cell unfolding prefix_agree_def by metis
  assume d: "x ! i XOR y ! i = d" "d \<noteq> 0"
  have b: "bit d m \<longleftrightarrow> bit (x ! i) m \<noteq> bit (y ! i) m" for m using d(1) by (auto simp: bit_xor_iff)
  note f = first_bit_spec [OF d(2), unfolded b]
  have "key_bit x (8 * i + j) = key_bit y (8 * i + j)" if "j < first_bit d" for j
    using f that cell by (meson order_less_trans)
  then have "prefix_agree (8 * i + first_bit d) x y"
    using split assms unfolding prefix_agree_def by metis
  then show "prefix_agree (8 * i + first_bit d) x y \<and> key_bit x (8 * i + first_bit d) \<noteq> key_bit y (8 * i + first_bit d)"
    using f cell by blast
qed

lemma differ_loop_spec:
  assumes "prefix_agree (8 * i) key nkey" "i \<le> 16"
  shows "differ_loop key nkey 128 i (8 * i) \<le> 128 \<and> prefix_agree (differ_loop key nkey 128 i (8 * i)) key nkey \<and>
    (differ_loop key nkey 128 i (8 * i) < 128 \<longrightarrow>
       key_bit key (differ_loop key nkey 128 i (8 * i)) \<noteq> key_bit nkey (differ_loop key nkey 128 i (8 * i)))"
  using assms
proof (induction "16 - i" arbitrary: i)
  case 0
  then have "i = 16" by simp
  then show ?case using 0 by (simp add: differ_loop.simps)
next
  case (Suc n)
  then have i: "i < 16" by simp
  show ?case
  proof (cases "key ! i = nkey ! i")
    case True
    then have "differ_loop key nkey 128 i (8 * i) = differ_loop key nkey 128 (i + 1) (8 * (i + 1))"
      using i by (subst differ_loop.simps) (simp add: mult.commute)
    moreover have "prefix_agree (8 * (i + 1)) key nkey" using prefix_agree_byte(1) [OF Suc.prems(1) True] by (simp add: add.commute)
    ultimately show ?thesis using Suc.hyps(1) [of "i + 1"] Suc.hyps(2) i by auto
  next
    case False
    let ?d = "key ! i XOR nkey ! i"
    have d: "?d \<noteq> 0" using False by (auto simp: word_eq_bits8 bit_xor_iff)
    then have e: "differ_loop key nkey 128 i (8 * i) = 8 * i + first_bit ?d"
      using i by (subst differ_loop.simps) (simp add: mult.commute Let_def)
    show ?thesis unfolding e using prefix_agree_byte(2) [OF Suc.prems(1) refl d] first_bit_spec [OF d] i by auto
  qed
qed

lemma differ_spec:
  fixes key nkey defines "d \<equiv> differ_loop key nkey 128 0 0"
  shows "d \<le> 128" "prefix_agree d key nkey" "d < 128 \<Longrightarrow> key_bit key d \<noteq> key_bit nkey d"
  using differ_loop_spec [of 0 key nkey] unfolding d_def by (auto simp: prefix_agree_def)

lemma differ_all: "length key = 16 \<Longrightarrow> length nkey = 16 \<Longrightarrow> differ_loop key nkey 128 0 0 = 128 \<longleftrightarrow> key = nkey"
  using differ_spec [of key nkey] key_eqI [of key 16 nkey] by (force simp: prefix_agree_def)


section \<open>Insertion\<close>

text \<open>The two kinds of node of a well-formed tree, as a case and an induction rule.\<close>

definition branch_ok :: "nat \<Rightarrow> ttree \<Rightarrow> ttree \<Rightarrow> bool" where
  "branch_ok b l r \<longleftrightarrow> b < 128 \<and> l \<noteq> TNull \<and> r \<noteq> TNull \<and> twf l \<and> twf r \<and> b < tbit l \<and> b < tbit r \<and>
     (\<forall>k t. (k, t) \<in> tleaves l \<longrightarrow> \<not> key_bit k b) \<and> (\<forall>k t. (k, t) \<in> tleaves r \<longrightarrow> key_bit k b) \<and>
     (\<forall>k t k' t'. (k, t) \<in> tleaves l \<union> tleaves r \<and> (k', t') \<in> tleaves l \<union> tleaves r \<longrightarrow> prefix_agree b k k')"

lemma twf_branch: "b < 128 \<Longrightarrow> twf (TNode b g k t l r) \<longleftrightarrow> g \<and> t = 0 \<and> branch_ok b l r"
  by (simp add: branch_ok_def twf_glue del: twf.simps)

lemma twf_induct [consumes 2, case_names leaf glue]:
  assumes "twf T" "T \<noteq> TNull"
    and leaf: "\<And>k t. t \<noteq> 0 \<Longrightarrow> length k = 16 \<Longrightarrow> P (TNode 128 False k t TNull TNull)"
    and glue: "\<And>b k l r. branch_ok b l r \<Longrightarrow> P l \<Longrightarrow> P r \<Longrightarrow> P (TNode b True k 0 l r)"
  shows "P T"
  using assms(1,2)
proof (induction T)
  case (TNode b g k t l r)
  show ?case
  proof (cases "b = 128")
    case True
    then show ?thesis using TNode.prems leaf [of t k] by simp
  next
    case False
    then have "b < 128" using TNode.prems twf_glue by blast
    then have "g \<and> t = 0 \<and> branch_ok b l r" using TNode.prems twf_branch by blast
    moreover from this have "P l" "P r" using TNode.IH by (simp_all add: branch_ok_def)
    ultimately show ?thesis using glue [of b l r k] by simp
  qed
qed simp

lemma branch_basics:
  assumes "branch_ok b l r" shows "b < 128" "b \<noteq> 128" "l \<noteq> TNull" "r \<noteq> TNull" "b < tbit l" "b < tbit r" "twf l" "twf r"
  using assms by (auto simp: branch_ok_def)

lemma branch_side:
  "branch_ok b l r \<Longrightarrow> (k, t) \<in> tleaves l \<Longrightarrow> \<not> key_bit k b"
  "branch_ok b l r \<Longrightarrow> (k, t) \<in> tleaves r \<Longrightarrow> key_bit k b"
  by (auto simp: branch_ok_def)

lemma branch_agree:
  "branch_ok b l r \<Longrightarrow> (k, t) \<in> tleaves l \<union> tleaves r \<Longrightarrow> (k', t') \<in> tleaves l \<union> tleaves r \<Longrightarrow> prefix_agree b k k'"
  unfolding branch_ok_def by blast

text \<open>
  The descent and the climb together find the first node on the way down whose bit is not
  before \<open>d\<close>; \<open>tapply\<close> replaces that node.
\<close>

fun tfirst :: "nat \<Rightarrow> bytes \<Rightarrow> ttree \<Rightarrow> tstep list \<Rightarrow> ttree \<times> tstep list" where
  "tfirst d key TNull ps = (TNull, ps)"
| "tfirst d key (TNode b g k t l r) ps =
     (if b \<ge> d then (TNode b g k t l r, ps)
      else if key_bit key b then tfirst d key r (WasRight b g k t l # ps)
      else tfirst d key l (WasLeft b g k t r # ps))"

fun tapply :: "nat \<Rightarrow> bytes \<Rightarrow> (ttree \<Rightarrow> ttree) \<Rightarrow> ttree \<Rightarrow> ttree" where
  "tapply d key J TNull = TNull"
| "tapply d key J (TNode b g k t l r) =
     (if b \<ge> d then J (TNode b g k t l r)
      else if key_bit key b then TNode b g k t l (tapply d key J r)
      else TNode b g k t (tapply d key J l) r)"

fun tdown :: "bytes \<Rightarrow> ttree \<Rightarrow> bytes \<times> tid" where
  "tdown key TNull = ([], 0)"
| "tdown key (TNode b g k t l r) =
     (if b = 128 then (k, t) else if key_bit key b then tdown key r else tdown key l)"

lemma tdown_leaf: "twf T \<Longrightarrow> T \<noteq> TNull \<Longrightarrow> tdown key T \<in> tleaves T"
  by (induction rule: twf_induct) (auto dest: branch_basics)

lemma tdown_bit:
  assumes "branch_ok b l r"
  shows "key_bit (fst (tdown key (TNode b True k 0 l r))) b = key_bit key b"
  using assms branch_side [OF assms] tdown_leaf [of l key] tdown_leaf [of r key] branch_basics [OF assms]
  by (simp add: prod_eq_iff) (metis prod.collapse)

lemma tdescend_down:
  assumes "twf T" "T \<noteq> TNull" "tdescend key T ps = (node, qs)"
  shows "node = TNode 128 False (fst (tdown key T)) (snd (tdown key T)) TNull TNull \<and> tplug qs node = tplug ps T"
  using assms
proof (induction T arbitrary: ps rule: twf_induct)
  case (glue b k l r)
  then show ?case
    using glue.IH(1) [of "WasLeft b True k 0 r # ps"] glue.IH(2) [of "WasRight b True k 0 l # ps"]
    by (auto split: if_splits dest: branch_basics)
qed auto

lemma tfirst_at: "tbit c \<ge> d \<Longrightarrow> tfirst d key c ps = (c, ps)"
  by (cases c) auto

lemma tclimb_descend:
  assumes "twf T" "T \<noteq> TNull" "d \<le> 128" "tdescend key T ps = (node, qs)"
  shows "tclimb d node qs = (if tbit T \<ge> d then tclimb d T ps else tfirst d key T ps)"
  using assms
proof (induction T arbitrary: ps rule: twf_induct)
  case (glue b k l r)
  note B = branch_basics [OF glue.hyps]
  show ?case
  proof (cases "key_bit key b")
    case True
    then have "tdescend key r (WasRight b True k 0 l # ps) = (node, qs)" using glue.prems B by simp
    note glue.IH(2) [OF glue.prems(1) this]
    then show ?thesis using True B tfirst_at [of d r key] by auto
  next
    case False
    then have "tdescend key l (WasLeft b True k 0 r # ps) = (node, qs)" using glue.prems B by simp
    note glue.IH(1) [OF glue.prems(1) this]
    then show ?thesis using False B tfirst_at [of d l key] by auto
  qed
qed auto

lemma tfirst_apply:
  assumes "twf T" "T \<noteq> TNull" "d \<le> 128" "tfirst d key T ps = (node, qs)"
  shows "tplug qs (J node) = tplug ps (tapply d key J T) \<and> tdown key node = tdown key T \<and> tdown key T \<in> tleaves node \<and>
    twf node \<and> node \<noteq> TNull \<and> tbit node \<ge> d"
  using assms
proof (induction T arbitrary: ps rule: twf_induct)
  case (glue b k l r)
  note B = branch_basics [OF glue.hyps]
  show ?case
  proof (cases "b \<ge> d")
    case True
    have "twf (TNode b True k 0 l r)" using glue.hyps twf_branch [OF B(1)] by simp
    with True tdown_leaf [OF this] show ?thesis using glue.prems by auto
  next
    case False
    then show ?thesis
      using glue.prems glue.IH(1) [of "WasLeft b True k 0 r # ps"] glue.IH(2) [of "WasRight b True k 0 l # ps"] B
      by (auto split: if_splits)
  qed
qed auto

text \<open>Joining the node with the new leaf under a glue node for bit \<open>d\<close>.\<close>

definition tjoin :: "nat \<Rightarrow> bytes \<Rightarrow> tid \<Rightarrow> ttree \<Rightarrow> ttree" where
  "tjoin d key t node =
     (let new = TNode 128 False key t TNull TNull
      in if key_bit key d then TNode d True (replicate 16 0) 0 node new
         else TNode d True (replicate 16 0) 0 new node)"

lemma tjoin_ok:
  assumes "twf node" "node \<noteq> TNull" "d < tbit node" "d < 128" "t \<noteq> 0" "length key = 16"
    and leaf: "(k0, t0) \<in> tleaves node" and agree: "prefix_agree d key k0" "key_bit key d \<noteq> key_bit k0 d"
    and all: "\<And>k1 t1. (k1, t1) \<in> tleaves node \<Longrightarrow> prefix_agree (d + 1) k0 k1"
  shows "twf (tjoin d key t node) \<and> tleaves (tjoin d key t node) = insert (key, t) (tleaves node) \<and>
    tbit (tjoin d key t node) = d \<and> tjoin d key t node \<noteq> TNull"
proof -
  have side: "key_bit k1 d \<longleftrightarrow> \<not> key_bit key d" and pre: "prefix_agree d key k1" and pre': "prefix_agree d k1 key"
    if "(k1, t1) \<in> tleaves node" for k1 t1
    using all [OF that] agree by (auto simp: prefix_agree_def)
  have mutual: "prefix_agree d k1 k2" if "(k1, t1) \<in> tleaves node" "(k2, t2) \<in> tleaves node" for k1 t1 k2 t2
    using all [OF that(1)] all [OF that(2)] by (simp add: prefix_agree_def)
  have "branch_ok d (TNode 128 False key t TNull TNull) node" if "\<not> key_bit key d"
    using assms(1-6) side pre pre' mutual that by (auto simp: branch_ok_def)
  moreover have "branch_ok d node (TNode 128 False key t TNull TNull)" if "key_bit key d"
    using assms(1-6) side pre pre' mutual that by (auto simp: branch_ok_def)
  ultimately show ?thesis using assms(4) twf_branch by (auto simp: tjoin_def Let_def simp del: twf.simps)
qed


lemma branch_okI:
  "b < 128 \<Longrightarrow> l \<noteq> TNull \<Longrightarrow> r \<noteq> TNull \<Longrightarrow> twf l \<Longrightarrow> twf r \<Longrightarrow> b < tbit l \<Longrightarrow> b < tbit r \<Longrightarrow>
   (\<And>k t. (k, t) \<in> tleaves l \<Longrightarrow> \<not> key_bit k b) \<Longrightarrow> (\<And>k t. (k, t) \<in> tleaves r \<Longrightarrow> key_bit k b) \<Longrightarrow>
   (\<And>k t k' t'. (k, t) \<in> tleaves l \<union> tleaves r \<Longrightarrow> (k', t') \<in> tleaves l \<union> tleaves r \<Longrightarrow> prefix_agree b k k') \<Longrightarrow>
   branch_ok b l r"
  unfolding branch_ok_def by blast

lemma tdown_find: "twf T \<Longrightarrow> (key, t) \<in> tleaves T \<Longrightarrow> tdown key T = (key, t)"
proof (cases "T = TNull")
  case False
  assume "twf T" "(key, t) \<in> tleaves T"
  from \<open>twf T\<close> False this(2) show ?thesis
    by (induction T rule: twf_induct) (auto dest: branch_side branch_basics)
qed simp

lemma option_eqI: "(\<And>x. a = Some x \<longleftrightarrow> b = Some x) \<Longrightarrow> a = b"
  by (metis not_None_eq)

lemma tapply_join:
  assumes "twf T" "T \<noteq> TNull" and d: "d < 128" and new: "t \<noteq> 0" "length key = 16"
    and "prefix_agree d key (fst (tdown key T))" "key_bit key d \<noteq> key_bit (fst (tdown key T)) d"
  shows "twf (tapply d key (tjoin d key t) T) \<and> tapply d key (tjoin d key t) T \<noteq> TNull \<and>
    tleaves (tapply d key (tjoin d key t) T) = insert (key, t) (tleaves T) \<and>
    min d (tbit T) \<le> tbit (tapply d key (tjoin d key t) T)"
  using assms(1,2,6,7)
proof (induction T rule: twf_induct)
  case (leaf k u)
  then have "twf (tjoin d key t (TNode 128 False k u TNull TNull)) \<and>
      tleaves (tjoin d key t (TNode 128 False k u TNull TNull)) = insert (key, t) {(k, u)} \<and>
      tbit (tjoin d key t (TNode 128 False k u TNull TNull)) = d \<and>
      tjoin d key t (TNode 128 False k u TNull TNull) \<noteq> TNull"
    using tjoin_ok [of "TNode 128 False k u TNull TNull" d t key k u] d new by simp
  then show ?case using d by simp
next
  case (glue b k l r)
  let ?T = "TNode b True k 0 l r"
  note B = branch_basics [OF glue.hyps]
  have T: "twf ?T" using glue.hyps twf_branch [OF B(1)] by simp
  obtain k0 u0 where k0: "tdown key ?T = (k0, u0)" by fastforce
  have leaf0: "(k0, u0) \<in> tleaves ?T" using tdown_leaf [OF T, of key] k0 by simp
  have all: "prefix_agree b k0 k1" if "(k1, u1) \<in> tleaves ?T" for k1 u1
    using branch_agree [OF glue.hyps, of k0 u0 k1 u1] leaf0 that by simp
  have agree: "prefix_agree d key k0" "key_bit key d \<noteq> key_bit k0 d" using glue.prems k0 by simp_all
  have ne: "b \<noteq> d" using agree(2) tdown_bit [OF glue.hyps, of key k] k0 by auto
  show ?case
  proof (cases "b < d")
    case True
    have kb: "prefix_agree b key k1 \<and> prefix_agree b k1 key" if "(k1, u1) \<in> tleaves ?T" for k1 u1
      using all [OF that] agree(1) True by (simp add: prefix_agree_def)
    have mut: "prefix_agree b k1 k2"
      if "(k1, u1) \<in> insert (key, t) (tleaves l \<union> tleaves r)" "(k2, u2) \<in> insert (key, t) (tleaves l \<union> tleaves r)"
      for k1 u1 k2 u2
      using that kb branch_agree [OF glue.hyps, of k1 u1 k2 u2] by auto
    note side = branch_side [OF glue.hyps]
    show ?thesis
    proof (cases "key_bit key b")
      case right: True
      have "tdown key ?T = tdown key r" using right B by simp
      then have IH: "twf (tapply d key (tjoin d key t) r)" "tapply d key (tjoin d key t) r \<noteq> TNull"
        "tleaves (tapply d key (tjoin d key t) r) = insert (key, t) (tleaves r)"
        "b < tbit (tapply d key (tjoin d key t) r)"
        using glue.IH(2) glue.prems True B(6) by auto
      have "branch_ok b l (tapply d key (tjoin d key t) r)"
        by (rule branch_okI) (use B IH side right mut in \<open>auto 4 2\<close>)
      then show ?thesis using right True IH(3) twf_branch [OF B(1)] by (simp del: twf.simps)
    next
      case left: False
      have "tdown key ?T = tdown key l" using left B by simp
      then have IH: "twf (tapply d key (tjoin d key t) l)" "tapply d key (tjoin d key t) l \<noteq> TNull"
        "tleaves (tapply d key (tjoin d key t) l) = insert (key, t) (tleaves l)"
        "b < tbit (tapply d key (tjoin d key t) l)"
        using glue.IH(1) glue.prems True B(5) by auto
      have "branch_ok b (tapply d key (tjoin d key t) l) r"
        by (rule branch_okI) (use B IH side left mut in \<open>auto 4 2\<close>)
      then show ?thesis using left True IH(3) twf_branch [OF B(1)] by (simp del: twf.simps)
    qed
  next
    case False
    then have lt: "d < b" using ne by simp
    then have "prefix_agree (d + 1) k0 k1" if "(k1, u1) \<in> tleaves ?T" for k1 u1
      using prefix_agree_le [OF all [OF that]] by simp
    from tjoin_ok [OF T _ _ d new leaf0 agree this] lt
    show ?thesis by simp
  qed
qed

text \<open>What tunnel_tree_insert does to a well-formed tree.\<close>

lemma tunnel_tree_insert_cases:
  assumes T: "twf T" and t: "t \<noteq> 0" "length key = 16"
  shows "(\<exists>e. (key, e) \<in> tleaves T \<and> tunnel_tree_insert mem key t T = (e, False, T)) \<or>
    ((\<forall>e. (key, e) \<notin> tleaves T) \<and>
     (\<exists>T'. tunnel_tree_insert mem key t T = (0, False, T') \<and> (mem \<or> T = TNull) \<and> twf T' \<and>
        tleaves T' = insert (key, t) (tleaves T)) \<or>
     (\<forall>e. (key, e) \<notin> tleaves T) \<and> \<not> mem \<and> tunnel_tree_insert mem key t T = (t, False, T))"
proof (cases "T = TNull")
  case True
  then show ?thesis using t by (simp add: tunnel_tree_insert_def)
next
  case ne: False
  obtain k0 e where down: "tdown key T = (k0, e)" by fastforce
  define d where "d = differ_loop key k0 128 0 0"
  have leaf0: "(k0, e) \<in> tleaves T" using tdown_leaf [OF T ne, of key] down by simp
  have k0: "length k0 = 16" using twf_entry [OF T leaf0] by simp
  note D = differ_spec [of key k0, folded d_def]
  obtain node qs where desc: "tdescend key T [] = (node, qs)" by fastforce
  have node: "node = TNode 128 False k0 e TNull TNull" "tplug qs node = T"
    using tdescend_down [OF T ne desc] unfolding down fst_conv snd_conv tplug.simps by blast+
  obtain n2 qs2 where climb: "tclimb d node qs = (n2, qs2)" by fastforce
  have first: "tfirst d key T [] = (n2, qs2)"
    using tclimb_descend [OF T ne D(1) desc] climb tfirst_at [of d T key "[]"] by (auto split: if_splits)
  note F = tfirst_apply [OF T ne D(1) first]
  obtain b g k u l r where n2: "n2 = TNode b g k u l r" using F by (cases n2) auto
  have step: "tunnel_tree_insert mem key t T =
      (if d = 128 \<and> b = 128
       then if \<not> g then (u, False, T) else (u, True, tplug qs2 (TNode b False key u l r))
       else if b = d
       then if b < 128 \<and> key_bit key b
            then (0, False, tplug qs2 (TNode b g k u l (TNode 128 False key t TNull TNull)))
            else (0, False, tplug qs2 (TNode b g k u (TNode 128 False key t TNull TNull) r))
       else if d = 128 then (0, False, tplug qs2 (TNode 128 False key t n2 TNull))
       else if \<not> mem then (t, False, T)
       else (0, False, tplug qs2 (tjoin d key t n2)))"
    using ne node(1) D(1) climb n2
    by (simp add: tunnel_tree_insert_def desc tjoin_def Let_def flip: d_def)
  show ?thesis
  proof (cases "key = k0")
    case True
    then have d: "d = 128" using differ_all t(2) k0 unfolding d_def by simp
    have w: "twf n2" "b \<ge> d" "(k0, e) \<in> tleaves n2" using F n2 down by (simp_all del: twf.simps)
    then have "b = 128" using twf_bit [OF w(1)] d n2 by simp
    then have "\<not> g" "u = e" using w n2 by auto
    then show ?thesis using step leaf0 True d \<open>b = 128\<close> by auto
  next
    case False
    then have "d \<noteq> 128" using differ_all t(2) k0 unfolding d_def by blast
    then have d: "d < 128" using D(1) by simp
    have "b \<noteq> d"
    proof
      assume "b = d"
      then have "g \<and> u = 0 \<and> branch_ok b l r" using F n2 d twf_branch by blast
      then have "key_bit (fst (tdown key n2)) b = key_bit key b" using tdown_bit [of b l r key k] n2 by simp
      then show False using D(3) [OF d] F down \<open>b = d\<close> by simp
    qed
    moreover have "(key, x) \<notin> tleaves T" for x
      using tdown_find [OF T, of key x] down False by auto
    moreover have "tplug qs2 (tjoin d key t n2) = tapply d key (tjoin d key t) T"
      using F [of "tjoin d key t"] by simp
    moreover have "twf (tapply d key (tjoin d key t) T)"
      "tleaves (tapply d key (tjoin d key t) T) = insert (key, t) (tleaves T)"
      using tapply_join [OF T ne d t] D down d by auto
    ultimately show ?thesis using step d by simp
  qed
qed

text \<open>
  Claim C19: the radix tree is a map from remote addresses to tunnels. Inserting an address
  that it holds returns that tunnel and changes nothing; inserting another one adds exactly
  the new tunnel, or, when the glue node cannot be allocated, returns the new tunnel itself
  and changes nothing. A tunnel is exposed in neither case: no unused tunnel stays in the tree.
\<close>

theorem tunnel_tree_insert_correct:
  assumes "twf T" "t \<noteq> 0" "length key = 16" "tunnel_tree_insert mem key t T = (e, exposing, T')"
  shows "twf T' \<and> \<not> exposing \<and>
    (case tunnel_tree_find key T of
       Some u \<Rightarrow> e = u \<and> T' = T
     | None \<Rightarrow> e = 0 \<and> tunnel_tree_find key T' = Some t \<and>
               (\<forall>key'. key' \<noteq> key \<longrightarrow> tunnel_tree_find key' T' = tunnel_tree_find key' T) \<or>
             \<not> mem \<and> e = t \<and> T' = T)"
proof (cases "tunnel_tree_find key T")
  case None
  then have "\<forall>e. (key, e) \<notin> tleaves T" using tunnel_tree_find_None [OF assms(1)] by simp
  then consider "e = 0" "\<not> exposing" "twf T'" "tleaves T' = insert (key, t) (tleaves T)"
    | "\<not> mem" "e = t" "\<not> exposing" "T' = T"
    using tunnel_tree_insert_cases [OF assms(1-3), of mem] assms(4) by auto
  then show ?thesis
  proof cases
    case 1
    have "tunnel_tree_find key' T' = tunnel_tree_find key' T" if "key' \<noteq> key" for key'
      using that 1 tunnel_tree_find_iff [OF assms(1)] tunnel_tree_find_iff [OF 1(3)] by (intro option_eqI) simp
    then show ?thesis using 1 None tunnel_tree_find_iff [OF 1(3)] by simp
  qed (use assms(1) None in simp)
next
  case (Some u)
  then have u: "(key, u) \<in> tleaves T" using tunnel_tree_find_iff [OF assms(1)] by simp
  have "\<exists>e'. (key, e') \<in> tleaves T \<and> tunnel_tree_insert mem key t T = (e', False, T)"
    using tunnel_tree_insert_cases [OF assms(1-3), of mem] u by blast
  then obtain e' where e': "(key, e') \<in> tleaves T" "tunnel_tree_insert mem key t T = (e', False, T)" by blast
  have "e' = u" using tdown_find [OF assms(1) e'(1)] tdown_find [OF assms(1) u] by simp
  then have "e = u" "\<not> exposing" "T' = T" using e'(2) assms(4) by simp_all
  then show ?thesis using Some assms(1) by simp
qed


section \<open>Removal\<close>

definition tids_inj :: "ttree \<Rightarrow> bool" where
  "tids_inj T \<longleftrightarrow> (\<forall>k k' t. (k, t) \<in> tleaves T \<and> (k', t) \<in> tleaves T \<longrightarrow> k = k')"

definition tleaves_but :: "tid \<Rightarrow> ttree \<Rightarrow> (bytes \<times> tid) set" where
  "tleaves_but x T = {y \<in> tleaves T. snd y \<noteq> x}"

lemma tlocate_None: "twf T \<Longrightarrow> x \<noteq> 0 \<Longrightarrow> (\<And>k. (k, x) \<notin> tleaves T) \<Longrightarrow> tlocate x T ps = None"
proof (cases "T = TNull")
  case False
  assume "twf T" "x \<noteq> 0" "\<And>k. (k, x) \<notin> tleaves T"
  from this(1) False this(2,3) show ?thesis
    by (induction T arbitrary: ps rule: twf_induct) auto
qed simp

lemma tleaves_but_simps:
  "tleaves_but x (TNode b True k t l r) = tleaves_but x l \<union> tleaves_but x r"
  "tleaves_but x (TNode b False k x TNull TNull) = {}"
  by (auto simp: tleaves_but_def)

text \<open>Under a glue node the tunnels of the two sides are different.\<close>

lemma branch_one_side:
  assumes "branch_ok b l r" "tids_inj (TNode b True k 0 l r)"
  shows "(k1, x) \<in> tleaves l \<Longrightarrow> (k2, x) \<notin> tleaves r"
proof
  assume m: "(k1, x) \<in> tleaves l" "(k2, x) \<in> tleaves r"
  then have "k1 = k2" using assms(2) unfolding tids_inj_def by auto
  then show False using branch_side(1) [OF assms(1) m(1)] branch_side(2) [OF assms(1) m(2)] by simp
qed

lemma branch_shrink:
  assumes "branch_ok b l r"
  shows "twf c \<Longrightarrow> c \<noteq> TNull \<Longrightarrow> b < tbit c \<Longrightarrow> tleaves c \<subseteq> tleaves l \<Longrightarrow> branch_ok b c r"
    and "twf c \<Longrightarrow> c \<noteq> TNull \<Longrightarrow> b < tbit c \<Longrightarrow> tleaves c \<subseteq> tleaves r \<Longrightarrow> branch_ok b l c"
proof -
  note B = branch_basics [OF assms] and side = branch_side [OF assms] and agree = branch_agree [OF assms]
  show "branch_ok b c r" if c: "twf c" "c \<noteq> TNull" "b < tbit c" "tleaves c \<subseteq> tleaves l"
  proof (rule branch_okI [OF B(1) c(2) B(4) c(1) B(8) c(3) B(6)])
    show "\<not> key_bit k b" if "(k, t) \<in> tleaves c" for k t using side(1) subsetD [OF c(4) that] .
    show "key_bit k b" if "(k, t) \<in> tleaves r" for k t using side(2) that .
    show "prefix_agree b k k'" if "(k, t) \<in> tleaves c \<union> tleaves r" "(k', t') \<in> tleaves c \<union> tleaves r" for k t k' t'
      by (rule agree) (use that c(4) in blast)+
  qed
  show "branch_ok b l c" if c: "twf c" "c \<noteq> TNull" "b < tbit c" "tleaves c \<subseteq> tleaves r"
  proof (rule branch_okI [OF B(1) B(3) c(2) B(7) c(1) B(5) c(3)])
    show "\<not> key_bit k b" if "(k, t) \<in> tleaves l" for k t using side(1) that .
    show "key_bit k b" if "(k, t) \<in> tleaves c" for k t using side(2) subsetD [OF c(4) that] .
    show "prefix_agree b k k'" if "(k, t) \<in> tleaves l \<union> tleaves c" "(k', t') \<in> tleaves l \<union> tleaves c" for k t k' t'
      by (rule agree) (use that c(4) in blast)+
  qed
qed

text \<open>What the path of a removed leaf shows: cutting it at the parent leaves a smaller tree.\<close>

definition tcut :: "tid \<Rightarrow> ttree \<Rightarrow> tstep list \<Rightarrow> tstep list \<Rightarrow> bool" where
  "tcut x T ps qs \<longleftrightarrow> (\<exists>p qs' parent child T'. qs = p # qs' \<and> cut_child p = (parent, child) \<and>
     tglue parent \<and> child \<noteq> TNull \<and> tplug qs' child = tplug ps T' \<and> twf T' \<and> T' \<noteq> TNull \<and>
     tbit T \<le> tbit T' \<and> tleaves T' = tleaves_but x T)"

lemma tcutI:
  "cut_child p = (parent, child) \<Longrightarrow> tglue parent \<Longrightarrow> child \<noteq> TNull \<Longrightarrow> tplug qs' child = tplug ps T' \<Longrightarrow> twf T' \<Longrightarrow>
   T' \<noteq> TNull \<Longrightarrow> tbit T \<le> tbit T' \<Longrightarrow> tleaves T' = tleaves_but x T \<Longrightarrow> tcut x T ps (p # qs')"
  unfolding tcut_def by blast

lemma tcut_lift:
  assumes "tcut x c (step # ps) qs" and "tplug1 step c = T"
    and "\<And>c'. twf c' \<Longrightarrow> c' \<noteq> TNull \<Longrightarrow> tbit c \<le> tbit c' \<Longrightarrow> tleaves c' = tleaves_but x c \<Longrightarrow>
      twf (tplug1 step c') \<and> tplug1 step c' \<noteq> TNull \<and> tbit T \<le> tbit (tplug1 step c') \<and>
      tleaves (tplug1 step c') = tleaves_but x T"
  shows "tcut x T ps qs"
  using assms unfolding tcut_def by (elim exE conjE) (simp, blast)

lemma tlocate_remove:
  assumes "twf T" "T \<noteq> TNull" "x \<noteq> 0" "tids_inj T" "(kx, x) \<in> tleaves T"
  shows "\<exists>qs. tlocate x T ps = Some (TNode 128 False kx x TNull TNull, qs) \<and>
    (qs = ps \<and> T = TNode 128 False kx x TNull TNull \<or> tcut x T ps qs)"
  using assms
proof (induction T arbitrary: ps rule: twf_induct)
  case (leaf k t)
  then show ?case by auto
next
  case (glue b k l r)
  note B = branch_basics [OF glue.hyps]
  note one = branch_one_side [OF glue.hyps glue.prems(2)]
  have inj: "tids_inj l" "tids_inj r" using glue.prems(2) by (auto simp: tids_inj_def)
  let ?T = "TNode b True k 0 l r"
  show ?case
  proof (cases "(kx, x) \<in> tleaves l")
    case True
    let ?step = "WasLeft b True k 0 r"
    have r: "tleaves_but x r = tleaves r" using one True by (auto simp: tleaves_but_def)
    have up: "twf (TNode b True k 0 c r)" if "twf c" "c \<noteq> TNull" "tbit l \<le> tbit c" "tleaves c = tleaves_but x l" for c
    proof -
      have "branch_ok b c r"
        by (rule branch_shrink(1) [OF glue.hyps that(1,2)]) (use that B in \<open>auto simp: tleaves_but_def\<close>)
      then show ?thesis using twf_branch [OF B(1)] by simp
    qed
    from glue.IH(1) [OF glue.prems(1) inj(1) True, of "?step # ps"] obtain qs where
      loc: "tlocate x l (?step # ps) = Some (TNode 128 False kx x TNull TNull, qs)"
      and alt: "qs = ?step # ps \<and> l = TNode 128 False kx x TNull TNull \<or> tcut x l (?step # ps) qs" by blast
    have "tlocate x ?T ps = Some (TNode 128 False kx x TNull TNull, qs)" using loc glue.prems(1) by simp
    moreover from alt have "tcut x ?T ps qs"
    proof
      assume q: "qs = ?step # ps \<and> l = TNode 128 False kx x TNull TNull"
      then have e: "tleaves r = tleaves_but x ?T" using r by (simp add: tleaves_but_simps)
      have "tcut x ?T ps (?step # ps)"
        by (rule tcutI [OF cut_child.simps(1) _ B(4) _ B(8) B(4) _ e]) (use B(6) in simp_all)
      then show ?thesis using q by blast
    next
      assume "tcut x l (?step # ps) qs"
      then show ?thesis
        by (rule tcut_lift) (use up r in \<open>simp_all add: tleaves_but_simps del: twf.simps\<close>)
    qed
    ultimately show ?thesis by blast
  next
    case False
    let ?step = "WasRight b True k 0 l"
    have inr: "(kx, x) \<in> tleaves r" using False glue.prems(3) by simp
    then have l: "tleaves_but x l = tleaves l" "\<And>k. (k, x) \<notin> tleaves l" using one by (auto simp: tleaves_but_def)
    have up: "twf (TNode b True k 0 l c)" if "twf c" "c \<noteq> TNull" "tbit r \<le> tbit c" "tleaves c = tleaves_but x r" for c
    proof -
      have "branch_ok b l c"
        by (rule branch_shrink(2) [OF glue.hyps that(1,2)]) (use that B in \<open>auto simp: tleaves_but_def\<close>)
      then show ?thesis using twf_branch [OF B(1)] by simp
    qed
    from glue.IH(2) [OF glue.prems(1) inj(2) inr, of "?step # ps"] obtain qs where
      loc: "tlocate x r (?step # ps) = Some (TNode 128 False kx x TNull TNull, qs)"
      and alt: "qs = ?step # ps \<and> r = TNode 128 False kx x TNull TNull \<or> tcut x r (?step # ps) qs" by blast
    have "tlocate x ?T ps = Some (TNode 128 False kx x TNull TNull, qs)"
      using loc glue.prems(1) tlocate_None [OF B(7) glue.prems(1) l(2)] by simp
    moreover from alt have "tcut x ?T ps qs"
    proof
      assume q: "qs = ?step # ps \<and> r = TNode 128 False kx x TNull TNull"
      then have e: "tleaves l = tleaves_but x ?T" using l by (simp add: tleaves_but_simps)
      have "tcut x ?T ps (?step # ps)"
        by (rule tcutI [OF cut_child.simps(2) _ B(3) _ B(7) B(3) _ e]) (use B(5) in simp_all)
      then show ?thesis using q by blast
    next
      assume "tcut x r (?step # ps) qs"
      then show ?thesis
        by (rule tcut_lift) (use up l in \<open>simp_all add: tleaves_but_simps del: twf.simps\<close>)
    qed
    ultimately show ?thesis by blast
  qed
qed

lemma tunnel_tree_remove_cases:
  assumes "twf T" "tids_inj T" "(kx, x) \<in> tleaves T"
  shows "\<exists>T'. tunnel_tree_remove x T = Some T' \<and> twf T' \<and> tleaves T' = tleaves_but x T"
proof -
  have ne: "T \<noteq> TNull" "x \<noteq> 0" using assms twf_entry by auto
  from tlocate_remove [OF assms(1) ne assms(2,3), of "[]"] obtain qs where
    loc: "tlocate x T [] = Some (TNode 128 False kx x TNull TNull, qs)"
    and alt: "qs = [] \<and> T = TNode 128 False kx x TNull TNull \<or> tcut x T [] qs" by blast
  from alt show ?thesis
  proof
    assume "qs = [] \<and> T = TNode 128 False kx x TNull TNull"
    then show ?thesis using loc by (auto simp: tunnel_tree_remove_def tleaves_but_def)
  next
    assume "tcut x T [] qs"
    then show ?thesis using loc unfolding tcut_def tunnel_tree_remove_def by (elim exE conjE) simp
  qed
qed

text \<open>
  Claim C20: removing a tunnel takes exactly its address out of the tree; the glue node that
  is left with one child goes too, so the tree stays well formed and no null pointer is read.
\<close>

theorem tunnel_tree_remove_correct:
  assumes "twf T" "tids_inj T" "tunnel_tree_find key T = Some x"
  shows "\<exists>T'. tunnel_tree_remove x T = Some T' \<and> twf T' \<and>
    (\<forall>key'. tunnel_tree_find key' T' = (if key' = key then None else tunnel_tree_find key' T))"
proof -
  have x: "(key, x) \<in> tleaves T" using assms tunnel_tree_find_iff by blast
  obtain T' where T': "tunnel_tree_remove x T = Some T'" "twf T'" "tleaves T' = tleaves_but x T"
    using tunnel_tree_remove_cases [OF assms(1,2) x] by blast
  have "(key', t) \<in> tleaves T' \<longleftrightarrow> key' \<noteq> key \<and> (key', t) \<in> tleaves T" for key' t
    using T'(3) x assms(2) tdown_find [OF assms(1)] unfolding tleaves_but_def tids_inj_def
    by (auto dest: tdown_find [OF assms(1)])
  then have "tunnel_tree_find key' T' = (if key' = key then None else tunnel_tree_find key' T)" for key'
    using tunnel_tree_find_iff [OF assms(1)] tunnel_tree_find_iff [OF T'(2)] by (intro option_eqI) auto
  then show ?thesis using T' by blast
qed


section \<open>The tunnels\<close>

text \<open>tunnel_lookup: the hash slot first, then the tree; 0 is NULL.\<close>

definition tunnel_slot :: "bytes \<Rightarrow> aftr \<Rightarrow> nat" where
  "tunnel_slot peer s = hash_slot (jhash_tunnel (tunhashrnd s) peer) (tunhashsz s)"

definition tunnel_lookup :: "bytes \<Rightarrow> aftr \<Rightarrow> tid \<times> aftr" where
  "tunnel_lookup peer s =
     (let hash = tunnel_slot peer s; t = tunhash s hash
      in if t \<noteq> 0 \<and> sub peer 0 16 = sub (t_remote (tunof s t)) 0 16 then (t, s)
         else case tunnel_tree_find (sub peer 0 16) (tunnel_tree s) of
                None \<Rightarrow> (0, s)
              | Some t \<Rightarrow>
                  (t, upd_tunnel t (\<lambda>t. t\<lparr>t_hash := hash\<rparr>) (s\<lparr>tunhash := (tunhash s)(hash := t)\<rparr>)))"

text \<open>The tunnel after \<open>memset(t, 0, sizeof( *t))\<close> and the copy of its address.\<close>

definition tunnel_zero :: "bytes \<Rightarrow> tunnel" where
  "tunnel_zero peer =
     \<lparr>t_remote = sub peer 0 16, t_flags = 0, t_frg6cnt = 0, t_frg4cnt = 0, t_mtu = 0, t_hash = 0,
      t_tnat_root = (\<lambda>pr. Leaf), t_srcidx = 0, t_tnatcnt = (\<lambda>pr. 0), t_lastnat = 0, t_tnatrt = (\<lambda>pr. 0),
      t_avail = (\<lambda>pr. 0), t_bucket = (\<lambda>pr. None), t_nnaddr = replicate 4 0, t_nnplen = 0, t_ngeneration = 0\<rparr>"

text \<open>
  add_tunnel. \<open>new\<close> is what malloc returns for the tunnel when \<open>mem 0\<close> holds, \<open>mem 1\<close> is the
  malloc of a glue node. The result is 0 on failure. A tunnel that was still in the tree is
  reused with its flags cleared.
\<close>

definition add_tunnel :: "config \<Rightarrow> (nat \<Rightarrow> bool) \<Rightarrow> tid \<Rightarrow> bytes \<Rightarrow> aftr \<Rightarrow> tid \<times> aftr" where
  "add_tunnel cfg mem new peer s =
     (let (t, s) = tunnel_lookup peer s
      in if t \<noteq> 0 then (0, s)
         else if \<not> mem 0 then (0, s)
         else
           let (e, exposing, tree) = tunnel_tree_insert (mem 1) (sub peer 0 16) new (tunnel_tree s)
           in if e \<noteq> 0 \<and> \<not> exposing then (0, s\<lparr>tunnel_tree := tree\<rparr>)
              else
                let s = s\<lparr>tunnel_tree := tree\<rparr>;
                    t = (if e \<noteq> 0 then e else new);
                    s = (if e \<noteq> 0 then upd_tunnel e (\<lambda>t. t\<lparr>t_remote := sub peer 0 16, t_flags := 0\<rparr>) s
                         else s\<lparr>tunnels := (tunnels s)(new \<mapsto> tunnel_zero peer)\<rparr>);
                    s = upd_tunnel t (\<lambda>t. t\<lparr>t_mtu := tundefmtu cfg\<rparr>) s;
                    s = (if enable_msspatch cfg then upd_tunnel t (\<lambda>t. t\<lparr>t_flags := t_flags t OR TUNMSSFLG\<rparr>) s else s);
                    s = upd_tunnel t (\<lambda>t. t\<lparr>t_flags := t_flags t OR default_toobig cfg\<rparr>) s
                in (t, s\<lparr>tuncnt := tuncnt s + 1\<rparr>))"

text \<open>
  add_stdtunnel: with a source the first pool of that address, else the pools in turn. \<open>mem 2\<close>
  is the malloc of the data. \<open>None\<close> is an access through a pool that is NULL, which the
  search does not test for.
\<close>

fun find_src :: "bytes \<Rightarrow> pool option list \<Rightarrow> nat \<Rightarrow> nat option" where
  "find_src src [] fidx = Some fidx"
| "find_src src (None # ps) fidx = None"
| "find_src src (Some P # ps) fidx =
     (if sub (p_addr P) 0 4 = sub src 0 4 then Some fidx else find_src src ps (fidx + 1))"

definition add_stdtunnel ::
  "config \<Rightarrow> (nat \<Rightarrow> bool) \<Rightarrow> tid \<Rightarrow> bytes \<Rightarrow> bytes option \<Rightarrow> aftr \<Rightarrow> (tid \<times> aftr) option" where
  "add_stdtunnel cfg mem new peer src s =
     (case (case src of None \<Rightarrow> Some 0 | Some a \<Rightarrow> find_src a (pools s) 0) of
        None \<Rightarrow> None
      | Some fidx \<Rightarrow>
          if src \<noteq> None \<and> fidx \<ge> length (pools s) then Some (0, s)
          else if \<not> mem 2 then Some (0, s)
          else
            let (t, s) = add_tunnel cfg mem new peer s
            in if t = 0 then Some (0, s)
               else if src \<noteq> None then Some (t, upd_tunnel t (\<lambda>t. t\<lparr>t_srcidx := fidx\<rparr>) s)
               else
                 let s = upd_tunnel t (\<lambda>t. t\<lparr>t_srcidx := src_idx s\<rparr>) s
                 in Some (t, s\<lparr>src_idx := (if src_idx s + 1 = length (pools s) then 0 else src_idx s + 1)\<rparr>))"

text \<open>The address of the pool of a tunnel; \<open>None\<close> when the pool is NULL.\<close>

definition pool_src :: "tid \<Rightarrow> aftr \<Rightarrow> bytes option" where
  "pool_src t s = map_option (\<lambda>P. sub (p_addr P) 0 4) (pools s ! t_srcidx (tunof s t))"

definition try_tunnel ::
  "config \<Rightarrow> (nat \<Rightarrow> bool) \<Rightarrow> tid \<Rightarrow> bytes \<Rightarrow> bytes option \<Rightarrow> aftr \<Rightarrow> (int \<times> aftr) option" where
  "try_tunnel cfg mem new peer src s =
     (let (t, s) = tunnel_lookup peer s
      in if t = 0 then
           case (if acl6 peer s then add_stdtunnel cfg mem new peer src s else Some (0, s)) of
             None \<Rightarrow> None
           | Some (t, s) \<Rightarrow>
               if t = 0 then Some (-1, s) else if pool_src t s = None then None else Some (0, s)
         else if t_flags (tunof s t) AND TUNNONAT \<noteq> 0 then Some (-1, s)
         else if pool_src t s = None then None
         else if src \<noteq> None \<and> pool_src t s \<noteq> Some (sub (the src) 0 4) then Some (-1, s)
         else Some (0, s))"

definition reload_tunnel ::
  "config \<Rightarrow> (nat \<Rightarrow> bool) \<Rightarrow> tid \<Rightarrow> bytes \<Rightarrow> bytes option \<Rightarrow> aftr \<Rightarrow> (int \<times> aftr) option" where
  "reload_tunnel cfg mem new peer src s =
     (let (t, s) = tunnel_lookup peer s
      in if t = 0 then
           case add_stdtunnel cfg mem new peer src s of
             None \<Rightarrow> None
           | Some (t, s) \<Rightarrow> Some (if t = 0 then -1 else 0, s)
         else if t_flags (tunof s t) AND TUNNONAT \<noteq> 0 then Some (-1, s)
         else if src = None then Some (0, s)
         else if pool_src t s = None then None
         else if pool_src t s \<noteq> Some (sub (the src) 0 4) then Some (-1, s)
         else Some (0, s))"

definition set_tunnel_mtu :: "bytes \<Rightarrow> u32 \<Rightarrow> bool \<Rightarrow> aftr \<Rightarrow> int \<times> aftr" where
  "set_tunnel_mtu remote mtu force s =
     (let (t, s) = tunnel_lookup remote s
      in if t = 0 then (-1, s)
         else
           let mtu = (if mtu > 65535 then 65535 else if mtu < 1280 then 1280 else mtu)
           in if \<not> force \<and> t_mtu (tunof s t) < ucast mtu then (-1, s)
              else (0, upd_tunnel t (\<lambda>t. t\<lparr>t_mtu := ucast mtu\<rparr>) s))"

definition set_tunnel_flag :: "bytes \<Rightarrow> u8 \<Rightarrow> u8 \<Rightarrow> aftr \<Rightarrow> int \<times> aftr" where
  "set_tunnel_flag remote flags msk s =
     (let (t, s) = tunnel_lookup remote s
      in if t = 0 then (-1, s)
         else (0, upd_tunnel t (\<lambda>t. t\<lparr>t_flags := (t_flags t AND NOT msk) OR (flags AND msk)\<rparr>) s))"

section \<open>Deleting a tunnel\<close>

text \<open>
  \<open>while ((n = t->tnat_root[i]) != NULL) del_nat(n)\<close>, with fuel; \<open>None\<close> is running out of
  it. \<open>gls\<close> are the static lists there are (the configuration's and the sessions').
\<close>

definition chain_of :: "nat list \<Rightarrow> nid \<Rightarrow> aftr \<Rightarrow> nat option" where
  "chain_of gls n s = find (\<lambda>k. n \<in> set (gchains s k)) gls"

fun del_tun_nats :: "config \<Rightarrow> nat list \<Rightarrow> nat \<Rightarrow> tid \<Rightarrow> prclass \<Rightarrow> aftr \<Rightarrow> aftr option" where
  "del_tun_nats cfg gls 0 t pr s = (if t_tnat_root (tunof s t) pr = Leaf then Some s else None)"
| "del_tun_nats cfg gls (Suc fuel) t pr s =
     (case t_tnat_root (tunof s t) pr of
        Leaf \<Rightarrow> Some s
      | Node l n r \<Rightarrow> del_tun_nats cfg gls fuel t pr (del_nat cfg n (chain_of gls n s) s))"

text \<open>\<open>while (t->avail[i] > 0)\<close>: the ports of the bucket go back, the last one first.\<close>

fun return_ports :: "nat \<Rightarrow> u16 list \<Rightarrow> u16 \<Rightarrow> u16 \<Rightarrow> bytes \<Rightarrow> bytes" where
  "return_ports 0 b minport maxport bm = bm"
| "return_ports (Suc k) b minport maxport bm =
     (let port = b ! k
      in return_ports k b minport maxport
           (if port < minport \<or> port > maxport then bm else bm_set bm (unat (port - minport))))"

definition return_bucket :: "tid \<Rightarrow> prclass \<Rightarrow> aftr \<Rightarrow> aftr" where
  "return_bucket t pr s =
     (let T = tunof s t; k = unat (t_avail T pr);
          s = (case t_bucket T pr of
                 None \<Rightarrow> s
               | Some b \<Rightarrow> upd_pool (t_srcidx T) (\<lambda>ns. ns\<lparr>p_freebm := (p_freebm ns)(pr :=
                   map_option (return_ports k b (p_minport ns pr) (p_maxport ns pr)) (p_freebm ns pr))\<rparr>) s)
      in upd_tunnel t (\<lambda>T. T\<lparr>t_avail := (t_avail T)(pr := 0), t_bucket := (t_bucket T)(pr := None)\<rparr>) s)"

definition del_tun_class :: "config \<Rightarrow> nat list \<Rightarrow> tid \<Rightarrow> prclass \<Rightarrow> aftr \<Rightarrow> aftr option" where
  "del_tun_class cfg gls t pr s =
     map_option (return_bucket t pr)
       (del_tun_nats cfg gls (size (t_tnat_root (tunof s t) pr)) t pr s)"

text \<open>Out of the hash table and the tree; the tunnel is freed unless the tree keeps it as glue.\<close>

definition unlink_tunnel :: "tid \<Rightarrow> aftr \<Rightarrow> aftr option" where
  "unlink_tunnel t s =
     (let h = t_hash (tunof s t);
          s = (if h < tunhashsz s \<and> tunhash s h = t then s\<lparr>tunhash := (tunhash s)(h := 0)\<rparr> else s)
      in case tunnel_tree_remove t (tunnel_tree s) of
           None \<Rightarrow> None
         | Some tree \<Rightarrow>
             let s = s\<lparr>tunnel_tree := tree\<rparr>
             in Some (if tlocate t tree [] = None then s\<lparr>tunnels := (tunnels s)(t := None)\<rparr> else s))"

text \<open>
  del_tunnel. \<open>None\<close> is a null pointer access or a loop over the entries that does not end:
  the fuel is the number of entries of the tree.
\<close>

definition del_tunnel :: "config \<Rightarrow> nat list \<Rightarrow> bytes \<Rightarrow> aftr \<Rightarrow> (int \<times> aftr) option" where
  "del_tunnel cfg gls peer s =
     (let (t, s) = tunnel_lookup peer s
      in if t = 0 then Some (-1, s)
         else if t_flags (tunof s t) AND TUNNONAT \<noteq> 0 then Some (-1, s)
         else if pools s ! t_srcidx (tunof s t) = None then None
         else
           case Option.bind (del_tun_class cfg gls t TCPPR s) (\<lambda>s.
                  Option.bind (del_tun_class cfg gls t UDPPR s) (del_tun_class cfg gls t ICMPPR)) of
             None \<Rightarrow> None
           | Some s \<Rightarrow>
               let s = upd_tunnel t (\<lambda>t. t\<lparr>t_flags := t_flags t AND NOT TUNDEBUG\<rparr>) s;
                   s = s\<lparr>tuncnt := isc_decr (tuncnt s)\<rparr>
               in map_option (\<lambda>s. (0, s)) (unlink_tunnel t s))"


section \<open>The invariant of the tunnel tables\<close>

text \<open>
  The tree holds exactly the tunnels there are, under their addresses; a slot of the hash
  table is empty or points to a tunnel that knows the slot; the counter counts them.
\<close>

definition tun_at :: "aftr \<Rightarrow> tid \<Rightarrow> (bytes \<times> nat) option" where
  "tun_at s t = map_option (\<lambda>T. (t_remote T, t_hash T)) (tunnels s t)"

definition tun_inv :: "aftr \<Rightarrow> bool" where
  "tun_inv s \<longleftrightarrow> twf (tunnel_tree s) \<and> 0 < tunhashsz s \<and> finite (dom (tun_at s)) \<and>
     tuncnt s = card (dom (tun_at s)) \<and>
     (\<forall>k t. (k, t) \<in> tleaves (tunnel_tree s) \<longleftrightarrow> (\<exists>h. tun_at s t = Some (k, h))) \<and>
     (\<forall>h. tunhash s h \<noteq> 0 \<longrightarrow> (\<exists>k. tun_at s (tunhash s h) = Some (k, h) \<and> tunnel_slot k s = h))"

definition tun_view :: "aftr \<Rightarrow> ttree \<times> (nat \<Rightarrow> tid) \<times> nat \<times> u32 \<times> nat \<times> (tid \<Rightarrow> (bytes \<times> nat) option)" where
  "tun_view s = (tunnel_tree s, tunhash s, tunhashsz s, tunhashrnd s, tuncnt s, tun_at s)"

lemma tun_inv_view: "tun_view s' = tun_view s \<Longrightarrow> tun_inv s' = tun_inv s"
  by (simp add: tun_view_def tun_inv_def tunnel_slot_def)

lemma tun_inv_inj: "tun_inv s \<Longrightarrow> tids_inj (tunnel_tree s)"
  by (auto simp: tun_inv_def tids_inj_def)

lemma tun_inv_entry: "tun_inv s \<Longrightarrow> tun_at s t = Some (k, h) \<Longrightarrow> t \<noteq> 0 \<and> length k = 16"
  using twf_entry by (fastforce simp: tun_inv_def)

lemma tun_inv_0: "tun_inv s \<Longrightarrow> tunnels s 0 = None"
  using tun_inv_entry [of s 0] by (cases "tunnels s 0") (auto simp: tun_at_def)

lemma tun_inv_find:
  assumes "tun_inv s" shows "tunnel_tree_find k (tunnel_tree s) = Some t \<longleftrightarrow> (\<exists>h. tun_at s t = Some (k, h))"
  using assms tunnel_tree_find_iff [of "tunnel_tree s" k t] by (simp add: tun_inv_def)

lemma tun_inv_unique:
  "tun_inv s \<Longrightarrow> tun_at s t = Some (k, h) \<Longrightarrow> tun_at s u = Some (k, h') \<Longrightarrow> t = u"
  using tun_inv_find [of s k] by (metis option.inject)

text \<open>Remembering in a slot keeps the invariant, as does clearing the slot.\<close>

lemma tun_inv_remember:
  assumes inv: "tun_inv s" and u: "tun_at s u = Some (k, h)" "tunnel_slot k s = x"
    and at: "tun_at s' = (tun_at s)(u \<mapsto> (k, x))" and hash: "tunhash s' = (tunhash s)(x := u)"
    and rest: "tunnel_tree s' = tunnel_tree s" "tunhashsz s' = tunhashsz s" "tunhashrnd s' = tunhashrnd s" "tuncnt s' = tuncnt s"
  shows "tun_inv s'"
proof -
  have dom: "dom (tun_at s') = dom (tun_at s)" using u(1) at by auto
  have slot: "tunnel_slot k' s' = tunnel_slot k' s" for k' by (simp add: tunnel_slot_def rest)
  have leaves: "(\<exists>h. tun_at s' t = Some (k', h)) \<longleftrightarrow> (\<exists>h. tun_at s t = Some (k', h))" for t k' using u(1) at by auto
  have "\<exists>k'. tun_at s' (tunhash s' h') = Some (k', h') \<and> tunnel_slot k' s' = h'" if "tunhash s' h' \<noteq> 0" for h'
  proof (cases "h' = x")
    case True
    then show ?thesis using at hash u(2) slot by simp
  next
    case False
    then have "tunhash s h' \<noteq> 0" using that hash by simp
    then obtain k' where k': "tun_at s (tunhash s h') = Some (k', h')" "tunnel_slot k' s = h'"
      using inv unfolding tun_inv_def by blast
    have "tunhash s h' \<noteq> u" using k' u False by auto
    then show ?thesis using k' at hash False slot by simp
  qed
  then show ?thesis using inv unfolding tun_inv_def dom leaves rest by blast
qed

lemma tun_at_upd: "tun_at (upd_tunnel t f s) u =
    (if u = t then map_option (\<lambda>T. (t_remote (f T), t_hash (f T))) (tunnels s t) else tun_at s u)"
  by (simp add: tun_at_def upd_tunnel_def option.map_comp o_def)

lemma tun_view_upd [simp]:
  "tunnel_tree (upd_tunnel t f s) = tunnel_tree s" "tunhash (upd_tunnel t f s) = tunhash s"
  "tunhashsz (upd_tunnel t f s) = tunhashsz s" "tunhashrnd (upd_tunnel t f s) = tunhashrnd s"
  "tuncnt (upd_tunnel t f s) = tuncnt s" "pools (upd_tunnel t f s) = pools s"
  by (simp_all add: upd_tunnel_def)

text \<open>What a lookup returns, and what it may change: the memory of the slot.\<close>

lemma tunnel_lookup_spec:
  assumes inv: "tun_inv s" and peer: "length peer = 16" and look: "tunnel_lookup peer s = (t, s')"
  shows "tun_inv s'" "(\<exists>T. tunnels s t = Some T \<and> t_remote T = peer) \<or> t = 0 \<and> (\<forall>u T. tunnels s u = Some T \<longrightarrow> t_remote T \<noteq> peer)"
    "\<exists>th h. s' = s \<or> t \<noteq> 0 \<and> s' = upd_tunnel t (\<lambda>t. t\<lparr>t_hash := h\<rparr>) (s\<lparr>tunhash := th\<rparr>)"
proof -
  let ?h = "tunnel_slot peer s"
  have full: "sub peer 0 16 = peer" using peer by simp
  have "tun_inv s' \<and> ((\<exists>T. tunnels s t = Some T \<and> t_remote T = peer) \<or> t = 0 \<and> (\<forall>u T. tunnels s u = Some T \<longrightarrow> t_remote T \<noteq> peer)) \<and>
    (\<exists>th h. s' = s \<or> t \<noteq> 0 \<and> s' = upd_tunnel t (\<lambda>t. t\<lparr>t_hash := h\<rparr>) (s\<lparr>tunhash := th\<rparr>))"
  proof (cases "tunhash s ?h \<noteq> 0 \<and> peer = sub (t_remote (tunof s (tunhash s ?h))) 0 16")
    case True
    then obtain k where k: "tun_at s (tunhash s ?h) = Some (k, ?h)" using inv unfolding tun_inv_def by blast
    then have "length k = 16" using tun_inv_entry [OF inv] by simp
    then show ?thesis using k True look inv
      by (auto simp: tunnel_lookup_def Let_def full tun_at_def tunof_def)
  next
    case miss: False
    show ?thesis
    proof (cases "tunnel_tree_find peer (tunnel_tree s)")
      case None
      then have "\<forall>u h. tun_at s u \<noteq> Some (peer, h)" using tun_inv_find [OF inv] by (metis option.distinct(1))
      then have "\<forall>u T. tunnels s u = Some T \<longrightarrow> t_remote T \<noteq> peer" by (auto simp: tun_at_def)
      then show ?thesis using None miss look inv by (auto simp: tunnel_lookup_def Let_def full)
    next
      case (Some u)
      then obtain h where u: "tun_at s u = Some (peer, h)" using tun_inv_find [OF inv] by blast
      then obtain T where T: "tunnels s u = Some T" "t_remote T = peer" by (auto simp: tun_at_def)
      have s': "t = u" "s' = upd_tunnel u (\<lambda>t. t\<lparr>t_hash := ?h\<rparr>) (s\<lparr>tunhash := (tunhash s)(?h := u)\<rparr>)"
        using Some miss look by (auto simp: tunnel_lookup_def Let_def full)
      have at: "tun_at s' = (tun_at s)(u \<mapsto> (peer, ?h))"
        using T by (auto simp: s'(2) tun_at_upd fun_eq_iff) (simp add: tun_at_def)
      have "tun_inv s'"
        by (rule tun_inv_remember [OF inv u refl at]) (simp_all add: s'(2))
      then show ?thesis using T s' tun_inv_entry [OF inv u] by blast
    qed
  qed
  then show "tun_inv s'" "(\<exists>T. tunnels s t = Some T \<and> t_remote T = peer) \<or> t = 0 \<and> (\<forall>u T. tunnels s u = Some T \<longrightarrow> t_remote T \<noteq> peer)"
    "\<exists>th h. s' = s \<or> t \<noteq> 0 \<and> s' = upd_tunnel t (\<lambda>t. t\<lparr>t_hash := h\<rparr>) (s\<lparr>tunhash := th\<rparr>)" by blast+
qed

lemma tun_at_some: "tunnels s t = Some T \<Longrightarrow> tun_at s t = Some (t_remote T, t_hash T)"
  by (simp add: tun_at_def)

text \<open>After a lookup the same tunnels are there, but for the remembered slot.\<close>

definition tun_core :: "tunnel \<Rightarrow> tunnel" where
  "tun_core T = T\<lparr>t_hash := 0\<rparr>"

definition cores :: "aftr \<Rightarrow> tid \<Rightarrow> tunnel option" where
  "cores s t = map_option tun_core (tunnels s t)"

lemma tunnel_lookup_cores:
  assumes "tun_inv s" "length peer = 16" "tunnel_lookup peer s = (t, s')"
  shows "cores s' = cores s"
proof -
  from tunnel_lookup_spec(3) [OF assms] obtain th h where
    "s' = s \<or> s' = upd_tunnel t (\<lambda>t. t\<lparr>t_hash := h\<rparr>) (s\<lparr>tunhash := th\<rparr>)" by blast
  then show ?thesis
    by (auto simp: cores_def upd_tunnel_def tun_core_def [abs_def] fun_eq_iff option.map_comp o_def)
qed


section \<open>Adding a tunnel\<close>

text \<open>The tunnel add_tunnel makes for an address.\<close>

definition tunnel_new :: "config \<Rightarrow> bytes \<Rightarrow> tunnel" where
  "tunnel_new cfg peer = (tunnel_zero peer)\<lparr>t_mtu := tundefmtu cfg,
     t_flags := (if enable_msspatch cfg then 0 OR TUNMSSFLG else 0) OR default_toobig cfg\<rparr>"

lemma tunnel_zero_flags [simp]: "t_flags (tunnel_zero peer) = 0"
  by (simp add: tunnel_zero_def)

lemma add_tunnel_cases:
  assumes inv: "tun_inv s" and peer: "length peer = 16" and fresh: "tunnels s new = None" "new \<noteq> 0"
    and add: "add_tunnel cfg mem new peer s = (t, s')"
  shows "(t = 0 \<and> tun_inv s' \<and> cores s' = cores s \<and> pools s' = pools s \<and>
      ((\<exists>u T. tunnels s u = Some T \<and> t_remote T = peer) \<or> \<not> mem 0 \<or> \<not> mem 1)) \<or>
    (t = new \<and> tun_inv s' \<and> (\<forall>u T. tunnels s u = Some T \<longrightarrow> t_remote T \<noteq> peer) \<and>
      cores s' = (cores s)(new \<mapsto> tunnel_new cfg peer) \<and> tunnels s' new = Some (tunnel_new cfg peer) \<and>
      pools s' = pools s \<and> tun_ports s' = (tun_ports s)(new \<mapsto> (0, \<lambda>pr. 0, \<lambda>pr. None)) \<and> nats s' = nats s)"
proof -
  obtain u s1 where look: "tunnel_lookup peer s = (u, s1)" by fastforce
  note L = tunnel_lookup_spec [OF inv peer look] and C = tunnel_lookup_cores [OF inv peer look]
  have full: "sub peer 0 16 = peer" using peer by simp
  have same: "pools s1 = pools s" "tun_ports s1 = tun_ports s" "nats s1 = nats s"
    using L(3) by (auto simp: tun_ports_def upd_tunnel_def option.map_comp o_def fun_eq_iff)
  show ?thesis
  proof (cases "u = 0 \<and> mem 0")
    case False
    then have "t = 0 \<and> s' = s1" using add look by (auto simp: add_tunnel_def split: if_splits)
    then show ?thesis using L False C same tun_inv_0 [OF inv] by fastforce
  next
    case True
    then have none: "\<forall>v T. tunnels s v = Some T \<longrightarrow> t_remote T \<noteq> peer" using L(2) tun_inv_0 [OF inv] by auto
    have s1: "s1 = s" using L(3) True by auto
    have wf: "twf (tunnel_tree s)" using inv by (simp add: tun_inv_def)
    have miss: "(peer, e) \<notin> tleaves (tunnel_tree s)" for e
      using none inv by (auto simp: tun_inv_def tun_at_def)
    have new: "length peer = 16" "new \<noteq> 0" using peer fresh by auto
    from tunnel_tree_insert_cases [OF wf new(2,1), of "mem 1"] miss consider
      (ok) T' where "tunnel_tree_insert (mem 1) peer new (tunnel_tree s) = (0, False, T')" "twf T'"
        "tleaves T' = insert (peer, new) (tleaves (tunnel_tree s))"
      | (no) "\<not> mem 1" "tunnel_tree_insert (mem 1) peer new (tunnel_tree s) = (new, False, tunnel_tree s)" by blast
    then show ?thesis
    proof cases
      case no
      then have "t = 0 \<and> s' = s" using add look True s1 new(2) by (simp add: add_tunnel_def full)
      then show ?thesis using no inv by simp
    next
      case ok
      have s': "t = new" "s' = s\<lparr>tunnel_tree := T', tunnels := (tunnels s)(new \<mapsto> tunnel_new cfg peer), tuncnt := tuncnt s + 1\<rparr>"
        using add look True s1 ok
        by (auto simp: add_tunnel_def full upd_tunnel_def tunnel_new_def Let_def split: if_splits)
      have at: "tun_at s' = (tun_at s)(new \<mapsto> (peer, 0))"
        by (auto simp: s' tun_at_def tunnel_new_def tunnel_zero_def full fun_eq_iff)
      have nd: "new \<notin> dom (tun_at s)" "new \<notin> dom (tunnels s)" using fresh by (auto simp: tun_at_def)
      have slot: "tunnel_slot k s' = tunnel_slot k s" for k by (simp add: tunnel_slot_def s')
      have "\<exists>k. tun_at s' (tunhash s' h) = Some (k, h) \<and> tunnel_slot k s' = h" if h: "tunhash s' h \<noteq> 0" for h
      proof -
        have "\<exists>k. tun_at s (tunhash s h) = Some (k, h) \<and> tunnel_slot k s = h"
          using inv h s' unfolding tun_inv_def by simp
        then show ?thesis using nd(1) at slot s' by (auto simp: domIff)
      qed
      moreover have "(k, u) \<in> tleaves (tunnel_tree s') \<longleftrightarrow> (\<exists>h. tun_at s' u = Some (k, h))" for k u
        using inv ok(3) at nd(1) s' by (auto simp: tun_inv_def domIff)
      ultimately have "tun_inv s'" using inv ok(2) at nd(1) s' by (auto simp: tun_inv_def)
      then show ?thesis using s' none nd
        by (auto simp: cores_def fun_eq_iff tun_ports_def tunnel_new_def tunnel_zero_def tun_core_def)
    qed
  qed
qed


text \<open>
  Claim C21: add_tunnel makes one tunnel for an address that has none and refuses one that has:
  the new tunnel has the default MTU and flags and no port, it is found by the next lookup of
  its address and by no other, and every other tunnel stays as it was.
\<close>

theorem add_tunnel_correct:
  assumes "tun_inv s" "length peer = 16" "tunnels s new = None" "new \<noteq> 0" "mem 0" "mem 1"
  shows "case add_tunnel cfg mem new peer s of (t, s') \<Rightarrow> tun_inv s' \<and>
    (if \<exists>u T. tunnels s u = Some T \<and> t_remote T = peer then t = 0 \<and> cores s' = cores s
     else t = new \<and> cores s' = (cores s)(new \<mapsto> tunnel_new cfg peer) \<and>
       (\<forall>peer'. length peer' = 16 \<longrightarrow> (fst (tunnel_lookup peer' s') = new \<longleftrightarrow> peer' = peer)))"
proof -
  obtain t s' where a: "add_tunnel cfg mem new peer s = (t, s')" by fastforce
  note cases = add_tunnel_cases [OF assms(1-4) a]
  show ?thesis
  proof (cases "\<exists>u T. tunnels s u = Some T \<and> t_remote T = peer")
    case True
    then show ?thesis using cases a by auto
  next
    case False
    then have n: "t = new" "tun_inv s'" "cores s' = (cores s)(new \<mapsto> tunnel_new cfg peer)"
      "tunnels s' new = Some (tunnel_new cfg peer)"
      using cases assms(5,6) by auto
    have remote: "t_remote (tunnel_new cfg peer) = peer" using assms(2) by (simp add: tunnel_new_def tunnel_zero_def)
    have "fst (tunnel_lookup peer' s') = new \<longleftrightarrow> peer' = peer" if len: "length peer' = 16" for peer'
    proof -
      obtain u s'' where l: "tunnel_lookup peer' s' = (u, s'')" by fastforce
      have "(\<exists>T. tunnels s' u = Some T \<and> t_remote T = peer') \<or>
          u = 0 \<and> (\<forall>v T. tunnels s' v = Some T \<longrightarrow> t_remote T \<noteq> peer')"
        using tunnel_lookup_spec(2) [OF n(2) len l] .
      then show ?thesis
      proof
        assume "\<exists>T. tunnels s' u = Some T \<and> t_remote T = peer'"
        then obtain T where T: "tunnels s' u = Some T" "t_remote T = peer'" by blast
        have "u = new" if "peer' = peer"
          using tun_inv_unique [OF n(2) tun_at_some [OF T(1)], of new] tun_at_some [OF n(4)] T(2) remote that by simp
        moreover have "peer' = peer" if "u = new" using T n(4) remote that by simp
        ultimately show ?thesis using l by auto
      next
        assume "u = 0 \<and> (\<forall>v T. tunnels s' v = Some T \<longrightarrow> t_remote T \<noteq> peer')"
        then show ?thesis using l n(4) remote assms(4) by auto
      qed
    qed
    then show ?thesis unfolding a prod.case if_not_P [OF False] using n by blast
  qed
qed

lemma tun_inv_aftr0: "tun_inv aftr0"
proof -
  have "tun_at aftr0 = Map.empty" by (simp add: tun_at_def aftr0_def fun_eq_iff)
  then show ?thesis unfolding tun_inv_def by (simp, simp add: aftr0_def)
qed

theorem add_tunnel_correct_witness:
  "\<exists>s. add_tunnel default_config (\<lambda>i. True) 5 doc_prefix aftr0 = (5, s) \<and> tun_inv s \<and>
     fst (tunnel_lookup doc_prefix s) = 5 \<and> fst (tunnel_lookup (doc_prefix[15 := 1]) s) \<noteq> 5"
proof -
  have len: "length doc_prefix = 16" "length (doc_prefix[15 := 1]) = 16" by (simp_all add: doc_prefix_def)
  have ne: "doc_prefix[15 := 1] \<noteq> doc_prefix" by (simp add: doc_prefix_def)
  have none: "tunnels aftr0 u = None" for u by (simp add: aftr0_def)
  from add_tunnel_correct [OF tun_inv_aftr0 len(1) none, of 5 "\<lambda>i. True" default_config]
  show ?thesis using len ne none by (auto split: prod.splits)
qed

theorem tunnel_tree_insert_correct_witness:
  "\<exists>T. tunnel_tree_insert True (doc_prefix[15 := 1]) 7 (TNode 128 False doc_prefix 5 TNull TNull) = (0, False, T) \<and>
     tunnel_tree_find (doc_prefix[15 := 1]) T = Some 7 \<and> tunnel_tree_find doc_prefix T = Some 5"
proof -
  let ?T = "TNode 128 False doc_prefix 5 TNull TNull" and ?k = "doc_prefix[15 := 1]"
  have wf: "twf ?T" "length ?k = 16" by (simp_all add: doc_prefix_def)
  have ne: "doc_prefix \<noteq> ?k" by (simp add: doc_prefix_def)
  obtain e x T where i: "tunnel_tree_insert True ?k 7 ?T = (e, x, T)" by (metis prod_cases3)
  from tunnel_tree_insert_correct [OF wf(1) _ wf(2) i] ne show ?thesis unfolding i by auto
qed

theorem tunnel_tree_remove_correct_witness:
  "\<exists>T. tunnel_tree_remove 5 (TNode 127 True [] 0 (TNode 128 False doc_prefix 5 TNull TNull)
       (TNode 128 False (doc_prefix[15 := 1]) 7 TNull TNull)) = Some T \<and>
     tunnel_tree_find doc_prefix T = None \<and> tunnel_tree_find (doc_prefix[15 := 1]) T = Some 7"
proof -
  let ?k = "doc_prefix[15 := 1]"
  let ?l = "TNode 128 False doc_prefix 5 TNull TNull" and ?r = "TNode 128 False ?k 7 TNull TNull"
  have ne: "doc_prefix \<noteq> ?k" by (simp add: doc_prefix_def)
  have bits: "\<not> key_bit doc_prefix 127" "key_bit ?k 127" by (simp_all add: key_bit_def doc_prefix_def)
  have agree: "prefix_agree 127 doc_prefix ?k" "prefix_agree 127 ?k doc_prefix"
  proof -
    have "bit (1 :: u8) (7 - b mod 8) = bit (0 :: u8) (7 - b mod 8)" if "b < 127" "b div 8 = 15" for b
    proof -
      have "b mod 8 < 7" using that by presburger
      then show ?thesis by (simp add: bit_1_iff)
    qed
    then have "key_bit ?k b = key_bit doc_prefix b" if "b < 127" for b
      using that by (cases "b div 8 = 15") (simp_all add: key_bit_iff, simp add: doc_prefix_def)
    then show "prefix_agree 127 doc_prefix ?k" "prefix_agree 127 ?k doc_prefix" by (simp_all add: prefix_agree_def)
  qed
  have wf: "twf (TNode 127 True [] 0 ?l ?r)" using bits agree by (simp add: doc_prefix_def)
  have inj: "tids_inj (TNode 127 True [] 0 ?l ?r)" by (auto simp: tids_inj_def)
  have find: "tunnel_tree_find doc_prefix (TNode 127 True [] 0 ?l ?r) = Some 5"
    "tunnel_tree_find ?k (TNode 127 True [] 0 ?l ?r) = Some 7" using bits by simp_all
  from tunnel_tree_remove_correct [OF wf inj find(1)] find(2) ne show ?thesis by auto
qed

text \<open>
  Claim C35: whatever value a client asks for, set_tunnel_mtu leaves a tunnel with an MTU of at
  least 1280, the minimum of IPv6, and without the force flag it never raises the MTU.
\<close>

theorem set_tunnel_mtu_bounds:
  assumes "tun_inv s" "length remote = 16" "set_tunnel_mtu remote mtu force s = (r, s')"
  shows "(r = 0 \<longrightarrow> (\<exists>t T. tunnels s' t = Some T \<and> t_remote T = remote \<and> 1280 \<le> t_mtu T \<and>
      uint (t_mtu T) = max 1280 (min 65535 (uint mtu)) \<and> (\<not> force \<longrightarrow> t_mtu T \<le> t_mtu (tunof s t)))) \<and>
    (r \<noteq> 0 \<longrightarrow> cores s' = cores s) \<and> tun_inv s'"
proof -
  obtain t s1 where l: "tunnel_lookup remote s = (t, s1)" by fastforce
  note L = tunnel_lookup_spec [OF assms(1,2) l] and C = tunnel_lookup_cores [OF assms(1,2) l]
  define m where "m = (if mtu > 65535 then 65535 else if mtu < 1280 then 1280 else mtu)"
  have m: "uint m = max 1280 (min 65535 (uint mtu))"
    by (auto simp: m_def word_less_def word_le_def)
  have um: "uint (ucast m :: u16) = max 1280 (min 65535 (uint mtu))"
    using m by (simp add: unsigned_ucast_eq take_bit_eq_mod)
  have step: "set_tunnel_mtu remote mtu force s =
      (if t = 0 \<or> \<not> force \<and> t_mtu (tunof s1 t) < ucast m then (-1, s1)
       else (0, upd_tunnel t (\<lambda>t. t\<lparr>t_mtu := ucast m\<rparr>) s1))"
    by (simp add: set_tunnel_mtu_def l Let_def m_def)
  show ?thesis
  proof (cases "t = 0 \<or> \<not> force \<and> t_mtu (tunof s1 t) < ucast m")
    case True
    then have "r = -1 \<and> s' = s1" using assms(3) unfolding step if_P [OF True] by simp
    then show ?thesis using L(1) C by simp
  next
    case False
    then have s': "r = 0" "s' = upd_tunnel t (\<lambda>t. t\<lparr>t_mtu := ucast m\<rparr>) s1"
      using assms(3) unfolding step if_not_P [OF False] by simp_all
    have "tun_view s' = tun_view s1"
      by (auto simp: tun_view_def s' tun_at_upd fun_eq_iff) (auto simp: tun_at_def)
    then have inv: "tun_inv s'" using L(1) tun_inv_view by blast
    obtain T where T: "tunnels s t = Some T" "t_remote T = remote" using L(2) False by auto
    then have "cores s1 t = Some (tun_core T)" using C by (simp add: cores_def)
    then obtain T1 where T1: "tunnels s1 t = Some T1" "tun_core T1 = tun_core T" by (auto simp: cores_def)
    have "t_remote (tun_core T1) = t_remote (tun_core T)" "t_mtu (tun_core T1) = t_mtu (tun_core T)" using T1(2) by simp_all
    then have core: "t_remote T1 = t_remote T" "t_mtu T1 = t_mtu T" by (simp_all add: tun_core_def)
    have "tunnels s' t = Some (T1\<lparr>t_mtu := ucast m\<rparr>)" using T1(1) by (simp add: s' upd_tunnel_def)
    moreover have "1280 \<le> (ucast m :: u16)" unfolding word_le_def um by simp
    moreover have "ucast m \<le> t_mtu (tunof s t)" if "\<not> force"
      using False that T T1 core by (simp add: tunof_def not_less)
    ultimately have "\<exists>t T. tunnels s' t = Some T \<and> t_remote T = remote \<and> 1280 \<le> t_mtu T \<and>
        uint (t_mtu T) = max 1280 (min 65535 (uint mtu)) \<and> (\<not> force \<longrightarrow> t_mtu T \<le> t_mtu (tunof s t))"
      using T core um by (intro exI [of _ t] exI [of _ "T1\<lparr>t_mtu := ucast m\<rparr>"]) simp
    then show ?thesis using s'(1) inv by simp
  qed
qed

theorem set_tunnel_mtu_bounds_witness:
  "\<exists>s s' t T. tun_inv s \<and> set_tunnel_mtu doc_prefix 100 True s = (0, s') \<and> tunnels s' t = Some T \<and> uint (t_mtu T) = 1280"
proof -
  obtain s where s: "add_tunnel default_config (\<lambda>i. True) 5 doc_prefix aftr0 = (5, s)" "tun_inv s"
    "tunnels s 5 = Some (tunnel_new default_config doc_prefix)"
  proof -
    obtain t s where a: "add_tunnel default_config (\<lambda>i. True) 5 doc_prefix aftr0 = (t, s)" by fastforce
    have "length doc_prefix = 16" "tunnels aftr0 u = None" for u by (simp_all add: doc_prefix_def aftr0_def)
    with add_tunnel_cases [OF tun_inv_aftr0 _ _ _ a] a that show ?thesis by auto
  qed
  obtain r s' where m: "set_tunnel_mtu doc_prefix 100 True s = (r, s')" by fastforce
  have len: "length doc_prefix = 16" by (simp add: doc_prefix_def)
  have "t_remote (tunnel_new default_config doc_prefix) = doc_prefix"
    by (simp add: tunnel_new_def tunnel_zero_def doc_prefix_def sub_def)
  then have "fst (tunnel_lookup doc_prefix s) \<noteq> 0"
    using tunnel_lookup_spec(2) [OF s(2) len] tun_inv_0 [OF s(2)] s(3) by (metis prod.collapse option.distinct(1))
  then have "r = 0" using m by (auto simp: set_tunnel_mtu_def split: prod.splits if_splits)
  with set_tunnel_mtu_bounds [OF s(2) len m] m s(2) show ?thesis by auto
qed

end
