(* ===== verification/Aftr_Packet.thy ===== *)
theory Aftr_Packet
  imports Aftr_Nat Aftr_Frag Aftr_Tunnel
begin

text \<open>
  The path of a packet: decap and icmp6in for what comes through a tunnel, filterin and
  filterout, which decide what is done with it, and loop1, which reads one packet and runs the
  path. The \<open>goto again\<close> of decap, filterin and filterout, taken after a reassembly or after an
  option header is stripped, is a recursive call with fuel; the theorems show that two passes
  are enough. \<open>None\<close> is otherwise what it is in the theories below: a port draw that never
  ends or a read through a NULL pool.
\<close>

section \<open>From the tunnel\<close>

text \<open>The tests that filterin starts with; each counts the same drop.\<close>

definition in_bad :: "bytes \<Rightarrow> nat \<Rightarrow> bool" where
  "in_bad b len \<longleftrightarrow> len < IPMINLEN \<or> b ! 0 \<noteq> IP4VNOOP \<or> b ! IPSRC = 127 \<or> b ! IPDST = 127 \<or>
     b ! IPSRC \<ge> 224 \<or> b ! IPDST \<ge> 224 \<or> (b ! IPPROTO \<noteq> IPTCP \<and> b ! IPPROTO \<noteq> IPUDP \<and> b ! IPPROTO \<noteq> IPICMP) \<or>
     be16 (b ! IPLENH) (b ! IPLENL) < 28 \<or> be16 (b ! IPLENH) (b ! IPLENL) > int len \<or> in_cksum b IPHDRLEN \<noteq> 0"

definition is_frag4 :: "bytes \<Rightarrow> bool" where
  "is_frag4 b \<longleftrightarrow> b ! IPOFFH AND (IPMF OR IPOFFMSK) \<noteq> 0 \<or> b ! IPOFFL \<noteq> 0"

definition ip_len :: "bytes \<Rightarrow> nat" where
  "ip_len b = nat (be16 (b ! IPLENH) (b ! IPLENL))"

text \<open>
  filterin: 0 drops the packet (it may have been consumed), 1 is NAT, 2 is PRR, 3 is no NAT.
  \<open>mem k\<close> and \<open>nw k\<close> are the allocations of a defrag with \<open>k\<close> passes left.
\<close>

fun filterin ::
  "config \<Rightarrow> (nat \<Rightarrow> nat \<Rightarrow> bool) \<Rightarrow> (nat \<Rightarrow> fid) \<Rightarrow> nat \<Rightarrow> tid \<Rightarrow> bytes \<Rightarrow> nat \<Rightarrow> aftr \<Rightarrow>
     (nat \<times> bytes \<times> nat \<times> aftr) option" where
  "filterin cfg mem nw 0 t b len s = None"
| "filterin cfg mem nw (Suc k) t b len s =
     (if in_bad b len then Some (0, b, len, stat_drop DR_BADIN s)
      else
        let len = ip_len b; nonat = (t_flags (tunof s t) AND TUNNONAT \<noteq> 0)
        in if is_frag4 b then
             (case defrag cfg (mem k) (nw k) t b len s of
                (None, s) \<Rightarrow> Some (0, b, len, s)
              | (Some (b, len), s) \<Rightarrow> filterin cfg mem nw k t b len s)
           else if b ! IPPROTO = IPICMP \<and> in_cksum (drop IPHDRLEN b) (len - IPHDRLEN) \<noteq> 0
             then Some (0, b, len, stat_drop DR_BADIN s)
           else if nonat then Some (3, b, len, s)
           else if b ! IPPROTO = IPICMP \<and> b ! ICMPTYPE \<noteq> ICMPECHREQ
             then Some (0, b, len, naticmpin t False 0 0 0 b len s)
           else if acl4 (sub b IPSRC 4) s then Some (1, b, len, s)
           else Some (2, b, len, s))"

text \<open>What icmp6in accepts: the type, the code, and for too big the MTU (0 for the other types).\<close>

definition icmp6_mtu :: "bytes \<Rightarrow> u32 option" where
  "icmp6_mtu b =
     (let type6 = b ! ICMP6TYPE; code6 = b ! ICMP6CODE
      in if type6 = 1 then (if code6 > 3 then None else Some 0)
         else if type6 = 2 then
           (if code6 \<noteq> 0 then None
            else let mtu = be32 (sub b ICMP6PTR 4) in if mtu = 0 then None else Some mtu)
         else if type6 = 3 then (if code6 \<noteq> 0 then None else Some 0)
         else if type6 = 4 then Some 0
         else None)"

definition icmp6in :: "bytes \<Rightarrow> bytes \<Rightarrow> nat \<Rightarrow> aftr \<Rightarrow> aftr" where
  "icmp6in buf6 buf4 len s =
     (if len < IP6HDRLEN + 8 + IP6HDRLEN + 8 then stat_drop DR_BAD6 s
      else case icmp6_mtu buf6 of
        None \<Rightarrow> stat_drop DR_ICMP6 s
      | Some mtu \<Rightarrow>
          if sub buf6 IP6DST 16 \<noteq> sub buf6 IP62SRC 16 then stat_drop DR_ICMP6 s
          else if buf6 ! IP62PROTO \<noteq> IP6IP4 \<or> len < IP64 + IPMINLEN then stat_drop DR_ICMP6 s
          else if buf6 ! IP64PROTO \<noteq> IPTCP \<and> buf6 ! IP64PROTO \<noteq> IPUDP then stat_drop DR_ICMP6 s
          else
            let (sum6, buf6) = pseudo6_cksum buf6 len
            in if sum6 \<noteq> 0 then stat_drop DR_ICMP6 s
               else
                 let (t, s) = tunnel_lookup (sub buf6 IP62DST 16) s
                 in if t = 0 then stat_drop DR_NOTUN s
                    else if mtu \<noteq> 0 then snd (set_tunnel_mtu (t_remote (tunof s t)) mtu False s)
                    else
                      let len = len - IP64; b = put buf4 0 (sub buf6 IP64 len)
                      in if t_flags (tunof s t) AND TUNNONAT = 0 then naticmpin t True 3 1 0 b len s
                         else nonaticmpin 3 1 b len s)"

text \<open>The tunnel of a packet: the one known already, the one of the source, or a new one.\<close>

definition decap_tunnel ::
  "config \<Rightarrow> (nat \<Rightarrow> bool) \<Rightarrow> tid \<Rightarrow> tid \<Rightarrow> bytes \<Rightarrow> aftr \<Rightarrow> (tid \<times> aftr) option" where
  "decap_tunnel cfg mem new t buf6 s =
     (let src = sub buf6 IP6SRC 16; (t, s) = (if t = 0 then tunnel_lookup src s else (t, s))
      in if t \<noteq> 0 then Some (t, s)
         else if \<not> use_autotunnel cfg then Some (0, stat_drop DR_NOTUN s)
         else if \<not> acl6 src s then Some (0, stat_drop DR_ACL6 s)
         else case add_stdtunnel cfg mem new src None s of
           None \<Rightarrow> None
         | Some (t, s) \<Rightarrow> Some (t, if t = 0 then stat_drop DR_NOTUN s else s))"

text \<open>The length of the payload: what the header says, if that much was received.\<close>

definition decap_len :: "bytes \<Rightarrow> nat \<Rightarrow> nat option" where
  "decap_len buf6 len =
     (let len = len - IP6HDRLEN; l = nat (be16 (buf6 ! IP6LENH) (buf6 ! IP6LENL))
      in if l > len then None else if l < len then (if l < 16 then None else Some l) else Some len)"

text \<open>The result of decap: the tunnel (0 for none), buf4, the length and the state.\<close>

fun decap ::
  "config \<Rightarrow> (nat \<Rightarrow> nat \<Rightarrow> bool) \<Rightarrow> (nat \<Rightarrow> nat) \<Rightarrow> nat \<Rightarrow> tid \<Rightarrow> bytes \<Rightarrow> bytes \<Rightarrow> nat \<Rightarrow> aftr \<Rightarrow>
     (tid \<times> bytes \<times> nat \<times> aftr) option" where
  "decap cfg mem nw 0 t buf6 buf4 len s = None"
| "decap cfg mem nw (Suc k) t buf6 buf4 len s =
     (if buf6 ! 0 AND IPVERMSK \<noteq> IP6V \<or> len < IP6HDRLEN + 8 + 8 then Some (0, buf4, len, stat_drop DR_BAD6 s)
      else if buf6 ! IP6PROTO = IP6ICMP then
        Some (0, buf4, len, if acl6 (sub buf6 IP6SRC 16) s then icmp6in buf6 buf4 len s else s)
      else case decap_tunnel cfg (mem k) (nw (2 * k)) t buf6 s of
        None \<Rightarrow> None
      | Some (t, s) \<Rightarrow>
          if t = 0 then Some (0, buf4, len, s)
          else (case decap_len buf6 len of
            None \<Rightarrow> Some (0, buf4, len, stat_drop DR_BAD6 s)
          | Some len \<Rightarrow>
              if buf6 ! IP6PROTO = IP6IP4 then Some (t, put buf4 0 (sub buf6 IP6HDRLEN len), len, s)
              else if buf6 ! IP6PROTO = IP6FRAG \<and> buf6 ! IP6FPROTO = IP6IP4 then
                (case defrag6 cfg (\<lambda>i. mem k (3 + i)) (nw (2 * k + 1)) t buf6 (len + IP6HDRLEN) s of
                   (None, s) \<Rightarrow> Some (0, buf4, len, s)
                 | (Some (buf6, len), s) \<Rightarrow> decap cfg mem nw k t buf6 buf4 len s)
              else if buf6 ! IP6PROTO = IP6DSTOP \<and> buf6 ! IP6FPROTO = IP6IP4 \<and> buf6 ! (IP6FPROTO + 1) = 0 then
                let len = len - 8; b = buf6[IP6LENH := hi8 (int len), IP6LENL := lo8 (int len)];
                    b = b[IP6PROTO := b ! IP6FPROTO];
                    b = put b IP6HDRLEN (sub b (IP6HDRLEN + 8) len)
                in decap cfg mem nw k t b buf4 (len + IP6HDRLEN) s
              else Some (0, buf4, len, stat_drop DR_BAD6 s)))"

section \<open>From the Internet\<close>

text \<open>The loop over the pools that compares \<open>pools[i]->addr\<close>; \<open>None\<close> is a NULL pool.\<close>

fun pool_hit :: "bytes \<Rightarrow> pool option list \<Rightarrow> bool option" where
  "pool_hit addr [] = Some False"
| "pool_hit addr (None # ps) = None"
| "pool_hit addr (Some P # ps) = (if sub (p_addr P) 0 4 = addr then Some True else pool_hit addr ps)"

definition icmpout_bad :: "bytes \<Rightarrow> nat \<Rightarrow> bool" where
  "icmpout_bad b len \<longleftrightarrow> len < IP2 + IPMINLEN \<or> b ! ICMPTYPE \<notin> {3, 11, 12} \<or> b ! IP2 \<noteq> IP4VNOOP \<or>
     b ! IP2SRC = 127 \<or> b ! IP2DST = 127 \<or> b ! IP2SRC \<ge> 224 \<or> b ! IP2DST \<ge> 224 \<or>
     (b ! IP2PROTO \<noteq> IPTCP \<and> b ! IP2PROTO \<noteq> IPUDP) \<or> sub b IPDST 4 \<noteq> sub b IP2SRC 4 \<or>
     be16 (b ! IP2LENH) (b ! IP2LENL) < 28 \<or> in_cksum (drop IP2 b) IPHDRLEN \<noteq> 0 \<or>
     b ! IP2OFFH AND IPOFFMSK \<noteq> 0 \<or> b ! IP2OFFL \<noteq> 0 \<or> in_cksum (drop IPHDRLEN b) (len - IPHDRLEN) \<noteq> 0"

definition filtericmpout :: "bytes \<Rightarrow> nat \<Rightarrow> aftr \<Rightarrow> (bool \<times> aftr) option" where
  "filtericmpout b len s =
     (if icmpout_bad b len then Some (False, stat_drop DR_ICMPOUT s)
      else case pool_hit (sub b IPDST 4) (pools s) of
        None \<Rightarrow> None
      | Some hit \<Rightarrow> Some (hit, if hit then s else stat_drop DR_DSTOUT s))"

definition out_bad :: "bytes \<Rightarrow> nat \<Rightarrow> bool" where
  "out_bad b len \<longleftrightarrow> len < IPMINLEN \<or> b ! 0 \<noteq> IP4VNOOP \<or> b ! IPSRC = 127 \<or> b ! IPDST = 127 \<or>
     b ! IPSRC \<ge> 224 \<or> b ! IPDST \<ge> 224 \<or>
     be16 (b ! IPLENH) (b ! IPLENL) < 28 \<or> be16 (b ! IPLENH) (b ! IPLENL) > int len \<or> in_cksum b IPHDRLEN \<noteq> 0"

text \<open>
  The destination: 3 in the prefix of a no-NAT tunnel, 0 the address of a pool. The inner
  option is empty when it is neither, the outer one for a NULL pool.
\<close>

definition out_dest :: "bytes \<Rightarrow> aftr \<Rightarrow> nat option option" where
  "out_dest b s =
     (if list_ex (\<lambda>t. in_nonat (tunof s t) IPDST b) (nonats s) then Some (Some 3)
      else case pool_hit (sub b IPDST 4) (pools s) of
        None \<Rightarrow> None
      | Some hit \<Rightarrow> Some (if hit then Some 0 else None))"

text \<open>
  filterout: 0 drops the packet, 1 is NAT, 2 is NAT of an ICMP error, 3 is no NAT. \<open>ret\<close> is the
  decision on the destination when a pass before has made it.
\<close>

fun filterout ::
  "config \<Rightarrow> (nat \<Rightarrow> nat \<Rightarrow> bool) \<Rightarrow> (nat \<Rightarrow> fid) \<Rightarrow> nat \<Rightarrow> nat option \<Rightarrow> bytes \<Rightarrow> nat \<Rightarrow> aftr \<Rightarrow>
     (nat \<times> bytes \<times> nat \<times> aftr) option" where
  "filterout cfg mem nw 0 ret b len s = None"
| "filterout cfg mem nw (Suc k) ret b len s =
     (if out_bad b len then Some (0, b, len, stat_drop DR_BADOUT s)
      else
        let len = ip_len b
        in case (if ret \<noteq> None then Some ret else out_dest b s) of
          None \<Rightarrow> None
        | Some None \<Rightarrow> Some (0, b, len, stat_drop DR_DSTOUT s)
        | Some (Some ret) \<Rightarrow>
            if b ! IPPROTO \<noteq> IPTCP \<and> b ! IPPROTO \<noteq> IPUDP \<and> b ! IPPROTO \<noteq> IPICMP
            then Some (0, b, len, stat_drop DR_BADOUT s)
            else if is_frag4 b then
              (case defrag cfg (mem k) (nw k) 0 b len s of
                 (None, s) \<Rightarrow> Some (0, b, len, s)
               | (Some (b, len), s) \<Rightarrow> filterout cfg mem nw k (Some ret) b len s)
            else if b ! IPPROTO = IPTCP then
              (if len < IPHDRLEN + 20 then Some (0, b, len, stat_drop DR_BADOUT s)
               else Some (if ret \<noteq> 3 then 1 else ret, b, len, s))
            else if b ! IPPROTO = IPUDP then Some (if ret \<noteq> 3 then 1 else ret, b, len, s)
            else if ret = 3 then Some (3, b, len, s)
            else if b ! ICMPTYPE = ICMPECHREP then Some (1, b, len, s)
            else (case filtericmpout b len s of
                    None \<Rightarrow> None
                  | Some (ok, s) \<Rightarrow> Some (if ok then 2 else ret, b, len, s)))"

section \<open>One packet\<close>

text \<open>What the environment supplies: allocations, unset stack bytes, and the results of tun_write.\<close>

record env =
  decap_mem :: "nat \<Rightarrow> nat \<Rightarrow> bool"
  decap_new :: "nat \<Rightarrow> nat"
  frag_mem :: "nat \<Rightarrow> nat \<Rightarrow> bool"
  frag_new :: "nat \<Rightarrow> fid"
  nat_mem :: "nat \<Rightarrow> bool"
  nat_new :: "nat \<Rightarrow> nid"
  stack_bytes :: bytes
  write_ok :: "nat \<Rightarrow> bool"

definition loop6 :: "config \<Rightarrow> env \<Rightarrow> bytes \<Rightarrow> bytes \<Rightarrow> bytes \<Rightarrow> aftr \<Rightarrow> (int \<times> aftr) option" where
  "loop6 cfg env buf buf6 buf4 s =
     (let len = length buf
      in if len < IP6HDRLEN + 8 + 8 then Some (0, stat_drop DR_BAD6 s)
         else case decap cfg (decap_mem env) (decap_new env) 2 0 (put buf6 0 buf) buf4 len s of
           None \<Rightarrow> None
         | Some (t, b, len, s) \<Rightarrow>
             if t = 0 then Some (0, s)
             else case filterin cfg (frag_mem env) (frag_new env) 2 t b len s of
               None \<Rightarrow> None
             | Some (d, b, len, s) \<Rightarrow>
                 (case (if d = 1 then natin cfg (nat_mem env) (nat_new env) (stack_bytes env) t b len s
                        else if d = 2 then (case prrin t b len s of (ok, b, s) \<Rightarrow> Some (ok, b, len, s))
                        else if d = 3 then (case nonatin t b len s of (ok, b, s) \<Rightarrow> Some (ok, b, len, s))
                        else Some (False, b, len, s)) of
                    None \<Rightarrow> None
                  | Some (ok, b, len, s) \<Rightarrow>
                      if \<not> ok then Some (0, s)
                      else Some (if write_ok env 0 then 0 else -1, emit (Write4 (take len b)) s)))"

definition loop4 :: "config \<Rightarrow> env \<Rightarrow> bytes \<Rightarrow> bytes \<Rightarrow> aftr \<Rightarrow> (int \<times> aftr) option" where
  "loop4 cfg env buf buf4 s =
     (let len = length buf
      in if len < IPMINLEN then Some (0, stat_drop DR_BADOUT s)
         else case filterout cfg (frag_mem env) (frag_new env) 2 None (put buf4 0 buf) len s of
           None \<Rightarrow> None
         | Some (d, b, len, s) \<Rightarrow>
             let (t, b, len, s) =
                   (if d = 1 then natout cfg (nat_mem env) (nat_new env 0) b len s
                    else if d = 2 then (case naticmpout cfg b len s of (t, b, s) \<Rightarrow> (t, b, len, s))
                    else if d = 3 then (case nonatout b len s of (t, b, s) \<Rightarrow> (t, b, len, s))
                    else (0, b, len, s))
             in if t = 0 then Some (0, s)
                else map_option (\<lambda>s. (0, s)) (encap cfg (write_ok env) t b len s))"

text \<open>
  loop1: \<open>buf\<close> is what tun_read returned (nothing for an error or an empty read), buf6 and buf4
  are what the two buffers hold before.
\<close>

definition loop1 :: "config \<Rightarrow> env \<Rightarrow> bytes \<Rightarrow> bytes \<Rightarrow> bytes \<Rightarrow> aftr \<Rightarrow> (int \<times> aftr) option" where
  "loop1 cfg env buf buf6 buf4 s =
     (if buf = [] then Some (-1, s)
      else if buf ! 0 AND IPVERMSK = IP6V then loop6 cfg env buf buf6 buf4 s
      else if buf ! 0 AND IPVERMSK = IP4V then loop4 cfg env buf buf4 s
      else Some (0, s))"
end
