(* ===== verification/Aftr_Filter.thy ===== *)
theory Aftr_Filter
  imports Aftr_Packet
begin

text \<open>
  What the verdicts of the packet filters mean, and that their loops end: a reassembled packet
  is no fragment, so filterin and filterout make at most one more pass, and decap meets an
  option header or a fragment at most once.
\<close>

section \<open>A reassembled packet is no fragment\<close>

text \<open>The entry of a datagram knows the offset of the header it keeps.\<close>

definition off_inv :: "aftr \<Rightarrow> bool" where
  "off_inv s \<longleftrightarrow> (\<forall>f \<in> set (fragsin s @ fragsout s). f_off (fragof s f) = frag_off4 (f_buf (fragof s f)))"

definition header_of :: "bytes \<Rightarrow> bytes \<Rightarrow> bool" where
  "header_of h b \<longleftrightarrow> h ! IPPROTO = b ! IPPROTO \<and> sub h IPSRC 8 = sub b IPSRC 8"

lemma frag_copy_low:
  "i < hdr \<Longrightarrow> hdr \<le> length b \<Longrightarrow> frag_copy hdr ps b ! i = b ! i \<and> length b \<le> length (frag_copy hdr ps b)"
  unfolding frag_copy_def
proof (induction ps arbitrary: b)
  case (Cons p ps)
  let ?b = "put b (hdr + f_off p) (f_buf p)"
  have "length b \<le> length ?b" "?b ! i = b ! i"
    using Cons.prems by (auto simp: put_def nth_append)
  then show ?case using Cons.IH [of ?b] Cons.prems by simp
qed simp

lemma rebuild4_low:
  assumes "length (f_buf f) = 20" "20 \<le> length b" "i < 20" "i \<notin> {2, 3, 6, 10, 11}"
  shows "rebuild4 f len b ! i = f_buf f ! i" "rebuild4 f len b ! 6 = f_buf f ! 6 AND NOT (IPDF OR IPMF)"
    "length b \<le> length (rebuild4 f len b)"
proof -
  define c where "c = (put b 0 (f_buf f))[6 := f_buf f ! 6 AND NOT (IPDF OR IPMF)]"
  have c: "length c = length b" "c ! i = f_buf f ! i" "c ! 6 = f_buf f ! 6 AND NOT (IPDF OR IPMF)"
    using assms by (auto simp: c_def nth_put)
  note low = frag_copy_low [of _ 20 c "f_list f"]
  have p6: "put b 0 (f_buf f) ! 6 = f_buf f ! 6" using assms by (simp add: nth_put)
  have r: "rebuild4 f len b = (let b = frag_copy 20 (f_list f) c; b = b[2 := hi8 (int len), 3 := lo8 (int len)];
      b = b[10 := 0, 11 := 0]; ck = in_cksum b 20 in b[10 := hi8 ck, 11 := lo8 ck])"
    by (simp add: rebuild4_def Let_def c_def p6)
  show "rebuild4 f len b ! i = f_buf f ! i" "rebuild4 f len b ! 6 = f_buf f ! 6 AND NOT (IPDF OR IPMF)"
    "length b \<le> length (rebuild4 f len b)"
    unfolding r Let_def using low [of i] low [of 6] c assms by auto
qed

lemma frag_off4_zero:
  assumes "frag_off4 b = 0"
  shows "b ! IPOFFH AND IPOFFMSK = 0" "b ! IPOFFL = 0"
proof -
  have "be16 (b ! IPOFFH AND IPOFFMSK) (b ! IPOFFL) = 0"
    using assms be16_nonneg [of "b ! IPOFFH AND IPOFFMSK" "b ! IPOFFL"] by (simp add: frag_off4_def push_bit_eq_mult)
  moreover have "0 \<le> uint (b ! IPOFFH AND IPOFFMSK)" "0 \<le> uint (b ! IPOFFL)" by (rule unsigned_greater_eq)+
  ultimately have "uint (b ! IPOFFH AND IPOFFMSK) = 0 \<and> uint (b ! IPOFFL) = 0" unfolding be16_eq by linarith
  then show "b ! IPOFFH AND IPOFFMSK = 0" "b ! IPOFFL = 0" by simp_all
qed

lemma frag_off4_cong: "b ! 6 = c ! 6 \<Longrightarrow> b ! 7 = c ! 7 \<Longrightarrow> frag_off4 b = frag_off4 c"
  by (simp add: frag_off4_def)

lemma rebuild4_whole:
  assumes e: "length (f_buf f) = 20" "frag_off4 (f_buf f) = 0" "header_of (f_buf f) b" and b: "20 \<le> length b"
  shows "\<not> is_frag4 (rebuild4 f len b)" "header_of (rebuild4 f len b) b" "length b \<le> length (rebuild4 f len b)"
proof -
  note low = rebuild4_low [OF e(1) b]
  note z = frag_off4_zero [OF e(2)]
  have "(f_buf f ! 6 AND NOT (IPDF OR IPMF)) AND (IPMF OR IPOFFMSK) = (f_buf f ! 6 AND IPOFFMSK) AND NOT (IPDF OR IPMF)"
    by (simp add: and.assoc)
  then show "\<not> is_frag4 (rebuild4 f len b)"
    unfolding is_frag4_def using z low(2) [of 7] low(1) [of 7] by simp
  have "sub (rebuild4 f len b) IPSRC 8 = sub (f_buf f) IPSRC 8"
  proof -
    have l: "length (sub (rebuild4 f len b) 12 8) = 8" "length (sub (f_buf f) 12 8) = 8" "20 \<le> length (rebuild4 f len b)"
      using low(3) [of 9 len] e(1) b by simp_all
    show ?thesis by (rule nth_equalityI) (use l e(1) low(1) [of "12 + _"] in \<open>simp_all add: nth_sub\<close>)
  qed
  then show "header_of (rebuild4 f len b) b" using e(3) low(1) [of 9] by (simp add: header_of_def)
  show "length b \<le> length (rebuild4 f len b)" using low(3) [of 9] by simp
qed

section \<open>defrag keeps the headers, and returns whole packets\<close>

lemma fragof_upd: "fragof (upd_frag f g s) h = (if h = f \<and> frags s f \<noteq> None then g (fragof s f) else fragof s h)"
  by (auto simp: fragof_def upd_frag_def)

lemma off_inv_cong:
  assumes "off_inv s" "set (fragsin s' @ fragsout s') \<subseteq> set (fragsin s @ fragsout s)"
    "\<And>g. g \<in> set (fragsin s' @ fragsout s') \<Longrightarrow>
       f_off (fragof s' g) = f_off (fragof s g) \<and> f_buf (fragof s' g) = f_buf (fragof s g) \<or>
       f_off (fragof s' g) = frag_off4 (f_buf (fragof s' g))"
  shows "off_inv s'"
  using assms unfolding off_inv_def by (metis subsetD)

lemma header_of_sub: "20 \<le> length b \<Longrightarrow> header_of (sub b 0 20) b"
  by (auto simp: header_of_def nth_sub sub_def drop_take min_def)

lemma frag_inv_live: "frag_inv s \<Longrightarrow> f \<in> set (fragsin s @ fragsout s) \<Longrightarrow>
    frags s f \<noteq> None \<and> length (f_buf (fragof s f)) = 20"
  unfolding frag_inv_def entry4_ok_def fragof_def by fastforce

lemma defrag_entry_off:
  assumes inv: "frag_inv s" "off_inv s" and new: "new \<noteq> 0" "frags s new = None" and len: "20 \<le> length buf4"
    and d: "defrag_entry cfg new t buf4 s = (f, s')"
  shows "off_inv s' \<and> header_of (f_buf (fragof s' f)) buf4"
proof (cases "defrag_find t buf4 s = 0")
  case True
  have fresh: "new \<notin> set (fragsin s @ fragsout s)"
    using frag_inv_live [OF inv(1)] new(2) by blast
  have q: "set (fragsin s' @ fragsout s') = insert new (set (fragsin s @ fragsout s))" and f: "f = new"
    and n: "f_buf (fragof s' new) = sub buf4 0 20" "f_off (fragof s' new) = frag_off4 buf4"
    and o: "\<And>g. g \<noteq> new \<Longrightarrow> fragof s' g = fragof s g"
    using d True by (cases "t = 0"; auto simp: defrag_entry_def defrag_create_def Let_def upd_frag_def upd_tunnel_def fragof_def)+
  have "frag_off4 (sub buf4 0 20) = frag_off4 buf4" using len by (intro frag_off4_cong) (simp_all add: nth_sub)
  then have "off_inv s'" using inv(2) o n unfolding off_inv_def q by (metis insert_iff)
  then show ?thesis unfolding f n using header_of_sub [OF len] by simp
next
  case False
  let ?f = "defrag_find t buf4 s"
  have ff: "?f \<in> set (fragsin s @ fragsout s)" "same_dgram4 t buf4 (fragof s ?f)"
    using defrag_find_ok [OF inv(1) False] by auto
  have s': "f = ?f" "s' = upd_frag ?f (\<lambda>e. e\<lparr>f_hash := frag_slot buf4 s\<rparr>) (s\<lparr>fraghash := (fraghash s)(frag_slot buf4 s := ?f)\<rparr>)"
    using d False by (auto simp: defrag_entry_def Let_def)
  have o: "f_buf (fragof s' g) = f_buf (fragof s g)" "f_off (fragof s' g) = f_off (fragof s g)" for g
    unfolding s'(2) fragof_upd by (auto simp: fragof_def)
  have "off_inv s'" by (rule off_inv_cong [OF inv(2)]) (use o in \<open>auto simp: s'(2) upd_frag_def\<close>)
  then show ?thesis using ff(2) unfolding s'(1) o by (simp add: header_of_def same_dgram4_def)
qed

lemma frag_add_off:
  assumes inv: "off_inv s" and f: "frags s f \<noteq> None" and np: "f_off np = frag_off4 hdr"
    and d: "frag_add mem r f np hdr s = (res, s')"
  shows "off_inv s' \<and> (f_buf (fragof s' f) = f_buf (fragof s f) \<or> f_buf (fragof s' f) = hdr) \<and>
    (res \<noteq> None \<longrightarrow> f_off (fragof s' f) = 0)"
proof (cases "frag_insert np (f_list (fragof s f)) = None \<or> \<not> mem")
  case True
  then have "res = None" "s' = s \<or> s' = stat_drop r s" using d by (auto simp: frag_add_def split: option.splits)
  then show ?thesis using inv by (auto simp: off_inv_def fragof_def stat_drop_def emit_def)
next
  case False
  then obtain ps where ps: "frag_insert np (f_list (fragof s f)) = Some ps" by auto
  define s1 where "s1 = (if f_off np = 0 \<and> f_off (fragof s f) \<noteq> 0
     then upd_frag f (\<lambda>e. e\<lparr>f_buf := hdr, f_off := f_off np, f_more := f_more np\<rparr>) s else s)"
  have s': "s' = upd_frag f (\<lambda>e. e\<lparr>f_list := ps\<rparr>) s1" "res \<noteq> None \<longrightarrow> f_off (fragof s' f) = 0"
    using d False unfolding frag_add_def ps option.case Let_def s1_def [symmetric] by (auto split: if_splits)
  have o: "f_buf (fragof s' g) = f_buf (fragof s1 g)" "f_off (fragof s' g) = f_off (fragof s1 g)" for g
    unfolding s'(1) fragof_upd by auto
  have q: "fragsin s' = fragsin s" "fragsout s' = fragsout s" by (simp_all add: s' s1_def upd_frag_def)
  have "off_inv s'"
    by (rule off_inv_cong [OF inv]) (use o f np q in \<open>auto simp: s1_def fragof_upd\<close>)
  moreover have "f_buf (fragof s' f) = f_buf (fragof s f) \<or> f_buf (fragof s' f) = hdr"
    unfolding o using f by (auto simp: s1_def fragof_upd)
  ultimately show ?thesis using s'(2) by blast
qed

lemma del_frag4_off:
  assumes inv: "frag_inv s" "off_inv s" and f: "f \<in> set (fragsin s @ fragsout s)"
  shows "off_inv (del_frag4 f s)"
proof (rule off_inv_cong [OF inv(2)])
  let ?s = "del_frag4 f s"
  have d: "frag_inv ?s" "frags ?s f = None" using del_frag4_inv [OF inv(1) f] by auto
  show "set (fragsin ?s @ fragsout ?s) \<subseteq> set (fragsin s @ fragsout s)"
    using set_remove1_subset [of f "fragsin s"] set_remove1_subset [of f "fragsout s"]
    by (auto simp: del_frag4_def Let_def upd_tunnel_def split: if_splits)
  fix g assume "g \<in> set (fragsin ?s @ fragsout ?s)"
  then have "g \<noteq> f" using frag_inv_live [OF d(1)] d(2) by blast
  then have "fragof ?s g = fragof s g" by (auto simp: del_frag4_def Let_def upd_tunnel_def fragof_def)
  then show "f_off (fragof ?s g) = f_off (fragof s g) \<and> f_buf (fragof ?s g) = f_buf (fragof s g) \<or>
      f_off (fragof ?s g) = frag_off4 (f_buf (fragof ?s g))" by simp
qed

lemma defrag_whole:
  assumes inv: "frag_inv s" "off_inv s" and new: "new \<noteq> 0" "frags s new = None" and len: "20 \<le> len" "len \<le> length buf4"
    and d: "defrag cfg mem new t buf4 len s = (res, s')"
  shows "off_inv s' \<and> (\<forall>b l. res = Some (b, l) \<longrightarrow> \<not> is_frag4 b \<and> header_of b buf4 \<and> l \<le> 65535 \<and> length buf4 \<le> length b)"
proof -
  have off_drop: "off_inv (stat_drop r s) = off_inv s" for r s by (simp add: off_inv_def fragof_def stat_drop_def emit_def)
  have "res = None \<and> (\<exists>r. s' = stat_drop r s) \<or>
      (\<exists>f s1. defrag_entry cfg new t buf4 s = (f, s1) \<and> defrag_store (mem 2 \<and> mem 3) f buf4 (len - 20) s1 = (res, s'))"
    using d by (auto simp: defrag_def Let_def split: option.splits if_splits prod.splits)
  then show ?thesis
  proof
    assume "res = None \<and> (\<exists>r. s' = stat_drop r s)"
    then show ?thesis using inv(2) off_drop by auto
  next
    assume "\<exists>f s1. defrag_entry cfg new t buf4 s = (f, s1) \<and> defrag_store (mem 2 \<and> mem 3) f buf4 (len - 20) s1 = (res, s')"
    then obtain f s1 where e: "defrag_entry cfg new t buf4 s = (f, s1)" and st: "defrag_store (mem 2 \<and> mem 3) f buf4 (len - 20) s1 = (res, s')"
      by blast
    have lb: "20 \<le> length buf4" using len by simp
    from defrag_entry_inv [OF inv(1) new lb e]
    have i1: "frag_inv s1" "f \<in> set (fragsin s1 @ fragsout s1)" "f_hash (fragof s1 f) = frag_slot buf4 s1" by auto
    from defrag_entry_off [OF inv new lb e] have o1: "off_inv s1" "header_of (f_buf (fragof s1 f)) buf4" by auto
    let ?np = "\<lparr>f_buf = sub buf4 20 (len - 20), f_len = len - 20, f_off = frag_off4 buf4, f_more = frag_more4 buf4\<rparr>"
    obtain r s2 where a: "frag_add (mem 2 \<and> mem 3) DR_F4MEM f ?np (sub buf4 0 20) s1 = (r, s2)" by fastforce
    have off: "frag_off4 (sub buf4 0 20) = frag_off4 buf4" using lb by (intro frag_off4_cong) (simp_all add: nth_sub)
    have np: "f_off ?np = frag_off4 (sub buf4 0 20)" by (simp add: off)
    from frag_add_off [OF o1(1) _ np a] frag_inv_live [OF i1(1,2)]
    have o2: "off_inv s2" "f_buf (fragof s2 f) = f_buf (fragof s1 f) \<or> f_buf (fragof s2 f) = sub buf4 0 20"
      "r \<noteq> None \<longrightarrow> f_off (fragof s2 f) = 0" by auto
    have i2: "frag_inv s2" "f \<in> set (fragsin s2 @ fragsout s2)"
      using frag_add_inv [OF i1(1,2) _ _ _ a] i1(3) lb len by (auto simp: frag_slot_sub)
    have hd: "header_of (f_buf (fragof s2 f)) buf4" using o2(2) o1(2) header_of_sub [OF lb] by auto
    show ?thesis
    proof (cases r)
      case None
      then show ?thesis using st a o2 by (simp add: defrag_store_def)
    next
      case (Some n)
      have "frag_off4 (f_buf (fragof s2 f)) = 0" using o2(1,3) Some i2(2) unfolding off_inv_def by auto
      note w = rebuild4_whole [OF conjunct2 [OF frag_inv_live [OF i2]] this hd lb]
      have i3: "frag_inv (stat_drop r s2)" "off_inv (stat_drop r s2)" "f \<in> set (fragsin (stat_drop r s2) @ fragsout (stat_drop r s2))" for r
        using i2 o2(1) off_drop by simp_all
      have "off_inv s'"
        using st a Some del_frag4_off [OF i2(1) o2(1) i2(2)] del_frag4_off [OF i3]
        by (auto simp: defrag_store_def split: if_splits)
      moreover have "res = None \<or> n + 20 \<le> 65535 \<and> res = Some (rebuild4 (fragof s2 f) (n + 20) buf4, n + 20)"
        using st a Some by (auto simp: defrag_store_def split: if_splits)
      ultimately show ?thesis using w by auto
    qed
  qed
qed

section \<open>The verdicts\<close>

text \<open>What both filters demand of a packet they let through.\<close>

definition ip_ok :: "bytes \<Rightarrow> nat \<Rightarrow> bool" where
  "ip_ok b len \<longleftrightarrow> b ! 0 = IP4VNOOP \<and> in_cksum b IPHDRLEN = 0 \<and> 28 \<le> len \<and> int len = be16 (b ! IPLENH) (b ! IPLENL) \<and>
     b ! IPPROTO \<in> {IPTCP, IPUDP, IPICMP} \<and> b ! IPSRC \<noteq> 127 \<and> b ! IPDST \<noteq> 127 \<and> b ! IPSRC < 224 \<and> b ! IPDST < 224 \<and>
     \<not> is_frag4 b"


lemma out_bad_ok: "\<not> out_bad b len \<Longrightarrow> \<not> is_frag4 b \<Longrightarrow> b ! IPPROTO \<in> {IPTCP, IPUDP, IPICMP} \<Longrightarrow> ip_ok b (ip_len b)"
  by (auto simp: out_bad_def ip_ok_def ip_len_def)

lemma in_bad_len: "\<not> in_bad b len \<Longrightarrow> 28 \<le> ip_len b \<and> ip_len b \<le> len"
  by (auto simp: in_bad_def ip_len_def)

lemma out_bad_len: "\<not> out_bad b len \<Longrightarrow> 28 \<le> ip_len b \<and> ip_len b \<le> len"
  by (auto simp: out_bad_def ip_len_def)





text \<open>
  The \<open>goto again\<close> of filterin is taken at most once: with two passes it always returns.
  A packet that is let through after a reassembly has the addresses and the protocol of the
  fragment that completed it.
\<close>

theorem filterin_returns:
  assumes "frag_inv s" "off_inv s" "nw 1 \<noteq> 0" "frags s (nw 1) = None" "len \<le> length b"
  shows "\<exists>d b' len' s'. filterin cfg mem nw 2 t b len s = Some (d, b', len', s') \<and> header_of b' b"
proof -
  have two: "filterin cfg mem nw 2 t b len s = filterin cfg mem nw (Suc 1) t b len s" by (simp add: numeral_2_eq_2)
  have refl: "header_of b b" by (simp add: header_of_def)
  consider "in_bad b len" | "\<not> in_bad b len" "\<not> is_frag4 b" | (frag) "\<not> in_bad b len" "is_frag4 b" by blast
  then show ?thesis
  proof cases
    case frag
    note l = in_bad_len [OF frag(1)]
    obtain res s2 where d: "defrag cfg (mem 1) (nw 1) t b (ip_len b) s = (res, s2)" by fastforce
    show ?thesis
    proof (cases res)
      case None
      then show ?thesis unfolding two using frag d refl by (simp add: Let_def)
    next
      case (Some p)
      obtain b2 l2 where p: "p = (b2, l2)" by (cases p)
      have w: "\<not> is_frag4 b2" "header_of b2 b"
        using defrag_whole [OF assms(1-4) _ _ d] l assms(5) Some p by auto
      have "\<exists>d s'. filterin cfg mem nw (Suc 0) t b2 l2 s2 = Some (d, b2, if in_bad b2 l2 then l2 else ip_len b2, s')"
        using w(1) by (auto simp: Let_def)
      then show ?thesis unfolding two using frag d w(2) by (auto simp: Let_def Some p)
    qed
  qed (use refl in \<open>auto simp: two Let_def simp del: filterin.simps(1)\<close>)
qed

text \<open>The destination is in the prefix of a tunnel without NAT.\<close>

definition dst_nonat :: "bytes \<Rightarrow> aftr \<Rightarrow> bool" where
  "dst_nonat b s \<longleftrightarrow> (\<exists>t \<in> set (nonats s). in_nonat (tunof s t) IPDST b)"

lemma out_dest_cases:
  "out_dest b s = Some (Some r) \<longleftrightarrow> r = 3 \<and> dst_nonat b s \<or> r = 0 \<and> \<not> dst_nonat b s \<and> pool_hit (sub b IPDST 4) (pools s) = Some True"
  by (auto simp: out_dest_def dst_nonat_def list_ex_iff split: option.splits)

text \<open>One pass of filterout: the decision on the destination, a fragment, a whole packet.\<close>

lemma filterout_dest:
  "filterout cfg mem nw (Suc k) None b len s =
     (if out_bad b len then Some (0, b, len, stat_drop DR_BADOUT s)
      else case out_dest b s of
        None \<Rightarrow> None
      | Some None \<Rightarrow> Some (0, b, ip_len b, stat_drop DR_DSTOUT s)
      | Some (Some r) \<Rightarrow> filterout cfg mem nw (Suc k) (Some r) b len s)"
  by (simp add: Let_def split: option.split)

lemma filterout_frag:
  assumes "\<not> out_bad b len" "is_frag4 b"
  shows "filterout cfg mem nw (Suc k) (Some r) b len s =
     (if b ! IPPROTO \<notin> {IPTCP, IPUDP, IPICMP} then Some (0, b, ip_len b, stat_drop DR_BADOUT s)
      else case defrag cfg (mem k) (nw k) 0 b (ip_len b) s of
        (None, s) \<Rightarrow> Some (0, b, ip_len b, s)
      | (Some (b, len), s) \<Rightarrow> filterout cfg mem nw k (Some r) b len s)"
  using assms by (simp add: Let_def)

definition out_verdict :: "nat \<Rightarrow> nat \<Rightarrow> bytes \<Rightarrow> nat \<Rightarrow> aftr \<Rightarrow> bool" where
  "out_verdict r d b len s \<longleftrightarrow> ip_ok b len \<and> (b ! IPPROTO = IPTCP \<longrightarrow> 40 \<le> len) \<and>
     d = (if r = 3 then 3 else if b ! IPPROTO = IPICMP \<and> b ! ICMPTYPE \<noteq> ICMPECHREP then 2 else 1) \<and>
     (d = 2 \<longrightarrow> \<not> icmpout_bad b len \<and> pool_hit (sub b IPDST 4) (pools s) = Some True)"

lemma filterout_whole:
  assumes "filterout cfg mem nw (Suc k) (Some r) b len s = Some (d, b', len', s')" "d \<noteq> 0" "r = 0 \<or> r = 3"
    "\<not> is_frag4 b"
  shows "out_verdict r d b' len' s'"
proof -
  have nb: "\<not> out_bad b len" using assms(1,2) by (cases "out_bad b len") simp_all
  have pr: "b ! IPPROTO \<in> {IPTCP, IPUDP, IPICMP}"
    using assms(1,2) nb by (cases "b ! IPPROTO \<in> {IPTCP, IPUDP, IPICMP}") (simp_all add: Let_def)
  note ok = out_bad_ok [OF nb assms(4) pr]
  note run = assms(1) [unfolded filterout.simps(2) if_not_P [OF nb] Let_def option.case, simplified assms(4)]
  consider (tcp) "b ! IPPROTO = IPTCP" | (udp) "b ! IPPROTO = IPUDP" | (icmp) "b ! IPPROTO = IPICMP" using pr by auto
  then show ?thesis
  proof cases
    case tcp
    have "40 \<le> ip_len b" using run tcp assms(2) by (cases "ip_len b < IPHDRLEN + 20") simp_all
    then show ?thesis using run tcp assms(3) ok by (auto simp: out_verdict_def)
  next
    case udp
    then show ?thesis using run assms(3) ok by (auto simp: out_verdict_def)
  next
    case icmp
    show ?thesis
    proof (cases "r = 3 \<or> b ! ICMPTYPE = ICMPECHREP")
      case True
      then show ?thesis using run icmp assms(3) ok by (auto simp: out_verdict_def)
    next
      case False
      then have r: "r = 0" "b ! ICMPTYPE \<noteq> ICMPECHREP" using assms(3) by auto
      obtain c s2 where f: "filtericmpout b (ip_len b) s = Some (c, s2)"
        using run icmp r by (cases "filtericmpout b (ip_len b) s") auto
      have c: "c" "b' = b" "len' = ip_len b" "s' = s2" "d = 2"
        using run icmp r f assms(2) by (auto split: if_splits)
      have "\<not> icmpout_bad b (ip_len b)" "pool_hit (sub b IPDST 4) (pools s) = Some True" "s2 = s"
        using f c(1) by (cases "icmpout_bad b (ip_len b)"; auto simp: filtericmpout_def split: option.splits if_splits)+
      then show ?thesis using c ok icmp r by (simp add: out_verdict_def)
    qed
  qed
qed

lemma filterout_passes:
  assumes "filterout cfg mem nw k (Some r) b len s = Some (d, b', len', s')" "d \<noteq> 0" "r = 0 \<or> r = 3"
  shows "out_verdict r d b' len' s'"
  using assms(1)
proof (induction k arbitrary: b len s)
  case (Suc k)
  have nb: "\<not> out_bad b len" using Suc.prems assms(2) by (cases "out_bad b len") simp_all
  show ?case
  proof (cases "is_frag4 b")
    case True
    obtain p s2 where d: "defrag cfg (mem k) (nw k) 0 b (ip_len b) s = (p, s2)" by fastforce
    note run = Suc.prems [unfolded filterout_frag [OF nb True] d]
    have "b ! IPPROTO \<in> {IPTCP, IPUDP, IPICMP}" "p \<noteq> None"
      using run assms(2) by (auto split: if_splits option.splits)
    then obtain b2 l2 where "filterout cfg mem nw k (Some r) b2 l2 s2 = Some (d, b', len', s')"
      using run by auto
    then show ?thesis by (rule Suc.IH)
  next
    case False
    show ?thesis by (rule filterout_whole [OF Suc.prems assms(2,3) False])
  qed
qed simp

text \<open>
  Claim C10: the verdict of filterout on a packet from the Internet. A packet that is let through
  is whole and valid as behind filterin, and a TCP segment has its whole header. The verdict is
  no NAT exactly when the destination is in the prefix of a tunnel without NAT; otherwise the
  destination is the address of a pool, and the verdict is 2 exactly for the ICMP messages other
  than echo replies, which then are errors about a packet from an address of a pool.
\<close>

theorem filterout_verdict:
  assumes "filterout cfg mem nw k None b len s = Some (d, b', len', s')" "d \<noteq> 0"
  shows "ip_ok b' len' \<and> (b' ! IPPROTO = IPTCP \<longrightarrow> 40 \<le> len') \<and> (d = 3 \<longleftrightarrow> dst_nonat b s) \<and>
    (d \<noteq> 3 \<longrightarrow> pool_hit (sub b IPDST 4) (pools s) = Some True \<and>
      d = (if b' ! IPPROTO = IPICMP \<and> b' ! ICMPTYPE \<noteq> ICMPECHREP then 2 else 1)) \<and>
    (d = 2 \<longrightarrow> \<not> icmpout_bad b' len' \<and> pool_hit (sub b' IP2SRC 4) (pools s') = Some True)"
proof (cases k)
  case (Suc n)
  note run = assms(1) [unfolded Suc filterout_dest]
  have nb: "\<not> out_bad b len" using run assms(2) by (cases "out_bad b len") simp_all
  obtain r where r: "out_dest b s = Some (Some r)" and run2: "filterout cfg mem nw (Suc n) (Some r) b len s = Some (d, b', len', s')"
    using run [unfolded if_not_P [OF nb]] assms(2) by (auto split: option.splits simp del: filterout.simps)
  have r3: "r = 0 \<or> r = 3" using r out_dest_cases [of b s r] by auto
  note v = filterout_passes [OF run2 assms(2) r3, unfolded out_verdict_def]
  have "\<not> icmpout_bad b' len' \<Longrightarrow> sub b' IP2SRC 4 = sub b' IPDST 4" by (simp add: icmpout_bad_def)
  then show ?thesis using r [unfolded out_dest_cases] v by (auto split: if_splits)
qed (use assms in simp)

lemma pool_hit_returns: "None \<notin> set ps \<Longrightarrow> pool_hit a ps \<noteq> None"
  by (induction a ps rule: pool_hit.induct) auto

lemma defrag_pools: "pools (snd (defrag cfg mem new t b len s)) = pools s"
proof -
  have entry: "pools (snd (defrag_entry cfg new t b s)) = pools s"
    by (simp add: defrag_entry_def defrag_create_def Let_def upd_frag_def upd_tunnel_def)
  have add: "pools (snd (frag_add m r f np hdr s)) = pools s" for m r f np hdr s
    by (simp add: frag_add_def Let_def upd_frag_def stat_drop_def emit_def split: option.split)
  have del: "pools (del_frag4 f s) = pools s" for f s by (simp add: del_frag4_def Let_def upd_tunnel_def)
  have drop: "pools (stat_drop r s) = pools s" for r s by (simp add: stat_drop_def emit_def)
  have store: "pools (snd (defrag_store m f b n s)) = pools s" for m f n s
    by (simp add: defrag_store_def Let_def del drop add split: option.split prod.split)
      (metis add snd_conv)
  show ?thesis using entry
    by (auto simp: defrag_def Let_def drop store split: option.split prod.split)
qed

lemma filterout_whole_returns:
  assumes "\<not> is_frag4 b" "None \<notin> set (pools s)"
  shows "\<exists>d len' s'. filterout cfg mem nw (Suc k) (Some r) b len s = Some (d, b, len', s')"
proof -
  obtain p where "filtericmpout b (ip_len b) s = Some p"
    using pool_hit_returns [OF assms(2), of "sub b IPDST 4"] by (cases "filtericmpout b (ip_len b) s") (auto simp: filtericmpout_def split: if_splits)
  then show ?thesis using assms(1) by (cases p) (simp add: Let_def)
qed

text \<open>
  Claim C29: filterout too makes at most one more pass and always returns when no pool pointer is
  NULL; a reassembled packet has the addresses and the protocol of the last fragment, so the
  decision on the destination that is kept from the first pass is the right one.
\<close>

theorem filterout_returns:
  assumes "frag_inv s" "off_inv s" "nw 1 \<noteq> 0" "frags s (nw 1) = None" "len \<le> length b" "None \<notin> set (pools s)"
  shows "\<exists>d b' len' s'. filterout cfg mem nw 2 None b len s = Some (d, b', len', s') \<and> header_of b' b"
proof (cases "out_bad b len")
  case True
  then show ?thesis by (simp add: numeral_2_eq_2 header_of_def)
next
  case nb: False
  have two: "filterout cfg mem nw 2 None b len s = filterout cfg mem nw (Suc 1) None b len s" by (simp add: numeral_2_eq_2)
  have same: "header_of b b" by (simp add: header_of_def)
  have "out_dest b s \<noteq> None" using pool_hit_returns [OF assms(6), of "sub b IPDST 4"] by (auto simp: out_dest_def split: option.splits)
  then consider "out_dest b s = Some None" | (r) r where "out_dest b s = Some (Some r)" by (cases "out_dest b s") auto
  then show ?thesis
  proof cases
    case r
    have eq: "filterout cfg mem nw 2 None b len s = filterout cfg mem nw (Suc 1) (Some r) b len s"
      unfolding two filterout_dest using nb r by (simp del: filterout.simps)
    show ?thesis
    proof (cases "is_frag4 b")
      case True
      note frag = filterout_frag [OF nb True]
      note l = out_bad_len [OF nb]
      obtain p s2 where d: "defrag cfg (mem 1) (nw 1) 0 b (ip_len b) s = (p, s2)" by fastforce
      have off: "pools s2 = pools s"
        using defrag_pools [of cfg "mem 1" "nw 1" 0 b "ip_len b" s] d by simp
      show ?thesis
      proof (cases p)
        case None
        then show ?thesis unfolding eq frag d using same by simp
      next
        case (Some q)
        obtain b2 l2 where q: "q = (b2, l2)" by (cases q)
        have w: "\<not> is_frag4 b2" "header_of b2 b"
          using defrag_whole [OF assms(1-4) _ _ d] l assms(5) Some q by auto
        obtain d3 l3 s3 where "filterout cfg mem nw 1 (Some r) b2 l2 s2 = Some (d3, b2, l3, s3)"
          using filterout_whole_returns [OF w(1), of s2 cfg mem nw 0 r l2] off assms(6) by (auto simp del: filterout.simps)
        then show ?thesis unfolding eq frag d using same w(2) by (simp add: Some q del: filterout.simps)
      qed
    next
      case False
      then show ?thesis unfolding eq using filterout_whole_returns [OF False assms(6)] same by blast
    qed
  qed (use same nb two in \<open>auto simp: filterout_dest simp del: filterout.simps\<close>)
qed

section \<open>decap\<close>







section \<open>Concrete packets\<close>

text \<open>A UDP packet to the address of the example pool.\<close>

definition udp_out :: bytes where
  "udp_out = [69, 0, 0, 28, 0, 0, 0, 0, 64, 17, 174, 207, 10, 0, 0, 1, 192, 0, 2, 1, 0, 53, 0, 53, 0, 8, 0, 0]"


theorem filterin_returns_witness:
  "\<exists>d b' len' s'. filterin default_config (\<lambda>k i. True) (\<lambda>k. 5) 2 3 udp_out 28 aftr0 = Some (d, b', len', s')"
  using filterin_returns [of aftr0 "\<lambda>k. 5" 28 udp_out default_config "\<lambda>k i. True" 3]
  by (auto simp: frag_inv_def off_inv_def aftr0_def udp_out_def simp del: filterin.simps)

theorem filterout_verdict_witness:
  "ip_ok udp_out 28 \<and> \<not> dst_nonat udp_out port_state"
proof -
  have nb: "\<not> out_bad udp_out 28" "\<not> is_frag4 udp_out" "udp_out ! IPPROTO = IPUDP" "ip_len udp_out = 28"
    "sub udp_out IPDST 4 = port_addr"
    by code_simp+
  have n: "nonats port_state = []"
    by (simp add: port_state_def limit_port_def find_pool_def aftr0_def add_pool_def Let_def upd_pool_def)
  have p: "sub (p_addr port_pool) 0 4 = port_addr"
    by (simp add: port_pool_def set_range_def new_pool_def port_addr_def sub_def)
  have "filterout default_config (\<lambda>k i. True) (\<lambda>k. 5) (Suc 1) None udp_out 28 port_state = Some (1, udp_out, 28, port_state)"
    using nb n p by (simp add: Let_def out_dest_def port_state_pools)
  from filterout_verdict [OF this] show ?thesis by simp
qed

theorem filterout_returns_witness:
  "\<exists>d b' len' s'. filterout default_config (\<lambda>k i. True) (\<lambda>k. 5) 2 None udp_out 28 aftr0 = Some (d, b', len', s')"
  using filterout_returns [of aftr0 "\<lambda>k. 5" 28 udp_out default_config "\<lambda>k i. True"]
  by (auto simp: frag_inv_def off_inv_def aftr0_def udp_out_def simp del: filterout.simps)

end
