(* ===== verification/Aftr_Flow.thy ===== *)
theory Aftr_Flow
  imports Aftr_Packet
begin

text \<open>
  The structures a NAT entry is in agree with each other: the global tree, the tree of its
  tunnel and the hash table. \<open>flow_inv\<close> is the invariant, kept by new_nat, del_nat and the
  lookups. With it a translated packet and its reply meet the same entry: what natin sends out
  comes back, through natout, to the host and port that sent it.
\<close>

section \<open>The invariant\<close>

definition active :: "aftr \<Rightarrow> prclass \<Rightarrow> nid set" where
  "active s pr = set (rb_list (nat_tree s pr))"

definition nat_slot :: "aftr \<Rightarrow> nid \<Rightarrow> nat" where
  "nat_slot s n = hash_slot (jhash_nat (nathashrnd s) (natof s n)) (nathashsz s)"

definition flow_inv :: "aftr \<Rightarrow> bool" where
  "flow_inv s \<longleftrightarrow>
     (\<forall>pr. rb_ok (nat_tree s pr) \<and> ordered_by (\<lambda>n. key_ok (natof s n)) (tree_cmp_nid s) (rb_list (nat_tree s pr))) \<and>
     (\<forall>t T pr. tunnels s t = Some T \<longrightarrow>
        ordered_by (\<lambda>n. key_ok (natof s n)) (splay_cmp_nid s) (inorder (t_tnat_root T pr)) \<and>
        (\<forall>n \<in> set_tree (t_tnat_root T pr). n_tunnel (natof s n) = t)) \<and>
     (\<forall>pr n. n \<in> active s pr \<longleftrightarrow> (\<exists>t T. tunnels s t = Some T \<and> n \<in> set_tree (t_tnat_root T pr))) \<and>
     (\<forall>pr n. n \<in> active s pr \<longrightarrow> n \<noteq> 0 \<and> nats s n \<noteq> None \<and> pr_of_proto (n_proto (natof s n)) = pr) \<and>
     0 < nathashsz s \<and>
     (\<forall>h. nathash s h \<noteq> 0 \<longrightarrow> (\<exists>pr. nathash s h \<in> active s pr) \<and>
        n_hash (natof s (nathash s h)) = h \<and> nat_slot s (nathash s h) = h)"

text \<open>What of an entry the comparisons and the translation use.\<close>

definition flow_key :: "nat_entry \<Rightarrow> nat \<times> tid \<times> u8 \<times> u8 \<times> bytes \<times> bytes \<times> bytes \<times> bytes \<times> bytes \<times> bytes \<times> u32" where
  "flow_key e = (n_hash e, n_tunnel e, n_proto e, n_flags e, n_src e, n_nsrc e, n_sport e, n_nport e, n_dst e, n_dport e,
     n_generation e)"

lemma flow_key_upd [simp]:
  "flow_key (e\<lparr>n_heap_index := i\<rparr>) = flow_key e" "flow_key (e\<lparr>n_xlist := x\<rparr>) = flow_key e"
  "flow_key (e\<lparr>n_ftpseq := q\<rparr>) = flow_key e" "flow_key (e\<lparr>n_timeout := i'\<rparr>) = flow_key e"
  "flow_key (e\<lparr>n_lifetime := i'\<rparr>) = flow_key e" "flow_key (e\<lparr>n_tcpst := st\<rparr>) = flow_key e"
  by (simp_all add: flow_key_def)

lemma flow_key_cong:
  assumes "flow_key a = flow_key a'" "flow_key b = flow_key b'"
  shows "nat_tree_compare_abs a b = nat_tree_compare_abs a' b'" "nat_splay_compare_abs a b = nat_splay_compare_abs a' b'"
    "key_ok a = key_ok a'"
  using assms
  by (simp_all add: flow_key_def nat_tree_compare_abs_def nat_splay_compare_abs_def cmp_dest_abs_def key_ok_def)

text \<open>
  The states agree on the structures and on the keys of the entries in them. (A tunnel's tree
  may be splayed.)
\<close>

definition same_flows :: "aftr \<Rightarrow> aftr \<Rightarrow> bool" where
  "same_flows s s' \<longleftrightarrow>
     (\<forall>pr. rb_list (nat_tree s' pr) = rb_list (nat_tree s pr) \<and> (rb_ok (nat_tree s pr) \<longrightarrow> rb_ok (nat_tree s' pr))) \<and>
     nathashrnd s' = nathashrnd s \<and> nathashsz s' = nathashsz s \<and>
     (\<forall>h. nathash s' h = nathash s h \<or> nathash s' h = 0) \<and>
     (\<forall>t. map_option (\<lambda>T pr. inorder (t_tnat_root T pr)) (tunnels s' t) =
          map_option (\<lambda>T pr. inorder (t_tnat_root T pr)) (tunnels s t)) \<and>
     (\<forall>pr m. m \<in> active s pr \<longrightarrow> map_option flow_key (nats s' m) = map_option flow_key (nats s m))"

lemma same_flows_active: "same_flows s s' \<Longrightarrow> active s' = active s"
  by (simp add: same_flows_def active_def fun_eq_iff)

lemma same_flows_key:
  assumes "same_flows s s'" "m \<in> active s pr" "nats s m \<noteq> None"
  shows "nats s' m \<noteq> None \<and> flow_key (natof s' m) = flow_key (natof s m)"
proof -
  have "map_option flow_key (nats s' m) = map_option flow_key (nats s m)" using assms by (simp add: same_flows_def)
  then show ?thesis using assms(3) by (cases "nats s' m") (auto simp: natof_def)
qed

lemma ordered_by_cong:
  assumes "ordered_by ok cm xs" "\<And>x. x \<in> set xs \<Longrightarrow> ok x = ok' x"
    "\<And>x y. x \<in> set xs \<Longrightarrow> y \<in> set xs \<Longrightarrow> cm x y = cm' x y"
  shows "ordered_by ok' cm' xs"
  using assms unfolding ordered_by_def by (metis (no_types, lifting) sorted_wrt_mono_rel)

lemma flow_inv_root:
  "flow_inv s \<Longrightarrow> tunnels s t = Some T \<Longrightarrow> n \<in> set_tree (t_tnat_root T pr) \<Longrightarrow> n \<in> active s pr \<and> n_tunnel (natof s n) = t"
  unfolding flow_inv_def by blast

lemma flow_inv_live:
  "flow_inv s \<Longrightarrow> n \<in> active s pr \<Longrightarrow>
     n \<noteq> 0 \<and> nats s n \<noteq> None \<and> pr_of_proto (n_proto (natof s n)) = pr \<and> key_ok (natof s n)"
  unfolding flow_inv_def active_def ordered_by_def by blast

lemma flow_inv_same:
  assumes inv: "flow_inv s" and same: "same_flows s s'"
  shows "flow_inv s'"
proof -
  note act = same_flows_active [OF same]
  have key: "nats s' m \<noteq> None \<and> flow_key (natof s' m) = flow_key (natof s m)" if "m \<in> active s pr" for m pr
    using same_flows_key [OF same that] flow_inv_live [OF inv that] by blast
  have keq: "key_ok (natof s x) = key_ok (natof s' x)" if "x \<in> active s pr" for x pr
    using key [OF that] flow_key_cong(3) by metis
  have teq: "tree_cmp_nid s x y = tree_cmp_nid s' x y" "splay_cmp_nid s x y = splay_cmp_nid s' x y"
    if "x \<in> active s pr" "y \<in> active s pr" for x y pr
    using key [OF that(1)] key [OF that(2)] flow_key_cong(1,2) unfolding tree_cmp_nid_def splay_cmp_nid_def by metis+
  have tree: "rb_list (nat_tree s' pr) = rb_list (nat_tree s pr)" "rb_ok (nat_tree s pr) \<Longrightarrow> rb_ok (nat_tree s' pr)" for pr
    using same by (simp_all add: same_flows_def)
  have root: "\<exists>T0. tunnels s t = Some T0 \<and> (\<forall>pr. inorder (t_tnat_root T pr) = inorder (t_tnat_root T0 pr))"
    if "tunnels s' t = Some T" for t T
  proof -
    have "map_option (\<lambda>T pr. inorder (t_tnat_root T pr)) (tunnels s' t) =
          map_option (\<lambda>T pr. inorder (t_tnat_root T pr)) (tunnels s t)" using same by (simp add: same_flows_def)
    with that show ?thesis by (cases "tunnels s t") (auto simp: fun_eq_iff)
  qed
  have root': "\<exists>T. tunnels s' t = Some T \<and> (\<forall>pr. inorder (t_tnat_root T pr) = inorder (t_tnat_root T0 pr))"
    if "tunnels s t = Some T0" for t T0
  proof -
    have "map_option (\<lambda>T pr. inorder (t_tnat_root T pr)) (tunnels s' t) =
          map_option (\<lambda>T pr. inorder (t_tnat_root T pr)) (tunnels s t)" using same by (simp add: same_flows_def)
    with that show ?thesis by (cases "tunnels s' t") (auto simp: fun_eq_iff)
  qed
  show ?thesis
    unfolding flow_inv_def
  proof (intro conjI allI impI)
    fix pr
    show "rb_ok (nat_tree s' pr)" using inv tree(2) by (simp add: flow_inv_def)
    have "ordered_by (\<lambda>n. key_ok (natof s n)) (tree_cmp_nid s) (rb_list (nat_tree s pr))"
      using inv by (simp add: flow_inv_def)
    then show "ordered_by (\<lambda>n. key_ok (natof s' n)) (tree_cmp_nid s') (rb_list (nat_tree s' pr))"
      unfolding tree(1)
      by (rule ordered_by_cong) (use keq teq in \<open>simp_all add: active_def\<close>)
  next
    fix t T pr assume T: "tunnels s' t = Some T"
    obtain T0 where T0: "tunnels s t = Some T0" "inorder (t_tnat_root T pr) = inorder (t_tnat_root T0 pr)" using root [OF T] by blast
    have mem: "x \<in> active s pr" "n_tunnel (natof s x) = t" if "x \<in> set (inorder (t_tnat_root T0 pr))" for x
      using that flow_inv_root [OF inv T0(1), of x pr] by auto
    have "ordered_by (\<lambda>n. key_ok (natof s n)) (splay_cmp_nid s) (inorder (t_tnat_root T0 pr))"
      using inv T0(1) unfolding flow_inv_def by blast
    then show "ordered_by (\<lambda>n. key_ok (natof s' n)) (splay_cmp_nid s') (inorder (t_tnat_root T pr))"
      unfolding T0(2)
      by (rule ordered_by_cong) (use keq teq mem in blast)+
    show "\<forall>n \<in> set_tree (t_tnat_root T pr). n_tunnel (natof s' n) = t"
      using key mem T0(2) unfolding set_inorder [symmetric] by (fastforce simp: flow_key_def)
  next
    fix pr n
    have "n \<in> active s pr \<longleftrightarrow> (\<exists>t T. tunnels s t = Some T \<and> n \<in> set_tree (t_tnat_root T pr))"
      using inv unfolding flow_inv_def by blast
    moreover have "(\<exists>T. tunnels s' t = Some T \<and> n \<in> set_tree (t_tnat_root T pr)) =
        (\<exists>T. tunnels s t = Some T \<and> n \<in> set_tree (t_tnat_root T pr))" for t
      using root [of t] root' [of t] unfolding set_inorder [symmetric] by metis
    ultimately show "n \<in> active s' pr \<longleftrightarrow> (\<exists>t T. tunnels s' t = Some T \<and> n \<in> set_tree (t_tnat_root T pr))"
      unfolding act by simp
    assume n: "n \<in> active s' pr"
    then show "n \<noteq> 0" "nats s' n \<noteq> None" "pr_of_proto (n_proto (natof s' n)) = pr"
      using flow_inv_live [OF inv, of n pr] key [of n pr] unfolding act by (auto simp: flow_key_def)
  next
    show "0 < nathashsz s'" using inv same by (simp add: flow_inv_def same_flows_def)
  next
    fix h assume h: "nathash s' h \<noteq> 0"
    then have eq: "nathash s' h = nathash s h" using same unfolding same_flows_def by metis
    obtain pr where pr: "nathash s h \<in> active s pr" and hh: "n_hash (natof s (nathash s h)) = h" "nat_slot s (nathash s h) = h"
      using inv h unfolding eq flow_inv_def by metis
    have k: "flow_key (natof s' (nathash s h)) = flow_key (natof s (nathash s h))" using key [OF pr] by blast
    show "\<exists>pr. nathash s' h \<in> active s' pr" unfolding eq act using pr by blast
    show "n_hash (natof s' (nathash s' h)) = h" using k hh unfolding eq by (simp add: flow_key_def)
    have "jhash_nat r (natof s' (nathash s h)) = jhash_nat r (natof s (nathash s h))" for r
      by (rule jhash_nat_cong) (use k in \<open>simp_all add: flow_key_def\<close>)
    then show "nat_slot s' (nathash s' h) = h" using hh same unfolding eq nat_slot_def same_flows_def by simp
  qed
qed

section \<open>Steps that leave the structures alone\<close>

named_theorems same_flows_intros \<open>operations that change no structure and no key\<close>

lemma same_flows_refl [same_flows_intros]: "same_flows s s"
  by (simp add: same_flows_def)

lemma same_flows_trans:
  assumes "same_flows s t" "same_flows t u" shows "same_flows s u"
proof -
  note a = same_flows_active [OF assms(1)]
  show ?thesis
    using assms unfolding same_flows_def a by metis
qed

lemma sf_upd_nat [same_flows_intros]:
  assumes "same_flows s t" "(\<forall>e. flow_key (f e) = flow_key e) \<or> (\<forall>pr. n \<notin> active s pr)"
  shows "same_flows s (upd_nat n f t)"
  using assms by (auto simp: same_flows_def upd_nat_def option.map_comp o_def)

lemma sf_upd_tunnel [same_flows_intros]:
  assumes "same_flows s t" "\<And>T pr. inorder (t_tnat_root (f T) pr) = inorder (t_tnat_root T pr)"
  shows "same_flows s (upd_tunnel n f t)"
  using assms by (auto simp: same_flows_def upd_tunnel_def option.map_comp o_def)

lemma sf_fields [same_flows_intros]:
  assumes "same_flows s t"
  shows "same_flows s (upd_pool i g t)" "same_flows s (t\<lparr>arc4 := r\<rparr>)" "same_flows s (emit e t)"
    "same_flows s (stat_drop d t)" "same_flows s (count_new n t)" "same_flows s (count_del n t)"
    "same_flows s (t\<lparr>gc_ptr := n\<rparr>)" "same_flows s (t\<lparr>bt_ptr := n\<rparr>)" "same_flows s (t\<lparr>gchains := c\<rparr>)"
    "same_flows s (t\<lparr>natcntt := k\<rparr>)"
  using assms
  by (simp_all add: same_flows_def upd_pool_def emit_def stat_drop_def count_new_def count_del_def Let_def)

lemma sf_only_heap:
  assumes "same_flows s t" "only_heap t u" shows "same_flows s u"
  using assms by (auto simp: same_flows_def only_heap_def option.map_comp o_def)

lemma sf_heap [same_flows_intros]:
  assumes "same_flows s t"
  shows "same_flows s (nat_heap_delete i t)" "same_flows s (nat_heap_increased i t)" "same_flows s (nat_heap_decreased i t)"
    "same_flows s (snd (nat_heap_insert m n t))"
proof -
  have "only_heap t (nat_heap_increased i t)" "only_heap t (nat_heap_decreased i t)"
    by (auto simp: nat_heap_increased_def nat_heap_decreased_def intro!: only_heap_intros)
  then show "same_flows s (nat_heap_delete i t)" "same_flows s (nat_heap_increased i t)" "same_flows s (nat_heap_decreased i t)"
    "same_flows s (snd (nat_heap_insert m n t))"
    using sf_only_heap [OF assms] only_heap_delete only_heap_insert by blast+
qed

lemma sf_forget [same_flows_intros]:
  assumes "same_flows s t" "\<forall>pr. n \<notin> active s pr"
  shows "same_flows s (t\<lparr>nats := (nats t)(n := e)\<rparr>)"
  using assms by (auto simp: same_flows_def)

lemma sf_hold [same_flows_intros]:
  assumes "same_flows s t" "\<forall>pr. n \<notin> active s pr"
  shows "same_flows s (hold_nat cfg i pr n t)"
  unfolding hold_nat_def using assms by (intro same_flows_intros) auto

lemma sf_hash [same_flows_intros]:
  assumes "same_flows s t"
  shows "same_flows s (t\<lparr>nathash := (nathash t)(h := 0)\<rparr>)"
  using assms by (auto simp: same_flows_def)

lemma put_root_id: "tunnels s t = None \<Longrightarrow> put_root t pr r s = s"
  by (simp add: put_root_def upd_tunnel_def fun_upd_idem)

lemma sf_reroot [same_flows_intros]:
  assumes "same_flows s u" "inorder r = inorder (t_tnat_root (tunof u t) pr)"
  shows "same_flows s (put_root t pr r u)"
proof (cases "tunnels u t")
  case None
  then show ?thesis using assms by (simp add: put_root_id)
next
  case (Some T)
  have "map_option (\<lambda>T pr. inorder (t_tnat_root T pr)) (tunnels u t) =
      map_option (\<lambda>T pr. inorder (t_tnat_root T pr)) (tunnels s t)" using assms(1) by (simp add: same_flows_def)
  moreover have "(\<lambda>p. inorder (if p = pr then r else t_tnat_root T p)) = (\<lambda>p. inorder (t_tnat_root T p))"
    using assms(2) Some by (auto simp: tunof_def)
  ultimately show ?thesis using assms(1) Some unfolding same_flows_def put_root_def upd_tunnel_def by simp
qed

section \<open>Adding an entry\<close>

lemma tree_nid_comparator: "comparator (\<lambda>p. key_ok (natof s p)) (tree_cmp_nid s) (\<lambda>p. tree_key (natof s p))"
  using tree_cmp.pointer_comparator [of "natof s"] unfolding tree_cmp_nid_def [abs_def] .

lemma splay_nid_comparator: "comparator (\<lambda>p. key_ok (natof s p)) (splay_cmp_nid s) (\<lambda>p. splay_key (natof s p))"
  using splay_cmp.pointer_comparator [of "natof s"] unfolding splay_cmp_nid_def [abs_def] .

lemma put_frames [simp]:
  "nats (put_root t pr r s) = nats s" "natof (put_root t pr r s) = natof s" "nat_tree (put_root t pr r s) = nat_tree s"
  "nathash (put_root t pr r s) = nathash s" "nathashrnd (put_root t pr r s) = nathashrnd s"
  "nathashsz (put_root t pr r s) = nathashsz s" "splay_cmp_nid (put_root t pr r s) = splay_cmp_nid s"
  "tree_cmp_nid (put_root t pr r s) = tree_cmp_nid s" "nat_slot (put_root t pr r s) = nat_slot s"
  "nats (put_tree pr x s) = nats s" "natof (put_tree pr x s) = natof s" "tunnels (put_tree pr x s) = tunnels s"
  "nathash (put_tree pr x s) = nathash s" "nathashrnd (put_tree pr x s) = nathashrnd s"
  "nathashsz (put_tree pr x s) = nathashsz s" "splay_cmp_nid (put_tree pr x s) = splay_cmp_nid s"
  "tree_cmp_nid (put_tree pr x s) = tree_cmp_nid s" "nat_slot (put_tree pr x s) = nat_slot s"
  "nat_tree (put_tree pr x s) = (nat_tree s)(pr := x)" "tunof (put_tree pr x s) = tunof s"
  by (simp_all add: put_root_def put_tree_def upd_tunnel_def natof_def tunof_def splay_cmp_nid_def tree_cmp_nid_def
      nat_slot_def fun_eq_iff)

lemma tunnels_put_root:
  "tunnels s t = Some T \<Longrightarrow> tunnels (put_root t pr r s) = (tunnels s)(t \<mapsto> T\<lparr>t_tnat_root := (t_tnat_root T)(pr := r)\<rparr>)"
  by (simp add: put_root_def upd_tunnel_def)

lemma flow_inv_add:
  assumes inv: "flow_inv s" and new: "\<And>pr. n \<notin> active s pr" "n \<noteq> 0" and e: "nats s n = Some e" "key_ok e"
    and T: "tunnels s (n_tunnel e) = Some T" and pr: "pr = pr_of_proto (n_proto e)"
    and tr: "nat_tree_insert (tree_cmp_nid s n) n (nat_tree s pr) = (None, tr)"
    and r: "nat_splay_insert (splay_cmp_nid s n) n (t_tnat_root T pr) = (None, r)"
  shows "flow_inv (put_root (n_tunnel e) pr r (put_tree pr tr s)) \<and>
    active (put_root (n_tunnel e) pr r (put_tree pr tr s)) = (active s)(pr := insert n (active s pr))"
proof -
  let ?t = "n_tunnel e" let ?s = "put_root ?t pr r (put_tree pr tr s)"
  have ne: "natof s n = e" using e by (simp add: natof_def)
  have ko: "key_ok (natof s n)" using e ne by simp
  have ord: "ordered_by (\<lambda>n. key_ok (natof s n)) (tree_cmp_nid s) (rb_list (nat_tree s pr))" "rb_ok (nat_tree s pr)"
    using inv by (simp_all add: flow_inv_def)
  have tr': "rb_ok tr" "ordered_by (\<lambda>n. key_ok (natof s n)) (tree_cmp_nid s) (rb_list tr)"
    "set (rb_list tr) = insert n (active s pr)"
    using comparator.insert_ordered [OF tree_nid_comparator ord(1) ko tr] nat_tree_insert_ok [OF ord(2) tr]
    by (simp_all add: active_def)
  have ordr: "ordered_by (\<lambda>n. key_ok (natof s n)) (splay_cmp_nid s) (inorder (t_tnat_root T pr))"
    using inv T unfolding flow_inv_def by blast
  have r': "ordered_by (\<lambda>n. key_ok (natof s n)) (splay_cmp_nid s) (inorder r)" "set_tree r = insert n (set_tree (t_tnat_root T pr))"
    using comparator.splay_insert_ordered [OF splay_nid_comparator ordr ko] r by simp_all
  have act: "active ?s = (active s)(pr := insert n (active s pr))"
    using tr'(3) by (auto simp: active_def fun_eq_iff)
  note tn = tunnels_put_root [of "put_tree pr tr s" ?t T pr r, simplified, OF T]
  have mem: "(\<exists>t T. tunnels ?s t = Some T \<and> m \<in> set_tree (t_tnat_root T p)) \<longleftrightarrow>
      (\<exists>t T. tunnels s t = Some T \<and> m \<in> set_tree (t_tnat_root T p)) \<or> m = n \<and> p = pr" for m p
  proof -
    let ?T = "T\<lparr>t_tnat_root := (t_tnat_root T)(pr := r)\<rparr>"
    have "m \<in> set_tree (t_tnat_root ?T p) \<longleftrightarrow> m \<in> set_tree (t_tnat_root T p) \<or> m = n \<and> p = pr" using r'(2) by auto
    then have "(\<exists>T. tunnels ?s t = Some T \<and> m \<in> set_tree (t_tnat_root T p)) \<longleftrightarrow>
        (\<exists>T. tunnels s t = Some T \<and> m \<in> set_tree (t_tnat_root T p)) \<or> t = ?t \<and> m = n \<and> p = pr" for t
      unfolding tn using T by (cases "t = ?t") simp_all
    then show ?thesis by (simp add: ex_disj_distrib)
  qed
  have memb: "m \<in> active s p \<longleftrightarrow> (\<exists>t T. tunnels s t = Some T \<and> m \<in> set_tree (t_tnat_root T p))" for m p
    using inv unfolding flow_inv_def by blast
  have "flow_inv ?s"
    unfolding flow_inv_def act
  proof (intro conjI allI impI)
    fix p show "rb_ok (nat_tree ?s p)" "ordered_by (\<lambda>n. key_ok (natof ?s n)) (tree_cmp_nid ?s) (rb_list (nat_tree ?s p))"
      using inv tr' by (simp_all add: flow_inv_def)
  next
    fix t T' p assume "tunnels ?s t = Some T'"
    then show "ordered_by (\<lambda>n. key_ok (natof ?s n)) (splay_cmp_nid ?s) (inorder (t_tnat_root T' p))"
      "\<forall>n \<in> set_tree (t_tnat_root T' p). n_tunnel (natof ?s n) = t"
      using inv T r' ne unfolding tn flow_inv_def by (auto split: if_splits)
  next
    fix p m
    show "m \<in> ((active s)(pr := insert n (active s pr))) p \<longleftrightarrow> (\<exists>t T. tunnels ?s t = Some T \<and> m \<in> set_tree (t_tnat_root T p))"
      unfolding mem using memb by auto
    assume "m \<in> ((active s)(pr := insert n (active s pr))) p"
    then have "m \<in> active s p \<or> m = n \<and> p = pr" by (auto split: if_splits)
    then show "m \<noteq> 0" "nats ?s m \<noteq> None" "pr_of_proto (n_proto (natof ?s m)) = p"
      using flow_inv_live [OF inv, of m p] new e pr ne by auto
  next
    show "0 < nathashsz ?s" using inv by (simp add: flow_inv_def)
  next
    fix h assume h: "nathash ?s h \<noteq> 0"
    obtain q where q: "nathash s h \<in> active s q" and hh: "n_hash (natof s (nathash s h)) = h" "nat_slot s (nathash s h) = h"
      using inv h unfolding flow_inv_def by (metis put_frames(4,13))
    have "nathash ?s h \<in> ((active s)(pr := insert n (active s pr))) q" using q by (cases "q = pr") simp_all
    then show "\<exists>p. nathash ?s h \<in> ((active s)(pr := insert n (active s pr))) p" by blast
    show "n_hash (natof ?s (nathash ?s h)) = h" "nat_slot ?s (nathash ?s h) = h" using hh by simp_all
  qed
  then show ?thesis using act by blast
qed

lemma tree_insert_remove:
  assumes "nat_tree_insert cm n t = (None, t')" "n \<notin> set (rb_list t)" "distinct (rb_list t)"
  shows "rb_list (nat_tree_remove n t') = rb_list t"
proof -
  obtain q where q: "nat_tree_descend cm t [] = Inr q" "rb_list t' = lefts q @ n # rights q"
    using assms(1) by (auto simp: nat_tree_insert_def rb_lists split: sum.splits)
  have "plug q RbNil = t" using descend_path [OF q(1)] by (simp add: plug_def)
  then have t: "rb_list t = lefts q @ rights q" using list_plug [of q RbNil] by simp
  then have "distinct (rb_list t')" "remove1 n (rb_list t') = rb_list t"
    using assms(2,3) q(2) by (auto simp: remove1_append)
  then show ?thesis using nat_tree_remove_list [of t' n] by simp
qed

lemma sf_retree [same_flows_intros]:
  assumes "same_flows s u" "rb_list x = rb_list (nat_tree u pr)" "rb_ok (nat_tree u pr) \<Longrightarrow> rb_ok x"
  shows "same_flows s (put_tree pr x u)"
  using assms by (auto simp: same_flows_def put_tree_def)

lemma natof_heap_key: "only_heap s s' \<Longrightarrow> flow_key (natof s' n) = flow_key (natof s n)"
  by (cases "nats s n") (auto simp: only_heap_def natof_def)

lemma nid_cmp_heap:
  assumes "only_heap s s'"
  shows "tree_cmp_nid s' = tree_cmp_nid s" "splay_cmp_nid s' = splay_cmp_nid s"
  unfolding tree_cmp_nid_def splay_cmp_nid_def
  using flow_key_cong(1,2) natof_heap_key [OF assms] by (metis (no_types, opaque_lifting))+

text \<open>link_nat: the entry is in every structure, or in none.\<close>

lemma link_nat_flows:
  assumes inv: "flow_inv s" and new: "\<And>pr. n \<notin> active s pr" "n \<noteq> 0" and e: "nats s n = Some e" "key_ok e"
    and T: "tunnels s (n_tunnel e) = Some T" and r: "link_nat cfg mem n s = (r, s')"
  shows "if r then flow_inv s' \<and> flow_key (natof s' n) = flow_key e \<and>
      active s' = (active s)(pr_of_proto (n_proto e) := insert n (active s (pr_of_proto (n_proto e)))) \<and>
      (\<forall>m. m \<noteq> n \<longrightarrow> map_option flow_key (nats s' m) = map_option flow_key (nats s m))
    else same_flows s s'"
proof -
  let ?t = "n_tunnel e" and ?pr = "pr_of_proto (n_proto e)"
  have ne: "natof s n = e" "tunof s ?t = T" using e T by (simp_all add: natof_def tunof_def)
  define s1 where "s1 = snd (nat_heap_insert mem n s)"
  have oh: "only_heap s s1" unfolding s1_def by (rule only_heap_insert)
  have sf1: "same_flows s s1" by (rule sf_only_heap [OF same_flows_refl oh])
  have inv1: "flow_inv s1" by (rule flow_inv_same [OF inv sf1])
  have act1: "active s1 = active s" by (rule same_flows_active [OF sf1])
  obtain i where e1: "nats s1 n = Some (e\<lparr>n_heap_index := i\<rparr>)" and T1: "tunnels s1 = tunnels s"
    and nt1: "nat_tree s1 = nat_tree s" using oh e by (auto simp: only_heap_def)
  have tn1: "tunof s1 ?t = T" using T T1 by (simp add: tunof_def)
  show ?thesis
  proof (cases "fst (nat_heap_insert mem n s)")
    case False
    then have "r = False" "s' = hold_nat cfg (t_srcidx T) ?pr n s1"
      using r by (auto simp: link_nat_def ne s1_def split_beta Let_def)
    then show ?thesis using new by (simp add: sf_hold [OF sf1])
  next
    case True
    obtain x tr where ins: "nat_tree_insert (tree_cmp_nid s1 n) n (nat_tree s1 ?pr) = (x, tr)" by fastforce
    show ?thesis
    proof (cases x)
      case (Some y)
      then have "r = False" "s' = hold_nat cfg (t_srcidx T) ?pr n (nat_heap_delete (hidx s1 n) s1)"
        using r True ins by (auto simp: link_nat_def ne s1_def split_beta Let_def)
      then show ?thesis using new by (simp add: sf_hold sf_heap(1) [OF sf1])
    next
      case None
      let ?s2 = "put_tree ?pr tr s1"
      obtain z rt where spl: "nat_splay_insert (splay_cmp_nid ?s2 n) n (t_tnat_root T ?pr) = (z, rt)" by fastforce
      show ?thesis
      proof (cases z)
        case (Some y)
        let ?s3 = "put_root ?t ?pr rt ?s2"
        let ?s4 = "put_tree ?pr (nat_tree_remove n (nat_tree ?s3 ?pr)) ?s3"
        have s': "r = False" "s' = hold_nat cfg (t_srcidx T) ?pr n (nat_heap_delete (hidx ?s4 n) ?s4)"
          using r True ins None spl Some tn1 by (auto simp: link_nat_def ne s1_def split_beta Let_def)
        have ord: "ordered_by (\<lambda>n. key_ok (natof s1 n)) (tree_cmp_nid s1) (rb_list (nat_tree s1 ?pr))" "rb_ok (nat_tree s1 ?pr)"
          using inv1 by (simp_all add: flow_inv_def)
        have "distinct (rb_list (nat_tree s1 ?pr))" by (rule comparator.ordered_distinct [OF tree_nid_comparator ord(1)])
        moreover have "n \<notin> set (rb_list (nat_tree s1 ?pr))" using new act1 by (simp add: active_def fun_eq_iff)
        ultimately have rl: "rb_list (nat_tree_remove n tr) = rb_list (nat_tree s1 ?pr)"
          using tree_insert_remove ins None by metis
        have rok: "rb_ok (nat_tree_remove n tr)" using nat_tree_insert_ok [OF ord(2) ins] by (rule nat_tree_remove_ok)
        have ordr: "ordered_by (\<lambda>n. key_ok (natof s1 n)) (splay_cmp_nid s1) (inorder (t_tnat_root T ?pr))"
          using inv1 T unfolding flow_inv_def T1 by blast
        have "key_ok (natof s1 n)" using e e1 by (simp add: natof_def key_ok_def)
        from comparator.splay_insert_ordered [OF splay_nid_comparator ordr this] spl Some
        have ri: "inorder rt = inorder (t_tnat_root T ?pr)" by simp
        have "nat_tree ?s4 = (nat_tree s1)(?pr := nat_tree_remove n tr)" by simp
        moreover have "tunnels ?s4 = (tunnels s)(?t \<mapsto> T\<lparr>t_tnat_root := (t_tnat_root T)(?pr := rt)\<rparr>)"
          using tunnels_put_root [of ?s2 ?t T] T T1 by simp
        ultimately have "same_flows s1 ?s4"
          using rl rok ri T T1 unfolding same_flows_def by (auto simp: fun_eq_iff)
        then have "same_flows s ?s4" by (rule same_flows_trans [OF sf1])
        then show ?thesis using s' new by (simp add: sf_hold sf_heap(1))
      next
        case None': None
        let ?s3 = "put_root ?t ?pr rt ?s2"
        have s': "r = True" "s' = upd_tunnel ?t (\<lambda>t. t\<lparr>t_tnatcnt := (t_tnatcnt t)(?pr := t_tnatcnt t ?pr + 1)\<rparr>) (count_new n ?s3)"
          using r True ins None None' spl tn1 by (auto simp: link_nat_def ne s1_def split_beta Let_def)
        have add: "flow_inv ?s3 \<and> active ?s3 = (active s1)(?pr := insert n (active s1 ?pr))"
          using flow_inv_add [OF inv1 _ new(2) e1, of T ?pr tr rt] new(1) act1 e(2) T T1 ins None None' spl
          by (simp add: key_ok_def)
        have sf: "same_flows ?s3 s'" unfolding s' by (intro same_flows_intros) simp
        have "natof s' m = natof s1 m" "nats s' m = nats s1 m" for m
          unfolding s' by (simp_all add: upd_tunnel_def natof_def count_new_def Let_def)
        moreover have "map_option flow_key (nats s1 m) = map_option flow_key (nats s m)" for m
          using oh by (auto simp: only_heap_def option.map_comp o_def)
        moreover have "flow_key (natof s1 n) = flow_key e" using natof_heap_key [OF oh] ne by simp
        ultimately show ?thesis
          using add flow_inv_same [OF _ sf] same_flows_active [OF sf] act1 s'(1) by (auto simp: fun_eq_iff)
      qed
    qed
  qed
qed

lemma fill_bucket_flows:
  assumes "fill_bucket cfg mem t proto s = Some s'"
  shows "same_flows s s'" "nats s' = nats s" "(tunnels s' u = None) = (tunnels s u = None)"
proof -
  let ?pr = "pr_of_proto proto" and ?i = "t_srcidx (tunof s t)"
  have "s' = s \<or> (\<exists>i g f r. s' = upd_pool i g (upd_tunnel t f (s\<lparr>arc4 := r\<rparr>)) \<and> (\<forall>T. t_tnat_root (f T) = t_tnat_root T))"
  proof (cases "p_freebm (poolof s ?i) ?pr = None \<or> \<not> mem")
    case True
    then show ?thesis using assms by (auto simp: fill_bucket_def Let_def split: option.splits)
  next
    case False
    then obtain bm where bm: "p_freebm (poolof s ?i) ?pr = Some bm" "mem" by auto
    let ?f = "fill_slots (unat (bucksize cfg ?pr)) (p_minport (poolof s ?i) ?pr) (p_maxport (poolof s ?i) ?pr) 0
      (replicate (unat (bucksize cfg ?pr)) 0) bm (arc4 s)"
    obtain k b bm' rs where "?f = Some (k, b, bm', rs)"
      using assms bm by (cases ?f) (auto simp: fill_bucket_def Let_def)
    then have "s' = upd_pool ?i (\<lambda>ns. ns\<lparr>p_freebm := (p_freebm ns)(?pr := Some bm')\<rparr>)
      (upd_tunnel t (\<lambda>t. t\<lparr>t_bucket := (t_bucket t)(?pr := if k = 0 \<and> unat (bucksize cfg ?pr) > 0 then None else Some b),
         t_avail := (t_avail t)(?pr := word_of_nat k)\<rparr>) (s\<lparr>arc4 := rs\<rparr>))"
      using assms bm by (simp add: fill_bucket_def Let_def)
    then show ?thesis by (intro disjI2 exI conjI) (assumption, simp)
  qed
  then have "same_flows s s' \<and> nats s' = nats s \<and> (tunnels s' u = None) = (tunnels s u = None)"
  proof
    assume "\<exists>i g f r. s' = upd_pool i g (upd_tunnel t f (s\<lparr>arc4 := r\<rparr>)) \<and> (\<forall>T. t_tnat_root (f T) = t_tnat_root T)"
    then obtain i g f r where s': "s' = upd_pool i g (upd_tunnel t f (s\<lparr>arc4 := r\<rparr>))" "\<And>T. t_tnat_root (f T) = t_tnat_root T"
      by blast
    have "same_flows s s'" unfolding s'(1) by (intro same_flows_intros) (simp add: s'(2))
    then show ?thesis by (simp add: s'(1) upd_pool_def upd_tunnel_def)
  qed (simp add: same_flows_refl)
  then show "same_flows s s'" "nats s' = nats s" "(tunnels s' u = None) = (tunnels s u = None)" by auto
qed

text \<open>
  new_nat keeps the structures in agreement: on success the entry is in all of them, with the
  port it got, and otherwise in none.
\<close>

lemma new_nat_flows:
  assumes inv: "flow_inv s" and new: "\<And>pr. n \<notin> active s pr" "n \<noteq> 0" and e: "nats s n = Some e" "key_ok e"
    and T: "tunnels s (n_tunnel e) \<noteq> None" and run: "new_nat cfg m1 m2 n s = Some (r, s')"
  shows "if r then flow_inv s' \<and> (\<exists>p. length p = 2 \<and> flow_key (natof s' n) = flow_key (e\<lparr>n_nport := p\<rparr>)) \<and>
      active s' = (active s)(pr_of_proto (n_proto e) := insert n (active s (pr_of_proto (n_proto e)))) \<and>
      (\<forall>m. m \<noteq> n \<longrightarrow> map_option flow_key (nats s' m) = map_option flow_key (nats s m))
    else same_flows s s'"
proof -
  let ?t = "n_tunnel e" and ?pr = "pr_of_proto (n_proto e)" and ?i = "t_srcidx (tunof s (n_tunnel e))"
  have ne: "natof s n = e" using e by (simp add: natof_def)
  obtain s2 where s2: "(if t_avail (tunof s ?t) ?pr = 0 then fill_bucket cfg m1 ?t (n_proto e) s else Some s) = Some s2"
    using run unfolding new_nat_def ne Let_def by (auto split: option.splits)
  note run2 = run [unfolded new_nat_def ne Let_def s2 option.case]
  have f: "same_flows s s2" "nats s2 = nats s" "tunnels s2 ?t \<noteq> None"
    using s2 fill_bucket_flows(1,2) [of cfg m1 ?t "n_proto e" s s2] fill_bucket_flows(3) [of cfg m1 ?t "n_proto e" s s2 ?t]
      T same_flows_refl by (metis option.sel)+
  show ?thesis
  proof (cases "t_bucket (tunof s2 ?t) ?pr")
    case None
    then have "r = False" "s' = s2\<lparr>nats := (nats s2)(n := None)\<rparr>"
      using run2 by simp_all
    then show ?thesis using sf_forget [OF f(1), of n None] new by simp
  next
    case (Some b)
    define av where "av = isc_decr_u8 (t_avail (tunof s2 ?t) ?pr)"
    define p where "p = [hi8 (uint (b ! unat av)), lo8 (uint (b ! unat av))]"
    define s3 where "s3 = upd_pool ?i (\<lambda>ns. ns\<lparr>p_natcnt := (p_natcnt ns)(?pr := p_natcnt ns ?pr + 1)\<rparr>)
      (upd_nat n (\<lambda>e. e\<lparr>n_nport := p\<rparr>) (upd_tunnel ?t (\<lambda>t. t\<lparr>t_avail := (t_avail t)(?pr := av)\<rparr>) s2))"
    have run': "link_nat cfg m2 n s3 = (r, s')"
      using run2 Some by (simp add: s3_def av_def p_def)
    have sf3: "same_flows s s3" unfolding s3_def using f(1) new by (intro same_flows_intros) auto
    have e3: "nats s3 n = Some (e\<lparr>n_nport := p\<rparr>)" "key_ok (e\<lparr>n_nport := p\<rparr>)"
      using e f(2) by (simp_all add: s3_def upd_pool_def upd_nat_def upd_tunnel_def p_def key_ok_def)
    obtain T3 where T3: "tunnels s3 ?t = Some T3"
      using f(3) by (auto simp: s3_def upd_pool_def upd_nat_def upd_tunnel_def)
    have others: "nats s3 m = nats s m" if "m \<noteq> n" for m
      using that f(2) by (simp add: s3_def upd_pool_def upd_nat_def upd_tunnel_def)
    note act = same_flows_active [OF sf3]
    have "length p = 2" by (simp add: p_def)
    with link_nat_flows [OF flow_inv_same [OF inv sf3] _ new(2) e3 _ run', of T3] new(1) T3 act others
    show ?thesis using same_flows_trans [OF sf3, of s'] by (auto split: if_splits)
  qed
qed

section \<open>Deleting an entry\<close>

lemma flow_inv_drop:
  assumes inv: "flow_inv s" and n: "n \<in> active s pr" and t: "t = n_tunnel (natof s n)"
    and hash: "\<And>h. nathash s' h = (if nathash s h = n then 0 else nathash s h)"
    and same: "nathashrnd s' = nathashrnd s" "nathashsz s' = nathashsz s"
    and tree: "nat_tree s' = (nat_tree s)(pr := nat_tree_remove n (nat_tree s pr))"
    and T: "tunnels s t = Some T" and r: "inorder r = remove1 n (inorder (t_tnat_root T pr))"
    and roots: "\<And>u. map_option t_tnat_root (tunnels s' u) =
        map_option t_tnat_root (((tunnels s)(t \<mapsto> T\<lparr>t_tnat_root := (t_tnat_root T)(pr := r)\<rparr>)) u)"
    and keys: "\<And>m p. m \<in> active s p \<Longrightarrow> m \<noteq> n \<Longrightarrow> map_option flow_key (nats s' m) = map_option flow_key (nats s m)"
  shows "flow_inv s' \<and> active s' = (active s)(pr := active s pr - {n})"
proof -
  have ord: "ordered_by (\<lambda>n. key_ok (natof s n)) (tree_cmp_nid s) (rb_list (nat_tree s p))" "rb_ok (nat_tree s p)" for p
    using inv by (simp_all add: flow_inv_def)
  have dist: "distinct (rb_list (nat_tree s p))" for p by (rule comparator.ordered_distinct [OF tree_nid_comparator ord(1)])
  have rl: "rb_list (nat_tree s' p) = (if p = pr then remove1 n (rb_list (nat_tree s pr)) else rb_list (nat_tree s p))" for p
    using nat_tree_remove_list [OF dist [of pr]] by (simp add: tree)
  have act: "active s' = (active s)(pr := active s pr - {n})"
    using rl dist by (auto simp: active_def fun_eq_iff)
  have ordr: "ordered_by (\<lambda>n. key_ok (natof s n)) (splay_cmp_nid s) (inorder (t_tnat_root T0 p))"
    "x \<in> set_tree (t_tnat_root T0 p) \<Longrightarrow> n_tunnel (natof s x) = u \<and> x \<in> active s p"
    if "tunnels s u = Some T0" for u T0 p x using inv that flow_inv_root [OF inv that] unfolding flow_inv_def by blast+
  have distr: "distinct (inorder (t_tnat_root T pr))"
    by (rule comparator.ordered_distinct [OF splay_nid_comparator ordr(1) [OF T]])
  have one: "p = pr" if "n \<in> active s p" for p using flow_inv_live [OF inv that] flow_inv_live [OF inv n] by simp
  have live: "nats s m \<noteq> None" if "m \<in> active s p" for m p using flow_inv_live [OF inv that] by simp
  have key: "nats s' m \<noteq> None \<and> flow_key (natof s' m) = flow_key (natof s m)" if "m \<in> active s p" "m \<noteq> n" for m p
    using keys [OF that] live [OF that(1)] by (cases "nats s' m") (auto simp: natof_def)
  have keq: "key_ok (natof s x) = key_ok (natof s' x)" if "x \<in> active s p" "x \<noteq> n" for x p
    using key [OF that] flow_key_cong(3) by metis
  have teq: "tree_cmp_nid s x y = tree_cmp_nid s' x y" "splay_cmp_nid s x y = splay_cmp_nid s' x y"
    if "x \<in> active s p" "x \<noteq> n" "y \<in> active s p" "y \<noteq> n" for x y p
    using key [OF that(1,2)] key [OF that(3,4)] flow_key_cong(1,2) unfolding tree_cmp_nid_def splay_cmp_nid_def by metis+
  have io: "\<exists>T0. tunnels s u = Some T0 \<and> inorder (t_tnat_root T' p) =
      (if u = t \<and> p = pr then remove1 n (inorder (t_tnat_root T0 p)) else inorder (t_tnat_root T0 p))"
    if "tunnels s' u = Some T'" for u T' p
    using roots [of u] that T r by (cases "u = t"; cases "tunnels s u") (auto split: if_splits)
  have io': "\<exists>T'. tunnels s' u = Some T' \<and> inorder (t_tnat_root T' p) =
      (if u = t \<and> p = pr then remove1 n (inorder (t_tnat_root T0 p)) else inorder (t_tnat_root T0 p))"
    if "tunnels s u = Some T0" for u T0 p
    using roots [of u] that T r by (cases "u = t"; cases "tunnels s' u") (auto split: if_splits)
  have mem': "set_tree (t_tnat_root T' p) = set_tree (t_tnat_root T0 p) - {n}"
    if "tunnels s u = Some T0" "inorder (t_tnat_root T' p) =
      (if u = t \<and> p = pr then remove1 n (inorder (t_tnat_root T0 p)) else inorder (t_tnat_root T0 p))" for u T0 T' p
  proof (cases "u = t \<and> p = pr")
    case True
    then have "set (inorder (t_tnat_root T' p)) = set (remove1 n (inorder (t_tnat_root T pr)))" using that T by simp
    then show ?thesis using distr that T True by (simp add: set_inorder)
  next
    case False
    have "n \<notin> set_tree (t_tnat_root T0 p)"
    proof
      assume "n \<in> set_tree (t_tnat_root T0 p)"
      from ordr(2) [OF that(1) this] one t False show False by blast
    qed
    then show ?thesis using that False by (metis Diff_insert_absorb Diff_empty insert_absorb set_inorder Diff_idemp)
  qed
  have "flow_inv s'"
    unfolding flow_inv_def act
  proof (intro conjI allI impI)
    fix p
    show "rb_ok (nat_tree s' p)" using ord(2) nat_tree_remove_ok [OF ord(2) [of pr]] by (simp add: tree)
    have mem: "x \<in> active s p \<and> x \<noteq> n" if "x \<in> set (rb_list (nat_tree s' p))" for x
    proof -
      have "x \<in> active s' p" using that by (simp add: active_def)
      then show ?thesis using act one by (auto split: if_splits)
    qed
    have "ordered_by (\<lambda>n. key_ok (natof s n)) (tree_cmp_nid s) (rb_list (nat_tree s' p))"
      unfolding rl using ord(1) comparator.ordered_remove1 [OF tree_nid_comparator] by simp
    then show "ordered_by (\<lambda>n. key_ok (natof s' n)) (tree_cmp_nid s') (rb_list (nat_tree s' p))"
      by (rule ordered_by_cong) (use keq teq mem in blast)+
  next
    fix u T' p assume "tunnels s' u = Some T'"
    from io [OF this, of p] obtain T0 where T0: "tunnels s u = Some T0" and i: "inorder (t_tnat_root T' p) =
      (if u = t \<and> p = pr then remove1 n (inorder (t_tnat_root T0 p)) else inorder (t_tnat_root T0 p))" by blast
    have mem: "x \<in> active s p \<and> x \<noteq> n \<and> n_tunnel (natof s x) = u" if "x \<in> set_tree (t_tnat_root T' p)" for x
      using that ordr(2) [OF T0, of x p] unfolding mem' [OF T0 i] by simp
    have "ordered_by (\<lambda>n. key_ok (natof s n)) (splay_cmp_nid s) (inorder (t_tnat_root T' p))"
      unfolding i using ordr(1) [OF T0, of p] comparator.ordered_remove1 [OF splay_nid_comparator ordr(1) [OF T0, of p], of n] by (cases "u = t \<and> p = pr") auto
    moreover have mem2: "x \<in> active s p \<and> x \<noteq> n" if "x \<in> set (inorder (t_tnat_root T' p))" for x
      using mem that by simp
    ultimately show "ordered_by (\<lambda>n. key_ok (natof s' n)) (splay_cmp_nid s') (inorder (t_tnat_root T' p))"
      by - (erule ordered_by_cong, (use keq teq mem2 in blast)+)
    show "\<forall>x \<in> set_tree (t_tnat_root T' p). n_tunnel (natof s' x) = u"
      using mem key by (fastforce simp: flow_key_def)
  next
    fix p m
    have "(\<exists>T'. tunnels s' u = Some T' \<and> m \<in> set_tree (t_tnat_root T' p)) \<longleftrightarrow>
        (\<exists>T0. tunnels s u = Some T0 \<and> m \<in> set_tree (t_tnat_root T0 p)) \<and> m \<noteq> n" for u
    proof
      assume "\<exists>T'. tunnels s' u = Some T' \<and> m \<in> set_tree (t_tnat_root T' p)"
      then obtain T' where T': "tunnels s' u = Some T'" "m \<in> set_tree (t_tnat_root T' p)" by blast
      from io [OF T'(1), of p] mem' T'(2) show "(\<exists>T0. tunnels s u = Some T0 \<and> m \<in> set_tree (t_tnat_root T0 p)) \<and> m \<noteq> n"
        by blast
    next
      assume "(\<exists>T0. tunnels s u = Some T0 \<and> m \<in> set_tree (t_tnat_root T0 p)) \<and> m \<noteq> n"
      then obtain T0 where T0: "tunnels s u = Some T0" "m \<in> set_tree (t_tnat_root T0 p)" "m \<noteq> n" by blast
      from io' [OF T0(1), of p] mem' [OF T0(1)] T0(2,3) show "\<exists>T'. tunnels s' u = Some T' \<and> m \<in> set_tree (t_tnat_root T' p)"
        by blast
    qed
    moreover have "m \<in> active s p \<longleftrightarrow> (\<exists>u T0. tunnels s u = Some T0 \<and> m \<in> set_tree (t_tnat_root T0 p))"
      using inv unfolding flow_inv_def by blast
    moreover have "m \<in> ((active s)(pr := active s pr - {n})) p \<longleftrightarrow> m \<in> active s p \<and> m \<noteq> n" using one by auto
    ultimately show "m \<in> ((active s)(pr := active s pr - {n})) p \<longleftrightarrow>
        (\<exists>u T'. tunnels s' u = Some T' \<and> m \<in> set_tree (t_tnat_root T' p))" by blast
    assume "m \<in> ((active s)(pr := active s pr - {n})) p"
    then have m: "m \<in> active s p" "m \<noteq> n" using one by (auto split: if_splits)
    then show "m \<noteq> 0" "nats s' m \<noteq> None" "pr_of_proto (n_proto (natof s' m)) = p"
      using flow_inv_live [OF inv m(1)] key [OF m] by (auto simp: flow_key_def)
  next
    show "0 < nathashsz s'" using inv same by (simp add: flow_inv_def)
  next
    fix h assume h: "nathash s' h \<noteq> 0"
    then have eq: "nathash s' h = nathash s h" "nathash s h \<noteq> n" using hash [of h] by (auto split: if_splits)
    obtain p where p: "nathash s h \<in> active s p" and hh: "n_hash (natof s (nathash s h)) = h" "nat_slot s (nathash s h) = h"
      using inv h unfolding eq flow_inv_def by metis
    have k: "flow_key (natof s' (nathash s h)) = flow_key (natof s (nathash s h))" using key [OF p eq(2)] by blast
    show "\<exists>p. nathash s' h \<in> ((active s)(pr := active s pr - {n})) p" unfolding eq using p eq(2)
      by (intro exI [of _ p]) auto
    show "n_hash (natof s' (nathash s' h)) = h" using k hh unfolding eq by (simp add: flow_key_def)
    have "jhash_nat x (natof s' (nathash s h)) = jhash_nat x (natof s (nathash s h))" for x
      by (rule jhash_nat_cong) (use k in \<open>simp_all add: flow_key_def\<close>)
    then show "nat_slot s' (nathash s' h) = h" using hh same unfolding eq nat_slot_def by simp
  qed
  then show ?thesis using act by blast
qed

lemma unchain_nat_frames [simp]:
  "nat_tree (unchain_nat n k s) = nat_tree s" "tunnels (unchain_nat n k s) = tunnels s"
  "nathash (unchain_nat n k s) = nathash s" "nathashrnd (unchain_nat n k s) = nathashrnd s"
  "nathashsz (unchain_nat n k s) = nathashsz s"
  "map_option flow_key (nats (unchain_nat n k s) m) = map_option flow_key (nats s m)"
  by (auto simp: unchain_nat_def Let_def upd_nat_def option.map_comp o_def split: option.split)

lemma count_del_frames [simp]:
  "nat_tree (count_del n s) = nat_tree s" "tunnels (count_del n s) = tunnels s" "nats (count_del n s) = nats s"
  "nathash (count_del n s) = nathash s" "nathashrnd (count_del n s) = nathashrnd s" "nathashsz (count_del n s) = nathashsz s"
  by (simp_all add: count_del_def Let_def)

lemma natof_flow_key: "map_option flow_key (nats s' n) = map_option flow_key (nats s n) \<Longrightarrow> flow_key (natof s' n) = flow_key (natof s n)"
  by (cases "nats s n"; cases "nats s' n") (auto simp: natof_def)

lemma flow_inv_hash:
  assumes "flow_inv s" "nathash s h \<noteq> 0"
  shows "n_hash (natof s (nathash s h)) = h" "h < nathashsz s" "\<exists>pr. nathash s h \<in> active s pr"
proof -
  show "n_hash (natof s (nathash s h)) = h" "\<exists>pr. nathash s h \<in> active s pr" using assms unfolding flow_inv_def by blast+
  have "nat_slot s (nathash s h) = h" "0 < nathashsz s" using assms unfolding flow_inv_def by blast+
  then show "h < nathashsz s" using hash_slot_less [of "nathashsz s"] unfolding nat_slot_def by metis
qed

text \<open>del_nat takes the entry out of every structure, whatever becomes of it.\<close>

lemma del_nat_flows:
  assumes inv: "flow_inv s" and n: "n \<in> active s pr"
  shows "flow_inv (del_nat cfg n k s) \<and> active (del_nat cfg n k s) = (active s)(pr := active s pr - {n}) \<and>
    (\<forall>m. m \<noteq> n \<longrightarrow> map_option flow_key (nats (del_nat cfg n k s) m) = map_option flow_key (nats s m))"
proof -
  let ?t = "n_tunnel (natof s n)" and ?h = "n_hash (natof s n)"
  have live: "n \<noteq> 0" "nats s n \<noteq> None" "pr_of_proto (n_proto (natof s n)) = pr" "key_ok (natof s n)"
    using flow_inv_live [OF inv n] by auto
  define s0 where "s0 = (if hidx (count_del n s) n \<noteq> 0 then nat_heap_delete (hidx (count_del n s) n) (count_del n s)
    else count_del n s)"
  define s1 where "s1 = unchain_nat n k (upd_nat n (\<lambda>e. e\<lparr>n_heap_index := 0\<rparr>) s0)"
  have oh: "only_heap (count_del n s) s0" unfolding s0_def by (auto intro: only_heap_intros only_heap_delete)
  have k0: "map_option flow_key (nats s0 m) = map_option flow_key (nats s m)" for m
    using oh by (auto simp: only_heap_def option.map_comp o_def)
  have k1: "map_option flow_key (nats s1 m) = map_option flow_key (nats s m)" for m
    unfolding s1_def by (simp add: upd_nat_def option.map_comp o_def k0)
  have f1: "nat_tree s1 = nat_tree s" "tunnels s1 = tunnels s" "nathash s1 = nathash s" "nathashrnd s1 = nathashrnd s"
    "nathashsz s1 = nathashsz s"
    using oh by (auto simp: s1_def only_heap_def upd_nat_def)
  have sf1: "same_flows s s1" unfolding same_flows_def by (simp add: f1 k1)
  have kn: "flow_key (natof s1 m) = flow_key (natof s m)" for m by (rule natof_flow_key [OF k1])
  have n1: "n_tunnel (natof s1 n) = ?t" "n_hash (natof s1 n) = ?h" "n_proto (natof s1 n) = n_proto (natof s n)"
    using kn [of n] by (simp_all add: flow_key_def)
  obtain u T where "tunnels s u = Some T" "n \<in> set_tree (t_tnat_root T pr)" using inv n unfolding flow_inv_def by blast
  then have T: "tunnels s ?t = Some T" "n \<in> set_tree (t_tnat_root T pr)" using flow_inv_root [OF inv] by metis+
  define r where "r = snd (nat_splay_remove (splay_cmp_nid s1 n) n (t_tnat_root T pr))"
  have inv1: "flow_inv s1" and act1: "active s1 = active s"
    by (rule flow_inv_same [OF inv sf1], rule same_flows_active [OF sf1])
  have "ordered_by (\<lambda>n. key_ok (natof s1 n)) (splay_cmp_nid s1) (inorder (t_tnat_root T pr))" "key_ok (natof s1 n)"
    using inv1 T(1) flow_inv_live [OF inv1, of n pr] n unfolding flow_inv_def f1 act1 by blast+
  then have r: "inorder r = remove1 n (inorder (t_tnat_root T pr))"
    using comparator.splay_remove_list [OF splay_nid_comparator _ _ T(2)] unfolding r_def by blast
  define s2 where "s2 = upd_tunnel ?t (\<lambda>t. t\<lparr>t_tnatcnt := (t_tnatcnt t)(pr := isc_decr_u16 (t_tnatcnt t pr))\<rparr>)
    (put_root ?t pr r (put_tree pr (nat_tree_remove n (nat_tree s pr)) s1))"
  define s3 where "s3 = (if ?h < nathashsz s2 \<and> nathash s2 ?h = n then s2\<lparr>nathash := (nathash s2)(?h := 0)\<rparr> else s2)"
  have ts1: "tunof s1 ?t = T" using T f1 by (simp add: tunof_def)
  have n2: "n_hash (natof s2 n) = ?h" using n1 by (simp add: s2_def natof_def upd_tunnel_def put_root_def put_tree_def)
  have "del_nat cfg n k s = s3\<lparr>nats := (nats s3)(n := None)\<rparr> \<or> (\<exists>i. del_nat cfg n k s = hold_nat cfg i pr n s3)"
  proof -
    let ?A = "s3\<lparr>nats := (nats s3)(n := None)\<rparr>" and ?B = "\<lambda>i. hold_nat cfg i pr n s3"
    have "del_nat cfg n k s = (case pool_of_nat n s3 of None \<Rightarrow> ?A | Some i \<Rightarrow>
        if nport_of (natof s3 n) < unat (p_minport (poolof s3 i) pr) \<or> nport_of (natof s3 n) > unat (p_maxport (poolof s3 i) pr)
        then ?A else ?B i)"
      unfolding del_nat_def Let_def live(3) s0_def [symmetric] s1_def [symmetric] f1(1) put_frames ts1 r_def [symmetric]
        s2_def [symmetric] n2 s3_def [symmetric] ..
    then show ?thesis by (auto split: option.split)
  qed
  then obtain s' where s': "del_nat cfg n k s = s'" and fin: "s' = s3\<lparr>nats := (nats s3)(n := None)\<rparr> \<or> (\<exists>i. s' = hold_nat cfg i pr n s3)"
    by blast
  have f2: "nat_tree s2 = (nat_tree s)(pr := nat_tree_remove n (nat_tree s pr))" "nathash s2 = nathash s"
    "nathashrnd s2 = nathashrnd s" "nathashsz s2 = nathashsz s" "nats s2 = nats s1"
    by (simp_all add: s2_def upd_tunnel_def f1)
  have f3: "nat_tree s3 = nat_tree s2" "tunnels s3 = tunnels s2" "nathashrnd s3 = nathashrnd s2" "nathashsz s3 = nathashsz s2"
    "nats s3 = nats s2" "nathash s3 = (if ?h < nathashsz s \<and> nathash s ?h = n then (nathash s)(?h := 0) else nathash s)"
    using f2 by (simp_all add: s3_def)
  have fr: "nat_tree s' = nat_tree s3" "tunnels s' = tunnels s3" "nathash s' = nathash s3" "nathashrnd s' = nathashrnd s3"
    "nathashsz s' = nathashsz s3" "\<And>m. m \<noteq> n \<Longrightarrow> nats s' m = nats s3 m"
    using fin by (elim disjE exE; simp add: hold_nat_def upd_pool_def upd_nat_def)+
  note fr = fr [unfolded f3(1-5) f2]
  have h: "nathash s' h = (if nathash s1 h = n then 0 else nathash s1 h)" for h
  proof -
    have nh: "nathash s' = (if ?h < nathashsz s \<and> nathash s ?h = n then (nathash s)(?h := 0) else nathash s)"
      unfolding fr f3(6) ..
    show ?thesis
    proof (cases "nathash s h = n")
      case True
      have "?h = h" "h < nathashsz s" using flow_inv_hash [OF inv, of h] True live by auto
      then show ?thesis unfolding f1 nh using True by simp
    next
      case False
      then show ?thesis unfolding f1 nh using live(1) by (cases "h = ?h") auto
    qed
  qed
  have "flow_inv s' \<and> active s' = (active s1)(pr := active s1 pr - {n})"
  proof (rule flow_inv_drop [OF inv1 _ _ h, where T = T and r = r and t = ?t])
    show "n \<in> active s1 pr" "?t = n_tunnel (natof s1 n)" using n act1 n1 by simp_all
    show "nathashrnd s' = nathashrnd s1" "nathashsz s' = nathashsz s1" "tunnels s1 ?t = Some T" using fr f1 T by simp_all
    show "nat_tree s' = (nat_tree s1)(pr := nat_tree_remove n (nat_tree s1 pr))" using fr f1 by simp
    show "inorder r = remove1 n (inorder (t_tnat_root T pr))" by (rule r)
    fix u show "map_option t_tnat_root (tunnels s' u) =
        map_option t_tnat_root (((tunnels s1)(?t \<mapsto> T\<lparr>t_tnat_root := (t_tnat_root T)(pr := r)\<rparr>)) u)"
      unfolding fr using T f1 by (simp add: s2_def upd_tunnel_def put_root_def put_tree_def)
  next
    fix m p assume "m \<noteq> n" then show "map_option flow_key (nats s' m) = map_option flow_key (nats s1 m)" using fr by simp
  qed
  then show ?thesis unfolding s' act1 using fr k1 by simp
qed

end
