(* ===== verification/Aftr_Lookup.thy ===== *)
theory Aftr_Lookup
  imports Aftr_Flow
begin

text \<open>
  The two lookups of a packet: nat_lookup, by the outer address and port through the hash table
  and the global tree, and nat_splay_find, by the inner ones in the tree of the tunnel. A
  translated packet and its reply meet the same entry.
\<close>

section \<open>Looking a flow up\<close>

definition same_port :: "nat_entry \<Rightarrow> nat_entry \<Rightarrow> bool" where
  "same_port a b \<longleftrightarrow> n_proto a = n_proto b \<and> n_nsrc a = n_nsrc b \<and> n_nport a = n_nport b"

lemma cmp_byte_cases: "x \<noteq> y \<Longrightarrow> cmp_byte x y k = cmp_byte x y k'" "cmp_byte x x k = k" "cmp_byte x y k = 0 \<longleftrightarrow> x = y \<and> k = 0"
  by (auto simp: cmp_byte_def word_uint_eq_iff)

lemma cmp_field_cases:
  "length x = 4 \<Longrightarrow> length y = 4 \<Longrightarrow> x \<noteq> y \<Longrightarrow> cmp4 x y k = cmp4 x y k'" "cmp4 x x k = k"
  "length x = 4 \<Longrightarrow> length y = 4 \<Longrightarrow> cmp4 x y k = 0 \<longleftrightarrow> x = y \<and> k = 0"
  "length p = 2 \<Longrightarrow> length q = 2 \<Longrightarrow> p \<noteq> q \<Longrightarrow> cmp2 p q k = cmp2 p q k'" "cmp2 p p k = k"
  "length p = 2 \<Longrightarrow> length q = 2 \<Longrightarrow> cmp2 p q k = 0 \<longleftrightarrow> p = q \<and> k = 0"
proof -
  show z: "cmp4 x y k = 0 \<longleftrightarrow> x = y \<and> k = 0" if "length x = 4" "length y = 4" for x y k
  proof -
    have "x = y \<longleftrightarrow> x ! 0 = y ! 0 \<and> x ! 1 = y ! 1 \<and> x ! 2 = y ! 2 \<and> x ! 3 = y ! 3"
      using length4 [OF that(1)] length4 [OF that(2)] by metis
    then show ?thesis unfolding cmp4_def cmp_byte_cases(3) by blast
  qed
  show z': "cmp2 p q k = 0 \<longleftrightarrow> p = q \<and> k = 0" if "length p = 2" "length q = 2" for p q k
  proof -
    have "p = q \<longleftrightarrow> p ! 0 = q ! 0 \<and> p ! 1 = q ! 1" using length2 [OF that(1)] length2 [OF that(2)] by metis
    then show ?thesis unfolding cmp2_def cmp_byte_cases(3) by blast
  qed
  show "cmp4 x x k = k" "cmp2 p p k = k" by (simp_all add: cmp4_def cmp2_def cmp_byte_cases)
  show "cmp4 x y k = cmp4 x y k'" if "length x = 4" "length y = 4" "x \<noteq> y"
  proof -
    have "x ! 0 \<noteq> y ! 0 \<or> x ! 1 \<noteq> y ! 1 \<or> x ! 2 \<noteq> y ! 2 \<or> x ! 3 \<noteq> y ! 3"
      using that length4 [OF that(1)] length4 [OF that(2)] by metis
    then show ?thesis by (auto simp: cmp4_def cmp_byte_def)
  qed
  show "cmp2 p q k = cmp2 p q k'" if "length p = 2" "length q = 2" "p \<noteq> q"
  proof -
    have "p ! 0 \<noteq> q ! 0 \<or> p ! 1 \<noteq> q ! 1" using that length2 [OF that(1)] length2 [OF that(2)] by metis
    then show ?thesis by (auto simp: cmp2_def cmp_byte_def)
  qed
qed

lemma tree_wild_port:
  assumes "length (n_nsrc a) = 4" "length (n_nport a) = 2" "key_ok b" "nat_tree_compare_wild a b = 0"
  shows "same_port a b \<and> cmp_dest_wild a b = 0"
  using assms
  by (simp add: nat_tree_compare_wild_def same_port_def key_ok_def cmp_byte_cases(3) cmp_field_cases(3,6))

lemma tree_wild_abs:
  assumes "key_ok n" "key_ok m" "same_port k n" "\<not> same_port n m"
  shows "nat_tree_compare_wild k m = nat_tree_compare_abs n m"
proof -
  have k: "n_proto k = n_proto n" "n_nsrc k = n_nsrc n" "n_nport k = n_nport n" using assms(3) by (simp_all add: same_port_def)
  show ?thesis
    unfolding nat_tree_compare_wild_def nat_tree_compare_abs_def k
    using assms(1,2,4) cmp_byte_cases(1,2) cmp_field_cases(1,2,4,5) unfolding same_port_def key_ok_def by metis
qed

lemma nat_lookup_owner:
  assumes inv: "flow_inv s" and n: "n \<in> active s pr"
    and k: "same_port k (natof s n)" "cmp_dest_wild k (natof s n) = 0"
    and alone: "\<And>m p. m \<in> active s p \<Longrightarrow> m \<noteq> n \<Longrightarrow> \<not> same_port (natof s n) (natof s m)"
    and gen: "\<not> (FIRSTGEN \<le> n_generation (natof s n) \<and> n_generation (natof s n) < lastgen s)"
  shows "fst (nat_lookup pr k s) = n"
proof -
  have nk: "key_ok (natof s n)" "nats s n \<noteq> None" "n \<noteq> 0" using flow_inv_live [OF inv n] by auto
  have hit: "nat_tree_compare_wild k (natof s n) = 0"
    using k by (simp add: nat_tree_compare_wild_def same_port_def cmp_byte_cases(2) cmp_field_cases(2,5))
  have abs: "nat_tree_compare_wild k (natof s m) = tree_cmp_nid s n m" if "m \<in> active s p" "m \<noteq> n" for m p
    unfolding tree_cmp_nid_def using tree_wild_abs [OF nk(1) _ k(1) alone [OF that]] flow_inv_live [OF inv that(1)] by blast
  have len: "length (n_nsrc k) = 4" "length (n_nport k) = 2" using k(1) nk(1) by (simp_all add: same_port_def key_ok_def)
  have only: "m = n" if m: "m \<in> active s p" "nat_tree_compare_wild k (natof s m) = 0" for m p
  proof -
    have "same_port k (natof s m)" using tree_wild_port [OF len _ m(2)] flow_inv_live [OF inv m(1)] by blast
    then have "same_port (natof s n) (natof s m)" using k(1) by (simp add: same_port_def)
    then show ?thesis using alone m(1) by blast
  qed
  have ord: "ordered_by (\<lambda>n. key_ok (natof s n)) (tree_cmp_nid s) (rb_list (nat_tree s pr))"
    using inv by (simp add: flow_inv_def)
  have "falls (tree_cmp_nid s n) (rb_list (nat_tree s pr))"
    by (rule comparator.ordered_falls [OF tree_nid_comparator ord nk(1)])
  then have "wild_falls (tree_cmp_nid s n) (rb_list (nat_tree s pr))"
    unfolding falls_def wild_falls_def by (rule sorted_wrt_mono_rel [rotated]) auto
  moreover have "tree_cmp_nid s n n = 0" by (rule comparator.cmp_refl [OF tree_nid_comparator nk(1)])
  then have "nat_tree_compare_wild k (natof s m) = tree_cmp_nid s n m" if "m \<in> set (rb_list (nat_tree s pr))" for m
    using abs [of m pr] hit that by (cases "m = n") (simp_all add: active_def)
  ultimately have wf: "wild_falls (\<lambda>m. nat_tree_compare_wild k (natof s m)) (rb_list (nat_tree s pr))"
    unfolding wild_falls_def by (elim sorted_wrt_mono_rel [rotated]) simp
  obtain m where m: "nat_tree_find_wild (\<lambda>m. nat_tree_compare_wild k (natof s m)) (nat_tree s pr) = Some m"
    using find_wild_complete [OF wf _ n [unfolded active_def]] hit by blast
  then have mn: "m = n" using find_wild_sound [OF m] only [of m pr] by (simp add: active_def)
  let ?h = "nathash s (hash_slot (jhash_nat (nathashrnd s) k) (nathashsz s))"
  have "?h = n" if "?h \<noteq> 0" "nat_tree_compare_wild k (natof s ?h) = 0"
  proof -
    have "\<exists>p. ?h \<in> active s p" by (rule flow_inv_hash(3) [OF inv that(1)])
    then show ?thesis using only [OF _ that(2)] by blast
  qed
  then have h: "?h \<noteq> 0 \<and> nat_tree_compare_wild k (natof s ?h) = 0 \<Longrightarrow> ?h = n" by blast
  have f: "nat_tree_find_wild (\<lambda>m. nat_tree_compare_wild k (natof s m)) (nat_tree s pr) = Some n" using m mn by simp
  show ?thesis
  proof (cases "?h \<noteq> 0 \<and> nat_tree_compare_wild k (natof s ?h) = 0")
    case True
    show ?thesis unfolding nat_lookup_def Let_def if_P [OF True] fst_conv by (rule h [OF True])
  next
    case False
    show ?thesis unfolding nat_lookup_def Let_def if_not_P [OF False] f option.case if_not_P [OF gen] fst_conv ..
  qed
qed


lemma flow_inv_rehash:
  assumes inv: "flow_inv s" and n: "n \<in> active s pr" and h: "nat_slot s n = h"
  defines "s' \<equiv> upd_nat n (\<lambda>e. e\<lparr>n_hash := h\<rparr>) (s\<lparr>nathash := (nathash s)(h := n)\<rparr>)"
  shows "flow_inv s' \<and> active s' = active s \<and> tunnels s' = tunnels s"
proof -
  have nn: "nats s n \<noteq> None" using flow_inv_live [OF inv n] by blast
  have nat: "natof s' m = (if m = n then (natof s n)\<lparr>n_hash := h\<rparr> else natof s m)" for m
    using nn by (auto simp: s'_def natof_def upd_nat_def)
  have f: "nat_tree s' = nat_tree s" "tunnels s' = tunnels s" "nathashrnd s' = nathashrnd s" "nathashsz s' = nathashsz s"
    "nathash s' = (nathash s)(h := n)" "nats s' m = None \<longleftrightarrow> nats s m = None" for m
    by (simp_all add: s'_def upd_nat_def)
  have same: "n_tunnel (natof s' m) = n_tunnel (natof s m)" "n_proto (natof s' m) = n_proto (natof s m)"
    "key_ok (natof s' m) = key_ok (natof s m)" "nat_slot s' m = nat_slot s m" for m
    by (simp_all add: nat nat_slot_def f key_ok_def jhash_nat_def)
  have cmp: "tree_cmp_nid s' = tree_cmp_nid s" "splay_cmp_nid s' = splay_cmp_nid s"
    by (simp_all add: fun_eq_iff tree_cmp_nid_def splay_cmp_nid_def nat nat_tree_compare_abs_def nat_splay_compare_abs_def cmp_dest_abs_def)
  have act: "active s' = active s" by (simp add: active_def f fun_eq_iff)
  have slot: "(\<exists>p. nathash s' x \<in> active s p) \<and> n_hash (natof s' (nathash s' x)) = x \<and> nat_slot s (nathash s' x) = x"
    if x: "nathash s' x \<noteq> 0" for x
  proof (cases "x = h")
    case True
    then show ?thesis using n h by (auto simp: f nat)
  next
    case False
    then have hx: "nathash s' x = nathash s x" by (simp add: f)
    have o: "nat_slot s (nathash s x) = x" using inv x unfolding hx flow_inv_def by blast
    then have "nathash s x \<noteq> n" using h False by metis
    then show ?thesis unfolding hx nat using flow_inv_hash [OF inv x [unfolded hx]] o by simp
  qed
  have "flow_inv s'"
    using inv slot unfolding flow_inv_def f same cmp act by blast
  then show ?thesis using act f(2) by blast
qed

text \<open>A lookup finds only a matching entry, and changes the hash table alone.\<close>

lemma nat_lookup_flows:
  assumes inv: "flow_inv s" and k: "length (n_nsrc k) = 4" "length (n_nport k) = 2"
    and run: "nat_lookup pr k s = (n, s')"
  shows "flow_inv s' \<and> active s' = active s \<and> tunnels s' = tunnels s \<and>
    (\<forall>m. map_option (snd \<circ> flow_key) (nats s' m) = map_option (snd \<circ> flow_key) (nats s m)) \<and>
    (n \<noteq> 0 \<longrightarrow> (\<exists>p. n \<in> active s p) \<and> nat_tree_compare_wild k (natof s n) = 0)"
proof -
  define h where "h = hash_slot (jhash_nat (nathashrnd s) k) (nathashsz s)"
  show ?thesis
  proof (cases "nathash s h \<noteq> 0 \<and> nat_tree_compare_wild k (natof s (nathash s h)) = 0")
    case True
    have "n = nathash s h" "s' = s" using run unfolding nat_lookup_def Let_def h_def [symmetric] if_P [OF True] by auto
    then show ?thesis using True inv flow_inv_hash(3) [OF inv, of h] by auto
  next
    case False
    note run' = run [unfolded nat_lookup_def Let_def h_def [symmetric] if_not_P [OF False]]
    show ?thesis
    proof (cases "nat_tree_find_wild (\<lambda>m. nat_tree_compare_wild k (natof s m)) (nat_tree s pr)")
      case None
      then show ?thesis using run' inv by simp
    next
      case (Some m)
      have m: "m \<in> active s pr" "nat_tree_compare_wild k (natof s m) = 0"
        using find_wild_sound [OF Some] by (simp_all add: active_def)
      have "same_port k (natof s m)" using tree_wild_port [OF k _ m(2)] flow_inv_live [OF inv m(1)] by blast
      then have "jhash_nat r k = jhash_nat r (natof s m)" for r by (intro jhash_nat_cong) (simp_all add: same_port_def)
      then have slot: "nat_slot s m = h" by (simp add: nat_slot_def h_def)
      let ?s' = "upd_nat m (\<lambda>e. e\<lparr>n_hash := h\<rparr>) (s\<lparr>nathash := (nathash s)(h := m)\<rparr>)"
      have "n = 0 \<and> s' = s \<or> n = m \<and> s' = ?s'" using run' unfolding Some option.case by (auto split: if_splits)
      then show ?thesis
      proof
        assume "n = 0 \<and> s' = s" then show ?thesis using inv by simp
      next
        assume r: "n = m \<and> s' = ?s'"
        have "map_option (snd \<circ> flow_key) (nats ?s' x) = map_option (snd \<circ> flow_key) (nats s x)" for x
          by (auto simp: upd_nat_def flow_key_def option.map_comp o_def)
        then show ?thesis using flow_inv_rehash [OF inv m(1) slot] r m by blast
      qed
    qed
  qed
qed

text \<open>The lookup of natin splays the tree of the tunnel and finds only matching entries of it.\<close>

lemma splay_find_sound:
  assumes "nat_splay_find lg cm g skip t = (r, t')"
  shows "inorder t' = inorder t \<and> (\<forall>n. r = Some n \<longrightarrow> n \<in> set_tree t \<and> cm n = 0)"
proof -
  have i: "inorder (nat_splay_splay cm t) = inorder t" by simp
  have st: "set_tree (nat_splay_splay cm t) = set_tree t" by (metis i set_inorder)
  show ?thesis
    using assms i st
    by (cases "nat_splay_splay cm t") (auto simp: nat_splay_find_def nat_splay_find_root_def split: if_splits)
qed

section \<open>What a translation writes\<close>

lemma nat_rewrite_fields:
  assumes e: "n_proto e = IPTCP \<or> n_proto e = IPUDP" "n_flags e AND MATCH_PORT \<noteq> 0" and b: "40 \<le> length b \<or> n_proto e = IPUDP \<and> 28 \<le> length b"
    and aq: "a = 12 \<and> q = 20 \<or> a = 16 \<and> q = 22" and new: "length (snd addr) = 4" "length (snd port) = 2"
  defines "b' \<equiv> nat_rewrite a q addr port e b"
  shows "length b' = length b" "sub b' a 4 = snd addr" "sub b' q 2 = snd port"
    and "i < 24 \<Longrightarrow> i \<notin> {a..<a + 4} \<union> {q..<q + 2} \<union> {10, 11} \<Longrightarrow> b' ! i = b ! i"
proof -
  define h where "h = put (put b a (snd addr)) 10 (fix_cksum (sub (put b a (snd addr)) 10 2) (Some addr) None)"
  have len: "length h = length b" "28 \<le> length b" using aq new b by (auto simp: h_def)
  obtain j ck where j: "j = 36 \<and> 40 \<le> length b \<or> j = 26" "length ck = 0 \<or> length ck = 2" "b' = put (put h q (snd port)) j ck"
  proof -
    have "\<exists>j ck. (j = 36 \<and> 40 \<le> length b \<or> j = 26) \<and> (length ck = 0 \<or> length ck = 2) \<and> b' = put (put h q (snd port)) j ck"
    proof (cases "n_proto e = 6")
      case True
      let ?h = "put h q (snd port)"
      have "b' = put ?h 36 (fix_cksum (sub ?h 36 2) (Some addr) (Some port))"
        using True e by (simp add: b'_def nat_rewrite_def Let_def h_def)
      then show ?thesis using True b by (intro exI conjI [rotated]; assumption?) auto
    next
      case False
      let ?h = "put h q (snd port)"
      have "b' = put ?h 26 (if ?h ! 26 \<noteq> 0 \<or> ?h ! 27 \<noteq> 0 then fix_cksum (sub ?h 26 2) (Some addr) (Some port) else [])"
        using False e by (simp add: b'_def nat_rewrite_def Let_def h_def)
      then show ?thesis by (intro exI conjI [rotated]; assumption?) auto
    qed
    then show ?thesis using that by blast
  qed
  show "length b' = length b" using j len aq new by auto
  have hn: "h ! i = (if a \<le> i \<and> i < a + 4 then snd addr ! (i - a) else b ! i)" if "i < 24" "i \<noteq> 10" "i \<noteq> 11" for i
    using that len new aq by (auto simp: h_def nth_put)
  have bn: "b' ! i = (if q \<le> i \<and> i < q + 2 then snd port ! (i - q) else h ! i)" if "i < 24" for i
    using that len new aq j(1,2) unfolding j(3) by (auto simp: nth_put)
  have lb: "length b' = length b" using j len aq new by auto
  show "sub b' a 4 = snd addr"
    using lb len new aq by (intro nth_equalityI) (auto simp: nth_sub bn hn)
  show "sub b' q 2 = snd port"
    using lb len new aq by (intro nth_equalityI) (auto simp: nth_sub bn)
  show "b' ! i = b ! i" if "i < 24" "i \<notin> {a..<a + 4} \<union> {q..<q + 2} \<union> {10, 11}"
    using that by (cases "a \<le> i \<and> i < a + 4"; cases "q \<le> i \<and> i < q + 2") (auto simp: bn hn)
qed

lemma nat_rewrite_flags:
  assumes "n_proto e = IPTCP" "n_flags e AND MATCH_PORT \<noteq> 0" "40 \<le> length b" "a = 12 \<and> q = 20 \<or> a = 16 \<and> q = 22"
    "length (snd addr) = 4" "length (snd port) = 2"
  shows "nat_rewrite a q addr port e b ! 33 = b ! 33"
  using assms by (auto simp: nat_rewrite_def Let_def nth_put)

lemma tcpmss_low:
  assumes len: "len \<le> length b"
  shows "length (patch_tcpmss t b len) = length b" "i < 36 \<Longrightarrow> patch_tcpmss t b len ! i = b ! i"
proof -
  have "patch_tcpmss t b len = b \<or> (\<exists>j m ck. 42 \<le> j \<and> j + 2 \<le> len \<and> length m = 2 \<and> length ck = 2 \<and>
      patch_tcpmss t b len = put (put b j m) 36 ck)"
  proof (cases "patch_tcpmss t b len = b")
    case False
    then obtain j where j: "mss_scan b len 40 0 = Some j" "j \<noteq> 0" "b ! (j + 1) = TCPOPTMSSLEN"
      and p: "patch_tcpmss t b len = (case fix_msscksum (sub b TCPCKSUMH 2) (sub b (j + 2) 2) (t_mtu t - 80) of
          (ck, m) \<Rightarrow> put (put b (j + 2) m) TCPCKSUMH ck)"
      by (auto simp: patch_tcpmss_def Let_def eval_nat_numeral split: if_splits option.splits)
    note bd = mss_scan_bounds [OF j]
    obtain ck m where f: "fix_msscksum (sub b TCPCKSUMH 2) (sub b (j + 2) 2) (t_mtu t - 80) = (ck, m)" by fastforce
    have "length (sub b TCPCKSUMH 2) = 2" "length (sub b (j + 2) 2) = 2" using len bd by simp_all
    note ms = fix_msscksum_cong [OF this f]
    have "42 \<le> j + 2 \<and> j + 2 + 2 \<le> len \<and> length m = 2 \<and> length ck = 2 \<and> patch_tcpmss t b len = put (put b (j + 2) m) 36 ck"
      using p f ms bd by simp
    then show ?thesis by blast
  qed simp
  then show "length (patch_tcpmss t b len) = length b" "i < 36 \<Longrightarrow> patch_tcpmss t b len ! i = b ! i"
    using assms by (auto simp: nth_put)
qed

section \<open>The entry of a packet from the tunnel\<close>

lemma splay_lookup_flows:
  assumes inv: "flow_inv s" and T: "tunnels s (n_tunnel k) = Some T" and run: "splay_lookup cmp pr k s = (n, s')"
  shows "same_flows s s' \<and> port_same s s' \<and> nats s' = nats s \<and>
    (n \<noteq> 0 \<longrightarrow> n \<in> active s pr \<and> n_tunnel (natof s n) = n_tunnel k \<and> cmp k (natof s n) = 0)"
proof -
  let ?root = "t_tnat_root (tunof s (n_tunnel k)) pr"
  obtain r t' where f: "nat_splay_find (lastgen s) (\<lambda>m. cmp k (natof s m)) (n_generation k) False ?root = (r, t')"
    by fastforce
  have s': "s' = put_root (n_tunnel k) pr t' s" and n: "n = (case r of None \<Rightarrow> 0 | Some n \<Rightarrow> n)"
    using run f by (auto simp: splay_lookup_def Let_def)
  note sound = splay_find_sound [OF f]
  have "same_flows s s'" unfolding s' by (rule sf_reroot [OF same_flows_refl]) (use sound in blast)
  moreover have "port_same s s'" unfolding s' by (rule port_same_root [OF port_same_refl])
  moreover have "n \<in> active s pr \<and> n_tunnel (natof s n) = n_tunnel k \<and> cmp k (natof s n) = 0" if nz: "n \<noteq> 0"
  proof -
    obtain m where m: "r = Some m" "n = m" using n nz by (cases r) auto
    then have "n \<in> set_tree (t_tnat_root T pr)" "cmp k (natof s n) = 0" using sound T by (auto simp: tunof_def)
    then show ?thesis using flow_inv_root [OF inv T] by blast
  qed
  ultimately show ?thesis by (simp add: s')
qed

lemma rate_limit_flows:
  assumes "rate_limit cfg pr t s = (r, s')"
  shows "same_flows s s' \<and> port_same s s' \<and> nats s' = nats s"
proof -
  have "s' = s \<or> (\<exists>f. s' = upd_tunnel t f s \<and> (\<forall>T. t_tnat_root (f T) = t_tnat_root T \<and>
      (t_srcidx (f T), t_avail (f T), t_bucket (f T)) = (t_srcidx T, t_avail T, t_bucket T)))"
    using assms by (fastforce simp: rate_limit_def Let_def split: if_splits)
  then show ?thesis
  proof
    assume "\<exists>f. s' = upd_tunnel t f s \<and> (\<forall>T. t_tnat_root (f T) = t_tnat_root T \<and>
      (t_srcidx (f T), t_avail (f T), t_bucket (f T)) = (t_srcidx T, t_avail T, t_bucket T))"
    then obtain f where f: "s' = upd_tunnel t f s" "\<And>T. t_tnat_root (f T) = t_tnat_root T"
      "\<And>T. (t_srcidx (f T), t_avail (f T), t_bucket (f T)) = (t_srcidx T, t_avail T, t_bucket T)" by blast
    have "same_flows s s'" unfolding f(1) by (rule sf_upd_tunnel [OF same_flows_refl]) (simp add: f(2))
    moreover have "port_same s s'" unfolding f(1) by (rule port_same_upd_tunnel [OF port_same_refl f(3)])
    ultimately show ?thesis unfolding f(1) by (simp add: upd_tunnel_def)
  qed (simp add: same_flows_refl port_same_refl)
qed

lemma bump_timeout_flows [same_flows_intros]: "same_flows s t \<Longrightarrow> same_flows s (bump_timeout life n t)"
  unfolding bump_timeout_def Let_def by (auto intro!: same_flows_intros)

lemma tcpstate_in_flows: "tcpstate_in cfg fl n s = (r, s') \<Longrightarrow> same_flows s s'"
  unfolding tcpstate_in_def Let_def tcp_shorten_def tcp_ack_def
  by (auto split: if_splits intro!: same_flows_intros)

lemma tcpstate_out_flows: "tcpstate_out cfg fl n s = (r, s') \<Longrightarrow> same_flows s s'"
  unfolding tcpstate_out_def Let_def tcp_shorten_def tcp_ack_def
  by (auto split: if_splits intro!: same_flows_intros)

text \<open>No FTP control connection: neither port is 21.\<close>

definition not_ftp :: "bytes \<Rightarrow> bool" where
  "not_ftp p \<longleftrightarrow> \<not> (p ! 0 = 0 \<and> p ! 1 = 21)"

text \<open>A TCP or UDP packet with the fields the translation needs.\<close>

definition l4_packet :: "bytes \<Rightarrow> nat \<Rightarrow> bool" where
  "l4_packet b len \<longleftrightarrow> len \<le> length b \<and> (b ! IPPROTO = IPTCP \<and> 40 \<le> length b \<or> b ! IPPROTO = IPUDP \<and> 28 \<le> length b)"

text \<open>The length is that of a whole IPv4 packet without options.\<close>

definition ip_whole :: "bytes \<Rightarrow> nat \<Rightarrow> bool" where
  "ip_whole b len \<longleftrightarrow> b ! 0 = IP4VNOOP \<and> 28 \<le> len \<and> len \<le> 65535 \<and> (b ! IPPROTO = IPTCP \<longrightarrow> 40 \<le> len)"

definition plain_packet :: "bytes \<Rightarrow> nat \<Rightarrow> bool" where
  "plain_packet b len \<longleftrightarrow> l4_packet b len \<and> not_ftp (sub b IPSPORT 2) \<and> not_ftp (sub b IPDPORT 2)"

text \<open>patch_tcpmss, which may spoil the TCP checksum, leaves it alone.\<close>

definition no_syn :: "bytes \<Rightarrow> bool" where
  "no_syn b \<longleftrightarrow> b ! IPPROTO = IPTCP \<longrightarrow> b ! TCPFLAGS AND TCPFSYN = 0"

lemma no_syn_patch: "b ! IPPROTO = IPTCP \<Longrightarrow> no_syn b \<Longrightarrow> b' ! TCPFLAGS = b ! TCPFLAGS \<Longrightarrow> patch_tcpmss t b' len = b'"
  by (simp add: no_syn_def patch_tcpmss_def Let_def)

lemma natin_got_flows:
  assumes p: "plain_packet b len" and e: "n_proto (natof s n) = b ! IPPROTO" "n_flags (natof s n) AND MATCH_PORT \<noteq> 0"
    "length (n_nsrc (natof s n)) = 4" "length (n_nport (natof s n)) = 2" "n_sport (natof s n) = sub b IPSPORT 2"
    and n: "n \<noteq> 0" and run: "natin_got cfg mem new junk t n b len s = Some (True, b1, len1, s1)"
  shows "same_flows s s1 \<and> sub b1 IPSRC 4 = n_nsrc (natof s n) \<and> sub b1 IPSPORT 2 = n_nport (natof s n) \<and>
    (\<forall>i < 24. i \<notin> {10..15} \<union> {20, 21} \<longrightarrow> b1 ! i = b ! i) \<and> length b1 = length b \<and>
    (no_syn b \<longrightarrow> b1 = rewrite_in (natof s n) b)"
proof -
  let ?e = "natof s n"
  define b2 where "b2 = rewrite_in ?e b"
  have pr: "n_proto ?e = IPTCP \<or> n_proto ?e = IPUDP" "40 \<le> length b \<or> n_proto ?e = IPUDP \<and> 28 \<le> length b"
    and len: "len \<le> length b" "28 \<le> length b"
    using p e(1) by (auto simp: plain_packet_def l4_packet_def)
  have f: "length b2 = length b" "sub b2 12 4 = n_nsrc ?e" "sub b2 20 2 = n_nport ?e"
    "\<And>i. i < 24 \<Longrightarrow> i \<notin> {10..15} \<union> {20, 21} \<Longrightarrow> b2 ! i = b ! i"
    using nat_rewrite_fields [OF pr(1) e(2) pr(2), of 12 20 "(n_src ?e, n_nsrc ?e)" "(n_sport ?e, n_nport ?e)"] e(3,4)
    by (auto simp: b2_def rewrite_in_def)
  define b3 where "b3 = (if n_proto ?e = IPTCP then patch_tcpmss (tunof s t) b2 len else b2)"
  have low: "length b3 = length b2" "\<And>i. i < 36 \<Longrightarrow> b3 ! i = b2 ! i"
    unfolding b3_def using tcpmss_low [of len b2] f(1) len by auto
  have b3: "sub b3 12 4 = sub b2 12 4" "sub b3 20 2 = sub b2 20 2" "b3 ! 22 = b ! 22" "b3 ! 23 = b ! 23"
    using low f(1,4) len by (auto intro!: nth_equalityI simp: nth_sub)
  have nf: "\<not> (b3 ! 22 = 0 \<and> b3 ! Suc 22 = 21)" "\<not> (n_sport ?e ! 0 = 0 \<and> n_sport ?e ! 1 = 21)"
    using p len e(5) b3 by (auto simp: plain_packet_def l4_packet_def not_ftp_def nth_sub)
  have plain: "b3 = b2" if "no_syn b"
  proof (cases "n_proto ?e = IPTCP")
    case True
    then have "b2 ! 33 = b ! 33"
      using nat_rewrite_flags [OF True e(2), of b 12 20 "(n_src ?e, n_nsrc ?e)" "(n_sport ?e, n_nport ?e)"] e(3,4) pr
      by (simp add: b2_def rewrite_in_def)
    then show ?thesis using no_syn_patch [OF _ that] True e(1) by (simp add: b3_def)
  qed (simp add: b3_def)
  have "b1 = b3 \<and> same_flows s s1"
  proof (cases "n_proto ?e = IPTCP")
    case True
    then have b3': "b3 = patch_tcpmss (tunof s t) b2 len" by (simp add: b3_def)
    obtain r s2 where t: "tcpstate_in cfg (b3 ! TCPFLAGS) n s = (r, s2)" by fastforce
    have sf: "same_flows s s2" by (rule tcpstate_in_flows [OF t])
    have "b1 = b3 \<and> s1 = (if r then s2 else bump_timeout (nat_lifetime cfg ! 4) n s2)"
      using run True nf n t by (auto simp: natin_got_def Let_def b2_def [symmetric] b3' [symmetric])
    then show ?thesis using sf by (auto intro!: same_flows_intros)
  next
    case False
    then have "b1 = b3 \<and> s1 = bump_timeout (nat_lifetime cfg ! 4) n s"
      using run by (auto simp: natin_got_def Let_def b2_def [symmetric] b3_def)
    then show ?thesis by (auto intro!: same_flows_intros)
  qed
  then show ?thesis using f b3 low plain b2_def by auto
qed

text \<open>The entry is the flow of the packet; its port is of the range of a pool.\<close>

definition flow_of :: "tid \<Rightarrow> bytes \<Rightarrow> nat_entry \<Rightarrow> bool" where
  "flow_of t b e \<longleftrightarrow> n_tunnel e = t \<and> n_proto e = b ! IPPROTO \<and> n_src e = sub b IPSRC 4 \<and> n_sport e = sub b IPSPORT 2 \<and>
     n_dst e = sub b IPDST 4 \<and> n_dport e = sub b IPDPORT 2 \<and> n_flags e = MATCH_PORT \<and> n_generation e = 0"

definition owned_port :: "aftr \<Rightarrow> nid \<Rightarrow> bool" where
  "owned_port s n \<longleftrightarrow> (\<exists>i P. pool_at s i = Some P \<and> pool_addr P = sub (n_nsrc (natof s n)) 0 4 \<and>
     in_range P (pr_of_proto (n_proto (natof s n))) (nport_of (natof s n)))"

lemma owned_alone:
  assumes inv: "port_inv s" and n: "nats s n \<noteq> None" "owned_port s n" and m: "nats s m \<noteq> None" "m \<noteq> n"
  shows "\<not> same_port (natof s n) (natof s m)"
proof
  assume sp: "same_port (natof s n) (natof s m)"
  obtain i P where P: "pool_at s i = Some P" "pool_addr P = sub (n_nsrc (natof s n)) 0 4"
    "in_range P (pr_of_proto (n_proto (natof s n))) (nport_of (natof s n))" using n(2) by (auto simp: owned_port_def)
  have "holds_port i P (tun_ports s) (nat_port s) (pr_of_proto (n_proto (natof s n))) (nport_of (natof s n)) (InEntry n)"
    "holds_port i P (tun_ports s) (nat_port s) (pr_of_proto (n_proto (natof s n))) (nport_of (natof s n)) (InEntry m)"
    using n(1) m(1) P(2) sp by (auto simp: nat_port_def natof_def same_port_def nport_of_def)
  then have "InEntry n = InEntry m" using ports_okD(6) [OF inv [unfolded port_inv_def] P(1,3)] by blast
  then show False using m(2) by simp
qed

lemma splay_wild_flow:
  assumes b: "b ! IPPROTO = IPTCP \<or> b ! IPPROTO = IPUDP" "28 \<le> length b" and e: "key_ok e" "n_flags e = MATCH_PORT" "n_generation e = 0"
    and t: "n_tunnel e = t" and z: "nat_splay_compare_wild (in_key t b) e = 0"
  shows "flow_of t b e"
proof -
  have k: "n_tunnel (in_key t b) = t" "n_proto (in_key t b) = b ! IPPROTO" "n_src (in_key t b) = sub b IPSRC 4"
    "n_sport (in_key t b) = sub b IPSPORT 2" "n_dst (in_key t b) = sub b IPDST 4" "n_dport (in_key t b) = sub b IPDPORT 2"
    "n_flags (in_key t b) = MATCH_PORT"
    using b(1) by (auto simp: in_key_def Let_def)
  have l: "length (sub b IPSRC 4) = 4" "length (sub b IPDST 4) = 4" "length (sub b IPSPORT 2) = 2" "length (sub b IPDPORT 2) = 2"
    using b(2) by simp_all
  have el: "length (n_src e) = 4" "length (n_dst e) = 4" "length (n_sport e) = 2" "length (n_dport e) = 2"
    using e(1) by (simp_all add: key_ok_def)
  have "b ! IPPROTO = n_proto e \<and> sub b IPSRC 4 = n_src e \<and> sub b IPSPORT 2 = n_sport e \<and> cmp_dest_wild (in_key t b) e = 0"
    using z t cmp_byte_cases(3) cmp_field_cases(3) [OF l(1) el(1)] cmp_field_cases(6) [OF l(3) el(3)]
    unfolding nat_splay_compare_wild_def k by (simp add: cmp_tunnel_def)
  moreover from this have "sub b IPDST 4 = n_dst e \<and> sub b IPDPORT 2 = n_dport e"
    using e(2) cmp_field_cases(3) [OF l(2) el(2)] cmp_field_cases(6) [OF l(4) el(4)]
    unfolding cmp_dest_wild_def k by simp
  ultimately show ?thesis using e t by (simp add: flow_of_def)
qed

lemma new_entry_flow:
  assumes "b ! IPPROTO = IPTCP \<or> b ! IPPROTO = IPUDP" "28 \<le> length b" "length addr = 4" "t < 2 ^ 31" "b ! IPDST \<noteq> 0"
  shows "flow_of t b (new_entry cfg t addr b s)" "key_ok (new_entry cfg t addr b s)" "n_nsrc (new_entry cfg t addr b s) = addr"
proof -
  have "sub b IPDST 4 ! 0 \<noteq> 0" using assms(2,5) by (simp add: nth_sub)
  then show "flow_of t b (new_entry cfg t addr b s)" "key_ok (new_entry cfg t addr b s)" "n_nsrc (new_entry cfg t addr b s) = addr"
    using assms by (auto simp: new_entry_def Let_def flow_of_def key_ok_def nat_zero_def)
qed

lemma flow_of_key: "flow_key e' = flow_key e \<Longrightarrow> flow_of t b e' = flow_of t b e"
  by (simp add: flow_of_def flow_key_def)

lemma same_port_key: "flow_key a' = flow_key a \<Longrightarrow> flow_key b' = flow_key b \<Longrightarrow> same_port a' b' = same_port a b"
  by (simp add: same_port_def flow_key_def)

definition reply_entry :: "tid \<Rightarrow> bytes \<Rightarrow> bytes \<Rightarrow> aftr \<Rightarrow> nid \<Rightarrow> bool" where
  "reply_entry t b b1 s n \<longleftrightarrow> flow_inv s \<and> n \<in> active s (pr_of_packet (b ! IPPROTO)) \<and> flow_of t b (natof s n) \<and>
     (\<forall>m p. m \<in> active s p \<longrightarrow> m \<noteq> n \<longrightarrow> \<not> same_port (natof s n) (natof s m)) \<and>
     sub b1 IPSRC 4 = n_nsrc (natof s n) \<and> sub b1 IPSPORT 2 = n_nport (natof s n) \<and>
     length b1 = length b \<and> (\<forall>i < 24. i \<notin> {10..15} \<union> {20, 21} \<longrightarrow> b1 ! i = b ! i) \<and>
     (no_syn b \<longrightarrow> b1 = rewrite_in (natof s n) b)"

lemma rewrite_key: "snd (flow_key e') = snd (flow_key e) \<Longrightarrow> rewrite_in e' b = rewrite_in e b \<and> rewrite_out e' b = rewrite_out e b"
  by (simp add: flow_key_def rewrite_in_def rewrite_out_def nat_rewrite_def Let_def)

lemma natin_got_entry:
  assumes inv: "flow_inv s" "port_inv s" and p: "plain_packet b len"
    and n: "n \<in> active s (pr_of_packet (b ! IPPROTO))" "flow_of t b (natof s n)" "owned_port s n"
    and run: "natin_got cfg mem new junk u n b len s = Some (True, b1, len1, s1)"
  shows "reply_entry t b b1 s1 n"
proof -
  note live = flow_inv_live [OF inv(1)]
  have e: "n_proto (natof s n) = b ! IPPROTO" "n_flags (natof s n) AND MATCH_PORT \<noteq> 0" "n_sport (natof s n) = sub b IPSPORT 2"
    using n(2) by (simp_all add: flow_of_def)
  have l: "length (n_nsrc (natof s n)) = 4" "length (n_nport (natof s n)) = 2" and n0: "n \<noteq> 0" "nats s n \<noteq> None"
    using live [OF n(1)] by (simp_all add: key_ok_def)
  from natin_got_flows [OF p e(1,2) l e(3) n0(1) run]
  have g: "same_flows s s1" "sub b1 IPSRC 4 = n_nsrc (natof s n)" "sub b1 IPSPORT 2 = n_nport (natof s n)" "length b1 = length b"
    "\<forall>i < 24. i \<notin> {10..15} \<union> {20, 21} \<longrightarrow> b1 ! i = b ! i" "no_syn b \<longrightarrow> b1 = rewrite_in (natof s n) b" by blast+
  note act = same_flows_active [OF g(1)]
  have key: "flow_key (natof s1 m) = flow_key (natof s m)" if "m \<in> active s q" for m q
    using same_flows_key [OF g(1) that] live [OF that] by blast
  have alone: "\<not> same_port (natof s1 n) (natof s1 m)" if m: "m \<in> active s1 q" "m \<noteq> n" for m q
  proof -
    have "m \<in> active s q" using m(1) act by simp
    then show ?thesis
      using owned_alone [OF inv(2) n0(2) n(3) _ m(2)] live [of m q] same_port_key [OF key [OF n(1)] key [of m q]] by blast
  qed
  have "flow_of t b (natof s1 n)" using n(2) flow_of_key [OF key [OF n(1)]] by simp
  moreover have "n_nsrc (natof s1 n) = n_nsrc (natof s n)" "n_nport (natof s1 n) = n_nport (natof s n)"
    using key [OF n(1)] by (simp_all add: flow_key_def)
  moreover have "rewrite_in (natof s1 n) b = rewrite_in (natof s n) b" using rewrite_key key [OF n(1)] by metis
  ultimately show ?thesis
    using flow_inv_same [OF inv(1) g(1)] n(1) act alone g unfolding reply_entry_def by metis
qed

lemma natin_flow:
  assumes inv: "flow_inv s" "port_inv s" and T: "tunnels s t = Some T" "t < 2 ^ 31"
    and addr: "\<And>P. pool_at s (t_srcidx T) = Some P \<Longrightarrow> 4 \<le> length (p_addr P)"
    and p: "plain_packet b len" "b ! IPDST \<noteq> 0"
    and new: "nats s (nw 0) = None" "nw 0 \<noteq> 0" "mem 5" "\<And>pr. bucksize cfg pr \<noteq> 0"
    and old: "\<And>n. n \<in> active s (pr_of_packet (b ! IPPROTO)) \<Longrightarrow> n_tunnel (natof s n) = t \<Longrightarrow>
      nat_splay_compare_wild (in_key t b) (natof s n) = 0 \<Longrightarrow>
      n_flags (natof s n) = MATCH_PORT \<and> n_generation (natof s n) = 0 \<and> owned_port s n"
    and run: "natin cfg mem nw junk t b len s = Some (True, b1, len1, s1)"
  shows "\<exists>n. reply_entry t b b1 s1 n"
proof -
  let ?pr = "pr_of_packet (b ! IPPROTO)" and ?k = "in_key t b"
  have proto: "b ! IPPROTO = IPTCP \<or> b ! IPPROTO = IPUDP" "28 \<le> length b" using p(1) by (auto simp: plain_packet_def l4_packet_def)
  have pr: "?pr = pr_of_proto (b ! IPPROTO)" using proto by (auto simp: pr_of_packet_def pr_of_proto_def)
  have kt: "n_tunnel ?k = t" by (simp add: in_key_def Let_def)
  obtain n s2 where look: "splay_lookup nat_splay_compare_wild ?pr ?k s = (n, s2)" by fastforce
  from splay_lookup_flows [OF inv(1) _ look, of T] kt T have s2: "same_flows s s2" "port_same s s2" "nats s2 = nats s"
    and found: "n \<noteq> 0 \<Longrightarrow> n \<in> active s ?pr \<and> n_tunnel (natof s n) = t \<and> nat_splay_compare_wild ?k (natof s n) = 0" by auto
  have nat2: "natof s2 = natof s" by (simp add: natof_def fun_eq_iff s2(3))
  have inv2: "flow_inv s2" "port_inv s2"
    using flow_inv_same [OF inv(1) s2(1)] inv(2) by (simp_all add: port_inv_def port_same_views [OF s2(2)])
  show ?thesis
  proof (cases "n = 0")
    case False
    have "natin_got cfg mem (nw 1) junk t n b len s2 = Some (True, b1, len1, s1)"
      using run look False by (simp add: natin_def Let_def)
    moreover have "flow_of t b (natof s2 n)"
      unfolding nat2 using splay_wild_flow [OF proto] old found [OF False] flow_inv_live [OF inv(1)] by blast
    moreover have "owned_port s2 n"
      using old found [OF False] unfolding owned_port_def nat2 port_same_views(1) [OF s2(2)] by blast
    ultimately show ?thesis
      using natin_got_entry [OF inv2 p(1)] found [OF False] same_flows_active [OF s2(1)] by metis
  next
    case True
    obtain s3 where lim: "rate_limit cfg ?pr t s2 = (None, s3)" using run look True
      by (cases "rate_limit cfg ?pr t s2"; cases "fst (rate_limit cfg ?pr t s2)") (auto simp: natin_def Let_def)
    from rate_limit_flows [OF lim] have s3: "same_flows s2 s3" "port_same s2 s3" "nats s3 = nats s" using s2(3) by simp_all
    have inv3: "flow_inv s3" "port_inv s3"
      using flow_inv_same [OF inv2(1) s3(1)] inv2(2) by (simp_all add: port_inv_def port_same_views [OF s3(2)])
    have act3: "active s3 = active s" using same_flows_active s2(1) s3(1) by metis
    have src: "tun_ports s3 t = tun_ports s t" "pool_at s3 = pool_at s" "pools s3 = pools s"
      using port_same_views [OF s3(2)] port_same_views [OF s2(2)] s2(2) s3(2) by (simp_all add: port_same_def)
    then obtain T3 where T3: "tunnels s3 t = Some T3" "t_srcidx T3 = t_srcidx T" using T by (auto simp: tun_ports_def)
    obtain P where P: "pool_at s3 (t_srcidx T3) = Some P" "poolof s3 (t_srcidx T3) = P"
      using port_inv_tunnel [OF inv3(2) T3(1)] by blast
    have pool: "pools s3 ! t_srcidx (tunof s3 t) = Some P" using P(1) T3(1) by (auto simp: pool_at_def tunof_def split: if_splits)
    define e where "e = new_entry cfg t (sub (p_addr P) 0 4) b s3"
    let ?s3 = "s3\<lparr>nats := (nats s3)(nw 0 \<mapsto> e)\<rparr>"
    have la: "length (sub (p_addr P) 0 4) = 4" using addr [of P] P(1) T3(2) src(2) by simp
    note ne = new_entry_flow [OF proto la T(2) p(2), of cfg s3, folded e_def]
    have et: "n_tunnel e = t" "n_proto e = b ! IPPROTO" using ne(1) by (simp_all add: flow_of_def)
    obtain s4 where nn: "new_nat cfg True (mem 6) (nw 0) ?s3 = Some (True, s4)"
      and got: "natin_got cfg mem (nw 1) junk t (nw 0) b len s4 = Some (True, b1, len1, s1)"
      using run look True lim pool new(3) unfolding natin_def Let_def e_def by (auto split: if_splits option.splits prod.splits)
    have fresh: "nats s3 (nw 0) = None" "nw 0 \<notin> active s3 q" for q
      using new(1) s3(3) flow_inv_live [OF inv3(1), of "nw 0" q] by auto
    have sf: "same_flows s3 ?s3" by (rule sf_forget [OF same_flows_refl]) (use fresh in blast)
    have act: "active ?s3 = active s3" by (rule same_flows_active [OF sf])
    have "sub (n_nsrc e) 0 4 = pool_addr (poolof s3 (t_srcidx T3))"
      using la unfolding ne(3) P(2) pool_addr_def by (simp add: sub_def)
    from new_nat_inv [OF inv3(2) fresh(1) T3(1) [folded et(1)] this new(4) nn]
    obtain q where inv4: "port_inv s4" and q: "nat_port s4 (nw 0) = Some (?pr, pool_addr P, q)" "in_range P ?pr q"
      unfolding P(2) et(2) pr by auto
    from new_nat_flows [OF flow_inv_same [OF inv3(1) sf] _ new(2) _ ne(2) _ nn] act fresh(2) T3(1) et
    obtain x where f4: "flow_inv s4" "length x = 2" "flow_key (natof s4 (nw 0)) = flow_key (e\<lparr>n_nport := x\<rparr>)"
      and a4: "active s4 = (active s3)(?pr := insert (nw 0) (active s3 ?pr))" by (auto simp: pr)
    have "pool_ranges s4 (t_srcidx T3) = Some (pool_addr P, p_minport P, p_maxport P)"
      using new_nat_ranges [OF nn] P(1) by (simp add: pool_ranges_def pool_at_def)
    then obtain P4 where P4: "pool_at s4 (t_srcidx T3) = Some P4" "pool_addr P4 = pool_addr P" "in_range P4 = in_range P"
      by (auto simp: pool_ranges_def in_range_def fun_eq_iff)
    have "owned_port s4 (nw 0)"
      unfolding owned_port_def
      by (intro exI [of _ "t_srcidx T3"] exI [of _ P4]) (use P4 q in \<open>auto simp: nat_port_def natof_def\<close>)
    moreover have "flow_of t b (natof s4 (nw 0))"
      using ne(1) unfolding flow_of_key [OF f4(3)] by (simp add: flow_of_def)
    moreover have "nw 0 \<in> active s4 ?pr" by (simp add: a4)
    ultimately show ?thesis using natin_got_entry [OF f4(1) inv4 p(1) _ _ _ got] by blast
  qed
qed

section \<open>The reply finds the entry\<close>

lemma splay_promote_flows [same_flows_intros]: "same_flows s u \<Longrightarrow> same_flows s (splay_promote pr n u)"
  unfolding splay_promote_def Let_def by (auto intro: sf_reroot)

text \<open>\<open>r\<close> answers the packet \<open>b\<close> that left as \<open>b1\<close>: the two ends are exchanged.\<close>

definition reply_of :: "bytes \<Rightarrow> bytes \<Rightarrow> bytes \<Rightarrow> bool" where
  "reply_of b b1 r \<longleftrightarrow> r ! IPPROTO = b ! IPPROTO \<and> sub r IPSRC 4 = sub b IPDST 4 \<and> sub r IPSPORT 2 = sub b IPDPORT 2 \<and>
     sub r IPDST 4 = sub b1 IPSRC 4 \<and> sub r IPDPORT 2 = sub b1 IPSPORT 2"

lemma natout_reply:
  assumes re: "reply_entry t b b1 s n" and p: "plain_packet b len" "l4_packet r rlen" and r: "reply_of b b1 r"
    and fit: "\<not> too_big (t_mtu (tunof s t)) r rlen"
    and run: "natout cfg mem new r rlen s = (u, r', rlen', s')"
  shows "u = t \<and> rlen' = rlen \<and> sub r' IPDST 4 = sub b IPSRC 4 \<and> sub r' IPDPORT 2 = sub b IPSPORT 2 \<and>
    sub r' IPSRC 4 = sub r IPSRC 4 \<and> sub r' IPSPORT 2 = sub r IPSPORT 2 \<and> (no_syn r \<longrightarrow> r' = rewrite_out (natof s n) r)"
proof -
  let ?pr = "pr_of_packet (r ! IPPROTO)" and ?k = "out_key r" and ?e = "natof s n"
  have inv: "flow_inv s" and n: "n \<in> active s ?pr" and fl: "flow_of t b ?e"
    and alone: "\<And>m p. m \<in> active s p \<Longrightarrow> m \<noteq> n \<Longrightarrow> \<not> same_port ?e (natof s m)"
    and ns: "sub b1 IPSRC 4 = n_nsrc ?e" "sub b1 IPSPORT 2 = n_nport ?e"
    using re r by (auto simp: reply_entry_def reply_of_def)
  have rp: "r ! IPPROTO = IPTCP \<or> r ! IPPROTO = IPUDP" "28 \<le> length r" "rlen \<le> length r" "28 \<le> length b"
    using p by (auto simp: plain_packet_def l4_packet_def)
  have k: "n_proto ?k = r ! IPPROTO" "n_nsrc ?k = sub r IPDST 4" "n_nport ?k = sub r IPDPORT 2" "n_dst ?k = sub r IPSRC 4"
    "n_dport ?k = sub r IPSPORT 2" "n_flags ?k = MATCH_PORT"
    using rp(1) by (auto simp: out_key_def Let_def)
  have sp: "same_port ?k ?e" using k fl ns r by (simp add: same_port_def flow_of_def reply_of_def)
  have wild: "cmp_dest_wild ?k ?e = 0"
    using fl r unfolding cmp_dest_wild_def k by (simp add: flow_of_def reply_of_def cmp_field_cases(2,5))
  have gen: "\<not> (FIRSTGEN \<le> n_generation ?e \<and> n_generation ?e < lastgen s)" using fl by (simp add: flow_of_def)
  obtain m s2 where look: "nat_lookup ?pr ?k s = (m, s2)" by fastforce
  then have m: "m = n" using nat_lookup_owner [OF inv n sp wild alone gen] by simp
  have "length (n_nsrc ?k) = 4" "length (n_nport ?k) = 2" unfolding k using rp(2) by simp_all
  from nat_lookup_flows [OF inv this look]
  have s2: "flow_inv s2" "active s2 = active s" "tunnels s2 = tunnels s"
    "map_option (snd \<circ> flow_key) (nats s2 n) = map_option (snd \<circ> flow_key) (nats s n)" by blast+
  have n0: "n \<noteq> 0" "nats s n \<noteq> None" "key_ok ?e" using flow_inv_live [OF inv n] by auto
  have "snd (flow_key (natof s2 n)) = snd (flow_key ?e)"
    using s2(4) n0(2) by (cases "nats s2 n"; cases "nats s n") (auto simp: natof_def)
  then have k2: "snd (flow_key (natof s2 n)) = snd (flow_key ?e)" .
  then have e2: "n_src (natof s2 n) = n_src ?e" "n_sport (natof s2 n) = n_sport ?e" "n_proto (natof s2 n) = n_proto ?e"
    "n_flags (natof s2 n) = MATCH_PORT" "n_tunnel (natof s2 n) = t"
    using fl by (simp_all add: flow_key_def flow_of_def)
  have fit2: "\<not> too_big (t_mtu (tunof s2 t)) r rlen" using fit s2(3) by (simp add: tunof_def)
  have run2: "natout_rewrite cfg mem new ?pr n r rlen s2 = (u, r', rlen', s')"
    using run fit2 n0(1) unfolding natout_def Let_def look m prod.case e2 by simp
  have l: "length (n_src ?e) = 4" "length (n_sport ?e) = 2" using n0(3) by (simp_all add: key_ok_def)
  have pe: "n_proto ?e = r ! IPPROTO" using fl r by (simp add: flow_of_def reply_of_def)
  define r2 where "r2 = rewrite_out (natof s2 n) r"
  have f: "length r2 = length r" "sub r2 16 4 = n_src ?e" "sub r2 22 2 = n_sport ?e"
    "\<And>i. i < 24 \<Longrightarrow> i \<notin> {10, 11} \<union> {16..19} \<union> {22, 23} \<Longrightarrow> r2 ! i = r ! i"
    using nat_rewrite_fields [of "natof s2 n" r 16 22 "(n_nsrc (natof s2 n), n_src (natof s2 n))" "(n_nport (natof s2 n), n_sport (natof s2 n))"]
      e2 l p(2) pe rp by (auto simp: r2_def rewrite_out_def plain_packet_def l4_packet_def)
  define r3 where "r3 = (if n_proto ?e = IPTCP then patch_tcpmss (tunof s2 t) r2 rlen else r2)"
  have low: "length r3 = length r2" "\<And>i. i < 36 \<Longrightarrow> r3 ! i = r2 ! i"
    unfolding r3_def using tcpmss_low [of rlen r2] f(1) rp by auto
  have r3: "sub r3 16 4 = n_src ?e" "sub r3 22 2 = n_sport ?e" "sub r3 12 4 = sub r 12 4" "sub r3 20 2 = sub r 20 2"
    "r3 ! 20 = r ! 20" "r3 ! 21 = r ! 21"
    using low f(1,4) rp f(2,3) [symmetric] by (auto intro!: nth_equalityI simp: nth_sub)
  have nf: "\<not> (r3 ! 20 = 0 \<and> r3 ! Suc 20 = 21)" "\<not> (n_sport ?e ! 0 = 0 \<and> n_sport ?e ! 1 = 21)"
  proof -
    have "sub b 22 2 = sub r 20 2" using r by (simp add: reply_of_def)
    then have "b ! 22 = r ! 20" "b ! 23 = r ! 21" using rp by (simp_all add: list_eq_iff_nth_eq nth_sub All_less_Suc numeral_2_eq_2)
    then show "\<not> (r3 ! 20 = 0 \<and> r3 ! Suc 20 = 21)" "\<not> (n_sport ?e ! 0 = 0 \<and> n_sport ?e ! 1 = 21)"
      using p(1) fl r3 rp by (auto simp: plain_packet_def not_ftp_def nth_sub flow_of_def)
  qed
  have n2: "n \<in> active s2 ?pr" using n s2(2) by simp
  have tun: "n_tunnel (natof x n) = t" if "same_flows s2 x" for x
    using same_flows_key [OF that n2] flow_inv_live [OF s2(1) n2] e2(5) by (simp add: flow_key_def)
  have "u = t \<and> r' = r3 \<and> rlen' = rlen"
  proof (cases "n_proto ?e = IPTCP")
    case True
    then have b3': "r3 = patch_tcpmss (tunof s2 t) r2 rlen" by (simp add: r3_def)
    obtain c s3 where tc: "tcpstate_out cfg (r3 ! TCPFLAGS) n s2 = (c, s3)" by fastforce
    let ?s4 = "splay_promote ?pr n (if c then s3 else bump_timeout (n_lifetime (natof s3 n)) n s3)"
    have sf: "same_flows s2 ?s4" using tcpstate_out_flows [OF tc] by (auto intro!: same_flows_intros)
    have "u = n_tunnel (natof ?s4 n) \<and> r' = r3 \<and> rlen' = rlen"
      using run2 True nf n0(1) tc e2
      by (auto simp: natout_rewrite_def Let_def r2_def [symmetric] b3' [symmetric])
    then show ?thesis using tun [OF sf] by simp
  next
    case False
    then show ?thesis using run2 e2 by (simp add: natout_rewrite_def Let_def r2_def [symmetric] r3_def)
  qed
  moreover have "r3 = rewrite_out ?e r" if "no_syn r"
  proof -
    have "r3 = r2"
    proof (cases "n_proto ?e = IPTCP")
      case True
      have "r2 ! 33 = r ! 33"
        using nat_rewrite_flags [of "natof s2 n" r 16 22 "(n_nsrc (natof s2 n), n_src (natof s2 n))" "(n_nport (natof s2 n), n_sport (natof s2 n))"]
          e2 l True pe p(2) by (auto simp: r2_def rewrite_out_def l4_packet_def)
      then show ?thesis using no_syn_patch [OF _ that] True pe by (simp add: r3_def)
    qed (simp add: r3_def)
    then show ?thesis using rewrite_key [OF k2] by (simp add: r2_def)
  qed
  ultimately show ?thesis using r3 fl by (simp add: flow_of_def)
qed

section \<open>The round trip\<close>

text \<open>
  Claim C1: what natin sends out comes back. A TCP or UDP packet of a host behind a tunnel (FTP
  control connections apart) leaves with an outer address and port; the answer sent to these is
  translated by natout, which then finds, among the flows of all tunnels, the one entry of the
  packet: the answer goes into the tunnel of the host, to its address and port, from the peer's.
  The flow may be new or have an entry already (then one with a port of a pool).
\<close>

theorem nat_roundtrip:
  assumes inv: "flow_inv s" "port_inv s" and T: "tunnels s t = Some T" "t < 2 ^ 31"
    and addr: "\<And>P. pool_at s (t_srcidx T) = Some P \<Longrightarrow> 4 \<le> length (p_addr P)"
    and p: "plain_packet b len" "b ! IPDST \<noteq> 0"
    and new: "nats s (nw 0) = None" "nw 0 \<noteq> 0" "mem 5" "\<And>pr. bucksize cfg pr \<noteq> 0"
    and old: "\<And>n. n \<in> active s (pr_of_packet (b ! IPPROTO)) \<Longrightarrow> n_tunnel (natof s n) = t \<Longrightarrow>
      nat_splay_compare_wild (in_key t b) (natof s n) = 0 \<Longrightarrow>
      n_flags (natof s n) = MATCH_PORT \<and> n_generation (natof s n) = 0 \<and> owned_port s n"
    and sent: "natin cfg mem nw junk t b len s = Some (True, b1, len1, s1)"
    and r: "l4_packet r rlen" "reply_of b b1 r" "\<not> too_big (t_mtu (tunof s1 t)) r rlen"
    and got: "natout cfg mem' new' r rlen s1 = (u, r', rlen', s2)"
  shows "sub b1 IPDST 4 = sub b IPDST 4 \<and> sub b1 IPDPORT 2 = sub b IPDPORT 2 \<and>
    u = t \<and> rlen' = rlen \<and> sub r' IPDST 4 = sub b IPSRC 4 \<and> sub r' IPDPORT 2 = sub b IPSPORT 2 \<and>
    sub r' IPSRC 4 = sub r IPSRC 4 \<and> sub r' IPSPORT 2 = sub r IPSPORT 2"
proof -
  obtain n where re: "reply_entry t b b1 s1 n" using natin_flow [where nw = nw and mem = mem, OF inv T addr p new old sent] by blast
  have "28 \<le> length b" "length b1 = length b" "\<forall>i < 24. i \<notin> {10..15} \<union> {20, 21} \<longrightarrow> b1 ! i = b ! i"
    using p(1) re by (auto simp: plain_packet_def l4_packet_def reply_entry_def)
  then have "sub b1 IPDST 4 = sub b IPDST 4" "sub b1 IPDPORT 2 = sub b IPDPORT 2"
    by (auto intro!: nth_equalityI simp: nth_sub)
  then show ?thesis using natout_reply [OF re p(1) r(1,2,3) got] by blast
qed

text \<open>
  Claim C11: on a flow that is not FTP and for segments without SYN, both translations keep the
  checksums. Under the hypotheses of the round trip (which leave out the FTP control port), when
  neither the packet nor the answer is a TCP segment with SYN, the header checksum and the TCP or
  UDP checksum of both are valid after the translation if they were before it; a UDP packet
  without a checksum stays without one. A SYN is left out because its MSS option may be patched,
  and the patch spoils the checksum of a segment whose option starts at an odd offset.
\<close>

theorem nat_checksums:
  assumes inv: "flow_inv s" "port_inv s" and T: "tunnels s t = Some T" "t < 2 ^ 31"
    and addr: "\<And>P. pool_at s (t_srcidx T) = Some P \<Longrightarrow> 4 \<le> length (p_addr P)"
    and p: "plain_packet b len" "b ! IPDST \<noteq> 0"
    and new: "nats s (nw 0) = None" "nw 0 \<noteq> 0" "mem 5" "\<And>pr. bucksize cfg pr \<noteq> 0"
    and old: "\<And>n. n \<in> active s (pr_of_packet (b ! IPPROTO)) \<Longrightarrow> n_tunnel (natof s n) = t \<Longrightarrow>
      nat_splay_compare_wild (in_key t b) (natof s n) = 0 \<Longrightarrow>
      n_flags (natof s n) = MATCH_PORT \<and> n_generation (natof s n) = 0 \<and> owned_port s n"
    and sent: "natin cfg mem nw junk t b len s = Some (True, b1, len1, s1)"
    and r: "l4_packet r rlen" "reply_of b b1 r" "\<not> too_big (t_mtu (tunof s1 t)) r rlen"
    and got: "natout cfg mem' new' r rlen s1 = (u, r', rlen', s2)"
    and whole: "ip_whole b len" "ip_whole r rlen" and syn: "no_syn b" "no_syn r" and ck: "cksums_ok b len" "cksums_ok r rlen"
  shows "cksums_ok b1 len \<and> cksums_ok r' rlen'"
proof -
  obtain n where re: "reply_entry t b b1 s1 n" using natin_flow [where nw = nw and mem = mem, OF inv T addr p new old sent] by blast
  let ?e = "natof s1 n"
  have fl: "flow_of t b ?e" and b1: "b1 = rewrite_in ?e b" and k: "key_ok ?e"
    and src: "sub b1 IPSRC 4 = n_nsrc ?e" "sub b1 IPSPORT 2 = n_nport ?e"
    using re syn flow_inv_live [of s1 n "pr_of_packet (b ! IPPROTO)"] by (auto simp: reply_entry_def)
  have out: "r' = rewrite_out ?e r" "rlen' = rlen" using natout_reply [OF re p(1) r got] syn by blast+
  have l: "length (n_src ?e) = 4" "length (n_sport ?e) = 2" "length (n_nsrc ?e) = 4" "length (n_nport ?e) = 2"
    using k by (simp_all add: key_ok_def)
  have po: "packet_of ?e b len" "packet_of ?e r rlen"
    using p(1) r(1,2) fl whole by (auto simp: packet_of_def plain_packet_def l4_packet_def flow_of_def ip_whole_def reply_of_def)
  have np: "n_proto ?e \<noteq> IPICMP" using po(1) p(1) by (auto simp: packet_of_def plain_packet_def l4_packet_def)
  have "cksums_ok (rewrite_in ?e b) len"
    unfolding rewrite_in_def using fl l np by (intro nat_rewrite_valid [OF po(1) ck(1), THEN conjunct1]) (auto simp: flow_of_def)
  moreover have "cksums_ok (rewrite_out ?e r) rlen"
    unfolding rewrite_out_def using fl l np r(2) src
    by (intro nat_rewrite_valid [OF po(2) ck(2), THEN conjunct1]) (auto simp: flow_of_def reply_of_def)
  ultimately show ?thesis using b1 out by simp
qed

text \<open>The first packet through the tunnel of the one port pool.\<close>

lemma new_nat_first:
  assumes T: "tunnels s t = Some T" "t_avail T TCPPR = 0" "t_srcidx T = 0" "t_tnat_root T TCPPR = Leaf"
    and s: "pools s = [Some port_pool]" "nat_heap s = []" "nat_heap_last s = 0" "nat_tree s TCPPR = RbNil"
    and e: "nats s n = Some e" "n_tunnel e = t" "n_proto e = IPTCP"
  shows "\<exists>s'. new_nat default_config True True n s = Some (True, s')"
proof -
  have ne: "natof s n = e" and tn: "tunof s t = T" and pl: "poolof s 0 = port_pool"
    using e T s by (simp_all add: natof_def tunof_def poolof_def)
  have b: "unat (bucksize default_config TCPPR) = 10" by (simp add: default_config_def)
  have pr: "pr_of_proto IPTCP = TCPPR" by (simp add: pr_of_proto_def)
  define s2 where "s2 = upd_pool 0 (\<lambda>ns. ns\<lparr>p_freebm := (p_freebm ns)(TCPPR := Some [0])\<rparr>)
       (upd_tunnel t (\<lambda>t. t\<lparr>t_bucket := (t_bucket t)(TCPPR := Some ((replicate 10 0)[0 := 2000])),
          t_avail := (t_avail t)(TCPPR := 1)\<rparr>) (s\<lparr>arc4 := arc4 s\<rparr>))"
  have f: "fill_bucket default_config True t IPTCP s = Some s2"
    unfolding fill_bucket_def Let_def pr tn T(3) pl b port_pool_facts option.case port_fill s2_def
    by simp
  define s3 where "s3 = upd_pool 0 (\<lambda>ns. ns\<lparr>p_natcnt := (p_natcnt ns)(TCPPR := p_natcnt ns TCPPR + 1)\<rparr>)
    (upd_nat n (\<lambda>e. e\<lparr>n_nport := [hi8 (uint (2000 :: u16)), lo8 (uint (2000 :: u16))]\<rparr>)
      (upd_tunnel t (\<lambda>t. t\<lparr>t_avail := (t_avail t)(TCPPR := 0)\<rparr>) s2))"
  have "t_bucket (tunof s2 t) TCPPR = Some ((replicate 10 0)[0 := 2000])" "t_avail (tunof s2 t) TCPPR = 1"
    using T by (simp_all add: tunof_def s2_def upd_tunnel_def upd_pool_def)
  moreover have "unat (isc_decr_u8 1) = 0" "isc_decr_u8 1 = 0" by (simp_all add: isc_decr_u8_def)
  ultimately have "new_nat default_config True True n s = Some (link_nat default_config True n s3)"
    unfolding new_nat_def Let_def ne e pr tn T(2,3) by (simp add: f s3_def)
  moreover have "fst (link_nat default_config True n s3)"
    by (rule link_nat_fresh [where pr = TCPPR and e = "e\<lparr>n_nport := [hi8 (uint (2000 :: u16)), lo8 (uint (2000 :: u16))]\<rparr>"])
      (use T s e pr in \<open>simp_all add: s3_def s2_def upd_pool_def upd_nat_def upd_tunnel_def tunof_def\<close>)
  ultimately show ?thesis by (metis prod.collapse)
qed

lemma natin_got_returns:
  assumes p: "plain_packet b len" and e: "n_proto (natof s n) = IPTCP" "b ! IPPROTO = IPTCP" "n_flags (natof s n) AND MATCH_PORT \<noteq> 0"
    "length (n_nsrc (natof s n)) = 4" "length (n_nport (natof s n)) = 2" "n_sport (natof s n) = sub b IPSPORT 2"
    and n: "n \<noteq> 0"
  shows "\<exists>b1 s1. natin_got cfg mem new junk t n b len s = Some (True, b1, len, s1)"
proof -
  let ?e = "natof s n" let ?b = "patch_tcpmss (tunof s t) (rewrite_in ?e b) len"
  have l: "40 \<le> length b" "len \<le> length b" using p e(2) by (auto simp: plain_packet_def l4_packet_def)
  have f: "length (rewrite_in ?e b) = length b" "rewrite_in ?e b ! 22 = b ! 22" "rewrite_in ?e b ! 23 = b ! 23"
    using nat_rewrite_fields [of ?e b 12 20 "(n_src ?e, n_nsrc ?e)" "(n_sport ?e, n_nport ?e)"] e l
    by (auto simp: rewrite_in_def)
  have "?b ! 22 = b ! 22" "?b ! 23 = b ! 23" using tcpmss_low(2) [of len "rewrite_in ?e b"] f l by auto
  then have nf: "\<not> (?b ! 22 = 0 \<and> ?b ! Suc 22 = 21)" "\<not> (n_sport ?e ! 0 = 0 \<and> n_sport ?e ! 1 = 21)"
    using p l e(6) by (auto simp: plain_packet_def l4_packet_def not_ftp_def nth_sub)
  obtain c s3 where tc: "tcpstate_in cfg (?b ! TCPFLAGS) n s = (c, s3)" by fastforce
  show ?thesis using nf n tc e(1) by (auto simp: natin_got_def Let_def)
qed

definition trip_packet :: bytes where
  "trip_packet = (replicate 40 0)[0 := 69, 3 := 40, 8 := 64, 9 := 6, 10 := 170, 11 := 192, 12 := 10, 15 := 9, 16 := 198,
     19 := 7, 20 := 4, 23 := 80, 32 := 80, 33 := 16, 36 := 219, 37 := 116]"

text \<open>The answer to the outer address and port 2000.\<close>

definition trip_answer :: bytes where
  "trip_answer = (replicate 40 0)[0 := 69, 3 := 40, 8 := 64, 9 := 6, 10 := 242, 11 := 199, 12 := 198, 15 := 7, 16 := 192,
     18 := 2, 19 := 1, 21 := 80, 22 := 7, 23 := 208, 32 := 80, 33 := 16, 36 := 31, 37 := 172]"

lemma trip_packet_facts: "length trip_packet = 40" "l4_packet trip_packet 40" "plain_packet trip_packet 40" "trip_packet ! IPDST \<noteq> 0"
  "trip_packet ! IPPROTO = IPTCP" "no_syn trip_packet" "ip_whole trip_packet 40"
  by (simp_all add: trip_packet_def l4_packet_def plain_packet_def not_ftp_def nth_sub no_syn_def ip_whole_def)

lemma trip_cksums: "cksums_ok trip_packet 40" "cksums_ok trip_answer 40"
  by code_simp+

lemma trip_answer_facts:
  assumes "sub b1 IPSRC 4 = port_addr" "sub b1 IPSPORT 2 = [7, 208]"
  shows "l4_packet trip_answer 40" "reply_of trip_packet b1 trip_answer" "\<not> too_big m trip_answer 40"
    "no_syn trip_answer" "ip_whole trip_answer 40"
proof -
  have "sub trip_answer IPSRC 4 = sub trip_packet IPDST 4" "sub trip_answer IPSPORT 2 = sub trip_packet IPDPORT 2"
    "sub trip_answer IPDST 4 = port_addr" "sub trip_answer IPDPORT 2 = [7, 208]" by code_simp+
  then show "reply_of trip_packet b1 trip_answer"
    unfolding reply_of_def assms by (simp add: trip_packet_facts) (simp add: trip_answer_def)
qed (simp_all add: trip_answer_def l4_packet_def too_big_def no_syn_def ip_whole_def)

lemma trip_inv: "flow_inv port_state" "port_inv port_state" "active port_state pr = {}"
proof -
  show "port_inv port_state" by (rule port_reach_inv [OF port_state_reached default_bucksize])
  show a: "active port_state pr = {}" for pr by (simp add: active_def port_state_pools)
  have h: "nathash port_state = (\<lambda>h. 0)" "nathashsz port_state = 1024"
    by (simp_all add: port_state_def limit_port_def find_pool_def aftr0_def add_pool_def Let_def upd_pool_def)
  show "flow_inv port_state"
    unfolding flow_inv_def a using h
    by (auto simp: port_state_pools port_tunnel_def ordered_by_def rb_ok_def)
qed

lemma trip_sent:
  "\<exists>b1 s1. natin default_config (\<lambda>k. True) (\<lambda>k. 5) [] 3 trip_packet 40 port_state = Some (True, b1, 40, s1) \<and>
     sub b1 IPSRC 4 = port_addr \<and> sub b1 IPSPORT 2 = [7, 208]"
proof -
  let ?s2 = "put_root 3 TCPPR Leaf port_state"
  have pr: "pr_of_packet (trip_packet ! IPPROTO) = TCPPR" by (simp add: trip_packet_facts pr_of_packet_def)
  have k: "n_tunnel (in_key 3 trip_packet) = 3" by (simp add: in_key_def Let_def)
  have look: "splay_lookup nat_splay_compare_wild TCPPR (in_key 3 trip_packet) port_state = (0, ?s2)"
    by (simp add: splay_lookup_def Let_def k tunof_def port_state_pools port_tunnel_def nat_splay_find_def nat_splay_find_root_def
        nat_splay_splay_def nat_splay_assemble_def)
  define T2 where "T2 = port_tunnel\<lparr>t_tnatrt := (\<lambda>p. 0)(TCPPR := 1)\<rparr>"
  have sec: "seconds port_state = 0"
    by (simp add: port_state_def limit_port_def find_pool_def aftr0_def add_pool_def Let_def upd_pool_def)
  have t2: "tunof ?s2 3 = port_tunnel" "seconds ?s2 = 0"
    using sec by (simp_all add: put_root_def upd_tunnel_def tunof_def port_state_pools) (simp add: port_tunnel_def fun_eq_iff)
  define s3 where "s3 = upd_tunnel 3 (\<lambda>e. e\<lparr>t_tnatrt := (t_tnatrt e)(TCPPR := t_tnatrt e TCPPR + 1)\<rparr>) ?s2"
  have T3: "tunnels s3 3 = Some T2"
    by (simp add: s3_def upd_tunnel_def put_root_def port_state_pools T2_def) (simp add: port_tunnel_def fun_eq_iff)
  have lim: "rate_limit default_config TCPPR 3 ?s2 = (None, s3)"
    unfolding rate_limit_def t2 Let_def s3_def [symmetric]
    using T3 by (simp add: tunof_def T2_def default_config_def port_tunnel_def word_le_nat_alt)
  have f3: "pools s3 = [Some port_pool]" "nat_heap s3 = []" "nat_heap_last s3 = 0" "nat_tree s3 = (\<lambda>pr. RbNil)" "nats s3 = Map.empty"
    by (simp_all add: s3_def upd_tunnel_def put_root_def port_state_pools)
  have T2: "t_avail T2 TCPPR = 0" "t_srcidx T2 = 0" "t_tnat_root T2 TCPPR = Leaf" "tunof s3 3 = T2"
    using T3 by (simp_all add: T2_def port_tunnel_def tunof_def)
  have sf: "same_flows port_state s3"
    using splay_lookup_flows [OF trip_inv(1) _ look] rate_limit_flows [OF lim] same_flows_trans k by (auto simp: port_state_pools)
  have inv3: "flow_inv s3" and act: "active s3 pr = {}" for pr
    using flow_inv_same [OF trip_inv(1) sf] same_flows_active [OF sf] trip_inv(3) by simp_all
  define e where "e = new_entry default_config 3 (sub (p_addr port_pool) 0 4) trip_packet s3"
  have proto: "trip_packet ! IPPROTO = IPTCP \<or> trip_packet ! IPPROTO = IPUDP" "28 \<le> length trip_packet"
    "length (sub (p_addr port_pool) 0 4) = 4" "(3 :: nat) < 2 ^ 31"
    by (simp_all add: trip_packet_facts port_pool_facts) (simp add: port_addr_def sub_def)
  note ne = new_entry_flow [OF proto trip_packet_facts(4), of default_config s3, folded e_def]
  have et: "n_tunnel e = 3" "n_proto e = IPTCP" using ne(1) trip_packet_facts(5) by (simp_all add: flow_of_def)
  let ?s3 = "s3\<lparr>nats := (nats s3)(5 \<mapsto> e)\<rparr>"
  obtain s4 where nn: "new_nat default_config True True 5 ?s3 = Some (True, s4)"
    using new_nat_first [of ?s3 3 T2 5 e] T3 T2 f3 et by auto
  have sf3: "same_flows s3 ?s3" by (rule sf_forget [OF same_flows_refl]) (simp add: act)
  from new_nat_flows [OF flow_inv_same [OF inv3 sf3] _ _ _ ne(2) _ nn] same_flows_active [OF sf3] act T3 et
  obtain x where "length x = 2" "flow_key (natof s4 5) = flow_key (e\<lparr>n_nport := x\<rparr>)" by auto
  then have x: "n_nport (natof s4 5) = x" "length x = 2" "n_nsrc (natof s4 5) = port_addr" and e4: "n_proto (natof s4 5) = IPTCP" "n_flags (natof s4 5) AND MATCH_PORT \<noteq> 0" "length (n_nsrc (natof s4 5)) = 4"
    "length (n_nport (natof s4 5)) = 2" "n_sport (natof s4 5) = sub trip_packet IPSPORT 2"
    using ne et proto(3) by (auto simp: flow_key_def flow_of_def port_pool_facts) (simp add: port_addr_def sub_def)
  have ps: "port_same port_state s3"
    using splay_lookup_flows [OF trip_inv(1) _ look] rate_limit_flows [OF lim] k by (auto simp: port_state_pools port_same_def)
  have "port_inv s3" using trip_inv(2) by (simp add: port_inv_def port_same_views [OF ps])
  have pa: "pool_addr (poolof s3 (t_srcidx T2)) = port_addr" "poolof s3 (t_srcidx T2) = port_pool" "sub (n_nsrc e) 0 4 = port_addr"
    using f3 T2 unfolding ne(3) by (simp_all add: poolof_def pool_addr_def port_pool_facts) (simp_all add: port_addr_def sub_def)
  from new_nat_inv [OF \<open>port_inv s3\<close>, of 5 e T2 default_config True True s4] nn f3(5) T3 et default_bucksize
  have "nat_port s4 5 = Some (TCPPR, port_addr, 2000)"
    by (auto simp: pa pa(1) [unfolded pa(2)] in_range_def pr_of_proto_def port_pool_facts)
  then have "nport_of (natof s4 5) = 2000" by (auto simp: nat_port_def natof_def)
  then have "be16 (x ! 0) (x ! 1) = 2000" using x(1) by (simp add: nport_of_def)
  then have "x ! 0 = hi8 2000" "x ! 1 = lo8 2000" using hi8_be16 [of "x ! 0" "x ! 1"] lo8_be16 [of "x ! 0" "x ! 1"] by simp_all
  then have "x = [7, 208]" using length2 [OF x(2)] by (simp add: hi8_def lo8_def)
  obtain b1 s1 where "natin_got default_config (\<lambda>k. True) 5 [] 3 5 trip_packet 40 s4 = Some (True, b1, 40, s1)"
    using natin_got_returns [OF trip_packet_facts(3) e4(1) trip_packet_facts(5) e4(2-5)] by (metis zero_neq_numeral)
  moreover from natin_got_flows [OF trip_packet_facts(3) _ e4(2-5) _ this]
  have "sub b1 IPSRC 4 = port_addr \<and> sub b1 IPSPORT 2 = [7, 208]" using e4(1) x \<open>x = [7, 208]\<close> by (simp add: trip_packet_facts(5))
  moreover have "pools s3 ! t_srcidx (tunof s3 3) = Some port_pool" using f3 T2 by simp
  ultimately show ?thesis
    unfolding natin_def Let_def pr look using lim nn by (simp add: e_def)
qed

lemma trip_hyps:
  "tunnels port_state 3 = Some port_tunnel" "(3 :: nat) < 2 ^ 31" "nats port_state 5 = None"
  "\<And>P. pool_at port_state (t_srcidx port_tunnel) = Some P \<Longrightarrow> 4 \<le> length (p_addr P)"
  by (auto simp: pool_at_def port_state_pools port_pool_facts port_addr_def split: if_splits)

theorem nat_roundtrip_witness:
  "\<exists>b1 s1 r' s2. natin default_config (\<lambda>k. True) (\<lambda>k. 5) [] 3 trip_packet 40 port_state = Some (True, b1, 40, s1) \<and>
     natout default_config (\<lambda>k. True) 6 trip_answer 40 s1 = (3, r', 40, s2) \<and>
     sub r' IPDST 4 = [10, 0, 0, 9] \<and> sub r' IPDPORT 2 = [4, 0]"
proof -
  obtain b1 s1 where run: "natin default_config (\<lambda>k. True) (\<lambda>k. 5) [] 3 trip_packet 40 port_state = Some (True, b1, 40, s1)"
    and b1: "sub b1 IPSRC 4 = port_addr" "sub b1 IPSPORT 2 = [7, 208]"
    using trip_sent by blast
  obtain u r' rl s2 where out: "natout default_config (\<lambda>k. True) 6 trip_answer 40 s1 = (u, r', rl, s2)"
    by (cases "natout default_config (\<lambda>k. True) 6 trip_answer 40 s1")
  from nat_roundtrip [OF trip_inv(1,2) trip_hyps(1,2,4) trip_packet_facts(3,4) trip_hyps(3) _ _ default_bucksize _ run
      trip_answer_facts(1-3) [OF b1] out]
  have "u = 3 \<and> rl = 40 \<and> sub r' IPDST 4 = sub trip_packet IPSRC 4 \<and> sub r' IPDPORT 2 = sub trip_packet IPSPORT 2"
    using trip_inv(3) by auto
  moreover have "sub trip_packet IPSRC 4 = [10, 0, 0, 9]" "sub trip_packet IPSPORT 2 = [4, 0]"
    by code_simp+
  ultimately show ?thesis using run out by auto
qed

theorem nat_checksums_witness:
  "\<exists>b1 s1 r' s2. natin default_config (\<lambda>k. True) (\<lambda>k. 5) [] 3 trip_packet 40 port_state = Some (True, b1, 40, s1) \<and>
     cksums_ok b1 40 \<and> (\<exists>u l. natout default_config (\<lambda>k. True) 6 trip_answer 40 s1 = (u, r', l, s2) \<and> cksums_ok r' l)"
proof -
  obtain b1 s1 where run: "natin default_config (\<lambda>k. True) (\<lambda>k. 5) [] 3 trip_packet 40 port_state = Some (True, b1, 40, s1)"
    and b1: "sub b1 IPSRC 4 = port_addr" "sub b1 IPSPORT 2 = [7, 208]"
    using trip_sent by blast
  obtain u r' rl s2 where out: "natout default_config (\<lambda>k. True) 6 trip_answer 40 s1 = (u, r', rl, s2)"
    by (cases "natout default_config (\<lambda>k. True) 6 trip_answer 40 s1")
  from nat_checksums [OF trip_inv(1,2) trip_hyps(1,2,4) trip_packet_facts(3,4) trip_hyps(3) _ _ default_bucksize _ run
      trip_answer_facts(1-3) [OF b1] out trip_packet_facts(7) trip_answer_facts(5) [OF b1] trip_packet_facts(6)
      trip_answer_facts(4) [OF b1] trip_cksums]
  have "cksums_ok b1 40 \<and> cksums_ok r' rl" using trip_inv(3) by auto
  then show ?thesis using run out by blast
qed

section \<open>The structures agree in every reachable state\<close>

text \<open>
  The operations of the daemon on flows: making a pool and a tunnel, making and deleting an
  entry, the two lookups, and what a packet does to the entry it belongs to.
\<close>

inductive flow_step :: "config \<Rightarrow> aftr \<Rightarrow> aftr \<Rightarrow> bool" for cfg :: config where
  pool: "limit_port cfg mem addr proto lo hi s = (r, s') \<Longrightarrow> flow_step cfg s s'"
| tunnel: "tunnels s t = None \<Longrightarrow> t_tnat_root T = (\<lambda>pr. Leaf) \<Longrightarrow> flow_step cfg s (s\<lparr>tunnels := (tunnels s)(t \<mapsto> T)\<rparr>)"
| create: "nats s n = None \<Longrightarrow> n \<noteq> 0 \<Longrightarrow> key_ok e \<Longrightarrow> tunnels s (n_tunnel e) \<noteq> None \<Longrightarrow>
    new_nat cfg m1 m2 n (s\<lparr>nats := (nats s)(n \<mapsto> e)\<rparr>) = Some (r, s') \<Longrightarrow> flow_step cfg s s'"
| delete: "n \<in> active s pr \<Longrightarrow> flow_step cfg s (del_nat cfg n k s)"
| look_in: "tunnels s (n_tunnel k) \<noteq> None \<Longrightarrow> splay_lookup cmp pr k s = (n, s') \<Longrightarrow> flow_step cfg s s'"
| look_out: "length (n_nsrc k) = 4 \<Longrightarrow> length (n_nport k) = 2 \<Longrightarrow> nat_lookup pr k s = (n, s') \<Longrightarrow> flow_step cfg s s'"
| limit: "rate_limit cfg pr t s = (r, s') \<Longrightarrow> flow_step cfg s s'"
| tcp_in: "tcpstate_in cfg flags n s = (r, s') \<Longrightarrow> flow_step cfg s s'"
| tcp_out: "tcpstate_out cfg flags n s = (r, s') \<Longrightarrow> flow_step cfg s s'"
| bump: "flow_step cfg s (bump_timeout life n s)"
| promote: "flow_step cfg s (splay_promote pr n s)"

lemma limit_port_flows: "limit_port cfg mem addr proto lo hi s = (r, s') \<Longrightarrow> same_flows s s'"
  by (auto simp: limit_port_def add_pool_def Let_def upd_pool_def same_flows_def split: option.splits if_splits)

lemma new_tunnel_flows:
  assumes inv: "flow_inv s" and t: "tunnels s t = None" "t_tnat_root T = (\<lambda>pr. Leaf)"
  shows "flow_inv (s\<lparr>tunnels := (tunnels s)(t \<mapsto> T)\<rparr>)"
proof -
  let ?s = "s\<lparr>tunnels := (tunnels s)(t \<mapsto> T)\<rparr>"
  have f: "active ?s = active s" "natof ?s = natof s" "nats ?s = nats s" "nathash ?s = nathash s" "nathashsz ?s = nathashsz s"
    "nat_slot ?s = nat_slot s" "nat_tree ?s = nat_tree s" "tree_cmp_nid ?s = tree_cmp_nid s" "splay_cmp_nid ?s = splay_cmp_nid s"
    by (simp_all add: active_def natof_def nat_slot_def tree_cmp_nid_def splay_cmp_nid_def fun_eq_iff)
  have "(\<exists>u V. tunnels ?s u = Some V \<and> n \<in> set_tree (t_tnat_root V pr)) = (\<exists>u V. tunnels s u = Some V \<and> n \<in> set_tree (t_tnat_root V pr))" for n pr
  proof -
    have "(\<exists>V. tunnels ?s u = Some V \<and> n \<in> set_tree (t_tnat_root V pr)) = (\<exists>V. tunnels s u = Some V \<and> n \<in> set_tree (t_tnat_root V pr))" for u
      using t by (cases "u = t") auto
    then show ?thesis by (simp only:)
  qed
  note ex = this
  have two: "ordered_by (\<lambda>n. key_ok (natof s n)) (splay_cmp_nid s) (inorder (t_tnat_root V pr)) \<and>
      (\<forall>n \<in> set_tree (t_tnat_root V pr). n_tunnel (natof s n) = u)" if "tunnels ?s u = Some V" for u V pr
    using inv that t unfolding flow_inv_def by (cases "u = t") (auto simp: ordered_by_def)
  show ?thesis
    unfolding flow_inv_def f ex by (intro conjI) (use inv two in \<open>unfold flow_inv_def, blast\<close>)+
qed

lemma flow_step_inv:
  assumes "flow_step cfg s s'" "flow_inv s"
  shows "flow_inv s'"
  using assms
proof (induction rule: flow_step.induct)
  case (create s n e m1 m2 r s')
  have fresh: "n \<notin> active s pr" for pr using create(1) flow_inv_live [OF create(6), of n pr] by auto
  have sf: "same_flows s (s\<lparr>nats := (nats s)(n \<mapsto> e)\<rparr>)" by (rule sf_forget [OF same_flows_refl]) (use fresh in blast)
  have inv: "flow_inv (s\<lparr>nats := (nats s)(n \<mapsto> e)\<rparr>)" by (rule flow_inv_same [OF create(6) sf])
  from new_nat_flows [OF inv _ create(2) _ create(3) _ create(5)] fresh same_flows_active [OF sf] create(4) flow_inv_same [OF inv]
  show ?case by (auto split: if_splits)
next
  case (delete n s pr k)
  then show ?case using del_nat_flows by blast
next
  case (look_in s k cmp pr n s')
  then obtain T where "tunnels s (n_tunnel k) = Some T" by auto
  from splay_lookup_flows [OF look_in(3) this look_in(2)] show ?case using flow_inv_same [OF look_in(3)] by blast
next
  case (look_out k pr s n s')
  from nat_lookup_flows [OF look_out(4,1,2,3)] show ?case by blast
next
  case (pool mem addr proto lo hi s r s')
  show ?case by (rule flow_inv_same [OF pool(2) limit_port_flows [OF pool(1)]])
next
  case (tunnel s t T)
  show ?case by (rule new_tunnel_flows [OF tunnel(3,1,2)])
next
  case (limit pr t s r s')
  show ?case using flow_inv_same [OF limit(2)] rate_limit_flows [OF limit(1)] by blast
next
  case (tcp_in flags n s r s')
  show ?case by (rule flow_inv_same [OF tcp_in(2) tcpstate_in_flows [OF tcp_in(1)]])
next
  case (tcp_out flags n s r s')
  show ?case by (rule flow_inv_same [OF tcp_out(2) tcpstate_out_flows [OF tcp_out(1)]])
next
  case (bump s life n)
  show ?case by (rule flow_inv_same [OF bump bump_timeout_flows [OF same_flows_refl]])
next
  case (promote s pr n)
  show ?case by (rule flow_inv_same [OF promote splay_promote_flows [OF same_flows_refl]])
qed

lemma flow_inv_aftr0: "flow_inv aftr0"
  by (auto simp: flow_inv_def active_def aftr0_def ordered_by_def rb_ok_def)

text \<open>
  In every state that these operations reach from the start, the structures of the
  flows agree: the global tree is a balanced search tree, each tunnel's tree is ordered and has
  exactly the active entries of the tunnel, every active entry is allocated, and every slot of
  the hash table that is in use has an active entry that belongs there. No freed or held entry
  is in any of them.
\<close>

theorem flow_tables_agree:
  assumes "(flow_step cfg)\<^sup>*\<^sup>* aftr0 s"
  shows "flow_inv s"
  using assms by (induction rule: rtranclp_induct) (use flow_inv_aftr0 flow_step_inv in blast)+

theorem flow_tables_agree_witness:
  "\<exists>s. (flow_step default_config)\<^sup>*\<^sup>* aftr0 s \<and> flow_inv s \<and> 5 \<in> active s TCPPR"
proof -
  let ?s = "snd (limit_port default_config (\<lambda>k. True) port_addr IPTCP 2000 2000 aftr0)"
  let ?e = "port_flow\<lparr>n_dst := [198, 0, 0, 7]\<rparr>"
  let ?s5 = "port_state\<lparr>nats := (nats port_state)(5 \<mapsto> ?e)\<rparr>"
  have e: "key_ok ?e" "n_tunnel ?e = 3" "n_proto ?e = IPTCP" by (simp_all add: key_ok_def port_flow_def nat_zero_def port_addr_def)
  have T: "tunnels ?s5 3 = Some port_tunnel" by (simp add: port_state_pools)
  obtain s' where nn: "new_nat default_config True True 5 ?s5 = Some (True, s')"
    using new_nat_first [OF T, of 5 ?e] e by (auto simp: port_state_pools port_tunnel_def)
  have none: "tunnels ?s = Map.empty"
    by (simp add: limit_port_def find_pool_def aftr0_def add_pool_def Let_def upd_pool_def)
  have step1: "flow_step default_config aftr0 ?s" by (rule flow_step.pool) (rule prod.collapse [symmetric])
  have "flow_step default_config ?s (?s\<lparr>tunnels := (tunnels ?s)(3 \<mapsto> port_tunnel)\<rparr>)"
    by (rule flow_step.tunnel) (simp_all add: port_tunnel_def none)
  then have step2: "flow_step default_config ?s port_state" by (simp add: port_state_def none)
  have step3: "flow_step default_config port_state s'"
    by (rule flow_step.create [OF _ _ e(1) _ nn]) (use e T in \<open>simp_all add: port_state_pools\<close>)
  have reach: "(flow_step default_config)\<^sup>*\<^sup>* aftr0 s'"
    using step1 step2 step3 by (meson r_into_rtranclp rtranclp.rtrancl_into_rtrancl)
  have sf: "same_flows port_state ?s5" by (rule sf_forget [OF same_flows_refl]) (simp add: trip_inv(3))
  have "5 \<in> active s' TCPPR"
    using new_nat_flows [OF flow_inv_same [OF trip_inv(1) sf] _ _ _ e(1) _ nn] same_flows_active [OF sf] trip_inv(3) e T
    by (auto simp: pr_of_proto_def)
  then show ?thesis using reach flow_tables_agree [OF reach] by blast
qed
end
