(* ===== verification/Aftr_Static.thy ===== *)
theory Aftr_Static
  imports Aftr_Lookup
begin

text \<open>
  The bindings and prefixes that the configuration and the sessions make: static NAT entries
  (add_snat0, add_snat, try_snat, reload_snat, del_snat), A+P/PRR entries (add_prr, reload_prr,
  del_prr) and tunnels without NAT (add_nonat, reload_nonat, del_nonat), and what becomes of
  them when a reload ends or a session closes (gc_reload, bt_reload, session_nextgen,
  gc_session, and the incremental gc_incr and bt_incr).

  An entry of the configuration is in the list confnats (\<open>gchains s 0\<close>), an entry that the k-th
  session made in the list snats of the session (\<open>gchains s k\<close>). A reload numbers its
  generation; what it confirms gets the new number, and the collector deletes what kept an old
  one.
\<close>

section \<open>Static entries\<close>

definition static_pr :: "u8 \<Rightarrow> prclass" where
  "static_pr proto = (if proto = IPTCP then TCPPR else UDPPR)"

text \<open>The port is one of the pool's dynamic range.\<close>

definition dynamic_port :: "nat \<Rightarrow> prclass \<Rightarrow> bytes \<Rightarrow> aftr \<Rightarrow> bool" where
  "dynamic_port i pr port s =
     (let np = be16 (port ! 0) (port ! 1)
      in np \<ge> uint (p_minport (poolof s i) pr) \<and> np \<le> uint (p_maxport (poolof s i) pr))"

text \<open>The entry as the code fills it in; \<open>flags\<close> has PRR_NULL for a PRR entry.\<close>

definition static_entry :: "tid \<Rightarrow> u8 \<Rightarrow> u8 \<Rightarrow> bytes \<Rightarrow> bytes \<Rightarrow> bytes \<Rightarrow> bytes \<Rightarrow> u32 \<Rightarrow> nat_entry" where
  "static_entry t proto flags src sport nsrc nport gen =
     nat_zero\<lparr>n_tunnel := t, n_generation := gen, n_proto := proto, n_flags := flags,
       n_src := sub src 0 4, n_nsrc := sub nsrc 0 4, n_sport := sub sport 0 2, n_nport := sub nport 0 2\<rparr>"

text \<open>The list a new entry goes to: that of the session, or confnats.\<close>

definition static_list :: "nat \<Rightarrow> aftr \<Rightarrow> nat" where
  "static_list ss s = (if curgen s < FIRSTGEN then ss else 0)"

text \<open>
  The part that add_snat0 and add_prr share from the two insertions on; an entry that one of the
  trees refuses is freed. \<open>prr\<close> says which of the two counters counts it.
\<close>

definition link_static :: "bool \<Rightarrow> nat \<Rightarrow> nid \<Rightarrow> aftr \<Rightarrow> bool \<times> aftr" where
  "link_static prr ss n s =
     (let t = n_tunnel (natof s n); pr = static_pr (n_proto (natof s n)); free = (\<lambda>s. s\<lparr>nats := (nats s)(n := None)\<rparr>)
      in case nat_tree_insert (tree_cmp_nid s n) n (nat_tree s pr) of
           (Some x, tr) \<Rightarrow> (False, free s)
         | (None, tr) \<Rightarrow>
             let s = put_tree pr tr s
             in case nat_splay_insert (splay_cmp_nid s n) n (t_tnat_root (tunof s t) pr) of
                  (Some x, r) \<Rightarrow>
                    let s = put_root t pr r s; s = put_tree pr (nat_tree_remove n (nat_tree s pr)) s
                    in (False, free s)
                | (None, r) \<Rightarrow>
                    let s = put_root t pr r s; k = static_list ss s;
                        s = s\<lparr>gchains := (gchains s)(k := n # gchains s k)\<rparr>;
                        s = (if prr then s\<lparr>prrcnt := prrcnt s + 1\<rparr> else s\<lparr>snatcnt := snatcnt s + 1\<rparr>)
                    in (True, upd_tunnel t (\<lambda>t. t\<lparr>t_tnatcnt := (t_tnatcnt t)(pr := t_tnatcnt t pr + 1)\<rparr>) s))"

text \<open>The calls of malloc and what they return: \<open>al_mem 0\<close> to \<open>al_mem 2\<close> are those of add_stdtunnel, \<open>al_mem 3\<close> is the entry's.\<close>

record alloc =
  al_mem :: "nat \<Rightarrow> bool"
  al_tid :: tid
  al_nid :: nid

text \<open>
  add_snat0: 0 when the entry is refused. \<open>None\<close> is the NULL pool that add_stdtunnel may meet.
\<close>

definition add_snat0 ::
  "config \<Rightarrow> alloc \<Rightarrow> nat \<Rightarrow> bytes \<Rightarrow> u8 \<Rightarrow> bytes \<Rightarrow> bytes \<Rightarrow> bytes \<Rightarrow> bytes \<Rightarrow> aftr \<Rightarrow> (nid \<times> aftr) option" where
  "add_snat0 cfg al ss src6 proto src sport nsrc nport s =
     (let pr = static_pr proto
      in case find_pool nsrc s of
           None \<Rightarrow> Some (0, s)
         | Some i \<Rightarrow>
             if dynamic_port i pr nport s then Some (0, s)
             else
               let (t, s) = tunnel_lookup src6 s
               in case (if t = 0 then add_stdtunnel cfg (al_mem al) (al_tid al) src6 (Some nsrc) s else Some (t, s)) of
                    None \<Rightarrow> None
                  | Some (t, s) \<Rightarrow>
                      if t = 0 then Some (0, s)
                      else if t_flags (tunof s t) AND TUNNONAT \<noteq> 0 then Some (0, s)
                      else if \<not> al_mem al 3 then Some (0, s)
                      else
                        let n = al_nid al;
                            e = static_entry t proto (ALL_DST OR MATCH_PORT) src sport nsrc nport (curgen s);
                            (ok, s) = link_static False ss n (s\<lparr>nats := (nats s)(n \<mapsto> e)\<rparr>)
                        in Some (if ok then n else 0, s))"

definition add_snat ::
  "config \<Rightarrow> alloc \<Rightarrow> nat \<Rightarrow> bytes \<Rightarrow> u8 \<Rightarrow> bytes \<Rightarrow> bytes \<Rightarrow> bytes \<Rightarrow> bytes \<Rightarrow> aftr \<Rightarrow> (int \<times> aftr) option" where
  "add_snat cfg al ss src6 proto src sport nsrc nport s =
     map_option (\<lambda>(n, s). (if n = 0 then -1 else 0, s)) (add_snat0 cfg al ss src6 proto src sport nsrc nport s)"

text \<open>The search \<open>nat_splay_find(pr, &nat0, 1, 1)\<close>, which finds stale entries too.\<close>

definition static_find :: "prclass \<Rightarrow> nat_entry \<Rightarrow> aftr \<Rightarrow> nid \<times> aftr" where
  "static_find pr k s =
     (let t = n_tunnel k;
          (r, tree) = nat_splay_find (lastgen s) (\<lambda>m. nat_splay_compare_abs k (natof s m)) (n_generation k) True
            (t_tnat_root (tunof s t) pr)
      in (case r of None \<Rightarrow> 0 | Some n \<Rightarrow> n, put_root t pr tree s))"

text \<open>try_snat; \<open>None\<close> is also the read through the tunnel's NULL pool.\<close>

definition try_snat ::
  "config \<Rightarrow> alloc \<Rightarrow> nat \<Rightarrow> bytes \<Rightarrow> u8 \<Rightarrow> bytes \<Rightarrow> bytes \<Rightarrow> bytes \<Rightarrow> bytes \<Rightarrow> aftr \<Rightarrow> (nid \<times> aftr) option" where
  "try_snat cfg al ss src6 proto src sport nsrc nport s =
     (if \<not> acl4 src s then Some (0, s)
      else
        let pr = static_pr proto; (t, s) = tunnel_lookup src6 s
        in if t = 0 then Some (0, s)
           else if t_flags (tunof s t) AND TUNNONAT \<noteq> 0 then Some (0, s)
           else if pool_src t s = None then None
           else if pool_src t s \<noteq> Some (sub nsrc 0 4) then Some (0, s)
           else
             let nat0 = static_entry t proto (ALL_DST OR MATCH_PORT) src sport nsrc nport 0; (n, s) = static_find pr nat0 s
             in if n = 0 then add_snat0 cfg al ss src6 proto src sport nsrc nport s
                else if nat_tree_compare_all (natof s n) nat0 \<noteq> 0 then Some (0, s)
                else Some (n, s))"

text \<open>
  What reload_snat and reload_prr do with the entry they find: an entry of a session, or one
  that its session gave up, becomes one of the configuration. \<open>k\<close> is the list it is in, if any.
\<close>

definition adopt_static :: "nid \<Rightarrow> nat option \<Rightarrow> aftr \<Rightarrow> aftr" where
  "adopt_static n k s =
     (let s = (if n_generation (natof s n) \<le> FIRSTGEN then
                 let s = (case k of None \<Rightarrow> s | Some k \<Rightarrow> s\<lparr>gchains := (gchains s)(k := remove1 n (gchains s k))\<rparr>)
                 in s\<lparr>gchains := (gchains s)(0 := n # gchains s 0)\<rparr>
               else s)
      in upd_nat n (\<lambda>e. e\<lparr>n_generation := curgen s\<rparr>) s)"

text \<open>\<open>gls\<close> are the lists there are, as in del_tunnel.\<close>

definition reload_snat ::
  "config \<Rightarrow> alloc \<Rightarrow> nat list \<Rightarrow> nat \<Rightarrow> bytes \<Rightarrow> u8 \<Rightarrow> bytes \<Rightarrow> bytes \<Rightarrow> bytes \<Rightarrow> bytes \<Rightarrow> aftr \<Rightarrow> (int \<times> aftr) option" where
  "reload_snat cfg al gls ss src6 proto src sport nsrc nport s =
     (let pr = static_pr proto; (t, s) = tunnel_lookup src6 s
      in if t = 0 then add_snat cfg al ss src6 proto src sport nsrc nport s
         else if t_flags (tunof s t) AND TUNNONAT \<noteq> 0 then Some (-1, s)
         else
           let nat0 = static_entry t proto (ALL_DST OR MATCH_PORT) src sport nsrc nport 0; (n, s) = static_find pr nat0 s
           in if n = 0 then add_snat cfg al ss src6 proto src sport nsrc nport s
              else if nat_tree_compare_all (natof s n) nat0 \<noteq> 0 then Some (-1, s)
              else Some (0, adopt_static n (chain_of gls n s) s))"

definition del_snat ::
  "config \<Rightarrow> nat list \<Rightarrow> bytes \<Rightarrow> u8 \<Rightarrow> bytes \<Rightarrow> bytes \<Rightarrow> aftr \<Rightarrow> int \<times> aftr" where
  "del_snat cfg gls src6 proto src sport s =
     (let pr = static_pr proto; (t, s) = tunnel_lookup src6 s
      in if t = 0 then (-1, s)
         else if t_flags (tunof s t) AND TUNNONAT \<noteq> 0 then (-1, s)
         else
           let nat0 = nat_zero\<lparr>n_tunnel := t, n_proto := proto, n_flags := ALL_DST, n_src := sub src 0 4, n_sport := sub sport 0 2\<rparr>;
               (n, s) = static_find pr nat0 s
           in if n = 0 then (-1, s) else (0, del_nat cfg n (chain_of gls n s) s))"

section \<open>PRR entries\<close>

text \<open>A PRR entry translates nothing: the source is its own public address.\<close>

definition add_prr ::
  "config \<Rightarrow> alloc \<Rightarrow> nat \<Rightarrow> bytes \<Rightarrow> u8 \<Rightarrow> bytes \<Rightarrow> bytes \<Rightarrow> aftr \<Rightarrow> (int \<times> aftr) option" where
  "add_prr cfg al ss src6 proto src sport s =
     (let pr = static_pr proto
      in case find_pool src s of
           None \<Rightarrow> Some (-1, s)
         | Some i \<Rightarrow>
             if dynamic_port i pr sport s then Some (-1, s)
             else
               let (t, s) = tunnel_lookup src6 s
               in case (if t = 0 then add_stdtunnel cfg (al_mem al) (al_tid al) src6 None s
                        else Some (if t_flags (tunof s t) AND TUNNONAT \<noteq> 0 then 0 else t, s)) of
                    None \<Rightarrow> None
                  | Some (t, s) \<Rightarrow>
                      if t = 0 then Some (-1, s)
                      else if \<not> al_mem al 3 then Some (-1, s)
                      else
                        let n = al_nid al;
                            e = static_entry t proto (ALL_DST OR PRR_NULL OR MATCH_PORT) src sport src sport (curgen s);
                            (ok, s) = link_static True ss n (s\<lparr>nats := (nats s)(n \<mapsto> e)\<rparr>)
                        in Some (if ok then 0 else -1, s))"

definition reload_prr ::
  "config \<Rightarrow> alloc \<Rightarrow> nat list \<Rightarrow> nat \<Rightarrow> bytes \<Rightarrow> u8 \<Rightarrow> bytes \<Rightarrow> bytes \<Rightarrow> aftr \<Rightarrow> (int \<times> aftr) option" where
  "reload_prr cfg al gls ss src6 proto src sport s =
     (let pr = static_pr proto; (t, s) = tunnel_lookup src6 s
      in if t = 0 then add_prr cfg al ss src6 proto src sport s
         else if t_flags (tunof s t) AND TUNNONAT \<noteq> 0 then Some (-1, s)
         else
           let nat0 = static_entry t proto (ALL_DST OR PRR_NULL OR MATCH_PORT) src sport src sport 0;
               (n, s) = static_find pr nat0 s
           in if n = 0 then add_prr cfg al ss src6 proto src sport s
              else if nat_tree_compare_all (natof s n) nat0 \<noteq> 0 then Some (-1, s)
              else Some (0, adopt_static n (chain_of gls n s) s))"

definition del_prr ::
  "config \<Rightarrow> nat list \<Rightarrow> bytes \<Rightarrow> u8 \<Rightarrow> bytes \<Rightarrow> bytes \<Rightarrow> aftr \<Rightarrow> int \<times> aftr" where
  "del_prr cfg gls src6 proto src sport s =
     (let pr = static_pr proto; (t, s) = tunnel_lookup src6 s
      in if t = 0 then (-1, s)
         else if t_flags (tunof s t) AND TUNNONAT \<noteq> 0 then (-1, s)
         else
           let nat0 = nat_zero\<lparr>n_tunnel := t, n_proto := proto, n_flags := ALL_DST OR PRR_NULL, n_src := sub src 0 4,
                 n_sport := sub sport 0 2\<rparr>;
               (n, s) = static_find pr nat0 s
           in if n = 0 then (-1, s)
              else if n_flags (natof s n) AND PRR_NULL = 0 then (-1, s)
              else (0, del_nat cfg n (chain_of gls n s) s))"


section \<open>Tunnels without NAT\<close>

definition add_nonat ::
  "config \<Rightarrow> alloc \<Rightarrow> bytes \<Rightarrow> bytes \<Rightarrow> nat \<Rightarrow> aftr \<Rightarrow> int \<times> aftr" where
  "add_nonat cfg al peer addr plen s =
     (if \<not> al_mem al 2 then (-1, s)
      else
        let (t, s) = add_tunnel cfg (al_mem al) (al_tid al) peer s
        in if t = 0 then (-1, s)
           else
             let s = upd_tunnel t (\<lambda>T. T\<lparr>t_flags := t_flags T OR TUNNONAT, t_ngeneration := curgen s,
                       t_nnaddr := sub addr 0 4, t_nnplen := plen\<rparr>) s
             in (0, s\<lparr>nonats := nonats s @ [t]\<rparr>))"

definition reload_nonat ::
  "config \<Rightarrow> alloc \<Rightarrow> bytes \<Rightarrow> bytes \<Rightarrow> nat \<Rightarrow> aftr \<Rightarrow> int \<times> aftr" where
  "reload_nonat cfg al peer addr plen s =
     (let (t, s) = tunnel_lookup peer s
      in if t = 0 then add_nonat cfg al peer addr plen s
         else if t \<notin> set (nonats s) then (-1, s)
         else (0, upd_tunnel t (\<lambda>T. T\<lparr>t_ngeneration := curgen s\<rparr>) s))"

text \<open>The tail of del_nonat, which gc_reload and gc_session repeat.\<close>

definition drop_nonat :: "tid \<Rightarrow> aftr \<Rightarrow> aftr option" where
  "drop_nonat t s =
     (let s = s\<lparr>nonats := remove1 t (nonats s)\<rparr>;
          s = upd_tunnel t (\<lambda>T. T\<lparr>t_flags := t_flags T AND NOT (TUNDEBUG OR TUNNONAT)\<rparr>) s;
          s = s\<lparr>tuncnt := isc_decr (tuncnt s)\<rparr>
      in unlink_tunnel t s)"

definition del_nonat :: "bytes \<Rightarrow> aftr \<Rightarrow> (int \<times> aftr) option" where
  "del_nonat peer s =
     (let (t, s) = tunnel_lookup peer s
      in if t = 0 then Some (-1, s)
         else if t_flags (tunof s t) AND TUNNONAT = 0 then Some (-1, s)
         else if t \<notin> set (nonats s) then Some (-1, s)
         else map_option (\<lambda>s. (0, s)) (drop_nonat t s))"

section \<open>Reloads and sessions\<close>

text \<open>
  The globals that the collector and the sessions use: \<open>sslist\<close> the open sessions, \<open>orphans\<close>
  the closed ones whose entries are still to be deleted, \<open>ss_generation\<close> their numbers, and
  \<open>reload_session\<close> the one that runs a reload.
\<close>

record ctl =
  core :: aftr
  needgc :: nat
  needbt :: nat
  sslist :: "nat list"
  orphans :: "nat list"
  ss_generation :: "nat \<Rightarrow> u32"
  sesgen :: u32
  reload_session :: "nat option"

text \<open>The loop of gc_reload over the tunnels without NAT; the list is the one it walks.\<close>

fun gc_nonats :: "tid list \<Rightarrow> aftr \<Rightarrow> aftr option" where
  "gc_nonats [] s = Some s"
| "gc_nonats (t # ts) s =
     (if t_flags (tunof s t) AND TUNNONAT = 0 then gc_nonats ts s
      else if t_ngeneration (tunof s t) < FIRSTGEN then gc_nonats ts s
      else if t_ngeneration (tunof s t) < lastgen s then Option.bind (drop_nonat t s) (gc_nonats ts)
      else gc_nonats ts s)"

definition gc_reload :: "ctl \<Rightarrow> ctl option" where
  "gc_reload c =
     map_option (\<lambda>s. c\<lparr>core := s\<lparr>gc_ptr := 0\<rparr>, needgc := 2\<rparr>) (gc_nonats (nonats (core c)) (core c))"

definition bt_reload :: "ctl \<Rightarrow> ctl" where
  "bt_reload c =
     (let s = fold (\<lambda>t s.
            if t_flags (tunof s t) AND TUNNONAT = 0 then s
            else if t_ngeneration (tunof s t) < FIRSTGEN then s
            else if t_ngeneration (tunof s t) > lastgen s then upd_tunnel t (\<lambda>T. T\<lparr>t_ngeneration := lastgen s\<rparr>) s
            else s) (nonats (core c)) (core c)
      in c\<lparr>core := s\<lparr>bt_ptr := 0\<rparr>, needbt := 2\<rparr>)"

text \<open>session_nextgen: the number is that of no session; after 20 attempts it gives up with 1.\<close>

fun nextgen_loop :: "nat \<Rightarrow> ctl \<Rightarrow> u32 \<times> ctl" where
  "nextgen_loop 0 c = (1, c)"
| "nextgen_loop (Suc k) c =
     (let g = sesgen c + 1
      in if g = FIRSTGEN then nextgen_loop k (c\<lparr>sesgen := 0\<rparr>)
         else if g \<in> ss_generation c ` set (sslist c @ orphans c) then nextgen_loop k (c\<lparr>sesgen := g\<rparr>)
         else (g, c\<lparr>sesgen := g\<rparr>))"

definition session_nextgen :: "ctl \<Rightarrow> u32 \<times> ctl" where
  "session_nextgen = nextgen_loop 20"

fun gc_session_nonats :: "u32 \<Rightarrow> tid list \<Rightarrow> aftr \<Rightarrow> aftr option" where
  "gc_session_nonats g [] s = Some s"
| "gc_session_nonats g (t # ts) s =
     (if t_flags (tunof s t) AND TUNNONAT = 0 then gc_session_nonats g ts s
      else if t_ngeneration (tunof s t) = g then Option.bind (drop_nonat t s) (gc_session_nonats g ts)
      else gc_session_nonats g ts s)"

text \<open>gc_session gives the entries of the session up; gc_incr deletes them.\<close>

definition gc_session :: "nat \<Rightarrow> ctl \<Rightarrow> ctl option" where
  "gc_session ss c =
     (let g = ss_generation c ss
      in case gc_session_nonats g (nonats (core c)) (core c) of
           None \<Rightarrow> None
         | Some s \<Rightarrow>
             let s = fold (\<lambda>n s. if n_generation (natof s n) \<noteq> g then s else upd_nat n (\<lambda>e. e\<lparr>n_generation := FIRSTGEN\<rparr>) s)
                       (gchains s ss) s;
                 c = c\<lparr>core := s, orphans := ss # orphans c\<rparr>
             in Some (if needgc c = 0 then c\<lparr>needgc := 1, core := (core c)\<lparr>gc_ptr := 0\<rparr>\<rparr> else c))"

section \<open>The collector\<close>

text \<open>\<open>ISC_LIST_REMOVE(n, gchain); del_nat(n)\<close>: del_nat finds the entry in no list.\<close>

definition gc_del :: "config \<Rightarrow> nat \<Rightarrow> nid \<Rightarrow> aftr \<Rightarrow> aftr" where
  "gc_del cfg k n s = del_nat cfg n None (s\<lparr>gchains := (gchains s)(k := remove1 n (gchains s k))\<rparr>)"

text \<open>
  The loop over the entries of an orphan. The result says whether the quantum was used up; the
  third argument is what remains of it.
\<close>

fun gc_snats :: "config \<Rightarrow> nat \<Rightarrow> nid list \<Rightarrow> int \<Rightarrow> aftr \<Rightarrow> bool \<times> int \<times> aftr" where
  "gc_snats cfg k [] r s = (False, r, s)"
| "gc_snats cfg k (n # ns) r s =
     (let s = gc_del cfg k n s
      in if r - 1 = 0 then (True, r - 1, s) else gc_snats cfg k ns (r - 1) s)"

text \<open>The loop over the orphans; \<open>None\<close> is the exit when one is the session of a reload.\<close>

fun gc_orphans :: "config \<Rightarrow> nat list \<Rightarrow> int \<Rightarrow> ctl \<Rightarrow> (bool \<times> int \<times> ctl) option" where
  "gc_orphans cfg [] r c = Some (False, r, c)"
| "gc_orphans cfg (ss # os) r c =
     (let (stop, r, s) = gc_snats cfg ss (gchains (core c) ss) r (core c); c = c\<lparr>core := s\<rparr>
      in if stop then Some (True, r, c)
         else
           let c = c\<lparr>orphans := remove1 ss (orphans c)\<rparr>
           in if reload_session c = Some ss then None else gc_orphans cfg os r c)"

text \<open>
  The loop over confnats. Its list is the part of confnats from gc_ptr on, and gc_ptr moves to
  the next entry before the one it pointed to may be deleted.
\<close>

definition first_or_0 :: "nid list \<Rightarrow> nid" where
  "first_or_0 ns = (case ns of [] \<Rightarrow> 0 | n # _ \<Rightarrow> n)"

fun gc_conf :: "config \<Rightarrow> nid list \<Rightarrow> int \<Rightarrow> aftr \<Rightarrow> bool \<times> aftr" where
  "gc_conf cfg [] r s = (False, s)"
| "gc_conf cfg (n # ns) r s =
     (let s = s\<lparr>gc_ptr := first_or_0 ns\<rparr>
      in if n_generation (natof s n) < FIRSTGEN \<or> n_generation (natof s n) \<ge> lastgen s then gc_conf cfg ns r s
         else
           let s = gc_del cfg 0 n s
           in if r - 1 = 0 then (True, s) else gc_conf cfg ns (r - 1) s)"

definition from_ptr :: "nid \<Rightarrow> nid list \<Rightarrow> nid list" where
  "from_ptr p ns = (if p = 0 then [] else dropWhile (\<lambda>n. n \<noteq> p) ns)"

definition gc_incr :: "config \<Rightarrow> nat \<Rightarrow> ctl \<Rightarrow> ctl option" where
  "gc_incr cfg quantum c =
     (case gc_orphans cfg (orphans c) (int quantum) c of
        None \<Rightarrow> None
      | Some (True, r, c) \<Rightarrow> Some c
      | Some (False, r, c) \<Rightarrow>
          let s = core c;
              s = (if needgc c > 1 \<and> gc_ptr s = 0 then s\<lparr>gc_ptr := first_or_0 (gchains s 0)\<rparr> else s);
              c = (if needgc c > 1 then c\<lparr>needgc := 1\<rparr> else c);
              (stop, s) = gc_conf cfg (from_ptr (gc_ptr s) (gchains s 0)) r s
          in Some (if stop then c\<lparr>core := s\<rparr> else c\<lparr>core := s, needgc := 0\<rparr>))"

text \<open>The backtrack of a failed reload, over confnats from bt_ptr on.\<close>

fun bt_conf :: "nid list \<Rightarrow> int \<Rightarrow> aftr \<Rightarrow> bool \<times> aftr" where
  "bt_conf [] r s = (False, s)"
| "bt_conf (n # ns) r s =
     (let s = s\<lparr>bt_ptr := first_or_0 ns\<rparr>;
          s = (if n_generation (natof s n) > lastgen s then upd_nat n (\<lambda>e. e\<lparr>n_generation := lastgen s\<rparr>) s else s)
      in if r - 1 = 0 then (True, s) else bt_conf ns (r - 1) s)"

definition bt_incr :: "nat \<Rightarrow> ctl \<Rightarrow> ctl" where
  "bt_incr quantum c =
     (let s = core c;
          s = (if needbt c > 1 \<and> bt_ptr s = 0 then s\<lparr>bt_ptr := first_or_0 (gchains s 0)\<rparr> else s);
          c = (if needbt c > 1 then c\<lparr>needbt := 1\<rparr> else c);
          (stop, s) = bt_conf (from_ptr (bt_ptr s) (gchains s 0)) (5 * int quantum) s
      in if stop then c\<lparr>core := s\<rparr> else c\<lparr>core := s, needbt := 0\<rparr>)"

text \<open>
  init_hashes: the three tables at their smallest size, each with a fresh key; \<open>None\<close> is the exit
  when a malloc fails.
\<close>

definition init_hashes :: "(nat \<Rightarrow> bool) \<Rightarrow> aftr \<Rightarrow> aftr option" where
  "init_hashes m s =
     (let (w, rs) = arc4_getword (arc4 s); s = s\<lparr>fraghashsz := 64, fraghashrnd := w, arc4 := rs\<rparr>
      in if \<not> m 0 then None
         else
           let s = s\<lparr>fraghash := (\<lambda>h. 0)\<rparr>; (w, rs) = arc4_getword (arc4 s);
               s = s\<lparr>nathashsz := 1024, nathashrnd := w, arc4 := rs\<rparr>
           in if \<not> m 1 then None
              else
                let s = s\<lparr>nathash := (\<lambda>h. 0)\<rparr>; (w, rs) = arc4_getword (arc4 s);
                    s = s\<lparr>tunhashsz := 16, tunhashrnd := w, arc4 := rs\<rparr>
                in if \<not> m 2 then None else Some (s\<lparr>tunhash := (\<lambda>h. 0)\<rparr>))"

end
