(* ===== verification/Aftr_Binding.thy ===== *)
theory Aftr_Binding
  imports Aftr_Static
begin

text \<open>
  What the static entries rest on: the operations of the configuration keep the tunnel tables
  and the tables of the flows consistent, an entry in a static list is an active static entry,
  and the collector ends with the lists free of stale entries.
\<close>

section \<open>The invariant\<close>

text \<open>
  An entry is in one static list at most, and only while it is active and static. The bound on
  the tunnels is that of the comparison of two tunnels.
\<close>

definition static_inv :: "aftr \<Rightarrow> bool" where
  "static_inv s \<longleftrightarrow> (\<forall>k. distinct (gchains s k)) \<and>
     (\<forall>k k' n. n \<in> set (gchains s k) \<longrightarrow> n \<in> set (gchains s k') \<longrightarrow> k = k') \<and>
     (\<forall>k n. n \<in> set (gchains s k) \<longrightarrow> (\<exists>pr. n \<in> active s pr) \<and> n_flags (natof s n) AND ALL_DST \<noteq> 0)"

definition conf_inv :: "aftr \<Rightarrow> bool" where
  "conf_inv s \<longleftrightarrow> tun_inv s \<and> flow_inv s \<and> static_inv s \<and> (\<forall>t. tunnels s t \<noteq> None \<longrightarrow> t < 2 ^ 31)"

text \<open>What a lookup or a new tunnel leaves alone.\<close>

definition lists_same :: "aftr \<Rightarrow> aftr \<Rightarrow> bool" where
  "lists_same s s' \<longleftrightarrow> gchains s' = gchains s \<and> curgen s' = curgen s \<and> lastgen s' = lastgen s \<and> nats s' = nats s \<and>
     gc_ptr s' = gc_ptr s"

lemma lists_same_refl: "lists_same s s"
  by (simp add: lists_same_def)

lemma lists_same_trans: "lists_same s t \<Longrightarrow> lists_same t u \<Longrightarrow> lists_same s u"
  by (simp add: lists_same_def)

lemma static_inv_same:
  assumes "static_inv s" "gchains s' = gchains s" "active s' = active s" "nats s' = nats s"
  shows "static_inv s'"
  using assms by (simp add: static_inv_def natof_def)

lemma sf_tunhash: "same_flows s t \<Longrightarrow> same_flows s (t\<lparr>tunhash := f\<rparr>)"
  by (simp add: same_flows_def)

lemma tunnel_lookup_conf:
  assumes inv: "conf_inv s" and peer: "length peer = 16" and run: "tunnel_lookup peer s = (t, s')"
  shows "conf_inv s' \<and> same_flows s s' \<and> lists_same s s' \<and> pools s' = pools s \<and>
    (t \<noteq> 0 \<longrightarrow> (\<exists>T. tunnels s' t = Some T \<and> t_remote T = peer)) \<and> (t = 0 \<longrightarrow> s' = s) \<and> cores s' = cores s"
proof -
  have i: "tun_inv s" "flow_inv s" "static_inv s" "\<forall>t. tunnels s t \<noteq> None \<longrightarrow> t < 2 ^ 31" using inv by (simp_all add: conf_inv_def)
  note L = tunnel_lookup_spec [OF i(1) peer run]
  obtain th h where s': "s' = s \<or> t \<noteq> 0 \<and> s' = upd_tunnel t (\<lambda>t. t\<lparr>t_hash := h\<rparr>) (s\<lparr>tunhash := th\<rparr>)" using L(3) by blast
  have sf: "same_flows s s'" using s' by (auto intro!: same_flows_intros sf_tunhash)
  have ls: "lists_same s s'" "pools s' = pools s" using s' by (auto simp: lists_same_def upd_tunnel_def)
  have dom: "tunnels s' u = None \<longleftrightarrow> tunnels s u = None" for u using s' by (auto simp: upd_tunnel_def split: if_splits)
  have "conf_inv s'"
    using L(1) flow_inv_same [OF i(2) sf] static_inv_same [OF i(3) _ same_flows_active [OF sf]] ls i(4) dom
    by (simp add: conf_inv_def lists_same_def)
  moreover have "\<exists>T. tunnels s' t = Some T \<and> t_remote T = peer" if "t \<noteq> 0"
    using L(2) s' that by (auto simp: upd_tunnel_def)
  ultimately show ?thesis using sf ls s' tunnel_lookup_cores [OF i(1) peer run] by blast
qed

lemma add_tunnel_conf:
  assumes inv: "conf_inv s" and peer: "length peer = 16" and new: "tunnels s new = None" "new \<noteq> 0" "new < 2 ^ 31"
    and run: "add_tunnel cfg mem new peer s = (t, s')"
  shows "conf_inv s' \<and> active s' = active s \<and> lists_same s s' \<and> pools s' = pools s \<and>
    (t = 0 \<and> cores s' = cores s \<or> t = new \<and> tunnels s' t = Some (tunnel_new cfg peer))"
proof -
  have i: "tun_inv s" "flow_inv s" "static_inv s" "\<forall>t. tunnels s t \<noteq> None \<longrightarrow> t < 2 ^ 31" using inv by (simp_all add: conf_inv_def)
  note cases = add_tunnel_cases [OF i(1) peer new(1,2) run]
  obtain u s1 where look: "tunnel_lookup peer s = (u, s1)" by fastforce
  note L = tunnel_lookup_conf [OF inv peer look]
  show ?thesis
  proof (cases "t = 0")
    case True
    have tree: "\<exists>tr. s' = s1 \<or> s' = s1\<lparr>tunnel_tree := tr\<rparr>"
      using run True look new(2) by (auto simp: add_tunnel_def Let_def split: if_splits prod.splits)
    then have f: "same_flows s1 s'" "lists_same s1 s'" "tunnels s' = tunnels s1" "pools s' = pools s1"
      by (auto simp: same_flows_def lists_same_def)
    have "conf_inv s'"
      using L f cases True new(2) flow_inv_same [OF _ f(1)] static_inv_same [OF _ _ same_flows_active [OF f(1)]]
      by (auto simp: conf_inv_def lists_same_def)
    then show ?thesis
      using L f cases True new(2) same_flows_active [of s s1] same_flows_active [OF f(1)] lists_same_trans by metis
  next
    case False
    then have t: "t = new" "tun_inv s'" "tunnels s' new = Some (tunnel_new cfg peer)" using cases by auto
    have "u = 0" "mem 0" using run look False by (auto simp: add_tunnel_def split: if_splits)
    then have s1: "s1 = s" using L by simp
    have "\<exists>tr. s' = s\<lparr>tunnel_tree := tr, tunnels := (tunnels s)(new \<mapsto> tunnel_new cfg peer), tuncnt := tuncnt s + 1\<rparr>"
    proof -
      obtain e x tr where ins: "tunnel_tree_insert (mem 1) (sub peer 0 16) new (tunnel_tree s) = (e, x, tr)" by (cases "tunnel_tree_insert (mem 1) (sub peer 0 16) new (tunnel_tree s)")
      have "e = 0"
      proof (rule ccontr)
        assume "e \<noteq> 0"
        have sub: "sub peer 0 16 = peer" using peer by simp
        have "(peer, v) \<notin> tleaves (tunnel_tree s)" for v
          using tunnel_lookup_spec(2) [OF i(1) peer look] \<open>u = 0\<close> tun_inv_0 [OF i(1)] i(1)
          by (auto simp: tun_inv_def tun_at_def)
        then show False
          using tunnel_tree_insert_cases [OF _ new(2) peer, of "tunnel_tree s" "mem 1"] ins i(1) \<open>e \<noteq> 0\<close> run look \<open>u = 0\<close> \<open>mem 0\<close> s1 False
          by (auto simp: tun_inv_def add_tunnel_def sub)
      qed
      then show ?thesis
        using run look \<open>u = 0\<close> \<open>mem 0\<close> s1 ins
        by (auto simp: add_tunnel_def upd_tunnel_def tunnel_new_def Let_def split: if_splits)
    qed
    then obtain tr where s': "s' = s\<lparr>tunnel_tree := tr, tunnels := (tunnels s)(new \<mapsto> tunnel_new cfg peer), tuncnt := tuncnt s + 1\<rparr>" by blast
    have leaf: "t_tnat_root (tunnel_new cfg peer) = (\<lambda>pr. Leaf)" by (simp add: tunnel_new_def tunnel_zero_def)
    have fl: "flow_inv (s\<lparr>tunnels := (tunnels s)(new \<mapsto> tunnel_new cfg peer)\<rparr>)" by (rule new_tunnel_flows [OF i(2) new(1) leaf])
    have sf: "same_flows (s\<lparr>tunnels := (tunnels s)(new \<mapsto> tunnel_new cfg peer)\<rparr>) s'" by (simp add: same_flows_def s')
    have act: "active s' = active s" by (simp add: s' active_def fun_eq_iff)
    have "conf_inv s'"
      using t(2) flow_inv_same [OF fl sf] static_inv_same [OF i(3) _ act] i(4) new(3) by (auto simp: conf_inv_def s' split: if_splits)
    then show ?thesis using t act by (simp add: s' lists_same_def)
  qed
qed

lemma conf_inv_upd:
  assumes "conf_inv s" "\<And>T. t_remote (f T) = t_remote T \<and> t_hash (f T) = t_hash T \<and> t_tnat_root (f T) = t_tnat_root T"
  shows "conf_inv (upd_tunnel t f s) \<and> active (upd_tunnel t f s) = active s \<and> lists_same s (upd_tunnel t f s) \<and>
    pools (upd_tunnel t f s) = pools s"
proof -
  have sf: "same_flows s (upd_tunnel t f s)" by (intro same_flows_intros) (simp add: assms(2))
  have tv: "tun_view (upd_tunnel t f s) = tun_view s"
    by (simp add: tun_view_def fun_eq_iff tun_at_upd assms(2)) (simp add: tun_at_def)
  have "tunnels (upd_tunnel t f s) u = None \<longleftrightarrow> tunnels s u = None" for u by (simp add: upd_tunnel_def)
  moreover have "lists_same s (upd_tunnel t f s)" by (simp add: lists_same_def upd_tunnel_def)
  ultimately show ?thesis
    using assms(1) flow_inv_same [OF _ sf] static_inv_same [OF _ _ same_flows_active [OF sf]] tun_inv_view [OF tv] same_flows_active [OF sf]
    by (simp add: conf_inv_def lists_same_def)
qed

lemma add_stdtunnel_conf:
  assumes inv: "conf_inv s" and peer: "length peer = 16" and new: "tunnels s new = None" "new \<noteq> 0" "new < 2 ^ 31"
    and run: "add_stdtunnel cfg mem new peer src s = Some (t, s')"
  shows "conf_inv s' \<and> active s' = active s \<and> lists_same s s' \<and> pools s' = pools s \<and>
    (t \<noteq> 0 \<longrightarrow> t = new \<and> (\<exists>T. tunnels s' t = Some T \<and> t_remote T = peer))"
proof -
  obtain u s1 where a: "add_tunnel cfg mem new peer s = (u, s1)" by fastforce
  note A = add_tunnel_conf [OF inv peer new a]
  have "t = 0 \<and> (s' = s \<or> s' = s1) \<or> u \<noteq> 0 \<and> t = u \<and> (\<exists>i j. s' = upd_tunnel u (\<lambda>t. t\<lparr>t_srcidx := i\<rparr>) s1 \<or> s' = (upd_tunnel u (\<lambda>t. t\<lparr>t_srcidx := i\<rparr>) s1)\<lparr>src_idx := j\<rparr>)"
    using run a by (auto simp: add_stdtunnel_def Let_def split: option.splits if_splits)
  then consider "t = 0" "s' = s \<or> s' = s1" | (new) i j where "u \<noteq> 0" "t = u" "s' = upd_tunnel u (\<lambda>t. t\<lparr>t_srcidx := i\<rparr>) s1 \<or> s' = (upd_tunnel u (\<lambda>t. t\<lparr>t_srcidx := i\<rparr>) s1)\<lparr>src_idx := j\<rparr>" by blast
  then show ?thesis
  proof cases
    case 1
    then show ?thesis using A inv lists_same_refl by auto
  next
    case new
    let ?s2 = "upd_tunnel u (\<lambda>t. t\<lparr>t_srcidx := i\<rparr>) s1"
    have U: "conf_inv ?s2 \<and> active ?s2 = active s1 \<and> lists_same s1 ?s2 \<and> pools ?s2 = pools s1" by (rule conf_inv_upd) (use A in simp_all)
    have "t_remote (tunnel_new cfg peer) = peer" using peer by (simp add: tunnel_new_def tunnel_zero_def)
    then have t2: "\<exists>T. tunnels ?s2 u = Some T \<and> t_remote T = peer" "u = new" using A new by (auto simp: upd_tunnel_def)
    have "conf_inv (?s2\<lparr>src_idx := j\<rparr>) = conf_inv ?s2" "active (?s2\<lparr>src_idx := j\<rparr>) = active ?s2" "lists_same ?s2 (?s2\<lparr>src_idx := j\<rparr>)"
    proof -
      let ?s3 = "?s2\<lparr>src_idx := j\<rparr>"
      have "same_flows ?s2 ?s3" "same_flows ?s3 ?s2" "tun_view ?s3 = tun_view ?s2" "gchains ?s3 = gchains ?s2" "nats ?s3 = nats ?s2" "tunnels ?s3 = tunnels ?s2"
        by (simp_all add: same_flows_def tun_view_def tun_at_def fun_eq_iff)
      then show "conf_inv ?s3 = conf_inv ?s2" "active ?s3 = active ?s2"
        using flow_inv_same [of ?s2 ?s3] flow_inv_same [of ?s3 ?s2] same_flows_active [of ?s2 ?s3] tun_inv_view [of ?s3 ?s2]
        by (auto simp: conf_inv_def static_inv_def natof_def)
    qed (simp add: lists_same_def)
    moreover have "pools (?s2\<lparr>src_idx := j\<rparr>) = pools ?s2" "tunnels (?s2\<lparr>src_idx := j\<rparr>) = tunnels ?s2" by simp_all
    moreover have "s' = ?s2 \<or> s' = ?s2\<lparr>src_idx := j\<rparr>" using new(3) .
    ultimately have "conf_inv s' \<and> active s' = active ?s2 \<and> lists_same ?s2 s' \<and> pools s' = pools ?s2 \<and> tunnels s' = tunnels ?s2"
      using U lists_same_refl by (elim disjE) simp_all
    then show ?thesis using U A t2 new(2) lists_same_trans [OF conjunct1 [OF conjunct2 [OF conjunct2 [OF A]]]] lists_same_trans by metis
  qed
qed


section \<open>Making a static entry\<close>

text \<open>
  The entry is in both trees, at the head of its list and counted, or it is nowhere.
\<close>

lemma sf_gchains: "same_flows s t \<Longrightarrow> same_flows s (t\<lparr>gchains := c\<rparr>)" "same_flows s t \<Longrightarrow> same_flows s (t\<lparr>snatcnt := k\<rparr>)"
  "same_flows s t \<Longrightarrow> same_flows s (t\<lparr>prrcnt := k\<rparr>)"
  by (simp_all add: same_flows_def)

lemma link_static_flows:
  assumes inv: "flow_inv s" and new: "\<And>pr. n \<notin> active s pr" "n \<noteq> 0" and e: "nats s n = Some e" "key_ok e"
    and pr: "pr = static_pr (n_proto e)" "pr = pr_of_proto (n_proto e)"
    and T: "tunnels s (n_tunnel e) = Some T" and run: "link_static prr ss n s = (r, s')"
  shows "if r then flow_inv s' \<and> active s' = (active s)(pr := insert n (active s pr)) \<and> nats s' = nats s \<and>
      gchains s' = (gchains s)(static_list ss s := n # gchains s (static_list ss s)) \<and>
      (\<forall>m \<in> set_tree (t_tnat_root T pr). splay_cmp_nid s n m \<noteq> 0) \<and>
      (\<forall>m \<in> active s pr. tree_cmp_nid s n m \<noteq> 0)
    else same_flows s s' \<and> nats s' = (nats s)(n := None) \<and> gchains s' = gchains s"
proof -
  let ?t = "n_tunnel e"
  have ne: "natof s n = e" "tunof s ?t = T" using e T by (simp_all add: natof_def tunof_def)
  have ko: "key_ok (natof s n)" using e(2) ne by simp
  have ord: "ordered_by (\<lambda>n. key_ok (natof s n)) (tree_cmp_nid s) (rb_list (nat_tree s pr))" "rb_ok (nat_tree s pr)"
    using inv by (simp_all add: flow_inv_def)
  have ordr: "ordered_by (\<lambda>n. key_ok (natof s n)) (splay_cmp_nid s) (inorder (t_tnat_root T pr))"
    using inv T unfolding flow_inv_def by blast
  obtain x tr where ins: "nat_tree_insert (tree_cmp_nid s n) n (nat_tree s pr) = (x, tr)" by fastforce
  show ?thesis
  proof (cases x)
    case (Some y)
    then have "r = False" "s' = s\<lparr>nats := (nats s)(n := None)\<rparr>"
      using run ins by (auto simp: link_static_def ne pr(1) [symmetric] Let_def)
    then show ?thesis using new sf_forget [OF same_flows_refl] by simp
  next
    case None
    let ?s2 = "put_tree pr tr s"
    obtain z rt where spl: "nat_splay_insert (splay_cmp_nid s n) n (t_tnat_root T pr) = (z, rt)" by fastforce
    show ?thesis
    proof (cases z)
      case (Some y)
      let ?s3 = "put_root ?t pr rt ?s2"
      let ?s4 = "put_tree pr (nat_tree_remove n (nat_tree ?s3 pr)) ?s3"
      have s': "r = False" "s' = ?s4\<lparr>nats := (nats ?s4)(n := None)\<rparr>"
        using run ins None spl Some by (auto simp: link_static_def ne pr(1) [symmetric] Let_def)
      have "distinct (rb_list (nat_tree s pr))" by (rule comparator.ordered_distinct [OF tree_nid_comparator ord(1)])
      moreover have "n \<notin> set (rb_list (nat_tree s pr))" using new by (simp add: active_def)
      ultimately have rl: "rb_list (nat_tree_remove n tr) = rb_list (nat_tree s pr)"
        using tree_insert_remove ins None by metis
      have rok: "rb_ok (nat_tree_remove n tr)" using nat_tree_insert_ok [OF ord(2) ins] by (rule nat_tree_remove_ok)
      from comparator.splay_insert_ordered [OF splay_nid_comparator ordr ko] spl Some
      have ri: "inorder rt = inorder (t_tnat_root T pr)" by simp
      have "nat_tree ?s4 = (nat_tree s)(pr := nat_tree_remove n tr)" by simp
      moreover have "tunnels ?s4 = (tunnels s)(?t \<mapsto> T\<lparr>t_tnat_root := (t_tnat_root T)(pr := rt)\<rparr>)"
        using tunnels_put_root [of ?s2 ?t T] T by simp
      ultimately have "same_flows s ?s4"
        using rl rok ri T unfolding same_flows_def by (auto simp: fun_eq_iff)
      moreover have "gchains ?s4 = gchains s" by (simp add: put_tree_def put_root_def upd_tunnel_def)
      ultimately show ?thesis using s' new sf_forget [of s ?s4 n None] by simp
    next
      case None': None
      let ?s3 = "put_root ?t pr rt ?s2"
      define s4 where "s4 = ?s3\<lparr>gchains := (gchains ?s3)(static_list ss ?s3 := n # gchains ?s3 (static_list ss ?s3))\<rparr>"
      define s5 where "s5 = (if prr then s4\<lparr>prrcnt := prrcnt s4 + 1\<rparr> else s4\<lparr>snatcnt := snatcnt s4 + 1\<rparr>)"
      have s': "r = True" "s' = upd_tunnel ?t (\<lambda>t. t\<lparr>t_tnatcnt := (t_tnatcnt t)(pr := t_tnatcnt t pr + 1)\<rparr>) s5"
        using run ins None None' spl unfolding s5_def s4_def by (auto simp: link_static_def ne pr(1) [symmetric] Let_def)
      have add: "flow_inv ?s3 \<and> active ?s3 = (active s)(pr := insert n (active s pr))"
        using flow_inv_add [OF inv new e T pr(2)] ins None None' spl by simp
      have "same_flows ?s3 s5" unfolding s5_def s4_def by (auto intro!: sf_gchains same_flows_refl)
      then have sf: "same_flows ?s3 s'" unfolding s' by (intro same_flows_intros) simp_all
      have f: "nats s' = nats s" "gchains s' = (gchains s)(static_list ss s := n # gchains s (static_list ss s))"
        by (simp_all add: s' s5_def s4_def upd_tunnel_def put_root_def put_tree_def static_list_def)
      have "\<forall>m \<in> set_tree (t_tnat_root T pr). splay_cmp_nid s n m \<noteq> 0" "\<forall>m \<in> active s pr. tree_cmp_nid s n m \<noteq> 0"
        using comparator.splay_insert_ordered [OF splay_nid_comparator ordr ko] spl None'
          comparator.insert_ordered [OF tree_nid_comparator ord(1) ko ins [unfolded None]] by (simp_all add: active_def)
      then show ?thesis using s'(1) f add flow_inv_same [OF _ sf] same_flows_active [OF sf] by simp
    qed
  qed
qed

section \<open>The operations keep the invariant\<close>

lemma static_entry_ok:
  assumes "4 \<le> length src" "4 \<le> length nsrc" "2 \<le> length sport" "2 \<le> length nport" "t < 2 ^ 31" "flags AND ALL_DST \<noteq> 0"
  shows "key_ok (static_entry t proto flags src sport nsrc nport g)"
  using assms by (simp add: static_entry_def key_ok_def nat_zero_def)

lemma static_pr_proto: "proto = IPTCP \<or> proto = IPUDP \<Longrightarrow> pr_of_proto proto = static_pr proto"
  by (auto simp: static_pr_def pr_of_proto_def)

text \<open>The generation of an entry plays no part in the order.\<close>

lemma natof_regen: "natof (upd_nat n f s) m = (if m = n \<and> nats s n \<noteq> None then f (natof s n) else natof s m)"
  by (auto simp: natof_def upd_nat_def)

lemma flow_inv_regen:
  assumes "flow_inv s" shows "flow_inv (upd_nat n (\<lambda>e. e\<lparr>n_generation := g\<rparr>) s)"
proof -
  let ?s = "upd_nat n (\<lambda>e. e\<lparr>n_generation := g\<rparr>) s"
  have key: "nat_tree_compare_abs (a\<lparr>n_generation := g\<rparr>) b = nat_tree_compare_abs a b"
    "nat_tree_compare_abs a (b\<lparr>n_generation := g\<rparr>) = nat_tree_compare_abs a b"
    "nat_splay_compare_abs (a\<lparr>n_generation := g\<rparr>) b = nat_splay_compare_abs a b"
    "nat_splay_compare_abs a (b\<lparr>n_generation := g\<rparr>) = nat_splay_compare_abs a b"
    "key_ok (a\<lparr>n_generation := g\<rparr>) = key_ok a" "jhash_nat r (a\<lparr>n_generation := g\<rparr>) = jhash_nat r a" for a b r
    by (simp_all add: nat_tree_compare_abs_def nat_splay_compare_abs_def cmp_dest_abs_def key_ok_def jhash_nat_def)
  have f: "tree_cmp_nid ?s = tree_cmp_nid s" "splay_cmp_nid ?s = splay_cmp_nid s"
    "(\<lambda>n. key_ok (natof ?s n)) = (\<lambda>n. key_ok (natof s n))" "nat_slot ?s = nat_slot s"
    by (simp_all add: fun_eq_iff tree_cmp_nid_def splay_cmp_nid_def natof_regen key nat_slot_def) (simp_all add: upd_nat_def)
  have g: "n_tunnel (natof ?s m) = n_tunnel (natof s m)" "n_proto (natof ?s m) = n_proto (natof s m)"
    "n_hash (natof ?s m) = n_hash (natof s m)" for m by (simp_all add: natof_regen)
  have h: "nat_tree ?s = nat_tree s" "tunnels ?s = tunnels s" "nathash ?s = nathash s" "nathashsz ?s = nathashsz s"
    "active ?s = active s" "nats ?s m = None \<longleftrightarrow> nats s m = None" for m
    by (simp_all add: upd_nat_def active_def fun_eq_iff)
  show ?thesis using assms unfolding flow_inv_def f g h .
qed

lemma active_upd_nat [simp]: "active (upd_nat n f s) = active s" "gchains (upd_nat n f s) = gchains s"
  "tun_inv (upd_nat n f s) = tun_inv s" "tunnels (upd_nat n f s) = tunnels s"
proof -
  have "tun_view (upd_nat n f s) = tun_view s" by (simp add: upd_nat_def tun_view_def tun_at_def fun_eq_iff)
  then show "tun_inv (upd_nat n f s) = tun_inv s" by (rule tun_inv_view)
qed (simp_all add: upd_nat_def active_def fun_eq_iff)

lemma regen_conf:
  assumes "conf_inv s" shows "conf_inv (upd_nat n (\<lambda>e. e\<lparr>n_generation := g\<rparr>) s)"
  using assms flow_inv_regen unfolding conf_inv_def static_inv_def by (auto simp: natof_regen)

text \<open>The lists may change as long as they name the same kind of entries.\<close>

lemma conf_inv_lists:
  assumes "conf_inv s" "static_inv (s\<lparr>gchains := g\<rparr>)" shows "conf_inv (s\<lparr>gchains := g\<rparr>)"
proof -
  have "tun_view (s\<lparr>gchains := g\<rparr>) = tun_view s" by (simp add: tun_view_def tun_at_def fun_eq_iff)
  then have "tun_inv (s\<lparr>gchains := g\<rparr>)" using assms(1) tun_inv_view [of "s\<lparr>gchains := g\<rparr>" s] by (simp add: conf_inv_def)
  moreover have "flow_inv (s\<lparr>gchains := g\<rparr>)"
    by (rule flow_inv_same [OF _ sf_gchains(1) [OF same_flows_refl]]) (use assms(1) in \<open>simp add: conf_inv_def\<close>)
  ultimately show ?thesis using assms by (simp add: conf_inv_def)
qed

lemma static_inv_lists:
  assumes "static_inv s" "n \<in> active s pr" "n_flags (natof s n) AND ALL_DST \<noteq> 0" "\<And>j. n \<in> set (gchains s j) \<Longrightarrow> j = k"
  shows "static_inv (s\<lparr>gchains := ((gchains s)(k := remove1 n (gchains s k)))(0 := n # ((gchains s)(k := remove1 n (gchains s k))) 0)\<rparr>)"
proof -
  let ?g = "(gchains s)(k := remove1 n (gchains s k))"
  let ?h = "?g(0 := n # ?g 0)"
  have d: "distinct (gchains s j)" "j \<noteq> j' \<Longrightarrow> m \<in> set (gchains s j) \<Longrightarrow> m \<notin> set (gchains s j')" for j j' m
    using assms(1) unfolding static_inv_def by blast+
  have g: "set (?g j) = set (gchains s j) - {n}" "distinct (?g j)" for j
    using d(1) assms(4) by auto
  have h: "set (?h j) = (if j = 0 then insert n (set (gchains s j) - {n}) else set (gchains s j) - {n})" for j
    using g(1) [of 0] g(1) [of j] by auto
  define c where "c = ?h"
  have c: "distinct (c j)" "set (c j) = (if j = 0 then insert n (set (gchains s j) - {n}) else set (gchains s j) - {n})" for j
    using g(2) [of j] g [of 0] h [of j] unfolding c_def by auto
  have "j = j'" if "m \<in> set (c j)" "m \<in> set (c j')" for j j' m
    using that d(2) [of j j' m] unfolding c by (auto split: if_splits)
  moreover have "(\<exists>pr. m \<in> active s pr) \<and> n_flags (natof s m) AND ALL_DST \<noteq> 0" if "m \<in> set (c j)" for j m
    using that assms(1,2,3) unfolding c static_inv_def by (cases "m = n") (auto split: if_splits)
  moreover have f: "active (s\<lparr>gchains := c\<rparr>) = active s" "natof (s\<lparr>gchains := c\<rparr>) = natof s" "gchains (s\<lparr>gchains := c\<rparr>) = c"
    by (simp_all add: active_def natof_def fun_eq_iff)
  ultimately have "static_inv (s\<lparr>gchains := c\<rparr>)" using c(1) unfolding static_inv_def f by blast
  then show ?thesis unfolding c_def .
qed

lemma adopt_static_conf:
  assumes inv: "conf_inv s" and n: "n \<in> active s pr" "n_flags (natof s n) AND ALL_DST \<noteq> 0"
    and k: "case k of None \<Rightarrow> (\<forall>j. n \<notin> set (gchains s j)) | Some k \<Rightarrow> n \<in> set (gchains s k)"
  shows "conf_inv (adopt_static n k s) \<and> active (adopt_static n k s) = active s"
proof -
  define s1 where "s1 = (if n_generation (natof s n) \<le> FIRSTGEN then
       let s = (case k of None \<Rightarrow> s | Some k \<Rightarrow> s\<lparr>gchains := (gchains s)(k := remove1 n (gchains s k))\<rparr>)
       in s\<lparr>gchains := (gchains s)(0 := n # gchains s 0)\<rparr> else s)"
  have si: "static_inv s" using inv by (simp add: conf_inv_def)
  have "conf_inv s1 \<and> active s1 = active s"
  proof (cases "n_generation (natof s n) \<le> FIRSTGEN")
    case True
    obtain j where j: "\<And>i. n \<in> set (gchains s i) \<Longrightarrow> i = j" "k = Some j \<or> k = None"
      using k si unfolding static_inv_def by (cases k) (metis option.simps)+
    have "remove1 n (gchains s j) = gchains s j" if "k = None" using k that by (simp add: remove1_idem)
    then have s1: "s1 = s\<lparr>gchains := ((gchains s)(j := remove1 n (gchains s j)))(0 := n # ((gchains s)(j := remove1 n (gchains s j))) 0)\<rparr>"
      using j(2) True by (auto simp: s1_def Let_def fun_upd_idem)
    have "conf_inv s1" unfolding s1 by (rule conf_inv_lists [OF inv static_inv_lists [OF si n j(1)]])
    then show ?thesis by (simp add: s1 active_def fun_eq_iff)
  qed (simp add: s1_def inv)
  moreover have "adopt_static n k s = upd_nat n (\<lambda>e. e\<lparr>n_generation := curgen s1\<rparr>) s1"
    by (simp add: adopt_static_def s1_def Let_def)
  ultimately show ?thesis using regen_conf by simp
qed

lemma tun_view_root: "tun_view (put_root t pr r s) = tun_view s"
  by (simp add: put_root_def tun_view_def fun_eq_iff tun_at_upd) (simp add: tun_at_def)

lemma static_find_conf:
  assumes inv: "conf_inv s" and T: "tunnels s (n_tunnel k) = Some T" and run: "static_find pr k s = (n, s')"
  shows "conf_inv s' \<and> same_flows s s' \<and> lists_same s s' \<and> pools s' = pools s \<and> tunnels s' (n_tunnel k) \<noteq> None \<and>
    (n \<noteq> 0 \<longrightarrow> n \<in> active s pr \<and> n_tunnel (natof s n) = n_tunnel k \<and> nat_splay_compare_abs k (natof s n) = 0) \<and>
    (key_ok k \<longrightarrow> n = 0 \<longrightarrow> (\<forall>x \<in> set_tree (t_tnat_root T pr). nat_splay_compare_abs k (natof s x) \<noteq> 0))"
proof -
  let ?t = "n_tunnel k"
  obtain r tr where f: "nat_splay_find (lastgen s) (\<lambda>m. nat_splay_compare_abs k (natof s m)) (n_generation k) True
      (t_tnat_root (tunof s ?t) pr) = (r, tr)" by fastforce
  have tu: "tunof s ?t = T" using T by (simp add: tunof_def)
  have s': "s' = put_root ?t pr tr s" and n: "n = (case r of None \<Rightarrow> 0 | Some n \<Rightarrow> n)"
    using run f by (auto simp: static_find_def Let_def)
  note sound = splay_find_sound [OF f, unfolded tu]
  have fl: "flow_inv s" "static_inv s" "tun_inv s" using inv by (simp_all add: conf_inv_def)
  have sf: "same_flows s s'" unfolding s' by (rule sf_reroot [OF same_flows_refl]) (use sound tu in simp)
  have ls: "lists_same s s'" "pools s' = pools s" by (simp_all add: s' lists_same_def put_root_def upd_tunnel_def)
  have tn: "tunnels s' u = None \<longleftrightarrow> tunnels s u = None" for u by (simp add: s' put_root_def upd_tunnel_def)
  have "tun_inv s'" using tun_inv_view [OF tun_view_root] fl(3) s' by simp
  then have conf: "conf_inv s'"
    using flow_inv_same [OF fl(1) sf] static_inv_same [OF fl(2) _ same_flows_active [OF sf]] ls inv tn
    by (simp add: conf_inv_def lists_same_def)
  have found: "n \<in> active s pr \<and> n_tunnel (natof s n) = ?t \<and> nat_splay_compare_abs k (natof s n) = 0" if nz: "n \<noteq> 0"
  proof -
    have "r = Some n" using n nz by (cases r) auto
    then show ?thesis using sound flow_inv_root [OF fl(1) T] by blast
  qed
  have "\<forall>x \<in> set_tree (t_tnat_root T pr). nat_splay_compare_abs k (natof s x) \<noteq> 0" if ok: "key_ok k" and n0: "n = 0"
  proof -
    have ord: "ordered_by key_ok nat_splay_compare_abs (map (natof s) (inorder (t_tnat_root T pr)))"
    proof -
      have "ordered_by (\<lambda>n. key_ok (natof s n)) (splay_cmp_nid s) (inorder (t_tnat_root T pr))"
        using fl(1) T unfolding flow_inv_def by blast
      then show ?thesis by (simp add: ordered_by_def sorted_wrt_map splay_cmp_nid_def)
    qed
    have fa: "falls (\<lambda>m. nat_splay_compare_abs k (natof s m)) (inorder (t_tnat_root T pr))"
      using splay_cmp.ordered_falls [OF ord ok] by (simp add: falls_def sorted_wrt_map)
    have rn: "r = None"
    proof (cases r)
      case (Some m)
      then show ?thesis using n n0 sound flow_inv_root [OF fl(1) T] flow_inv_live [OF fl(1)] by fastforce
    qed
    show ?thesis
    proof (cases "t_tnat_root T pr = Leaf")
      case False
      obtain l x r' where sp: "nat_splay_splay (\<lambda>m. nat_splay_compare_abs k (natof s m)) (t_tnat_root T pr) = Node l x r'"
        and l: "\<forall>a \<in> set (inorder l). nat_splay_compare_abs k (natof s a) > 0"
        and r': "\<forall>b \<in> set (inorder r'). nat_splay_compare_abs k (natof s b) < 0"
        using splay_splits [OF fa False] by (auto simp: root_splits_def)
      have "inorder (t_tnat_root T pr) = inorder l @ x # inorder r'"
        using inorder_splay [of "\<lambda>m. nat_splay_compare_abs k (natof s m)" "t_tnat_root T pr"] sp by simp
      then have "set_tree (t_tnat_root T pr) = set (inorder l @ x # inorder r')" by (metis set_inorder)
      moreover have "nat_splay_compare_abs k (natof s x) \<noteq> 0"
        using f rn sp tu by (auto simp: nat_splay_find_def nat_splay_find_root_def split: if_splits)
      ultimately show ?thesis using l r' by auto
    qed simp
  qed
  then show ?thesis using conf sf ls found tn T by auto
qed

subsection \<open>Deleting\<close>

text \<open>What the steps of del_nat leave alone, but for the static list.\<close>

definition conf_frame :: "aftr \<Rightarrow> (ttree \<times> (nat \<Rightarrow> tid) \<times> nat \<times> u32 \<times> nat \<times> (tid \<Rightarrow> (bytes \<times> nat) option)) \<times> u32 \<times> u32 \<times> (tid \<Rightarrow> bool)" where
  "conf_frame s = (tun_view s, lastgen s, curgen s, \<lambda>t. tunnels s t = None)"

definition list_frame :: "aftr \<Rightarrow> (nat \<Rightarrow> nid list) \<times> nid \<times> nid" where
  "list_frame s = (gchains s, gc_ptr s, bt_ptr s)"

lemma frames_upd [simp]:
  "conf_frame (upd_nat n f s) = conf_frame s" "list_frame (upd_nat n f s) = list_frame s"
  "conf_frame (upd_pool i g s) = conf_frame s" "list_frame (upd_pool i g s) = list_frame s"
  "conf_frame (count_del n s) = conf_frame s" "list_frame (count_del n s) = list_frame s"
  "conf_frame (put_tree pr x s) = conf_frame s" "list_frame (put_tree pr x s) = list_frame s"
  "conf_frame (put_root t pr r s) = conf_frame s" "list_frame (put_root t pr r s) = list_frame s"
  "conf_frame (upd_tunnel t (\<lambda>t. t\<lparr>t_tnatcnt := c t\<rparr>) s) = conf_frame s" "list_frame (upd_tunnel t h s) = list_frame s"
  "conf_frame (s\<lparr>nathash := b\<rparr>) = conf_frame s" "list_frame (s\<lparr>nathash := b\<rparr>) = list_frame s"
  "conf_frame (s\<lparr>nats := m\<rparr>) = conf_frame s" "list_frame (s\<lparr>nats := m\<rparr>) = list_frame s"
  by (simp_all add: conf_frame_def list_frame_def tun_view_def tun_at_def upd_nat_def upd_pool_def count_del_def Let_def put_tree_def
      put_root_def upd_tunnel_def fun_eq_iff option.map_comp o_def)

lemma frames_heap: "only_heap s s' \<Longrightarrow> conf_frame s' = conf_frame s \<and> list_frame s' = list_frame s"
  by (auto simp: only_heap_def conf_frame_def list_frame_def tun_view_def tun_at_def)

lemma frames_unchain:
  "conf_frame (unchain_nat n k s) = conf_frame s"
  "gchains (unchain_nat n k s) = (case k of None \<Rightarrow> gchains s | Some k \<Rightarrow> (gchains s)(k := remove1 n (gchains s k)))"
  "list_frame (unchain_nat n None s) = list_frame s"
  by (auto simp: unchain_nat_def Let_def conf_frame_def list_frame_def tun_view_def tun_at_def upd_nat_def split: option.split)

lemma del_nat_frames:
  "conf_frame (del_nat cfg n k s) = conf_frame s"
  "gchains (del_nat cfg n k s) = (case k of None \<Rightarrow> gchains s | Some k \<Rightarrow> (gchains s)(k := remove1 n (gchains s k)))"
  "list_frame (del_nat cfg n None s) = list_frame s"
proof -
  let ?t = "n_tunnel (natof s n)" and ?pr = "pr_of_proto (n_proto (natof s n))"
  define s0 where "s0 = (if hidx (count_del n s) n \<noteq> 0 then nat_heap_delete (hidx (count_del n s) n) (count_del n s)
    else count_del n s)"
  define s1 where "s1 = (\<lambda>k. unchain_nat n k (upd_nat n (\<lambda>e. e\<lparr>n_heap_index := 0\<rparr>) s0))"
  have "only_heap (count_del n s) s0" unfolding s0_def by (auto intro: only_heap_intros only_heap_delete)
  then have h: "conf_frame s0 = conf_frame s" "list_frame s0 = list_frame s" using frames_heap by force+
  have u: "conf_frame (s1 k) = conf_frame s" "list_frame (s1 None) = list_frame s"
    "gchains (s1 k) = (case k of None \<Rightarrow> gchains s | Some k \<Rightarrow> (gchains s)(k := remove1 n (gchains s k)))" for k
    using h by (simp_all add: s1_def frames_unchain) (simp add: list_frame_def split: option.split)
  define s2 where "s2 = (\<lambda>k. upd_tunnel ?t (\<lambda>t. t\<lparr>t_tnatcnt := (t_tnatcnt t)(?pr := isc_decr_u16 (t_tnatcnt t ?pr))\<rparr>)
    (put_root ?t ?pr (snd (nat_splay_remove (splay_cmp_nid (put_tree ?pr (nat_tree_remove n (nat_tree (s1 k) ?pr)) (s1 k)) n) n
       (t_tnat_root (tunof (put_tree ?pr (nat_tree_remove n (nat_tree (s1 k) ?pr)) (s1 k)) ?t) ?pr)))
     (put_tree ?pr (nat_tree_remove n (nat_tree (s1 k) ?pr)) (s1 k))))"
  define s3 where "s3 = (\<lambda>k. if n_hash (natof (s2 k) n) < nathashsz (s2 k) \<and> nathash (s2 k) (n_hash (natof (s2 k) n)) = n
    then (s2 k)\<lparr>nathash := (nathash (s2 k))(n_hash (natof (s2 k) n) := 0)\<rparr> else s2 k)"
  have f: "conf_frame (s3 k) = conf_frame (s1 k) \<and> list_frame (s3 k) = list_frame (s1 k)" for k
    by (simp add: s3_def s2_def)
  have "del_nat cfg n k s = (s3 k)\<lparr>nats := (nats (s3 k))(n := None)\<rparr> \<or> (\<exists>i. del_nat cfg n k s = hold_nat cfg i ?pr n (s3 k))" for k
  proof -
    have "del_nat cfg n k s = (case pool_of_nat n (s3 k) of None \<Rightarrow> (s3 k)\<lparr>nats := (nats (s3 k))(n := None)\<rparr> | Some i \<Rightarrow>
        if nport_of (natof (s3 k) n) < unat (p_minport (poolof (s3 k) i) ?pr) \<or> nport_of (natof (s3 k) n) > unat (p_maxport (poolof (s3 k) i) ?pr)
        then (s3 k)\<lparr>nats := (nats (s3 k))(n := None)\<rparr> else hold_nat cfg i ?pr n (s3 k))"
      unfolding del_nat_def Let_def s0_def [symmetric] s3_def s2_def s1_def ..
    then show ?thesis by (auto split: option.split)
  qed
  note cases = this
  have hold: "conf_frame (hold_nat cfg i pr n s) = conf_frame s" "list_frame (hold_nat cfg i pr n s) = list_frame s" for i pr s
    by (simp_all add: hold_nat_def)
  have g: "conf_frame (del_nat cfg n k s) = conf_frame (s1 k) \<and> list_frame (del_nat cfg n k s) = list_frame (s1 k)" for k
    using cases [of k] by (elim disjE exE) (simp_all add: f hold)
  show "conf_frame (del_nat cfg n k s) = conf_frame s" "list_frame (del_nat cfg n None s) = list_frame s" using g u by simp_all
  show "gchains (del_nat cfg n k s) = (case k of None \<Rightarrow> gchains s | Some k \<Rightarrow> (gchains s)(k := remove1 n (gchains s k)))"
    using g [of k] u(3) [of k] by (simp add: list_frame_def)
qed

lemma conf_frame_inv: "conf_frame s' = conf_frame s \<Longrightarrow> tun_inv s' = tun_inv s \<and> lastgen s' = lastgen s \<and> curgen s' = curgen s \<and>
    (\<forall>t. tunnels s' t = None \<longleftrightarrow> tunnels s t = None)"
  using tun_inv_view [of s' s] by (auto simp: conf_frame_def fun_eq_iff)

text \<open>The entry is gone from every structure and from its list; the other entries stay.\<close>

lemma del_nat_conf:
  assumes inv: "conf_inv s" and n: "n \<in> active s pr"
    and k: "case k of None \<Rightarrow> (\<forall>j. n \<notin> set (gchains s j)) | Some k \<Rightarrow> n \<in> set (gchains s k)"
  shows "conf_inv (del_nat cfg n k s) \<and> active (del_nat cfg n k s) = (active s)(pr := active s pr - {n}) \<and>
    (\<forall>j. gchains (del_nat cfg n k s) j = filter (\<lambda>m. m \<noteq> n) (gchains s j)) \<and>
    (\<forall>m. m \<noteq> n \<longrightarrow> map_option flow_key (nats (del_nat cfg n k s) m) = map_option flow_key (nats s m)) \<and>
    lastgen (del_nat cfg n k s) = lastgen s \<and> curgen (del_nat cfg n k s) = curgen s"
proof -
  let ?s = "del_nat cfg n k s"
  have i: "flow_inv s" "static_inv s" "tun_inv s" "\<forall>t. tunnels s t \<noteq> None \<longrightarrow> t < 2 ^ 31" using inv by (simp_all add: conf_inv_def)
  note F = del_nat_flows [OF i(1) n, of cfg k]
  have st: "distinct (gchains s j)" "n \<in> set (gchains s j) \<Longrightarrow> n \<in> set (gchains s j') \<Longrightarrow> j = j'" for j j'
    using i(2) unfolding static_inv_def by blast+
  have ne: "(\<noteq>) n = (\<lambda>m. m \<noteq> n)" by auto
  have c: "gchains ?s j = filter (\<lambda>m. m \<noteq> n) (gchains s j)" for j
  proof (cases "n \<in> set (gchains s j)")
    case True
    then have "k = Some j" using k st(2) by (cases k) auto
    then show ?thesis using distinct_remove1_removeAll [OF st(1)] by (simp add: del_nat_frames removeAll_filter_not_eq ne)
  next
    case False
    then have "filter (\<lambda>m. m \<noteq> n) (gchains s j) = gchains s j" by (auto intro: filter_True)
    then show ?thesis using False by (cases k) (auto simp: del_nat_frames remove1_idem)
  qed
  have key: "flow_key (natof ?s m) = flow_key (natof s m)" if "m \<noteq> n" for m by (rule natof_flow_key) (use F that in blast)
  have "static_inv ?s"
    unfolding static_inv_def
  proof (intro conjI allI impI)
    fix j show "distinct (gchains ?s j)" using st(1) by (simp add: c)
  next
    fix j j' m assume "m \<in> set (gchains ?s j)" "m \<in> set (gchains ?s j')"
    then show "j = j'" using i(2) unfolding c static_inv_def by auto
  next
    fix j m assume "m \<in> set (gchains ?s j)"
    then have m: "m \<in> set (gchains s j)" "m \<noteq> n" unfolding c by auto
    then obtain p where p: "m \<in> active s p" "n_flags (natof s m) AND ALL_DST \<noteq> 0" using i(2) unfolding static_inv_def by blast
    then show "\<exists>p. m \<in> active ?s p" using F m(2) by (auto simp: fun_eq_iff)
    show "n_flags (natof ?s m) AND ALL_DST \<noteq> 0" using p(2) key [OF m(2)] by (simp add: flow_key_def)
  qed
  then show ?thesis
    using F c conf_frame_inv [OF del_nat_frames(1) [of cfg n k s]] i by (simp add: conf_inv_def)
qed

section \<open>The collector\<close>

text \<open>
  From \<open>s\<close> to \<open>s'\<close> exactly the entries in \<open>E\<close> were deleted: they are in no structure and in no
  list, and all others are as they were.
\<close>

definition gc_rel :: "nid set \<Rightarrow> aftr \<Rightarrow> aftr \<Rightarrow> bool" where
  "gc_rel E s s' \<longleftrightarrow> conf_inv s' \<and> (\<forall>pr. active s' pr = active s pr - E) \<and>
     (\<forall>j. gchains s' j = filter (\<lambda>m. m \<notin> E) (gchains s j)) \<and>
     (\<forall>m. m \<notin> E \<longrightarrow> map_option flow_key (nats s' m) = map_option flow_key (nats s m)) \<and>
     lastgen s' = lastgen s \<and> curgen s' = curgen s"

lemma gc_rel_refl: "conf_inv s \<Longrightarrow> gc_rel {} s s"
  by (simp add: gc_rel_def)

lemma gc_rel_trans: "gc_rel E s t \<Longrightarrow> gc_rel F t u \<Longrightarrow> gc_rel (E \<union> F) s u"
  by (auto simp: gc_rel_def intro: filter_cong)

lemma gc_rel_key: "gc_rel E s s' \<Longrightarrow> m \<notin> E \<Longrightarrow> flow_key (natof s' m) = flow_key (natof s m)"
  by (rule natof_flow_key) (simp add: gc_rel_def)

lemma conf_inv_ptr: "conf_inv s \<Longrightarrow> gc_rel {} s (s\<lparr>gc_ptr := p\<rparr>)"
proof -
  assume inv: "conf_inv s"
  let ?s = "s\<lparr>gc_ptr := p\<rparr>"
  have "tun_view ?s = tun_view s" "same_flows s ?s" "active ?s = active s" "natof ?s = natof s"
    by (simp_all add: tun_view_def tun_at_def same_flows_def active_def natof_def fun_eq_iff)
  then show ?thesis
    using inv tun_inv_view [of ?s s] flow_inv_same [of s ?s] by (simp add: gc_rel_def conf_inv_def static_inv_def)
qed

lemma gc_del_conf:
  assumes inv: "conf_inv s" and n: "n \<in> set (gchains s k)"
  shows "gc_rel {n} s (gc_del cfg k n s) \<and> gc_ptr (gc_del cfg k n s) = gc_ptr s"
proof -
  let ?g = "(gchains s)(k := remove1 n (gchains s k))" let ?s = "s\<lparr>gchains := ?g\<rparr>"
  have si: "static_inv s" using inv by (simp add: conf_inv_def)
  then obtain pr where pr: "n \<in> active s pr" using n unfolding static_inv_def by blast
  have cls: "n \<in> active s p \<Longrightarrow> p = pr" for p
    using flow_inv_live [of s n] pr inv by (metis conf_inv_def)
  have d: "distinct (gchains s j)" "n \<in> set (gchains s j) \<Longrightarrow> j = k" for j using si n unfolding static_inv_def by blast+
  have g: "?g j = filter (\<lambda>m. m \<noteq> n) (gchains s j)" for j
  proof -
    have "(\<noteq>) n = (\<lambda>m. m \<noteq> n)" by auto
    moreover have "filter (\<lambda>m. m \<noteq> n) (gchains s j) = gchains s j" if "j \<noteq> k"
      using d(2) [of j] that by (auto simp: filter_id_conv)
    ultimately show ?thesis
      using distinct_remove1_removeAll [OF d(1)] by (simp add: removeAll_filter_not_eq)
  qed
  have f: "active ?s = active s" "natof ?s = natof s" "nats ?s = nats s" by (simp_all add: active_def natof_def fun_eq_iff)
  have f': "gchains ?s j = filter (\<lambda>m. m \<noteq> n) (gchains s j)" for j using g [of j] by simp
  have "static_inv ?s" using si unfolding static_inv_def f f' by auto
  then have i: "conf_inv ?s" by (rule conf_inv_lists [OF inv])
  have none: "\<forall>j. n \<notin> set (gchains ?s j)" using g by simp
  have pr': "n \<in> active ?s pr" using pr f by simp
  from del_nat_conf [OF i pr', of None cfg] none
  have D: "conf_inv (gc_del cfg k n s)" "active (gc_del cfg k n s) = (active s)(pr := active s pr - {n})"
    "\<And>j. gchains (gc_del cfg k n s) j = filter (\<lambda>m. m \<noteq> n) (gchains ?s j)"
    "\<And>m. m \<noteq> n \<Longrightarrow> map_option flow_key (nats (gc_del cfg k n s) m) = map_option flow_key (nats s m)"
    "lastgen (gc_del cfg k n s) = lastgen s" "curgen (gc_del cfg k n s) = curgen s"
    unfolding gc_del_def f by auto
  have "gchains (gc_del cfg k n s) j = filter (\<lambda>m. m \<notin> {n}) (gchains s j)" for j
    unfolding D(3) using g [of j] by simp
  moreover have "active (gc_del cfg k n s) p = active s p - {n}" for p using D(2) cls by auto
  moreover have "gc_ptr (gc_del cfg k n s) = gc_ptr s"
    using del_nat_frames(3) [of cfg n ?s] by (simp add: gc_del_def list_frame_def)
  ultimately show ?thesis using D by (simp add: gc_rel_def)
qed

lemma gc_snats_conf:
  assumes "conf_inv s" "set ns \<subseteq> set (gchains s k)" "distinct ns" "gc_snats cfg k ns r s = (stop, r', s')"
  shows "\<exists>E \<subseteq> set ns. gc_rel E s s' \<and> gc_ptr s' = gc_ptr s \<and> r' = r - int (card E) \<and>
    (if stop then r' = 0 \<and> E \<noteq> {} else E = set ns \<and> (0 < r \<longrightarrow> 0 < r'))"
  using assms
proof (induction ns arbitrary: r s)
  case (Cons n ns)
  let ?s = "gc_del cfg k n s"
  have D: "gc_rel {n} s ?s" "gc_ptr ?s = gc_ptr s" using gc_del_conf [of s n k cfg] Cons.prems by auto
  show ?case
  proof (cases "r - 1 = 0")
    case True
    then show ?thesis using Cons.prems(4) D by (intro exI [of _ "{n}"]) auto
  next
    case False
    have sub: "conf_inv ?s" "set ns \<subseteq> set (gchains ?s k)" "distinct ns" "gc_snats cfg k ns (r - 1) ?s = (stop, r', s')"
      using D(1) Cons.prems False by (auto simp: gc_rel_def)
    from Cons.IH [OF this] obtain E where E: "E \<subseteq> set ns" "gc_rel E ?s s'" "gc_ptr s' = gc_ptr s" "r' = r - 1 - int (card E)"
      "if stop then r' = 0 \<and> E \<noteq> {} else E = set ns \<and> (0 < r - 1 \<longrightarrow> 0 < r')" using D(2) by auto
    have "finite E" "n \<notin> E" using E(1) Cons.prems(3) finite_subset by auto
    then have "card ({n} \<union> E) = Suc (card E)" by simp
    then show ?thesis using E False gc_rel_trans [OF D(1) E(2)] by (intro exI [of _ "{n} \<union> E"]) auto
  qed
qed (auto intro: gc_rel_refl)

text \<open>An entry that a reload did not confirm.\<close>

definition stale :: "aftr \<Rightarrow> nid \<Rightarrow> bool" where
  "stale s n \<longleftrightarrow> FIRSTGEN \<le> n_generation (natof s n) \<and> n_generation (natof s n) < lastgen s"

lemma gc_rel_stale: "gc_rel E s s' \<Longrightarrow> m \<notin> E \<Longrightarrow> stale s' m = stale s m"
  using gc_rel_key [of E s s' m] by (simp add: stale_def gc_rel_def flow_key_def)

lemma gc_rel_filter: "gc_rel E s s' \<Longrightarrow> set (gchains s' j) = set (gchains s j) - E"
  by (auto simp: gc_rel_def)

lemma gc_conf_conf:
  assumes "conf_inv s" "set ns \<subseteq> set (gchains s 0)" "distinct ns" "0 < r" "gc_conf cfg ns r s = (stop, s')"
  shows "\<exists>E ps rest. ns = ps @ rest \<and> E = {n \<in> set ps. stale s n} \<and> gc_rel E s s' \<and> int (card E) \<le> r \<and>
    (if stop then gc_ptr s' = first_or_0 rest \<and> int (card E) = r else rest = [])"
  using assms
proof (induction ns arbitrary: r s)
  case Nil
  then show ?case using gc_rel_refl by auto
next
  case (Cons n ns)
  let ?p = "s\<lparr>gc_ptr := first_or_0 ns\<rparr>"
  have p: "gc_rel {} s ?p" "conf_inv ?p" "natof ?p = natof s" using conf_inv_ptr [OF Cons.prems(1)] by (auto simp: gc_rel_def natof_def fun_eq_iff)
  have st: "stale ?p m = stale s m" for m using gc_rel_stale [OF p(1)] by simp
  have gen: "(n_generation (natof ?p n) < FIRSTGEN \<or> n_generation (natof ?p n) \<ge> lastgen ?p) \<longleftrightarrow> \<not> stale s n"
    by (auto simp: stale_def p(3) not_le)
  show ?case
  proof (cases "stale s n")
    case False
    then have run: "gc_conf cfg ns r ?p = (stop, s')" using Cons.prems(5) gen by (simp add: Let_def)
    have "set ns \<subseteq> set (gchains ?p 0)" "distinct ns" using Cons.prems by simp_all
    from Cons.IH [OF p(2) this Cons.prems(4) run] obtain E ps rest where
      IH: "ns = ps @ rest" "E = {n \<in> set ps. stale s n}" "gc_rel E ?p s'" "int (card E) \<le> r"
      "if stop then gc_ptr s' = first_or_0 rest \<and> int (card E) = r else rest = []" unfolding st by blast
    then have "n # ns = (n # ps) @ rest" "E = {m \<in> set (n # ps). stale s m}" using False by auto
    moreover have "gc_rel E s s'" using gc_rel_trans [OF p(1) IH(3)] by simp
    ultimately show ?thesis using IH(4,5) by blast
  next
    case True
    let ?d = "gc_del cfg 0 n ?p"
    have "n \<in> set (gchains ?p 0)" using Cons.prems(2) by simp
    from gc_del_conf [OF p(2) this, of cfg]
    have D: "gc_rel {n} s ?d" "gc_ptr ?d = first_or_0 ns" using gc_rel_trans [OF p(1), of "{n}" ?d] by auto
    then have dc: "conf_inv ?d" by (simp add: gc_rel_def)
    have run: "(if r - 1 = 0 then (True, ?d) else gc_conf cfg ns (r - 1) ?d) = (stop, s')"
      using Cons.prems(5) gen True by (simp add: Let_def)
    show ?thesis
    proof (cases "r - 1 = 0")
      case r1: True
      then have "stop" "s' = ?d" using run by auto
      moreover have "{m \<in> set [n]. stale s m} = {n}" using True by auto
      ultimately have "n # ns = [n] @ ns \<and> {n} = {m \<in> set [n]. stale s m} \<and> gc_rel {n} s s' \<and> int (card {n}) \<le> r \<and>
        (if stop then gc_ptr s' = first_or_0 ns \<and> int (card {n}) = r else ns = [])" using D r1 by simp
      then show ?thesis by blast
    next
      case r1: False
      have "set ns \<subseteq> set (gchains ?d 0)" using gc_rel_filter [OF D(1)] Cons.prems(2,3) by auto
      moreover have "0 < r - 1" "gc_conf cfg ns (r - 1) ?d = (stop, s')" using r1 run Cons.prems(4) by auto
      ultimately obtain E ps rest where
        IH: "ns = ps @ rest" "E = {m \<in> set ps. stale ?d m}" "gc_rel E ?d s'" "int (card E) \<le> r - 1"
        "if stop then gc_ptr s' = first_or_0 rest \<and> int (card E) = r - 1 else rest = []"
        using Cons.IH [OF dc _ _ \<open>0 < r - 1\<close>] Cons.prems(3) by auto
      have nn: "n \<notin> set ps" using Cons.prems(3) IH(1) by auto
      have "stale ?d m = stale s m" if "m \<in> set ps" for m by (rule gc_rel_stale [OF D(1)]) (use that nn in auto)
      then have E: "E = {m \<in> set ps. stale s m}" unfolding IH(2) by auto
      have "{n} \<union> E = {m \<in> set (n # ps). stale s m}" unfolding E using True by auto
      moreover have "card ({n} \<union> E) = Suc (card E)" using nn E by simp
      moreover have "gc_rel ({n} \<union> E) s s'" by (rule gc_rel_trans [OF D(1) IH(3)])
      ultimately have "n # ns = (n # ps) @ rest \<and> {n} \<union> E = {m \<in> set (n # ps). stale s m} \<and> gc_rel ({n} \<union> E) s s' \<and>
        int (card ({n} \<union> E)) \<le> r \<and> (if stop then gc_ptr s' = first_or_0 rest \<and> int (card ({n} \<union> E)) = r else rest = [])"
        using IH(1,4,5) by (simp split: if_splits)
      then show ?thesis by blast
    qed
  qed
qed

lemma gc_orphans_conf:
  assumes "conf_inv (core c)" "distinct os" "set os \<subseteq> set (orphans c)" "distinct (orphans c)" "reload_session c = None" "0 < r"
    "gc_orphans cfg os r c = res"
  shows "\<exists>stop r' c' E. res = Some (stop, r', c') \<and> E \<subseteq> (\<Union>k \<in> set os. set (gchains (core c) k)) \<and> gc_rel E (core c) (core c') \<and>
    gc_ptr (core c') = gc_ptr (core c) \<and> needgc c' = needgc c \<and> reload_session c' = None \<and> distinct (orphans c') \<and>
    set (orphans c') \<subseteq> set (orphans c) \<and> (\<forall>k \<in> set (orphans c) - set (orphans c'). gchains (core c') k = []) \<and>
    (if stop then int (card E) = r else E = (\<Union>k \<in> set os. set (gchains (core c) k)) \<and> set (orphans c') = set (orphans c) - set os \<and>
       0 < r' \<and> r' = r - int (card E))"
  using assms
proof (induction os arbitrary: r c)
  case Nil
  then show ?case using gc_rel_refl [of "core c"]
    by (intro exI [of _ False] exI [of _ r] exI [of _ c] exI [of _ "{}"]) simp
next
  case (Cons ss os)
  obtain stop r1 s1 where g: "gc_snats cfg ss (gchains (core c) ss) r (core c) = (stop, r1, s1)" by (cases "gc_snats cfg ss (gchains (core c) ss) r (core c)")
  have si: "static_inv (core c)" using Cons.prems(1) by (simp add: conf_inv_def)
  then have dis: "distinct (gchains (core c) j)" "k \<noteq> k' \<Longrightarrow> set (gchains (core c) k) \<inter> set (gchains (core c) k') = {}" for j k k'
    unfolding static_inv_def by blast+
  from gc_snats_conf [OF Cons.prems(1) subset_refl dis(1) g] obtain E where
    E: "E \<subseteq> set (gchains (core c) ss)" "gc_rel E (core c) s1" "gc_ptr s1 = gc_ptr (core c)" "r1 = r - int (card E)"
    "if stop then r1 = 0 \<and> E \<noteq> {} else E = set (gchains (core c) ss) \<and> (0 < r \<longrightarrow> 0 < r1)" by blast
  show ?case
  proof (cases stop)
    case True
    let ?c = "c\<lparr>core := s1\<rparr>"
    have "res = Some (True, r1, ?c)" using Cons.prems(7) g True by simp
    then show ?thesis using E True Cons.prems by (intro exI [of _ True] exI [of _ r1] exI [of _ ?c] exI [of _ E]) auto
  next
    case False
    let ?c = "c\<lparr>core := s1, orphans := remove1 ss (orphans c)\<rparr>"
    have E': "E = set (gchains (core c) ss)" "0 < r1" using E(5) False Cons.prems(6) by auto
    have run: "gc_orphans cfg os r1 ?c = res" using Cons.prems(5,7) g False by simp
    have o: "set (orphans ?c) = set (orphans c) - {ss}" "distinct (orphans ?c)" using Cons.prems(4) by simp_all
    have prem: "conf_inv (core ?c)" "distinct os" "set os \<subseteq> set (orphans ?c)" "reload_session ?c = None"
      using E(2) Cons.prems o by (auto simp: gc_rel_def)
    have ch: "gchains (core ?c) k = gchains (core c) k" if "k \<noteq> ss" for k
      using E(2) dis(2) [OF that] by (auto simp: gc_rel_def E'(1) filter_id_conv)
    have ess: "gchains (core ?c) ss = []" using E(2) by (simp add: gc_rel_def E'(1))
    have un: "(\<Union>k \<in> set os. set (gchains (core ?c) k)) = (\<Union>k \<in> set os. set (gchains (core c) k))"
    proof (rule SUP_cong [OF refl])
      fix k assume "k \<in> set os"
      then have "k \<noteq> ss" using Cons.prems(2) by auto
      then show "set (gchains (core ?c) k) = set (gchains (core c) k)" using ch [of k] by simp
    qed
    note I = Cons.IH [OF prem(1-3) o(2) prem(4) E'(2) run, unfolded un]
    from I obtain stop r' c' F where
      IH: "res = Some (stop, r', c')" "F \<subseteq> (\<Union>k \<in> set os. set (gchains (core c) k))" "gc_rel F (core ?c) (core c')"
      "gc_ptr (core c') = gc_ptr (core ?c)" "needgc c' = needgc ?c" "reload_session c' = None" "distinct (orphans c')"
      "set (orphans c') \<subseteq> set (orphans ?c)" "\<forall>k \<in> set (orphans ?c) - set (orphans c'). gchains (core c') k = []"
      "if stop then int (card F) = r1 else F = (\<Union>k \<in> set os. set (gchains (core c) k)) \<and> set (orphans c') = set (orphans ?c) - set os \<and>
         0 < r' \<and> r' = r1 - int (card F)" by (elim exE conjE) (rule that)
    have "x \<notin> F" if x: "x \<in> E" for x
    proof
      assume "x \<in> F"
      then obtain k where k: "k \<in> set os" "x \<in> set (gchains (core c) k)" using IH(2) by blast
      then have "k \<noteq> ss" using Cons.prems(2) by auto
      then show False using dis(2) [of k ss] k(2) x E'(1) by blast
    qed
    then have "E \<inter> F = {}" by blast
    moreover have "finite E" "finite F" using E'(1) IH(2) finite_subset [of F] by auto
    ultimately have card: "card (E \<union> F) = card E + card F" by (simp add: card_Un_disjoint)
    have rel: "gc_rel (E \<union> F) (core c) (core c')" using gc_rel_trans [OF E(2)] IH(3) by simp
    have "gchains (core c') ss = []" using IH(3) ess by (simp add: gc_rel_def)
    then have emp: "\<forall>k \<in> set (orphans c) - set (orphans c'). gchains (core c') k = []" using IH(9) o(1) by auto
    have un2: "(\<Union>k \<in> set (ss # os). set (gchains (core c) k)) = E \<union> (\<Union>k \<in> set os. set (gchains (core c) k))" by (simp add: E'(1))
    have fin: "if stop then int (card (E \<union> F)) = r else E \<union> F = (\<Union>k \<in> set (ss # os). set (gchains (core c) k)) \<and>
       set (orphans c') = set (orphans c) - set (ss # os) \<and> 0 < r' \<and> r' = r - int (card (E \<union> F))"
    proof (cases stop)
      case True
      then show ?thesis using IH(10) E(4) card by simp
    next
      case False
      have s2: "set (orphans c) - {ss} - set os = set (orphans c) - set (ss # os)" by auto
      have a: "F = (\<Union>k \<in> set os. set (gchains (core c) k))" "set (orphans c') = set (orphans c) - {ss} - set os" "0 < r'" "r' = r1 - int (card F)"
        using IH(10) [unfolded if_not_P [OF False] o(1)] by blast+
      have "r' = r - int (card (E \<union> F))" using a(4) E(4) card by simp
      moreover have "E \<union> F = (\<Union>k \<in> set (ss # os). set (gchains (core c) k))" unfolding un2 a(1) ..
      ultimately show ?thesis unfolding if_not_P [OF False] using a(2,3) s2 by blast
    qed
    have sub: "E \<union> F \<subseteq> (\<Union>k \<in> set (ss # os). set (gchains (core c) k))" using IH(2) unfolding un2 by blast
    have o3: "set (orphans c') \<subseteq> set (orphans c)" using IH(8) o(1) by blast
    have same: "gc_ptr (core c') = gc_ptr (core c)" "needgc c' = needgc c" using IH(4,5) E(3) by simp_all
    show ?thesis using IH(1) sub rel same IH(6,7) o3 emp fin by blast
  qed
qed

text \<open>What the collector is to delete.\<close>

definition waste :: "ctl \<Rightarrow> nid set" where
  "waste c = {n \<in> set (gchains (core c) 0). stale (core c) n} \<union> (\<Union>k \<in> set (orphans c). set (gchains (core c) k))"

text \<open>Between two calls: gc_reload was just called, or what lies before gc_ptr is clean.\<close>

definition gc_ok :: "ctl \<Rightarrow> bool" where
  "gc_ok c \<longleftrightarrow> conf_inv (core c) \<and> distinct (orphans c) \<and> 0 \<notin> set (orphans c) \<and> reload_session c = None \<and>
     (needgc c = 2 \<and> gc_ptr (core c) = 0 \<or>
      needgc c = 1 \<and> (\<exists>pre. gchains (core c) 0 = pre @ from_ptr (gc_ptr (core c)) (gchains (core c) 0) \<and>
        (\<forall>n \<in> set pre. \<not> stale (core c) n)))"

lemma waste_rel:
  assumes "gc_rel E (core c) (core c')" "set (orphans c') \<subseteq> set (orphans c)"
    "\<forall>k \<in> set (orphans c) - set (orphans c'). gchains (core c') k = []"
  shows "waste c' = waste c - E"
proof -
  have e: "set (gchains (core c') k) = {}" if "k \<in> set (orphans c)" "k \<notin> set (orphans c')" for k using assms(3) that by simp
  have "(\<Union>k \<in> set (orphans c'). set (gchains (core c') k)) = (\<Union>k \<in> set (orphans c). set (gchains (core c') k))"
  proof
    show "(\<Union>k \<in> set (orphans c). set (gchains (core c') k)) \<subseteq> (\<Union>k \<in> set (orphans c'). set (gchains (core c') k))"
    proof
      fix x assume "x \<in> (\<Union>k \<in> set (orphans c). set (gchains (core c') k))"
      then obtain k where "k \<in> set (orphans c)" "x \<in> set (gchains (core c') k)" by (rule UN_E)
      moreover from this have "k \<in> set (orphans c')" using e [of k] by (cases "k \<in> set (orphans c')") simp_all
      ultimately show "x \<in> (\<Union>k \<in> set (orphans c'). set (gchains (core c') k))" by (rule_tac UN_I)
    qed
  qed (rule UN_mono [OF assms(2)], simp)
  moreover have "{n \<in> set (gchains (core c') 0). stale (core c') n} = {n \<in> set (gchains (core c) 0). stale (core c) n} - E"
  proof (rule set_eqI)
    fix n show "n \<in> {n \<in> set (gchains (core c') 0). stale (core c') n} \<longleftrightarrow> n \<in> {n \<in> set (gchains (core c) 0). stale (core c) n} - E"
      unfolding gc_rel_filter [OF assms(1)] using gc_rel_stale [OF assms(1), of n] by (cases "n \<in> E") simp_all
  qed
  moreover have "(\<Union>k \<in> set (orphans c). set (gchains (core c') k)) = (\<Union>k \<in> set (orphans c). set (gchains (core c) k)) - E"
    unfolding gc_rel_filter [OF assms(1)] by auto
  ultimately show ?thesis unfolding waste_def by (simp only: Un_Diff)
qed

lemma conf_inv_chain: "conf_inv s \<Longrightarrow> distinct (gchains s k) \<and> 0 \<notin> set (gchains s k)"
  using flow_inv_live [of s 0] unfolding conf_inv_def static_inv_def by blast

lemma from_ptr_rest: "distinct (pre @ rest) \<Longrightarrow> 0 \<notin> set rest \<Longrightarrow> from_ptr (first_or_0 rest) (pre @ rest) = rest"
proof (induction pre)
  case Nil
  then show ?case by (cases rest) (auto simp: from_ptr_def first_or_0_def)
next
  case (Cons a pre)
  then show ?case by (cases rest) (auto simp: from_ptr_def first_or_0_def)
qed

lemma conf_disjoint: "conf_inv s \<Longrightarrow> k \<noteq> k' \<Longrightarrow> set (gchains s k) \<inter> set (gchains s k') = {}"
  unfolding conf_inv_def static_inv_def by blast

lemma gc_incr_conf:
  assumes ok: "gc_ok c" and q: "0 < q"
  shows "\<exists>c' E. gc_incr cfg q c = Some c' \<and> E \<subseteq> waste c \<and> gc_rel E (core c) (core c') \<and> waste c' = waste c - E \<and>
    (needgc c' = 0 \<and> E = waste c \<and> orphans c' = [] \<or> gc_ok c' \<and> card E = q)"
proof -
  let ?s = "core c"
  have i: "conf_inv ?s" "distinct (orphans c)" "0 \<notin> set (orphans c)" "reload_session c = None" using ok by (simp_all add: gc_ok_def)
  have ng: "needgc c = 2 \<and> gc_ptr ?s = 0 \<or> needgc c = 1" using ok unfolding gc_ok_def by blast
  have q': "0 < int q" using q by simp
  from gc_orphans_conf [OF i(1,2) subset_refl i(2,4) q' refl, of cfg] obtain stop r1 c1 E1 where
    run1: "gc_orphans cfg (orphans c) (int q) c = Some (stop, r1, c1)" and
    E1: "E1 \<subseteq> (\<Union>k \<in> set (orphans c). set (gchains ?s k))" "gc_rel E1 ?s (core c1)"
    "gc_ptr (core c1) = gc_ptr ?s" "needgc c1 = needgc c" "reload_session c1 = None" "distinct (orphans c1)"
    "set (orphans c1) \<subseteq> set (orphans c)" "\<forall>k \<in> set (orphans c) - set (orphans c1). gchains (core c1) k = []" and
    end1: "if stop then int (card E1) = int q else E1 = (\<Union>k \<in> set (orphans c). set (gchains ?s k)) \<and>
       set (orphans c1) = set (orphans c) - set (orphans c) \<and> 0 < r1 \<and> r1 = int q - int (card E1)"
    by (elim exE conjE) (rule that)
  have w1: "waste c1 = waste c - E1" by (rule waste_rel [OF E1(2,7,8)])
  have E1w: "E1 \<subseteq> waste c" using E1(1) unfolding waste_def by blast
  have "set (gchains ?s 0) \<inter> E1 = {}"
  proof -
    have "set (gchains ?s 0) \<inter> set (gchains ?s k) = {}" if "k \<in> set (orphans c)" for k
      by (rule conf_disjoint [OF i(1)]) (use that i(3) in metis)
    then show ?thesis using E1(1) by blast
  qed
  then have ch1: "gchains (core c1) 0 = gchains ?s 0" using E1(2) by (auto simp: gc_rel_def filter_id_conv)
  have st1: "stale (core c1) n = stale ?s n" if "n \<in> set (gchains ?s 0)" for n
    by (rule gc_rel_stale [OF E1(2)]) (use that \<open>set (gchains ?s 0) \<inter> E1 = {}\<close> in blast)
  have c1: "conf_inv (core c1)" using E1(2) by (simp add: gc_rel_def)
  have clean1: "\<exists>pre. gchains ?s 0 = pre @ from_ptr (gc_ptr ?s) (gchains ?s 0) \<and> (\<forall>n \<in> set pre. \<not> stale (core c1) n)" if n1: "needgc c = 1"
  proof -
    obtain pre where p: "gchains ?s 0 = pre @ from_ptr (gc_ptr ?s) (gchains ?s 0)" "\<forall>n \<in> set pre. \<not> stale ?s n"
      using ok n1 unfolding gc_ok_def by auto
    have "set pre \<subseteq> set (gchains ?s 0)" by (subst p(1)) simp
    then show ?thesis using p st1 by blast
  qed
  show ?thesis
  proof (cases stop)
    case True
    have "gc_incr cfg q c = Some c1" by (simp add: gc_incr_def run1 True)
    moreover have "gc_ok c1"
      unfolding gc_ok_def using c1 E1(3-7) i(3) ng clean1 ch1 by auto
    ultimately show ?thesis using E1w E1(2) w1 end1 True by auto
  next
    case False
    have e1: "E1 = (\<Union>k \<in> set (orphans c). set (gchains ?s k))" "orphans c1 = []" "0 < r1" "r1 = int q - int (card E1)"
      using end1 [unfolded if_not_P [OF False]] by auto
    define s2 where "s2 = (if needgc c1 > 1 \<and> gc_ptr (core c1) = 0
      then (core c1)\<lparr>gc_ptr := first_or_0 (gchains (core c1) 0)\<rparr> else core c1)"
    define c2 where "c2 = (if needgc c1 > 1 then c1\<lparr>needgc := 1\<rparr> else c1)"
    have r2: "gc_rel {} (core c1) s2" using conf_inv_ptr [OF c1] gc_rel_refl [OF c1] by (simp add: s2_def)
    then have i2: "conf_inv s2" "gchains s2 0 = gchains ?s 0" using ch1 by (auto simp: gc_rel_def)
    have st2: "stale s2 n = stale (core c1) n" for n using gc_rel_stale [OF r2] by simp
    have ck: "distinct (gchains ?s 0)" "0 \<notin> set (gchains ?s 0)" using conf_inv_chain [OF i(1)] by auto
    obtain pre where pre: "gchains ?s 0 = pre @ from_ptr (gc_ptr s2) (gchains s2 0)" "\<forall>n \<in> set pre. \<not> stale (core c1) n"
    proof (cases "needgc c = 2")
      case True
      then have "gc_ptr s2 = first_or_0 (gchains ?s 0)" using ng E1(3,4) ch1 by (simp add: s2_def)
      then have "from_ptr (gc_ptr s2) (gchains s2 0) = gchains ?s 0" using from_ptr_rest [of "[]" "gchains ?s 0"] ck i2(2) by simp
      then show ?thesis using that [of "[]"] by simp
    next
      case False
      then have "needgc c = 1" "s2 = core c1" using ng E1(4) by (auto simp: s2_def)
      then show ?thesis using clean1 that ch1 E1(3) by metis
    qed
    define ns where "ns = from_ptr (gc_ptr s2) (gchains s2 0)"
    obtain stop2 s3 where run2: "gc_conf cfg ns r1 s2 = (stop2, s3)" by fastforce
    have pre': "gchains ?s 0 = pre @ ns" using pre(1) by (simp add: ns_def)
    then have nsub: "set ns \<subseteq> set (gchains s2 0)" "distinct ns" using ck(1) i2(2) by auto
    from gc_conf_conf [OF i2(1) nsub e1(3) run2] obtain E2 ps rest where
      E2: "ns = ps @ rest" "E2 = {n \<in> set ps. stale s2 n}" "gc_rel E2 s2 s3" "int (card E2) \<le> r1"
      "if stop2 then gc_ptr s3 = first_or_0 rest \<and> int (card E2) = r1 else rest = []" by blast
    define c3 where "c3 = (if stop2 then c2\<lparr>core := s3\<rparr> else c2\<lparr>core := s3, needgc := 0\<rparr>)"
    have run: "gc_incr cfg q c = Some c3"
      using run1 False run2 unfolding gc_incr_def Let_def c3_def c2_def ns_def s2_def by simp
    have c3: "core c3 = s3" "orphans c3 = []" "reload_session c3 = None" using e1(2) E1(5) by (simp_all add: c3_def c2_def)
    have rel: "gc_rel (E1 \<union> E2) ?s (core c3)" using gc_rel_trans [OF gc_rel_trans [OF E1(2) r2] E2(3)] c3(1) by simp
    have E2s: "E2 = {n \<in> set ps. stale ?s n}"
      unfolding E2(2) st2 using st1 pre' E2(1) by auto
    have sub: "E1 \<union> E2 \<subseteq> waste c" using E1w E2s pre' E2(1) unfolding waste_def by auto
    have emp: "\<forall>k \<in> set (orphans c) - set (orphans c3). gchains (core c3) k = []"
      using E1(8) e1(2) E2(3) r2 c3 by (auto simp: gc_rel_def)
    have w: "waste c3 = waste c - (E1 \<union> E2)" by (rule waste_rel [OF rel _ emp]) (simp add: c3)
    have disj: "E1 \<inter> E2 = {}" using \<open>set (gchains ?s 0) \<inter> E1 = {}\<close> pre' E2(1) E2s by auto
    have fin: "finite E1" "finite E2" unfolding e1(1) E2s by simp_all
    have card: "card (E1 \<union> E2) = card E1 + card E2" by (rule card_Un_disjoint [OF fin disj])
    show ?thesis
    proof (cases stop2)
      case False
      then have "rest = []" using E2(5) by simp
      then have "{n \<in> set (gchains ?s 0). stale ?s n} = E2"
        unfolding E2s using pre' E2(1) pre(2) st1 by auto
      then have "E1 \<union> E2 = waste c" unfolding waste_def e1(1) by blast
      then show ?thesis using run sub rel w False c3 by (intro exI [of _ c3] exI [of _ "E1 \<union> E2"]) (simp add: c3_def)
    next
      case True
      have ptr: "gc_ptr s3 = first_or_0 rest" "card (E1 \<union> E2) = q" using E2(5) True e1(4) card by simp_all
      have d: "distinct (pre @ ps @ rest)" using ck(1) pre' E2(1) by simp
      define pre3 where "pre3 = filter (\<lambda>m. m \<notin> E2) (pre @ ps)"
      have ch3: "gchains s3 0 = pre3 @ rest"
      proof -
        have "filter (\<lambda>m. m \<notin> E2) rest = rest" using d E2s by (auto simp: filter_id_conv)
        then show ?thesis using E2(3) i2(2) pre' E2(1) by (simp add: gc_rel_def pre3_def)
      qed
      have i3: "conf_inv s3" using E2(3) by (simp add: gc_rel_def)
      have "from_ptr (gc_ptr s3) (gchains s3 0) = rest"
        unfolding ptr(1) ch3 by (rule from_ptr_rest) (use conf_inv_chain [OF i3, of 0] ch3 in auto)
      moreover have "\<not> stale s3 n" if n: "n \<in> set pre3" for n
      proof -
        have "n \<notin> E2" "n \<in> set pre \<or> n \<in> set ps" using n by (auto simp: pre3_def)
        then have "stale s3 n = stale s2 n" "\<not> stale s2 n" using gc_rel_stale [OF E2(3)] pre(2) st2 E2(2) by auto
        then show ?thesis by simp
      qed
      moreover have "needgc c3 = 1" using True ng E1(4) by (auto simp: c3_def c2_def)
      ultimately have "gc_ok c3" unfolding gc_ok_def using c3 i3 ch3 by auto
      then show ?thesis using run sub rel w ptr(2) by blast
    qed
  qed
qed

text \<open>The main loop: \<open>if (needgc) gc_incr()\<close>, once in every pass; \<open>m\<close> passes.\<close>

fun gc_run :: "config \<Rightarrow> nat \<Rightarrow> nat \<Rightarrow> ctl \<Rightarrow> ctl option" where
  "gc_run cfg q 0 c = Some c"
| "gc_run cfg q (Suc m) c = (if needgc c = 0 then Some c else Option.bind (gc_incr cfg q c) (gc_run cfg q m))"

lemma gc_run_done: "needgc c = 0 \<Longrightarrow> gc_run cfg q m c = Some c"
  by (cases m) simp_all

lemma gc_run_ends:
  assumes "gc_ok c" "0 < q"
  shows "\<exists>c'. gc_run cfg q (Suc (card (waste c) div q)) c = Some c' \<and> needgc c' = 0 \<and> orphans c' = [] \<and>
    gc_rel (waste c) (core c) (core c')"
  using assms(1)
proof (induction "card (waste c)" arbitrary: c rule: less_induct)
  case less
  have ng: "needgc c \<noteq> 0" using less.prems by (auto simp: gc_ok_def)
  from gc_incr_conf [OF less.prems assms(2), of cfg] obtain c1 E where
    one: "gc_incr cfg q c = Some c1" "E \<subseteq> waste c" "gc_rel E (core c) (core c1)" "waste c1 = waste c - E" and
    then2: "needgc c1 = 0 \<and> E = waste c \<and> orphans c1 = [] \<or> gc_ok c1 \<and> card E = q" by blast
  have step: "gc_run cfg q (Suc m) c = gc_run cfg q m c1" for m using ng one(1) by simp
  show ?case
  proof (cases "needgc c1 = 0 \<and> E = waste c \<and> orphans c1 = []")
    case True
    then show ?thesis using one(3) step gc_run_done [of c1] by simp
  next
    case False
    then have g: "gc_ok c1" "card E = q" using then2 by auto
    have fin: "finite (waste c)" unfolding waste_def by simp
    have le: "q \<le> card (waste c)" using card_mono [OF fin one(2)] g(2) by simp
    have card: "card (waste c1) = card (waste c) - q"
      unfolding one(4) using card_Diff_subset [OF finite_subset [OF one(2) fin] one(2)] g(2) by simp
    have div: "card (waste c) div q = Suc (card (waste c1) div q)"
      unfolding card using le_div_geq [OF assms(2) le] .
    have "card (waste c1) < card (waste c)" using card le assms(2) by simp
    from less.hyps [OF this g(1)] obtain c' where c': "gc_run cfg q (Suc (card (waste c1) div q)) c1 = Some c'"
      "needgc c' = 0" "orphans c' = []" "gc_rel (waste c1) (core c1) (core c')" by blast
    have "E \<union> waste c1 = waste c" using one(2,4) by blast
    then have "gc_rel (waste c) (core c) (core c')" using gc_rel_trans [OF one(3) c'(4)] by simp
    moreover have "gc_run cfg q (Suc (card (waste c) div q)) c = Some c'" unfolding step div by (rule c'(1))
    ultimately show ?thesis using c'(2,3) by blast
  qed
qed

section \<open>The commands keep the invariant\<close>

lemma conf_inv_new:
  assumes inv: "conf_inv s" and n: "nats s n = None" and e: "key_ok e"
  shows "flow_inv (s\<lparr>nats := (nats s)(n \<mapsto> e)\<rparr>) \<and> active (s\<lparr>nats := (nats s)(n \<mapsto> e)\<rparr>) = active s \<and> (\<forall>pr. n \<notin> active s pr)"
proof -
  have fi: "flow_inv s" using inv by (simp add: conf_inv_def)
  have out: "\<forall>pr. n \<notin> active s pr" using flow_inv_live [OF fi, of n] n by blast
  have sf: "same_flows s (s\<lparr>nats := (nats s)(n \<mapsto> e)\<rparr>)" by (rule sf_forget [OF same_flows_refl out])
  show ?thesis using flow_inv_same [OF fi sf] same_flows_active [OF sf] out by simp
qed

lemma link_static_conf:
  assumes inv: "conf_inv s" and n: "nats s n = None" "n \<noteq> 0" and e: "key_ok e" "n_flags e AND ALL_DST \<noteq> 0"
    and pr: "n_proto e = IPTCP \<or> n_proto e = IPUDP" and T: "tunnels s (n_tunnel e) \<noteq> None"
    and run: "link_static prr ss n (s\<lparr>nats := (nats s)(n \<mapsto> e)\<rparr>) = (r, s')"
  shows "conf_inv s' \<and> (if r then active s' = (active s)(static_pr (n_proto e) := insert n (active s (static_pr (n_proto e)))) \<and>
       nats s' = (nats s)(n \<mapsto> e) \<and> gchains s' = (gchains s)(static_list ss s := n # gchains s (static_list ss s))
     else active s' = active s \<and> nats s' = nats s \<and> gchains s' = gchains s)"
proof -
  let ?s = "s\<lparr>nats := (nats s)(n \<mapsto> e)\<rparr>"
  note N = conf_inv_new [OF inv n(1) e(1)]
  have fi: "flow_inv ?s" and act: "active ?s = active s" and out: "\<And>pr. n \<notin> active ?s pr" using N by auto
  obtain T0 where T0: "tunnels ?s (n_tunnel e) = Some T0" using T by auto
  have pe: "static_pr (n_proto e) = pr_of_proto (n_proto e)" using static_pr_proto [OF pr] by simp
  have sn: "nats ?s n = Some e" by simp
  note L = link_static_flows [OF fi out n(2) sn e(1) refl pe T0 run]
  have "static_list ss ?s = static_list ss s" by (simp add: static_list_def)
  have fr: "conf_frame s' = conf_frame ?s"
  proof -
    have "conf_frame (u\<lparr>gchains := g\<rparr>) = conf_frame u" "conf_frame (u\<lparr>prrcnt := k\<rparr>) = conf_frame u" "conf_frame (u\<lparr>snatcnt := k\<rparr>) = conf_frame u" for u g k
      by (simp_all add: conf_frame_def tun_view_def tun_at_def fun_eq_iff)
    then show ?thesis using run
      by (auto simp: link_static_def Let_def split: option.splits prod.splits)
  qed
  have F: "tun_inv s'" "\<And>t. tunnels s' t \<noteq> None \<Longrightarrow> t < 2 ^ 31"
    using conf_frame_inv [OF fr] conf_frame_inv [of ?s s] inv by (auto simp: conf_inv_def)
  have si: "static_inv s" using inv by (simp add: conf_inv_def)
  have old: "natof s' m = natof s m" if "m \<noteq> n" for m using L that by (auto simp: natof_def split: if_splits)
  have nin: "n \<notin> set (gchains s k)" for k using si N unfolding static_inv_def by blast
  show ?thesis
  proof (cases r)
    case True
    let ?k = "static_list ss s"
    have R: "flow_inv s'" "active s' = (active s)(static_pr (n_proto e) := insert n (active s (static_pr (n_proto e))))"
      "nats s' = (nats s)(n \<mapsto> e)" "gchains s' = (gchains s)(?k := n # gchains s ?k)"
      using L True act \<open>static_list ss ?s = static_list ss s\<close> by simp_all
    have ne: "natof s' n = e" using R(3) by (simp add: natof_def)
    have d: "distinct (gchains s j)" "j \<noteq> j' \<Longrightarrow> m \<in> set (gchains s j) \<Longrightarrow> m \<notin> set (gchains s j')" for j j' m
      using si unfolding static_inv_def by blast+
    have c: "m \<in> set (gchains s' j) \<longleftrightarrow> m \<in> set (gchains s j) \<or> m = n \<and> j = ?k" for m j using R(4) by auto
    have "static_inv s'"
      unfolding static_inv_def
    proof (intro conjI allI impI)
      fix j show "distinct (gchains s' j)" using d(1) nin R(4) by simp
    next
      fix j j' m assume "m \<in> set (gchains s' j)" "m \<in> set (gchains s' j')"
      then show "j = j'" unfolding c using d(2) nin by blast
    next
      fix j m assume m: "m \<in> set (gchains s' j)"
      show "\<exists>p. m \<in> active s' p" using m si unfolding c static_inv_def R(2) by (metis fun_upd_apply insertCI)
      show "n_flags (natof s' m) AND ALL_DST \<noteq> 0"
        using m si old [of m] ne e(2) nin unfolding c static_inv_def by (cases "m = n") auto
    qed
    then show ?thesis using True R F by (simp add: conf_inv_def)
  next
    case False
    have R: "same_flows ?s s'" "nats s' = (nats ?s)(n := None)" "gchains s' = gchains s" using L False by simp_all
    have ns: "nats s' = nats s" using R(2) n(1) by (simp add: fun_upd_idem)
    have as: "active s' = active s" using same_flows_active [OF R(1)] act by simp
    show ?thesis using False R(3) ns as F flow_inv_same [OF fi R(1)] static_inv_same [OF si R(3) as ns] by (simp add: conf_inv_def)
  qed
qed

definition alloc_ok :: "alloc \<Rightarrow> aftr \<Rightarrow> bool" where
  "alloc_ok al s \<longleftrightarrow> al_tid al \<noteq> 0 \<and> al_tid al < 2 ^ 31 \<and> tunnels s (al_tid al) = None \<and> al_nid al \<noteq> 0 \<and> nats s (al_nid al) = None"

text \<open>A static entry was made: everywhere it belongs, and nothing else changed.\<close>

definition static_added :: "bytes \<Rightarrow> nat_entry \<Rightarrow> nid \<Rightarrow> nat \<Rightarrow> aftr \<Rightarrow> aftr \<Rightarrow> bool" where
  "static_added peer e n ss s s' \<longleftrightarrow> active s' = (active s)(static_pr (n_proto e) := insert n (active s (static_pr (n_proto e)))) \<and>
     nats s' = (nats s)(n \<mapsto> e) \<and> gchains s' = (gchains s)(static_list ss s := n # gchains s (static_list ss s)) \<and>
     (\<exists>T. tunnels s' (n_tunnel e) = Some T \<and> t_remote T = peer)"

definition static_refused :: "aftr \<Rightarrow> aftr \<Rightarrow> bool" where
  "static_refused s s' \<longleftrightarrow> active s' = active s \<and> nats s' = nats s \<and> gchains s' = gchains s"

lemma static_refused_refl: "static_refused s s"
  by (simp add: static_refused_def)

text \<open>The tunnel of an address, made when there is none.\<close>

lemma static_tunnel_conf:
  assumes inv: "conf_inv s" and al: "alloc_ok al s" and peer: "length peer = 16" and look: "tunnel_lookup peer s = (t0, s1)"
    and run: "(if t0 = 0 then add_stdtunnel cfg (al_mem al) (al_tid al) peer src s1 else Some (t', s1)) = Some (t, s2)"
    "t0 \<noteq> 0 \<longrightarrow> t' = t0 \<or> t' = 0"
  shows "conf_inv s2 \<and> active s2 = active s \<and> lists_same s s2 \<and>
    (t \<noteq> 0 \<longrightarrow> (\<exists>T. tunnels s2 t = Some T \<and> t_remote T = peer)) \<and> (t = 0 \<or> t = al_tid al \<or> t = t0)"
proof -
  note L = tunnel_lookup_conf [OF inv peer look]
  have a1: "active s1 = active s" using L same_flows_active by blast
  show ?thesis
  proof (cases "t0 = 0")
    case True
    then have s1: "s1 = s" using L by simp
    have "add_stdtunnel cfg (al_mem al) (al_tid al) peer src s = Some (t, s2)" using run True s1 by simp
    from add_stdtunnel_conf [OF inv peer _ _ _ this] al show ?thesis by (auto simp: alloc_ok_def)
  next
    case False
    then have "s2 = s1" "t = t'" using run by auto
    then show ?thesis using L a1 run(2) False by auto
  qed
qed

lemma link_static_tunnel:
  assumes "link_static prr ss n s = (r, s')"
  shows "map_option (\<lambda>T. (t_remote T, t_flags T)) (tunnels s' t) = map_option (\<lambda>T. (t_remote T, t_flags T)) (tunnels s t)"
  using assms
  by (auto simp: link_static_def Let_def upd_tunnel_def put_root_def put_tree_def option.map_comp o_def
      split: option.splits prod.splits if_splits)

lemma add_snat0_spec:
  assumes inv: "conf_inv s" and al: "alloc_ok al s" and peer: "length src6 = 16" and len: "4 \<le> length src" "4 \<le> length nsrc"
    "2 \<le> length sport" "2 \<le> length nport" and proto: "proto = IPTCP \<or> proto = IPUDP"
    and run: "add_snat0 cfg al ss src6 proto src sport nsrc nport s = Some (n, s')"
  shows "conf_inv s' \<and> (n = 0 \<and> static_refused s s' \<or> n = al_nid al \<and>
    (\<exists>t i. static_added src6 (static_entry t proto (ALL_DST OR MATCH_PORT) src sport nsrc nport (curgen s)) n ss s s' \<and>
       t_flags (tunof s' t) AND TUNNONAT = 0 \<and>
       find_pool nsrc s = Some i \<and> \<not> dynamic_port i (static_pr proto) nport s))"
proof -
  obtain t0 s1 where look: "tunnel_lookup src6 s = (t0, s1)" by fastforce
  show ?thesis
  proof (cases "\<exists>i. find_pool nsrc s = Some i \<and> \<not> dynamic_port i (static_pr proto) nport s")
    case False
    then have "n = 0" "s' = s" using run by (auto simp: add_snat0_def Let_def split: option.splits if_splits)
    then show ?thesis using inv static_refused_refl by simp
  next
    case True
    then obtain i where i: "find_pool nsrc s = Some i" "\<not> dynamic_port i (static_pr proto) nport s" by blast
    have "(if t0 = 0 then add_stdtunnel cfg (al_mem al) (al_tid al) src6 (Some nsrc) s1 else Some (t0, s1)) \<noteq> None"
      using run i look by (auto simp: add_snat0_def Let_def split: option.splits)
    then obtain t s2 where tun: "(if t0 = 0 then add_stdtunnel cfg (al_mem al) (al_tid al) src6 (Some nsrc) s1 else Some (t0, s1)) = Some (t, s2)"
      by auto
    have C: "conf_inv s2 \<and> active s2 = active s \<and> lists_same s s2 \<and>
      (t \<noteq> 0 \<longrightarrow> (\<exists>T. tunnels s2 t = Some T \<and> t_remote T = src6)) \<and> (t = 0 \<or> t = al_tid al \<or> t = t0)"
      by (rule static_tunnel_conf [OF inv al peer look tun]) simp
    have ref: "static_refused s s2" using C by (simp add: static_refused_def lists_same_def)
    note run2 = run [unfolded add_snat0_def Let_def i(1) option.case if_not_P [OF i(2)] look prod.case tun]
    show ?thesis
    proof (cases "t = 0 \<or> t_flags (tunof s2 t) AND TUNNONAT \<noteq> 0 \<or> \<not> al_mem al 3")
      case True
      then have "n = 0" "s' = s2" using run2 by (auto split: if_splits)
      then show ?thesis using C ref by simp
    next
      case False
      let ?n = "al_nid al"
      let ?e = "static_entry t proto (ALL_DST OR MATCH_PORT) src sport nsrc nport (curgen s2)"
      have nonat: "t_flags T AND TUNNONAT = 0" if "tunnels s2 t = Some T" for T using False that by (auto simp: tunof_def)
      obtain r s3 where l: "link_static False ss ?n (s2\<lparr>nats := (nats s2)(?n \<mapsto> ?e)\<rparr>) = (r, s3)" by fastforce
      have s3: "s' = s3" "n = (if r then ?n else 0)" using run2 False l by auto
      have gen: "curgen s2 = curgen s" "nats s2 = nats s" "gchains s2 = gchains s" "static_list ss s2 = static_list ss s"
        using C by (simp_all add: lists_same_def static_list_def)
      have te: "n_tunnel ?e = t" "n_proto ?e = proto" "n_flags ?e = ALL_DST OR MATCH_PORT" by (simp_all add: static_entry_def)
      have t31: "t < 2 ^ 31" using C False by (auto simp: conf_inv_def)
      have ok: "key_ok ?e" by (rule static_entry_ok [OF len(1,2,3,4) t31]) simp
      from link_static_conf [OF _ _ _ ok _ _ _ l] C al proto False gen
      have R: "conf_inv s3 \<and> (if r then active s3 = (active s2)(static_pr proto := insert ?n (active s2 (static_pr proto))) \<and>
         nats s3 = (nats s2)(?n \<mapsto> ?e) \<and> gchains s3 = (gchains s2)(static_list ss s2 := ?n # gchains s2 (static_list ss s2))
       else active s3 = active s2 \<and> nats s3 = nats s2 \<and> gchains s3 = gchains s2)"
        unfolding te by (auto simp: alloc_ok_def)
      have "\<exists>T. tunnels s3 t = Some T \<and> t_remote T = src6 \<and> t_flags T AND TUNNONAT = 0"
        using link_static_tunnel [OF l, of t] C False nonat by auto
      note tn = this
      show ?thesis
      proof (cases r)
        case True
        have "static_added src6 (static_entry t proto (ALL_DST OR MATCH_PORT) src sport nsrc nport (curgen s)) ?n ss s s'"
          unfolding static_added_def using R True s3(1) gen C te tn by auto
        moreover have "t_flags (tunof s' t) AND TUNNONAT = 0" using tn s3(1) by (auto simp: tunof_def)
        ultimately show ?thesis using R True s3 i al by (auto simp: alloc_ok_def)
      next
        case False
        then show ?thesis using R s3 gen C by (simp add: static_refused_def)
      qed
    qed
  qed
qed

lemma add_prr_spec:
  assumes inv: "conf_inv s" and al: "alloc_ok al s" and peer: "length src6 = 16" and len: "4 \<le> length src" "2 \<le> length sport"
    and proto: "proto = IPTCP \<or> proto = IPUDP" and run: "add_prr cfg al ss src6 proto src sport s = Some (r, s')"
  shows "conf_inv s' \<and> (r = -1 \<and> static_refused s s' \<or> r = 0 \<and>
    (\<exists>t i. static_added src6 (static_entry t proto (ALL_DST OR PRR_NULL OR MATCH_PORT) src sport src sport (curgen s)) (al_nid al) ss s s' \<and>
       find_pool src s = Some i \<and> \<not> dynamic_port i (static_pr proto) sport s))"
proof -
  obtain t0 s1 where look: "tunnel_lookup src6 s = (t0, s1)" by fastforce
  let ?t' = "if t_flags (tunof s1 t0) AND TUNNONAT \<noteq> 0 then 0 else t0"
  show ?thesis
  proof (cases "\<exists>i. find_pool src s = Some i \<and> \<not> dynamic_port i (static_pr proto) sport s")
    case False
    then have "r = -1" "s' = s" using run by (auto simp: add_prr_def Let_def split: option.splits if_splits)
    then show ?thesis using inv static_refused_refl by simp
  next
    case True
    then obtain i where i: "find_pool src s = Some i" "\<not> dynamic_port i (static_pr proto) sport s" by blast
    have "(if t0 = 0 then add_stdtunnel cfg (al_mem al) (al_tid al) src6 None s1 else Some (?t', s1)) \<noteq> None"
      using run i look by (auto simp: add_prr_def Let_def split: option.splits)
    then obtain t s2 where tun: "(if t0 = 0 then add_stdtunnel cfg (al_mem al) (al_tid al) src6 None s1 else Some (?t', s1)) = Some (t, s2)"
      by auto
    have C: "conf_inv s2 \<and> active s2 = active s \<and> lists_same s s2 \<and>
      (t \<noteq> 0 \<longrightarrow> (\<exists>T. tunnels s2 t = Some T \<and> t_remote T = src6)) \<and> (t = 0 \<or> t = al_tid al \<or> t = t0)"
      by (rule static_tunnel_conf [OF inv al peer look tun]) simp
    have ref: "static_refused s s2" using C by (simp add: static_refused_def lists_same_def)
    note run2 = run [unfolded add_prr_def Let_def i(1) option.case if_not_P [OF i(2)] look prod.case tun]
    show ?thesis
    proof (cases "t = 0 \<or> \<not> al_mem al 3")
      case True
      then have "r = -1" "s' = s2" using run2 by (auto split: if_splits)
      then show ?thesis using C ref by simp
    next
      case False
      let ?n = "al_nid al"
      let ?e = "static_entry t proto (ALL_DST OR PRR_NULL OR MATCH_PORT) src sport src sport (curgen s2)"
      obtain ok s3 where l: "link_static True ss ?n (s2\<lparr>nats := (nats s2)(?n \<mapsto> ?e)\<rparr>) = (ok, s3)" by fastforce
      have s3: "s' = s3" "r = (if ok then 0 else -1)" using run2 False l by auto
      have gen: "curgen s2 = curgen s" "nats s2 = nats s" "gchains s2 = gchains s" "static_list ss s2 = static_list ss s"
        using C by (simp_all add: lists_same_def static_list_def)
      have te: "n_tunnel ?e = t" "n_proto ?e = proto" "n_flags ?e = ALL_DST OR PRR_NULL OR MATCH_PORT" by (simp_all add: static_entry_def)
      have t31: "t < 2 ^ 31" using C False by (auto simp: conf_inv_def)
      have kok: "key_ok ?e" by (rule static_entry_ok [OF len(1,1,2,2) t31]) simp
      from link_static_conf [OF _ _ _ kok _ _ _ l] C al proto False gen
      have R: "conf_inv s3 \<and> (if ok then active s3 = (active s2)(static_pr proto := insert ?n (active s2 (static_pr proto))) \<and>
         nats s3 = (nats s2)(?n \<mapsto> ?e) \<and> gchains s3 = (gchains s2)(static_list ss s2 := ?n # gchains s2 (static_list ss s2))
       else active s3 = active s2 \<and> nats s3 = nats s2 \<and> gchains s3 = gchains s2)"
        unfolding te by (auto simp: alloc_ok_def)
      have "\<exists>T. tunnels s3 t = Some T \<and> t_remote T = src6"
        using link_static_tunnel [OF l, of t] C False by auto
      note tn = this
      show ?thesis
      proof (cases ok)
        case True
        have "static_added src6 (static_entry t proto (ALL_DST OR PRR_NULL OR MATCH_PORT) src sport src sport (curgen s)) ?n ss s s'"
          unfolding static_added_def using R True s3(1) gen C te tn by auto
        then show ?thesis using R True s3 i al by (auto simp: alloc_ok_def)
      next
        case False
        then show ?thesis using R s3 gen C by (simp add: static_refused_def)
      qed
    qed
  qed
qed

section \<open>Adding and deleting a binding\<close>

lemma sorted_wrt_pair: "sorted_wrt R xs \<Longrightarrow> m \<in> set xs \<Longrightarrow> n \<in> set xs \<Longrightarrow> m \<noteq> n \<Longrightarrow> R m n \<or> R n m"
  by (induction xs) auto

lemma splay_key_unique:
  assumes inv: "flow_inv s" and T: "tunnels s t = Some T" and mn: "m \<in> set_tree (t_tnat_root T pr)" "n \<in> set_tree (t_tnat_root T pr)"
    and k: "key_ok k" "nat_splay_compare_abs k (natof s m) = 0" "nat_splay_compare_abs k (natof s n) = 0"
  shows "m = n"
proof (rule ccontr)
  assume ne: "m \<noteq> n"
  have ord: "ordered_by (\<lambda>n. key_ok (natof s n)) (splay_cmp_nid s) (inorder (t_tnat_root T pr))" using inv T unfolding flow_inv_def by blast
  have ok: "key_ok (natof s m)" "key_ok (natof s n)" using ord mn by (simp_all add: ordered_by_def)
  have "splay_key (natof s m) = splay_key (natof s n)"
    using splay_cmp.cmp_zero [OF k(1) ok(1)] splay_cmp.cmp_zero [OF k(1) ok(2)] k(2,3) by simp
  then have "splay_cmp_nid s m n = 0" "splay_cmp_nid s n m = 0"
    using splay_cmp.cmp_zero [OF ok] splay_cmp.cmp_zero [OF ok(2,1)] by (simp_all add: splay_cmp_nid_def)
  moreover have "splay_cmp_nid s m n < 0 \<or> splay_cmp_nid s n m < 0"
    using ord mn ne sorted_wrt_pair [of _ "inorder (t_tnat_root T pr)" m n] by (auto simp: ordered_by_def)
  ultimately show False by simp
qed

text \<open>An entry that is active in a class is in the tree of its tunnel.\<close>

lemma active_in_tree:
  assumes "flow_inv s" "n \<in> active s pr"
  obtains T where "tunnels s (n_tunnel (natof s n)) = Some T" "n \<in> set_tree (t_tnat_root T pr)"
proof -
  obtain t T where "tunnels s t = Some T" "n \<in> set_tree (t_tnat_root T pr)" using assms unfolding flow_inv_def by blast
  then show ?thesis using that flow_inv_root [OF assms(1)] by metis
qed

text \<open>A search with the key of an active entry finds the entry.\<close>

lemma static_find_entry:
  assumes inv: "conf_inv s" and n: "n \<in> active s pr" and k: "key_ok k" "n_tunnel k = n_tunnel (natof s n)"
    "nat_splay_compare_abs k (natof s n) = 0" and run: "static_find pr k s = (m, s')"
  shows "m = n \<and> conf_inv s' \<and> same_flows s s' \<and> lists_same s s'"
proof -
  have fi: "flow_inv s" using inv by (simp add: conf_inv_def)
  obtain T where T: "tunnels s (n_tunnel k) = Some T" "n \<in> set_tree (t_tnat_root T pr)" using active_in_tree [OF fi n] k(2) by metis
  note F = static_find_conf [OF inv T(1) run]
  have "m \<noteq> 0" using F k(1,3) T(2) by auto
  then have m: "m \<in> active s pr" "n_tunnel (natof s m) = n_tunnel k" "nat_splay_compare_abs k (natof s m) = 0" using F by auto
  obtain U where "tunnels s (n_tunnel (natof s m)) = Some U" "m \<in> set_tree (t_tnat_root U pr)" by (rule active_in_tree [OF fi m(1)])
  then have "m \<in> set_tree (t_tnat_root T pr)" using T(1) m(2) by simp
  from splay_key_unique [OF fi T(1) this T(2) k(1) m(3) k(3)] show ?thesis using F by simp
qed

text \<open>The lookup of the tunnel of an entry.\<close>

lemma lookup_entry_tunnel:
  assumes inv: "conf_inv s" and T: "tunnels s t = Some T" "t_remote T = peer" and peer: "length peer = 16"
    and look: "tunnel_lookup peer s = (u, s')"
  shows "u = t \<and> conf_inv s' \<and> same_flows s s' \<and> lists_same s s' \<and> t_flags (tunof s' t) = t_flags T"
proof -
  have ti: "tun_inv s" using inv by (simp add: conf_inv_def)
  note L = tunnel_lookup_conf [OF inv peer look]
  have "u \<noteq> 0"
    using tunnel_lookup_spec(2) [OF ti peer look] T tun_inv_0 [OF ti] by (cases "u = 0") auto
  then obtain U where U: "tunnels s u = Some U" "t_remote U = peer"
    using tunnel_lookup_spec(2) [OF ti peer look] by blast
  have "u = t" using tun_inv_unique [OF ti tun_at_some [OF U(1)], of t] tun_at_some [OF T(1)] U(2) T(2) by simp
  moreover have "t_flags (tunof s' t) = t_flags T"
  proof -
    have "cores s' t = cores s t" using L by simp
    then obtain z where z: "tunnels s' t = Some z" "tun_core z = tun_core T" using T(1) by (auto simp: cores_def)
    have "t_flags (tun_core z) = t_flags (tun_core T)" using z(2) by simp
    then show ?thesis using z(1) by (simp add: tun_core_def tunof_def)
  qed
  ultimately show ?thesis using L by simp
qed

lemma static_key_zero:
  assumes "key_ok e" "n_flags e AND ALL_DST \<noteq> 0" "n_flags e AND PRR_NULL = 0" "n_src e = sub src 0 4" "n_sport e = sub sport 0 2"
    "4 \<le> length src" "2 \<le> length sport"
  defines "k \<equiv> nat_zero\<lparr>n_tunnel := n_tunnel e, n_proto := n_proto e, n_flags := ALL_DST, n_src := sub src 0 4, n_sport := sub sport 0 2\<rparr>"
  shows "key_ok k \<and> nat_splay_compare_abs k e = 0"
proof -
  have ok: "key_ok k" using assms by (simp add: k_def key_ok_def nat_zero_def)
  have "splay_key k = splay_key e" using assms(2-5) by (simp add: splay_key_def dest_key_def k_def)
  then show ?thesis using ok splay_cmp.cmp_zero [OF ok assms(1)] by simp
qed

end
