(* ===== verification/Aftr_House.thy ===== *)
theory Aftr_House
  imports Aftr_Binding
begin

text \<open>
  What the main loop does between packets: every second it frees the ports whose hold time is
  over and deletes the entries and the fragments that have expired; every 256 seconds it changes
  the sizes of the hash tables. The decayed rates, which are only printed, are left out.
\<close>

section \<open>Operations\<close>

text \<open>
  The loops that expire: from the top of the heap, and from the tail of each of the three
  fragment queues. The fuel bounds the number of passes.
\<close>

fun expire_nats :: "nat \<Rightarrow> config \<Rightarrow> aftr \<Rightarrow> aftr option" where
  "expire_nats 0 cfg s = None"
| "expire_nats (Suc k) cfg s =
     (let n = nat_heap_element 1 s
      in if n = 0 \<or> tmo s n \<ge> seconds s then Some s else expire_nats k cfg (del_nat cfg n None s))"

fun expire_frags :: "nat \<Rightarrow> (aftr \<Rightarrow> fid list) \<Rightarrow> (fid \<Rightarrow> aftr \<Rightarrow> aftr) \<Rightarrow> drop_reason \<Rightarrow> aftr \<Rightarrow> aftr option" where
  "expire_frags 0 queue del r s = None"
| "expire_frags (Suc k) queue del r s =
     (if queue s = [] then Some s
      else
        let f = last (queue s)
        in if f_expire (fragof s f) \<ge> seconds s then Some s
           else expire_frags k queue del r (del f (stat_drop r s)))"

definition every_second :: "nat \<Rightarrow> config \<Rightarrow> aftr \<Rightarrow> aftr option" where
  "every_second k cfg s =
     Option.bind (expire_nats k cfg (free_heldnats s)) (\<lambda>s.
     Option.bind (expire_frags k frags6 del_frag6 DR_F6TM s) (\<lambda>s.
     Option.bind (expire_frags k fragsin del_frag4 DR_FINTM s)
       (expire_frags k fragsout del_frag4 DR_FOUTTM)))"

text \<open>
  The size of a hash table after a period: doubled when fewer than a quarter of the lookups hit,
  halved when more than nine tenths do, within its bounds; \<open>None\<close> is no change. The counters are
  uint64_t, so the product with 9 wraps.
\<close>

definition new_size :: "nat \<Rightarrow> nat \<Rightarrow> nat \<Rightarrow> nat \<Rightarrow> nat \<Rightarrow> nat option" where
  "new_size lo hi lookups hits sz =
     (if lookups div 4 > hits then if sz * 2 > hi then None else Some (sz * 2)
      else if (9 * lookups mod 2 ^ 64) div 10 < hits then if sz div 2 < lo then None else Some (sz div 2)
      else None)"

text \<open>The counters of the period (lookups and hits) of the three tables.\<close>

record hash_stats =
  hs_frag :: "nat \<times> nat"
  hs_nat :: "nat \<times> nat"
  hs_tun :: "nat \<times> nat"

text \<open>A new table is empty and has a new key; the hits of the period begin at its size.\<close>

definition resize_frag :: "bool \<Rightarrow> hash_stats \<times> aftr \<Rightarrow> hash_stats \<times> aftr" where
  "resize_frag mem p =
     (let (st, s) = p
      in case new_size 64 256 (fst (hs_frag st)) (snd (hs_frag st)) (fraghashsz s) of
           None \<Rightarrow> (st, s)
         | Some sz \<Rightarrow>
             if \<not> mem then (st, s)
             else
               let (w, rs) = arc4_getword (arc4 s)
               in (st\<lparr>hs_frag := (fst (hs_frag st), sz)\<rparr>,
                   s\<lparr>fraghashsz := sz, fraghash := (\<lambda>h. 0), fraghashrnd := w, arc4 := rs\<rparr>))"

definition resize_nat :: "bool \<Rightarrow> hash_stats \<times> aftr \<Rightarrow> hash_stats \<times> aftr" where
  "resize_nat mem p =
     (let (st, s) = p
      in case new_size 1024 65536 (fst (hs_nat st)) (snd (hs_nat st)) (nathashsz s) of
           None \<Rightarrow> (st, s)
         | Some sz \<Rightarrow>
             if \<not> mem then (st, s)
             else
               let (w, rs) = arc4_getword (arc4 s)
               in (st\<lparr>hs_nat := (fst (hs_nat st), sz)\<rparr>,
                   s\<lparr>nathashsz := sz, nathash := (\<lambda>h. 0), nathashrnd := w, arc4 := rs\<rparr>))"

definition resize_tun :: "bool \<Rightarrow> hash_stats \<times> aftr \<Rightarrow> hash_stats \<times> aftr" where
  "resize_tun mem p =
     (let (st, s) = p
      in case new_size 16 16384 (fst (hs_tun st)) (snd (hs_tun st)) (tunhashsz s) of
           None \<Rightarrow> (st, s)
         | Some sz \<Rightarrow>
             if \<not> mem then (st, s)
             else
               let (w, rs) = arc4_getword (arc4 s)
               in (st\<lparr>hs_tun := (fst (hs_tun st), sz)\<rparr>,
                   s\<lparr>tunhashsz := sz, tunhash := (\<lambda>h. 0), tunhashrnd := w, arc4 := rs\<rparr>))"

definition resize_hashes :: "(nat \<Rightarrow> bool) \<Rightarrow> bytes \<Rightarrow> hash_stats \<times> aftr \<Rightarrow> hash_stats \<times> aftr" where
  "resize_hashes mem rdat p =
     (let (st, s) = p
      in resize_tun (mem 2) (resize_nat (mem 1) (resize_frag (mem 0) (st, s\<lparr>arc4 := arc4_stir rdat (arc4 s)\<rparr>))))"

text \<open>The two parts with their conditions: \<open>lastsecs\<close> and \<open>startsecs\<close> are the clock of the loop.\<close>

definition housekeeping :: "nat \<Rightarrow> config \<Rightarrow> int \<Rightarrow> int \<Rightarrow> (nat \<Rightarrow> bool) \<Rightarrow> bytes \<Rightarrow> hash_stats \<times> aftr \<Rightarrow> (hash_stats \<times> aftr) option" where
  "housekeeping k cfg startsecs lastsecs mem rdat p =
     (let (st, s) = p
      in case (if seconds s \<noteq> lastsecs then every_second k cfg s else Some s) of
           None \<Rightarrow> None
         | Some s \<Rightarrow> Some (if (seconds s - startsecs) mod 256 = 0 then resize_hashes mem rdat (st, s) else (st, s)))"

section \<open>A resize keeps the tables\<close>

lemma conf_inv_aftr0: "conf_inv aftr0"
proof -
  have t: "tun_at aftr0 = Map.empty" by (simp add: tun_at_def aftr0_def fun_eq_iff)
  have "tun_inv aftr0" unfolding tun_inv_def t by (auto simp: aftr0_def)
  moreover have "static_inv aftr0" by (simp add: static_inv_def aftr0_def)
  moreover have "tunnels aftr0 t = None" for t by (simp add: aftr0_def)
  ultimately show ?thesis using flow_inv_aftr0 by (simp add: conf_inv_def)
qed

lemma new_size_bounds:
  "new_size lo hi l h sz = Some sz' \<Longrightarrow> lo \<le> sz \<Longrightarrow> sz \<le> hi \<Longrightarrow> lo \<le> sz' \<and> sz' \<le> hi \<and> (sz' = sz * 2 \<or> sz' = sz div 2)"
  by (auto simp: new_size_def split: if_splits)

lemma resize_views:
  "natof (s\<lparr>nathashsz := sz, nathash := nh, nathashrnd := w, arc4 := a\<rparr>) = natof s"
  "active (s\<lparr>nathashsz := sz, nathash := nh, nathashrnd := w, arc4 := a\<rparr>) = active s"
  "tree_cmp_nid (s\<lparr>nathashsz := sz, nathash := nh, nathashrnd := w, arc4 := a\<rparr>) = tree_cmp_nid s"
  "splay_cmp_nid (s\<lparr>nathashsz := sz, nathash := nh, nathashrnd := w, arc4 := a\<rparr>) = splay_cmp_nid s"
  by (simp_all add: natof_def active_def tree_cmp_nid_def splay_cmp_nid_def fun_eq_iff)

lemma resize_nat_conf:
  assumes inv: "conf_inv s" and sz: "0 < sz"
  shows "conf_inv (s\<lparr>nathashsz := sz, nathash := (\<lambda>h. 0), nathashrnd := w, arc4 := a\<rparr>)"
proof -
  let ?s = "s\<lparr>nathashsz := sz, nathash := (\<lambda>h. 0), nathashrnd := w, arc4 := a\<rparr>"
  have "tun_view ?s = tun_view s" by (simp add: tun_view_def tun_at_def fun_eq_iff)
  then have "tun_inv ?s" using inv tun_inv_view unfolding conf_inv_def by blast
  moreover have "flow_inv ?s" using inv sz unfolding conf_inv_def flow_inv_def by (simp add: resize_views)
  moreover have "static_inv ?s" using inv unfolding conf_inv_def static_inv_def by (simp add: resize_views)
  ultimately show ?thesis using inv by (simp add: conf_inv_def)
qed

lemma resize_tun_conf:
  assumes inv: "conf_inv s" and sz: "0 < sz"
  shows "conf_inv (s\<lparr>tunhashsz := sz, tunhash := (\<lambda>h. 0), tunhashrnd := w, arc4 := a\<rparr>)"
proof -
  let ?s = "s\<lparr>tunhashsz := sz, tunhash := (\<lambda>h. 0), tunhashrnd := w, arc4 := a\<rparr>"
  have at: "tun_at ?s = tun_at s" by (simp add: tun_at_def fun_eq_iff)
  have "tun_inv ?s" using inv sz unfolding conf_inv_def tun_inv_def at by simp
  moreover have "same_flows s ?s" "active ?s = active s" "natof ?s = natof s"
    by (simp_all add: same_flows_def active_def natof_def fun_eq_iff)
  ultimately show ?thesis using inv flow_inv_same [of s ?s] by (simp add: conf_inv_def static_inv_def)
qed

lemma quiet_state_conf:
  assumes inv: "conf_inv s"
  shows "conf_inv (s\<lparr>arc4 := a\<rparr>)" "conf_inv (s\<lparr>fraghashsz := sz, fraghash := fh, fraghashrnd := w, arc4 := a\<rparr>)"
proof -
  have "conf_inv s'" if "tun_view s' = tun_view s" "same_flows s s'" "active s' = active s" "natof s' = natof s" "gchains s' = gchains s"
    "tunnels s' = tunnels s" for s'
    using inv that tun_inv_view [of s' s] flow_inv_same [of s s'] by (simp add: conf_inv_def static_inv_def)
  then show "conf_inv (s\<lparr>arc4 := a\<rparr>)" "conf_inv (s\<lparr>fraghashsz := sz, fraghash := fh, fraghashrnd := w, arc4 := a\<rparr>)"
    by (simp_all add: tun_view_def tun_at_def same_flows_def active_def natof_def fun_eq_iff)
qed

text \<open>The sizes of the tables are in their bounds (which are powers of two, as the sizes are).\<close>

definition hash_sizes_ok :: "aftr \<Rightarrow> bool" where
  "hash_sizes_ok s \<longleftrightarrow> (\<exists>k \<le> 2. fraghashsz s = 64 * 2 ^ k) \<and> (\<exists>k \<le> 6. nathashsz s = 1024 * 2 ^ k) \<and> (\<exists>k \<le> 10. tunhashsz s = 16 * 2 ^ k)"

lemma new_size_power:
  assumes "new_size lo (lo * 2 ^ m) l h sz = Some sz'" and "k \<le> m" "sz = lo * 2 ^ k" "0 < lo"
  shows "\<exists>j \<le> m. sz' = lo * 2 ^ j"
proof -
  have "sz' = sz * 2 \<and> sz * 2 \<le> lo * 2 ^ m \<or> sz' = sz div 2 \<and> lo \<le> sz div 2"
    using assms(1) unfolding new_size_def by (auto simp: linorder_not_less split: if_splits)
  then consider "sz' = lo * 2 ^ (k + 1)" "lo * 2 ^ (k + 1) \<le> lo * 2 ^ m" | "sz' = lo * 2 ^ k div 2" "lo \<le> lo * 2 ^ k div 2"
    unfolding assms(3) by (auto simp: mult.assoc mult.commute [of _ 2])
  then show ?thesis
  proof cases
    case 1
    then have "k + 1 \<le> m" using assms(4) power_le_imp_le_exp [of "2 :: nat" "k + 1" m] by simp
    then show ?thesis using 1(1) by blast
  next
    case 2
    then have "k \<noteq> 0" using assms(4) by (cases k) auto
    then obtain j where "k = Suc j" by (cases k) auto
    then show ?thesis using 2(1) assms(2) by (intro exI [of _ j]) simp
  qed
qed

lemma new_size_pos: "new_size lo hi l h sz = Some sz' \<Longrightarrow> 0 < lo \<Longrightarrow> 0 < sz \<Longrightarrow> 0 < sz'"
  by (auto simp: new_size_def split: if_splits)

lemma resize_conf:
  assumes "conf_inv s"
  shows "conf_inv (snd (resize_frag mem (st, s)))" "conf_inv (snd (resize_nat mem (st, s)))" "conf_inv (snd (resize_tun mem (st, s)))"
proof -
  have pos: "0 < nathashsz s" "0 < tunhashsz s" using assms by (simp_all add: conf_inv_def flow_inv_def tun_inv_def)
  show "conf_inv (snd (resize_frag mem (st, s)))"
    using assms by (auto simp: resize_frag_def quiet_state_conf split: option.split prod.split)
  show "conf_inv (snd (resize_nat mem (st, s)))"
    using assms pos by (auto simp: resize_nat_def resize_nat_conf dest: new_size_pos split: option.split prod.split)
  show "conf_inv (snd (resize_tun mem (st, s)))"
    using assms pos by (auto simp: resize_tun_def resize_tun_conf dest: new_size_pos split: option.split prod.split)
qed

lemma resize_sizes:
  assumes "hash_sizes_ok s"
  shows "hash_sizes_ok (snd (resize_frag mem (st, s)))" "hash_sizes_ok (snd (resize_nat mem (st, s)))"
    "hash_sizes_ok (snd (resize_tun mem (st, s)))"
proof -
  obtain a b c where k: "a \<le> 2" "fraghashsz s = 64 * 2 ^ a" "b \<le> 6" "nathashsz s = 1024 * 2 ^ b" "c \<le> 10" "tunhashsz s = 16 * 2 ^ c"
    using assms unfolding hash_sizes_ok_def by blast
  have "\<exists>j \<le> 2. sz = 64 * 2 ^ j" if "new_size 64 256 l h (fraghashsz s) = Some sz" for l h sz
    using new_size_power [of 64 2 l h _ sz a] k that by simp
  then show "hash_sizes_ok (snd (resize_frag mem (st, s)))"
    using assms by (auto simp: resize_frag_def hash_sizes_ok_def split: option.split prod.split)
  have "\<exists>j \<le> 6. sz = 1024 * 2 ^ j" if "new_size 1024 65536 l h (nathashsz s) = Some sz" for l h sz
    using new_size_power [of 1024 6 l h _ sz b] k that by simp
  then show "hash_sizes_ok (snd (resize_nat mem (st, s)))"
    using assms by (auto simp: resize_nat_def hash_sizes_ok_def split: option.split prod.split)
  have "\<exists>j \<le> 10. sz = 16 * 2 ^ j" if "new_size 16 16384 l h (tunhashsz s) = Some sz" for l h sz
    using new_size_power [of 16 10 l h _ sz c] k that by simp
  then show "hash_sizes_ok (snd (resize_tun mem (st, s)))"
    using assms by (auto simp: resize_tun_def hash_sizes_ok_def split: option.split prod.split)
qed

lemma resize_hashes_conf: "conf_inv s \<Longrightarrow> conf_inv (snd (resize_hashes mem rdat (st, s)))"
  unfolding resize_hashes_def Let_def prod.case using resize_conf quiet_state_conf(1) by (metis prod.collapse)

lemma resize_hashes_sizes: "hash_sizes_ok s \<Longrightarrow> hash_sizes_ok (snd (resize_hashes mem rdat (st, s)))"
proof -
  assume "hash_sizes_ok s"
  then have "hash_sizes_ok (s\<lparr>arc4 := arc4_stir rdat (arc4 s)\<rparr>)" by (simp add: hash_sizes_ok_def)
  then show ?thesis unfolding resize_hashes_def Let_def prod.case using resize_sizes by (metis prod.collapse)
qed

text \<open>The fragment tables after a resize: the queued datagrams stay, the hash is empty.\<close>

lemma frag_inv_resized:
  assumes "frag_inv s" "0 < sz"
  shows "frag_inv (s\<lparr>fraghashsz := sz, fraghash := (\<lambda>h. 0), fraghashrnd := w, arc4 := a\<rparr>)"
  using assms by (simp add: frag_inv_def entry4_ok_def fragof_def)

lemma frag_inv_view:
  assumes "frag_inv s" and "fraghashsz s' = fraghashsz s" "fraghashrnd s' = fraghashrnd s" "fraghash s' = fraghash s" "fragsin s' = fragsin s"
    "fragsout s' = fragsout s" "fragsincnt s' = fragsincnt s" "fragsoutcnt s' = fragsoutcnt s" "frags s' = frags s"
  shows "frag_inv s'"
  using assms by (simp add: frag_inv_def entry4_ok_def fragof_def frag_slot_def)

lemma resize_hashes_frag:
  assumes "frag_inv s"
  shows "frag_inv (snd (resize_hashes mem rdat (st, s)))"
proof -
  have a: "frag_inv (s\<lparr>arc4 := r\<rparr>)" for r by (rule frag_inv_view [OF assms]) simp_all
  have f: "frag_inv (snd (resize_frag m (st, s)))" if "frag_inv s" for m st s
  proof -
    have "0 < sz" if "new_size 64 256 l h z = Some sz" "0 < z" for l h z sz using that by (auto simp: new_size_def split: if_splits)
    moreover have "0 < fraghashsz s" using that by (simp add: frag_inv_def)
    ultimately show ?thesis using that by (auto simp: resize_frag_def intro!: frag_inv_resized split: option.split prod.split)
  qed
  have n: "frag_inv (snd (resize_nat m (st, s)))" "frag_inv (snd (resize_tun m (st, s)))" if "frag_inv s" for m st s
    using that by (auto simp: resize_nat_def resize_tun_def intro: frag_inv_view split: option.split prod.split)
  show ?thesis unfolding resize_hashes_def Let_def prod.case using a f n by (metis prod.collapse)
qed

text \<open>
  Claim C15: a change of the sizes of the hash tables, whichever of the three it concerns and
  whichever allocation fails, keeps every table consistent (trees, hashes and lists of the
  tunnels and flows, the fragment queues), and the sizes stay powers of two within the
  bounds MINFRAGHASH to MAXFRAGHASH, MINNATHASH to MAXNATHASH and MINTUNHASH to MAXTUNHASH.
\<close>

theorem resize_keeps_tables:
  assumes "conf_inv s" "frag_inv s" "hash_sizes_ok s" and "resize_hashes mem rdat (st, s) = (st', s')"
  shows "tun_inv s' \<and> flow_inv s' \<and> static_inv s' \<and> frag_inv s' \<and> hash_sizes_ok s'"
  using resize_hashes_conf [OF assms(1), of mem rdat st] resize_hashes_frag [OF assms(2), of mem rdat st]
    resize_hashes_sizes [OF assms(3), of mem rdat st] assms(4) by (simp add: conf_inv_def)

theorem resize_keeps_tables_witness:
  "\<exists>st' s'. resize_hashes (\<lambda>_. True) [] (\<lparr>hs_frag = (0, 0), hs_nat = (4000, 10), hs_tun = (0, 0)\<rparr>, aftr0) = (st', s') \<and>
     nathashsz s' = 2048 \<and> flow_inv s' \<and> hash_sizes_ok s'"
proof -
  obtain st' s' where run: "resize_hashes (\<lambda>_. True) [] (\<lparr>hs_frag = (0, 0), hs_nat = (4000, 10), hs_tun = (0, 0)\<rparr>, aftr0) = (st', s')"
    by fastforce
  have n: "new_size lo hi 0 0 sz = None" for lo hi sz by (simp add: new_size_def)
  have up: "new_size 1024 65536 4000 10 (nathashsz (aftr0\<lparr>arc4 := a\<rparr>)) = Some 2048" for a by (simp add: new_size_def aftr0_def)
  have f: "resize_frag m (\<lparr>hs_frag = (0, 0), hs_nat = x, hs_tun = y\<rparr>, s) = (\<lparr>hs_frag = (0, 0), hs_nat = x, hs_tun = y\<rparr>, s)" for m x y s
    by (simp add: resize_frag_def n)
  have t: "resize_tun m (\<lparr>hs_frag = x, hs_nat = y, hs_tun = (0, 0)\<rparr>, s) = (\<lparr>hs_frag = x, hs_nat = y, hs_tun = (0, 0)\<rparr>, s)" for m x y s
    by (simp add: resize_tun_def n)
  have "\<exists>z s1. resize_nat True (\<lparr>hs_frag = x, hs_nat = (4000, 10), hs_tun = y\<rparr>, aftr0\<lparr>arc4 := a\<rparr>) =
      (\<lparr>hs_frag = x, hs_nat = z, hs_tun = y\<rparr>, s1) \<and> nathashsz s1 = 2048" for x y a
    unfolding resize_nat_def Let_def prod.case hash_stats.simps fst_conv snd_conv up by (simp split: prod.split)
  then have "nathashsz s' = 2048" using run unfolding resize_hashes_def Let_def prod.case f by (metis t Pair_inject)
  moreover have "hash_sizes_ok aftr0" unfolding hash_sizes_ok_def by (auto simp: aftr0_def intro: exI [of _ 0])
  moreover have "frag_inv aftr0" by (simp add: frag_inv_def aftr0_def)
  ultimately show ?thesis using resize_keeps_tables [OF conf_inv_aftr0 _ _ run] run by auto
qed

section \<open>What expires\<close>

text \<open>What is left of the heap when one entry that is not in it changes.\<close>

definition heap_same :: "nid \<Rightarrow> aftr \<Rightarrow> aftr \<Rightarrow> bool" where
  "heap_same n s s' \<longleftrightarrow> nat_heap s' = nat_heap s \<and> nat_heap_last s' = nat_heap_last s \<and> seconds s' = seconds s \<and>
     (\<forall>m. m \<noteq> n \<longrightarrow> map_option (\<lambda>e. (n_heap_index e, n_timeout e)) (nats s' m) =
        map_option (\<lambda>e. (n_heap_index e, n_timeout e)) (nats s m))"

named_theorems heap_same_intros

lemma heap_same_steps [heap_same_intros]:
  assumes "heap_same n s a"
  shows "heap_same n s (upd_nat n f a)" "heap_same n s (put_tree pr x a)" "heap_same n s (put_root t pr r a)"
    "heap_same n s (upd_tunnel t g a)" "heap_same n s (a\<lparr>nathash := b\<rparr>)" "heap_same n s (a\<lparr>nats := (nats a)(n := None)\<rparr>)"
    "heap_same n s (hold_nat cfg i pr n a)" "heap_same n s (unchain_nat n None a)"
  using assms
  by (simp_all add: heap_same_def upd_nat_def put_tree_def put_root_def upd_tunnel_def hold_nat_def upd_pool_def unchain_nat_def Let_def
      option.map_comp o_def)

lemma heap_same_cases [heap_same_intros]:
  "heap_same n s x \<Longrightarrow> heap_same n s y \<Longrightarrow> heap_same n s (if b then x else y)"
  "heap_same n s z \<Longrightarrow> (\<And>i. heap_same n s (h i)) \<Longrightarrow> heap_same n s (case opt of None \<Rightarrow> z | Some i \<Rightarrow> h i)"
  "heap_same n s s"
  by (auto simp: heap_same_def split: option.split)

lemma heap_same_heap:
  assumes same: "heap_same n s s'" and inv: "heap_inv s" and n: "n \<notin> heap_set s"
  shows "heap_inv s' \<and> heap_set s' = heap_set s \<and> (\<forall>m \<in> heap_set s. tmo s' m = tmo s m)"
proof -
  have v: "nat_heap s' = nat_heap s" "nat_heap_last s' = nat_heap_last s" using same by (simp_all add: heap_same_def)
  have m: "nats s' m \<noteq> None \<and> hidx s' m = hidx s m \<and> tmo s' m = tmo s m" if "m \<in> heap_set s" for m
  proof -
    have "nats s m \<noteq> None" using heap_member_index [OF inv that] by simp
    moreover have "map_option (\<lambda>e. (n_heap_index e, n_timeout e)) (nats s' m) = map_option (\<lambda>e. (n_heap_index e, n_timeout e)) (nats s m)"
      using same that n by (auto simp: heap_same_def)
    ultimately show ?thesis by (cases "nats s' m") (auto simp: hidx_def tmo_def natof_def)
  qed
  have mem: "nat_heap s ! j \<in> heap_set s" if "1 \<le> j" "j \<le> nat_heap_last s" for j using that by (auto simp: heap_set_def)
  have "heap_set s' = heap_set s" by (simp add: heap_set_def v)
  moreover have "heap_inv s'"
    unfolding heap_inv_def v
  proof (intro conjI allI impI)
    fix j assume j: "2 \<le> j" "j \<le> nat_heap_last s"
    then have "1 \<le> j div 2" "j div 2 \<le> nat_heap_last s" "1 \<le> j" by auto
    then show "tmo s' (nat_heap s ! (j div 2)) \<le> tmo s' (nat_heap s ! j)"
      using m [OF mem] j inv by (simp add: heap_inv_def)
  qed (use inv m [OF mem] in \<open>auto simp: heap_inv_def\<close>)
  ultimately show ?thesis using m by blast
qed

lemma del_nat_heap_same: "heap_same n (nat_heap_delete (hidx s n) (count_del n s)) (del_nat cfg n None s)" if "hidx s n \<noteq> 0"
proof -
  have "hidx (count_del n s) n = hidx s n" by (simp add: count_del_def Let_def hidx_def natof_def)
  then show ?thesis using that unfolding del_nat_def Let_def by (simp only: if_True simp_thms) (intro heap_same_intros)
qed

lemma count_del_heap:
  "heap_inv (count_del n s) = heap_inv s" "heap_set (count_del n s) = heap_set s" "tmo (count_del n s) = tmo s"
  "nat_heap_last (count_del n s) = nat_heap_last s" "seconds (count_del n s) = seconds s" "nats (count_del n s) = nats s"
  "hidx (count_del n s) = hidx s" "nat_heap (count_del n s) = nat_heap s"
  by (simp_all add: count_del_def Let_def heap_inv_def heap_set_def tmo_def hidx_def natof_def fun_eq_iff)

lemma del_nat_heap:
  assumes inv: "heap_inv s" and n: "n \<in> heap_set s"
  shows "heap_inv (del_nat cfg n None s) \<and> heap_set (del_nat cfg n None s) = heap_set s - {n} \<and>
    (\<forall>m \<in> heap_set s - {n}. tmo (del_nat cfg n None s) m = tmo s m) \<and> seconds (del_nat cfg n None s) = seconds s \<and>
    (\<forall>m. m \<noteq> n \<longrightarrow> nats (del_nat cfg n None s) m = None \<longleftrightarrow> nats s m = None)"
proof -
  let ?del = "nat_heap_delete (hidx s n) (count_del n s)" and ?s = "del_nat cfg n None s"
  have i: "1 \<le> hidx s n" "hidx s n \<le> nat_heap_last s" "nat_heap s ! hidx s n = n" using heap_member_index [OF inv n] by simp_all
  have d: "heap_inv ?del" "heap_set ?del = heap_set s - {n}"
    using nat_heap_delete_inv [of "count_del n s" "hidx s n"] inv i by (simp_all add: count_del_heap)
  have only: "only_heap (count_del n s) ?del" by (rule only_heap_delete)
  have same: "heap_same n ?del ?s" using del_nat_heap_same i(1) by simp
  have "n \<notin> heap_set ?del" using d(2) by simp
  from heap_same_heap [OF same d(1) this] d(2) have h: "heap_inv ?s" "heap_set ?s = heap_set s - {n}"
    "\<And>m. m \<in> heap_set s - {n} \<Longrightarrow> tmo ?s m = tmo ?del m" by auto
  have t: "tmo ?del m = tmo s m" if "m \<in> heap_set s" for m
    using only_heap_tmo [OF only, of m] heap_member_index [OF inv that] by (simp add: count_del_heap)
  have live: "nats ?s m = None \<longleftrightarrow> nats s m = None" if "m \<noteq> n" for m
  proof -
    have "map_option (\<lambda>e. (n_heap_index e, n_timeout e)) (nats ?s m) = map_option (\<lambda>e. (n_heap_index e, n_timeout e)) (nats ?del m)"
      using same that by (simp add: heap_same_def)
    then have "nats ?s m = None \<longleftrightarrow> nats ?del m = None" by (cases "nats ?s m"; cases "nats ?del m") simp_all
    then show ?thesis using only_heap_live [OF only, of m] by (simp add: count_del_heap)
  qed
  have "seconds ?del = seconds (count_del n s)" using only by (auto simp: only_heap_def)
  then have "seconds ?s = seconds s" using same by (simp add: heap_same_def count_del_heap)
  then show ?thesis using h t live by auto
qed

text \<open>The whole deletion of an entry is a removal from the queue of what expires.\<close>

definition timed :: "aftr \<Rightarrow> bool" where
  "timed s \<longleftrightarrow> heap_inv s \<and> nats s 0 = None"

interpretation expiry: expiry_queue timed heap_set tmo "nat_heap_element 1" "\<lambda>n s. del_nat cfg n None s" for cfg
proof (unfold_locales, goal_cases)
  case (3 s e)
  then have "e \<noteq> 0" using heap_member_index unfolding timed_def by metis
  then show ?case using 3 del_nat_heap [of s e cfg] by (simp add: timed_def)
next
  case (5 s e m)
  then show ?case using del_nat_heap [of s e cfg] by (simp add: timed_def)
qed (use natq.top_member natq.top_least del_nat_heap in \<open>auto simp: timed_def\<close>)

lemma heap_set_finite: "finite (heap_set s)"
  by (auto simp: heap_set_def)

lemma top_zero: "timed s \<Longrightarrow> nat_heap_element 1 s = 0 \<longleftrightarrow> heap_set s = {}"
  using expiry.top_member [of s] heap_member_index [of s 0]
  by (auto simp: timed_def nat_heap_element_def heap_set_def)

lemma expire_nats_exact:
  "timed s \<Longrightarrow> card (heap_set s) < k \<Longrightarrow>
     \<exists>s'. expire_nats k cfg s = Some s' \<and> timed s' \<and> heap_set s' = {n \<in> heap_set s. seconds s \<le> tmo s n} \<and>
       (\<forall>n \<in> heap_set s'. tmo s' n = tmo s n) \<and> seconds s' = seconds s"
proof (induction k arbitrary: s)
  case (Suc k)
  let ?n = "nat_heap_element 1 s" and ?d = "del_nat cfg (nat_heap_element 1 s) None s"
  show ?case
  proof (cases "?n = 0 \<or> tmo s ?n \<ge> seconds s")
    case True
    then have "seconds s \<le> tmo s m" if "m \<in> heap_set s" for m
      using expiry.top_least [OF Suc.prems(1) that] top_zero [OF Suc.prems(1)] that by auto
    then show ?thesis using True Suc.prems(1) by auto
  next
    case False
    then have mem: "?n \<in> heap_set s" using expiry.top_member [OF Suc.prems(1)] top_zero [OF Suc.prems(1)] by blast
    have heap: "heap_inv s" using Suc.prems(1) by (simp add: timed_def)
    note D = del_nat_heap [OF heap mem, of cfg]
    have "card (heap_set ?d) < k"
      using D mem Suc.prems(2) card_Diff1_less [OF heap_set_finite mem] by simp
    from Suc.IH [OF expiry.del_inv [OF Suc.prems(1) mem] this]
    obtain s' where s': "expire_nats k cfg ?d = Some s'" "timed s'" "heap_set s' = {n \<in> heap_set ?d. seconds ?d \<le> tmo ?d n}"
      "\<forall>n \<in> heap_set s'. tmo s' n = tmo ?d n" "seconds s' = seconds ?d" by blast
    have "m \<noteq> ?n" if "seconds s \<le> tmo s m" for m using that False by auto
    then have "heap_set s' = {n \<in> heap_set s. seconds s \<le> tmo s n}" unfolding s'(3) using D False by auto
    moreover have "\<forall>n \<in> heap_set s'. tmo s' n = tmo s n" using s'(3,4) D by auto
    ultimately show ?thesis using s'(1,2,5) D False by (auto simp: Let_def)
  qed
qed simp

text \<open>The loop over a queue of fragments takes the expired ones off its tail.\<close>

lemma expire_frags_tail:
  assumes del: "\<And>f s. P s \<Longrightarrow> queue s \<noteq> [] \<Longrightarrow> f = last (queue s) \<Longrightarrow>
      P (del f (stat_drop r s)) \<and> queue (del f (stat_drop r s)) = butlast (queue s) \<and> seconds (del f (stat_drop r s)) = seconds s \<and>
      (\<forall>g \<in> set (butlast (queue s)). f_expire (fragof (del f (stat_drop r s)) g) = f_expire (fragof s g))"
  shows "P s \<Longrightarrow> length (queue s) < k \<Longrightarrow>
    \<exists>s'. expire_frags k queue del r s = Some s' \<and> P s' \<and> seconds s' = seconds s \<and>
      queue s' = rev (dropWhile (\<lambda>f. f_expire (fragof s f) < seconds s) (rev (queue s)))"
proof (induction k arbitrary: s)
  case (Suc k)
  show ?case
  proof (cases "queue s = [] \<or> f_expire (fragof s (last (queue s))) \<ge> seconds s")
    case True
    then have "rev (dropWhile (\<lambda>f. f_expire (fragof s f) < seconds s) (rev (queue s))) = queue s"
      by (cases "queue s" rule: rev_cases) auto
    then show ?thesis using True Suc.prems by (auto simp: Let_def)
  next
    case False
    let ?d = "del (last (queue s)) (stat_drop r s)"
    from False del [OF Suc.prems(1)] have D: "P ?d" "queue ?d = butlast (queue s)" "seconds ?d = seconds s"
      "\<And>g. g \<in> set (butlast (queue s)) \<Longrightarrow> f_expire (fragof ?d g) = f_expire (fragof s g)" by blast+
    have "length (queue ?d) < k" using D(2) False Suc.prems(2) by (cases "queue s" rule: rev_cases) auto
    from Suc.IH [OF D(1) this] obtain s' where s': "expire_frags k queue del r ?d = Some s'" "P s'" "seconds s' = seconds ?d"
      "queue s' = rev (dropWhile (\<lambda>f. f_expire (fragof ?d f) < seconds ?d) (rev (queue ?d)))" by blast
    have "dropWhile (\<lambda>f. f_expire (fragof ?d f) < seconds ?d) (rev (butlast (queue s))) =
        dropWhile (\<lambda>f. f_expire (fragof s f) < seconds s) (rev (butlast (queue s)))"
      using D(3,4) by (intro dropWhile_cong) auto
    also have "\<dots> = dropWhile (\<lambda>f. f_expire (fragof s f) < seconds s) (rev (queue s))"
      using False by (cases "queue s" rule: rev_cases) auto
    finally show ?thesis using s' D False by (auto simp: Let_def)
  qed
qed simp

lemma del_frag4_tail:
  assumes inv: "frag_inv s" and ne: "queue s \<noteq> []" and q: "queue = fragsin \<and> r = DR_FINTM \<or> queue = fragsout \<and> r = DR_FOUTTM"
    and f: "f = last (queue s)"
  shows "frag_inv (del_frag4 f (stat_drop r s)) \<and> queue (del_frag4 f (stat_drop r s)) = butlast (queue s) \<and>
    seconds (del_frag4 f (stat_drop r s)) = seconds s \<and>
    (\<forall>g \<in> set (butlast (queue s)). f_expire (fragof (del_frag4 f (stat_drop r s)) g) = f_expire (fragof s g))"
proof -
  have mem: "f \<in> set (fragsin s @ fragsout s)" using ne q f last_in_set [OF ne] by auto
  have d: "distinct (queue s)" using inv q by (auto simp: frag_inv_def)
  obtain ys where ys: "queue s = ys @ [f]" "f \<notin> set ys" using ne f d by (cases "queue s" rule: rev_cases) auto
  have st: "fragof (stat_drop r s) = fragof s" "queue (stat_drop r s) = queue s" "seconds (stat_drop r s) = seconds s"
    using q by (auto simp: fragof_def stat_drop_def emit_def fun_eq_iff)
  have "queue (del_frag4 f (stat_drop r s)) = remove1 f (queue s)"
    using q
  proof
    assume a: "queue = fragsin \<and> r = DR_FINTM"
    then have "f_tunnel (fragof s f) \<noteq> 0" using inv ys(1) by (simp add: frag_inv_def)
    then show ?thesis using a st by (simp add: del_frag4_def Let_def upd_tunnel_def)
  next
    assume a: "queue = fragsout \<and> r = DR_FOUTTM"
    then have "f_tunnel (fragof s f) = 0" using inv ys(1) by (simp add: frag_inv_def)
    then show ?thesis using a st by (simp add: del_frag4_def Let_def upd_tunnel_def)
  qed
  moreover have "remove1 f (queue s) = ys" using ys by (simp add: remove1_append)
  moreover have "seconds (del_frag4 f (stat_drop r s)) = seconds s" using st by (simp add: del_frag4_def Let_def upd_tunnel_def)
  moreover have "fragof (del_frag4 f (stat_drop r s)) g = fragof s g" if "g \<noteq> f" for g
    using that fun_cong [OF st(1), of g] by (simp add: del_frag4_def Let_def upd_tunnel_def fragof_def)
  moreover have "frag_inv (del_frag4 f (stat_drop r s))" using del_frag4_inv [of "stat_drop r s" f] inv mem by simp
  moreover have "g \<noteq> f" if "g \<in> set ys" for g using that ys(2) by blast
  ultimately show ?thesis by (simp add: ys(1))
qed

lemma expire_frags4:
  assumes "queue = fragsin \<and> r = DR_FINTM \<or> queue = fragsout \<and> r = DR_FOUTTM"
  shows "frag_inv s \<Longrightarrow> length (queue s) < k \<Longrightarrow>
    \<exists>s'. expire_frags k queue del_frag4 r s = Some s' \<and> frag_inv s' \<and> seconds s' = seconds s \<and>
      queue s' = rev (dropWhile (\<lambda>f. f_expire (fragof s f) < seconds s) (rev (queue s)))"
  by (rule expire_frags_tail [where P = frag_inv]) (use del_frag4_tail [OF _ _ assms] in blast)

text \<open>
  Claim C14: the loop that expires NAT entries returns, with as much fuel as the heap has entries,
  and deletes exactly the entries that are overdue: those left are the ones that were not, with
  their timeouts, and the heap is in order. So is what the loops do with the queues of IPv4
  fragments: they take exactly the expired fragments off the tail, and the tables stay consistent.
\<close>

theorem expiry_exact:
  assumes "heap_inv s" "nats s 0 = None" "nat_heap_last s < k" and "frag_inv s" "length (fragsin s) < k" "length (fragsout s) < k"
  shows "(\<exists>s'. expire_nats k cfg s = Some s' \<and> heap_inv s' \<and> heap_set s' = {n \<in> heap_set s. seconds s \<le> tmo s n} \<and>
        (\<forall>n \<in> heap_set s'. tmo s' n = tmo s n)) \<and>
    (\<exists>s'. expire_frags k fragsin del_frag4 DR_FINTM s = Some s' \<and> frag_inv s' \<and>
        fragsin s' = rev (dropWhile (\<lambda>f. f_expire (fragof s f) < seconds s) (rev (fragsin s)))) \<and>
    (\<exists>s'. expire_frags k fragsout del_frag4 DR_FOUTTM s = Some s' \<and> frag_inv s' \<and>
        fragsout s' = rev (dropWhile (\<lambda>f. f_expire (fragof s f) < seconds s) (rev (fragsout s))))"
proof -
  have "card (heap_set s) \<le> card {1..nat_heap_last s}"
    unfolding heap_set_def by (rule surj_card_le [where f = "(!) (nat_heap s)"]) auto
  then have "card (heap_set s) < k" using assms(3) by simp
  from expire_nats_exact [of s k cfg, OF _ this] assms(1,2)
    expire_frags4 [of fragsin DR_FINTM, OF _ assms(4,5)] expire_frags4 [of fragsout DR_FOUTTM, OF _ assms(4,6)]
  show ?thesis unfolding timed_def by blast
qed

theorem expiry_exact_witness:
  "\<exists>s'. expire_nats 2 default_config (heap1\<lparr>seconds := 6\<rparr>) = Some s' \<and> heap_set s' = {}"
proof -
  let ?s = "heap1\<lparr>seconds := 6\<rparr>"
  have h: "heap_inv ?s" "heap_set ?s = {7}" "tmo ?s 7 = 5"
    using heap1_facts by (simp_all add: heap_inv_def heap_set_def tmo_def hidx_def natof_def heap1_def)
  have "nats ?s 0 = None" "nat_heap_last ?s < 2" "frag_inv ?s" "length (fragsin ?s) < 2" "length (fragsout ?s) < 2"
    by (simp_all add: heap1_def aftr0_def frag_inv_def)
  from expiry_exact [OF h(1) this, of default_config] show ?thesis using h by auto
qed

end
