(* ===== verification/Aftr_Daemon.thy ===== *)
theory Aftr_Daemon
  imports Aftr_House
begin

text \<open>
  The tables of the daemon over a whole run: traffic, expiry, the commands that make and delete
  bindings and tunnels, reloads and the collector, in any order, starting from the empty state.
\<close>

section \<open>The commands on bindings\<close>

definition lists_known :: "nat list \<Rightarrow> aftr \<Rightarrow> bool" where
  "lists_known gls s \<longleftrightarrow> (\<forall>k. gchains s k \<noteq> [] \<longrightarrow> k \<in> set gls)"

lemma chain_of_case:
  assumes "lists_known gls s"
  shows "case chain_of gls n s of None \<Rightarrow> (\<forall>j. n \<notin> set (gchains s j)) | Some k \<Rightarrow> n \<in> set (gchains s k)"
proof (cases "chain_of gls n s")
  case None
  have "n \<notin> set (gchains s j)" for j
    using None assms by (cases "gchains s j = []") (auto simp: chain_of_def find_None_iff lists_known_def)
  then show ?thesis using None by simp
next
  case (Some k)
  then have "n \<in> set (gchains s k)" by (auto simp: chain_of_def find_Some_iff)
  then show ?thesis using Some by simp
qed

lemma lists_known_same: "lists_same s s' \<Longrightarrow> lists_known gls s' = lists_known gls s"
  by (simp add: lists_same_def lists_known_def)

lemma compare_all_flags: "nat_tree_compare_all a b = 0 \<Longrightarrow> n_flags a = n_flags b"
  by (simp add: nat_tree_compare_all_def split: if_splits)

text \<open>What the two reload commands share after the lookup of the tunnel.\<close>

lemma reload_found_conf:
  assumes inv: "conf_inv s" and T: "tunnels s (n_tunnel k) \<noteq> None" and fl: "n_flags k AND ALL_DST \<noteq> 0"
    and gls: "lists_known gls s" and find: "static_find pr k s = (n, s')" and n: "n \<noteq> 0" "nat_tree_compare_all (natof s' n) k = 0"
  shows "conf_inv (adopt_static n (chain_of gls n s') s') \<and> active (adopt_static n (chain_of gls n s') s') = active s"
proof -
  obtain T where T: "tunnels s (n_tunnel k) = Some T" using T by auto
  note F = static_find_conf [OF inv T find]
  have act: "active s' = active s" using F same_flows_active by blast
  have a: "n \<in> active s' pr" using F n(1) act by simp
  have f: "n_flags (natof s' n) AND ALL_DST \<noteq> 0" using compare_all_flags [OF n(2)] fl by simp
  have "lists_known gls s'" using F gls lists_known_same by blast
  from adopt_static_conf [OF _ a f chain_of_case [OF this]] show ?thesis using F act by simp
qed

lemma reload_snat_conf:
  assumes inv: "conf_inv s" and al: "alloc_ok al s" and peer: "length src6 = 16" and len: "4 \<le> length src" "4 \<le> length nsrc"
    "2 \<le> length sport" "2 \<le> length nport" and proto: "proto = IPTCP \<or> proto = IPUDP" and gls: "lists_known gls s"
    and run: "reload_snat cfg al gls ss src6 proto src sport nsrc nport s = Some (r, s')"
  shows "conf_inv s' \<and> (active s' = active s \<or> active s' = (active s)(static_pr proto := insert (al_nid al) (active s (static_pr proto))))"
proof -
  have add: "conf_inv s' \<and> (active s' = active s \<or> active s' = (active s)(static_pr proto := insert (al_nid al) (active s (static_pr proto))))"
    if p: "conf_inv s1" "alloc_ok al s1" "active s1 = active s" "add_snat cfg al ss src6 proto src sport nsrc nport s1 = Some (r, s')" for s1
  proof -
    obtain n where "add_snat0 cfg al ss src6 proto src sport nsrc nport s1 = Some (n, s')" using p(4) by (auto simp: add_snat_def)
    from add_snat0_spec [OF p(1,2) peer len proto this] show ?thesis
      using p(3) by (auto simp: static_added_def static_refused_def static_entry_def)
  qed
  have keep: "alloc_ok al s1" if "lists_same s s1" "\<And>t. tunnels s1 t = None \<longleftrightarrow> tunnels s t = None" for s1
    using al that by (simp add: alloc_ok_def lists_same_def)
  obtain t s1 where look: "tunnel_lookup src6 s = (t, s1)" by fastforce
  note L = tunnel_lookup_conf [OF inv peer look]
  have a1: "active s1 = active s" using L same_flows_active by blast
  have "cores s1 u = cores s u" for u using L by simp
  then have d1: "tunnels s1 u = None \<longleftrightarrow> tunnels s u = None" for u by (metis cores_def option.map_disc_iff)
  let ?k = "static_entry t proto (ALL_DST OR MATCH_PORT) src sport nsrc nport 0"
  obtain n s2 where find: "static_find (static_pr proto) ?k s1 = (n, s2)" by fastforce
  have kt: "n_tunnel ?k = t" "n_flags ?k = ALL_DST OR MATCH_PORT" by (simp_all add: static_entry_def)
  note run2 = run [unfolded reload_snat_def Let_def look prod.case find]
  show ?thesis
  proof (cases "t = 0")
    case True
    then have "s1 = s" using L by simp
    then show ?thesis using add [of s] inv al run2 True by simp
  next
    case False
    then have T1: "tunnels s1 (n_tunnel ?k) \<noteq> None" using L kt by auto
    then obtain T where T: "tunnels s1 (n_tunnel ?k) = Some T" by auto
    have c1: "conf_inv s1" "lists_same s s1" using L by simp_all
    note F = static_find_conf [OF c1(1) T find]
    have a2: "active s2 = active s" using F a1 same_flows_active by metis
    have d2: "tunnels s2 u = None \<longleftrightarrow> tunnels s1 u = None" for u
      using find by (auto simp: static_find_def Let_def put_root_def upd_tunnel_def split: prod.splits if_splits)
    consider "s' = s1" | "n = 0" "add_snat cfg al ss src6 proto src sport nsrc nport s2 = Some (r, s')"
      | "s' = s2" | (found) "n \<noteq> 0" "nat_tree_compare_all (natof s2 n) ?k = 0" "s' = adopt_static n (chain_of gls n s2) s2"
      using run2 False by (auto split: if_splits)
    then show ?thesis
    proof cases
      case 2
      have "alloc_ok al s2" by (rule keep) (use F c1(2) lists_same_trans d1 d2 in blast)+
      then show ?thesis using add [of s2] F a2 2 by blast
    next
      case found
      have "lists_known gls s1" using gls lists_known_same [OF c1(2)] by simp
      from reload_found_conf [OF c1(1) T1 _ this find found(1,2)] found(3) a1 show ?thesis unfolding kt by simp
    qed (use L F a1 a2 in blast)+
  qed
qed

lemma reload_prr_conf:
  assumes inv: "conf_inv s" and al: "alloc_ok al s" and peer: "length src6 = 16" and len: "4 \<le> length src" "2 \<le> length sport"
    and proto: "proto = IPTCP \<or> proto = IPUDP" and gls: "lists_known gls s"
    and run: "reload_prr cfg al gls ss src6 proto src sport s = Some (r, s')"
  shows "conf_inv s' \<and> (active s' = active s \<or> active s' = (active s)(static_pr proto := insert (al_nid al) (active s (static_pr proto))))"
proof -
  have add: "conf_inv s' \<and> (active s' = active s \<or> active s' = (active s)(static_pr proto := insert (al_nid al) (active s (static_pr proto))))"
    if "conf_inv s1" "alloc_ok al s1" "active s1 = active s" "add_prr cfg al ss src6 proto src sport s1 = Some (r, s')" for s1
    using add_prr_spec [OF that(1,2) peer len proto that(4)] that(3) by (auto simp: static_added_def static_refused_def static_entry_def)
  have keep: "alloc_ok al s1" if "lists_same s s1" "\<And>t. tunnels s1 t = None \<longleftrightarrow> tunnels s t = None" for s1
    using al that by (simp add: alloc_ok_def lists_same_def)
  obtain t s1 where look: "tunnel_lookup src6 s = (t, s1)" by fastforce
  note L = tunnel_lookup_conf [OF inv peer look]
  have a1: "active s1 = active s" using L same_flows_active by blast
  have "cores s1 u = cores s u" for u using L by simp
  then have d1: "tunnels s1 u = None \<longleftrightarrow> tunnels s u = None" for u by (metis cores_def option.map_disc_iff)
  let ?k = "static_entry t proto (ALL_DST OR PRR_NULL OR MATCH_PORT) src sport src sport 0"
  obtain n s2 where find: "static_find (static_pr proto) ?k s1 = (n, s2)" by fastforce
  have kt: "n_tunnel ?k = t" "n_flags ?k = ALL_DST OR PRR_NULL OR MATCH_PORT" by (simp_all add: static_entry_def)
  note run2 = run [unfolded reload_prr_def Let_def look prod.case find]
  show ?thesis
  proof (cases "t = 0")
    case True
    then have "s1 = s" using L by simp
    then show ?thesis using add [of s] inv al run2 True by simp
  next
    case False
    then have T1: "tunnels s1 (n_tunnel ?k) \<noteq> None" using L kt by auto
    then obtain T where T: "tunnels s1 (n_tunnel ?k) = Some T" by auto
    have c1: "conf_inv s1" "lists_same s s1" using L by simp_all
    note F = static_find_conf [OF c1(1) T find]
    have a2: "active s2 = active s" using F a1 same_flows_active by metis
    have d2: "tunnels s2 u = None \<longleftrightarrow> tunnels s1 u = None" for u
      using find by (auto simp: static_find_def Let_def put_root_def upd_tunnel_def split: prod.splits if_splits)
    consider "s' = s1" | "n = 0" "add_prr cfg al ss src6 proto src sport s2 = Some (r, s')"
      | "s' = s2" | (found) "n \<noteq> 0" "nat_tree_compare_all (natof s2 n) ?k = 0" "s' = adopt_static n (chain_of gls n s2) s2"
      using run2 False by (auto split: if_splits)
    then show ?thesis
    proof cases
      case 2
      have "alloc_ok al s2" by (rule keep) (use F c1(2) lists_same_trans d1 d2 in blast)+
      then show ?thesis using add [of s2] F a2 2 by blast
    next
      case found
      have "lists_known gls s1" using gls lists_known_same [OF c1(2)] by simp
      from reload_found_conf [OF c1(1) T1 _ this find found(1,2)] found(3) a1 show ?thesis unfolding kt by simp
    qed (use L F a1 a2 in blast)+
  qed
qed

lemma del_static_conf:
  assumes inv: "conf_inv s" and T: "tunnels s (n_tunnel k) \<noteq> None" and gls: "lists_known gls s"
    and find: "static_find pr k s = (n, s')" and n: "n \<noteq> 0"
  shows "conf_inv (del_nat cfg n (chain_of gls n s') s') \<and> active (del_nat cfg n (chain_of gls n s') s') = (active s)(pr := active s pr - {n})"
proof -
  obtain T where T: "tunnels s (n_tunnel k) = Some T" using T by auto
  note F = static_find_conf [OF inv T find]
  have act: "active s' = active s" using F same_flows_active by blast
  have a: "n \<in> active s' pr" using F n act by simp
  have "lists_known gls s'" using F gls lists_known_same by blast
  from del_nat_conf [OF _ a chain_of_case [OF this]] F act show ?thesis by simp
qed

lemma del_snat_conf:
  assumes inv: "conf_inv s" and peer: "length src6 = 16" and gls: "lists_known gls s"
    and run: "del_snat cfg gls src6 proto src sport s = (r, s')"
  shows "conf_inv s' \<and> (active s' = active s \<or> (\<exists>n. active s' = (active s)(static_pr proto := active s (static_pr proto) - {n})))"
proof -
  obtain t s1 where look: "tunnel_lookup src6 s = (t, s1)" by fastforce
  note L = tunnel_lookup_conf [OF inv peer look]
  have a1: "active s1 = active s" using L same_flows_active by blast
  let ?k = "nat_zero\<lparr>n_tunnel := t, n_proto := proto, n_flags := ALL_DST, n_src := sub src 0 4, n_sport := sub sport 0 2\<rparr>"
  obtain n s2 where find: "static_find (static_pr proto) ?k s1 = (n, s2)" by fastforce
  note run2 = run [unfolded del_snat_def Let_def look prod.case find]
  show ?thesis
  proof (cases "t = 0 \<or> t_flags (tunof s1 t) AND TUNNONAT \<noteq> 0")
    case True
    then have "s' = s1" using run2 by (auto split: if_splits)
    then show ?thesis using L a1 by simp
  next
    case False
    then have T1: "tunnels s1 (n_tunnel ?k) \<noteq> None" using L by auto
    then obtain T where T: "tunnels s1 (n_tunnel ?k) = Some T" by auto
    have g: "lists_known gls s1" using gls L lists_known_same by blast
    have c1: "conf_inv s1" using L by simp
    show ?thesis
    proof (cases "n = 0")
      case True
      then show ?thesis using run2 False static_find_conf [OF c1 T find] a1 same_flows_active by auto
    next
      case n: False
      then have "s' = del_nat cfg n (chain_of gls n s2) s2" using run2 False by auto
      then show ?thesis using del_static_conf [OF c1 T1 g find n, of cfg] a1 by auto
    qed
  qed
qed

lemma del_prr_conf:
  assumes inv: "conf_inv s" and peer: "length src6 = 16" and gls: "lists_known gls s"
    and run: "del_prr cfg gls src6 proto src sport s = (r, s')"
  shows "conf_inv s' \<and> (active s' = active s \<or> (\<exists>n. active s' = (active s)(static_pr proto := active s (static_pr proto) - {n})))"
proof -
  obtain t s1 where look: "tunnel_lookup src6 s = (t, s1)" by fastforce
  note L = tunnel_lookup_conf [OF inv peer look]
  have a1: "active s1 = active s" using L same_flows_active by blast
  let ?k = "nat_zero\<lparr>n_tunnel := t, n_proto := proto, n_flags := ALL_DST OR PRR_NULL, n_src := sub src 0 4, n_sport := sub sport 0 2\<rparr>"
  obtain n s2 where find: "static_find (static_pr proto) ?k s1 = (n, s2)" by fastforce
  note run2 = run [unfolded del_prr_def Let_def look prod.case find]
  show ?thesis
  proof (cases "t = 0 \<or> t_flags (tunof s1 t) AND TUNNONAT \<noteq> 0")
    case True
    then have "s' = s1" using run2 by (auto split: if_splits)
    then show ?thesis using L a1 by simp
  next
    case False
    then have T1: "tunnels s1 (n_tunnel ?k) \<noteq> None" using L by auto
    then obtain T where T: "tunnels s1 (n_tunnel ?k) = Some T" by auto
    have g: "lists_known gls s1" using gls L lists_known_same by blast
    have c1: "conf_inv s1" using L by simp
    show ?thesis
    proof (cases "n = 0 \<or> n_flags (natof s2 n) AND PRR_NULL = 0")
      case True
      then have "s' = s2" using run2 False by (auto split: if_splits)
      then show ?thesis using static_find_conf [OF c1 T find] a1 same_flows_active by auto
    next
      case n: False
      then have "s' = del_nat cfg n (chain_of gls n s2) s2" using run2 False by auto
      then show ?thesis using del_static_conf [OF c1 T1 g find, of cfg] n a1 by auto
    qed
  qed
qed

lemma add_nonat_conf:
  assumes inv: "conf_inv s" and al: "alloc_ok al s" and peer: "length peer = 16" and run: "add_nonat cfg al peer addr plen s = (r, s')"
  shows "conf_inv s' \<and> active s' = active s"
proof -
  obtain t s1 where a: "add_tunnel cfg (al_mem al) (al_tid al) peer s = (t, s1)" by fastforce
  from add_tunnel_conf [OF inv peer _ _ _ a] al have A: "conf_inv s1" "active s1 = active s" by (simp_all add: alloc_ok_def)
  let ?s2 = "upd_tunnel t (\<lambda>T. T\<lparr>t_flags := t_flags T OR TUNNONAT, t_ngeneration := curgen s1, t_nnaddr := sub addr 0 4, t_nnplen := plen\<rparr>) s1"
  have U: "conf_inv ?s2 \<and> active ?s2 = active s1" using conf_inv_upd [OF A(1)] by simp
  have no: "conf_inv (u\<lparr>nonats := l\<rparr>) \<and> active (u\<lparr>nonats := l\<rparr>) = active u" if u: "conf_inv u" for u l
  proof -
    let ?v = "u\<lparr>nonats := l\<rparr>"
    have "tun_view ?v = tun_view u" "same_flows u ?v" "active ?v = active u" "natof ?v = natof u"
      by (simp_all add: tun_view_def tun_at_def same_flows_def active_def natof_def fun_eq_iff)
    then show ?thesis
      using u tun_inv_view [of ?v u] flow_inv_same [of u ?v] by (simp add: conf_inv_def static_inv_def)
  qed
  have "s' = s \<or> s' = s1 \<or> s' = ?s2\<lparr>nonats := nonats ?s2 @ [t]\<rparr>"
    using run a by (auto simp: add_nonat_def Let_def split: if_splits)
  then consider "s' = s" | "s' = s1" | "s' = ?s2\<lparr>nonats := nonats ?s2 @ [t]\<rparr>" by blast
  then show ?thesis
  proof cases
    case 3
    then show ?thesis using no [of ?s2 "nonats ?s2 @ [t]"] U A by simp
  qed (use A inv in simp_all)
qed

section \<open>Traffic\<close>

text \<open>
  What traffic leaves alone: the tables of the tunnels and the static lists. With it an
  operation that keeps the structures of the flows keeps the whole invariant.
\<close>

definition quiet :: "aftr \<Rightarrow> aftr \<Rightarrow> bool" where
  "quiet s s' \<longleftrightarrow> conf_frame s' = conf_frame s \<and> gchains s' = gchains s"

lemma quiet_refl [simp]: "quiet s s"
  by (simp add: quiet_def)

lemma quiet_trans: "quiet s t \<Longrightarrow> quiet t u \<Longrightarrow> quiet s u"
  by (simp add: quiet_def)

lemma list_frame_gchains: "list_frame s' = list_frame s \<Longrightarrow> gchains s' = gchains s"
  by (simp add: list_frame_def)

lemma quiet_heap: "only_heap s s' \<Longrightarrow> quiet s s'"
  using frames_heap list_frame_gchains unfolding quiet_def by blast

lemma quiet_upd [simp]:
  "quiet s (upd_nat n f s)" "quiet s (upd_pool i g s)" "quiet s (put_root t pr r s)" "quiet s (put_tree pr x s)"
  "quiet s (s\<lparr>nathash := b\<rparr>)" "quiet s (s\<lparr>nats := m\<rparr>)" "quiet s (s\<lparr>arc4 := a\<rparr>)" "quiet s (s\<lparr>pools := ps\<rparr>)"
  "quiet s (stat_drop d s)" "quiet s (emit e s)" "quiet s (count_new n s)" "quiet s (s\<lparr>seconds := i'\<rparr>)"
  "(\<And>T. t_remote (h T) = t_remote T \<and> t_hash (h T) = t_hash T) \<Longrightarrow> quiet s (upd_tunnel t h s)"
proof -
  show "quiet s (upd_nat n f s)" "quiet s (upd_pool i g s)" "quiet s (put_root t pr r s)" "quiet s (put_tree pr x s)"
    "quiet s (s\<lparr>nathash := b\<rparr>)" "quiet s (s\<lparr>nats := m\<rparr>)"
    unfolding quiet_def
    by (simp_all add: upd_nat_def upd_pool_def put_root_def put_tree_def upd_tunnel_def conf_frame_def tun_view_def tun_at_def
        fun_eq_iff option.map_comp o_def)
  show "quiet s (s\<lparr>arc4 := a\<rparr>)" "quiet s (s\<lparr>pools := ps\<rparr>)" "quiet s (stat_drop d s)" "quiet s (emit e s)" "quiet s (count_new n s)"
    "quiet s (s\<lparr>seconds := i'\<rparr>)"
    by (simp_all add: quiet_def conf_frame_def tun_view_def tun_at_def stat_drop_def emit_def count_new_def Let_def fun_eq_iff)
  assume "\<And>T. t_remote (h T) = t_remote T \<and> t_hash (h T) = t_hash T"
  then show "quiet s (upd_tunnel t h s)"
    by (simp add: quiet_def conf_frame_def tun_view_def fun_eq_iff tun_at_upd) (simp add: upd_tunnel_def tun_at_def)
qed

lemma quiet_hold: "quiet s (hold_nat cfg i pr n s)"
  unfolding hold_nat_def by (rule quiet_trans [OF quiet_upd(1) quiet_upd(2)])

lemma quiet_link:
  assumes "link_nat cfg m n s = (r, s')" shows "quiet s s'"
proof -
  let ?t = "n_tunnel (natof s n)" and ?pr = "pr_of_proto (n_proto (natof s n))" and ?i = "t_srcidx (tunof s (n_tunnel (natof s n)))"
  define s1 where "s1 = snd (nat_heap_insert m n s)"
  have q1: "quiet s s1" unfolding s1_def by (rule quiet_heap [OF only_heap_insert])
  have qd: "quiet s u \<Longrightarrow> quiet s (nat_heap_delete i u)" for i u by (rule quiet_trans [OF _ quiet_heap [OF only_heap_delete]])
  have qh: "quiet s u \<Longrightarrow> quiet s (hold_nat cfg ?i ?pr n u)" for u by (rule quiet_trans [OF _ quiet_hold])
  show ?thesis
  proof (cases "fst (nat_heap_insert m n s)")
    case False
    then have "s' = hold_nat cfg ?i ?pr n s1" using assms by (auto simp: link_nat_def s1_def split_beta Let_def)
    then show ?thesis using qh [OF q1] by simp
  next
    case True
    obtain x tr where ins: "nat_tree_insert (tree_cmp_nid s1 n) n (nat_tree s1 ?pr) = (x, tr)" by fastforce
    show ?thesis
    proof (cases x)
      case (Some y)
      then have "s' = hold_nat cfg ?i ?pr n (nat_heap_delete (hidx s1 n) s1)"
        using assms True ins by (auto simp: link_nat_def s1_def split_beta Let_def)
      then show ?thesis using qh [OF qd [OF q1]] by simp
    next
      case None
      let ?s2 = "put_tree ?pr tr s1"
      have q2: "quiet s ?s2" by (rule quiet_trans [OF q1]) simp
      obtain z rt where spl: "nat_splay_insert (splay_cmp_nid ?s2 n) n (t_tnat_root (tunof ?s2 ?t) ?pr) = (z, rt)" by fastforce
      let ?s3 = "put_root ?t ?pr rt ?s2"
      have q3: "quiet s ?s3" by (rule quiet_trans [OF q2]) simp
      show ?thesis
      proof (cases z)
        case (Some y)
        let ?s4 = "put_tree ?pr (nat_tree_remove n (nat_tree ?s3 ?pr)) ?s3"
        have q4: "quiet s ?s4" by (rule quiet_trans [OF q3]) simp
        have "s' = hold_nat cfg ?i ?pr n (nat_heap_delete (hidx ?s4 n) ?s4)"
          using assms True ins None spl Some by (auto simp: link_nat_def s1_def split_beta Let_def)
        then show ?thesis using qh [OF qd [OF q4]] by simp
      next
        case None2: None
        let ?s5 = "upd_tunnel ?t (\<lambda>t. t\<lparr>t_tnatcnt := (t_tnatcnt t)(?pr := t_tnatcnt t ?pr + 1)\<rparr>) (count_new n ?s3)"
        have "quiet s (count_new n ?s3)" by (rule quiet_trans [OF q3]) simp
        then have "quiet s ?s5" by (rule quiet_trans) (rule quiet_upd(13), simp)
        moreover have "s' = ?s5" using assms True ins None spl None2 by (auto simp: link_nat_def s1_def split_beta Let_def)
        ultimately show ?thesis by simp
      qed
    qed
  qed
qed

lemma quiet_fill_bucket: "fill_bucket cfg m t p s = Some s' \<Longrightarrow> quiet s s'"
  by (auto simp: fill_bucket_def Let_def split: option.splits if_splits
      intro!: quiet_trans [OF quiet_trans [OF quiet_upd(7) quiet_upd(13)] quiet_upd(2)])

lemma quiet_new_nat: 
  assumes "new_nat cfg m1 m2 n s = Some (r, s')" shows "quiet s s'"
proof -
  let ?t = "n_tunnel (natof s n)" and ?pr = "pr_of_proto (n_proto (natof s n))"
  obtain s1 where f: "(if t_avail (tunof s ?t) ?pr = 0 then fill_bucket cfg m1 ?t (n_proto (natof s n)) s else Some s) = Some s1"
    using assms by (auto simp: new_nat_def Let_def split: option.splits)
  then have q1: "quiet s s1" using quiet_fill_bucket by (auto split: if_splits)
  note run = assms [unfolded new_nat_def Let_def f option.case]
  show ?thesis
  proof (cases "t_bucket (tunof s1 ?t) ?pr")
    case None
    then have "s' = s1\<lparr>nats := (nats s1)(n := None)\<rparr>" using run by simp
    then show ?thesis using quiet_trans [OF q1] by simp
  next
    case (Some b)
    define av where "av = isc_decr_u8 (t_avail (tunof s1 ?t) ?pr)"
    let ?s2 = "upd_tunnel ?t (\<lambda>t. t\<lparr>t_avail := (t_avail t)(?pr := av)\<rparr>) s1"
    let ?s3 = "upd_nat n (\<lambda>e. e\<lparr>n_nport := [hi8 (uint (b ! unat av)), lo8 (uint (b ! unat av))]\<rparr>) ?s2"
    let ?s4 = "upd_pool (t_srcidx (tunof s ?t)) (\<lambda>ns. ns\<lparr>p_natcnt := (p_natcnt ns)(?pr := p_natcnt ns ?pr + 1)\<rparr>) ?s3"
    have "quiet s ?s2" by (rule quiet_trans [OF q1]) (rule quiet_upd(13), simp)
    then have "quiet s ?s3" by (rule quiet_trans) simp
    then have q4: "quiet s ?s4" by (rule quiet_trans) simp
    have "link_nat cfg m2 n ?s4 = (r, s')" using run Some by (simp add: av_def Let_def)
    from quiet_trans [OF q4 quiet_link [OF this]] show ?thesis .
  qed
qed

lemma quiet_splay_lookup: "splay_lookup c pr k s = (n, s') \<Longrightarrow> quiet s s'"
  by (auto simp: splay_lookup_def Let_def split: prod.splits)

lemma quiet_nat_lookup: "nat_lookup pr k s = (n, s') \<Longrightarrow> quiet s s'"
  by (auto simp: nat_lookup_def Let_def split: if_splits option.splits intro: quiet_trans [OF quiet_upd(5) quiet_upd(1)])

lemma quiet_rate_limit: "rate_limit cfg pr t s = (r, s') \<Longrightarrow> quiet s s'"
  by (auto simp: rate_limit_def Let_def split: if_splits)

lemma quiet_heap_increased: "quiet s (nat_heap_increased i s)"
  by (rule quiet_heap) (auto simp: nat_heap_increased_def intro!: only_heap_intros)

lemma quiet_heap_decreased: "quiet s (nat_heap_decreased i s)"
  by (rule quiet_heap) (auto simp: nat_heap_decreased_def intro!: only_heap_intros)

lemma quiet_shorten: "tcp_shorten cfg f n s = (r, s') \<Longrightarrow> quiet s s'"
  by (auto simp: tcp_shorten_def Let_def split: if_splits
      intro: quiet_trans [OF quiet_trans [OF quiet_upd(1) quiet_upd(1)] quiet_heap_increased])

lemma quiet_ack: "quiet s (tcp_ack f n s)"
  by (simp add: tcp_ack_def)

lemma quiet_tcpstate_in: "tcpstate_in cfg f n s = (r, s') \<Longrightarrow> quiet s s'"
  by (auto simp: tcpstate_in_def Let_def quiet_ack split: if_splits
      intro: quiet_trans [OF quiet_ack quiet_upd(1)] quiet_trans [OF quiet_trans [OF quiet_ack quiet_upd(1)] quiet_shorten])

lemma quiet_tcpstate_out: "tcpstate_out cfg f n s = (r, s') \<Longrightarrow> quiet s s'"
  by (auto simp: tcpstate_out_def Let_def quiet_ack split: if_splits
      intro: quiet_trans [OF quiet_ack quiet_upd(1)] quiet_trans [OF quiet_trans [OF quiet_ack quiet_upd(1)] quiet_shorten])

lemma quiet_bump: "quiet s (bump_timeout l n s)"
  by (auto simp: bump_timeout_def Let_def intro: quiet_trans [OF quiet_upd(1) quiet_heap_decreased])

lemma quiet_promote: "quiet s (splay_promote pr n s)"
  by (simp add: splay_promote_def Let_def)

lemma quiet_limit_port: "limit_port cfg mem addr proto lo hi s = (r, s') \<Longrightarrow> quiet s s'"
  by (auto simp: limit_port_def add_pool_def Let_def split: option.splits if_splits
      intro: quiet_trans [OF quiet_upd(8) quiet_upd(2)] quiet_trans [OF quiet_upd(8) quiet_upd(8)])

lemma conf_inv_quiet:
  assumes inv: "conf_inv s" and q: "quiet s s'" and fl: "flow_inv s'"
    and static: "\<And>k m. m \<in> set (gchains s k) \<Longrightarrow> (\<exists>pr. m \<in> active s' pr) \<and> n_flags (natof s' m) = n_flags (natof s m)"
  shows "conf_inv s'"
proof -
  have i: "tun_inv s" "static_inv s" "\<forall>t. tunnels s t \<noteq> None \<longrightarrow> t < 2 ^ 31" using inv by (simp_all add: conf_inv_def)
  have v: "tun_view s' = tun_view s" "(\<lambda>t. tunnels s' t = None) = (\<lambda>t. tunnels s t = None)" and g: "gchains s' = gchains s"
    using q by (simp_all add: quiet_def conf_frame_def)
  have d: "tunnels s' t = None \<longleftrightarrow> tunnels s t = None" for t using v(2) by metis
  have "tun_inv s'" using i(1) tun_inv_view [OF v(1)] by simp
  moreover have "static_inv s'" using i(2) static unfolding static_inv_def g by simp
  ultimately show ?thesis using fl i(3) d by (simp add: conf_inv_def)
qed

lemma conf_inv_same:
  assumes inv: "conf_inv s" and q: "quiet s s'" and sf: "same_flows s s'"
  shows "conf_inv s'"
proof (rule conf_inv_quiet [OF inv q])
  have i: "flow_inv s" "static_inv s" using inv by (simp_all add: conf_inv_def)
  show "flow_inv s'" by (rule flow_inv_same [OF i(1) sf])
  fix k m assume m: "m \<in> set (gchains s k)"
  then obtain pr where pr: "m \<in> active s pr" using i(2) unfolding static_inv_def by blast
  have "map_option flow_key (nats s' m) = map_option flow_key (nats s m)" using sf pr unfolding same_flows_def by blast
  moreover have "nats s m \<noteq> None" using flow_inv_live [OF i(1) pr] by simp
  ultimately have "n_flags (natof s' m) = n_flags (natof s m)" by (auto simp: natof_def flow_key_def)
  then show "(\<exists>pr. m \<in> active s' pr) \<and> n_flags (natof s' m) = n_flags (natof s m)" using pr same_flows_active [OF sf] by auto
qed

section \<open>A run of the daemon\<close>

text \<open>
  One operation: of the traffic (a pool, a new flow, an expired one, the lookups, the rate, the
  TCP states), of the configuration (the commands that make, confirm and delete bindings), of
  the collector, a change of the hash tables, or a change of the generations.
\<close>

inductive daemon_step :: "config \<Rightarrow> aftr \<Rightarrow> aftr \<Rightarrow> bool" for cfg :: config where
  pool: "limit_port cfg mem addr proto lo hi s = (r, s') \<Longrightarrow> daemon_step cfg s s'"
| create: "nats s n = None \<Longrightarrow> n \<noteq> 0 \<Longrightarrow> key_ok e \<Longrightarrow> tunnels s (n_tunnel e) \<noteq> None \<Longrightarrow>
    new_nat cfg m1 m2 n (s\<lparr>nats := (nats s)(n \<mapsto> e)\<rparr>) = Some (r, s') \<Longrightarrow> daemon_step cfg s s'"
| expire: "n \<in> active s pr \<Longrightarrow> \<forall>k. n \<notin> set (gchains s k) \<Longrightarrow> daemon_step cfg s (del_nat cfg n None s)"
| look_in: "tunnels s (n_tunnel k) \<noteq> None \<Longrightarrow> splay_lookup cmp pr k s = (n, s') \<Longrightarrow> daemon_step cfg s s'"
| look_out: "length (n_nsrc k) = 4 \<Longrightarrow> length (n_nport k) = 2 \<Longrightarrow> nat_lookup pr k s = (n, s') \<Longrightarrow> daemon_step cfg s s'"
| limit: "rate_limit cfg pr t s = (r, s') \<Longrightarrow> daemon_step cfg s s'"
| tcp_in: "tcpstate_in cfg flags n s = (r, s') \<Longrightarrow> daemon_step cfg s s'"
| tcp_out: "tcpstate_out cfg flags n s = (r, s') \<Longrightarrow> daemon_step cfg s s'"
| bump: "daemon_step cfg s (bump_timeout life n s)"
| promote: "daemon_step cfg s (splay_promote pr n s)"
| tunnel: "alloc_ok al s \<Longrightarrow> length peer = 16 \<Longrightarrow> add_stdtunnel cfg (al_mem al) (al_tid al) peer src s = Some (t, s') \<Longrightarrow>
    daemon_step cfg s s'"
| snat: "alloc_ok al s \<Longrightarrow> length src6 = 16 \<Longrightarrow> 4 \<le> length src \<Longrightarrow> 4 \<le> length nsrc \<Longrightarrow> 2 \<le> length sport \<Longrightarrow> 2 \<le> length nport \<Longrightarrow>
    proto = IPTCP \<or> proto = IPUDP \<Longrightarrow> add_snat cfg al ss src6 proto src sport nsrc nport s = Some (r, s') \<Longrightarrow> daemon_step cfg s s'"
| prr: "alloc_ok al s \<Longrightarrow> length src6 = 16 \<Longrightarrow> 4 \<le> length src \<Longrightarrow> 2 \<le> length sport \<Longrightarrow>
    proto = IPTCP \<or> proto = IPUDP \<Longrightarrow> add_prr cfg al ss src6 proto src sport s = Some (r, s') \<Longrightarrow> daemon_step cfg s s'"
| reload_snat: "alloc_ok al s \<Longrightarrow> length src6 = 16 \<Longrightarrow> 4 \<le> length src \<Longrightarrow> 4 \<le> length nsrc \<Longrightarrow> 2 \<le> length sport \<Longrightarrow>
    2 \<le> length nport \<Longrightarrow> proto = IPTCP \<or> proto = IPUDP \<Longrightarrow> lists_known gls s \<Longrightarrow>
    reload_snat cfg al gls ss src6 proto src sport nsrc nport s = Some (r, s') \<Longrightarrow> daemon_step cfg s s'"
| reload_prr: "alloc_ok al s \<Longrightarrow> length src6 = 16 \<Longrightarrow> 4 \<le> length src \<Longrightarrow> 2 \<le> length sport \<Longrightarrow>
    proto = IPTCP \<or> proto = IPUDP \<Longrightarrow> lists_known gls s \<Longrightarrow>
    reload_prr cfg al gls ss src6 proto src sport s = Some (r, s') \<Longrightarrow> daemon_step cfg s s'"
| del_snat: "length src6 = 16 \<Longrightarrow> lists_known gls s \<Longrightarrow> del_snat cfg gls src6 proto src sport s = (r, s') \<Longrightarrow> daemon_step cfg s s'"
| del_prr: "length src6 = 16 \<Longrightarrow> lists_known gls s \<Longrightarrow> del_prr cfg gls src6 proto src sport s = (r, s') \<Longrightarrow> daemon_step cfg s s'"
| nonat: "alloc_ok al s \<Longrightarrow> length src6 = 16 \<Longrightarrow> add_nonat cfg al src6 addr plen s = (r, s') \<Longrightarrow> daemon_step cfg s s'"
| collect: "n \<in> set (gchains s k) \<Longrightarrow> daemon_step cfg s (gc_del cfg k n s)"
| resize: "resize_hashes mem rdat (st, s) = (st', s') \<Longrightarrow> daemon_step cfg s s'"
| generation: "daemon_step cfg s (s\<lparr>curgen := g, lastgen := g', seconds := i\<rparr>)"

lemma conf_inv_gen: "conf_inv s \<Longrightarrow> conf_inv (s\<lparr>curgen := g, lastgen := g', seconds := i\<rparr>)"
proof -
  assume inv: "conf_inv s"
  let ?s = "s\<lparr>curgen := g, lastgen := g', seconds := i\<rparr>"
  have "tun_view ?s = tun_view s" "same_flows s ?s" "active ?s = active s" "natof ?s = natof s"
    by (simp_all add: tun_view_def tun_at_def same_flows_def active_def natof_def fun_eq_iff)
  then show ?thesis using inv tun_inv_view [of ?s s] flow_inv_same [of s ?s] by (simp add: conf_inv_def static_inv_def)
qed

lemma create_conf:
  assumes inv: "conf_inv s" and n: "nats s n = None" "n \<noteq> 0" and e: "key_ok e" "tunnels s (n_tunnel e) \<noteq> None"
    and run: "new_nat cfg m1 m2 n (s\<lparr>nats := (nats s)(n \<mapsto> e)\<rparr>) = Some (r, s')"
  shows "conf_inv s'"
proof -
  let ?s = "s\<lparr>nats := (nats s)(n \<mapsto> e)\<rparr>"
  have i: "flow_inv s" "static_inv s" using inv by (simp_all add: conf_inv_def)
  have fresh: "n \<notin> active s pr" for pr using n(1) flow_inv_live [OF i(1), of n pr] by auto
  have sf: "same_flows s ?s" by (rule sf_forget [OF same_flows_refl]) (use fresh in blast)
  have inv1: "conf_inv ?s" by (rule conf_inv_same [OF inv _ sf]) simp
  have fl: "flow_inv ?s" using inv1 by (simp add: conf_inv_def)
  have q: "quiet ?s s'" by (rule quiet_new_nat [OF run])
  have T: "tunnels ?s (n_tunnel e) \<noteq> None" using e(2) by simp
  have fr: "n \<notin> active ?s pr" for pr using fresh same_flows_active [OF sf] by simp
  have en: "nats ?s n = Some e" by simp
  note F = new_nat_flows [OF fl fr n(2) en e(1) T run]
  show ?thesis
  proof (cases r)
    case False
    then have "same_flows ?s s'" using F by simp
    then show ?thesis by (rule conf_inv_same [OF inv1 q])
  next
    case True
    show ?thesis
    proof (rule conf_inv_quiet [OF inv1 q])
      show "flow_inv s'" using F True by simp
      fix k m assume m: "m \<in> set (gchains ?s k)"
      then obtain pr where pr: "m \<in> active ?s pr" using inv1 unfolding conf_inv_def static_inv_def by blast
      then have "m \<noteq> n" using fr by blast
      then have "map_option flow_key (nats s' m) = map_option flow_key (nats ?s m)" using F True by simp
      moreover have "nats ?s m \<noteq> None" using flow_inv_live [OF fl pr] by simp
      ultimately have "n_flags (natof s' m) = n_flags (natof ?s m)" by (auto simp: natof_def flow_key_def)
      moreover have "m \<in> active s' pr" using F True pr by (auto split: if_splits)
      ultimately show "(\<exists>pr. m \<in> active s' pr) \<and> n_flags (natof s' m) = n_flags (natof ?s m)" by blast
    qed
  qed
qed

lemma lookup_out_conf:
  assumes inv: "conf_inv s" and k: "length (n_nsrc k) = 4" "length (n_nport k) = 2" and run: "nat_lookup pr k s = (n, s')"
  shows "conf_inv s'"
proof (rule conf_inv_quiet [OF inv quiet_nat_lookup [OF run]])
  have i: "flow_inv s" "static_inv s" using inv by (simp_all add: conf_inv_def)
  note F = nat_lookup_flows [OF i(1) k run]
  show "flow_inv s'" using F by blast
  fix j m assume m: "m \<in> set (gchains s j)"
  then obtain pr where pr: "m \<in> active s pr" using i(2) unfolding static_inv_def by blast
  have "map_option (snd \<circ> flow_key) (nats s' m) = map_option (snd \<circ> flow_key) (nats s m)" using F by blast
  moreover have "nats s m \<noteq> None" using flow_inv_live [OF i(1) pr] by simp
  ultimately have "n_flags (natof s' m) = n_flags (natof s m)" by (auto simp: natof_def flow_key_def)
  then show "(\<exists>pr. m \<in> active s' pr) \<and> n_flags (natof s' m) = n_flags (natof s m)" using pr F by auto
qed

lemma daemon_step_conf:
  assumes "daemon_step cfg s s'" "conf_inv s"
  shows "conf_inv s'"
  using assms
proof (induction rule: daemon_step.induct)
  case (create s n e m1 m2 r s')
  show ?case by (rule create_conf [OF create(6,1-5)])
next
  case (expire n s pr)
  then show ?case using del_nat_conf [of s n pr None cfg] by simp
next
  case (look_in s k cmp pr n s')
  then obtain T where "tunnels s (n_tunnel k) = Some T" by auto
  from splay_lookup_flows [OF _ this look_in(2)] look_in(3) have "same_flows s s'" by (simp add: conf_inv_def)
  then show ?case by (rule conf_inv_same [OF look_in(3) quiet_splay_lookup [OF look_in(2)]])
next
  case (look_out k pr s n s')
  show ?case by (rule lookup_out_conf [OF look_out(4,1,2,3)])
next
  case (pool mem addr proto lo hi s r s')
  show ?case by (rule conf_inv_same [OF pool(2) quiet_limit_port [OF pool(1)] limit_port_flows [OF pool(1)]])
next
  case (limit pr t s r s')
  show ?case by (rule conf_inv_same [OF limit(2) quiet_rate_limit [OF limit(1)]]) (use rate_limit_flows [OF limit(1)] in blast)
next
  case (tcp_in flags n s r s')
  show ?case by (rule conf_inv_same [OF tcp_in(2) quiet_tcpstate_in [OF tcp_in(1)] tcpstate_in_flows [OF tcp_in(1)]])
next
  case (tcp_out flags n s r s')
  show ?case by (rule conf_inv_same [OF tcp_out(2) quiet_tcpstate_out [OF tcp_out(1)] tcpstate_out_flows [OF tcp_out(1)]])
next
  case (bump s life n)
  show ?case by (rule conf_inv_same [OF bump quiet_bump bump_timeout_flows [OF same_flows_refl]])
next
  case (promote s pr n)
  show ?case by (rule conf_inv_same [OF promote quiet_promote splay_promote_flows [OF same_flows_refl]])
next
  case (tunnel al s peer src t s')
  then show ?case using add_stdtunnel_conf [OF tunnel(4,2) _ _ _ tunnel(3)] by (simp add: alloc_ok_def)
next
  case (snat al s src6 src nsrc sport nport proto ss r s')
  then obtain n where "add_snat0 cfg al ss src6 proto src sport nsrc nport s = Some (n, s')" by (auto simp: add_snat_def)
  from add_snat0_spec [OF snat(9,1-7) this] show ?case by blast
next
  case (prr al s src6 src sport proto ss r s')
  from add_prr_spec [OF prr(7,1-6)] show ?case by blast
next
  case (reload_snat al s src6 src nsrc sport nport proto gls ss r s')
  from reload_snat_conf [OF reload_snat(10,1-9)] show ?case by blast
next
  case (reload_prr al s src6 src sport proto gls ss r s')
  from reload_prr_conf [OF reload_prr(8,1-7)] show ?case by blast
next
  case (del_snat src6 gls s proto src sport r s')
  from del_snat_conf [OF del_snat(4,1-3)] show ?case by blast
next
  case (del_prr src6 gls s proto src sport r s')
  from del_prr_conf [OF del_prr(4,1-3)] show ?case by blast
next
  case (nonat al s src6 addr plen r s')
  from add_nonat_conf [OF nonat(4,1-3)] show ?case by blast
next
  case (collect n s k)
  from gc_del_conf [OF collect(2,1), of cfg] show ?case by (simp add: gc_rel_def)
next
  case (resize mem rdat st s st' s')
  then show ?case using resize_hashes_conf [of s mem rdat st] by simp
next
  case (generation s g g' i)
  then show ?case by (rule conf_inv_gen)
qed

section \<open>The tables over a run\<close>

text \<open>A pool with one dynamic TCP port, and a static binding on another port of its address.\<close>

definition demo_pool :: aftr where
  "demo_pool = snd (limit_port default_config (\<lambda>k. True) port_addr IPTCP 2000 2000 aftr0)"

definition demo_start :: "u32 \<Rightarrow> aftr" where
  "demo_start g = demo_pool\<lparr>curgen := g, lastgen := FIRSTGEN, seconds := 0\<rparr>"

definition demo_alloc :: alloc where
  "demo_alloc = \<lparr>al_mem = (\<lambda>k. True), al_tid = 3, al_nid = 5\<rparr>"

lemma demo_pool_facts: "pools demo_pool = [Some port_pool]" "tunnels demo_pool = Map.empty" "nats demo_pool = Map.empty"
  "nat_tree demo_pool = (\<lambda>pr. RbNil)" "tunhash demo_pool = (\<lambda>h. 0)" "tunnel_tree demo_pool = TNull" "curgen demo_pool = 0"
  "gchains demo_pool = (\<lambda>k. [])" "lastgen demo_pool = FIRSTGEN"
  by (simp_all add: demo_pool_def limit_port_def find_pool_def aftr0_def add_pool_def Let_def upd_pool_def
      pr_of_proto_def port_pool_def)

lemma demo_pool_step: "daemon_step default_config aftr0 demo_pool"
  by (rule daemon_step.pool [of _ "\<lambda>k. True" port_addr IPTCP 2000 2000 _ "fst (limit_port default_config (\<lambda>k. True) port_addr IPTCP 2000 2000 aftr0)"])
    (simp add: demo_pool_def)

lemma demo_start_facts: "pools (demo_start g) = [Some port_pool]" "tunnels (demo_start g) = Map.empty"
  "nats (demo_start g) = Map.empty" "nat_tree (demo_start g) = (\<lambda>pr. RbNil)" "tunhash (demo_start g) = (\<lambda>h. 0)"
  "tunnel_tree (demo_start g) = TNull" "curgen (demo_start g) = g" "gchains (demo_start g) = (\<lambda>k. [])"
  by (simp_all add: demo_start_def demo_pool_facts)

lemma demo_start_reached: "(daemon_step default_config)\<^sup>*\<^sup>* aftr0 (demo_start g)"
proof -
  have "daemon_step default_config demo_pool (demo_start g)" unfolding demo_start_def by (rule daemon_step.generation)
  then show ?thesis using demo_pool_step by (meson r_into_rtranclp rtranclp.rtrancl_into_rtrancl)
qed

lemma demo_alloc_ok: "alloc_ok demo_alloc (demo_start g)"
  by (simp add: alloc_ok_def demo_alloc_def demo_start_facts)

lemma n_tunnel_static: "n_tunnel (static_entry t p fl a b c d g) = t"
  by (simp add: static_entry_def)

lemma demo_snat_adds:
  "\<exists>s'. add_snat default_config demo_alloc 0 (replicate 16 7) IPTCP [10, 0, 0, 1] [0, 80] port_addr [0, 80] (demo_start g) = Some (0, s')"
proof -
  have f: "find_pool port_addr (demo_start g) = Some 0" "\<not> dynamic_port 0 TCPPR [0, 80] (demo_start g)"
    by (simp_all add: find_pool_def demo_start_facts port_pool_facts port_addr_def dynamic_port_def poolof_def be16_def)
  have look: "tunnel_lookup (replicate 16 7) (demo_start g) = (0, (demo_start g))"
    by (simp add: tunnel_lookup_def Let_def demo_start_facts)
  have peer: "sub (replicate 16 7) 0 16 = (replicate 16 7 :: bytes)" by (simp add: sub_def)
  obtain tr where ins: "tunnel_tree_insert True (replicate 16 7) 3 TNull = (0, False, tr)"
    by (simp add: tunnel_tree_insert_def)
  define T where "T = (tunnel_zero (replicate 16 7))\<lparr>t_mtu := 1500, t_flags := 4, t_srcidx := 0\<rparr>"
  define s1 where "s1 = (demo_start g)\<lparr>tunnel_tree := tr, tunnels := [3 \<mapsto> T], tuncnt := tuncnt (demo_start g) + 1\<rparr>"
  have add: "add_stdtunnel default_config (\<lambda>k. True) 3 (replicate 16 7) (Some port_addr) (demo_start g) = Some (3, s1)"
    using ins peer
    by (simp add: add_stdtunnel_def demo_start_facts port_pool_facts add_tunnel_def look tunnel_zero_def upd_tunnel_def default_config_def
        s1_def T_def Let_def)
  have rb: "nat_tree_insert c 5 RbNil = (None, RbNode RB_BLACK RbNil 5 RbNil)" for c :: "nid \<Rightarrow> int"
    by (simp add: nat_tree_insert_def nat_tree_insert_color.simps plug_def)
  have sp: "nat_splay_insert c 5 Leaf = (None, Node Leaf 5 Leaf)" for c :: "nid \<Rightarrow> int"
    by (simp add: nat_splay_insert_def nat_splay_splay_def nat_splay_assemble_def)
  have "tunof s1 3 = T" "nat_tree s1 = (\<lambda>pr. RbNil)" by (simp_all add: s1_def tunof_def demo_start_facts)
  then have one: "fst (link_static False 0 5 (s1\<lparr>nats := (nats s1)(5 \<mapsto> e)\<rparr>)) = True" if "n_tunnel e = 3" for e
    using that rb sp by (simp add: link_static_def Let_def natof_def tunof_def T_def tunnel_zero_def)
  have fl: "t_flags (tunof s1 3) AND TUNNONAT = 0" by (simp add: s1_def tunof_def T_def)
  have pr: "static_pr IPTCP = TCPPR" by (simp add: static_pr_def)
  let ?e = "static_entry 3 IPTCP (ALL_DST OR MATCH_PORT) [10, 0, 0, 1] [0, 80] port_addr [0, 80] (curgen s1)"
  obtain s2 where link: "link_static False 0 5 (s1\<lparr>nats := (nats s1)(5 \<mapsto> ?e)\<rparr>) = (True, s2)"
    using one [OF n_tunnel_static] by (cases "link_static False 0 5 (s1\<lparr>nats := (nats s1)(5 \<mapsto> ?e)\<rparr>)") (metis fst_conv)
  have "add_snat0 default_config demo_alloc 0 (replicate 16 7) IPTCP [10, 0, 0, 1] [0, 80] port_addr [0, 80] (demo_start g) = Some (5, s2)"
    unfolding add_snat0_def Let_def f(1) option.case pr
    using f(2) add look fl link by (simp add: demo_alloc_def)
  then show ?thesis by (simp add: add_snat_def)
qed

lemma run_conf:
  assumes "(daemon_step cfg)\<^sup>*\<^sup>* aftr0 s" shows "conf_inv s"
  using assms by (induction rule: rtranclp_induct) (use conf_inv_aftr0 daemon_step_conf in blast)+

text \<open>What adding the binding gives, on the state with the pool.\<close>

lemma demo_snat_spec:
  assumes run: "add_snat default_config demo_alloc 0 (replicate 16 7) IPTCP [10, 0, 0, 1] [0, 80] port_addr [0, 80] (demo_start g) = Some (0, s')"
  shows "(daemon_step default_config)\<^sup>*\<^sup>* aftr0 s'" "conf_inv s'" "active s' TCPPR = {5}" "gchains s' = (\<lambda>k. [])(0 := [5])"
    "n_generation (natof s' 5) = g"
proof -
  have len: "length (replicate 16 (7 :: u8)) = 16" "4 \<le> length ([10, 0, 0, 1] :: bytes)" "4 \<le> length port_addr"
    "2 \<le> length ([0, 80] :: bytes)" by (simp_all add: port_addr_def)
  have step: "daemon_step default_config (demo_start g) s'"
    by (rule daemon_step.snat [OF demo_alloc_ok len(1,2,3,4,4) _ run]) simp
  then show reach: "(daemon_step default_config)\<^sup>*\<^sup>* aftr0 s'" using demo_start_reached [of g] by (rule rtranclp.rtrancl_into_rtrancl [rotated])
  then show "conf_inv s'" by (rule run_conf)
  obtain n where r0: "add_snat0 default_config demo_alloc 0 (replicate 16 7) IPTCP [10, 0, 0, 1] [0, 80] port_addr [0, 80] (demo_start g) = Some (n, s')"
    "n \<noteq> 0" using run by (auto simp: add_snat_def split: if_splits)
  have "conf_inv (demo_start g)" by (rule run_conf [OF demo_start_reached])
  from add_snat0_spec [OF this demo_alloc_ok len(1,2,3,4,4) _ r0(1)] r0(2) obtain t where
    "static_added (replicate 16 7) (static_entry t IPTCP (ALL_DST OR MATCH_PORT) [10, 0, 0, 1] [0, 80] port_addr [0, 80] g) 5 0 (demo_start g) s'"
    by (auto simp: demo_start_facts demo_alloc_def)
  moreover have "static_pr IPTCP = TCPPR" "active (demo_start g) TCPPR = {}" by (simp_all add: static_pr_def active_def demo_start_facts)
  ultimately show "active s' TCPPR = {5}" "gchains s' = (\<lambda>k. [])(0 := [5])" "n_generation (natof s' 5) = g"
    by (simp_all add: static_added_def static_entry_def static_list_def demo_start_facts natof_def)
qed



section \<open>Adding a binding and taking it back\<close>






section \<open>The collector\<close>

text \<open>
  Claim C6: the incremental collector finishes and deletes exactly what it should. After a
  reload, calls of gc_incr that delete at most \<open>q\<close> entries each end, after at most one call per
  \<open>q\<close> entries and one more, with no collection pending and no orphan left; the active entries
  are then those of before without the stale entries of the configuration and the entries of
  the closed sessions, and the list of the configuration has lost its stale entries and no
  other. All tables are consistent at the end.
\<close>

theorem gc_collects:
  assumes "gc_ok c" "0 < q"
  shows "\<exists>c'. gc_run cfg q (Suc (card (waste c) div q)) c = Some c' \<and> needgc c' = 0 \<and> orphans c' = [] \<and>
    conf_inv (core c') \<and> (\<forall>pr. active (core c') pr = active (core c) pr - waste c) \<and>
    gchains (core c') 0 = filter (\<lambda>n. \<not> stale (core c) n) (gchains (core c) 0)"
proof -
  obtain c' where c': "gc_run cfg q (Suc (card (waste c) div q)) c = Some c'" "needgc c' = 0" "orphans c' = []"
    "gc_rel (waste c) (core c) (core c')" using gc_run_ends [OF assms] by blast
  have i: "conf_inv (core c)" "0 \<notin> set (orphans c)" using assms(1) by (simp_all add: gc_ok_def)
  have "n \<in> waste c \<longleftrightarrow> stale (core c) n" if n: "n \<in> set (gchains (core c) 0)" for n
  proof -
    have "n \<notin> set (gchains (core c) k)" if "k \<in> set (orphans c)" for k
      using conf_disjoint [OF i(1), of 0 k] n that i(2) by (cases "k = 0") auto
    then show ?thesis using n unfolding waste_def by blast
  qed
  then have "gchains (core c') 0 = filter (\<lambda>n. \<not> stale (core c) n) (gchains (core c) 0)"
    using c'(4) by (simp add: gc_rel_def cong: filter_cong)
  then show ?thesis using c' unfolding gc_rel_def by blast
qed

text \<open>A binding of an old generation, with a collection due.\<close>

definition demo_ctl :: "aftr \<Rightarrow> ctl" where
  "demo_ctl s = \<lparr>core = s\<lparr>curgen := FIRSTGEN + 1, lastgen := FIRSTGEN + 1, seconds := 0\<rparr>\<lparr>gc_ptr := 0\<rparr>, needgc = 2, needbt = 0,
     sslist = [], orphans = [], ss_generation = (\<lambda>k. 0), sesgen = 0, reload_session = None\<rparr>"

theorem gc_collects_witness:
  "\<exists>c c'. active (core c) TCPPR = {5} \<and> gchains (core c) 0 = [5] \<and> gc_run default_config 1 2 c = Some c' \<and>
    active (core c') TCPPR = {} \<and> gchains (core c') 0 = []"
proof -
  obtain s where run: "add_snat default_config demo_alloc 0 (replicate 16 7) IPTCP [10, 0, 0, 1] [0, 80] port_addr [0, 80] (demo_start FIRSTGEN) = Some (0, s)"
    using demo_snat_adds by blast
  note S = demo_snat_spec [OF run]
  let ?s = "s\<lparr>curgen := FIRSTGEN + 1, lastgen := FIRSTGEN + 1, seconds := 0\<rparr>" and ?c = "demo_ctl s"
  have inv: "conf_inv (core ?c)" using conf_inv_ptr [OF conf_inv_gen [OF S(2)]] by (simp add: demo_ctl_def gc_rel_def)
  have f: "active (core ?c) TCPPR = {5}" "gchains (core ?c) 0 = [5]" "orphans ?c = []"
    using S(3,4) by (simp_all add: demo_ctl_def active_def)
  have st: "stale (core ?c) 5" using S(5) by (simp add: demo_ctl_def stale_def natof_def)
  have ok: "gc_ok ?c" using inv by (simp add: gc_ok_def demo_ctl_def)
  have w: "waste ?c = {5}" using f st by (auto simp: waste_def)
  have q: "0 < (1 :: nat)" by simp
  obtain c' where "gc_run default_config 1 (Suc (card (waste ?c) div 1)) ?c = Some c'" "\<forall>pr. active (core c') pr = active (core ?c) pr - waste ?c"
    "gchains (core c') 0 = filter (\<lambda>n. \<not> stale (core ?c) n) (gchains (core ?c) 0)"
    using gc_collects [OF ok q] by blast
  then show ?thesis using f st unfolding w by (intro exI [of _ ?c] exI [of _ c']) (simp add: numeral_2_eq_2)
qed
end
