(* ===== verification/Aftr_Cmd.thy ===== *)
theory Aftr_Cmd
  imports Aftr_Static Complex_Main
begin

unbundle bit_operations_syntax

text \<open>
  The command interpreter of the control channel and of the configuration file: the command
  tables, cmd_dispatch, cmdline, the commands, and the loading and reloading of files. The
  result of a command is its return value and the new state; \<open>None\<close> is a command that does not
  return (an abort, an exit or a null pointer). What a command prints is left out, apart from
  \<open>list default\<close>.
\<close>

section \<open>The state of the interpreter\<close>

text \<open>What strtod returns: a decay may be any double.\<close>

datatype double = Finite rat | Infinite bool | NotANumber

text \<open>
  The globals that commands change. A session is a number; \<open>d_open\<close> (fd is not -1), \<open>d_stdio\<close> (sstype is ccstdio), \<open>d_section\<close>, \<open>d_locked\<close>, \<open>d_name\<close>,
  \<open>d_log\<close> (sserr is open) and \<open>d_notify\<close> (ssnot is open) are its fields. \<open>d_stream\<close> is what
  reload_stream has still to deliver, \<open>d_debugged\<close> is tunnel_debugged with 0 for NULL.
\<close>

record daemon =
  d_ctl :: ctl
  d_cfg :: config
  d_quantum :: nat
  d_decays :: "double list"
  d_local6_set :: bool
  d_icmpsrc_set :: bool
  d_debuglevel :: int
  d_debugged :: tid
  d_open :: "nat \<Rightarrow> bool"
  d_stdio :: "nat \<Rightarrow> bool"
  d_section :: "nat \<Rightarrow> nat"
  d_locked :: "nat \<Rightarrow> nat"
  d_name :: "nat \<Rightarrow> string option"
  d_log :: "nat \<Rightarrow> bool"
  d_notify :: "nat \<Rightarrow> bool"
  d_loading :: bool
  d_reloading :: bool
  d_checkconf :: bool
  d_stream :: "string list option"
  d_ln :: int
  d_savedgen :: u32
  d_savedsec :: nat
  d_savedloc :: nat

text \<open>
  What the commands ask of the system: inet_pton for the two families, strtod with what it
  leaves unread, the allocations of a command, strdup and fdopen, and the files: the lines that fgets returns, \<open>None\<close> when fopen fails. \<open>e_before\<close> is
  the byte in memory before the line buffer, which cmdline reads on an empty line.
\<close>

record sysenv =
  e_pton4 :: "string \<Rightarrow> bytes option"
  e_pton6 :: "string \<Rightarrow> bytes option"
  e_strtod :: "string \<Rightarrow> double \<times> string"
  e_alloc :: "daemon \<Rightarrow> alloc"
  e_mem :: "daemon \<Rightarrow> nat \<Rightarrow> bool"
  e_dup :: "daemon \<Rightarrow> bool"
  e_file :: "string \<Rightarrow> string list option"
  e_conf :: "string list option"
  e_before :: char

type_synonym result = "(int \<times> daemon) option"

definition ok :: "daemon \<Rightarrow> result" where
  "ok d = Some (0, d)"

definition bad :: "daemon \<Rightarrow> result" where
  "bad d = Some (-1, d)"

definition core_of :: "daemon \<Rightarrow> aftr" where
  "core_of d = core (d_ctl d)"

definition set_core :: "aftr \<Rightarrow> daemon \<Rightarrow> daemon" where
  "set_core s d = d\<lparr>d_ctl := (d_ctl d)\<lparr>core := s\<rparr>\<rparr>"

definition set_cfg :: "(config \<Rightarrow> config) \<Rightarrow> daemon \<Rightarrow> daemon" where
  "set_cfg f d = d\<lparr>d_cfg := f (d_cfg d)\<rparr>"

text \<open>An operation of the tables, run on the state; the second form may not return.\<close>

definition on_core :: "(aftr \<Rightarrow> int \<times> aftr) \<Rightarrow> daemon \<Rightarrow> result" where
  "on_core f d = (let (r, s) = f (core_of d) in Some (r, set_core s d))"

definition on_core_opt :: "(aftr \<Rightarrow> (int \<times> aftr) option) \<Rightarrow> daemon \<Rightarrow> result" where
  "on_core_opt f d = map_option (\<lambda>(r, s). (r, set_core s d)) (f (core_of d))"

text \<open>The lists an entry may be in: confnats and those of the sessions.\<close>

definition lists_of :: "daemon \<Rightarrow> nat list" where
  "lists_of d = 0 # sslist (d_ctl d) @ orphans (d_ctl d)"

text \<open>tunnel_debugged is cleared when its tunnel goes.\<close>

definition sync_debugged :: "result \<Rightarrow> result" where
  "sync_debugged = map_option (\<lambda>(r, d). (r, if tunnels (core_of d) (d_debugged d) = None then d\<lparr>d_debugged := 0\<rparr> else d))"

section \<open>Opening and closing a session\<close>

text \<open>
  The close methods: the session leaves the list and its bindings are left to the collector.
  unix_close, tcp4_close and tcp6_close also close the streams.
\<close>

definition stdio_close :: "nat \<Rightarrow> daemon \<Rightarrow> result" where
  "stdio_close ss d =
     sync_debugged (map_option (\<lambda>c. (0, d\<lparr>d_ctl := c, d_open := (d_open d)(ss := False)\<rparr>))
       (gc_session ss ((d_ctl d)\<lparr>sslist := remove1 ss (sslist (d_ctl d))\<rparr>)))"

definition unix_close :: "nat \<Rightarrow> daemon \<Rightarrow> result" where
  "unix_close ss d =
     stdio_close ss (d\<lparr>d_log := (d_log d)(ss := False), d_notify := (d_notify d)(ss := False)\<rparr>)"

definition ccclose :: "nat \<Rightarrow> daemon \<Rightarrow> result" where
  "ccclose ss d = (if d_stdio d ss then stdio_close ss d else unix_close ss d)"

text \<open>
  unix_open, after which tcp4_open and tcp6_open are made: \<open>m 0\<close> is the accept, \<open>m 1\<close> the malloc,
  \<open>m 2\<close> and \<open>m 3\<close> the two streams; \<open>new\<close> is the session. \<open>None\<close> in the first component is NULL.
\<close>

definition unix_open :: "(nat \<Rightarrow> bool) \<Rightarrow> nat \<Rightarrow> daemon \<Rightarrow> (nat option \<times> daemon) option" where
  "unix_open m new d =
     (if \<not> m 0 \<or> \<not> m 1 then Some (None, d)
      else
        let (gen, c) = session_nextgen ((d_ctl d)\<lparr>sslist := new # sslist (d_ctl d)\<rparr>);
            d = d\<lparr>d_ctl := c\<lparr>ss_generation := (ss_generation c)(new := gen)\<rparr>, d_stdio := (d_stdio d)(new := False),
                  d_open := (d_open d)(new := True), d_section := (d_section d)(new := 8), d_locked := (d_locked d)(new := 0),
                  d_name := (d_name d)(new := None), d_log := (d_log d)(new := False), d_notify := (d_notify d)(new := False)\<rparr>
        in if \<not> m 2 \<or> \<not> m 3 then map_option (\<lambda>(r, d). (None, d)) (unix_close new d)
           else Some (Some new, d\<lparr>d_log := (d_log d)(new := True)\<rparr>))"

section \<open>Strings\<close>

text \<open>tolower in the C locale, strcasecmp and strncasecmp; equal is the result 0.\<close>

definition lower :: "char \<Rightarrow> char" where
  "lower c = (let n = (of_char c :: nat) in if 65 \<le> n \<and> n \<le> 90 then char_of (n + 32) else c)"

definition strcaseeq :: "string \<Rightarrow> string \<Rightarrow> bool" where
  "strcaseeq a b \<longleftrightarrow> map lower a = map lower b"

definition strncaseeq :: "string \<Rightarrow> string \<Rightarrow> nat \<Rightarrow> bool" where
  "strncaseeq a b n \<longleftrightarrow> map lower (take n a) = map lower (take n b)"

text \<open>\<open>strtok(NULL, " \t")\<close> on what is left of the line; \<open>extra\<close> when there is another token.\<close>

abbreviation (input) next_tok :: "string \<Rightarrow> (string \<times> string) option" where
  "next_tok \<equiv> strtok blanks"

definition extra :: "string \<Rightarrow> bool" where
  "extra rest \<longleftrightarrow> next_tok rest \<noteq> None"

text \<open>A port number in network order: \<open>sp >> 8\<close> and \<open>sp & 0xff\<close> stored in two bytes.\<close>

definition port_bytes :: "int \<Rightarrow> bytes" where
  "port_bytes p = [hi8 p, lo8 p]"

definition proto_of :: "string \<Rightarrow> u8" where
  "proto_of tok = (if strcaseeq tok ''tcp'' then IPTCP else IPUDP)"

text \<open>\<open>on\<close> or \<open>off\<close>.\<close>

definition switch :: "string \<Rightarrow> bool option" where
  "switch tok = (if strcaseeq tok ''on'' then Some True else if strcaseeq tok ''off'' then Some False else None)"

text \<open>
  An optional keyword before the value: \<open>(strcasecmp(tok, kw) == 0) && ((tok = strtok(...)) ==
  NULL)\<close> is an error.
\<close>

definition skip_word :: "string \<Rightarrow> string \<Rightarrow> string \<Rightarrow> (string \<times> string) option" where
  "skip_word kw tok rest = (if strcaseeq tok kw then next_tok rest else Some (tok, rest))"

text \<open>\<open>min-max\<close>: strtok at the dash, then the rest of the token.\<close>

definition port_range :: "string \<Rightarrow> (int \<times> int) option" where
  "port_range tok =
     (case strtok ''-'' tok of
        None \<Rightarrow> None
      | Some (a, behind) \<Rightarrow> (case strtok [] behind of None \<Rightarrow> None | Some (b, _) \<Rightarrow> Some (atoi a, atoi b)))"

section \<open>The default commands\<close>

definition cmd_eqfrag :: "string \<Rightarrow> string \<Rightarrow> daemon \<Rightarrow> result" where
  "cmd_eqfrag tok rest d =
     (if extra rest then bad d
      else case switch tok of None \<Rightarrow> bad d | Some b \<Rightarrow> ok (set_cfg (\<lambda>c. c\<lparr>eqfrag := b\<rparr>) d))"

definition cmd_autotunnel :: "string \<Rightarrow> string \<Rightarrow> daemon \<Rightarrow> result" where
  "cmd_autotunnel tok rest d =
     (if extra rest then bad d
      else case switch tok of None \<Rightarrow> bad d | Some b \<Rightarrow> ok (set_cfg (\<lambda>c. c\<lparr>use_autotunnel := b\<rparr>) d))"

definition cmd_defmss :: "string \<Rightarrow> string \<Rightarrow> daemon \<Rightarrow> result" where
  "cmd_defmss tok rest d =
     (if extra rest then bad d
      else case switch tok of None \<Rightarrow> bad d | Some b \<Rightarrow> ok (set_cfg (\<lambda>c. c\<lparr>enable_msspatch := b\<rparr>) d))"

text \<open>The value is cut to an unsigned short before it is compared with the minimum.\<close>

definition cmd_defmtu :: "string \<Rightarrow> string \<Rightarrow> daemon \<Rightarrow> result" where
  "cmd_defmtu tok rest d =
     (if extra rest then bad d
      else
        let m = (word_of_int (atoi tok) :: u16)
        in ok (set_cfg (\<lambda>c. c\<lparr>tundefmtu := (if m < 1280 then 1280 else m)\<rparr>) d))"

definition cmd_deftoobig :: "string \<Rightarrow> string \<Rightarrow> daemon \<Rightarrow> result" where
  "cmd_deftoobig tok rest d =
     (if strcaseeq tok ''on'' then ok (set_cfg (\<lambda>c. c\<lparr>default_toobig := TUNTBICMP\<rparr>) d)
      else if strcaseeq tok ''off'' then ok (set_cfg (\<lambda>c. c\<lparr>default_toobig := 0\<rparr>) d)
      else if strcaseeq tok ''strict'' then ok (set_cfg (\<lambda>c. c\<lparr>default_toobig := TUNTBDROP OR TUNTBICMP\<rparr>) d)
      else bad d)"

definition cmd_default_fragment :: "string \<Rightarrow> string \<Rightarrow> daemon \<Rightarrow> result" where
  "cmd_default_fragment tok rest d =
     (if strcaseeq tok ''equal'' then
        case next_tok rest of None \<Rightarrow> bad d | Some (tok, rest) \<Rightarrow> cmd_eqfrag tok rest d
      else if strcaseeq tok ''lifetime'' then
        case next_tok rest of
          None \<Rightarrow> bad d
        | Some (tok, rest) \<Rightarrow>
            if extra rest then bad d
            else
              let v = atoi tok
              in if v \<le> 0 \<or> v > 1200 then bad d else ok (set_cfg (\<lambda>c. c\<lparr>frag_lifetime := nat v\<rparr>) d)
      else
        case (if strcaseeq tok ''ipv6'' then Some 0 else if strcaseeq tok ''in'' then Some 1
              else if strcaseeq tok ''out'' then Some (2 :: nat) else None) of
          None \<Rightarrow> bad d
        | Some i \<Rightarrow>
            (case next_tok rest of
               None \<Rightarrow> bad d
             | Some (tok, rest) \<Rightarrow>
                 (case skip_word ''maxcount'' tok rest of
                    None \<Rightarrow> bad d
                  | Some (tok, rest) \<Rightarrow>
                      if extra rest then bad d
                      else
                        let v = atoi tok
                        in if v < 0 \<or> v > 16535 then bad d
                           else ok (set_cfg (\<lambda>c. c\<lparr>frag_maxcnt := (frag_maxcnt c)[i := nat v]\<rparr>) d))))"

definition cmd_default_hold :: "string \<Rightarrow> string \<Rightarrow> daemon \<Rightarrow> result" where
  "cmd_default_hold tok rest d =
     (case skip_word ''lifetime'' tok rest of
        None \<Rightarrow> bad d
      | Some (tok, rest) \<Rightarrow>
          if extra rest then bad d
          else
            let l = atoi tok
            in if l < 0 \<or> l > 600 then bad d else ok (set_cfg (\<lambda>c. c\<lparr>hold_lifetime := nat l\<rparr>) d))"

definition life_index :: "string \<Rightarrow> nat option" where
  "life_index tok =
     (if strcaseeq tok ''tcp'' then Some 0 else if strcaseeq tok ''closed'' then Some 1
      else if strcaseeq tok ''udp'' then Some 2 else if strcaseeq tok ''icmp'' then Some 3
      else if strcaseeq tok ''retrans'' then Some 4 else None)"

definition cmd_default_nat :: "string \<Rightarrow> string \<Rightarrow> daemon \<Rightarrow> result" where
  "cmd_default_nat tok rest d =
     (case skip_word ''lifetime'' tok rest of
        None \<Rightarrow> bad d
      | Some (tok, rest) \<Rightarrow>
          (case life_index tok of
             None \<Rightarrow> bad d
           | Some i \<Rightarrow>
               (case next_tok rest of
                  None \<Rightarrow> bad d
                | Some (tok, rest) \<Rightarrow>
                    (case skip_word ''lifetime'' tok rest of
                       None \<Rightarrow> bad d
                     | Some (tok, rest) \<Rightarrow>
                         (case (if i = 1 then skip_word ''tcp'' tok rest else Some (tok, rest)) of
                            None \<Rightarrow> bad d
                          | Some (tok, rest) \<Rightarrow>
                              if extra rest then bad d
                              else
                                let l = atoi tok
                                in if l \<le> 0 \<or> l > 36000 then bad d
                                   else ok (set_cfg (\<lambda>c. c\<lparr>nat_lifetime := (nat_lifetime c)[i := l]\<rparr>) d))))))"

definition pool_class :: "string \<Rightarrow> prclass option" where
  "pool_class tok =
     (if strcaseeq tok ''tcp'' then Some TCPPR else if strcaseeq tok ''udp'' then Some UDPPR
      else if strcaseeq tok ''echo'' \<or> strcaseeq tok ''icmp'' then Some ICMPPR else None)"

definition cmd_default_pool :: "string \<Rightarrow> string \<Rightarrow> daemon \<Rightarrow> result" where
  "cmd_default_pool tok rest d =
     (case pool_class tok of
        None \<Rightarrow> bad d
      | Some pr \<Rightarrow>
          (case next_tok rest of
             None \<Rightarrow> bad d
           | Some (tok, rest) \<Rightarrow>
               if extra rest then bad d
               else case port_range tok of
                 None \<Rightarrow> bad d
               | Some (lo, hi) \<Rightarrow>
                   if lo < 0 \<or> hi > 65535 \<or> lo > hi then bad d
                   else if lo = 0 \<and> pr \<noteq> ICMPPR then bad d
                   else ok (set_cfg (\<lambda>c. c\<lparr>poolmin := (poolmin c)(pr := word_of_int lo),
                                           poolmax := (poolmax c)(pr := word_of_int hi)\<rparr>) d)))"

text \<open>\<open>tcp\<close>, \<open>udp\<close>, and any other word for ICMP.\<close>

definition class_of :: "string \<Rightarrow> prclass" where
  "class_of tok = (if strcaseeq tok ''tcp'' then TCPPR else if strcaseeq tok ''udp'' then UDPPR else ICMPPR)"

definition cmd_default_tunnel_fragment :: "string \<Rightarrow> daemon \<Rightarrow> result" where
  "cmd_default_tunnel_fragment rest d =
     (case next_tok rest of
        None \<Rightarrow> bad d
      | Some (tok, rest) \<Rightarrow>
          (case (if strcaseeq tok ''ipv6'' then Some 0 else if strcaseeq tok ''ipv4'' then Some (1 :: nat) else None) of
             None \<Rightarrow> bad d
           | Some i \<Rightarrow>
               (case next_tok rest of
                  None \<Rightarrow> bad d
                | Some (tok, rest) \<Rightarrow>
                    (case skip_word ''maxcount'' tok rest of
                       None \<Rightarrow> bad d
                     | Some (tok, rest) \<Rightarrow>
                         if extra rest then bad d
                         else
                           let v = atoi tok
                           in if v \<le> 0 \<or> v > 255 then bad d
                              else ok (set_cfg (\<lambda>c. c\<lparr>fragtn_maxcnt := (fragtn_maxcnt c)[i := word_of_int v]\<rparr>) d)))))"

definition cmd_default_tunnel_nat :: "string \<Rightarrow> daemon \<Rightarrow> result" where
  "cmd_default_tunnel_nat rest d =
     (case next_tok rest of
        None \<Rightarrow> bad d
      | Some (tok, rest) \<Rightarrow>
          let pr = class_of tok
          in case next_tok rest of
               None \<Rightarrow> bad d
             | Some (tok, rest) \<Rightarrow>
                 if strcaseeq tok ''maxcount'' then
                   case next_tok rest of
                     None \<Rightarrow> bad d
                   | Some (tok, rest) \<Rightarrow>
                       if extra rest then bad d
                       else
                         let v = atoi tok
                         in if v \<le> 0 \<or> v > 65535 then bad d
                            else ok (set_cfg (\<lambda>c. c\<lparr>maxtnatcnt := (maxtnatcnt c)(pr := word_of_int v)\<rparr>) d)
                 else if strcaseeq tok ''rate'' then
                   case next_tok rest of
                     None \<Rightarrow> bad d
                   | Some (tok, rest) \<Rightarrow>
                       if extra rest then bad d
                       else
                         let v = atoi tok
                         in if v \<le> 0 \<or> v > 255 then bad d
                            else ok (set_cfg (\<lambda>c. c\<lparr>maxtnatrt := (maxtnatrt c)(pr := word_of_int v)\<rparr>) d)
                 else bad d)"

definition cmd_default_tunnel :: "string \<Rightarrow> string \<Rightarrow> daemon \<Rightarrow> result" where
  "cmd_default_tunnel tok rest d =
     (if strcaseeq tok ''auto'' then
        case next_tok rest of None \<Rightarrow> bad d | Some (tok, rest) \<Rightarrow> cmd_autotunnel tok rest d
      else if strcaseeq tok ''mss'' then
        case next_tok rest of None \<Rightarrow> bad d | Some (tok, rest) \<Rightarrow> cmd_defmss tok rest d
      else if strcaseeq tok ''mtu'' then
        case next_tok rest of None \<Rightarrow> bad d | Some (tok, rest) \<Rightarrow> cmd_defmtu tok rest d
      else if strcaseeq tok ''toobig'' then
        case next_tok rest of None \<Rightarrow> bad d | Some (tok, rest) \<Rightarrow> cmd_deftoobig tok rest d
      else if strcaseeq tok ''fragment'' then cmd_default_tunnel_fragment rest d
      else if strcaseeq tok ''nat'' then cmd_default_tunnel_nat rest d
      else bad d)"

text \<open>conf_global_close: the end of the global section puts the two ends of a range in order.\<close>

definition conf_global_close :: "daemon \<Rightarrow> daemon" where
  "conf_global_close =
     set_cfg (\<lambda>c. fold (\<lambda>pr c. if poolmin c pr > poolmax c pr
                then c\<lparr>poolmin := (poolmin c)(pr := poolmax c pr), poolmax := (poolmax c)(pr := poolmin c pr)\<rparr> else c)
       [TCPPR, UDPPR, ICMPPR] c)"


section \<open>The commands on tables\<close>

text \<open>del_acl6 and del_private after their argument; the generic form of the commands on an address.\<close>

definition with_addr :: "(string \<Rightarrow> bytes option) \<Rightarrow> string \<Rightarrow> daemon \<Rightarrow> (bytes \<Rightarrow> result) \<Rightarrow> result" where
  "with_addr pton tok d k = (case pton tok of None \<Rightarrow> bad d | Some a \<Rightarrow> k a)"

text \<open>
  The arguments \<open>peer proto src port\<close> that cmd_delete_nat, cmd_delete_prr, cmd_prr, cmd_nat and
  cmd_try read in the same way: each address is checked when the next token is known to be
  there. The ports are not checked. \<open>last\<close> is the token behind the source address.
\<close>

definition with_source ::
  "sysenv \<Rightarrow> string \<Rightarrow> string \<Rightarrow> daemon \<Rightarrow> (bytes \<Rightarrow> u8 \<Rightarrow> bytes option \<Rightarrow> string \<Rightarrow> string \<Rightarrow> result) \<Rightarrow> result" where
  "with_source env tok rest d k =
     (case next_tok rest of
        None \<Rightarrow> bad d
      | Some (ntok, rest) \<Rightarrow>
          with_addr (e_pton6 env) tok d (\<lambda>peer.
            case next_tok rest of
              None \<Rightarrow> bad d
            | Some (stok, rest) \<Rightarrow>
                (case next_tok rest of
                   None \<Rightarrow> bad d
                 | Some (ptok, rest) \<Rightarrow> k peer (proto_of ntok) (e_pton4 env stok) ptok rest)))"

definition cmd_delete_nat :: "sysenv \<Rightarrow> string \<Rightarrow> string \<Rightarrow> daemon \<Rightarrow> result" where
  "cmd_delete_nat env tok rest d =
     with_source env tok rest d (\<lambda>peer proto src ptok rest.
       if extra rest then bad d
       else case src of
         None \<Rightarrow> bad d
       | Some src \<Rightarrow> on_core (del_snat (d_cfg d) (lists_of d) peer proto src (port_bytes (atoi ptok))) d)"

definition cmd_delete_prr :: "sysenv \<Rightarrow> string \<Rightarrow> string \<Rightarrow> daemon \<Rightarrow> result" where
  "cmd_delete_prr env tok rest d =
     with_source env tok rest d (\<lambda>peer proto src ptok rest.
       if extra rest then bad d
       else case src of
         None \<Rightarrow> bad d
       | Some src \<Rightarrow> on_core (del_prr (d_cfg d) (lists_of d) peer proto src (port_bytes (atoi ptok))) d)"

definition cmd_delete_nonat :: "sysenv \<Rightarrow> string \<Rightarrow> string \<Rightarrow> daemon \<Rightarrow> result" where
  "cmd_delete_nonat env tok rest d =
     (if extra rest then bad d
      else with_addr (e_pton6 env) tok d (\<lambda>peer. sync_debugged (on_core_opt (del_nonat peer) d)))"

definition cmd_delete_tunnel :: "sysenv \<Rightarrow> string \<Rightarrow> string \<Rightarrow> daemon \<Rightarrow> result" where
  "cmd_delete_tunnel env tok rest d =
     (if extra rest then bad d
      else with_addr (e_pton6 env) tok d (\<lambda>peer. sync_debugged (on_core_opt (del_tunnel (d_cfg d) (lists_of d) peer) d)))"

text \<open>
  The source address of cmd_nat and cmd_try is checked before the port behind it is read, the
  same result as in with_source: nothing is changed before all arguments are read.
\<close>

definition with_binding ::
  "sysenv \<Rightarrow> string \<Rightarrow> string \<Rightarrow> daemon \<Rightarrow> (bytes \<Rightarrow> u8 \<Rightarrow> bytes \<Rightarrow> bytes \<Rightarrow> bytes \<Rightarrow> bytes \<Rightarrow> result) \<Rightarrow> result" where
  "with_binding env tok rest d k =
     with_source env tok rest d (\<lambda>peer proto src ptok rest.
       case src of
         None \<Rightarrow> bad d
       | Some src \<Rightarrow>
           (case next_tok rest of
              None \<Rightarrow> bad d
            | Some (ntok, rest) \<Rightarrow>
                (case next_tok rest of
                   None \<Rightarrow> bad d
                 | Some (nptok, rest) \<Rightarrow>
                     if extra rest then bad d
                     else with_addr (e_pton4 env) ntok d (\<lambda>nsrc.
                       k peer proto src (port_bytes (atoi ptok)) nsrc (port_bytes (atoi nptok))))))"

definition cmd_nat :: "sysenv \<Rightarrow> nat \<Rightarrow> string \<Rightarrow> string \<Rightarrow> daemon \<Rightarrow> result" where
  "cmd_nat env ss tok rest d =
     with_binding env tok rest d (\<lambda>peer proto src sport nsrc nport.
       if d_reloading d
       then on_core_opt (reload_snat (d_cfg d) (e_alloc env d) (lists_of d) ss peer proto src sport nsrc nport) d
       else on_core_opt (add_snat (d_cfg d) (e_alloc env d) ss peer proto src sport nsrc nport) d)"

definition cmd_prr :: "sysenv \<Rightarrow> nat \<Rightarrow> string \<Rightarrow> string \<Rightarrow> daemon \<Rightarrow> result" where
  "cmd_prr env ss tok rest d =
     with_source env tok rest d (\<lambda>peer proto src ptok rest.
       if extra rest then bad d
       else case src of
         None \<Rightarrow> bad d
       | Some src \<Rightarrow>
           let sport = port_bytes (atoi ptok)
           in if d_reloading d
              then on_core_opt (reload_prr (d_cfg d) (e_alloc env d) (lists_of d) ss peer proto src sport) d
              else on_core_opt (add_prr (d_cfg d) (e_alloc env d) ss peer proto src sport) d)"

definition cmd_nonat :: "sysenv \<Rightarrow> string \<Rightarrow> string \<Rightarrow> daemon \<Rightarrow> result" where
  "cmd_nonat env tok rest d =
     (case next_tok rest of
        None \<Rightarrow> bad d
      | Some (ntok, rest) \<Rightarrow>
          if extra rest then bad d
          else with_addr (e_pton6 env) tok d (\<lambda>peer.
            case strtok ''/'' ntok of
              None \<Rightarrow> bad d
            | Some (atok, behind) \<Rightarrow>
                with_addr (e_pton4 env) atok d (\<lambda>addr.
                  case strtok [] behind of
                    None \<Rightarrow> bad d
                  | Some (ltok, _) \<Rightarrow>
                      let plen = atoi ltok
                      in if plen < 0 \<or> plen > 32 then bad d
                         else if d_reloading d
                         then on_core (reload_nonat (d_cfg d) (e_alloc env d) peer addr (nat plen)) d
                         else on_core (add_nonat (d_cfg d) (e_alloc env d) peer addr (nat plen)) d)))"

definition proto_class :: "string \<Rightarrow> u8 option" where
  "proto_class tok =
     (if strcaseeq tok ''tcp'' then Some IPTCP else if strcaseeq tok ''udp'' then Some IPUDP
      else if strcaseeq tok ''echo'' \<or> strcaseeq tok ''icmp'' then Some IPICMP else None)"

definition cmd_pool :: "sysenv \<Rightarrow> string \<Rightarrow> string \<Rightarrow> daemon \<Rightarrow> result" where
  "cmd_pool env tok rest d =
     (case next_tok rest of
        None \<Rightarrow> with_addr (e_pton4 env) tok d (\<lambda>src. on_core (add_pool (d_cfg d) (e_mem env d) src) d)
      | Some (ntok, rest) \<Rightarrow>
          with_addr (e_pton4 env) tok d (\<lambda>src.
            case next_tok rest of
              None \<Rightarrow> bad d
            | Some (rtok, rest) \<Rightarrow>
                if extra rest then bad d
                else case proto_class ntok of
                  None \<Rightarrow> bad d
                | Some proto \<Rightarrow>
                    (case port_range rtok of
                       None \<Rightarrow> bad d
                     | Some (lo, hi) \<Rightarrow>
                         if lo < 0 \<or> hi > 65535 \<or> lo > hi then bad d
                         else if lo = 0 \<and> proto \<noteq> IPICMP then bad d
                         else on_core (limit_port (d_cfg d) (e_mem env d) src proto (word_of_int lo) (word_of_int hi)) d)))"

definition cmd_try :: "sysenv \<Rightarrow> nat \<Rightarrow> string \<Rightarrow> string \<Rightarrow> daemon \<Rightarrow> result" where
  "cmd_try env ss tok rest d =
     (if strcaseeq tok ''tunnel'' then
        case next_tok rest of
          None \<Rightarrow> bad d
        | Some (tok, rest) \<Rightarrow>
            let tunnel = (\<lambda>peer src. on_core_opt (try_tunnel (d_cfg d) (al_mem (e_alloc env d)) (al_tid (e_alloc env d)) peer src) d)
            in (case next_tok rest of
                  None \<Rightarrow> with_addr (e_pton6 env) tok d (\<lambda>peer. tunnel peer None)
                | Some (ntok, rest) \<Rightarrow>
                    with_addr (e_pton6 env) tok d (\<lambda>peer. with_addr (e_pton4 env) ntok d (\<lambda>src.
                      if extra rest then bad d else tunnel peer (Some src))))
      else if strcaseeq tok ''nat'' then
        case next_tok rest of
          None \<Rightarrow> bad d
        | Some (tok, rest) \<Rightarrow>
            with_binding env tok rest d (\<lambda>peer proto src sport nsrc nport.
              on_core_opt (\<lambda>s. map_option (\<lambda>(n, s). (if n = 0 then -1 else 0, s))
                (try_snat (d_cfg d) (e_alloc env d) ss peer proto src sport nsrc nport s)) d)
      else bad d)"

definition cmd_tunnel :: "sysenv \<Rightarrow> string \<Rightarrow> string \<Rightarrow> daemon \<Rightarrow> result" where
  "cmd_tunnel env tok rest d =
     (let al = e_alloc env d;
          go = (\<lambda>peer src.
            if d_reloading d then on_core_opt (reload_tunnel (d_cfg d) (al_mem al) (al_tid al) peer src) d
            else on_core_opt (\<lambda>s. map_option (\<lambda>(t, s). (if t = 0 then -1 else 0, s))
                   (add_stdtunnel (d_cfg d) (al_mem al) (al_tid al) peer src s)) d)
      in case next_tok rest of
           None \<Rightarrow> with_addr (e_pton6 env) tok d (\<lambda>peer. go peer None)
         | Some (ntok, rest) \<Rightarrow>
             with_addr (e_pton6 env) tok d (\<lambda>peer.
               if extra rest then bad d else with_addr (e_pton4 env) ntok d (\<lambda>src. go peer (Some src))))"

text \<open>mss, mtu and toobig take an address and one more token.\<close>

definition with_setting :: "sysenv \<Rightarrow> string \<Rightarrow> string \<Rightarrow> daemon \<Rightarrow> (bytes \<Rightarrow> string \<Rightarrow> result) \<Rightarrow> result" where
  "with_setting env tok rest d k =
     (case next_tok rest of
        None \<Rightarrow> bad d
      | Some (ntok, rest) \<Rightarrow> if extra rest then bad d else with_addr (e_pton6 env) tok d (\<lambda>peer. k peer ntok))"

definition cmd_mss :: "sysenv \<Rightarrow> string \<Rightarrow> string \<Rightarrow> daemon \<Rightarrow> result" where
  "cmd_mss env tok rest d =
     with_setting env tok rest d (\<lambda>peer ntok.
       case switch ntok of
         None \<Rightarrow> bad d
       | Some b \<Rightarrow> on_core (set_tunnel_flag peer (if b then TUNMSSFLG else 0) TUNMSSFLG) d)"

definition cmd_mtu :: "sysenv \<Rightarrow> string \<Rightarrow> string \<Rightarrow> daemon \<Rightarrow> result" where
  "cmd_mtu env tok rest d =
     with_setting env tok rest d (\<lambda>peer ntok. on_core (set_tunnel_mtu peer (word_of_int (atoi ntok)) True) d)"

definition cmd_toobig :: "sysenv \<Rightarrow> string \<Rightarrow> string \<Rightarrow> daemon \<Rightarrow> result" where
  "cmd_toobig env tok rest d =
     with_setting env tok rest d (\<lambda>peer ntok.
       case (if strcaseeq ntok ''on'' then Some TUNTBICMP else if strcaseeq ntok ''off'' then Some 0
             else if strcaseeq ntok ''strict'' then Some (TUNTBDROP OR TUNTBICMP) else None) of
         None \<Rightarrow> bad d
       | Some fl \<Rightarrow> on_core (set_tunnel_flag peer fl (TUNTBDROP OR TUNTBICMP)) d)"

section \<open>The commands on global variables\<close>

text \<open>inet_pton writes local6 or icmpsrc only when it succeeds; an address is set once.\<close>

definition cmd_address :: "sysenv \<Rightarrow> string \<Rightarrow> string \<Rightarrow> daemon \<Rightarrow> result" where
  "cmd_address env tok rest d =
     (case next_tok rest of
        None \<Rightarrow> bad d
      | Some (ntok, rest) \<Rightarrow>
          if extra rest then bad d
          else if strcaseeq tok ''endpoint'' then
            if d_local6_set d then bad d
            else with_addr (e_pton6 env) ntok d (\<lambda>a. ok ((set_core ((core_of d)\<lparr>local6 := a\<rparr>) d)\<lparr>d_local6_set := True\<rparr>))
          else if strcaseeq tok ''icmp'' then
            if d_icmpsrc_set d then bad d
            else with_addr (e_pton4 env) ntok d (\<lambda>a. ok ((set_core ((core_of d)\<lparr>icmpsrc := a\<rparr>) d)\<lparr>d_icmpsrc_set := True\<rparr>))
          else bad d)"

definition cmd_bucket :: "string \<Rightarrow> string \<Rightarrow> daemon \<Rightarrow> result" where
  "cmd_bucket tok rest d =
     (case next_tok rest of
        None \<Rightarrow> bad d
      | Some (ntok, rest) \<Rightarrow>
          (case skip_word ''size'' ntok rest of
             None \<Rightarrow> bad d
           | Some (stok, rest) \<Rightarrow>
               if extra rest then bad d
               else
                 let sz = atoi stok
                 in if sz \<le> 0 \<or> sz > 255 then bad d
                    else ok (set_cfg (\<lambda>c. c\<lparr>bucksize := (bucksize c)(class_of tok := word_of_int sz)\<rparr>) d)))"

text \<open>The value is stored before it is checked; no comparison holds of a NaN.\<close>

definition decay_bad :: "double \<Rightarrow> bool" where
  "decay_bad x = (case x of Finite q \<Rightarrow> q < 0 \<or> q > 1 | Infinite _ \<Rightarrow> True | NotANumber \<Rightarrow> False)"

definition cmd_decay :: "sysenv \<Rightarrow> string \<Rightarrow> string \<Rightarrow> daemon \<Rightarrow> result" where
  "cmd_decay env tok rest d =
     (case (if strcaseeq tok ''1'' then Some 0 else if strcaseeq tok ''5'' then Some 1
            else if strcaseeq tok ''15'' then Some (2 :: nat) else None) of
        None \<Rightarrow> bad d
      | Some i \<Rightarrow>
          (case next_tok rest of
             None \<Rightarrow> bad d
           | Some (tok, rest) \<Rightarrow>
               if extra rest then bad d
               else
                 let (x, left_over) = e_strtod env tok; d = d\<lparr>d_decays := (d_decays d)[i := x]\<rparr>
                 in if left_over \<noteq> [] then bad d else if decay_bad x then bad d else ok d))"

definition cmd_quantum :: "string \<Rightarrow> string \<Rightarrow> daemon \<Rightarrow> result" where
  "cmd_quantum tok rest d =
     (if extra rest then bad d
      else
        let q = atoi tok
        in if q \<le> 1 \<or> q > 255 then bad d else ok (d\<lparr>d_quantum := nat q\<rparr>))"

text \<open>A command without arguments that changes nothing: \<open>r\<close> is what it returns.\<close>

definition no_args :: "int \<Rightarrow> string option \<Rightarrow> daemon \<Rightarrow> result" where
  "no_args r tok d = (if tok \<noteq> None then bad d else Some (r, d))"

definition cmd_noop :: "string option \<Rightarrow> daemon \<Rightarrow> result" where
  "cmd_noop tok d = no_args 0 tok d"

definition cmd_kill :: "string option \<Rightarrow> daemon \<Rightarrow> result" where
  "cmd_kill tok d = no_args 1 tok d"

definition cmd_reboot :: "string option \<Rightarrow> daemon \<Rightarrow> result" where
  "cmd_reboot tok d = no_args 2 tok d"

definition cmd_quit :: "string option \<Rightarrow> daemon \<Rightarrow> result" where
  "cmd_quit tok d = no_args (-1) tok d"

definition cmd_abort :: "string option \<Rightarrow> daemon \<Rightarrow> result" where
  "cmd_abort tok d = (if tok \<noteq> None then bad d else None)"

definition cmd_echo :: "string \<Rightarrow> string \<Rightarrow> daemon \<Rightarrow> result" where
  "cmd_echo tok rest d = ok d"

text \<open>The parent of the fork closes the session; what close returns is ignored.\<close>

definition cmd_fork :: "sysenv \<Rightarrow> nat \<Rightarrow> string option \<Rightarrow> daemon \<Rightarrow> result" where
  "cmd_fork env ss tok d =
     (if tok \<noteq> None then bad d
      else if d_locked d ss AND 2 \<noteq> 0 then bad d
      else if d_loading d then bad d
      else map_option (\<lambda>(r, d). (0, d)) (ccclose ss d))"

definition cmd_help :: "string option \<Rightarrow> string \<Rightarrow> daemon \<Rightarrow> result" where
  "cmd_help tok rest d = (if tok \<noteq> None \<and> extra rest then bad d else ok d)"


section \<open>Session, debug and list commands\<close>

text \<open>The first open session of that name, or of that generation when the number is not 0.\<close>

definition find_session :: "string \<Rightarrow> daemon \<Rightarrow> nat option" where
  "find_session tok d =
     (let gen = (word_of_int (atoi tok) :: u32)
      in find (\<lambda>ss. d_name d ss = Some tok \<or> gen \<noteq> 0 \<and> ss_generation (d_ctl d) ss = gen) (sslist (d_ctl d)))"

definition cmd_session_close :: "sysenv \<Rightarrow> nat \<Rightarrow> string option \<Rightarrow> string \<Rightarrow> daemon \<Rightarrow> result" where
  "cmd_session_close env ss tok rest d =
     (case tok of
        None \<Rightarrow> if d_locked d ss \<noteq> 0 then bad d else ccclose ss d
      | Some tok \<Rightarrow>
          if extra rest then bad d
          else case find_session tok d of
            None \<Rightarrow> bad d
          | Some ss \<Rightarrow> if d_locked d ss \<noteq> 0 then bad d else ccclose ss d)"

definition cmd_session_config :: "nat \<Rightarrow> string \<Rightarrow> string \<Rightarrow> daemon \<Rightarrow> result" where
  "cmd_session_config ss tok rest d =
     (if extra rest then bad d
      else case switch tok of
        None \<Rightarrow> bad d
      | Some b \<Rightarrow> ok (d\<lparr>d_section := (d_section d)(ss := if b then 12 else 8)\<rparr>))"

definition cmd_session_log :: "sysenv \<Rightarrow> nat \<Rightarrow> string \<Rightarrow> string \<Rightarrow> daemon \<Rightarrow> result" where
  "cmd_session_log env ss tok rest d =
     (if extra rest then bad d
      else if d_locked d ss AND 2 \<noteq> 0 then bad d
      else case switch tok of
        None \<Rightarrow> bad d
      | Some True \<Rightarrow> if \<not> d_log d ss \<and> \<not> e_dup env d then bad d else ok (d\<lparr>d_log := (d_log d)(ss := True)\<rparr>)
      | Some False \<Rightarrow> ok (d\<lparr>d_log := (d_log d)(ss := False)\<rparr>))"

definition cmd_session_name :: "sysenv \<Rightarrow> nat \<Rightarrow> string option \<Rightarrow> string \<Rightarrow> daemon \<Rightarrow> result" where
  "cmd_session_name env ss tok rest d =
     (case tok of
        None \<Rightarrow> ok d
      | Some tok \<Rightarrow>
          if extra rest then bad d
          else if d_locked d ss AND 2 \<noteq> 0 then bad d
          else if e_dup env d then ok (d\<lparr>d_name := (d_name d)(ss := Some tok)\<rparr>)
          else bad (d\<lparr>d_name := (d_name d)(ss := None)\<rparr>))"

text \<open>
  The table lets \<open>session notify\<close> come without an argument, and the command then compares a
  null pointer: \<open>None\<close>.
\<close>

definition cmd_session_notify :: "sysenv \<Rightarrow> nat \<Rightarrow> string option \<Rightarrow> string \<Rightarrow> daemon \<Rightarrow> result" where
  "cmd_session_notify env ss tok rest d =
     (if extra rest then bad d
      else if d_locked d ss AND 2 \<noteq> 0 then bad d
      else case tok of
        None \<Rightarrow> None
      | Some tok \<Rightarrow>
          (case switch tok of
             None \<Rightarrow> bad d
           | Some True \<Rightarrow> if \<not> d_notify d ss \<and> \<not> e_dup env d then bad d else ok (d\<lparr>d_notify := (d_notify d)(ss := True)\<rparr>)
           | Some False \<Rightarrow> ok (d\<lparr>d_notify := (d_notify d)(ss := False)\<rparr>)))"

definition cmd_debug_check :: "string option \<Rightarrow> string \<Rightarrow> daemon \<Rightarrow> result" where
  "cmd_debug_check tok rest d =
     (case tok of
        None \<Rightarrow> ok d
      | Some tok \<Rightarrow>
          if extra rest then bad d
          else if list_ex (strcaseeq tok) [''nat'', ''nonat'', ''pool'', ''session'', ''tunnel''] then ok d else bad d)"

text \<open>The tunnel is no longer debugged also when the argument is refused.\<close>

definition cmd_debug_disable :: "string option \<Rightarrow> string \<Rightarrow> daemon \<Rightarrow> result" where
  "cmd_debug_disable tok rest d =
     (let d = (if d_debugged d \<noteq> 0
               then (set_core (upd_tunnel (d_debugged d) (\<lambda>t. t\<lparr>t_flags := t_flags t AND NOT TUNDEBUG\<rparr>) (core_of d)) d)\<lparr>d_debugged := 0\<rparr>
               else d)
      in case tok of
           None \<Rightarrow> ok d
         | Some tok \<Rightarrow> if extra rest then bad d else if strncaseeq tok ''clear'' 5 then ok d else bad d)"

definition cmd_debug_enable :: "sysenv \<Rightarrow> string \<Rightarrow> string \<Rightarrow> daemon \<Rightarrow> result" where
  "cmd_debug_enable env tok rest d =
     (if extra rest then bad d
      else with_addr (e_pton6 env) tok d (\<lambda>peer.
        let d = d\<lparr>d_debugged := 0\<rparr>; (t, s) = tunnel_lookup peer (core_of d)
        in if t = 0 then bad (set_core s d)
           else ok ((set_core (upd_tunnel t (\<lambda>T. T\<lparr>t_flags := t_flags T OR TUNDEBUG\<rparr>) s) d)\<lparr>d_debugged := t\<rparr>)))"

text \<open>strtol of base 16: the value, held in the range of a long, and what is not read.\<close>

definition is_hex :: "char \<Rightarrow> bool" where
  "is_hex c \<longleftrightarrow> is_digit c \<or> c \<in> set ''abcdefABCDEF''"

definition hex_digit :: "char \<Rightarrow> int" where
  "hex_digit c = (if is_digit c then int (of_char c) - 48 else int (of_char (lower c)) - 87)"

definition strtol16 :: "string \<Rightarrow> int \<times> string" where
  "strtol16 s =
     (let t = dropWhile is_blank s;
          neg = (t \<noteq> [] \<and> hd t = CHR ''-'');
          t = (if t \<noteq> [] \<and> (hd t = CHR ''-'' \<or> hd t = CHR ''+'') then drop 1 t else t);
          t = (if strncaseeq t ''0x'' 2 \<and> length t > 2 \<and> is_hex (t ! 2) then drop 2 t else t);
          v = foldl (\<lambda>v c. 16 * v + hex_digit c) 0 (takeWhile is_hex t)
      in if takeWhile is_hex t = [] then (0, s)
         else (if neg then max (- (2 ^ 63)) (- v) else min (2 ^ 63 - 1) v, dropWhile is_hex t))"

text \<open>
  \<open>debug fragment\<close> and \<open>debug nat\<close> print the structure at an address that the user gives;
  \<open>None\<close> when the address is not one the process can read.
\<close>

definition print_at :: "(int \<Rightarrow> bool) \<Rightarrow> string \<Rightarrow> daemon \<Rightarrow> result" where
  "print_at readable tok d =
     (let (addr, left_over) = strtol16 tok in if left_over \<noteq> [] then bad d else if readable addr then ok d else None)"

definition cmd_debug_fragment :: "(int \<Rightarrow> bool) \<Rightarrow> string \<Rightarrow> string \<Rightarrow> daemon \<Rightarrow> result" where
  "cmd_debug_fragment readable tok rest d =
     (if extra rest then bad d
      else if strncaseeq tok ''IPv6'' 4 \<or> strncaseeq tok ''in'' 2 \<or> strncaseeq tok ''out'' 3 then ok d
      else print_at readable tok d)"

definition cmd_debug_nat :: "(int \<Rightarrow> bool) \<Rightarrow> string option \<Rightarrow> string \<Rightarrow> daemon \<Rightarrow> result" where
  "cmd_debug_nat readable tok rest d =
     (case tok of None \<Rightarrow> ok d | Some tok \<Rightarrow> if extra rest then bad d else print_at readable tok d)"

definition cmd_debug_set :: "string option \<Rightarrow> string \<Rightarrow> daemon \<Rightarrow> result" where
  "cmd_debug_set tok rest d =
     (case tok of
        None \<Rightarrow> ok (d\<lparr>d_debuglevel := 1\<rparr>)
      | Some tok \<Rightarrow> if extra rest then bad d else ok (d\<lparr>d_debuglevel := atoi tok\<rparr>))"

definition cmd_debug_tunnel :: "sysenv \<Rightarrow> string option \<Rightarrow> string \<Rightarrow> daemon \<Rightarrow> result" where
  "cmd_debug_tunnel env tok rest d =
     (case tok of
        None \<Rightarrow> ok d
      | Some tok \<Rightarrow> if extra rest then bad d else with_addr (e_pton6 env) tok d (\<lambda>peer. ok d))"

definition cmd_list_nat :: "string option \<Rightarrow> string \<Rightarrow> daemon \<Rightarrow> result" where
  "cmd_list_nat tok rest d =
     (case tok of
        None \<Rightarrow> ok d
      | Some tok \<Rightarrow>
          if extra rest then bad d
          else if list_ex (\<lambda>(w, n). strncaseeq tok w n) [(''conf'', 3), (''all'', 3), (''dyn'', 3), (''prr'', 3), (''a+p'', 3), (''static'', 6), (''global'', 6)]
          then ok d else bad d)"

definition cmd_list_session :: "string option \<Rightarrow> string \<Rightarrow> daemon \<Rightarrow> result" where
  "cmd_list_session tok rest d =
     (case tok of
        None \<Rightarrow> ok d
      | Some tok \<Rightarrow> if extra rest then bad d else if find_session tok d = None then bad d else ok d)"

section \<open>The command tables\<close>

text \<open>
  The functions of the tables. \<open>Sub\<close> is a command with a table of its own; \<open>Leaf_print\<close> stands
  for the commands that take no argument and only print.
\<close>

datatype leaf =
    Leaf_print | Leaf_noop | Leaf_kill | Leaf_reboot | Leaf_quit | Leaf_abort | Leaf_echo | Leaf_fork | Leaf_help
  | Leaf_acl6 | Leaf_address | Leaf_autotunnel | Leaf_bucket | Leaf_decay | Leaf_defmss | Leaf_defmtu
  | Leaf_deftoobig | Leaf_eqfrag | Leaf_mss | Leaf_mtu | Leaf_nat | Leaf_nonat | Leaf_pool | Leaf_prr
  | Leaf_quantum | Leaf_toobig | Leaf_try | Leaf_tunnel
  | Leaf_default_fragment | Leaf_default_hold | Leaf_default_nat | Leaf_default_pool | Leaf_default_private
  | Leaf_default_tunnel
  | Leaf_delete_acl6 | Leaf_delete_nat | Leaf_delete_nonat | Leaf_delete_private | Leaf_delete_prr | Leaf_delete_tunnel
  | Leaf_debug_check | Leaf_debug_disable | Leaf_debug_enable | Leaf_debug_fragment | Leaf_debug_nat | Leaf_debug_set
  | Leaf_debug_tunnel
  | Leaf_list_nat | Leaf_list_session
  | Leaf_session_close | Leaf_session_config | Leaf_session_log | Leaf_session_name | Leaf_session_notify

datatype table = Tab_debug | Tab_default | Tab_delete | Tab_list | Tab_session | Tab_show

datatype func = Leaf leaf | Sub table | Load | Reload

record cmd =
  c_name :: string
  c_len :: nat
  c_required :: bool
  c_section :: nat
  c_func :: func

definition entry :: "string \<Rightarrow> nat \<Rightarrow> nat \<Rightarrow> nat \<Rightarrow> func \<Rightarrow> cmd" where
  "entry n l r sec f = \<lparr>c_name = n, c_len = l, c_required = (r \<noteq> 0), c_section = sec, c_func = f\<rparr>"

definition cmd_table :: "cmd list" where
  "cmd_table =
     [entry ''abort'' 5 0 8 (Leaf Leaf_abort),
      entry ''acl6'' 4 1 6 (Leaf Leaf_acl6),
      entry ''address'' 7 1 2 (Leaf Leaf_address),
      entry ''autotunnel'' 10 1 1 (Leaf Leaf_autotunnel),
      entry ''bucket'' 6 1 1 (Leaf Leaf_bucket),
      entry ''debug'' 5 1 12 (Sub Tab_debug),
      entry ''decay'' 5 1 1 (Leaf Leaf_decay),
      entry ''default'' 7 1 1 (Sub Tab_default),
      entry ''defmss'' 6 1 1 (Leaf Leaf_defmss),
      entry ''defmtu'' 6 1 1 (Leaf Leaf_defmtu),
      entry ''deftoobig'' 9 1 1 (Leaf Leaf_deftoobig),
      entry ''delete'' 6 1 15 (Sub Tab_delete),
      entry ''echo'' 4 1 8 (Leaf Leaf_echo),
      entry ''eqfrag'' 6 1 1 (Leaf Leaf_eqfrag),
      entry ''fork'' 4 0 8 (Leaf Leaf_fork),
      entry ''help'' 4 0 8 (Leaf Leaf_help),
      entry ''kill'' 4 0 8 (Leaf Leaf_kill),
      entry ''list'' 4 1 9 (Sub Tab_list),
      entry ''load'' 4 1 8 Load,
      entry ''mss'' 3 1 12 (Leaf Leaf_mss),
      entry ''mtu'' 3 1 12 (Leaf Leaf_mtu),
      entry ''nat'' 3 1 4 (Leaf Leaf_nat),
      entry ''nonat'' 5 1 4 (Leaf Leaf_nonat),
      entry ''noop'' 4 0 8 (Leaf Leaf_noop),
      entry ''pool'' 4 1 2 (Leaf Leaf_pool),
      entry ''prr'' 3 1 4 (Leaf Leaf_prr),
      entry ''quantum'' 7 1 1 (Leaf Leaf_quantum),
      entry ''quit'' 4 0 8 (Leaf Leaf_quit),
      entry ''reboot'' 6 0 8 (Leaf Leaf_reboot),
      entry ''reload'' 6 0 8 Reload,
      entry ''session'' 7 1 8 (Sub Tab_session),
      entry ''show'' 4 1 8 (Sub Tab_show),
      entry ''toobig'' 6 1 12 (Leaf Leaf_toobig),
      entry ''try'' 3 1 4 (Leaf Leaf_try),
      entry ''tunnel'' 6 1 4 (Leaf Leaf_tunnel)]"

definition debugcmd :: "cmd list" where
  "debugcmd =
     [entry ''check'' 5 0 8 (Leaf Leaf_debug_check),
      entry ''disable'' 7 0 8 (Leaf Leaf_debug_disable),
      entry ''dropped'' 7 0 8 (Leaf Leaf_print),
      entry ''enable'' 6 1 12 (Leaf Leaf_debug_enable),
      entry ''fragment'' 8 1 8 (Leaf Leaf_debug_fragment),
      entry ''hash'' 4 0 8 (Leaf Leaf_print),
      entry ''help'' 4 0 8 (Leaf Leaf_print),
      entry ''nat'' 3 0 8 (Leaf Leaf_debug_nat),
      entry ''nonat'' 5 0 8 (Leaf Leaf_print),
      entry ''pool'' 4 0 8 (Leaf Leaf_print),
      entry ''session'' 7 0 8 (Leaf Leaf_print),
      entry ''set'' 3 0 12 (Leaf Leaf_debug_set),
      entry ''stat'' 4 0 8 (Leaf Leaf_print),
      entry ''tunnel'' 6 0 8 (Leaf Leaf_debug_tunnel)]"

definition defaultcmd :: "cmd list" where
  "defaultcmd =
     [entry ''fragment'' 8 1 1 (Leaf Leaf_default_fragment),
      entry ''help'' 4 0 8 (Leaf Leaf_print),
      entry ''hold'' 4 1 1 (Leaf Leaf_default_hold),
      entry ''nat'' 3 1 1 (Leaf Leaf_default_nat),
      entry ''pool'' 4 1 1 (Leaf Leaf_default_pool),
      entry ''private'' 7 1 1 (Leaf Leaf_default_private),
      entry ''tunnel'' 6 1 1 (Leaf Leaf_default_tunnel)]"

definition deletecmd :: "cmd list" where
  "deletecmd =
     [entry ''acl6'' 4 1 6 (Leaf Leaf_delete_acl6),
      entry ''help'' 4 0 8 (Leaf Leaf_print),
      entry ''nat'' 3 1 4 (Leaf Leaf_delete_nat),
      entry ''nonat'' 5 1 4 (Leaf Leaf_delete_nonat),
      entry ''private'' 7 1 1 (Leaf Leaf_delete_private),
      entry ''prr'' 3 1 4 (Leaf Leaf_delete_prr),
      entry ''tunnel'' 6 1 4 (Leaf Leaf_delete_tunnel)]"

definition listcmd :: "cmd list" where
  "listcmd =
     [entry ''acl6'' 4 0 8 (Leaf Leaf_print),
      entry ''default'' 7 0 9 (Leaf Leaf_print),
      entry ''help'' 4 0 8 (Leaf Leaf_print),
      entry ''nat'' 3 0 8 (Leaf Leaf_list_nat),
      entry ''nonat'' 5 0 8 (Leaf Leaf_print),
      entry ''pool'' 4 0 8 (Leaf Leaf_print),
      entry ''session'' 7 0 8 (Leaf Leaf_list_session),
      entry ''tunnel'' 6 0 8 (Leaf Leaf_print)]"

definition sessioncmd :: "cmd list" where
  "sessioncmd =
     [entry ''close'' 5 0 8 (Leaf Leaf_session_close),
      entry ''config'' 6 1 8 (Leaf Leaf_session_config),
      entry ''help'' 4 0 8 (Leaf Leaf_print),
      entry ''list'' 4 0 8 (Leaf Leaf_list_session),
      entry ''log'' 3 1 8 (Leaf Leaf_session_log),
      entry ''name'' 4 0 8 (Leaf Leaf_session_name),
      entry ''notify'' 6 0 8 (Leaf Leaf_session_notify),
      entry ''quit'' 4 0 8 (Leaf Leaf_session_close)]"

definition showcmd :: "cmd list" where
  "showcmd =
     [entry ''dropped'' 7 0 8 (Leaf Leaf_print),
      entry ''help'' 4 0 8 (Leaf Leaf_print),
      entry ''stat'' 4 0 8 (Leaf Leaf_print)]"

definition table_of :: "table \<Rightarrow> cmd list" where
  "table_of t = (case t of Tab_debug \<Rightarrow> debugcmd | Tab_default \<Rightarrow> defaultcmd | Tab_delete \<Rightarrow> deletecmd
     | Tab_list \<Rightarrow> listcmd | Tab_session \<Rightarrow> sessioncmd | Tab_show \<Rightarrow> showcmd)"

text \<open>The call \<open>cmd->func(ss, tok, usage)\<close>; \<open>readable\<close> is that of print_at.\<close>

primrec run_leaf :: "leaf \<Rightarrow> sysenv \<Rightarrow> (int \<Rightarrow> bool) \<Rightarrow> nat \<Rightarrow> string option \<Rightarrow> string \<Rightarrow> daemon \<Rightarrow> result" where
  "run_leaf Leaf_print env rd ss tok rest d = no_args 0 tok d"
| "run_leaf Leaf_noop env rd ss tok rest d = cmd_noop tok d"
| "run_leaf Leaf_kill env rd ss tok rest d = cmd_kill tok d"
| "run_leaf Leaf_reboot env rd ss tok rest d = cmd_reboot tok d"
| "run_leaf Leaf_quit env rd ss tok rest d = cmd_quit tok d"
| "run_leaf Leaf_abort env rd ss tok rest d = cmd_abort tok d"
| "run_leaf Leaf_echo env rd ss tok rest d = cmd_echo (the tok) rest d"
| "run_leaf Leaf_fork env rd ss tok rest d = cmd_fork env ss tok d"
| "run_leaf Leaf_help env rd ss tok rest d = cmd_help tok rest d"
| "run_leaf Leaf_acl6 env rd ss tok rest d = on_core (cmd_acl6 (e_pton6 env) (e_mem env d 0) (the tok) rest) d"
| "run_leaf Leaf_address env rd ss tok rest d = cmd_address env (the tok) rest d"
| "run_leaf Leaf_autotunnel env rd ss tok rest d = cmd_autotunnel (the tok) rest d"
| "run_leaf Leaf_bucket env rd ss tok rest d = cmd_bucket (the tok) rest d"
| "run_leaf Leaf_decay env rd ss tok rest d = cmd_decay env (the tok) rest d"
| "run_leaf Leaf_defmss env rd ss tok rest d = cmd_defmss (the tok) rest d"
| "run_leaf Leaf_defmtu env rd ss tok rest d = cmd_defmtu (the tok) rest d"
| "run_leaf Leaf_deftoobig env rd ss tok rest d = cmd_deftoobig (the tok) rest d"
| "run_leaf Leaf_eqfrag env rd ss tok rest d = cmd_eqfrag (the tok) rest d"
| "run_leaf Leaf_mss env rd ss tok rest d = cmd_mss env (the tok) rest d"
| "run_leaf Leaf_mtu env rd ss tok rest d = cmd_mtu env (the tok) rest d"
| "run_leaf Leaf_nat env rd ss tok rest d = cmd_nat env ss (the tok) rest d"
| "run_leaf Leaf_nonat env rd ss tok rest d = cmd_nonat env (the tok) rest d"
| "run_leaf Leaf_pool env rd ss tok rest d = cmd_pool env (the tok) rest d"
| "run_leaf Leaf_prr env rd ss tok rest d = cmd_prr env ss (the tok) rest d"
| "run_leaf Leaf_quantum env rd ss tok rest d = cmd_quantum (the tok) rest d"
| "run_leaf Leaf_toobig env rd ss tok rest d = cmd_toobig env (the tok) rest d"
| "run_leaf Leaf_try env rd ss tok rest d = cmd_try env ss (the tok) rest d"
| "run_leaf Leaf_tunnel env rd ss tok rest d = cmd_tunnel env (the tok) rest d"
| "run_leaf Leaf_default_fragment env rd ss tok rest d = cmd_default_fragment (the tok) rest d"
| "run_leaf Leaf_default_hold env rd ss tok rest d = cmd_default_hold (the tok) rest d"
| "run_leaf Leaf_default_nat env rd ss tok rest d = cmd_default_nat (the tok) rest d"
| "run_leaf Leaf_default_pool env rd ss tok rest d = cmd_default_pool (the tok) rest d"
| "run_leaf Leaf_default_private env rd ss tok rest d = on_core (cmd_default_private (e_pton4 env) (e_mem env d 0) (the tok) rest) d"
| "run_leaf Leaf_default_tunnel env rd ss tok rest d = cmd_default_tunnel (the tok) rest d"
| "run_leaf Leaf_delete_acl6 env rd ss tok rest d = on_core (cmd_delete_acl6 (e_pton6 env) (the tok) rest) d"
| "run_leaf Leaf_delete_nat env rd ss tok rest d = cmd_delete_nat env (the tok) rest d"
| "run_leaf Leaf_delete_nonat env rd ss tok rest d = cmd_delete_nonat env (the tok) rest d"
| "run_leaf Leaf_delete_private env rd ss tok rest d = on_core (cmd_delete_private (e_pton4 env) (the tok) rest) d"
| "run_leaf Leaf_delete_prr env rd ss tok rest d = cmd_delete_prr env (the tok) rest d"
| "run_leaf Leaf_delete_tunnel env rd ss tok rest d = cmd_delete_tunnel env (the tok) rest d"
| "run_leaf Leaf_debug_check env rd ss tok rest d = cmd_debug_check tok rest d"
| "run_leaf Leaf_debug_disable env rd ss tok rest d = cmd_debug_disable tok rest d"
| "run_leaf Leaf_debug_enable env rd ss tok rest d = cmd_debug_enable env (the tok) rest d"
| "run_leaf Leaf_debug_fragment env rd ss tok rest d = cmd_debug_fragment rd (the tok) rest d"
| "run_leaf Leaf_debug_nat env rd ss tok rest d = cmd_debug_nat rd tok rest d"
| "run_leaf Leaf_debug_set env rd ss tok rest d = cmd_debug_set tok rest d"
| "run_leaf Leaf_debug_tunnel env rd ss tok rest d = cmd_debug_tunnel env tok rest d"
| "run_leaf Leaf_list_nat env rd ss tok rest d = cmd_list_nat tok rest d"
| "run_leaf Leaf_list_session env rd ss tok rest d = cmd_list_session tok rest d"
| "run_leaf Leaf_session_close env rd ss tok rest d = cmd_session_close env ss tok rest d"
| "run_leaf Leaf_session_config env rd ss tok rest d = cmd_session_config ss (the tok) rest d"
| "run_leaf Leaf_session_log env rd ss tok rest d = cmd_session_log env ss (the tok) rest d"
| "run_leaf Leaf_session_name env rd ss tok rest d = cmd_session_name env ss tok rest d"
| "run_leaf Leaf_session_notify env rd ss tok rest d = cmd_session_notify env ss tok rest d"


section \<open>The dispatcher\<close>

text \<open>
  The two loops of cmd_dispatch: to the entries with the first letter of the token, then to the
  first of them whose name the token begins with. A word that begins with a command is taken
  for it.
\<close>

definition find_cmd :: "string \<Rightarrow> cmd list \<Rightarrow> cmd option" where
  "find_cmd tok cs =
     (let c = lower (hd tok);
          cs = dropWhile (\<lambda>e. (of_char (hd (c_name e)) :: nat) < of_char c) cs
      in find (\<lambda>e. strncaseeq tok (c_name e) (c_len e)) (takeWhile (\<lambda>e. hd (c_name e) = c) cs))"

text \<open>
  Which section a command may come in: in a configuration file the sections are 1 (globals),
  2 (pools), 4 (tunnels and bindings), in that order. A command of an earlier section is
  refused, or skipped in a reload; one of a later section closes the current one.
\<close>

datatype gate = Pass daemon | Skip | Wrong

definition section_gate :: "nat \<Rightarrow> nat \<Rightarrow> daemon \<Rightarrow> gate" where
  "section_gate ss sec d =
     (if sec AND d_section d ss \<noteq> 0 then Pass d
      else if sec < d_section d ss then if d_reloading d then Skip else Wrong
      else if sec AND 2 \<noteq> 0 then Pass ((conf_global_close d)\<lparr>d_section := (d_section d)(ss := 2)\<rparr>)
      else if sec AND 4 \<noteq> 0 then Pass (d\<lparr>d_section := (d_section d)(ss := 4)\<rparr>)
      else Wrong)"

type_synonym runner = "func \<Rightarrow> nat \<Rightarrow> string option \<Rightarrow> string \<Rightarrow> daemon \<Rightarrow> result"

definition cmd_dispatch :: "runner \<Rightarrow> cmd list \<Rightarrow> nat \<Rightarrow> string \<Rightarrow> string \<Rightarrow> daemon \<Rightarrow> result" where
  "cmd_dispatch run cs ss tok rest d =
     (case find_cmd tok cs of
        None \<Rightarrow> bad d
      | Some c \<Rightarrow>
          let (ntok, rest) = (case next_tok rest of None \<Rightarrow> (None, []) | Some (t, r) \<Rightarrow> (Some t, r))
          in if ntok = None \<and> c_required c then bad d
             else case section_gate ss (c_section c) d of
               Pass d \<Rightarrow> run (c_func c) ss ntok rest d
             | Skip \<Rightarrow> ok d
             | Wrong \<Rightarrow> bad d)"

definition is_eol :: "char \<Rightarrow> bool" where
  "is_eol c \<longleftrightarrow> c = CHR 0x0A \<or> c = CHR 0x0D"

text \<open>
  The line without its line ends. When nothing is left the loop reads the byte before the
  buffer, and when that is a line end too it is overwritten: \<open>None\<close>.
\<close>

definition chomp :: "char \<Rightarrow> string \<Rightarrow> string option" where
  "chomp prev line =
     (let l = rev (dropWhile is_eol (rev line)) in if l = [] \<and> is_eol prev then None else Some l)"

definition cmdline :: "sysenv \<Rightarrow> runner \<Rightarrow> nat \<Rightarrow> string \<Rightarrow> daemon \<Rightarrow> result" where
  "cmdline env run ss line d =
     (if \<not> d_open d ss then bad d
      else case chomp (e_before env) line of
        None \<Rightarrow> None
      | Some l \<Rightarrow>
          (case next_tok l of
             None \<Rightarrow> ok d
           | Some (tok, rest) \<Rightarrow>
               if hd tok = CHR ''#'' then ok d
               else if hd tok = CHR ''?'' then cmd_help None rest d
               else cmd_dispatch run cmd_table ss tok rest d))"

section \<open>Files\<close>

text \<open>The loop of load_file: it stops at the first line that fails.\<close>

fun load_lines :: "(string \<Rightarrow> daemon \<Rightarrow> result) \<Rightarrow> string list \<Rightarrow> daemon \<Rightarrow> result" where
  "load_lines rl [] d = Some (0, d)"
| "load_lines rl (l # ls) d =
     (case rl l d of
        None \<Rightarrow> None
      | Some (r, d) \<Rightarrow> if r < 0 then Some (-1, d) else load_lines rl ls d)"

definition load_file :: "sysenv \<Rightarrow> (string \<Rightarrow> daemon \<Rightarrow> result) \<Rightarrow> string \<Rightarrow> daemon \<Rightarrow> result" where
  "load_file env rl name d =
     (case e_file env name of
        None \<Rightarrow> bad d
      | Some ls \<Rightarrow> map_option (\<lambda>(r, e). (r, e\<lparr>d_loading := d_loading d\<rparr>)) (load_lines rl ls (d\<lparr>d_loading := True\<rparr>)))"

definition cmd_load :: "sysenv \<Rightarrow> (string \<Rightarrow> daemon \<Rightarrow> result) \<Rightarrow> string \<Rightarrow> string \<Rightarrow> daemon \<Rightarrow> result" where
  "cmd_load env rl tok rest d = (if extra rest then bad d else load_file env rl tok d)"

text \<open>load_conf: with \<open>checkconf\<close> a line that fails is only reported.\<close>

fun conf_lines :: "(string \<Rightarrow> daemon \<Rightarrow> result) \<Rightarrow> string list \<Rightarrow> daemon \<Rightarrow> result" where
  "conf_lines rl [] d = Some (0, d)"
| "conf_lines rl (l # ls) d =
     (case rl l d of
        None \<Rightarrow> None
      | Some (r, d) \<Rightarrow> if r < 0 \<and> \<not> d_checkconf d then Some (-1, d) else conf_lines rl ls d)"

definition load_conf :: "sysenv \<Rightarrow> (string \<Rightarrow> daemon \<Rightarrow> result) \<Rightarrow> daemon \<Rightarrow> result" where
  "load_conf env rl d = (case e_conf env of None \<Rightarrow> bad d | Some ls \<Rightarrow> conf_lines rl ls d)"

section \<open>Reload\<close>

text \<open>\<open>None\<close> is a null reload_session or a tunnel that cannot be unlinked.\<close>

definition reload_finish :: "bool \<Rightarrow> daemon \<Rightarrow> daemon option" where
  "reload_finish backtrack d =
     (case reload_session (d_ctl d) of
        None \<Rightarrow> None
      | Some ss \<Rightarrow>
          let d = (set_core ((core_of d)\<lparr>curgen := 0\<rparr>) d)\<lparr>d_reloading := False, d_stream := None,
                    d_section := (d_section d)(ss := d_savedsec d), d_locked := (d_locked d)(ss := d_savedloc d)\<rparr>
          in if backtrack then
               let d = set_core ((core_of d)\<lparr>lastgen := d_savedgen d\<rparr>) d
               in Some (d\<lparr>d_ctl := bt_reload ((d_ctl d)\<lparr>reload_session := None\<rparr>)\<rparr>)
             else map_option (\<lambda>c. d\<lparr>d_ctl := c\<rparr>) (gc_reload ((d_ctl d)\<lparr>reload_session := None\<rparr>)))"

text \<open>
  At most \<open>n\<close> lines of the stream: 1 at its end, -1 when a line fails, 0 when the quantum is
  used up.
\<close>

fun reload_lines :: "(string \<Rightarrow> daemon \<Rightarrow> result) \<Rightarrow> nat \<Rightarrow> string list \<Rightarrow> daemon \<Rightarrow> (int \<times> string list \<times> daemon) option" where
  "reload_lines rl 0 ls d = Some (0, ls, d)"
| "reload_lines rl (Suc n) [] d = Some (1, [], d)"
| "reload_lines rl (Suc n) (l # ls) d =
     (case rl l d of
        None \<Rightarrow> None
      | Some (r, d) \<Rightarrow> if r < 0 then Some (-1, ls, d) else reload_lines rl n ls (d\<lparr>d_ln := d_ln d + 1\<rparr>))"

definition reload_conf :: "sysenv \<Rightarrow> (string \<Rightarrow> daemon \<Rightarrow> result) \<Rightarrow> nat \<Rightarrow> daemon \<Rightarrow> result" where
  "reload_conf env rl ss d =
     (let d = d\<lparr>d_ln := 1\<rparr>
      in case e_conf env of
           None \<Rightarrow> bad (d\<lparr>d_stream := None\<rparr>)
         | Some ls \<Rightarrow>
             let gen = lastgen (core_of d) + 1
             in if gen = 0 then None
                else
                  let d = (set_core ((core_of d)\<lparr>lastgen := gen, curgen := gen\<rparr>) d)\<lparr>d_savedgen := lastgen (core_of d),
                            d_savedsec := d_section d ss, d_savedloc := d_locked d ss, d_reloading := True\<rparr>;
                      d = d\<lparr>d_ctl := (d_ctl d)\<lparr>reload_session := Some ss\<rparr>,
                            d_section := (d_section d)(ss := 4), d_locked := (d_locked d)(ss := 1)\<rparr>
                  in case reload_lines rl (d_quantum d) ls d of
                       None \<Rightarrow> None
                     | Some (ret, ls, d) \<Rightarrow>
                         let d = d\<lparr>d_stream := Some ls\<rparr>
                         in if ret = 1 then map_option (\<lambda>d. (0, d)) (reload_finish False d)
                            else if ret = -1 then map_option (\<lambda>d. (-1, d)) (reload_finish True d)
                            else Some (0, d))"

definition cmd_reload :: "sysenv \<Rightarrow> (string \<Rightarrow> daemon \<Rightarrow> result) \<Rightarrow> nat \<Rightarrow> string option \<Rightarrow> daemon \<Rightarrow> result" where
  "cmd_reload env rl ss tok d =
     (if tok \<noteq> None then bad d
      else if d_reloading d then bad d
      else if needgc (d_ctl d) \<noteq> 0 then bad d
      else if needbt (d_ctl d) \<noteq> 0 then bad d
      else reload_conf env rl ss d)"

text \<open>The part of a reload that the main loop runs in each pass.\<close>

definition reload_incr :: "(nat \<Rightarrow> string \<Rightarrow> daemon \<Rightarrow> result) \<Rightarrow> daemon \<Rightarrow> daemon option" where
  "reload_incr rl d =
     (case (reload_session (d_ctl d), d_stream d) of
        (Some ss, Some ls) \<Rightarrow>
          let saved = curgen (core_of d); d = set_core ((core_of d)\<lparr>curgen := lastgen (core_of d)\<rparr>) d
          in (case reload_lines (rl ss) (d_quantum d div 2) ls d of
                None \<Rightarrow> None
              | Some (ret, ls, d) \<Rightarrow>
                  let d = (set_core ((core_of d)\<lparr>curgen := saved\<rparr>) d)\<lparr>d_stream := Some ls\<rparr>
                  in if ret = 1 then reload_finish False d else if ret = -1 then reload_finish True d else Some d)
      | _ \<Rightarrow> None)"

text \<open>
  The commands by their function pointers. The fuel bounds the nesting: a file may load files,
  also itself; \<open>None\<close> is a nesting that is too deep.
\<close>

primrec exec :: "nat \<Rightarrow> sysenv \<Rightarrow> (int \<Rightarrow> bool) \<Rightarrow> runner" where
  "exec 0 env rd f ss tok rest d = None"
| "exec (Suc k) env rd f ss tok rest d =
     (case f of
        Leaf l \<Rightarrow> run_leaf l env rd ss tok rest d
      | Sub t \<Rightarrow> cmd_dispatch (exec k env rd) (table_of t) ss (the tok) rest d
      | Load \<Rightarrow> cmd_load env (cmdline env (exec k env rd) ss) (the tok) rest d
      | Reload \<Rightarrow> cmd_reload env (cmdline env (exec k env rd) ss) ss tok d)"

section \<open>The start of the process\<close>

text \<open>
  The compiled-in values (DECAY1, DECAY5, DECAY15, QUANTUM) and the globals before main. The
  session 0 is stdio_sess, which is in no list yet.
\<close>

definition compiled_decays :: "double list" where
  "compiled_decays =
     [Finite (98347145382161748948 / 10 ^ 20), Finite (99667221605452332152 / 10 ^ 20), Finite (99888950594427931322 / 10 ^ 20)]"

definition globals0 :: daemon where
  "globals0 =
     \<lparr>d_ctl = \<lparr>core = aftr0, needgc = 0, needbt = 0, sslist = [], orphans = [], ss_generation = (\<lambda>_. 0), sesgen = 0, reload_session = None\<rparr>,
      d_cfg = default_config, d_quantum = 20, d_decays = compiled_decays, d_local6_set = False, d_icmpsrc_set = False, d_debuglevel = 0,
      d_debugged = 0, d_open = (\<lambda>_. False), d_stdio = (\<lambda>_. False), d_section = (\<lambda>_. 0), d_locked = (\<lambda>_. 0), d_name = (\<lambda>_. None),
      d_log = (\<lambda>_. False), d_notify = (\<lambda>_. False), d_loading = False, d_reloading = False, d_checkconf = False, d_stream = None,
      d_ln = 0, d_savedgen = 0, d_savedsec = 0, d_savedloc = 0\<rparr>"

text \<open>The first call of stdio_open, which initialises the session.\<close>

definition stdio_open :: "daemon \<Rightarrow> daemon" where
  "stdio_open d =
     d\<lparr>d_ctl := (d_ctl d)\<lparr>sslist := 0 # sslist (d_ctl d), ss_generation := (ss_generation (d_ctl d))(0 := 1), sesgen := 1\<rparr>,
       d_stdio := (d_stdio d)(0 := True), d_name := (d_name d)(0 := Some ''tty''), d_open := (d_open d)(0 := True),
       d_log := (d_log d)(0 := True), d_notify := (d_notify d)(0 := False), d_section := (d_section d)(0 := 0),
       d_locked := (d_locked d)(0 := 255)\<rparr>"

definition conf_global_check :: int where
  "conf_global_check = (if list_ex decay_bad compiled_decays then -1 else 0)"

definition conf_required_check :: "daemon \<Rightarrow> int" where
  "conf_required_check d =
     (if \<not> d_local6_set d then -1 else if \<not> d_icmpsrc_set d then -1 else if pools (core_of d) = [] then -1
      else if acl6s (core_of d) = [] then -1 else if acl4s (core_of d) = [] then -1 else 0)"

text \<open>
  main from stdio_open to the end of the configuration, without the option parsing and the
  random keys; \<open>mem\<close> are the allocations of init_acl4.
\<close>

definition main_conf :: "sysenv \<Rightarrow> (string \<Rightarrow> daemon \<Rightarrow> result) \<Rightarrow> (nat \<Rightarrow> bool) \<Rightarrow> daemon \<Rightarrow> result" where
  "main_conf env rl mem d =
     (let d = stdio_open d;
          gen = lastgen (core_of d) + 1;
          d = (set_core ((core_of d)\<lparr>lastgen := gen, curgen := gen\<rparr>) d)\<lparr>d_section := (d_section d)(0 := 1)\<rparr>
      in if conf_global_check \<noteq> 0 then Some (conf_global_check, d)
         else
           let (r, s) = init_acl4 mem (core_of d); d = set_core s d
           in if r \<noteq> 0 then Some (r, d)
              else case load_conf env rl d of
                None \<Rightarrow> None
              | Some (r, d) \<Rightarrow>
                  if r \<noteq> 0 then Some (r, d)
                  else
                    let r = conf_required_check d
                    in Some (r, set_core ((core_of d)\<lparr>curgen := 0\<rparr>) d))"

end
