(* ===== verification/Aftr_Command.thy ===== *)
theory Aftr_Command
  imports Aftr_Cmd
begin

text \<open>
  What the command interpreter guarantees: the settings but the decays stay in their ranges, a
  line of a reload changes no global setting, and a reload that ends gives back what it took.
\<close>

unbundle bit_operations_syntax

named_theorems result_intros

section \<open>Settings in their ranges\<close>

text \<open>
  The ranges that the handlers of the default, bucket, defmtu, deftoobig and quantum commands
  enforce. The decays are left out, since cmd_decay stores a value before it checks it. Where the
  documents allow a 0 that the handler refuses (the counts and rates of a tunnel) the range is
  that of the handler.
\<close>

definition cfg_ok :: "config \<Rightarrow> bool" where
  "cfg_ok c \<longleftrightarrow> 0 < frag_lifetime c \<and> frag_lifetime c \<le> 1200 \<and>
     length (frag_maxcnt c) = 3 \<and> (\<forall>v \<in> set (frag_maxcnt c). v \<le> 16535) \<and>
     length (fragtn_maxcnt c) = 2 \<and> (\<forall>v \<in> set (fragtn_maxcnt c). 0 < v) \<and>
     (\<forall>pr. 0 < bucksize c pr) \<and>
     length (nat_lifetime c) = 5 \<and> (\<forall>v \<in> set (nat_lifetime c). 0 < v \<and> v \<le> 36000) \<and>
     hold_lifetime c \<le> 600 \<and>
     (\<forall>pr. 0 < maxtnatcnt c pr \<and> 0 < maxtnatrt c pr \<and> maxtnatrt c pr \<le> 255) \<and>
     (\<forall>pr. poolmin c pr \<le> poolmax c pr \<and> (pr \<noteq> ICMPPR \<longrightarrow> 0 < poolmin c pr)) \<and>
     1280 \<le> tundefmtu c \<and> default_toobig c \<in> {0, TUNTBICMP, TUNTBDROP OR TUNTBICMP}"

definition settings_ok :: "daemon \<Rightarrow> bool" where
  "settings_ok d \<longleftrightarrow> cfg_ok (d_cfg d) \<and> 2 \<le> d_quantum d \<and> d_quantum d \<le> 255"

text \<open>A result that keeps the settings in range, and one that leaves them alone.\<close>

definition sound :: "daemon \<Rightarrow> result \<Rightarrow> bool" where
  "sound d res \<longleftrightarrow> (settings_ok d \<longrightarrow> (\<forall>r d'. res = Some (r, d') \<longrightarrow> settings_ok d'))"

definition global_conf :: "daemon \<Rightarrow> config \<times> nat \<times> double list \<times> (nat \<Rightarrow> nat) \<times> (nat \<Rightarrow> nat) \<times> bool \<times> nat \<times> nat \<times> u32 \<times> nat option" where
  "global_conf d = (d_cfg d, d_quantum d, d_decays d, d_section d, d_locked d, d_reloading d, d_savedsec d, d_savedloc d,
     d_savedgen d, reload_session (d_ctl d))"

definition same_conf :: "daemon \<Rightarrow> result \<Rightarrow> bool" where
  "same_conf d res \<longleftrightarrow> (\<forall>r d'. res = Some (r, d') \<longrightarrow> global_conf d' = global_conf d)"

lemma global_conf_upd [simp]:
  "global_conf (set_core s d) = global_conf d" "global_conf (d\<lparr>d_debugged := t\<rparr>) = global_conf d"
  "global_conf (d\<lparr>d_debuglevel := i\<rparr>) = global_conf d" "global_conf (d\<lparr>d_local6_set := b\<rparr>) = global_conf d"
  "global_conf (d\<lparr>d_icmpsrc_set := b\<rparr>) = global_conf d" "global_conf (d\<lparr>d_log := l\<rparr>) = global_conf d"
  "global_conf (d\<lparr>d_notify := l\<rparr>) = global_conf d" "global_conf (d\<lparr>d_name := n\<rparr>) = global_conf d"
  "global_conf (d\<lparr>d_open := f\<rparr>) = global_conf d"
  "global_conf (d\<lparr>d_stream := ls\<rparr>) = global_conf d" "global_conf (d\<lparr>d_loading := b\<rparr>) = global_conf d"
  by (simp_all add: global_conf_def set_core_def)

lemma same_conf_intros [result_intros]:
  "same_conf d (bad d)" "same_conf d (ok d)" "same_conf d None" "same_conf d (on_core f d)" "same_conf d (on_core_opt g d)"
  "same_conf d (no_args r tok d)" "global_conf d' = global_conf d \<Longrightarrow> same_conf d (bad d')"
  "global_conf d' = global_conf d \<Longrightarrow> same_conf d (ok d')" "global_conf d' = global_conf d \<Longrightarrow> same_conf d (Some (i, d'))"
  by (auto simp: same_conf_def bad_def ok_def on_core_def on_core_opt_def no_args_def split: prod.splits if_splits)

lemma same_conf_cases [result_intros]:
  "(b \<Longrightarrow> same_conf d x) \<Longrightarrow> (\<not> b \<Longrightarrow> same_conf d y) \<Longrightarrow> same_conf d (if b then x else y)"
  "same_conf d z \<Longrightarrow> (\<And>v. same_conf d (f v)) \<Longrightarrow> same_conf d (case opt of None \<Rightarrow> z | Some v \<Rightarrow> f v)"
  "(\<And>a c. same_conf d (g a c)) \<Longrightarrow> same_conf d (case p of (a, c) \<Rightarrow> g a c)"
  "same_conf d x \<Longrightarrow> same_conf d y \<Longrightarrow> same_conf d (case b of True \<Rightarrow> x | False \<Rightarrow> y)"
  by (auto split: option.split prod.split bool.split)

lemma same_conf_sync [result_intros]: "same_conf d res \<Longrightarrow> same_conf d (sync_debugged res)"
  by (cases res) (auto simp: same_conf_def sync_debugged_def)

lemma same_conf_addr [result_intros]: "(\<And>a. same_conf d (k a)) \<Longrightarrow> same_conf d (with_addr pton tok d k)"
  unfolding with_addr_def by (intro result_intros)

lemma same_conf_source [result_intros]:
  "(\<And>peer proto src ptok rest. same_conf d (k peer proto src ptok rest)) \<Longrightarrow> same_conf d (with_source env tok rest d k)"
  unfolding with_source_def by (intro result_intros)

lemma same_conf_binding [result_intros]:
  "(\<And>peer proto src sport nsrc nport. same_conf d (k peer proto src sport nsrc nport)) \<Longrightarrow> same_conf d (with_binding env tok rest d k)"
  unfolding with_binding_def by (intro result_intros)

lemma same_conf_setting [result_intros]:
  "(\<And>peer ntok. same_conf d (k peer ntok)) \<Longrightarrow> same_conf d (with_setting env tok rest d k)"
  unfolding with_setting_def by (intro result_intros)

text \<open>The commands of the sections 4 and 8 leave the settings alone.\<close>

lemma leaf_same_conf [result_intros]:
  "same_conf d (cmd_delete_nat env tok rest d)" "same_conf d (cmd_delete_prr env tok rest d)"
  "same_conf d (cmd_delete_nonat env tok rest d)" "same_conf d (cmd_delete_tunnel env tok rest d)"
  "same_conf d (cmd_nat env ss tok rest d)" "same_conf d (cmd_prr env ss tok rest d)" "same_conf d (cmd_nonat env tok rest d)"
  "same_conf d (cmd_try env ss tok rest d)" "same_conf d (cmd_tunnel env tok rest d)" "same_conf d (cmd_pool env tok rest d)"
  "same_conf d (cmd_mss env tok rest d)" "same_conf d (cmd_mtu env tok rest d)" "same_conf d (cmd_toobig env tok rest d)"
  unfolding cmd_delete_nat_def cmd_delete_prr_def cmd_delete_nonat_def cmd_delete_tunnel_def cmd_nat_def cmd_prr_def
    cmd_nonat_def cmd_try_def cmd_tunnel_def cmd_pool_def cmd_mss_def cmd_mtu_def cmd_toobig_def Let_def
  by (intro result_intros)+

lemma misc_same_conf [result_intros]:
  "same_conf d (cmd_address env tok rest d)" "same_conf d (cmd_debug_enable env tok rest d)" "same_conf d (cmd_debug_set tk rest d)"
  "same_conf d (cmd_debug_disable tk rest d)" "same_conf d (cmd_debug_check tk rest d)" "same_conf d (cmd_debug_fragment rd tok rest d)"
  "same_conf d (cmd_debug_nat rd tk rest d)" "same_conf d (cmd_debug_tunnel env tk rest d)" "same_conf d (cmd_list_nat tk rest d)"
  "same_conf d (cmd_list_session tk rest d)" "same_conf d (cmd_session_log env ss tok rest d)"
  "same_conf d (cmd_session_name env ss tk rest d)" "same_conf d (cmd_session_notify env ss tk rest d)"
  "same_conf d (cmd_echo tok rest d)" "same_conf d (cmd_help tk rest d)" "same_conf d (cmd_abort tk d)"
  unfolding cmd_address_def cmd_debug_enable_def cmd_debug_set_def cmd_debug_disable_def cmd_debug_check_def cmd_debug_fragment_def
    cmd_debug_nat_def print_at_def cmd_debug_tunnel_def cmd_list_nat_def cmd_list_session_def cmd_session_log_def cmd_session_name_def
    cmd_session_notify_def cmd_echo_def cmd_help_def cmd_abort_def Let_def
  by (intro result_intros; simp)+

lemma gc_session_frame: "gc_session ss c = Some c' \<Longrightarrow> reload_session c' = reload_session c"
  by (auto simp: gc_session_def Let_def split: option.splits if_splits)

lemma stdio_close_conf: "global_conf e = global_conf d \<Longrightarrow> same_conf d (stdio_close ss e)"
  unfolding stdio_close_def by (rule same_conf_sync) (auto simp: same_conf_def global_conf_def dest!: gc_session_frame)

lemma close_same_conf [result_intros]: "same_conf d (ccclose ss d)"
  by (simp add: ccclose_def unix_close_def stdio_close_conf)

lemma session_close_same_conf [result_intros]:
  "same_conf d (cmd_session_close env ss tk rest d)" "same_conf d (cmd_fork env ss tk d)"
proof -
  show "same_conf d (cmd_session_close env ss tk rest d)" unfolding cmd_session_close_def by (intro result_intros)
  have "same_conf d (map_option (\<lambda>(r, d). (0, d)) (ccclose ss d))"
    using close_same_conf [of d ss] by (auto simp: same_conf_def)
  then show "same_conf d (cmd_fork env ss tk d)" unfolding cmd_fork_def by (intro result_intros)
qed

section \<open>Every command keeps the settings in range\<close>

lemma sound_same: "same_conf d res \<Longrightarrow> sound d res"
  by (auto simp: same_conf_def sound_def settings_ok_def global_conf_def)

lemma sound_cases [result_intros]:
  "(b \<Longrightarrow> sound d x) \<Longrightarrow> (\<not> b \<Longrightarrow> sound d y) \<Longrightarrow> sound d (if b then x else y)"
  "sound d z \<Longrightarrow> (\<And>v. opt = Some v \<Longrightarrow> sound d (f v)) \<Longrightarrow> sound d (case opt of None \<Rightarrow> z | Some v \<Rightarrow> f v)"
  "(\<And>a c. sound d (g a c)) \<Longrightarrow> sound d (case p of (a, c) \<Rightarrow> g a c)"
  by (auto split: option.split prod.split)

lemma sound_base [result_intros]: "sound d (bad d)" "sound d (ok d)" "sound d None" "sound d (on_core h d)"
  by (auto intro!: sound_same result_intros)

lemma sound_set [result_intros]: "(cfg_ok (d_cfg d) \<Longrightarrow> cfg_ok (f (d_cfg d))) \<Longrightarrow> sound d (ok (set_cfg f d))"
  by (simp add: sound_def settings_ok_def ok_def set_cfg_def)

lemma set_update: "v \<in> set (xs[i := y]) \<Longrightarrow> v \<in> set xs \<or> v = y"
  using set_update_subset_insert [of xs i y] by blast

lemma byte_pos: "0 < v \<Longrightarrow> v \<le> 255 \<Longrightarrow> (0 :: u8) < word_of_int v"
  by (simp add: word_less_def uint_word_of_int)

lemma short_pos: "0 < v \<Longrightarrow> v \<le> 65535 \<Longrightarrow> (0 :: u16) < word_of_int v"
  by (simp add: word_less_def uint_word_of_int)

lemma short_le: "0 \<le> v \<Longrightarrow> v \<le> w \<Longrightarrow> w \<le> 65535 \<Longrightarrow> (word_of_int v :: u16) \<le> word_of_int w"
  by (simp add: word_le_def uint_word_of_int)

lemma short_255: "0 < v \<Longrightarrow> v \<le> 255 \<Longrightarrow> (word_of_int v :: u16) \<le> 255"
  by (simp add: word_le_def uint_word_of_int)

lemma switches_sound [result_intros]:
  "sound d (cmd_eqfrag tok rest d)" "sound d (cmd_autotunnel tok rest d)" "sound d (cmd_defmss tok rest d)"
  "sound d (cmd_defmtu tok rest d)" "sound d (cmd_deftoobig tok rest d)"
  unfolding cmd_eqfrag_def cmd_autotunnel_def cmd_defmss_def cmd_defmtu_def cmd_deftoobig_def Let_def
  by (intro result_intros; simp add: cfg_ok_def linorder_not_less)+

lemma cfg_ok_upd:
  assumes "cfg_ok c"
  shows "0 < n \<Longrightarrow> n \<le> 1200 \<Longrightarrow> cfg_ok (c\<lparr>frag_lifetime := n\<rparr>)" "n \<le> 16535 \<Longrightarrow> cfg_ok (c\<lparr>frag_maxcnt := (frag_maxcnt c)[i := n]\<rparr>)"
    "0 < b \<Longrightarrow> cfg_ok (c\<lparr>fragtn_maxcnt := (fragtn_maxcnt c)[i := b]\<rparr>)" "0 < b \<Longrightarrow> cfg_ok (c\<lparr>bucksize := (bucksize c)(pr := b)\<rparr>)"
    "0 < v \<Longrightarrow> v \<le> 36000 \<Longrightarrow> cfg_ok (c\<lparr>nat_lifetime := (nat_lifetime c)[i := v]\<rparr>)" "n \<le> 600 \<Longrightarrow> cfg_ok (c\<lparr>hold_lifetime := n\<rparr>)"
    "0 < w \<Longrightarrow> cfg_ok (c\<lparr>maxtnatcnt := (maxtnatcnt c)(pr := w)\<rparr>)" "0 < w \<Longrightarrow> w \<le> 255 \<Longrightarrow> cfg_ok (c\<lparr>maxtnatrt := (maxtnatrt c)(pr := w)\<rparr>)"
    "w \<le> w' \<Longrightarrow> pr \<noteq> ICMPPR \<longrightarrow> 0 < w \<Longrightarrow> cfg_ok (c\<lparr>poolmin := (poolmin c)(pr := w), poolmax := (poolmax c)(pr := w')\<rparr>)"
  using assms unfolding cfg_ok_def by (auto dest!: set_update)

lemma default_sound [result_intros]:
  "sound d (cmd_default_fragment tok rest d)" "sound d (cmd_default_hold tok rest d)" "sound d (cmd_default_nat tok rest d)"
  "sound d (cmd_default_tunnel_fragment rest d)" "sound d (cmd_bucket tok rest d)"
  unfolding cmd_default_fragment_def cmd_default_hold_def cmd_default_nat_def cmd_default_tunnel_fragment_def cmd_bucket_def Let_def
  by (intro result_intros cfg_ok_upd; simp add: byte_pos nat_le_iff)+

lemma range_sound [result_intros]:
  "sound d (cmd_default_pool tok rest d)" "sound d (cmd_default_tunnel_nat rest d)"
  unfolding cmd_default_pool_def cmd_default_tunnel_nat_def Let_def
  by (intro result_intros cfg_ok_upd; auto simp: short_pos short_le short_255)+

lemma default_tunnel_sound [result_intros]: "sound d (cmd_default_tunnel tok rest d)"
  unfolding cmd_default_tunnel_def by (intro result_intros)

lemma quantum_sound [result_intros]:
  "sound d (cmd_quantum tok rest d)" "sound d (cmd_decay env tok rest d)" "sound d (cmd_session_config ss tok rest d)"
  by (auto simp: cmd_quantum_def cmd_decay_def cmd_session_config_def sound_def settings_ok_def ok_def bad_def Let_def
      split: if_splits option.splits prod.splits)

lemma noop_sound [result_intros]: "sound d (no_args r tk d)"
  by (rule sound_same) (intro result_intros)

lemmas same_sound = leaf_same_conf [THEN sound_same] misc_same_conf [THEN sound_same] session_close_same_conf [THEN sound_same]

lemma run_leaf_sound: "sound d (run_leaf l env rd ss tk rest d)"
  by (cases l) (simp_all only: run_leaf.simps cmd_noop_def cmd_kill_def cmd_reboot_def cmd_quit_def noop_sound same_sound
      default_sound range_sound default_tunnel_sound quantum_sound switches_sound sound_base)

lemma conf_global_close_ok: "cfg_ok (d_cfg d) \<Longrightarrow> conf_global_close d = d"
proof -
  assume "cfg_ok (d_cfg d)"
  then have "\<not> poolmax (d_cfg d) pr < poolmin (d_cfg d) pr" for pr by (simp add: cfg_ok_def linorder_not_less)
  then show "conf_global_close d = d" by (simp only: conf_global_close_def set_cfg_def fold_simps comp_def id_def if_False) simp
qed

lemma gate_sound:
  assumes "section_gate ss sec d = Pass e" and "settings_ok d"
  shows "settings_ok e"
  using assms by (auto simp: section_gate_def settings_ok_def conf_global_close_ok split: if_splits)

lemma dispatch_sound:
  assumes run: "\<And>f tk rest d. sound d (run f ss tk rest d)"
  shows "sound d (cmd_dispatch run cs ss tok rest d)"
proof -
  have "sound d (case section_gate ss sec d of Pass d \<Rightarrow> run f ss tk rest d | Skip \<Rightarrow> ok d | Wrong \<Rightarrow> bad d)" for sec f tk rest
    using run gate_sound [of ss sec d] by (cases "section_gate ss sec d") (auto simp: sound_def ok_def bad_def)
  then show ?thesis unfolding cmd_dispatch_def Let_def by (intro result_intros)
qed

lemma settings_ok_upd [simp]:
  "settings_ok (set_core s d) = settings_ok d" "settings_ok (d\<lparr>d_loading := b\<rparr>) = settings_ok d"
  "settings_ok (d\<lparr>d_ctl := c\<rparr>) = settings_ok d" "settings_ok (d\<lparr>d_reloading := b\<rparr>) = settings_ok d"
  "settings_ok (d\<lparr>d_stream := st\<rparr>) = settings_ok d" "settings_ok (d\<lparr>d_section := f\<rparr>) = settings_ok d"
  "settings_ok (d\<lparr>d_locked := f\<rparr>) = settings_ok d" "settings_ok (d\<lparr>d_ln := i\<rparr>) = settings_ok d"
  "settings_ok (d\<lparr>d_savedgen := g\<rparr>) = settings_ok d" "settings_ok (d\<lparr>d_savedsec := n\<rparr>) = settings_ok d"
  "settings_ok (d\<lparr>d_savedloc := n\<rparr>) = settings_ok d"
  by (simp_all add: settings_ok_def set_core_def)

lemma cmdline_sound:
  assumes "\<And>f tk rest d. sound d (run f ss tk rest d)"
  shows "sound d (cmdline env run ss line d)"
  unfolding cmdline_def by (intro result_intros dispatch_sound assms same_sound)

text \<open>
  What the readers of a file ask of the interpretation of a line: that it keeps a property of the
  state, which does not look at the line counter. The readers then keep it too.
\<close>

locale line_keeper =
  fixes P :: "daemon \<Rightarrow> bool" and rl :: "string \<Rightarrow> daemon \<Rightarrow> result"
  assumes keeps: "P d \<Longrightarrow> rl l d = Some (r, e) \<Longrightarrow> P e"
    and counts: "P d \<Longrightarrow> P (d\<lparr>d_ln := n\<rparr>)"
begin

lemma load_keeps: "load_lines rl ls d = Some (r, e) \<Longrightarrow> P d \<Longrightarrow> P e"
proof (induction ls arbitrary: d)
  case (Cons l tls)
  obtain i m where m: "rl l d = Some (i, m)" using Cons.prems(1) by (auto split: option.splits)
  then show ?case using Cons.prems Cons.IH [of m] keeps by (auto split: if_splits)
qed auto

lemma conf_keeps: "conf_lines rl ls d = Some (r, e) \<Longrightarrow> P d \<Longrightarrow> P e"
proof (induction ls arbitrary: d)
  case (Cons l tls)
  obtain i m where m: "rl l d = Some (i, m)" using Cons.prems(1) by (auto split: option.splits)
  then show ?case using Cons.prems Cons.IH [of m] keeps by (auto split: if_splits)
qed auto

lemma reload_keeps: "reload_lines rl n ls d = Some (r, ls', e) \<Longrightarrow> P d \<Longrightarrow> P e"
proof (induction n arbitrary: ls d)
  case (Suc n)
  show ?case
  proof (cases ls)
    case (Cons l tls)
    obtain i m where m: "rl l d = Some (i, m)" using Suc.prems(1) Cons by (auto split: option.splits)
    then show ?thesis using Suc.prems Suc.IH [of tls "m\<lparr>d_ln := d_ln m + 1\<rparr>"] keeps counts by (auto simp: Cons split: if_splits)
  qed (use Suc.prems in auto)
qed auto

end

lemma load_sound:
  assumes "line_keeper settings_ok rl"
  shows "sound d (cmd_load env rl tok rest d)"
proof -
  have "sound d (map_option (\<lambda>(r, e). (r, e\<lparr>d_loading := b\<rparr>)) (load_lines rl ls (d\<lparr>d_loading := c\<rparr>)))" for ls b c
    using line_keeper.load_keeps [OF assms] by (auto simp: sound_def)
  then show ?thesis unfolding cmd_load_def load_file_def by (intro result_intros)
qed

lemma reload_finish_sound: "reload_finish b d = Some d' \<Longrightarrow> settings_ok d \<Longrightarrow> settings_ok d'"
  by (auto simp: reload_finish_def Let_def split: option.splits if_splits)

lemma reload_sound:
  assumes "line_keeper settings_ok rl"
  shows "sound d (cmd_reload env rl ss tok d)"
  unfolding cmd_reload_def reload_conf_def
  by (auto simp: sound_def bad_def Let_def dest!: line_keeper.reload_keeps [OF assms] reload_finish_sound split: if_splits option.splits)

lemma sound_keeper:
  assumes "\<And>l d. sound d (rl l d)"
  shows "line_keeper settings_ok rl"
  using assms by unfold_locales (auto simp: sound_def)

lemma exec_sound: "sound d (exec k env rd f ss tok rest d)"
proof (induction k arbitrary: f ss tok rest d)
  case (Suc k)
  have "line_keeper settings_ok (cmdline env (exec k env rd) ss)" for ss by (intro sound_keeper cmdline_sound Suc.IH)
  then show ?case by (cases f) (simp_all add: run_leaf_sound dispatch_sound load_sound reload_sound Suc.IH)
qed (simp add: sound_base)

lemma line_sound: "sound d (cmdline env (exec k env rd) ss line d)"
  by (rule cmdline_sound) (rule exec_sound)

interpretation settings: line_keeper settings_ok "cmdline env (exec k env rd) ss" for env k rd ss
  by (rule sound_keeper) (rule line_sound)

section \<open>Reloads\<close>

text \<open>What the tables admit in section 4: these functions, each of which leaves the settings alone.\<close>

definition binding_funcs :: "func list" where
  "binding_funcs =
     map Leaf [Leaf_acl6, Leaf_mss, Leaf_mtu, Leaf_nat, Leaf_nonat, Leaf_prr, Leaf_toobig, Leaf_try, Leaf_tunnel, Leaf_debug_enable,
       Leaf_debug_set, Leaf_delete_acl6, Leaf_delete_nat, Leaf_delete_nonat, Leaf_delete_prr, Leaf_delete_tunnel]
     @ map Sub [Tab_debug, Tab_delete]"

definition gated :: "cmd list \<Rightarrow> bool" where
  "gated cs \<longleftrightarrow> (\<forall>c \<in> set cs. if c_section c AND 4 \<noteq> 0 then c_func c \<in> set binding_funcs else c_section c \<in> {1, 2, 8, 9})"

lemma tables_gated: "gated cmd_table" "gated debugcmd" "gated deletecmd"
  by (simp_all add: gated_def cmd_table_def debugcmd_def deletecmd_def entry_def binding_funcs_def)

lemma find_cmd_member: "find_cmd tok cs = Some c \<Longrightarrow> c \<in> set cs"
  by (auto simp: find_cmd_def Let_def find_Some_iff dest!: nth_mem set_takeWhileD set_dropWhileD)

lemma dispatch_same:
  assumes gated: "gated cs" and state: "d_reloading d" "d_section d ss = 4"
    and run: "\<And>f tk rest. f \<in> set binding_funcs \<Longrightarrow> same_conf d (run f ss tk rest d)"
  shows "same_conf d (cmd_dispatch run cs ss tok rest d)"
proof (cases "find_cmd tok cs")
  case (Some c)
  have "if c_section c AND 4 \<noteq> 0 then c_func c \<in> set binding_funcs else c_section c \<in> {1, 2, 8, 9}"
    using gated find_cmd_member [OF Some] unfolding gated_def by blast
  then have "section_gate ss (c_section c) d = Pass d \<and> c_func c \<in> set binding_funcs \<or> section_gate ss (c_section c) d \<in> {Skip, Wrong}"
    by (auto simp: section_gate_def state split: if_splits)
  then have "same_conf d (case section_gate ss (c_section c) d of Pass d \<Rightarrow> run (c_func c) ss tk rest d | Skip \<Rightarrow> ok d | Wrong \<Rightarrow> bad d)" for tk rest
    using run by (auto simp: same_conf_intros)
  then show ?thesis using Some by (auto simp: cmd_dispatch_def Let_def same_conf_intros split: prod.splits)
qed (simp add: cmd_dispatch_def same_conf_intros)

lemma exec_same:
  assumes "d_reloading d" and "d_section d ss = 4" and "f \<in> set binding_funcs"
  shows "same_conf d (exec k env rd f ss tok rest d)"
  using assms(3)
proof (induction k arbitrary: f tok rest)
  case (Suc k)
  have "same_conf d (cmd_dispatch (exec k env rd) (table_of t) ss (the tok) rest d)" if "t \<in> {Tab_debug, Tab_delete}" for t
    using that tables_gated by (auto simp: table_of_def intro!: dispatch_same assms(1,2) Suc.IH)
  then show ?case using Suc.prems
    by (auto simp: binding_funcs_def leaf_same_conf misc_same_conf same_conf_intros)
qed (simp add: same_conf_intros)

lemma line_same:
  assumes "d_reloading d" and "d_section d ss = 4"
  shows "same_conf d (cmdline env (exec k env rd) ss line d)"
  unfolding cmdline_def by (intro result_intros dispatch_same tables_gated assms exec_same)

lemma reload_lines_result: "reload_lines rl n ls d = Some (r, ls', e) \<Longrightarrow> r \<in> {0, 1, -1}"
  by (induction rl n ls d rule: reload_lines.induct) (auto split: option.splits if_splits)

text \<open>What a finished reload leaves: the settings as they were, and the session back in its section.\<close>

definition unwound :: "nat \<Rightarrow> daemon \<Rightarrow> bool \<Rightarrow> daemon \<Rightarrow> bool" where
  "unwound ss d failed e \<longleftrightarrow>
     d_cfg e = d_cfg d \<and> d_quantum e = d_quantum d \<and> d_decays e = d_decays d \<and> \<not> d_reloading e \<and> d_stream e = None \<and>
     d_section e = (d_section d)(ss := d_savedsec d) \<and> d_locked e = (d_locked d)(ss := d_savedloc d) \<and>
     reload_session (d_ctl e) = None \<and>
     (if failed then lastgen (core_of e) = d_savedgen d \<and> needbt (d_ctl e) = 2 else needgc (d_ctl e) = 2)"

lemma bt_loop_lastgen:
  "lastgen (fold (\<lambda>t s. if P t s then s else if Q t s then s else if R t s then upd_tunnel t (f s) s else s) ts s) = lastgen s"
  by (induction ts arbitrary: s) (simp_all add: upd_tunnel_def)

lemma reload_finish_unwinds:
  assumes "reload_finish failed d = Some e" and "reload_session (d_ctl d) = Some ss"
  shows "unwound ss d failed e"
  using assms
  by (auto simp: reload_finish_def unwound_def Let_def set_core_def core_of_def bt_reload_def gc_reload_def bt_loop_lastgen split: if_splits)

section \<open>From the start\<close>

lemma start_settings: "settings_ok globals0"
  by (auto simp: settings_ok_def globals0_def cfg_ok_def default_config_def split: prclass.splits)

lemma stdio_open_settings [simp]: "settings_ok (stdio_open d) = settings_ok d"
  by (simp add: stdio_open_def settings_ok_def)

lemma main_conf_settings:
  "main_conf env (cmdline env (exec k env rd) 0) mem d = Some (r, e) \<Longrightarrow> settings_ok d \<Longrightarrow> settings_ok e"
  by (auto simp: main_conf_def load_conf_def bad_def Let_def split: prod.splits if_splits option.splits dest: settings.conf_keeps)

definition demo_env :: sysenv where
  "demo_env = \<lparr>e_pton4 = (\<lambda>_. None), e_pton6 = (\<lambda>_. None), e_strtod = (\<lambda>t. (NotANumber, t)),
     e_alloc = (\<lambda>_. \<lparr>al_mem = (\<lambda>_. True), al_tid = 1, al_nid = 1\<rparr>), e_mem = (\<lambda>_ _. True), e_dup = (\<lambda>_. True), e_file = (\<lambda>_. None),
     e_conf = Some [''# nothing''], e_before = CHR 0x00\<rparr>"

definition demo_daemon :: daemon where
  "demo_daemon = (stdio_open globals0)\<lparr>d_section := (\<lambda>_. 1)\<rparr>"

lemma demo_line:
  "map_option (\<lambda>(r, d). (r, poolmin (d_cfg d) TCPPR, poolmax (d_cfg d) TCPPR))
     (cmdline demo_env (exec 2 demo_env (\<lambda>_. True)) 0 ''default pool tcp 2000-3000'' demo_daemon) = Some (0, 2000, 3000)"
  by code_simp

section \<open>A reload as a transaction\<close>

text \<open>A reload that goes on, and one that is over, compared with the state \<open>d0\<close> before it.\<close>

definition in_reload :: "nat \<Rightarrow> daemon \<Rightarrow> daemon \<Rightarrow> bool" where
  "in_reload ss d0 e \<longleftrightarrow>
     d_cfg e = d_cfg d0 \<and> d_quantum e = d_quantum d0 \<and> d_decays e = d_decays d0 \<and> d_reloading e \<and>
     d_section e = (d_section d0)(ss := 4) \<and> d_locked e = (d_locked d0)(ss := 1) \<and>
     d_savedsec e = d_section d0 ss \<and> d_savedloc e = d_locked d0 ss \<and> d_savedgen e = lastgen (core_of d0) \<and>
     reload_session (d_ctl e) = Some ss"

definition reload_over :: "daemon \<Rightarrow> bool \<Rightarrow> daemon \<Rightarrow> bool" where
  "reload_over d0 failed e \<longleftrightarrow>
     d_cfg e = d_cfg d0 \<and> d_quantum e = d_quantum d0 \<and> d_decays e = d_decays d0 \<and> \<not> d_reloading e \<and> d_stream e = None \<and>
     d_section e = d_section d0 \<and> d_locked e = d_locked d0 \<and> reload_session (d_ctl e) = None \<and>
     (if failed then lastgen (core_of e) = lastgen (core_of d0) \<and> needbt (d_ctl e) = 2 else needgc (d_ctl e) = 2)"

lemma in_reload_conf: "in_reload ss d0 e \<Longrightarrow> global_conf e' = global_conf e \<Longrightarrow> in_reload ss d0 e'"
  by (simp add: in_reload_def global_conf_def)

lemma in_reload_over: "in_reload ss d0 e \<Longrightarrow> unwound ss e failed e' \<Longrightarrow> reload_over d0 failed e'"
  by (auto simp: in_reload_def unwound_def reload_over_def)

interpretation reload: line_keeper "in_reload ss d0" "cmdline env (exec k env rd) ss" for ss d0 env k rd
proof
  show "in_reload ss d0 e" if "in_reload ss d0 d" and "cmdline env (exec k env rd) ss l d = Some (r, e)" for d l r e
    using that line_same [of d ss env k rd l] in_reload_conf unfolding in_reload_def same_conf_def by (metis fun_upd_same)
  show "in_reload ss d0 (d\<lparr>d_ln := n\<rparr>)" if "in_reload ss d0 d" for d n using that by (simp add: in_reload_def)
qed

lemma reload_end:
  assumes "in_reload ss d0 d" and "reload_finish failed d = Some e"
  shows "reload_over d0 failed e"
  using assms reload_finish_unwinds in_reload_over unfolding in_reload_def by blast

lemma after_piece:
  assumes st: "in_reload ss d0 d" and lines: "reload_lines (cmdline env (exec k env rd) ss) n ls d = Some (q, ls', e)"
    and frame: "global_conf e' = global_conf e"
  shows "in_reload ss d0 e' \<and> (reload_finish b e' = Some g \<longrightarrow> reload_over d0 b g) \<and> q \<in> {0, 1, -1}"
  using reload.reload_keeps [OF lines st] reload_lines_result [OF lines] in_reload_conf [OF _ frame] reload_end by blast

lemma reload_conf_outcome:
  assumes run: "reload_conf env (cmdline env (exec k env rd) ss) ss d = Some (r, e)" and conf: "e_conf env = Some ls"
  shows "r = 0 \<and> (in_reload ss d e \<or> reload_over d False e) \<or> r = -1 \<and> reload_over d True e"
proof -
  define gen where "gen = lastgen (core_of d) + 1"
  define b where "b = (set_core ((core_of d)\<lparr>lastgen := gen, curgen := gen\<rparr>) (d\<lparr>d_ln := 1\<rparr>))\<lparr>d_savedgen := lastgen (core_of d),
      d_savedsec := d_section d ss, d_savedloc := d_locked d ss, d_reloading := True\<rparr>"
  define c where "c = b\<lparr>d_ctl := (d_ctl b)\<lparr>reload_session := Some ss\<rparr>, d_section := (d_section b)(ss := 4), d_locked := (d_locked b)(ss := 1)\<rparr>"
  have b: "in_reload ss d c" by (simp add: in_reload_def c_def b_def set_core_def core_of_def)
  have "(if gen = 0 then None else case reload_lines (cmdline env (exec k env rd) ss) (d_quantum c) ls c of
       None \<Rightarrow> None
     | Some (q, ls', p) \<Rightarrow>
         if q = 1 then map_option (\<lambda>d. (0, d)) (reload_finish False (p\<lparr>d_stream := Some ls'\<rparr>))
         else if q = -1 then map_option (\<lambda>d. (-1, d)) (reload_finish True (p\<lparr>d_stream := Some ls'\<rparr>))
         else Some (0, p\<lparr>d_stream := Some ls'\<rparr>)) = Some (r, e)"
    using run conf unfolding reload_conf_def Let_def
    by (simp add: core_of_def set_core_def gen_def b_def c_def split: if_splits)
  then obtain q ls' p where lines: "reload_lines (cmdline env (exec k env rd) ss) (d_quantum c) ls c = Some (q, ls', p)"
    and out: "(if q = 1 then map_option (\<lambda>d. (0, d)) (reload_finish False (p\<lparr>d_stream := Some ls'\<rparr>))
       else if q = -1 then map_option (\<lambda>d. (-1, d)) (reload_finish True (p\<lparr>d_stream := Some ls'\<rparr>))
       else Some (0, p\<lparr>d_stream := Some ls'\<rparr>)) = Some (r, e)"
    by (auto split: if_splits option.splits prod.splits)
  have frame: "global_conf (p\<lparr>d_stream := Some ls'\<rparr>) = global_conf p" by simp
  show ?thesis using out after_piece [OF b lines frame] by (auto split: if_splits)
qed

lemma reload_incr_outcome:
  assumes f: "in_reload ss d0 f" and run: "reload_incr (cmdline env (exec k env rd)) f = Some g"
  shows "in_reload ss d0 g \<or> (\<exists>b. reload_over d0 b g)"
proof -
  have ss: "reload_session (d_ctl f) = Some ss" using f by (simp add: in_reload_def)
  define f' where "f' = set_core ((core_of f)\<lparr>curgen := lastgen (core_of f)\<rparr>) f"
  obtain ls q ls' p where lines: "reload_lines (cmdline env (exec k env rd) ss) (d_quantum f' div 2) ls f' = Some (q, ls', p)"
    and out: "(let d = (set_core ((core_of p)\<lparr>curgen := curgen (core_of f)\<rparr>) p)\<lparr>d_stream := Some ls'\<rparr>
       in if q = 1 then reload_finish False d else if q = -1 then reload_finish True d else Some d) = Some g"
    using run ss by (auto simp: reload_incr_def Let_def f'_def split: option.splits prod.splits)
  have st: "in_reload ss d0 f'" using f in_reload_conf [of ss d0 f f'] by (simp add: f'_def)
  define h where "h = (set_core ((core_of p)\<lparr>curgen := curgen (core_of f)\<rparr>) p)\<lparr>d_stream := Some ls'\<rparr>"
  have "global_conf h = global_conf p" by (simp add: h_def)
  from after_piece [OF st lines this] show ?thesis
    using out by (auto simp: Let_def h_def [symmetric] split: if_splits)
qed

text \<open>
  Claim C13: a reload is a transaction on the settings and on its session. cmd_reload refuses, and changes
  neither the settings nor a table; or it is under way, with the session held in section 4 and
  locked; or it is over, with the settings, the sections and the locks as they were, and either
  the garbage of the old generation is to be collected or, when a line failed, the generation is
  the old one and the backtrack is due. Each pass of the main loop keeps it under way or ends it
  in the same two ways, whatever the lines of the file are.
\<close>

theorem reload_is_a_transaction:
  assumes "cmd_reload env (cmdline env (exec k env rd) ss) ss tok d = Some (r, e)"
  shows "(r = -1 \<and> d_cfg e = d_cfg d \<and> d_ctl e = d_ctl d \<and> d_section e = d_section d \<and> d_reloading e = d_reloading d \<or>
      r = 0 \<and> (in_reload ss d e \<or> reload_over d False e) \<or> r = -1 \<and> reload_over d True e) \<and>
    (in_reload ss d0 f \<and> reload_incr (cmdline env (exec k env rd)) f = Some g \<longrightarrow> in_reload ss d0 g \<or> (\<exists>b. reload_over d0 b g))"
proof (rule conjI)
  show "r = -1 \<and> d_cfg e = d_cfg d \<and> d_ctl e = d_ctl d \<and> d_section e = d_section d \<and> d_reloading e = d_reloading d \<or>
      r = 0 \<and> (in_reload ss d e \<or> reload_over d False e) \<or> r = -1 \<and> reload_over d True e"
    using assms reload_conf_outcome [of env k rd ss d r e]
    by (cases "e_conf env") (auto simp: cmd_reload_def reload_conf_def bad_def split: if_splits)
  show "in_reload ss d0 f \<and> reload_incr (cmdline env (exec k env rd)) f = Some g \<longrightarrow> in_reload ss d0 g \<or> (\<exists>b. reload_over d0 b g)"
    using reload_incr_outcome by blast
qed

lemma demo_reload:
  "map_option (\<lambda>(r, d). (r, d_reloading d, needgc (d_ctl d)))
     (cmd_reload demo_env (cmdline demo_env (exec 2 demo_env (\<lambda>_. True)) 0) 0 None demo_daemon) = Some (0, False, 2)"
  by code_simp

theorem reload_is_a_transaction_witness:
  "\<exists>e. cmd_reload demo_env (cmdline demo_env (exec 2 demo_env (\<lambda>_. True)) 0) 0 None demo_daemon = Some (0, e) \<and>
     reload_over demo_daemon False e"
proof -
  obtain e where run: "cmd_reload demo_env (cmdline demo_env (exec 2 demo_env (\<lambda>_. True)) 0) 0 None demo_daemon = Some (0, e)"
    and "\<not> d_reloading e" using demo_reload by auto
  then show ?thesis using reload_is_a_transaction [OF run] by (auto simp: in_reload_def)
qed
end
