(* ===== verification/Aftr_Session.thy ===== *)
theory Aftr_Session
  imports Aftr_Command
begin

text \<open>
  The control channel of a session: commands reads what has come in, cuts it into lines and runs
  them. The buffer cbuf has 600 bytes; \<open>cpos\<close> is how many of them are taken.
\<close>

section \<open>Operations\<close>

record conn =
  cbuf :: string
  cpos :: nat

definition conn0 :: conn where
  "conn0 = \<lparr>cbuf = replicate 600 (CHR 0x00), cpos = 0\<rparr>"

text \<open>What strchr finds: the first line of the string in the buffer, which a zero byte ends.\<close>

definition first_line :: "string \<Rightarrow> string option" where
  "first_line b =
     (let str = takeWhile (\<lambda>c. c \<noteq> CHR 0x00) b
      in if CHR 0x0A \<in> set str then Some (takeWhile (\<lambda>c. c \<noteq> CHR 0x0A) str) else None)"

text \<open>
  The line is taken off the front: its end is overwritten with a zero, the rest is moved down
  (the last bytes of the buffer stay as they are), and \<open>cpos -= len\<close> in a size_t.
\<close>

definition take_line :: "nat \<Rightarrow> conn \<Rightarrow> conn" where
  "take_line len c =
     (let b = (cbuf c)[len - 1 := CHR 0x00]
      in \<lparr>cbuf = drop len b @ drop (length b - len) b, cpos = (cpos c + 2 ^ 64 - len) mod 2 ^ 64\<rparr>)"

text \<open>\<open>read(ss->fd, ss->cbuf + ss->cpos, n)\<close>.\<close>

definition fill :: "string \<Rightarrow> conn \<Rightarrow> conn" where
  "fill bs c = \<lparr>cbuf = take (cpos c) (cbuf c) @ bs @ drop (cpos c + length bs) (cbuf c), cpos = cpos c + length bs\<rparr>"

text \<open>
  The loop of commands. \<open>inp\<close> is what can be read without waiting (FIONREAD). \<open>None\<close> is an
  exit, an access behind the buffer, or too little fuel; a session that is closed while it is
  locked ends the process.
\<close>

definition hang_up :: "nat \<Rightarrow> daemon \<Rightarrow> daemon option" where
  "hang_up ss d = (if d_locked d ss \<noteq> 0 then None else map_option snd (ccclose ss d))"

fun commands_loop :: "nat \<Rightarrow> (string \<Rightarrow> daemon \<Rightarrow> result) \<Rightarrow> nat \<Rightarrow> bool \<Rightarrow> conn \<Rightarrow> string \<Rightarrow> daemon \<Rightarrow>
    (int \<times> conn \<times> string \<times> daemon) option" where
  "commands_loop 0 rl ss first c inp d = None"
| "commands_loop (Suc k) rl ss first c inp d =
     (if \<not> d_open d ss then Some (0, c, inp, d)
      else
        let c = (if cpos c = 0 then c\<lparr>cbuf := replicate 600 (CHR 0x00)\<rparr> else c)
        in case (if cpos c > 0 then first_line (cbuf c) else None) of
             Some l \<Rightarrow>
               let len = length l + 1; c = take_line len c
               in if len \<ge> 256 then commands_loop k rl ss first c inp d
                  else (case rl l d of
                    None \<Rightarrow> None
                  | Some (cc, d) \<Rightarrow>
                      if cc > 0 \<or> d_reloading d then Some (cc, c, inp, d)
                      else commands_loop k rl ss first c inp d)
           | None \<Rightarrow>
               if inp = [] then
                 if first then map_option (\<lambda>d. (0, c, inp, d)) (hang_up ss d) else Some (0, c, inp, d)
               else if cpos c \<ge> 600 then None
               else
                 let n = min (600 - cpos c - 1) (length inp)
                 in if n = 0 then map_option (\<lambda>d. (0, c, inp, d)) (hang_up ss d)
                    else commands_loop k rl ss False (fill (take n inp) c) (drop n inp) d)"

definition commands :: "nat \<Rightarrow> (string \<Rightarrow> daemon \<Rightarrow> result) \<Rightarrow> nat \<Rightarrow> conn \<Rightarrow> string \<Rightarrow> daemon \<Rightarrow> (int \<times> conn \<times> string \<times> daemon) option" where
  "commands k rl ss c inp d =
     (let savedgen = curgen (core_of d);
          d = set_core ((core_of d)\<lparr>curgen := ss_generation (d_ctl d) ss\<rparr>) d
      in map_option (\<lambda>(cc, c, inp, d). (cc, c, inp, set_core ((core_of d)\<lparr>curgen := savedgen\<rparr>) d))
           (commands_loop k rl ss (cpos c = 0) c inp d))"

text \<open>At the end of the process every session is closed.\<close>

fun sess_closeall :: "nat \<Rightarrow> daemon \<Rightarrow> daemon option" where
  "sess_closeall 0 d = None"
| "sess_closeall (Suc k) d =
     (case sslist (d_ctl d) of
        [] \<Rightarrow> Some d
      | ss # _ \<Rightarrow> Option.bind (map_option snd (ccclose ss d)) (sess_closeall k))"

section \<open>Lines\<close>

text \<open>The buffer holds \<open>t\<close>: its first bytes, and a zero behind them.\<close>

definition holds :: "conn \<Rightarrow> string \<Rightarrow> bool" where
  "holds c t \<longleftrightarrow> (\<exists>junk. cbuf c = t @ CHR 0x00 # junk) \<and> length (cbuf c) = 600 \<and> cpos c = length t \<and> CHR 0x00 \<notin> set t"

lemma first_line_end: "CHR 0x0A \<notin> set l \<Longrightarrow> CHR 0x00 \<notin> set l \<Longrightarrow> first_line (l @ CHR 0x0A # r) = Some l"
  by (simp add: first_line_def Let_def takeWhile_append2 takeWhile_append)

lemma first_line_none: "CHR 0x0A \<notin> set l \<Longrightarrow> CHR 0x00 \<notin> set l \<Longrightarrow> first_line (l @ CHR 0x00 # r) = None"
  by (simp add: first_line_def Let_def takeWhile_append2 takeWhile_append)

lemma take_line_app:
  assumes "cbuf c = l @ CHR 0x0A # r" and "length l < cpos c" "cpos c < 2 ^ 64"
  shows "take_line (length l + 1) c = \<lparr>cbuf = r @ drop (length r) (l @ CHR 0x00 # r), cpos = cpos c - (length l + 1)\<rparr>"
proof -
  have "(cpos c + 2 ^ 64 - (length l + 1)) mod 2 ^ 64 = (cpos c - (length l + 1)) mod 2 ^ 64"
    using assms(2) mod_add_self2 [of "cpos c - (length l + 1)" "2 ^ 64 :: nat"] by (simp add: algebra_simps)
  then show ?thesis using assms by (simp add: take_line_def Let_def list_update_append)
qed

lemma take_line_holds:
  assumes "holds c (l @ CHR 0x0A # t)"
  shows "holds (take_line (length l + 1) c) t"
proof -
  obtain junk where j: "cbuf c = l @ CHR 0x0A # (t @ CHR 0x00 # junk)" "length (cbuf c) = 600" "cpos c = length l + 1 + length t"
    "CHR 0x00 \<notin> set t" using assms by (auto simp: holds_def)
  have "take_line (length l + 1) c = \<lparr>cbuf = (t @ CHR 0x00 # junk) @ drop (length (t @ CHR 0x00 # junk)) (l @ CHR 0x00 # (t @ CHR 0x00 # junk)),
      cpos = cpos c - (length l + 1)\<rparr>"
    by (rule take_line_app [OF j(1)]) (use j in auto)
  moreover have "length (drop (length (t @ CHR 0x00 # junk)) (l @ CHR 0x00 # (t @ CHR 0x00 # junk))) = length l + 1" by simp
  ultimately show ?thesis using j by (simp add: holds_def)
qed

definition join_lines :: "string list \<Rightarrow> string \<Rightarrow> string" where
  "join_lines ls rest = concat (map (\<lambda>l. l @ [CHR 0x0A]) ls) @ rest"

lemma join_lines_simps [simp]:
  "join_lines [] rest = rest" "join_lines (l # ls) rest = l @ CHR 0x0A # join_lines ls rest"
  by (simp_all add: join_lines_def)

text \<open>What a session is to do with the lines it was sent: run each that is not too long, in order.\<close>

fun feed :: "(string \<Rightarrow> daemon \<Rightarrow> result) \<Rightarrow> nat \<Rightarrow> string list \<Rightarrow> string \<Rightarrow> daemon \<Rightarrow> (int \<times> string \<times> daemon) option" where
  "feed rl ss [] rest d = Some (0, rest, d)"
| "feed rl ss (l # ls) rest d =
     (if \<not> d_open d ss then Some (0, join_lines (l # ls) rest, d)
      else if length l \<ge> 255 then feed rl ss ls rest d
      else case rl l d of
        None \<Rightarrow> None
      | Some (cc, d) \<Rightarrow> if cc > 0 \<or> d_reloading d then Some (cc, join_lines ls rest, d) else feed rl ss ls rest d)"

lemma loop_feeds:
  "holds c (join_lines ls rest) \<Longrightarrow> \<forall>l \<in> set ls. CHR 0x0A \<notin> set l \<Longrightarrow> CHR 0x0A \<notin> set rest \<Longrightarrow> length ls < k \<Longrightarrow>
     case feed rl ss ls rest d of
       None \<Rightarrow> commands_loop k rl ss False c [] d = None
     | Some (cc, kept, d') \<Rightarrow> \<exists>c'. commands_loop k rl ss False c [] d = Some (cc, c', [], d') \<and> holds c' kept"
proof (induction ls arbitrary: c d k)
  case Nil
  obtain m where k: "k = Suc m" using Nil.prems(4) by (cases k) auto
  obtain junk where j: "cbuf c = rest @ CHR 0x00 # junk" "length (cbuf c) = 600" "cpos c = length rest" "CHR 0x00 \<notin> set rest"
    using Nil.prems(1) by (auto simp: holds_def)
  have none: "first_line (cbuf c) = None" using first_line_none [OF Nil.prems(3) j(4)] j(1) by simp
  have zero: "holds (c\<lparr>cbuf := replicate 600 (CHR 0x00)\<rparr>) rest" if "rest = []"
    using that j by (simp add: holds_def numeral_eq_Suc)
  show ?case
    using Nil.prems(1) none zero j(3) by (auto simp: k Let_def)
next
  case (Cons l ls)
  obtain m where k: "k = Suc m" "length ls < m" using Cons.prems(4) by (cases k) auto
  have l: "CHR 0x0A \<notin> set l" "CHR 0x00 \<notin> set l" and cp: "0 < cpos c" using Cons.prems(1,2) by (auto simp: holds_def)
  obtain r where r: "cbuf c = l @ CHR 0x0A # r" using Cons.prems(1) by (auto simp: holds_def)
  then have fl: "first_line (cbuf c) = Some l" using first_line_end [OF l] by simp
  have h: "holds (take_line (Suc (length l)) c) (join_lines ls rest)" using take_line_holds Cons.prems(1) by simp
  note IH = Cons.IH [OF h _ Cons.prems(3) k(2)]
  have ls: "\<forall>l \<in> set ls. CHR 0x0A \<notin> set l" using Cons.prems(2) by simp
  show ?case
  proof (cases "d_open d ss")
    case True
    define c1 where "c1 = take_line (Suc (length l)) c"
    have step: "commands_loop k rl ss False c [] d = (if length l \<ge> 255 then commands_loop m rl ss False c1 [] d
        else case rl l d of None \<Rightarrow> None
          | Some (cc, d) \<Rightarrow> if cc > 0 \<or> d_reloading d then Some (cc, c1, [], d) else commands_loop m rl ss False c1 [] d)"
      unfolding c1_def using True fl cp by (simp add: k(1) Let_def)
    note IH = IH [OF ls, folded c1_def] and h = h [folded c1_def]
    show ?thesis
    proof (cases "length l \<ge> 255")
      case long: True
      then show ?thesis using IH [of d] True unfolding step by simp
    next
      case short: False
      then show ?thesis
      proof (cases "rl l d")
        case (Some p)
        obtain cc e where e: "rl l d = Some (cc, e)" using Some by (cases p) simp
        have run: "commands_loop k rl ss False c [] d = (if cc > 0 \<or> d_reloading e then Some (cc, c1, [], e) else commands_loop m rl ss False c1 [] e)"
          using short by (simp add: step e)
        show ?thesis
        proof (cases "cc > 0 \<or> d_reloading e")
          case True
          then show ?thesis using short h \<open>d_open d ss\<close> unfolding run by (simp add: e)
        next
          case False
          then show ?thesis using short IH [of e] \<open>d_open d ss\<close> unfolding run by (simp add: e)
        qed
      qed (use short True in \<open>simp add: step\<close>)
    qed
  next
    case False
    then show ?thesis using Cons.prems(1) by (simp add: k)
  qed
qed

lemma fill_holds:
  assumes "length t \<le> 599" "CHR 0x00 \<notin> set t"
  shows "holds (fill t \<lparr>cbuf = replicate 600 (CHR 0x00), cpos = 0\<rparr>) t"
proof -
  have "drop (length t) (replicate 600 (CHR 0x00)) = CHR 0x00 # replicate (599 - length t) (CHR 0x00)"
    using assms(1) by (simp flip: replicate_Suc add: Suc_diff_le)
  then show ?thesis using assms by (simp add: holds_def fill_def)
qed

text \<open>
  Claim C16: a text of at most 599 bytes that comes in at once, in a session with an empty buffer, is run
  line by line: every line of less than 255 bytes once and in order, until one asks to stop,
  begins a reload or closes the session; what is left is kept for later.
\<close>

theorem commands_run_lines:
  assumes "t = join_lines ls rest" "t \<noteq> []" "length t \<le> 599" "CHR 0x00 \<notin> set t" "\<forall>l \<in> set ls. CHR 0x0A \<notin> set l" "CHR 0x0A \<notin> set rest"
    and "cpos c = 0" "d_open d ss" "length ls + 1 < k"
  shows "case feed rl ss ls rest d of
       None \<Rightarrow> commands_loop k rl ss True c t d = None
     | Some (cc, kept, d') \<Rightarrow> \<exists>c'. commands_loop k rl ss True c t d = Some (cc, c', [], d') \<and> holds c' kept"
proof -
  obtain m where k: "k = Suc m" "length ls < m" using assms(9) by (cases k) auto
  let ?c = "c\<lparr>cbuf := replicate 600 (CHR 0x00)\<rparr>"
  have c: "?c = \<lparr>cbuf = replicate 600 (CHR 0x00), cpos = 0\<rparr>" using assms(7) by simp
  have h: "holds (fill t ?c) (join_lines ls rest)" unfolding c using fill_holds [OF assms(3,4)] assms(1) by simp
  have n: "min (600 - cpos ?c - 1) (length t) = length t" "length t \<noteq> 0" using assms(2,3,7) by auto
  have run: "commands_loop k rl ss True c t d = commands_loop m rl ss False (fill t ?c) [] d"
    unfolding k(1) using assms(2,7,8) n by (simp add: Let_def)
  show ?thesis unfolding run by (rule loop_feeds [OF h assms(5,6) k(2)])
qed

section \<open>Stale bytes\<close>

text \<open>
  A run of 599 bytes that fills the buffer: a line of 254, one of 299 (too long to be run), and
  the first 44 bytes of a third. \<open>note_line\<close> notes the line it is given.
\<close>

definition note_line :: "string \<Rightarrow> daemon \<Rightarrow> result" where
  "note_line l d = Some (0, d\<lparr>d_name := (d_name d)(9 := Some l)\<rparr>)"

definition stale_a :: string where "stale_a = replicate 254 (CHR ''a'')"
definition stale_b :: string where "stale_b = replicate 299 (CHR ''b'')"
definition stale_c :: string where "stale_c = replicate 44 (CHR ''c'')"

lemma stale_parts:
  "length stale_a = 254" "length stale_b = 299" "length stale_c = 44" "drop 90 stale_b = replicate 209 (CHR ''b'')"
  "CHR 0x0A \<notin> set stale_a" "CHR 0x00 \<notin> set stale_a" "CHR 0x0A \<notin> set stale_b" "CHR 0x00 \<notin> set stale_b"
  "CHR 0x0A \<notin> set stale_c" "CHR 0x00 \<notin> set stale_c"
  by (simp_all add: stale_a_def stale_b_def stale_c_def)

lemma stale_take_a:
  "take_line 255 \<lparr>cbuf = stale_a @ CHR 0x0A # (stale_b @ CHR 0x0A # stale_c @ [CHR 0x00]), cpos = 599\<rparr> =
   \<lparr>cbuf = stale_b @ CHR 0x0A # (stale_c @ CHR 0x00 # replicate 209 (CHR ''b'') @ CHR 0x0A # stale_c @ [CHR 0x00]), cpos = 344\<rparr>"
  using take_line_app [of "\<lparr>cbuf = stale_a @ CHR 0x0A # (stale_b @ CHR 0x0A # stale_c @ [CHR 0x00]), cpos = 599\<rparr>" stale_a]
  by (simp add: stale_parts)

definition stale_r :: string where
  "stale_r = stale_c @ CHR 0x00 # replicate 209 (CHR ''b'') @ CHR 0x0A # stale_c @ [CHR 0x00]"

lemma stale_take_b:
  "take_line 300 \<lparr>cbuf = stale_b @ CHR 0x0A # stale_r, cpos = 344\<rparr> = \<lparr>cbuf = stale_r @ stale_r, cpos = 44\<rparr>"
  using take_line_app [of "\<lparr>cbuf = stale_b @ CHR 0x0A # stale_r, cpos = 344\<rparr>" stale_b stale_r]
  by (simp add: stale_parts stale_r_def)

text \<open>The bytes that come next are put in front of what an earlier line left behind.\<close>

lemma stale_fill: "fill ''d'' \<lparr>cbuf = stale_r @ stale_r, cpos = 44\<rparr> =
   \<lparr>cbuf = (stale_c @ CHR ''d'' # replicate 209 (CHR ''b'')) @ CHR 0x0A # (stale_c @ CHR 0x00 # stale_r), cpos = 45\<rparr>"
  by (simp add: fill_def stale_r_def stale_parts)

lemma loop_line:
  assumes "d_open d ss" "cpos c \<noteq> 0" "first_line (cbuf c) = Some l"
  shows "commands_loop (Suc k) note_line ss first c inp d =
    (if 255 \<le> length l then commands_loop k note_line ss first (take_line (length l + 1) c) inp d
     else let d = d\<lparr>d_name := (d_name d)(9 := Some l)\<rparr>
       in if d_reloading d then Some (0, take_line (length l + 1) c, inp, d)
          else commands_loop k note_line ss first (take_line (length l + 1) c) inp d)"
  using assms by (simp add: note_line_def Let_def)

lemma loop_read:
  assumes "d_open d ss" "cpos c < 599" "cpos c = 0 \<or> first_line (cbuf c) = None" "inp \<noteq> []" "length inp \<le> 599 - cpos c"
  shows "commands_loop (Suc k) rl ss first c inp d =
    commands_loop k rl ss False (fill inp (if cpos c = 0 then c\<lparr>cbuf := replicate 600 (CHR 0x00)\<rparr> else c)) [] d"
  using assms by (auto simp: Let_def min_def)

lemma loop_idle:
  assumes "d_open d ss" "cpos c \<noteq> 0" "first_line (cbuf c) = None"
  shows "commands_loop (Suc k) rl ss False c [] d = Some (0, c, [], d)"
  using assms by simp

definition stale_input :: string where
  "stale_input = stale_a @ CHR 0x0A # (stale_b @ CHR 0x0A # stale_c)"

lemma stale_first:
  assumes "d_open d 0" "\<not> d_reloading d"
  shows "commands_loop 4 note_line 0 True conn0 stale_input d =
     Some (0, \<lparr>cbuf = stale_r @ stale_r, cpos = 44\<rparr>, [], d\<lparr>d_name := (d_name d)(9 := Some stale_a)\<rparr>)"
proof -
  have f: "fill stale_input \<lparr>cbuf = replicate 600 (CHR 0x00), cpos = 0\<rparr> =
      \<lparr>cbuf = stale_a @ CHR 0x0A # (stale_b @ CHR 0x0A # stale_c @ [CHR 0x00]), cpos = 599\<rparr>"
    by (simp add: fill_def stale_input_def stale_parts)
  have l: "first_line (stale_a @ CHR 0x0A # r) = Some stale_a" "first_line (stale_b @ CHR 0x0A # r) = Some stale_b"
    "first_line (stale_r @ r) = None" for r
    using first_line_end first_line_none by (simp_all add: stale_parts stale_r_def)
  have n: "4 = Suc (Suc (Suc (Suc 0)))" by simp
  have s: "stale_input \<noteq> []" "length stale_input = 599" by (simp_all add: stale_input_def stale_parts)
  show ?thesis
    unfolding n using assms s
    by (simp add: loop_read loop_line loop_idle conn0_def f l stale_parts stale_take_a stale_take_b stale_r_def [symmetric] del: commands_loop.simps)
qed

lemma stale_second:
  assumes "d_open d 0" "\<not> d_reloading d"
  shows "\<exists>c. commands_loop 3 note_line 0 False \<lparr>cbuf = stale_r @ stale_r, cpos = 44\<rparr> ''d'' d =
      Some (0, c, [], d\<lparr>d_name := (d_name d)(9 := Some (stale_c @ CHR ''d'' # replicate 209 (CHR ''b'')))\<rparr>) \<and>
    cpos c = 2 ^ 64 - 210 \<and> (\<exists>r. cbuf c = stale_c @ CHR 0x00 # r)"
proof -
  let ?l = "stale_c @ CHR ''d'' # replicate 209 (CHR ''b'')"
  let ?c = "\<lparr>cbuf = ?l @ CHR 0x0A # (stale_c @ CHR 0x00 # stale_r), cpos = 45\<rparr>"
  have l: "first_line (stale_r @ r) = None" "first_line (?l @ CHR 0x0A # r) = Some ?l" "first_line (stale_c @ CHR 0x00 # r) = None" for r
    using first_line_end [of ?l] first_line_none by (simp_all add: stale_parts stale_r_def)
  have t: "take_line 255 ?c = \<lparr>cbuf = (stale_c @ CHR 0x00 # stale_r) @ drop 345 (?l @ CHR 0x00 # (stale_c @ CHR 0x00 # stale_r)), cpos = 2 ^ 64 - 210\<rparr>"
    by (simp add: take_line_def Let_def list_update_append stale_parts stale_r_def)
  have n: "3 = Suc (Suc (Suc 0))" by simp
  have len: "length ?l = 254" by (simp add: stale_parts)
  show ?thesis
    unfolding n using assms len l t
    by (simp add: loop_read loop_line loop_idle stale_fill stale_parts del: commands_loop.simps)
qed

text \<open>
  Claim C39: after a full buffer, cbuf keeps bytes of old lines behind what it holds, and commands
  takes them for input: of the two pieces (599 bytes and one byte) neither completes the third
  line, but a line made of its first 44 bytes, the new byte and 209 bytes of an old line is run.
  The position is then behind the buffer, and the next byte is written there.
\<close>

theorem stale_bytes_run:
  assumes "d_open d 0" "\<not> d_reloading d"
  shows "\<exists>c1 d1 c2 d2. commands_loop 4 note_line 0 True conn0 (stale_a @ CHR 0x0A # (stale_b @ CHR 0x0A # stale_c)) d = Some (0, c1, [], d1) \<and>
    d_name d1 9 = Some stale_a \<and> cpos c1 = 44 \<and>
    commands_loop 3 note_line 0 False c1 ''d'' d1 = Some (0, c2, [], d2) \<and>
    d_name d2 9 = Some (stale_c @ ''d'' @ replicate 209 (CHR ''b'')) \<and>
    600 \<le> cpos c2 \<and> commands_loop k rl 0 False c2 ''e'' d2 = None"
proof -
  let ?d = "d\<lparr>d_name := (d_name d)(9 := Some stale_a)\<rparr>"
  have o: "d_open ?d 0" "\<not> d_reloading ?d" using assms by simp_all
  from stale_second [OF this] obtain c r where c: "commands_loop 3 note_line 0 False \<lparr>cbuf = stale_r @ stale_r, cpos = 44\<rparr> ''d'' ?d =
      Some (0, c, [], ?d\<lparr>d_name := (d_name ?d)(9 := Some (stale_c @ CHR ''d'' # replicate 209 (CHR ''b'')))\<rparr>)"
    "cpos c = 2 ^ 64 - 210" "cbuf c = stale_c @ CHR 0x00 # r" by blast
  have "first_line (cbuf c) = None" unfolding c(3) by (rule first_line_none) (simp_all add: stale_parts)
  then have "commands_loop k rl 0 False c ''e'' e = None" if "d_open e 0" for e using that c(2) by (cases k) simp_all
  then show ?thesis using stale_first [OF assms, unfolded stale_input_def] c o by fastforce
qed

theorem stale_bytes_run_witness:
  "\<exists>c1 d1. commands_loop 4 note_line 0 True conn0 (stale_a @ CHR 0x0A # (stale_b @ CHR 0x0A # stale_c)) demo_daemon = Some (0, c1, [], d1) \<and> cpos c1 = 44"
proof -
  have "d_open demo_daemon 0" "\<not> d_reloading demo_daemon" by (simp_all add: demo_daemon_def stdio_open_def globals0_def)
  from stale_bytes_run [OF this] show ?thesis by blast
qed

theorem commands_run_lines_witness:
  "\<exists>c'. commands_loop 4 note_line 0 True conn0 (join_lines [''noop'', ''qu''] ''lis'') demo_daemon =
     Some (0, c', [], demo_daemon\<lparr>d_name := (d_name demo_daemon)(9 := Some ''qu'')\<rparr>) \<and> holds c' ''lis''"
proof -
  have d: "d_open demo_daemon 0" "\<not> d_reloading demo_daemon" by (simp_all add: demo_daemon_def stdio_open_def globals0_def)
  have "feed note_line 0 [''noop'', ''qu''] ''lis'' demo_daemon = Some (0, ''lis'', demo_daemon\<lparr>d_name := (d_name demo_daemon)(9 := Some ''qu'')\<rparr>)"
    using d by (simp add: note_line_def)
  moreover have "case feed note_line 0 [''noop'', ''qu''] ''lis'' demo_daemon of None \<Rightarrow> commands_loop 4 note_line 0 True conn0 (join_lines [''noop'', ''qu''] ''lis'') demo_daemon = None
     | Some (cc, kept, d') \<Rightarrow> \<exists>c'. commands_loop 4 note_line 0 True conn0 (join_lines [''noop'', ''qu''] ''lis'') demo_daemon = Some (cc, c', [], d') \<and> holds c' kept"
    by (rule commands_run_lines [OF refl]) (use d in \<open>auto simp: conn0_def\<close>)
  ultimately show ?thesis by simp
qed

end
