(* ===== verification/Aftr_Loop.thy ===== *)
theory Aftr_Loop
  imports Aftr_Packet Aftr_House Aftr_Session
begin

text \<open>
  The main loop: one pass continues a reload, opens the sessions that ask for it, serves those that
  have sent something, takes at most \<open>quantum\<close> packets off the tunnel interface, and does a piece
  of the garbage collection, of the backtrack and of the housekeeping.
\<close>

section \<open>Operations\<close>

text \<open>
  What a pass finds outside: the clock, whether select was interrupted, the sessions that connect
  (their numbers and allocations), the sessions that are readable and what they sent, the
  packets with what each run of loop1 needs, the allocations of the resize and the random bytes.
\<close>

record tick =
  tk_now :: int
  tk_interrupted :: bool
  tk_accept :: "(nat \<times> (nat \<Rightarrow> bool)) list"
  tk_ready :: "nat \<Rightarrow> bool"
  tk_input :: "nat \<Rightarrow> string"
  tk_packets :: "(env \<times> bytes \<times> bytes \<times> bytes) list"
  tk_mem :: "nat \<Rightarrow> bool"
  tk_random :: bytes

record world =
  w_daemon :: daemon
  w_conn :: "nat \<Rightarrow> conn"
  w_stats :: hash_stats
  w_startsecs :: int
  w_lastsecs :: int

fun accept_sessions :: "(nat \<times> (nat \<Rightarrow> bool)) list \<Rightarrow> (nat \<Rightarrow> conn) \<Rightarrow> daemon \<Rightarrow> ((nat \<Rightarrow> conn) \<times> daemon) option" where
  "accept_sessions [] cs d = Some (cs, d)"
| "accept_sessions ((new, m) # as) cs d =
     (case unix_open m new d of
        None \<Rightarrow> None
      | Some (_, d) \<Rightarrow> accept_sessions as (cs(new := conn0)) d)"

text \<open>The successor in the list of the sessions, which the loop reads before it serves one.\<close>

definition next_session :: "nat \<Rightarrow> daemon \<Rightarrow> nat option" where
  "next_session ss d = (case dropWhile (\<lambda>x. x \<noteq> ss) (sslist (d_ctl d)) of _ # n # _ \<Rightarrow> Some n | _ \<Rightarrow> None)"

text \<open>
  A successor that a command has closed meanwhile is in the list of the orphans, which are all
  closed: nothing more is served.
\<close>

fun serve_sessions :: "nat \<Rightarrow> nat \<Rightarrow> (nat \<Rightarrow> string \<Rightarrow> daemon \<Rightarrow> result) \<Rightarrow> tick \<Rightarrow> nat option \<Rightarrow> (nat \<Rightarrow> conn) \<Rightarrow> daemon \<Rightarrow>
    (int \<times> (nat \<Rightarrow> conn) \<times> daemon) option" where
  "serve_sessions 0 k rl tk nxt cs d = None"
| "serve_sessions (Suc m) k rl tk nxt cs d =
     (case nxt of
        None \<Rightarrow> Some (0, cs, d)
      | Some ss \<Rightarrow>
          if ss \<notin> set (sslist (d_ctl d)) then Some (0, cs, d)
          else
            let tss = next_session ss d
            in if d_open d ss \<and> (cpos (cs ss) \<noteq> 0 \<or> tk_ready tk ss) then
                 (case commands k (rl ss) ss (cs ss) (tk_input tk ss) d of
                    None \<Rightarrow> None
                  | Some (cc, c, inp, d) \<Rightarrow>
                      if cc > 0 then Some (cc, cs(ss := c), d)
                      else serve_sessions m k rl tk tss (cs(ss := c)) d)
               else serve_sessions m k rl tk tss cs d)"

text \<open>The packets: the loop ends when a run fails, when there is none left or after \<open>cnt\<close> of them.\<close>

fun take_packets :: "nat \<Rightarrow> config \<Rightarrow> (env \<times> bytes \<times> bytes \<times> bytes) list \<Rightarrow> aftr \<Rightarrow> aftr option" where
  "take_packets 0 cfg ps s = Some s"
| "take_packets (Suc cnt) cfg [] s = Some s"
| "take_packets (Suc cnt) cfg ((env, buf, buf6, buf4) # ps) s =
     (case loop1 cfg env buf buf6 buf4 s of
        None \<Rightarrow> None
      | Some (r, s) \<Rightarrow> if r \<noteq> 0 then Some s else take_packets cnt cfg ps s)"

definition with_core :: "(aftr \<Rightarrow> aftr option) \<Rightarrow> daemon \<Rightarrow> daemon option" where
  "with_core f d = map_option (\<lambda>s. set_core s d) (f (core_of d))"

definition with_ctl :: "bool \<Rightarrow> (ctl \<Rightarrow> ctl option) \<Rightarrow> daemon \<Rightarrow> daemon option" where
  "with_ctl b f d = (if b then map_option (\<lambda>c. d\<lparr>d_ctl := c\<rparr>) (f (d_ctl d)) else Some d)"

text \<open>The last part of a pass, from the packets on; \<open>k\<close> is the fuel of the loops that expire.\<close>

definition loop_rest :: "nat \<Rightarrow> tick \<Rightarrow> world \<Rightarrow> world option" where
  "loop_rest k tk w =
     Option.bind (with_core (take_packets (d_quantum (w_daemon w)) (d_cfg (w_daemon w)) (tk_packets tk)) (w_daemon w)) (\<lambda>d.
     Option.bind (with_ctl (needgc (d_ctl d) \<noteq> 0) (gc_incr (d_cfg d) (d_quantum d)) d) (\<lambda>d.
     Option.bind (with_ctl (needbt (d_ctl d) \<noteq> 0) (\<lambda>c. Some (bt_incr (d_quantum d) c)) d) (\<lambda>d.
       map_option (\<lambda>(st, s). w\<lparr>w_daemon := set_core s d, w_stats := st, w_lastsecs := seconds s\<rparr>)
         (housekeeping k (d_cfg d) (w_startsecs w) (w_lastsecs w) (tk_mem tk) (tk_random tk) (w_stats w, core_of d)))))"

definition loop_pass :: "nat \<Rightarrow> (nat \<Rightarrow> string \<Rightarrow> daemon \<Rightarrow> result) \<Rightarrow> tick \<Rightarrow> world \<Rightarrow> (int \<times> world) option" where
  "loop_pass k rl tk w =
     Option.bind (if d_reloading (w_daemon w) then reload_incr rl (w_daemon w) else Some (w_daemon w)) (\<lambda>d.
       if tk_interrupted tk then Some (0, w\<lparr>w_daemon := d\<rparr>)
       else
         Option.bind (accept_sessions (tk_accept tk) (w_conn w) (set_core ((core_of d)\<lparr>seconds := tk_now tk\<rparr>) d)) (\<lambda>(cs, d).
         Option.bind (if d_reloading d then Some (0, cs, d)
                      else serve_sessions (length (sslist (d_ctl d)) + 1) k rl tk
                        (case sslist (d_ctl d) of [] \<Rightarrow> None | ss # _ \<Rightarrow> Some ss) cs d) (\<lambda>(cc, cs, d).
         let w = w\<lparr>w_daemon := d, w_conn := cs\<rparr>
         in if cc > 0 then Some (cc, w) else map_option (\<lambda>w. (0, w)) (loop_rest k tk w))))"

text \<open>main's \<open>while ((ret = loop()) == 0)\<close>, over the passes of a list.\<close>

fun main_loop :: "nat \<Rightarrow> (nat \<Rightarrow> string \<Rightarrow> daemon \<Rightarrow> result) \<Rightarrow> tick list \<Rightarrow> world \<Rightarrow> (int \<times> world) option" where
  "main_loop k rl [] w = Some (0, w)"
| "main_loop k rl (tk # tks) w =
     (case loop_pass k rl tk w of
        None \<Rightarrow> None
      | Some (r, w) \<Rightarrow> if r \<noteq> 0 then Some (r, w) else main_loop k rl tks w)"

section \<open>The settings over a run of the process\<close>

lemma same_conf_settings: "same_conf d res \<Longrightarrow> res = Some (r, e) \<Longrightarrow> settings_ok d \<Longrightarrow> settings_ok e"
  using sound_same unfolding sound_def by blast

lemma hang_up_settings: "hang_up ss d = Some e \<Longrightarrow> settings_ok d \<Longrightarrow> settings_ok e"
  using close_same_conf [of d ss] by (auto simp: hang_up_def dest: same_conf_settings split: if_splits)

lemma commands_loop_settings:
  assumes "line_keeper settings_ok rl"
  shows "commands_loop k rl ss first c inp d = Some (cc, c', inp', e) \<Longrightarrow> settings_ok d \<Longrightarrow> settings_ok e"
proof (induction k arbitrary: first c inp d)
  case (Suc k)
  show ?case
    using Suc.prems
    by (auto simp: Let_def split: if_splits option.splits) (blast intro: Suc.IH line_keeper.keeps [OF assms] hang_up_settings)+
qed simp

lemma commands_settings:
  assumes "line_keeper settings_ok rl" and "commands k rl ss c inp d = Some (cc, c', inp', e)" and "settings_ok d"
  shows "settings_ok e"
  using assms(2,3) by (auto simp: commands_def Let_def dest: commands_loop_settings [OF assms(1)])

lemma unix_open_settings:
  assumes "unix_open m new d = Some (r, e)" "settings_ok d"
  shows "settings_ok e"
proof -
  have same: "same_conf a (unix_close new a)" for a by (simp add: unix_close_def stdio_close_conf)
  have close: "unix_close new a = Some (i, b) \<Longrightarrow> settings_ok a \<Longrightarrow> settings_ok b" for a i b
    by (rule same_conf_settings [OF same])
  have "settings_ok (a\<lparr>d_stdio := f1\<rparr>) = settings_ok a" "settings_ok (a\<lparr>d_open := f2\<rparr>) = settings_ok a"
    "settings_ok (a\<lparr>d_name := f5\<rparr>) = settings_ok a" "settings_ok (a\<lparr>d_log := f6\<rparr>) = settings_ok a"
    "settings_ok (a\<lparr>d_notify := f6\<rparr>) = settings_ok a" for a f1 f2 f5 f6
    by (simp_all add: settings_ok_def)
  then show ?thesis
    using assms by (auto simp: unix_open_def Let_def split: if_splits prod.splits dest!: close)
qed

lemma accept_settings: "accept_sessions as cs d = Some (cs', e) \<Longrightarrow> settings_ok d \<Longrightarrow> settings_ok e"
  by (induction as cs d rule: accept_sessions.induct) (auto split: option.splits dest: unix_open_settings)

lemma serve_settings:
  assumes "\<And>ss. line_keeper settings_ok (rl ss)"
  shows "serve_sessions m k rl tk nxt cs d = Some (cc, cs', e) \<Longrightarrow> settings_ok d \<Longrightarrow> settings_ok e"
proof (induction m arbitrary: nxt cs d)
  case (Suc m)
  have run: "commands k (rl ss) ss c inp d = Some (cc, c', inp', f) \<Longrightarrow> settings_ok f" for ss c inp cc c' inp' f
    using commands_settings [OF assms] Suc.prems(2) by blast
  show ?case
    using Suc.prems by (auto simp: Let_def split: if_splits option.splits) (blast intro: Suc.IH run)+
qed simp

lemma reload_incr_settings:
  assumes keep: "\<And>ss. line_keeper settings_ok (rl ss)" and "reload_incr rl d = Some e" "settings_ok d"
  shows "settings_ok e"
  using assms(2,3) line_keeper.reload_keeps [OF keep]
  by (auto simp: reload_incr_def Let_def dest!: reload_finish_sound split: option.splits if_splits)

lemma with_settings:
  "with_core f d = Some e \<Longrightarrow> settings_ok e = settings_ok d" "with_ctl b g d = Some e \<Longrightarrow> settings_ok e = settings_ok d"
  by (auto simp: with_core_def with_ctl_def split: if_splits)

lemma loop_rest_settings: "loop_rest k tk w = Some w' \<Longrightarrow> settings_ok (w_daemon w) \<Longrightarrow> settings_ok (w_daemon w')"
  by (auto simp: loop_rest_def bind_eq_Some_conv with_settings)

lemma loop_pass_settings:
  assumes keep: "\<And>ss. line_keeper settings_ok (rl ss)" and run: "loop_pass k rl tk w = Some (r, w')" and ok: "settings_ok (w_daemon w)"
  shows "settings_ok (w_daemon w')"
proof -
  obtain d where d: "(if d_reloading (w_daemon w) then reload_incr rl (w_daemon w) else Some (w_daemon w)) = Some d"
    and rest: "(if tk_interrupted tk then Some (0, w\<lparr>w_daemon := d\<rparr>)
       else
         Option.bind (accept_sessions (tk_accept tk) (w_conn w) (set_core ((core_of d)\<lparr>seconds := tk_now tk\<rparr>) d)) (\<lambda>(cs, d).
         Option.bind (if d_reloading d then Some (0, cs, d)
                      else serve_sessions (length (sslist (d_ctl d)) + 1) k rl tk
                        (case sslist (d_ctl d) of [] \<Rightarrow> None | ss # _ \<Rightarrow> Some ss) cs d) (\<lambda>(cc, cs, d).
         let w = w\<lparr>w_daemon := d, w_conn := cs\<rparr>
         in if cc > 0 then Some (cc, w) else map_option (\<lambda>w. (0, w)) (loop_rest k tk w)))) = Some (r, w')"
    using run unfolding loop_pass_def by (auto simp: bind_eq_Some_conv)
  have d_ok: "settings_ok d" using d ok reload_incr_settings [OF keep] by (auto split: if_splits)
  show ?thesis
    using rest d_ok
    by (auto simp: bind_eq_Some_conv Let_def dest!: accept_settings serve_settings [OF keep] loop_rest_settings split: if_splits
        simp del: serve_sessions.simps)
qed

lemma main_loop_settings:
  assumes keep: "\<And>ss. line_keeper settings_ok (rl ss)"
  shows "main_loop k rl tks w = Some (r, w') \<Longrightarrow> settings_ok (w_daemon w) \<Longrightarrow> settings_ok (w_daemon w')"
proof (induction tks arbitrary: w)
  case (Cons tk tks)
  then show ?case using loop_pass_settings [OF keep] by (fastforce split: option.splits if_splits)
qed simp

text \<open>The state in which main enters the loop, after the configuration.\<close>

definition enter_loop :: "hash_stats \<Rightarrow> int \<Rightarrow> daemon \<Rightarrow> world" where
  "enter_loop st now d =
     \<lparr>w_daemon = d\<lparr>d_section := (d_section d)(0 := 8)\<rparr>, w_conn = (\<lambda>_. conn0), w_stats = st, w_startsecs = now, w_lastsecs = now\<rparr>"

text \<open>
  Claim C12: the settings of \<open>settings_ok\<close> stay in the ranges that the command handlers enforce:
  lifetimes of fragments and entries positive and bounded, the hold time and the counts of
  fragments bounded, the counts per tunnel, bucket sizes and rates not 0, port ranges not empty,
  a default MTU of at least 1280, one of the three too big policies, and a quantum between 2 and
  255. Every command line keeps them, whatever the session, the line, the files it loads and
  whether it returns an error; and a process that starts from the compiled-in values, reads its
  configuration file and runs the main loop has them in range in every pass, whatever its
  sessions send and its network brings. The decays are not among them: cmd_decay stores a value
  before it checks it. The ranges are those of the code: it refuses 0 for the fragment count, NAT
  count and NAT rate of a tunnel, which the documents allow.
\<close>

theorem settings_in_range:
  assumes "settings_ok d" and "cmdline env (exec k env rd) ss line d = Some (r, d')"
  shows "settings_ok d' \<and>
    (main_conf cenv (cmdline cenv (exec n cenv rd) 0) mem globals0 = Some (i, e) \<longrightarrow> settings_ok e \<and>
     (main_loop m (cmdline cenv (exec n cenv rd)) ticks (enter_loop st now e) = Some (q, w) \<longrightarrow> settings_ok (w_daemon w)))"
proof (intro conjI impI)
  show "settings_ok d'" by (rule settings.keeps [OF assms])
  assume "main_conf cenv (cmdline cenv (exec n cenv rd) 0) mem globals0 = Some (i, e)"
  then show e: "settings_ok e" using main_conf_settings start_settings by blast
  assume "main_loop m (cmdline cenv (exec n cenv rd)) ticks (enter_loop st now e) = Some (q, w)"
  then show "settings_ok (w_daemon w)"
    by (rule main_loop_settings [OF settings.line_keeper_axioms]) (use e in \<open>simp add: enter_loop_def\<close>)
qed

theorem settings_in_range_witness:
  "\<exists>d'. cmdline demo_env (exec 2 demo_env (\<lambda>_. True)) 0 ''default pool tcp 2000-3000'' demo_daemon = Some (0, d') \<and>
     poolmin (d_cfg d') TCPPR = 2000 \<and> poolmax (d_cfg d') TCPPR = 3000 \<and> settings_ok d'"
proof -
  obtain d' where run: "cmdline demo_env (exec 2 demo_env (\<lambda>_. True)) 0 ''default pool tcp 2000-3000'' demo_daemon = Some (0, d')"
    and vals: "poolmin (d_cfg d') TCPPR = 2000" "poolmax (d_cfg d') TCPPR = 3000"
    using demo_line by auto
  have "settings_ok demo_daemon" using start_settings by (simp add: demo_daemon_def)
  then show ?thesis using settings_in_range [OF _ run] run vals by blast
qed

end
