(* ===== verification/Spec2Isabelle.thy ===== *)
theory Spec2Isabelle
  imports Aftr_Filter Aftr_Daemon Aftr_Loop
begin

text \<open>
  A verification library of the DS-Lite address family transition router (AFTR) in
  \<^verbatim>\<open>src/wan-mode/src/aftr-1.1/aftr.c\<close>.

  \<^bold>\<open>The program.\<close> The AFTR is one process between the IPv6 tunnels of its clients and the IPv4
  Internet. A packet from a tunnel is taken out of its IPv6 header (decap, defrag6), checked
  (filterin, defrag), translated (natin, prrin, nonatin) and written to the Internet; a packet from
  the Internet is checked (filterout, defrag), translated back (natout, naticmpout, nonatout) and put into
  IPv6 (encap). Both use the same tables: tunnels (a radix tree with a hash table in front), NAT
  entries (a red-black tree over all, one splay tree for each tunnel, a hash table, a heap by expiry),
  address pools with their free, reserved and held ports, fragments, access lists. Commands from
  the configuration file and from control sessions change the same tables; reloads and closed sessions
  leave stale entries, which an incremental collector deletes between packets.

  \<^bold>\<open>How the model reads.\<close> The globals of aftr.c are the fields of the record \<open>aftr\<close> (Aftr_Types), those
  of the sessions and reloads are in \<open>ctl\<close> (Aftr_Static), those that only commands change in \<open>daemon\<close>
  (Aftr_Cmd), and those of the loop in \<open>world\<close> (Aftr_Loop). The compiled-in parameters that
  commands may change are the record \<open>config\<close>. A C function is the definition of the same name, which
  takes and returns the state; a loop of it is a function of its own. Pointers to tunnels, entries
  and fragments are the numbers under which the maps \<open>tunnels\<close>, \<open>nats\<close> and \<open>frags\<close> hold
  the structures, 0 is NULL, and a freed structure is no longer in the map. The parent pointers
  of the trees are the paths of a zipper. Integers are words of their width, or natural numbers with
  the wrap written out; packets are lists of bytes as long as the buffers of the code. \<open>None\<close> as the
  result of an operation is a behaviour that C leaves undefined, an exit, or too little fuel; each
  definition says which. What the code gets from outside is a parameter: whether each malloc
  succeeds and what it returns, the bytes of uninitialised stack, what tun_write returns, inet_pton,
  strtod, the lines of the files, what the sessions send, the clock and the random bytes. The packets
  written and the drops counted are the trace \<open>evs\<close>.

  \<^bold>\<open>The theories\<close>, each on top of the earlier ones:
  \<^item> Aftr_Prelude: words, byte lists, big-endian numbers, memcpy. Aftr_Cksum: in_cksum, pseudo_cksum,
    fix_cksum, fix_msscksum, fix_ftpsacksum; in_cksum is the sum of RFC 1071, and the updates keep a
    valid checksum valid. Aftr_Arc4: the random generator and the port draw. Aftr_Types: constants,
    structures, globals. Aftr_Jhash: the hashes.
  \<^item> Aftr_Frag: reassembly; it delivers what an abstract set of pieces delivers, and keeps its queues,
    counters and hash table. Aftr_Encap: encap with its two ways to fragment, toobigout.
  \<^item> Aftr_Compare, Aftr_RBTree, Aftr_Splay, Aftr_Heap: the orders on NAT entries and the structures they
    are in. Every operation keeps its structure and adds, removes or finds exactly what it should.
    The orders are an instance of the locale \<open>comparator\<close>, the heap one of \<open>expiry_queue\<close>.
  \<^item> Aftr_Pool: pools, port buckets, new_nat, del_nat, free_heldnats; a port is never in two places.
    Aftr_Acl: access lists and their commands. Aftr_Tunnel: the radix tree, the hash, add_stdtunnel,
    del_tunnel, the settings of a tunnel.
  \<^item> Aftr_Tcp, Aftr_Ftp, Aftr_Nat, Aftr_Packet: the MSS, the connection states, the FTP gateway, the
    translations, the filters and loop1.
  \<^item> Aftr_Flow: the trees and the hash of the flows agree (\<open>flow_inv\<close>), kept by every operation.
    Aftr_Lookup: a translated packet and its answer meet the same entry, and what comes back is
    what was sent with both checksums valid. Aftr_Filter: what the verdicts of the filters mean;
    their loops and decap return.
  \<^item> Aftr_Static: static bindings, prefixes, no-NAT tunnels, generations, gc_incr, bt_incr and their
    kin. Aftr_Binding: these keep the tables (\<open>conf_inv\<close>), and what the collector deletes.
    Aftr_House: expiry and the change of the hash table sizes; the deletion of an entry is the
    second instance of \<open>expiry_queue\<close>. Aftr_Daemon: the step relation of the whole daemon,
    whose reachable states have tables that agree; a binding that is added and deleted
    again; the collector comes to an end.
  \<^item> Aftr_Cmd: the command tables, cmd_dispatch, cmdline, all commands, files, reloads, sessions
    that open and close, and main up to the loop. Aftr_Command: every command keeps the settings in
    their ranges, and a reload is a transaction; the locale \<open>line_keeper\<close> is what the readers of
    files ask of the interpreter, with an instance for each of the two. Aftr_Session: the line buffer
    of a session. Aftr_Loop: a pass of loop and the loop of main, composed of all the others.

  \<^bold>\<open>Fuel.\<close> filterin, filterout and decap jump back after a reassembly or an option header; two passes are
  enough, which Aftr_Filter proves. fill_bucket draws at most ten ports and session_nextgen at most
  twenty numbers, as in the code. The collector needs one pass for each \<open>quantum\<close> stale entries and
  one more. The expiry of entries needs one pass more than the heap has entries (\<open>expiry_exact\<close>),
  commands_loop two more than lines (\<open>commands_run_lines\<close>). \<open>exec\<close> spends one unit for each nesting of a
  sub-command or a loaded file: without files two are enough, and a file that loads itself has no
  bound in the code either. arc4_getport may draw without end; the theorem says when it returns.

  \<^bold>\<open>Not modelled.\<close> Of aftr.c: print_*, list_* and the check_* routines of \<open>debug check\<close>, logging, statistics
  counters and the decayed rates, which only report; the option parsing of main, the listening sockets, the
  tun device, fork, signals and scripts, which are calls of the system. tcp4_open and
  tcp6_open repeat unix_open. The step relation of Aftr_Daemon takes the lookups, translations and commands
  as its steps; it leaves out del_tunnel, whose freed tunnel fragments may still point to, and the
  commands that delete no-NAT tunnels. Outside aftr.c: the UPnP and TR-PMP companions, radvd and
  ipsec-tools, which are separate (the last two third-party) programs, and the test
  scripts, which are not C.
\<close>

end
